(* ===== verification/Prelude.thy ===== *)
theory Prelude
  imports Main "HOL-Library.Word" "HOL-Library.Monad_Syntax"
begin

text \<open>
  Shared vocabulary of the development: the machine types the C++ sources use, the
  memory primitives of \<open>std::vector<char>\<close> and \<open>std::copy\<close>/\<open>memmove\<close>, the string
  primitives of \<open>std::string\<close>, the collections of simplification rules the components
  declare their lemmas into, and generic lemmas on lists, options and words.

  Conventions used throughout: a C++ operation that may fail an \<open>assert\<close>, call
  \<open>abort()\<close> or touch memory outside an object is a function into \<open>option\<close>, and
  \<open>None\<close> is that outcome (the process does not go on). A theorem that an operation
  returns \<open>Some\<close> is therefore a theorem that it neither aborts nor leaves its objects.
\<close>

section \<open>Types\<close>

type_synonym u64 = "64 word"
type_synonym u32 = "32 word"
type_synonym bytes = "char list"

named_theorems buffer_simps \<open>equations of the byte buffers on their readable bytes\<close>
named_theorems http_simps \<open>equations of the HTTP data types\<close>
named_theorems wheel_simps \<open>equations of the timer wheel\<close>
named_theorems reactor_simps \<open>equations of channels, pollers and event loops\<close>

section \<open>Machine words\<close>

lemma unat_plus_small:
  fixes a b :: "'a::len word"
  assumes "unat a + unat b < 2 ^ LENGTH('a)"
  shows "unat (a + b) = unat a + unat b"
  using assms by (simp add: unat_word_ariths)

lemma unat_minus_le:
  fixes a b :: "'a::len word"
  assumes "unat b \<le> unat a"
  shows "unat (a - b) = unat a - unat b"
  using assms by (simp add: unat_sub word_le_nat_alt)

lemma unat_word_of_nat_small:
  "n < 2 ^ LENGTH('a) \<Longrightarrow> unat (word_of_nat n :: 'a::len word) = n"
  by (simp add: unat_of_nat take_bit_eq_mod)

lemma unat_double_small:
  fixes a :: u64
  assumes "unat a < 2 ^ 63"
  shows "unat (a * 2) = 2 * unat a"
  using assms by (simp add: unat_word_ariths)

section \<open>Operations that return\<close>

text \<open>\<open>returns x P\<close>: the operation \<open>x\<close> returns, and its result satisfies \<open>P\<close>. It is the
  total-correctness statement of the development, and \<open>returns_bind\<close> carries it
  through sequential composition.\<close>

definition returns :: "'a option \<Rightarrow> ('a \<Rightarrow> bool) \<Rightarrow> bool" where
  "returns x P = (case x of None \<Rightarrow> False | Some y \<Rightarrow> P y)"

lemma returns_simps [simp]:
  "returns (Some y) P = P y"
  "returns None P = False"
  by (simp_all add: returns_def)

lemma returns_bind [simp]: "returns (x \<bind> f) P = returns x (\<lambda>y. returns (f y) P)"
  by (cases x) simp_all

lemma returns_map_option [simp]: "returns (map_option f x) P = returns x (\<lambda>y. P (f y))"
  by (cases x) simp_all

lemma returns_if [simp]:
  "returns (if c then x else y) P = (if c then returns x P else returns y P)"
  by simp

lemma returns_mono: "returns x Q \<Longrightarrow> (\<And>y. Q y \<Longrightarrow> P y) \<Longrightarrow> returns x P"
  by (cases x) auto

lemma returns_iff: "returns x P \<longleftrightarrow> (\<exists>y. x = Some y \<and> P y)"
  by (cases x) auto

lemma returnsE: "returns x P \<Longrightarrow> (\<And>y. x = Some y \<Longrightarrow> P y \<Longrightarrow> R) \<Longrightarrow> R"
  by (cases x) auto

lemma returns_SomeD: "returns x P \<Longrightarrow> x = Some y \<Longrightarrow> P y"
  by simp

section \<open>Memory of a vector of bytes\<close>

text \<open>Reading and overwriting a range of a vector; a range outside the vector is
  \<open>None\<close>.\<close>

definition mem_read :: "nat \<Rightarrow> nat \<Rightarrow> 'a list \<Rightarrow> 'a list option" where
  "mem_read off n m = (if off + n \<le> length m then Some (take n (drop off m)) else None)"

definition mem_write :: "nat \<Rightarrow> 'a list \<Rightarrow> 'a list \<Rightarrow> 'a list option" where
  "mem_write off xs m =
     (if off + length xs \<le> length m
      then Some (take off m @ xs @ drop (off + length xs) m) else None)"

lemma mem_read_Some [simp]:
  "off + n \<le> length m \<Longrightarrow> mem_read off n m = Some (take n (drop off m))"
  by (simp add: mem_read_def)

lemma mem_write_Some [simp]:
  "off + length xs \<le> length m \<Longrightarrow>
   mem_write off xs m = Some (take off m @ xs @ drop (off + length xs) m)"
  by (simp add: mem_write_def)

lemma length_mem_write: "mem_write off xs m = Some m' \<Longrightarrow> length m' = length m"
  by (auto simp: mem_write_def split: if_splits)

section \<open>Search in a byte sequence\<close>

text \<open>\<open>find_index P xs\<close> is the position of the first element that satisfies \<open>P\<close>, as
  \<open>memchr\<close> computes it.\<close>

fun find_index :: "('a \<Rightarrow> bool) \<Rightarrow> 'a list \<Rightarrow> nat option" where
  "find_index P [] = None"
| "find_index P (x # xs) = (if P x then Some 0 else map_option Suc (find_index P xs))"

lemma find_index_None_iff: "find_index P xs = None \<longleftrightarrow> (\<forall>x \<in> set xs. \<not> P x)"
  by (induction xs) auto

lemma find_index_SomeD:
  "find_index P xs = Some i \<Longrightarrow>
   i < length xs \<and> P (xs ! i) \<and> (\<forall>x \<in> set (take i xs). \<not> P x)"
  by (induction xs arbitrary: i) (auto split: if_splits)

lemma find_index_lt: "find_index P xs = Some i \<Longrightarrow> i < length xs"
  by (simp add: find_index_SomeD)

lemma find_index_append:
  "find_index P (xs @ ys) =
     (case find_index P xs of Some i \<Rightarrow> Some i
      | None \<Rightarrow> map_option (\<lambda>i. length xs + i) (find_index P ys))"
  by (induction xs; cases "find_index P ys") (auto split: option.splits)

lemma takeWhile_upto: "c \<notin> set m \<Longrightarrow> takeWhile (\<lambda>x. x \<noteq> c) (m @ c # r) = m"
  by (induction m) auto

text \<open>\<open>find_sub pat s\<close> is the position of the first occurrence of \<open>pat\<close>, and
  \<open>str_find pat off s\<close> is \<open>s.find(pat, off)\<close> with \<open>None\<close> for \<open>npos\<close>.\<close>

fun find_sub :: "'a list \<Rightarrow> 'a list \<Rightarrow> nat option" where
  "find_sub pat [] = (if pat = [] then Some 0 else None)"
| "find_sub pat (x # xs) =
     (if take (length pat) (x # xs) = pat then Some 0 else map_option Suc (find_sub pat xs))"

definition str_find :: "'a list \<Rightarrow> nat \<Rightarrow> 'a list \<Rightarrow> nat option" where
  "str_find pat off s =
     (if off \<le> length s then map_option (\<lambda>i. off + i) (find_sub pat (drop off s)) else None)"

lemma find_sub_SomeD:
  "find_sub pat s = Some i \<Longrightarrow> i + length pat \<le> length s \<and> take (length pat) (drop i s) = pat"
proof (induction s arbitrary: i)
  case (Cons x xs)
  show ?case
  proof (cases "take (length pat) (x # xs) = pat")
    case True
    then have "length pat \<le> length (x # xs)" by (metis length_take min.cobounded1)
    with True Cons.prems show ?thesis by auto
  next
    case False
    with Cons show ?thesis by auto
  qed
qed (auto split: if_splits)

lemma find_sub_single: "find_sub [c] s = find_index (\<lambda>x. x = c) s"
  by (induction s) auto

lemma str_find_ge: "str_find pat off s = Some i \<Longrightarrow> off \<le> i"
  by (auto simp: str_find_def split: if_splits)

section \<open>Characters\<close>

text \<open>\<open>code c\<close> is the byte value. The classification functions of \<open>ctype.h\<close> in the C
  locale.\<close>

abbreviation code :: "char \<Rightarrow> nat" where
  "code c \<equiv> of_char c"

definition is_digit :: "char \<Rightarrow> bool" where
  "is_digit c \<longleftrightarrow> 48 \<le> code c \<and> code c \<le> 57"

definition is_upper :: "char \<Rightarrow> bool" where
  "is_upper c \<longleftrightarrow> 65 \<le> code c \<and> code c \<le> 90"

definition is_lower :: "char \<Rightarrow> bool" where
  "is_lower c \<longleftrightarrow> 97 \<le> code c \<and> code c \<le> 122"

definition is_alpha :: "char \<Rightarrow> bool" where
  "is_alpha c \<longleftrightarrow> is_upper c \<or> is_lower c"

definition to_upper :: "char \<Rightarrow> char" where
  "to_upper c = (if is_lower c then char_of (code c - 32) else c)"

definition to_lower :: "char \<Rightarrow> char" where
  "to_lower c = (if is_upper c then char_of (code c + 32) else c)"

lemma code_lt_256: "code c < 256"
  using of_char_of [of "of_char c :: nat"] by (metis char_of_char mod_less_divisor zero_less_numeral)

lemma char_of_eq: "char_of n = c \<longleftrightarrow> n mod 256 = code c" "c = char_of n \<longleftrightarrow> code c = n mod 256"
  using char_of_eq_iff [of n c] by (auto simp: take_bit_eq_mod)

lemmas char_class_defs = is_digit_def is_upper_def is_lower_def is_alpha_def

end
