(* ===== verification/ByteQueue.thy ===== *)
theory ByteQueue
  imports Prelude
begin

text \<open>
  The contract a network buffer promises its clients: a queue of bytes. A buffer type
  has the bytes it holds (\<open>qbytes\<close>), an invariant, an operation that appends bytes and
  one that takes bytes from the front. Clients are programs of such operations; the
  lemmas of the locale say that running one on any implementation gives what the queue
  of bytes gives, aborts included, and that bytes come out in the order they went in.
\<close>

section \<open>Client programs and the specification queue\<close>

datatype qop = QWrite bytes | QRead u64

fun qspec :: "qop list \<Rightarrow> bytes \<Rightarrow> (bytes \<times> bytes) option" where
  "qspec [] s = Some ([], s)"
| "qspec (QWrite xs # ops) s = qspec ops (s @ xs)"
| "qspec (QRead n # ops) s =
     (if unat n \<le> length s
      then map_option (\<lambda>(out, s'). (take (unat n) s @ out, s')) (qspec ops (drop (unat n) s))
      else None)"

fun qrun :: "(bytes \<Rightarrow> 'q \<Rightarrow> 'q option) \<Rightarrow> (u64 \<Rightarrow> 'q \<Rightarrow> (bytes \<times> 'q) option) \<Rightarrow>
             qop list \<Rightarrow> 'q \<Rightarrow> (bytes \<times> 'q) option" where
  "qrun wr rd [] q = Some ([], q)"
| "qrun wr rd (QWrite xs # ops) q = wr xs q \<bind> qrun wr rd ops"
| "qrun wr rd (QRead n # ops) q =
     do { (xs, q1) \<leftarrow> rd n q; (out, q2) \<leftarrow> qrun wr rd ops q1; Some (xs @ out, q2) }"

fun qwritten :: "qop list \<Rightarrow> bytes" where
  "qwritten [] = []"
| "qwritten (QWrite xs # ops) = xs @ qwritten ops"
| "qwritten (QRead n # ops) = qwritten ops"

lemma qspec_fifo: "qspec ops s = Some (out, s') \<Longrightarrow> s @ qwritten ops = out @ s'"
proof (induction ops s arbitrary: out rule: qspec.induct)
  case (3 n ops s)
  then obtain o1 where "unat n \<le> length s" "qspec ops (drop (unat n) s) = Some (o1, s')"
    and out: "out = take (unat n) s @ o1"
    by (auto split: if_splits)
  then have "drop (unat n) s @ qwritten ops = o1 @ s'" using "3.IH" by blast
  moreover have "s @ qwritten ops = take (unat n) s @ (drop (unat n) s @ qwritten ops)"
    by (simp only: append_assoc [symmetric] append_take_drop_id)
  ultimately show ?case using out by simp
qed auto

section \<open>The interface\<close>

locale byte_queue =
  fixes qempty :: 'q
    and qbytes :: "'q \<Rightarrow> bytes"
    and qinv :: "'q \<Rightarrow> bool"
    and qwrite :: "bytes \<Rightarrow> 'q \<Rightarrow> 'q option"
    and qread :: "u64 \<Rightarrow> 'q \<Rightarrow> (bytes \<times> 'q) option"
  assumes inv_empty: "qinv qempty"
    and bytes_empty: "qbytes qempty = []"
    and write_law: "qinv q \<Longrightarrow> length (qbytes q) + 2 * length xs \<le> 2 ^ 62 \<Longrightarrow>
          returns (qwrite xs q) (\<lambda>q'. qinv q' \<and> qbytes q' = qbytes q @ xs)"
    and read_law: "qinv q \<Longrightarrow> unat n \<le> length (qbytes q) \<Longrightarrow>
          returns (qread n q) (\<lambda>(xs, q'). xs = take (unat n) (qbytes q) \<and> qinv q' \<and>
                                          qbytes q' = drop (unat n) (qbytes q))"
    and read_abort: "qinv q \<Longrightarrow> length (qbytes q) < unat n \<Longrightarrow> qread n q = None"
begin

lemma run_refines:
  assumes "qinv q" and "length (qbytes q) + 2 * length (qwritten ops) \<le> 2 ^ 62"
  shows "case qrun qwrite qread ops q of
           None \<Rightarrow> qspec ops (qbytes q) = None
         | Some (out, q') \<Rightarrow> qinv q' \<and> qspec ops (qbytes q) = Some (out, qbytes q')"
  using assms
proof (induction ops arbitrary: q)
  case Nil
  then show ?case by simp
next
  case (Cons a ops)
  show ?case
  proof (cases a)
    case (QWrite xs)
    obtain q' where q': "qwrite xs q = Some q'" "qinv q'" "qbytes q' = qbytes q @ xs"
      using write_law [of q xs] Cons.prems QWrite by (auto elim!: returnsE)
    with Cons.IH [of q'] Cons.prems QWrite show ?thesis by (auto split: option.splits)
  next
    case (QRead n)
    show ?thesis
    proof (cases "unat n \<le> length (qbytes q)")
      case True
      obtain q' where q': "qread n q = Some (take (unat n) (qbytes q), q')" "qinv q'"
          "qbytes q' = drop (unat n) (qbytes q)"
        using read_law [OF Cons.prems(1) True] by (auto elim!: returnsE)
      with Cons.IH [of q'] Cons.prems QRead True show ?thesis
        by (cases "qrun qwrite qread ops q'") auto
    next
      case False
      then show ?thesis using read_abort [of q n] Cons.prems QRead by simp
    qed
  qed
qed

lemma run_total:
  assumes "qinv q" and "length (qbytes q) + 2 * length (qwritten ops) \<le> 2 ^ 62"
  shows "qrun qwrite qread ops q = None \<longleftrightarrow> qspec ops (qbytes q) = None"
  using run_refines [OF assms] by (auto split: option.splits)

lemma run_fifo:
  assumes "length (qwritten ops) \<le> 2 ^ 61" and "qrun qwrite qread ops qempty = Some (out, q')"
  shows "qinv q'" and "out @ qbytes q' = qwritten ops"
  using run_refines [of qempty ops] qspec_fifo [of ops "[]" out "qbytes q'"] assms
  by (simp_all add: inv_empty bytes_empty)

end

end
