(* ===== verification/ByteBuffer.thy ===== *)
theory ByteBuffer
  imports ByteQueue
begin

text \<open>
  The class \<open>Buffer\<close> of \<open>src/http-v1/source/server.hpp\<close>: a growing byte buffer with a
  read index and a write index, both \<open>uint64_t\<close>. The vector is a list of bytes, the
  indices are 64-bit words with wrap-around, a pointer into the buffer is its offset
  from \<open>Begin()\<close>, and a read or a copy outside the vector is \<open>None\<close>.

  The theory shows that every operation keeps the index invariant, that under it no
  assertion fails and no copy leaves the vector, and that the class implements a queue
  of bytes (the locale \<open>byte_queue\<close>).
\<close>

section \<open>State and operations\<close>

record Buffer =
  buf_store :: bytes
  reader_idx :: u64
  writer_idx :: u64

definition DEFAULT_BUFFER_SIZE :: nat where
  "DEFAULT_BUFFER_SIZE = 1024"

definition Buffer_new :: Buffer where
  "Buffer_new = \<lparr>buf_store = replicate DEFAULT_BUFFER_SIZE (CHR 0x00),
                 reader_idx = 0, writer_idx = 0\<rparr>"

text \<open>\<open>_buffer.size()\<close>.\<close>

definition store_size :: "Buffer \<Rightarrow> u64" where
  "store_size b = word_of_nat (length (buf_store b))"

text \<open>\<open>WritePos\<close> and \<open>ReadPos\<close> as offsets from \<open>Begin()\<close>.\<close>

definition WritePos :: "Buffer \<Rightarrow> nat" where
  "WritePos b = unat (writer_idx b)"

definition ReadPos :: "Buffer \<Rightarrow> nat" where
  "ReadPos b = unat (reader_idx b)"

definition ReadAbleSize :: "Buffer \<Rightarrow> u64" where
  "ReadAbleSize b = writer_idx b - reader_idx b"

definition TailIdleSize :: "Buffer \<Rightarrow> u64" where
  "TailIdleSize b = store_size b - writer_idx b"

definition HeadIdleSize :: "Buffer \<Rightarrow> u64" where
  "HeadIdleSize b = reader_idx b"

definition MoveReadOffset :: "u64 \<Rightarrow> Buffer \<Rightarrow> Buffer option" where
  "MoveReadOffset len b =
     (if len \<le> ReadAbleSize b then Some (b\<lparr>reader_idx := reader_idx b + len\<rparr>) else None)"

definition MoveWriteOffset :: "u64 \<Rightarrow> Buffer \<Rightarrow> Buffer option" where
  "MoveWriteOffset len b =
     (if len \<le> TailIdleSize b then Some (b\<lparr>writer_idx := writer_idx b + len\<rparr>) else None)"

definition Read :: "u64 \<Rightarrow> Buffer \<Rightarrow> (bytes \<times> Buffer) option" where
  "Read len b =
     (if len \<le> ReadAbleSize b
      then do {
        xs \<leftarrow> mem_read (ReadPos b) (unat len) (buf_store b);
        b' \<leftarrow> MoveReadOffset len b;
        Some (xs, b')
      }
      else None)"

definition ReadAsString :: "u64 \<Rightarrow> Buffer \<Rightarrow> (bytes \<times> Buffer) option" where
  "ReadAsString len b = (if len \<le> ReadAbleSize b then Read len b else None)"

text \<open>The growth loop of \<open>EnsureWriteSpace\<close>: doubling on \<open>uint64_t\<close>, which may run
  forever once the doubling wraps around to 0.\<close>

partial_function (option) grow_size :: "u64 \<Rightarrow> u64 \<Rightarrow> u64 option" where
  "grow_size new_size need_size =
     (if new_size < need_size then grow_size (new_size * 2) need_size else Some new_size)"

text \<open>\<open>std::vector<char>::resize\<close> to a larger size: it keeps the contents and appends
  zero bytes, and throws above \<open>max_size()\<close>, which is \<open>PTRDIFF_MAX\<close>.\<close>

definition vector_resize :: "nat \<Rightarrow> bytes \<Rightarrow> bytes option" where
  "vector_resize n xs =
     (if n < 2 ^ 63 then Some (take n xs @ replicate (n - length xs) (CHR 0x00)) else None)"

definition EnsureWriteSpace :: "u64 \<Rightarrow> Buffer \<Rightarrow> Buffer option" where
  "EnsureWriteSpace len b =
     (if len \<le> TailIdleSize b then Some b
      else if len \<le> TailIdleSize b + HeadIdleSize b then
        (let readable = ReadAbleSize b in do {
          xs \<leftarrow> mem_read (ReadPos b) (unat readable) (buf_store b);
          m \<leftarrow> mem_write 0 xs (buf_store b);
          Some (b\<lparr>buf_store := m, reader_idx := 0, writer_idx := readable\<rparr>)
        })
      else
        (let need_size = writer_idx b + len in do {
          n \<leftarrow> grow_size (store_size b) need_size;
          m \<leftarrow> vector_resize (unat n) (buf_store b);
          Some (b\<lparr>buf_store := m\<rparr>)
        }))"

text \<open>\<open>Write(const void *data, uint64_t len)\<close>: the pointer is \<open>None\<close> for \<open>nullptr\<close> and
  otherwise the bytes it points to; reading beyond them is out of bounds. (Named
  \<open>Buffer_Write\<close>; the other operations keep their names.)\<close>

definition Buffer_Write :: "bytes option \<Rightarrow> u64 \<Rightarrow> Buffer \<Rightarrow> Buffer option" where
  "Buffer_Write data len b =
     (if len = 0 then Some b
      else case data of
        None \<Rightarrow> None
      | Some d \<Rightarrow> do {
          b1 \<leftarrow> EnsureWriteSpace len b;
          xs \<leftarrow> mem_read 0 (unat len) d;
          m \<leftarrow> mem_write (WritePos b1) xs (buf_store b1);
          MoveWriteOffset len (b1\<lparr>buf_store := m\<rparr>)
        })"

definition WriteString :: "bytes \<Rightarrow> Buffer \<Rightarrow> Buffer option" where
  "WriteString data b = Buffer_Write (Some data) (word_of_nat (length data)) b"

text \<open>\<open>WriteBuffer\<close> appends the readable bytes of another buffer; the pointer
  \<open>data.ReadPos()\<close> is the tail of the source's vector from its read index.\<close>

definition WriteBuffer :: "Buffer \<Rightarrow> Buffer \<Rightarrow> Buffer option" where
  "WriteBuffer src b =
     Buffer_Write (Some (drop (ReadPos src) (buf_store src))) (ReadAbleSize src) b"

definition WriteBufferAndConsume :: "Buffer \<Rightarrow> Buffer \<Rightarrow> (Buffer \<times> Buffer) option" where
  "WriteBufferAndConsume src b =
     (let len = ReadAbleSize src in do {
        b' \<leftarrow> Buffer_Write (Some (drop (ReadPos src) (buf_store src))) len b;
        src' \<leftarrow> MoveReadOffset len src;
        Some (src', b')
      })"

text \<open>\<open>FindCRLF\<close>: \<open>memchr\<close> for a line feed in the readable range; the result is the
  offset from \<open>ReadPos()\<close>, the inner \<open>None\<close> is \<open>nullptr\<close>.\<close>

definition FindCRLF :: "Buffer \<Rightarrow> (nat option) option" where
  "FindCRLF b = do {
     xs \<leftarrow> mem_read (ReadPos b) (unat (ReadAbleSize b)) (buf_store b);
     Some (find_index (\<lambda>c. c = CHR 0x0A) xs)
   }"

definition GetLine :: "Buffer \<Rightarrow> (bytes \<times> Buffer) option" where
  "GetLine b = do {
     pos \<leftarrow> FindCRLF b;
     (case pos of
        None \<Rightarrow> Some ('''', b)
      | Some i \<Rightarrow> ReadAsString (word_of_nat (i + 1)) b)
   }"

definition Clear :: "Buffer \<Rightarrow> Buffer" where
  "Clear b = b\<lparr>reader_idx := 0, writer_idx := 0\<rparr>"

section \<open>Invariant and readable bytes\<close>

definition buffer_inv :: "Buffer \<Rightarrow> bool" where
  "buffer_inv b \<longleftrightarrow>
     unat (reader_idx b) \<le> unat (writer_idx b) \<and>
     unat (writer_idx b) \<le> length (buf_store b) \<and>
     0 < length (buf_store b) \<and> length (buf_store b) < 2 ^ 63"

definition readable :: "Buffer \<Rightarrow> bytes" where
  "readable b =
     take (unat (writer_idx b) - unat (reader_idx b)) (drop (unat (reader_idx b)) (buf_store b))"

lemma buffer_invD:
  assumes "buffer_inv b"
  shows "unat (reader_idx b) \<le> unat (writer_idx b)"
    and "unat (writer_idx b) \<le> length (buf_store b)"
    and "0 < length (buf_store b)" and "length (buf_store b) < 2 ^ 63"
  using assms by (auto simp: buffer_inv_def)

lemma length_readable:
  "buffer_inv b \<Longrightarrow> length (readable b) = unat (writer_idx b) - unat (reader_idx b)"
  by (auto simp: buffer_inv_def readable_def)

lemma Buffer_new_inv [simp]: "buffer_inv Buffer_new"
  by (simp add: buffer_inv_def Buffer_new_def DEFAULT_BUFFER_SIZE_def)

lemma readable_new [simp]: "readable Buffer_new = []"
  by (simp add: readable_def Buffer_new_def)

lemma unat_ReadAbleSize [buffer_simps]:
  "buffer_inv b \<Longrightarrow> unat (ReadAbleSize b) = length (readable b)"
  by (simp add: length_readable ReadAbleSize_def unat_minus_le buffer_invD)

lemma unat_store_size: "buffer_inv b \<Longrightarrow> unat (store_size b) = length (buf_store b)"
  unfolding store_size_def by (rule unat_word_of_nat_small) (simp add: buffer_inv_def)

lemma unat_TailIdleSize [buffer_simps]:
  "buffer_inv b \<Longrightarrow> unat (TailIdleSize b) = length (buf_store b) - unat (writer_idx b)"
  unfolding TailIdleSize_def
  by (subst unat_minus_le) (simp_all add: unat_store_size, simp add: buffer_inv_def)

lemma length_readable_bound: "buffer_inv b \<Longrightarrow> length (readable b) < 2 ^ 63"
  using buffer_invD [of b] by (simp add: length_readable)

lemma ReadAbleSize_word:
  "buffer_inv b \<Longrightarrow> ReadAbleSize b = word_of_nat (length (readable b))"
  by (simp add: word_unat_eq_iff unat_ReadAbleSize unat_word_of_nat_small
      less_trans [OF length_readable_bound])

lemma mem_read_readable [buffer_simps]:
  assumes "buffer_inv b" and "n \<le> length (readable b)"
  shows "mem_read (ReadPos b) n (buf_store b) = Some (take n (readable b))"
proof -
  have n: "n \<le> unat (writer_idx b) - unat (reader_idx b)"
    using assms by (simp add: length_readable)
  then have "unat (reader_idx b) + n \<le> length (buf_store b)"
    using buffer_invD [OF assms(1)] by simp
  with n show ?thesis by (simp add: ReadPos_def readable_def min.absorb1)
qed

section \<open>Reading\<close>

lemma MoveReadOffset_ok:
  assumes "buffer_inv b" and "unat len \<le> length (readable b)"
  shows "returns (MoveReadOffset len b)
           (\<lambda>b'. buffer_inv b' \<and> readable b' = drop (unat len) (readable b) \<and>
                 buf_store b' = buf_store b)"
proof -
  have "unat (reader_idx b) + unat len \<le> unat (writer_idx b)"
    using assms buffer_invD [OF assms(1)] by (simp add: length_readable)
  then have r: "unat (reader_idx b + len) = unat (reader_idx b) + unat len"
    using buffer_invD [OF assms(1)] by (intro unat_plus_small) simp
  have "len \<le> ReadAbleSize b"
    using assms by (simp add: word_le_nat_alt unat_ReadAbleSize)
  moreover have "buffer_inv (b\<lparr>reader_idx := reader_idx b + len\<rparr>)"
    using assms r by (auto simp: length_readable buffer_inv_def)
  moreover have "readable (b\<lparr>reader_idx := reader_idx b + len\<rparr>) = drop (unat len) (readable b)"
    using r by (simp add: readable_def drop_take add.commute)
  ultimately show ?thesis by (simp add: MoveReadOffset_def)
qed

lemma MoveReadOffset_abort:
  "buffer_inv b \<Longrightarrow> length (readable b) < unat len \<Longrightarrow> MoveReadOffset len b = None"
  by (simp add: MoveReadOffset_def word_le_nat_alt unat_ReadAbleSize)

lemma Read_ok:
  assumes "buffer_inv b" and "unat len \<le> length (readable b)"
  shows "returns (Read len b)
           (\<lambda>(xs, b'). xs = take (unat len) (readable b) \<and> buffer_inv b' \<and>
                       readable b' = drop (unat len) (readable b))"
proof -
  have "len \<le> ReadAbleSize b"
    using assms by (simp add: word_le_nat_alt unat_ReadAbleSize)
  then show ?thesis
    using assms by (auto simp: Read_def buffer_simps intro: returns_mono [OF MoveReadOffset_ok])
qed

lemma ReadAsString_ok:
  assumes "buffer_inv b" and "unat len \<le> length (readable b)"
  shows "returns (ReadAsString len b)
           (\<lambda>(xs, b'). xs = take (unat len) (readable b) \<and> buffer_inv b' \<and>
                       readable b' = drop (unat len) (readable b))"
  using Read_ok [OF assms] assms
  by (simp add: ReadAsString_def word_le_nat_alt unat_ReadAbleSize)

lemma ReadAsString_abort:
  "buffer_inv b \<Longrightarrow> length (readable b) < unat len \<Longrightarrow> ReadAsString len b = None"
  by (simp add: ReadAsString_def word_le_nat_alt unat_ReadAbleSize)

lemma FindCRLF_ok [buffer_simps]:
  "buffer_inv b \<Longrightarrow> FindCRLF b = Some (find_index (\<lambda>c. c = CHR 0x0A) (readable b))"
  by (simp add: FindCRLF_def buffer_simps)

text \<open>\<open>GetLine\<close> on the readable bytes: everything up to and including the first line
  feed, or nothing.\<close>

definition line_of :: "bytes \<Rightarrow> bytes" where
  "line_of s = (case find_index (\<lambda>c. c = CHR 0x0A) s of None \<Rightarrow> [] | Some i \<Rightarrow> take (i + 1) s)"

lemma line_of_prefix: "take (length (line_of s)) s = line_of s"
  by (auto simp: line_of_def min_def dest: find_index_lt split: option.splits)

lemma length_line_of_le [simp]: "length (line_of s) \<le> length s"
  by (auto simp: line_of_def split: option.splits)

lemma line_of_spec:
  "line_of s @ drop (length (line_of s)) s = s"
  "line_of s = [] \<longleftrightarrow> CHR 0x0A \<notin> set s"
  "line_of s \<noteq> [] \<Longrightarrow> last (line_of s) = CHR 0x0A \<and> CHR 0x0A \<notin> set (butlast (line_of s))"
proof -
  show "line_of s @ drop (length (line_of s)) s = s"
    using append_take_drop_id [of "length (line_of s)" s] unfolding line_of_prefix .
  show "line_of s = [] \<longleftrightarrow> CHR 0x0A \<notin> set s"
    using find_index_None_iff [of "\<lambda>c. c = CHR 0x0A" s]
    by (cases "find_index (\<lambda>c. c = CHR 0x0A) s") (auto simp: line_of_def)
  assume "line_of s \<noteq> []"
  then obtain i where i: "find_index (\<lambda>c. c = CHR 0x0A) s = Some i" and l: "line_of s = take (i + 1) s"
    by (auto simp: line_of_def split: option.splits)
  then have "line_of s = take i s @ [CHR 0x0A]"
    using find_index_SomeD [OF i] by (simp add: take_Suc_conv_app_nth)
  then show "last (line_of s) = CHR 0x0A \<and> CHR 0x0A \<notin> set (butlast (line_of s))"
    using find_index_SomeD [OF i] by auto
qed

lemma GetLine_ok:
  assumes "buffer_inv b"
  shows "returns (GetLine b)
           (\<lambda>(l, b'). l = line_of (readable b) \<and> buffer_inv b' \<and>
                      readable b' = drop (length (line_of (readable b))) (readable b))"
proof (cases "find_index (\<lambda>c. c = CHR 0x0A) (readable b)")
  case None
  then show ?thesis using assms by (simp add: GetLine_def buffer_simps line_of_def)
next
  case (Some i)
  then have i: "i < length (readable b)" by (rule find_index_lt)
  then have u: "unat (word_of_nat (i + 1) :: u64) = i + 1"
    using length_readable_bound [OF assms] by (intro unat_word_of_nat_small) simp
  have "returns (ReadAsString (word_of_nat (i + 1)) b)
          (\<lambda>(xs, b'). xs = take (i + 1) (readable b) \<and> buffer_inv b' \<and>
                      readable b' = drop (i + 1) (readable b))"
    using ReadAsString_ok [OF assms, of "word_of_nat (i + 1)"] i u by simp
  then show ?thesis
    using Some assms i by (simp add: GetLine_def buffer_simps line_of_def min.absorb2)
qed

text \<open>A non-empty line shortens what is readable, whatever the state of the buffer: the
  loops over lines terminate by it.\<close>

lemma ReadAsString_decreases:
  assumes "ReadAsString len b = Some (xs, b')" and "len \<noteq> 0"
  shows "unat (ReadAbleSize b') < unat (ReadAbleSize b)"
proof -
  have le: "len \<le> ReadAbleSize b" and b': "b' = b\<lparr>reader_idx := reader_idx b + len\<rparr>"
    using assms(1)
    by (auto simp: ReadAsString_def Read_def MoveReadOffset_def mem_read_def bind_eq_Some_conv split: if_splits)
  have "ReadAbleSize b' = ReadAbleSize b - len"
    by (simp add: b' ReadAbleSize_def algebra_simps)
  moreover have "0 < unat len" using assms(2) by (simp add: unat_gt_0)
  ultimately show ?thesis
    using le by (simp add: unat_sub word_le_nat_alt)
qed

lemma ReadAsString_length: "ReadAsString len b = Some (xs, b') \<Longrightarrow> length xs = unat len"
  by (auto simp: ReadAsString_def Read_def mem_read_def bind_eq_Some_conv split: if_splits)

lemma GetLine_decreases:
  assumes "GetLine b = Some (l, b')" and "l \<noteq> []"
  shows "unat (ReadAbleSize b') < unat (ReadAbleSize b)"
proof -
  obtain i where r: "ReadAsString (word_of_nat (i + 1)) b = Some (l, b')"
    using assms by (auto simp: GetLine_def bind_eq_Some_conv split: option.splits)
  moreover have "word_of_nat (i + 1) \<noteq> (0 :: u64)"
    using ReadAsString_length [OF r] assms(2) by auto
  ultimately show ?thesis by (rule ReadAsString_decreases)
qed

section \<open>Growing\<close>

text \<open>The doubling loop returns whenever the needed size is at most \<open>2^63\<close>.\<close>

lemma grow_size_returns:
  assumes "0 < unat n" and "unat need \<le> 2 ^ 63"
  shows "returns (grow_size n need)
           (\<lambda>r. unat need \<le> unat r \<and> unat n \<le> unat r \<and>
                (r = n \<or> unat r < 2 * unat need))"
  using assms(1)
proof (induction "unat need - unat n" arbitrary: n rule: less_induct)
  case less
  show ?case
  proof (cases "n < need")
    case False
    then show ?thesis by (simp add: grow_size.simps [of n need] word_less_nat_alt)
  next
    case True
    then have lt: "unat n < unat need" by (simp add: word_less_nat_alt)
    then have d: "unat (n * 2) = 2 * unat n"
      using assms(2) by (intro unat_double_small) simp
    have "returns (grow_size (n * 2) need)
            (\<lambda>r. unat need \<le> unat r \<and> unat (n * 2) \<le> unat r \<and>
                 (r = n * 2 \<or> unat r < 2 * unat need))"
      using less lt d by (intro less.hyps) simp_all
    then show ?thesis
      using True lt d by (auto simp: grow_size.simps [of n need] elim!: returns_mono)
  qed
qed

text \<open>From a power of two it never returns once the needed size is above \<open>2^63\<close>: the
  doubling wraps around to 0 and stays there.\<close>

lemma grow_size_zero: "0 < need \<Longrightarrow> grow_size 0 need = None"
proof (rule ccontr)
  assume need: "0 < need" and "grow_size 0 need \<noteq> None"
  then obtain r where "grow_size 0 need = Some r" by auto
  then show False
  proof (rule grow_size.raw_induct [where P = "\<lambda>n m r. n = 0 \<and> 0 < m \<longrightarrow> False", THEN mp, rotated])
    show "(0 :: u64) = 0 \<and> 0 < need" using need by simp
  qed (auto split: if_splits)
qed

lemma grow_size_diverges:
  assumes "k \<le> 63" and "2 ^ 63 < unat need"
  shows "grow_size (2 ^ k) need = None"
  using assms(1)
proof (induction "63 - k" arbitrary: k)
  case 0
  then have k: "k = 63" by simp
  have "(2 :: u64) ^ 63 < need" using assms(2) by (simp add: word_less_nat_alt)
  moreover have "grow_size (2 ^ 63 * 2) need = None"
  proof -
    have "(2 :: u64) ^ 63 * 2 = 0" by (simp add: word_unat_eq_iff unat_word_ariths)
    moreover have "0 < need" using assms(2) by (simp add: word_less_nat_alt)
    ultimately show ?thesis using grow_size_zero by metis
  qed
  ultimately show ?case unfolding k by (subst grow_size.simps) simp
next
  case (Suc j)
  then have "grow_size (2 ^ Suc k) need = None" by (intro Suc.hyps(1)) simp_all
  moreover have le: "(2 :: nat) ^ k \<le> 2 ^ 63" using Suc.prems by (intro power_increasing) simp_all
  moreover have "unat ((2 :: u64) ^ k) = 2 ^ k"
    using unat_word_of_nat_small [of "2 ^ k", where 'a = 64] le by simp
  ultimately show ?case
    using assms(2) by (subst grow_size.simps) (simp add: word_less_nat_alt mult.commute)
qed

lemma vector_resize_grow:
  "length xs \<le> n \<Longrightarrow> n < 2 ^ 63 \<Longrightarrow>
   vector_resize n xs = Some (xs @ replicate (n - length xs) (CHR 0x00))"
  by (simp add: vector_resize_def)

lemma readable_store_append:
  "buffer_inv b \<Longrightarrow> readable (b\<lparr>buf_store := buf_store b @ ys\<rparr>) = readable b"
  using buffer_invD [of b] by (simp add: readable_def)

lemma readable_reset:
  "readable (b\<lparr>buf_store := m, reader_idx := 0, writer_idx := w\<rparr>) = take (unat w) m"
  by (simp add: readable_def)

lemma EnsureWriteSpace_compact:
  assumes "buffer_inv b"
  shows "returns (do {
           xs \<leftarrow> mem_read (ReadPos b) (unat (ReadAbleSize b)) (buf_store b);
           m \<leftarrow> mem_write 0 xs (buf_store b);
           Some (b\<lparr>buf_store := m, reader_idx := 0, writer_idx := ReadAbleSize b\<rparr>) })
          (\<lambda>b'. buffer_inv b' \<and> readable b' = readable b \<and>
                unat (writer_idx b') = length (readable b) \<and>
                length (buf_store b') = length (buf_store b))"
proof -
  have "length (readable b) \<le> length (buf_store b)"
    using assms buffer_invD [OF assms] by (simp add: length_readable)
  then show ?thesis
    using assms buffer_invD [OF assms]
    by (simp add: buffer_simps readable_reset) (simp add: buffer_inv_def buffer_simps)
qed

lemma EnsureWriteSpace_ok:
  assumes inv: "buffer_inv b" and fits: "length (readable b) + 2 * unat len \<le> 2 ^ 62"
  shows "returns (EnsureWriteSpace len b)
           (\<lambda>b'. buffer_inv b' \<and> readable b' = readable b \<and>
                 unat (writer_idx b') + unat len \<le> length (buf_store b'))"
proof -
  let ?w = "unat (writer_idx b)" and ?r = "unat (reader_idx b)" and ?n = "length (buf_store b)"
  note D = buffer_invD [OF inv]
  have tail: "unat (TailIdleSize b) = ?n - ?w" using inv by (rule unat_TailIdleSize)
  have idle: "unat (TailIdleSize b + HeadIdleSize b) = (?n - ?w) + ?r"
    using D tail by (subst unat_plus_small) (simp_all add: HeadIdleSize_def)
  consider (enough) "len \<le> TailIdleSize b"
    | (compact) "\<not> len \<le> TailIdleSize b" "len \<le> TailIdleSize b + HeadIdleSize b"
    | (grow) "\<not> len \<le> TailIdleSize b" "\<not> len \<le> TailIdleSize b + HeadIdleSize b"
    by blast
  then show ?thesis
  proof cases
    case enough
    then show ?thesis
      using inv D tail by (simp add: EnsureWriteSpace_def word_le_nat_alt)
  next
    case compact
    then have "length (readable b) + unat len \<le> ?n"
      using D idle inv by (simp add: word_le_nat_alt length_readable)
    with compact EnsureWriteSpace_compact [OF inv] show ?thesis
      unfolding EnsureWriteSpace_def Let_def by (auto elim!: returns_mono simp del: returns_bind)
  next
    case grow
    then have big: "?n < length (readable b) + unat len"
      using D idle inv by (simp add: word_le_nat_alt length_readable)
    then have need: "unat (writer_idx b + len) = ?w + unat len"
      using D fits by (intro unat_plus_small) simp
    have "returns (grow_size (store_size b) (writer_idx b + len))
            (\<lambda>r. ?w + unat len \<le> unat r \<and> ?n \<le> unat r \<and> unat r < 2 ^ 63)"
      using grow_size_returns [of "store_size b" "writer_idx b + len"] need big D fits inv
      by (auto simp: unat_store_size elim!: returns_mono)
    then show ?thesis
      using grow D inv unfolding EnsureWriteSpace_def Let_def
      by (auto simp: vector_resize_grow readable_store_append buffer_inv_def elim!: returns_mono)
  qed
qed

text \<open>Whenever it returns at all, whatever the sizes, there is room.\<close>

lemma grow_size_SomeD: "grow_size n need = Some r \<Longrightarrow> need \<le> r"
  by (rule grow_size.raw_induct [where P = "\<lambda>n m r. m \<le> r"]) (auto split: if_splits)

lemma EnsureWriteSpace_SomeD:
  assumes inv: "buffer_inv b" and len: "unat len < 2 ^ 63" and some: "EnsureWriteSpace len b = Some b'"
  shows "buffer_inv b' \<and> readable b' = readable b \<and> unat (writer_idx b') + unat len \<le> length (buf_store b')"
proof -
  let ?w = "unat (writer_idx b)" and ?r = "unat (reader_idx b)" and ?n = "length (buf_store b)"
  note D = buffer_invD [OF inv]
  have tail: "unat (TailIdleSize b) = ?n - ?w" using inv by (rule unat_TailIdleSize)
  have idle: "unat (TailIdleSize b + HeadIdleSize b) = (?n - ?w) + ?r"
    using D tail by (subst unat_plus_small) (simp_all add: HeadIdleSize_def)
  consider (enough) "len \<le> TailIdleSize b"
    | (compact) "\<not> len \<le> TailIdleSize b" "len \<le> TailIdleSize b + HeadIdleSize b"
    | (grow) "\<not> len \<le> TailIdleSize b" "\<not> len \<le> TailIdleSize b + HeadIdleSize b"
    by blast
  then show ?thesis
  proof cases
    case enough
    then show ?thesis using inv D tail some by (auto simp: EnsureWriteSpace_def word_le_nat_alt)
  next
    case compact
    then have "length (readable b) + unat len \<le> ?n"
      using D idle inv by (simp add: word_le_nat_alt length_readable)
    then show ?thesis
      using returns_SomeD [OF EnsureWriteSpace_compact [OF inv], of b'] some compact
      by (simp add: EnsureWriteSpace_def Let_def)
  next
    case grow
    obtain r m where r: "grow_size (store_size b) (writer_idx b + len) = Some r"
      "vector_resize (unat r) (buf_store b) = Some m" "b' = b\<lparr>buf_store := m\<rparr>"
      using some grow by (auto simp: EnsureWriteSpace_def Let_def bind_eq_Some_conv)
    have "unat (writer_idx b + len) = ?w + unat len" using D len by (intro unat_plus_small) simp
    then have need: "?w + unat len \<le> unat r" using grow_size_SomeD [OF r(1)] by (simp add: word_le_nat_alt)
    have "?n < ?w + unat len" using grow D tail by (simp add: word_le_nat_alt)
    moreover have "unat r < 2 ^ 63" using r(2) by (simp add: vector_resize_def split: if_splits)
    ultimately show ?thesis
      using need D r(2,3) inv by (auto simp: vector_resize_grow readable_store_append buffer_inv_def)
  qed
qed

section \<open>Writing\<close>

lemma store_after_write:
  assumes "buffer_inv b" and "unat (writer_idx b) + length xs \<le> length (buf_store b)"
  defines "b' \<equiv> b\<lparr>buf_store := take (unat (writer_idx b)) (buf_store b) @ xs @
                             drop (unat (writer_idx b) + length xs) (buf_store b)\<rparr>"
  shows "returns (MoveWriteOffset (word_of_nat (length xs)) b')
           (\<lambda>b''. buffer_inv b'' \<and> readable b'' = readable b @ xs)"
proof -
  note D = buffer_invD [OF assms(1)]
  have u: "unat (word_of_nat (length xs) :: u64) = length xs"
    using assms(2) D by (intro unat_word_of_nat_small) simp
  have w: "unat (writer_idx b + word_of_nat (length xs)) = unat (writer_idx b) + length xs"
    using assms(2) D u by (subst unat_plus_small) simp_all
  have inv': "buffer_inv b'" using assms D by (simp add: buffer_inv_def)
  then have "word_of_nat (length xs) \<le> TailIdleSize b'"
    using assms(2) u by (simp add: word_le_nat_alt unat_TailIdleSize) (simp add: b'_def)
  moreover have "buffer_inv (b'\<lparr>writer_idx := writer_idx b' + word_of_nat (length xs)\<rparr>)"
    using D assms(2) w by (simp add: buffer_inv_def b'_def)
  moreover have "readable (b'\<lparr>writer_idx := writer_idx b' + word_of_nat (length xs)\<rparr>) = readable b @ xs"
    using D w by (simp add: readable_def b'_def drop_take)
  ultimately show ?thesis by (simp add: MoveWriteOffset_def)
qed

text \<open>\<open>Write\<close> of \<open>len\<close> bytes appends the first \<open>len\<close> bytes behind the pointer.\<close>

lemma Buffer_Write_after:
  assumes "EnsureWriteSpace len b = Some b1" and "buffer_inv b1" "readable b1 = readable b"
    "unat (writer_idx b1) + unat len \<le> length (buf_store b1)"
    and d: "unat len \<le> length d" and "buffer_inv b"
  shows "returns (Buffer_Write (Some d) len b)
           (\<lambda>b'. buffer_inv b' \<and> readable b' = readable b @ take (unat len) d)"
proof -
  have len: "len = word_of_nat (length (take (unat len) d))"
    using d by (simp add: word_unat_eq_iff unat_of_nat take_bit_eq_mod min.absorb2)
  have "returns (mem_write (WritePos b1) (take (unat len) d) (buf_store b1) \<bind>
                 (\<lambda>m. MoveWriteOffset len (b1\<lparr>buf_store := m\<rparr>)))
               (\<lambda>b'. buffer_inv b' \<and> readable b' = readable b @ take (unat len) d)"
    using store_after_write [of b1 "take (unat len) d"] assms(2-4) d len
    by (simp add: WritePos_def min.absorb2)
  then show ?thesis
    using assms(1,6) d unfolding Buffer_Write_def by (cases "len = 0") simp_all
qed

lemma Buffer_Write_ok:
  assumes inv: "buffer_inv b" and d: "unat len \<le> length d"
    and fits: "length (readable b) + 2 * unat len \<le> 2 ^ 62"
  shows "returns (Buffer_Write (Some d) len b)
           (\<lambda>b'. buffer_inv b' \<and> readable b' = readable b @ take (unat len) d)"
  using EnsureWriteSpace_ok [OF inv fits] by (rule returnsE) (use Buffer_Write_after inv d in blast)

lemma Buffer_Write_SomeD:
  assumes "buffer_inv b" and "unat len < 2 ^ 63" and "unat len \<le> length d" and "Buffer_Write (Some d) len b = Some b'"
  shows "buffer_inv b' \<and> readable b' = readable b @ take (unat len) d"
proof (cases "len = 0")
  case True
  then show ?thesis using assms by (simp add: Buffer_Write_def)
next
  case False
  then obtain b1 where b1: "EnsureWriteSpace len b = Some b1"
    using assms(4) by (auto simp: Buffer_Write_def bind_eq_Some_conv)
  have "returns (Buffer_Write (Some d) len b) (\<lambda>b'. buffer_inv b' \<and> readable b' = readable b @ take (unat len) d)"
    using EnsureWriteSpace_SomeD [OF assms(1,2) b1] assms(1,3) by (intro Buffer_Write_after [OF b1]) simp_all
  then show ?thesis using assms(4) by simp
qed

lemma Buffer_Write_null: "len \<noteq> 0 \<Longrightarrow> Buffer_Write None len b = None"
  by (simp add: Buffer_Write_def)

lemma WriteString_ok:
  assumes "buffer_inv b" and "length (readable b) + 2 * length xs \<le> 2 ^ 62"
  shows "returns (WriteString xs b) (\<lambda>b'. buffer_inv b' \<and> readable b' = readable b @ xs)"
proof -
  have "unat (word_of_nat (length xs) :: u64) = length xs"
    using assms(2) by (intro unat_word_of_nat_small) simp
  then show ?thesis
    using Buffer_Write_ok [of b "word_of_nat (length xs)" xs] assms by (simp add: WriteString_def)
qed

lemma source_bytes:
  assumes "buffer_inv src"
  shows "take (unat (ReadAbleSize src)) (drop (ReadPos src) (buf_store src)) = readable src"
    and "unat (ReadAbleSize src) \<le> length (drop (ReadPos src) (buf_store src))"
    and "unat (ReadAbleSize src) < 2 ^ 63"
  using assms buffer_invD [OF assms] length_readable_bound [OF assms]
  by (simp_all add: unat_ReadAbleSize length_readable ReadPos_def) (simp add: readable_def)

lemma WriteBuffer_ok:
  assumes "buffer_inv b" and "buffer_inv src"
    and "length (readable b) + 2 * length (readable src) \<le> 2 ^ 62"
  shows "returns (WriteBuffer src b) (\<lambda>b'. buffer_inv b' \<and> readable b' = readable b @ readable src)"
  using Buffer_Write_ok [OF assms(1) source_bytes(2) [OF assms(2)]] assms(3) unat_ReadAbleSize [OF assms(2)]
    source_bytes(1) [OF assms(2)]
  by (simp add: WriteBuffer_def)

lemma WriteBuffer_SomeD:
  assumes "buffer_inv b" and "buffer_inv src" and "WriteBuffer src b = Some b'"
  shows "buffer_inv b' \<and> readable b' = readable b @ readable src"
  using Buffer_Write_SomeD [OF assms(1) source_bytes(3,2) [OF assms(2)]] assms(3)
  unfolding WriteBuffer_def source_bytes(1) [OF assms(2)] by blast

lemma WriteBufferAndConsume_ok:
  assumes "buffer_inv b" and "buffer_inv src"
    and "length (readable b) + 2 * length (readable src) \<le> 2 ^ 62"
  shows "returns (WriteBufferAndConsume src b)
           (\<lambda>(src', b'). buffer_inv b' \<and> readable b' = readable b @ readable src \<and>
                         buffer_inv src' \<and> readable src' = [])"
proof -
  have "returns (MoveReadOffset (ReadAbleSize src) src) (\<lambda>s. buffer_inv s \<and> readable s = [])"
    using MoveReadOffset_ok [OF assms(2), of "ReadAbleSize src"] assms(2)
    by (auto simp: unat_ReadAbleSize elim!: returns_mono)
  then show ?thesis
    using WriteBuffer_ok [OF assms]
    by (auto simp: WriteBufferAndConsume_def WriteBuffer_def Let_def elim!: returns_mono)
qed

lemma Clear_ok: "buffer_inv b \<Longrightarrow> buffer_inv (Clear b) \<and> readable (Clear b) = []"
  by (simp add: Clear_def buffer_inv_def readable_def)

section \<open>The buffer is a queue of bytes\<close>

interpretation bq: byte_queue Buffer_new readable buffer_inv WriteString ReadAsString
proof unfold_locales
  show "buffer_inv Buffer_new" by simp
  show "readable Buffer_new = []" by simp
next
  fix q and xs :: bytes
  assume "buffer_inv q" "length (readable q) + 2 * length xs \<le> 2 ^ 62"
  then show "returns (WriteString xs q) (\<lambda>q'. buffer_inv q' \<and> readable q' = readable q @ xs)"
    by (rule WriteString_ok)
next
  fix q and n :: u64
  assume "buffer_inv q" "unat n \<le> length (readable q)"
  then show "returns (ReadAsString n q) (\<lambda>(xs, q'). xs = take (unat n) (readable q) \<and>
      buffer_inv q' \<and> readable q' = drop (unat n) (readable q))"
    by (rule ReadAsString_ok)
next
  fix q and n :: u64
  assume "buffer_inv q" "length (readable q) < unat n"
  then show "ReadAsString n q = None" by (rule ReadAsString_abort)
qed

text \<open>
  C4. The buffer refines a queue of bytes: a program of \<open>WriteString\<close> and
  \<open>ReadAsString\<close> calls on a fresh buffer, writing less than \<open>2^61\<close> bytes in all, returns
  exactly when the program returns on the specification queue (a read of more bytes than
  there are trips the assertion), with the same bytes read, the same bytes left, and the
  index invariant holding; bytes come out in the order they went in, across every
  compaction and growth of the vector.
\<close>

theorem buffer_refines_byte_queue:
  assumes "length (qwritten ops) \<le> 2 ^ 61"
  shows "case qrun WriteString ReadAsString ops Buffer_new of
           None \<Rightarrow> qspec ops [] = None
         | Some (out, b) \<Rightarrow> qspec ops [] = Some (out, readable b) \<and> buffer_inv b \<and>
                           out @ readable b = qwritten ops"
  using bq.run_refines [of Buffer_new ops] bq.run_fifo [OF assms] assms
  by (auto split: option.splits)

theorem buffer_refines_byte_queue_witness:
  "case qrun WriteString ReadAsString [QWrite ''GET /'', QRead 3, QWrite '' x'', QRead 2] Buffer_new of
     None \<Rightarrow> False | Some (out, b) \<Rightarrow> out = ''GET /'' \<and> readable b = '' x''"
  using buffer_refines_byte_queue [of "[QWrite ''GET /'', QRead 3, QWrite '' x'', QRead 2]"]
  by (simp split: option.splits prod.splits)

text \<open>
  C20. The growth loop of \<open>EnsureWriteSpace\<close>: from a non-empty buffer it stops with a
  size of at least the needed size when that is at most \<open>2^63\<close>; from a power of two it
  never stops when the needed size is larger, because the doubling wraps around to 0.
\<close>

theorem growth_loop_termination:
  assumes "0 < unat n" and "k \<le> 63"
  shows "(unat need \<le> 2 ^ 63 \<longrightarrow> (\<exists>r. grow_size n need = Some r \<and> need \<le> r)) \<and>
         (2 ^ 63 < unat need \<longrightarrow> grow_size (2 ^ k) need = None)"
  using grow_size_returns [of n need] grow_size_diverges [of k need] assms
  by (auto simp: returns_iff word_le_nat_alt)

theorem growth_loop_termination_witness:
  "(\<exists>r. grow_size 1024 3000 = Some r \<and> 3000 \<le> r) \<and> grow_size (2 ^ 10) (2 ^ 63 + 1) = None"
  using growth_loop_termination [of 1024 10 3000] growth_loop_termination [of 1024 10 "2 ^ 63 + 1"]
  by simp

text \<open>
  \<open>GetLine\<close> splits the readable bytes: under the invariant it always returns, the
  line and the rest make up what was readable, the line is empty exactly when there is no
  line feed, and otherwise ends with the first one.
\<close>

lemma get_line_splits:
  assumes "buffer_inv b"
  shows "\<exists>l b'. GetLine b = Some (l, b') \<and> buffer_inv b' \<and> readable b = l @ readable b' \<and>
           (l = [] \<longleftrightarrow> CHR 0x0A \<notin> set (readable b)) \<and>
           (l \<noteq> [] \<longrightarrow> last l = CHR 0x0A \<and> CHR 0x0A \<notin> set (butlast l))"
proof -
  have "returns (GetLine b) (\<lambda>(l, b'). l = line_of (readable b) \<and> buffer_inv b' \<and>
      readable b' = drop (length (line_of (readable b))) (readable b))"
    using assms by (rule GetLine_ok)
  then obtain l b' where g: "GetLine b = Some (l, b')" "l = line_of (readable b)" "buffer_inv b'"
      "readable b' = drop (length l) (readable b)"
    by (auto elim!: returnsE)
  then show ?thesis
    using line_of_spec [of "readable b"] by (auto simp: line_of_prefix append_take_drop_id)
qed

lemma get_line_splits_example:
  "\<exists>l b'. GetLine Buffer_new = Some (l, b') \<and> buffer_inv b' \<and> l = [] \<and> readable b' = []"
  using get_line_splits [of Buffer_new] by auto

end
