(* ===== verification/StdRegex.thy ===== *)
theory StdRegex
  imports Prelude
begin

text \<open>
  What the HTTP module uses of \<open>std::regex\<close> (ECMAScript grammar, compiled by libstdc++):
  regular expressions with groups, and \<open>std::regex_match\<close>, which backtracks over the
  alternatives in priority order (the left alternative first, the greedy iteration first)
  and accepts the first one that consumes the whole input. A match is a list of successes
  in that order; the captured text of each group is recorded on the way.

  The theory relates the backtracking matcher to a declarative relation (one rule per
  operator), so that clients reason about what a match means and not about the search.
\<close>

section \<open>Expressions and the matcher\<close>

datatype regex =
    REps
  | RChar char
  | RAny
  | RSet "char list"
  | RNot "char list"
  | RSeq regex regex
  | RAlt regex regex
  | RStar regex
  | ROpt regex
  | RGroup nat regex

type_synonym captures = "nat \<Rightarrow> bytes option"

text \<open>Comparison of characters, with the \<open>icase\<close> flag on translated characters. The dot
  matches every character but the line terminators.\<close>

definition same_char :: "bool \<Rightarrow> char \<Rightarrow> char \<Rightarrow> bool" where
  "same_char icase x y = (if icase then to_lower x = to_lower y else x = y)"

definition in_set :: "bool \<Rightarrow> char list \<Rightarrow> char \<Rightarrow> bool" where
  "in_set icase cs x = list_ex (same_char icase x) cs"

definition is_any :: "char \<Rightarrow> bool" where
  "is_any x \<longleftrightarrow> x \<noteq> CHR 0x0A \<and> x \<noteq> CHR 0x0D"

text \<open>A single-character step: the remaining input if the next character is accepted.\<close>

definition step1 :: "(char \<Rightarrow> bool) \<Rightarrow> captures \<Rightarrow> bytes \<Rightarrow> (captures \<times> bytes) list" where
  "step1 P caps s = (case s of [] \<Rightarrow> [] | x # s' \<Rightarrow> if P x then [(caps, s')] else [])"

function (sequential) rm :: "bool \<Rightarrow> regex \<Rightarrow> captures \<Rightarrow> bytes \<Rightarrow> (captures \<times> bytes) list" where
  "rm icase REps caps s = [(caps, s)]"
| "rm icase (RChar c) caps s = step1 (\<lambda>x. same_char icase x c) caps s"
| "rm icase RAny caps s = step1 is_any caps s"
| "rm icase (RSet cs) caps s = step1 (in_set icase cs) caps s"
| "rm icase (RNot cs) caps s = step1 (\<lambda>x. \<not> in_set icase cs x) caps s"
| "rm icase (RSeq r1 r2) caps s =
     concat (map (\<lambda>(caps', s'). rm icase r2 caps' s') (rm icase r1 caps s))"
| "rm icase (RAlt r1 r2) caps s = rm icase r1 caps s @ rm icase r2 caps s"
| "rm icase (RStar r) caps s =
     concat (map (\<lambda>(caps', s'). if length s' < length s then rm icase (RStar r) caps' s' else [])
                 (rm icase r caps s)) @ [(caps, s)]"
| "rm icase (ROpt r) caps s = rm icase r caps s @ [(caps, s)]"
| "rm icase (RGroup n r) caps s =
     map (\<lambda>(caps', s'). (caps'(n := Some (take (length s - length s') s)), s')) (rm icase r caps s)"
  by pat_completeness auto
termination
  by (relation "measures [\<lambda>(icase, r, caps, s). size r, \<lambda>(icase, r, caps, s). length s]") auto

declare rm.simps(8) [simp del]

definition regex_match :: "bool \<Rightarrow> regex \<Rightarrow> bytes \<Rightarrow> captures option" where
  "regex_match icase r s =
     (case filter (\<lambda>(caps, s'). s' = []) (rm icase r (\<lambda>_. None) s) of
        [] \<Rightarrow> None
      | (caps, _) # _ \<Rightarrow> Some caps)"

text \<open>\<open>matches[n]\<close> as a string: empty for a group that took no part in the match.\<close>

definition capture :: "captures \<Rightarrow> nat \<Rightarrow> bytes" where
  "capture caps n = (case caps n of None \<Rightarrow> [] | Some t \<Rightarrow> t)"

section \<open>The declarative relation\<close>

text \<open>\<open>matches icase r caps p caps'\<close>: \<open>r\<close> matches the text \<open>p\<close>, taking the captures from
  \<open>caps\<close> to \<open>caps'\<close>. An iteration of a star consumes at least one character.\<close>

inductive matches :: "bool \<Rightarrow> regex \<Rightarrow> captures \<Rightarrow> bytes \<Rightarrow> captures \<Rightarrow> bool" for icase where
  eps: "matches icase REps c [] c"
| chr: "same_char icase x y \<Longrightarrow> matches icase (RChar y) c [x] c"
| any: "is_any x \<Longrightarrow> matches icase RAny c [x] c"
| in_cls: "in_set icase cs x \<Longrightarrow> matches icase (RSet cs) c [x] c"
| not_cls: "\<not> in_set icase cs x \<Longrightarrow> matches icase (RNot cs) c [x] c"
| seq: "matches icase r1 c p c1 \<Longrightarrow> matches icase r2 c1 q c2 \<Longrightarrow> matches icase (RSeq r1 r2) c (p @ q) c2"
| alt1: "matches icase r1 c p c1 \<Longrightarrow> matches icase (RAlt r1 r2) c p c1"
| alt2: "matches icase r2 c p c1 \<Longrightarrow> matches icase (RAlt r1 r2) c p c1"
| star0: "matches icase (RStar r) c [] c"
| star1: "matches icase r c p c1 \<Longrightarrow> p \<noteq> [] \<Longrightarrow> matches icase (RStar r) c1 q c2 \<Longrightarrow>
          matches icase (RStar r) c (p @ q) c2"
| opt0: "matches icase (ROpt r) c [] c"
| opt1: "matches icase r c p c1 \<Longrightarrow> matches icase (ROpt r) c p c1"
| grp: "matches icase r c p c1 \<Longrightarrow> matches icase (RGroup n r) c p (c1(n := Some p))"

inductive_simps matches_simps:
  "matches icase REps c p c'"
  "matches icase (RChar y) c p c'"
  "matches icase RAny c p c'"
  "matches icase (RSet cs) c p c'"
  "matches icase (RNot cs) c p c'"
  "matches icase (RSeq r1 r2) c p c'"
  "matches icase (RAlt r1 r2) c p c'"
  "matches icase (ROpt r) c p c'"
  "matches icase (RGroup n r) c p c'"

lemma step1_iff: "(c', s') \<in> set (step1 P c s) \<longleftrightarrow> c' = c \<and> (\<exists>x. P x \<and> s = x # s')"
  by (auto simp: step1_def split: list.splits)

lemma rm_seq_iff:
  "(c', s') \<in> set (rm icase (RSeq r1 r2) c s) \<longleftrightarrow>
   (\<exists>c1 s1. (c1, s1) \<in> set (rm icase r1 c s) \<and> (c', s') \<in> set (rm icase r2 c1 s1))"
  by force

lemma rm_star_iff:
  "(c', s') \<in> set (rm icase (RStar r) c s) \<longleftrightarrow>
   c' = c \<and> s' = s \<or>
   (\<exists>c1 s1. (c1, s1) \<in> set (rm icase r c s) \<and> length s1 < length s \<and>
            (c', s') \<in> set (rm icase (RStar r) c1 s1))"
  by (subst rm.simps(8)) (auto split: if_splits)

lemma rm_sound: "(c', s') \<in> set (rm icase r c s) \<Longrightarrow> \<exists>p. s = p @ s' \<and> matches icase r c p c'"
proof (induction icase r c s arbitrary: c' s' rule: rm.induct)
  case (6 icase r1 r2 caps s)
  then obtain c1 s1 where 1: "(c1, s1) \<in> set (rm icase r1 caps s)" "(c', s') \<in> set (rm icase r2 c1 s1)"
    by (auto simp only: rm_seq_iff)
  then obtain p q where "s = p @ s1" "matches icase r1 caps p c1" "s1 = q @ s'" "matches icase r2 c1 q c'"
    using "6.IH"(1) [OF 1(1)] "6.IH"(2) [OF 1(1) refl 1(2)] by blast
  then show ?case by (auto intro: matches.seq exI [of _ "p @ q"])
next
  case (7 icase r1 r2 caps s)
  then have "(c', s') \<in> set (rm icase r1 caps s) \<or> (c', s') \<in> set (rm icase r2 caps s)" by auto
  then show ?case using "7.IH" by (blast intro: matches.alt1 matches.alt2)
next
  case (8 icase r caps s)
  show ?case
  proof (cases "c' = caps \<and> s' = s")
    case True
    then show ?thesis by (auto intro: matches.star0)
  next
    case False
    then obtain c1 s1 where 1: "(c1, s1) \<in> set (rm icase r caps s)" "length s1 < length s"
        "(c', s') \<in> set (rm icase (RStar r) c1 s1)"
      using rm_star_iff [THEN iffD1, OF "8.prems"] by blast
    then obtain p q where "s = p @ s1" "matches icase r caps p c1" "s1 = q @ s'"
        "matches icase (RStar r) c1 q c'"
      using "8.IH"(1) [OF 1(1)] "8.IH"(2) [OF 1(1) refl 1(2,3)] by blast
    moreover have "p \<noteq> []" using 1(2) \<open>s = p @ s1\<close> by auto
    ultimately show ?thesis by (auto intro: matches.star1 exI [of _ "p @ q"])
  qed
next
  case (9 icase r caps s)
  then have "(c', s') \<in> set (rm icase r caps s) \<or> c' = caps \<and> s' = s" by auto
  then show ?case using "9.IH" by (blast intro: matches.opt0 matches.opt1)
next
  case (10 icase n r caps s)
  then obtain c1 where "(c1, s') \<in> set (rm icase r caps s)"
      "c' = c1(n := Some (take (length s - length s') s))"
    by auto
  moreover from this obtain p where p: "s = p @ s'" "matches icase r caps p c1"
    using "10.IH" by blast
  ultimately have "c' = c1(n := Some p)" by simp
  with p matches.grp [OF p(2), of n] show ?case by blast
qed (auto simp: step1_iff matches_simps)

lemma rm_complete: "matches icase r c p c' \<Longrightarrow> (c', s') \<in> set (rm icase r c (p @ s'))"
proof (induction arbitrary: s' rule: matches.induct)
  case (seq r1 c p c1 r2 q c2)
  have "(c1, q @ s') \<in> set (rm icase r1 c (p @ q @ s'))" by (rule seq.IH(1))
  with seq.IH(2) [of s'] show ?case unfolding rm_seq_iff by auto
next
  case (star1 r c p c1 q c2)
  have "(c1, q @ s') \<in> set (rm icase r c (p @ q @ s'))" by (rule star1.IH(1))
  with star1.IH(2) [of s'] star1.hyps(2) show ?case
    by (intro rm_star_iff [THEN iffD2] disjI2 exI [of _ c1] exI [of _ "q @ s'"]) simp
next
  case (grp r c p c1 n)
  then show ?case using grp.IH [of s'] by (force simp: image_iff)
next
  case (star0 r c)
  show ?case by (rule rm_star_iff [THEN iffD2]) simp
qed (auto simp: step1_iff)

text \<open>The matcher decides the relation, and what it returns is one of its matches.\<close>

lemma regex_match_sound:
  "regex_match icase r s = Some c \<Longrightarrow> matches icase r (\<lambda>_. None) s c"
proof -
  assume "regex_match icase r s = Some c"
  then have "(c, []) \<in> set (filter (\<lambda>(caps, s'). s' = []) (rm icase r (\<lambda>_. None) s))"
    by (auto simp: regex_match_def filter_eq_Cons_iff split: list.splits)
  then show ?thesis using rm_sound [of c "[]" icase r] by auto
qed

lemma regex_match_complete:
  "matches icase r (\<lambda>_. None) s c \<Longrightarrow> regex_match icase r s \<noteq> None"
proof -
  assume "matches icase r (\<lambda>_. None) s c"
  then have "(c, []) \<in> set (rm icase r (\<lambda>_. None) s)"
    using rm_complete [of icase r "\<lambda>_. None" s c "[]"] by simp
  then have "filter (\<lambda>(caps, s'). s' = []) (rm icase r (\<lambda>_. None) s) \<noteq> []"
    by (auto simp: filter_empty_conv)
  then show ?thesis by (auto simp: regex_match_def split: list.splits)
qed

lemma regex_match_unique:
  assumes "matches icase r (\<lambda>_. None) s c"
    and "\<And>c'. matches icase r (\<lambda>_. None) s c' \<Longrightarrow> c' = c"
  shows "regex_match icase r s = Some c"
  using regex_match_complete [OF assms(1)] regex_match_sound [of icase r s] assms(2) by fastforce

section \<open>Stars of single characters\<close>

lemma star_chars:
  assumes step: "\<And>c p c'. matches icase r c p c' \<longleftrightarrow> c' = c \<and> (\<exists>x. P x \<and> p = [x])"
  shows "matches icase (RStar r) c p c' \<longleftrightarrow> c' = c \<and> list_all P p"
proof
  have "matches icase q c p c' \<Longrightarrow> q = RStar r \<Longrightarrow> c' = c \<and> list_all P p" for q
    by (induction rule: matches.induct) (auto simp: step)
  then show "matches icase (RStar r) c p c' \<Longrightarrow> c' = c \<and> list_all P p" by blast
next
  have "list_all P p \<Longrightarrow> matches icase (RStar r) c p c"
  proof (induction p)
    case (Cons x p)
    then show ?case using matches.star1 [of icase r c "[x]" c p c] step by simp
  qed (rule matches.star0)
  then show "c' = c \<and> list_all P p \<Longrightarrow> matches icase (RStar r) c p c'" by simp
qed

lemma star_not: "matches icase (RStar (RNot cs)) c p c' \<longleftrightarrow> c' = c \<and> list_all (\<lambda>x. \<not> in_set icase cs x) p"
  by (rule star_chars) (auto simp: matches_simps)

lemma star_any: "matches icase (RStar RAny) c p c' \<longleftrightarrow> c' = c \<and> list_all is_any p"
  by (rule star_chars) (auto simp: matches_simps)

text \<open>A literal text as an expression.\<close>

fun rlit :: "bytes \<Rightarrow> regex" where
  "rlit [] = REps"
| "rlit (c # cs) = RSeq (RChar c) (rlit cs)"

lemma matches_rlit:
  "matches icase (rlit t) c p c' \<longleftrightarrow> c' = c \<and> list_all2 (same_char icase) p t"
proof (induction t arbitrary: p)
  case Nil
  show ?case by (auto simp: matches_simps)
next
  case (Cons x t)
  have "matches icase (rlit (x # t)) c p c' \<longleftrightarrow>
        (\<exists>y q. p = y # q \<and> same_char icase y x \<and> matches icase (rlit t) c q c')"
  proof
    assume "matches icase (rlit (x # t)) c p c'"
    then obtain p1 c1 q where "p = p1 @ q" "matches icase (RChar x) c p1 c1" "matches icase (rlit t) c1 q c'"
      unfolding rlit.simps matches_simps(6) by blast
    then show "\<exists>y q. p = y # q \<and> same_char icase y x \<and> matches icase (rlit t) c q c'"
      unfolding matches_simps(2) by auto
  next
    assume "\<exists>y q. p = y # q \<and> same_char icase y x \<and> matches icase (rlit t) c q c'"
    then show "matches icase (rlit (x # t)) c p c'"
      using matches.seq [OF matches.chr] by fastforce
  qed
  then show ?case by (auto simp: Cons.IH list_all2_Cons2)
qed

text \<open>
  The backtracking matcher against the declarative semantics: \<open>regex_match\<close> returns
  captures exactly when the whole input belongs to the language of the expression, and
  the captures it returns are those of a match.
\<close>

lemma regex_match_correct:
  "(regex_match icase r s \<noteq> None \<longleftrightarrow> (\<exists>c. matches icase r (\<lambda>_. None) s c)) \<and>
   (\<forall>c. regex_match icase r s = Some c \<longrightarrow> matches icase r (\<lambda>_. None) s c)"
  using regex_match_sound [of icase r s] regex_match_complete [of icase r s] by blast

end
