(* ===== verification/HttpMessage.thy ===== *)
theory HttpMessage
  imports Prelude "HOL-Library.AList"
begin

text \<open>
  The classes \<open>HttpRequest\<close> and \<open>HttpResponse\<close> of \<open>src/http-v1/source/http/http.hpp\<close>. An
  \<open>unordered_map\<close> of strings is an association list with distinct keys; the operator
  \<open>[]=\<close> replaces the value of a key in place or adds it. The order of the list stands
  for no promise of the container: where the code iterates over a map, the iteration
  order is a parameter.
\<close>

type_synonym str_map = "(bytes \<times> bytes) list"

section \<open>Decimal conversion\<close>

text \<open>\<open>std::to_string\<close>.\<close>

fun to_string_nat :: "nat \<Rightarrow> bytes" where
  "to_string_nat n =
     (if n < 10 then [char_of (48 + n)] else to_string_nat (n div 10) @ [char_of (48 + n mod 10)])"

declare to_string_nat.simps [simp del]

definition to_string :: "int \<Rightarrow> bytes" where
  "to_string i = (if i < 0 then CHR ''-'' # to_string_nat (nat (- i)) else to_string_nat (nat i))"

section \<open>HttpRequest\<close>

record HttpRequest =
  req_method :: bytes
  req_path :: bytes
  req_version :: bytes
  req_body :: bytes
  req_matches :: "bytes list"
  req_headers :: str_map
  req_params :: str_map

definition HttpRequest_new :: HttpRequest where
  "HttpRequest_new = \<lparr>req_method = [], req_path = [], req_version = ''HTTP/1.1'', req_body = [],
     req_matches = [], req_headers = [], req_params = []\<rparr>"

definition HttpRequest_ReSet :: "HttpRequest \<Rightarrow> HttpRequest" where
  "HttpRequest_ReSet r = r\<lparr>req_method := [], req_path := [], req_version := ''HTTP/1.1'',
     req_body := [], req_matches := [], req_headers := [], req_params := []\<rparr>"

definition HttpRequest_SetHeader :: "bytes \<Rightarrow> bytes \<Rightarrow> HttpRequest \<Rightarrow> HttpRequest" where
  "HttpRequest_SetHeader key val r = r\<lparr>req_headers := AList.update key val (req_headers r)\<rparr>"

definition HttpRequest_HasHeader :: "bytes \<Rightarrow> HttpRequest \<Rightarrow> bool" where
  "HttpRequest_HasHeader key r = (case map_of (req_headers r) key of None \<Rightarrow> False | Some _ \<Rightarrow> True)"

definition HttpRequest_GetHeader :: "bytes \<Rightarrow> HttpRequest \<Rightarrow> bytes" where
  "HttpRequest_GetHeader key r = (case map_of (req_headers r) key of None \<Rightarrow> [] | Some v \<Rightarrow> v)"

definition SetParam :: "bytes \<Rightarrow> bytes \<Rightarrow> HttpRequest \<Rightarrow> HttpRequest" where
  "SetParam key val r = r\<lparr>req_params := AList.update key val (req_params r)\<rparr>"

definition HasParam :: "bytes \<Rightarrow> HttpRequest \<Rightarrow> bool" where
  "HasParam key r = (case map_of (req_params r) key of None \<Rightarrow> False | Some _ \<Rightarrow> True)"

definition GetParam :: "bytes \<Rightarrow> HttpRequest \<Rightarrow> bytes" where
  "GetParam key r = (case map_of (req_params r) key of None \<Rightarrow> [] | Some v \<Rightarrow> v)"

text \<open>The digit loop of \<open>ContentLength\<close>, on \<open>size_t\<close>.\<close>

fun ContentLength_loop :: "u64 \<Rightarrow> bytes \<Rightarrow> u64" where
  "ContentLength_loop len [] = len"
| "ContentLength_loop len (c # clen) =
     (if \<not> is_digit c then 0 else ContentLength_loop (len * 10 + word_of_nat (code c - 48)) clen)"

definition ContentLength :: "HttpRequest \<Rightarrow> u64" where
  "ContentLength r =
     (if \<not> HttpRequest_HasHeader ''Content-Length'' r then 0
      else let clen = HttpRequest_GetHeader ''Content-Length'' r
           in if clen = [] then 0 else ContentLength_loop 0 clen)"

definition HttpRequest_Close :: "HttpRequest \<Rightarrow> bool" where
  "HttpRequest_Close r =
     (if HttpRequest_HasHeader ''Connection'' r \<and> HttpRequest_GetHeader ''Connection'' r = ''keep-alive''
      then False else True)"

section \<open>HttpResponse\<close>

record HttpResponse =
  rsp_statu :: int
  redirect_flag :: bool
  rsp_body :: bytes
  redirect_url :: bytes
  rsp_headers :: str_map

definition HttpResponse_new :: "int \<Rightarrow> HttpResponse" where
  "HttpResponse_new statu = \<lparr>rsp_statu = statu, redirect_flag = False, rsp_body = [],
     redirect_url = [], rsp_headers = []\<rparr>"

definition HttpResponse_ReSet :: "HttpResponse \<Rightarrow> HttpResponse" where
  "HttpResponse_ReSet r = r\<lparr>rsp_statu := 200, redirect_flag := False, rsp_body := [],
     redirect_url := [], rsp_headers := []\<rparr>"

definition HttpResponse_SetHeader :: "bytes \<Rightarrow> bytes \<Rightarrow> HttpResponse \<Rightarrow> HttpResponse" where
  "HttpResponse_SetHeader key val r = r\<lparr>rsp_headers := AList.update key val (rsp_headers r)\<rparr>"

definition HttpResponse_HasHeader :: "bytes \<Rightarrow> HttpResponse \<Rightarrow> bool" where
  "HttpResponse_HasHeader key r = (case map_of (rsp_headers r) key of None \<Rightarrow> False | Some _ \<Rightarrow> True)"

definition HttpResponse_GetHeader :: "bytes \<Rightarrow> HttpResponse \<Rightarrow> bytes" where
  "HttpResponse_GetHeader key r = (case map_of (rsp_headers r) key of None \<Rightarrow> [] | Some v \<Rightarrow> v)"

definition SetContent :: "bytes \<Rightarrow> bytes \<Rightarrow> HttpResponse \<Rightarrow> HttpResponse" where
  "SetContent body type r = HttpResponse_SetHeader ''Content-Type'' type (r\<lparr>rsp_body := body\<rparr>)"

definition SetRedirect :: "bytes \<Rightarrow> int \<Rightarrow> HttpResponse \<Rightarrow> HttpResponse" where
  "SetRedirect url statu r = r\<lparr>rsp_statu := statu, redirect_flag := True, redirect_url := url\<rparr>"

definition HttpResponse_Close :: "HttpResponse \<Rightarrow> bool" where
  "HttpResponse_Close r =
     (if HttpResponse_HasHeader ''Connection'' r \<and> HttpResponse_GetHeader ''Connection'' r = ''keep-alive''
      then False else True)"

section \<open>Laws\<close>

lemma HttpRequest_ReSet_new [http_simps]: "HttpRequest_ReSet r = HttpRequest_new"
  by (simp add: HttpRequest_ReSet_def HttpRequest_new_def)

lemma HttpResponse_ReSet_new [http_simps]: "HttpResponse_ReSet r = HttpResponse_new 200"
  by (simp add: HttpResponse_ReSet_def HttpResponse_new_def)

lemma request_header_set [http_simps]:
  "HttpRequest_GetHeader k (HttpRequest_SetHeader k' v r) =
     (if k = k' then v else HttpRequest_GetHeader k r)"
  "HttpRequest_HasHeader k (HttpRequest_SetHeader k' v r) = (k = k' \<or> HttpRequest_HasHeader k r)"
  by (auto simp: HttpRequest_GetHeader_def HttpRequest_SetHeader_def HttpRequest_HasHeader_def
      update_conv split: option.splits)

lemma response_header_set [http_simps]:
  "HttpResponse_GetHeader k (HttpResponse_SetHeader k' v r) =
     (if k = k' then v else HttpResponse_GetHeader k r)"
  "HttpResponse_HasHeader k (HttpResponse_SetHeader k' v r) = (k = k' \<or> HttpResponse_HasHeader k r)"
  by (auto simp: HttpResponse_GetHeader_def HttpResponse_SetHeader_def HttpResponse_HasHeader_def
      update_conv split: option.splits)

lemma request_param_set [http_simps]:
  "GetParam k (SetParam k' v r) = (if k = k' then v else GetParam k r)"
  "HasParam k (SetParam k' v r) = (k = k' \<or> HasParam k r)"
  by (auto simp: GetParam_def SetParam_def HasParam_def update_conv split: option.splits)

text \<open>The decimal value of a digit string.\<close>

definition dec_value :: "bytes \<Rightarrow> nat" where
  "dec_value s = foldl (\<lambda>n c. n * 10 + (code c - 48)) 0 s"

lemma dec_value_snoc: "dec_value (s @ [c]) = dec_value s * 10 + (code c - 48)"
  by (simp add: dec_value_def)

lemma ContentLength_loop_digits:
  "list_all is_digit s \<Longrightarrow>
   ContentLength_loop (word_of_nat n) s = word_of_nat (foldl (\<lambda>n c. n * 10 + (code c - 48)) n s)"
proof (induction s arbitrary: n)
  case (Cons c s)
  have w: "(word_of_nat n * 10 + word_of_nat (code c - 48) :: u64) = word_of_nat (n * 10 + (code c - 48))"
    by simp
  have step: "ContentLength_loop (word_of_nat n) (c # s) = ContentLength_loop (word_of_nat (n * 10 + (code c - 48))) s"
    using Cons.prems unfolding w [symmetric] by simp
  have "list_all is_digit s" using Cons.prems by simp
  then show ?case unfolding step foldl_Cons by (rule Cons.IH)
qed simp

lemma ContentLength_loop_bad: "\<not> list_all is_digit s \<Longrightarrow> ContentLength_loop n s = 0"
  by (induction s arbitrary: n) auto

lemma to_string_nat_digits: "list_all is_digit (to_string_nat n) \<and> to_string_nat n \<noteq> []"
proof (induction n rule: to_string_nat.induct)
  case (1 n)
  then show ?case
    by (cases "n < 10") (auto simp: to_string_nat.simps [of n] is_digit_def [of "char_of _"] of_char_of)
qed

lemma dec_value_to_string_nat: "dec_value (to_string_nat n) = n"
proof (induction n rule: to_string_nat.induct)
  case (1 n)
  show ?case
  proof (cases "n < 10")
    case True
    then show ?thesis by (simp add: to_string_nat.simps [of n] dec_value_def of_char_of)
  next
    case False
    then show ?thesis
      using "1.IH" by (simp add: to_string_nat.simps [of n] dec_value_snoc of_char_of)
  qed
qed

text \<open>
  \<open>ContentLength\<close> reads the decimal number in the header modulo \<open>2^64\<close> and is 0 for a
  missing or malformed header; it inverts the \<open>std::to_string\<close> of every size.
\<close>

lemma content_length_value:
  "ContentLength r =
     (case map_of (req_headers r) ''Content-Length'' of
        None \<Rightarrow> 0
      | Some s \<Rightarrow> if list_all is_digit s then word_of_nat (dec_value s) else 0) \<and>
   (\<forall>n < 2 ^ 64. unat (ContentLength (HttpRequest_SetHeader ''Content-Length'' (to_string_nat n) r)) = n)"
proof -
  have *: "ContentLength r =
     (case map_of (req_headers r) ''Content-Length'' of
        None \<Rightarrow> 0
      | Some s \<Rightarrow> if list_all is_digit s then word_of_nat (dec_value s) else 0)" for r
    using ContentLength_loop_digits [where n = 0] ContentLength_loop_bad [where n = 0]
    by (auto simp: ContentLength_def HttpRequest_HasHeader_def HttpRequest_GetHeader_def Let_def
        dec_value_def split: option.splits)
  have "unat (ContentLength (HttpRequest_SetHeader ''Content-Length'' (to_string_nat n) r)) = n"
    if "n < 2 ^ 64" for n
    using that to_string_nat_digits [of n]
    by (simp add: * HttpRequest_SetHeader_def update_conv dec_value_to_string_nat
        unat_word_of_nat_small del: to_string_nat.simps)
  with * show ?thesis by blast
qed

end
