(* ===== verification/HttpContext.thy ===== *)
theory HttpContext
  imports ByteBuffer HttpUtil StdRegex HttpMessage
begin

text \<open>
  The class \<open>HttpContext\<close> of \<open>src/http-v1/source/http/http.hpp\<close>: the incremental parser of
  HTTP requests over the connection's input buffer. The parser's stage is the enumeration
  \<open>HttpRecvStatu\<close>; every member function takes the context and the buffer and returns both
  (and its boolean result), and \<open>None\<close> stands for an abort inside the buffer.

  The theory relates the parser on buffers to a parser on the unread bytes
  (\<open>recv_spec\<close>), and shows that it never aborts, that the way the bytes are cut into
  pieces on the network does not change what is parsed, and that a well-formed request is
  parsed to its parts.
\<close>

section \<open>State and operations\<close>

datatype HttpRecvStatu =
  RECV_HTTP_ERROR | RECV_HTTP_LINE | RECV_HTTP_HEAD | RECV_HTTP_BODY | RECV_HTTP_OVER

definition MAX_LINE :: nat where
  "MAX_LINE = 8192"

record HttpContext =
  resp_statu :: int
  recv_statu :: HttpRecvStatu
  ctx_request :: HttpRequest

definition HttpContext_new :: HttpContext where
  "HttpContext_new = \<lparr>resp_statu = 200, recv_statu = RECV_HTTP_LINE, ctx_request = HttpRequest_new\<rparr>"

definition HttpContext_ReSet :: "HttpContext \<Rightarrow> HttpContext" where
  "HttpContext_ReSet c = c\<lparr>resp_statu := 200, recv_statu := RECV_HTTP_LINE,
     ctx_request := HttpRequest_ReSet (ctx_request c)\<rparr>"

text \<open>Setting the error stage and the response status, as every error branch does.\<close>

definition ctx_error :: "int \<Rightarrow> HttpContext \<Rightarrow> HttpContext" where
  "ctx_error st c = c\<lparr>recv_statu := RECV_HTTP_ERROR, resp_statu := st\<rparr>"

text \<open>The expression of \<open>ParseHttpLine\<close>,
  \<^verbatim>\<open>(GET|HEAD|POST|PUT|DELETE) ([^?]*)(?:\?(.*))? (HTTP/1\.[01])(?:\n|\r\n)?\<close>, with \<open>icase\<close>.\<close>

definition http_method_re :: regex where
  "http_method_re =
     RAlt (rlit ''GET'') (RAlt (rlit ''HEAD'') (RAlt (rlit ''POST'') (RAlt (rlit ''PUT'') (rlit ''DELETE''))))"

definition request_line_re :: regex where
  "request_line_re =
     RSeq (RGroup 1 http_method_re)
    (RSeq (RChar (CHR '' ''))
    (RSeq (RGroup 2 (RStar (RNot ''?'')))
    (RSeq (ROpt (RSeq (RChar (CHR ''?'')) (RGroup 3 (RStar RAny))))
    (RSeq (RChar (CHR '' ''))
    (RSeq (RGroup 4 (RSeq (rlit ''HTTP/1.'') (RSet ''01'')))
          (ROpt (RAlt (rlit [CHR 0x0A]) (rlit [CHR 0x0D, CHR 0x0A]))))))))"

fun ParseHttpLine_params :: "bytes list \<Rightarrow> HttpContext \<Rightarrow> bool \<times> HttpContext" where
  "ParseHttpLine_params [] c = (True, c)"
| "ParseHttpLine_params (str # strs) c =
     (case str_find ''='' 0 str of
        None \<Rightarrow> (False, ctx_error 400 c)
      | Some pos \<Rightarrow>
          (let key = UrlDecode (take pos str) True;
               val = UrlDecode (drop (pos + 1) str) True
           in ParseHttpLine_params strs (c\<lparr>ctx_request := SetParam key val (ctx_request c)\<rparr>)))"

definition ParseHttpLine :: "bytes \<Rightarrow> HttpContext \<Rightarrow> bool \<times> HttpContext" where
  "ParseHttpLine line c =
     (case regex_match True request_line_re line of
        None \<Rightarrow> (False, ctx_error 400 c)
      | Some m \<Rightarrow>
          (let req = (ctx_request c)\<lparr>req_method := map to_upper (capture m 1),
                                     req_path := UrlDecode (capture m 2) False,
                                     req_version := capture m 4\<rparr>;
               query_string_arry = snd (Split (capture m 3) ''&'' [])
           in ParseHttpLine_params query_string_arry (c\<lparr>ctx_request := req\<rparr>)))"

definition RecvHttpLine :: "HttpContext \<Rightarrow> Buffer \<Rightarrow> (bool \<times> HttpContext \<times> Buffer) option" where
  "RecvHttpLine c buf =
     (if recv_statu c \<noteq> RECV_HTTP_LINE then Some (False, c, buf)
      else do {
        (line, buf) \<leftarrow> GetLine buf;
        if length line = 0 then
          (if MAX_LINE < unat (ReadAbleSize buf) then Some (False, ctx_error 414 c, buf)
           else Some (True, c, buf))
        else if MAX_LINE < length line then Some (False, ctx_error 414 c, buf)
        else (let (ret, c1) = ParseHttpLine line c
              in if \<not> ret then Some (False, c1, buf)
                 else Some (True, c1\<lparr>recv_statu := RECV_HTTP_HEAD\<rparr>, buf))
      })"

text \<open>\<open>line.back()\<close> on an empty string is undefined and \<open>None\<close> here.\<close>

definition str_back :: "bytes \<Rightarrow> char option" where
  "str_back s = (if s = [] then None else Some (last s))"

definition ParseHttpHead :: "bytes \<Rightarrow> HttpContext \<Rightarrow> (bool \<times> HttpContext) option" where
  "ParseHttpHead line c = do {
     e1 \<leftarrow> str_back line;
     let line1 = (if e1 = CHR 0x0A then butlast line else line);
     e2 \<leftarrow> str_back line1;
     let line2 = (if e2 = CHR 0x0D then butlast line1 else line1);
     (case str_find '': '' 0 line2 of
        None \<Rightarrow> Some (False, ctx_error 400 c)
      | Some pos \<Rightarrow>
          (let key = take pos line2; val = drop (pos + 2) line2
           in Some (True, c\<lparr>ctx_request := HttpRequest_SetHeader key val (ctx_request c)\<rparr>)))
   }"

function RecvHttpHead_loop :: "HttpContext \<Rightarrow> Buffer \<Rightarrow> (bool \<times> HttpContext \<times> Buffer) option" where
  "RecvHttpHead_loop c buf0 = do {
     (line, buf) \<leftarrow> GetLine buf0;
     if length line = 0 then
       (if MAX_LINE < unat (ReadAbleSize buf) then Some (False, ctx_error 414 c, buf)
        else Some (True, c, buf))
     else if MAX_LINE < length line then Some (False, ctx_error 414 c, buf)
     else if line = [CHR 0x0A] \<or> line = [CHR 0x0D, CHR 0x0A] then
       Some (True, c\<lparr>recv_statu := RECV_HTTP_BODY\<rparr>, buf)
     else do {
       (ret, c1) \<leftarrow> ParseHttpHead line c;
       if \<not> ret then Some (False, c1, buf) else RecvHttpHead_loop c1 buf
     }
   }"
  by pat_completeness auto
termination
  by (relation "measure (\<lambda>(c, buf). unat (ReadAbleSize buf))") (auto dest: GetLine_decreases)

declare RecvHttpHead_loop.simps [simp del]

definition RecvHttpHead :: "HttpContext \<Rightarrow> Buffer \<Rightarrow> (bool \<times> HttpContext \<times> Buffer) option" where
  "RecvHttpHead c buf =
     (if recv_statu c \<noteq> RECV_HTTP_HEAD then Some (False, c, buf) else RecvHttpHead_loop c buf)"

definition append_body :: "bytes \<Rightarrow> HttpContext \<Rightarrow> HttpContext" where
  "append_body xs c = c\<lparr>ctx_request := (ctx_request c)\<lparr>req_body := req_body (ctx_request c) @ xs\<rparr>\<rparr>"

definition RecvHttpBody :: "HttpContext \<Rightarrow> Buffer \<Rightarrow> (bool \<times> HttpContext \<times> Buffer) option" where
  "RecvHttpBody c buf =
     (if recv_statu c \<noteq> RECV_HTTP_BODY then Some (False, c, buf)
      else
        let content_length = ContentLength (ctx_request c) in
        if content_length = 0 then Some (True, c\<lparr>recv_statu := RECV_HTTP_OVER\<rparr>, buf)
        else
          let real_len = content_length - word_of_nat (length (req_body (ctx_request c))) in
          if real_len \<le> ReadAbleSize buf then do {
            xs \<leftarrow> mem_read (ReadPos buf) (unat real_len) (buf_store buf);
            buf1 \<leftarrow> MoveReadOffset real_len buf;
            Some (True, (append_body xs c)\<lparr>recv_statu := RECV_HTTP_OVER\<rparr>, buf1)
          }
          else do {
            xs \<leftarrow> mem_read (ReadPos buf) (unat (ReadAbleSize buf)) (buf_store buf);
            buf1 \<leftarrow> MoveReadOffset (ReadAbleSize buf) buf;
            Some (True, append_body xs c, buf1)
          })"

text \<open>The switch without breaks: each stage falls through to the next one.\<close>

definition RecvHttpRequest :: "HttpContext \<Rightarrow> Buffer \<Rightarrow> (HttpContext \<times> Buffer) option" where
  "RecvHttpRequest c buf =
     (case recv_statu c of
        RECV_HTTP_LINE \<Rightarrow> do {
          (_, c1, b1) \<leftarrow> RecvHttpLine c buf;
          (_, c2, b2) \<leftarrow> RecvHttpHead c1 b1;
          (_, c3, b3) \<leftarrow> RecvHttpBody c2 b2;
          Some (c3, b3) }
      | RECV_HTTP_HEAD \<Rightarrow> do {
          (_, c2, b2) \<leftarrow> RecvHttpHead c buf;
          (_, c3, b3) \<leftarrow> RecvHttpBody c2 b2;
          Some (c3, b3) }
      | RECV_HTTP_BODY \<Rightarrow> do {
          (_, c3, b3) \<leftarrow> RecvHttpBody c buf;
          Some (c3, b3) }
      | _ \<Rightarrow> Some (c, buf))"

section \<open>The parser on the unread bytes\<close>

definition spec_line :: "HttpContext \<Rightarrow> bytes \<Rightarrow> HttpContext \<times> bytes" where
  "spec_line c s =
     (let l = line_of s; s' = drop (length l) s in
      if l = [] then ((if MAX_LINE < length s then ctx_error 414 c else c), s)
      else if MAX_LINE < length l then (ctx_error 414 c, s')
      else (let (ret, c1) = ParseHttpLine l c
            in (if ret then c1\<lparr>recv_statu := RECV_HTTP_HEAD\<rparr> else c1, s')))"

text \<open>A header line without its line end, and its effect.\<close>

definition strip_eol :: "bytes \<Rightarrow> bytes" where
  "strip_eol l = (let l1 = butlast l in if l1 \<noteq> [] \<and> last l1 = CHR 0x0D then butlast l1 else l1)"

definition spec_header :: "bytes \<Rightarrow> HttpContext \<Rightarrow> bool \<times> HttpContext" where
  "spec_header l c =
     (case str_find '': '' 0 (strip_eol l) of
        None \<Rightarrow> (False, ctx_error 400 c)
      | Some pos \<Rightarrow>
          (True, c\<lparr>ctx_request := HttpRequest_SetHeader (take pos (strip_eol l))
                                    (drop (pos + 2) (strip_eol l)) (ctx_request c)\<rparr>))"

function spec_head :: "HttpContext \<Rightarrow> bytes \<Rightarrow> HttpContext \<times> bytes" where
  "spec_head c s =
     (let l = line_of s; s' = drop (length l) s in
      if l = [] then ((if MAX_LINE < length s then ctx_error 414 c else c), s)
      else if MAX_LINE < length l then (ctx_error 414 c, s')
      else if l = [CHR 0x0A] \<or> l = [CHR 0x0D, CHR 0x0A] then (c\<lparr>recv_statu := RECV_HTTP_BODY\<rparr>, s')
      else case spec_header l c of
             (False, c1) \<Rightarrow> (c1, s')
           | (True, c1) \<Rightarrow> spec_head c1 s')"
  by pat_completeness auto
termination
proof (relation "measure (\<lambda>(c, s). length s)", goal_cases)
  case (2 c s l s')
  then show ?case using length_line_of_le [of s] by (cases s) auto
qed simp

declare spec_head.simps [simp del]

definition spec_body :: "HttpContext \<Rightarrow> bytes \<Rightarrow> HttpContext \<times> bytes" where
  "spec_body c s =
     (let cl = ContentLength (ctx_request c) in
      if cl = 0 then (c\<lparr>recv_statu := RECV_HTTP_OVER\<rparr>, s)
      else
        let n = unat (cl - word_of_nat (length (req_body (ctx_request c)))) in
        if n \<le> length s then ((append_body (take n s) c)\<lparr>recv_statu := RECV_HTTP_OVER\<rparr>, drop n s)
        else (append_body s c, []))"

definition recv_spec :: "HttpContext \<Rightarrow> bytes \<Rightarrow> HttpContext \<times> bytes" where
  "recv_spec c s =
     (let (c1, s1) = (if recv_statu c = RECV_HTTP_LINE then spec_line c s else (c, s));
          (c2, s2) = (if recv_statu c1 = RECV_HTTP_HEAD then spec_head c1 s1 else (c1, s1))
      in if recv_statu c2 = RECV_HTTP_BODY then spec_body c2 s2 else (c2, s2))"

section \<open>The parser on buffers refines it\<close>

lemma RecvHttpLine_refines:
  assumes "buffer_inv b" and "recv_statu c = RECV_HTTP_LINE"
  shows "returns (RecvHttpLine c b)
           (\<lambda>(_, c', b'). buffer_inv b' \<and> (c', readable b') = spec_line c (readable b))"
proof -
  have "returns (GetLine b)
          (\<lambda>(l, b'). l = line_of (readable b) \<and> buffer_inv b' \<and>
                     readable b' = drop (length (line_of (readable b))) (readable b))"
    using assms(1) by (rule GetLine_ok)
  then show ?thesis
    using assms(2) unfolding RecvHttpLine_def
    by (auto simp: spec_line_def Let_def unat_ReadAbleSize split: prod.splits elim!: returns_mono)
qed

lemma ParseHttpHead_spec:
  assumes "l \<noteq> []" and "last l = CHR 0x0A" and "l \<noteq> [CHR 0x0A]"
  shows "ParseHttpHead l c = Some (spec_header l c)"
proof -
  have "butlast l \<noteq> []" using assms by (cases l rule: rev_cases) auto
  then show ?thesis
    using assms(1,2)
    by (auto simp: ParseHttpHead_def spec_header_def str_back_def strip_eol_def Let_def split: option.splits)
qed

lemma line_of_header:
  assumes "line_of s \<noteq> []" and "\<not> (line_of s = [CHR 0x0A] \<or> line_of s = [CHR 0x0D, CHR 0x0A])"
  shows "ParseHttpHead (line_of s) c = Some (spec_header (line_of s) c)"
  using assms line_of_spec(3) [of s] by (intro ParseHttpHead_spec) auto

lemma RecvHttpHead_loop_refines:
  assumes "buffer_inv b"
  shows "returns (RecvHttpHead_loop c b)
           (\<lambda>(_, c', b'). buffer_inv b' \<and> (c', readable b') = spec_head c (readable b))"
  using assms
proof (induction "length (readable b)" arbitrary: b c rule: less_induct)
  case less
  let ?l = "line_of (readable b)" and ?s = "drop (length (line_of (readable b))) (readable b)"
  obtain b1 where b1: "GetLine b = Some (?l, b1)" "buffer_inv b1" "readable b1 = ?s"
    using GetLine_ok [OF less.prems] by (auto elim!: returnsE)
  consider (short) "?l = []" | (long) "?l \<noteq> []" "MAX_LINE < length ?l"
    | (blank) "?l \<noteq> []" "\<not> MAX_LINE < length ?l" "?l = [CHR 0x0A] \<or> ?l = [CHR 0x0D, CHR 0x0A]"
    | (header) "?l \<noteq> []" "\<not> MAX_LINE < length ?l" "\<not> (?l = [CHR 0x0A] \<or> ?l = [CHR 0x0D, CHR 0x0A])"
    by blast
  then show ?case
  proof cases
    case header
    obtain ret c1 where h: "spec_header ?l c = (ret, c1)" by fastforce
    have "length (readable b1) < length (readable b)"
      using header(1) b1(3) length_line_of_le [of "readable b"] by (cases "readable b") auto
    then have "returns (RecvHttpHead_loop c1 b1)
                 (\<lambda>(_, c', b'). buffer_inv b' \<and> (c', readable b') = spec_head c1 (readable b1))"
      using b1(2) by (rule less.hyps)
    then show ?thesis
      using header b1 h line_of_header [OF header(1,3), of c]
      by (subst RecvHttpHead_loop.simps) (auto simp: spec_head.simps [of c "readable b"] Let_def)
  qed (use b1 in \<open>auto simp: RecvHttpHead_loop.simps [of c b] spec_head.simps [of c "readable b"]
         Let_def unat_ReadAbleSize\<close>)
qed

lemma RecvHttpHead_refines:
  assumes "buffer_inv b" and "recv_statu c = RECV_HTTP_HEAD"
  shows "returns (RecvHttpHead c b)
           (\<lambda>(_, c', b'). buffer_inv b' \<and> (c', readable b') = spec_head c (readable b))"
  using RecvHttpHead_loop_refines [OF assms(1)] assms(2) by (simp add: RecvHttpHead_def)

lemma RecvHttpBody_refines:
  assumes "buffer_inv b" and "recv_statu c = RECV_HTTP_BODY"
  shows "returns (RecvHttpBody c b)
           (\<lambda>(_, c', b'). buffer_inv b' \<and> (c', readable b') = spec_body c (readable b))"
proof -
  let ?n = "ContentLength (ctx_request c) - word_of_nat (length (req_body (ctx_request c)))"
  have le: "?n \<le> ReadAbleSize b \<longleftrightarrow> unat ?n \<le> length (readable b)"
    using assms(1) by (simp add: word_le_nat_alt unat_ReadAbleSize)
  have all: "returns (MoveReadOffset (ReadAbleSize b) b) (\<lambda>b'. buffer_inv b' \<and> readable b' = [])"
    using MoveReadOffset_ok [OF assms(1), of "ReadAbleSize b"] assms(1)
    by (auto simp: unat_ReadAbleSize elim!: returns_mono)
  show ?thesis
  proof (cases "unat ?n \<le> length (readable b)")
    case True
    then show ?thesis
      using assms le MoveReadOffset_ok [OF assms(1) True]
      by (auto simp: RecvHttpBody_def spec_body_def Let_def mem_read_readable elim!: returns_mono)
  next
    case False
    then show ?thesis
      using assms le all
      by (auto simp: RecvHttpBody_def spec_body_def Let_def mem_read_readable unat_ReadAbleSize
          elim!: returns_mono)
  qed
qed

lemma Recv_skip:
  "recv_statu c \<noteq> RECV_HTTP_HEAD \<Longrightarrow> RecvHttpHead c b = Some (False, c, b)"
  "recv_statu c \<noteq> RECV_HTTP_BODY \<Longrightarrow> RecvHttpBody c b = Some (False, c, b)"
  by (simp_all add: RecvHttpHead_def RecvHttpBody_def)

lemma RecvHttpBody_stage:
  assumes "buffer_inv b"
  shows "returns (RecvHttpBody c b)
           (\<lambda>(_, c', b'). buffer_inv b' \<and>
              (c', readable b') =
                (if recv_statu c = RECV_HTTP_BODY then spec_body c (readable b) else (c, readable b)))"
  using RecvHttpBody_refines [OF assms, of c] assms by (auto simp: Recv_skip)

lemma RecvHttpHead_stage:
  assumes "buffer_inv b"
  shows "returns (RecvHttpHead c b)
           (\<lambda>(_, c', b'). buffer_inv b' \<and>
              (c', readable b') =
                (if recv_statu c = RECV_HTTP_HEAD then spec_head c (readable b) else (c, readable b)))"
  using RecvHttpHead_refines [OF assms, of c] assms by (auto simp: Recv_skip)

text \<open>Chaining a stage that refines \<open>f\<close> with a continuation that refines \<open>g\<close>.\<close>

lemma stage_then:
  assumes "returns x (\<lambda>(_, c', b'). buffer_inv b' \<and> (c', readable b') = f)"
    and "\<And>c' b'. buffer_inv b' \<Longrightarrow>
           returns (k c' b') (\<lambda>(c'', b''). buffer_inv b'' \<and> (c'', readable b'') = g (c', readable b'))"
  shows "returns (x \<bind> (\<lambda>(_, c', b'). k c' b')) (\<lambda>(c'', b''). buffer_inv b'' \<and> (c'', readable b'') = g f)"
  using assms(1)
proof (rule returnsE)
  fix y assume "x = Some y" and y: "case y of (_, c', b') \<Rightarrow> buffer_inv b' \<and> (c', readable b') = f"
  then show ?thesis using assms(2) by (auto split: prod.splits)
qed

definition body_stage :: "HttpContext \<times> bytes \<Rightarrow> HttpContext \<times> bytes" where
  "body_stage = (\<lambda>(c, s). if recv_statu c = RECV_HTTP_BODY then spec_body c s else (c, s))"

definition head_stage :: "HttpContext \<times> bytes \<Rightarrow> HttpContext \<times> bytes" where
  "head_stage = (\<lambda>(c, s). if recv_statu c = RECV_HTTP_HEAD then spec_head c s else (c, s))"

definition line_stage :: "HttpContext \<times> bytes \<Rightarrow> HttpContext \<times> bytes" where
  "line_stage = (\<lambda>(c, s). if recv_statu c = RECV_HTTP_LINE then spec_line c s else (c, s))"

lemma recv_spec_stages: "recv_spec c s = body_stage (head_stage (line_stage (c, s)))"
  by (simp add: recv_spec_def body_stage_def head_stage_def line_stage_def Let_def split_def)

lemma RecvHttpRequest_refines:
  assumes "buffer_inv b"
  shows "returns (RecvHttpRequest c b)
           (\<lambda>(c', b'). buffer_inv b' \<and> (c', readable b') = recv_spec c (readable b))"
proof -
  have body: "returns (RecvHttpBody c2 b2 \<bind> (\<lambda>(_, c3, b3). Some (c3, b3)))
      (\<lambda>(c', b'). buffer_inv b' \<and> (c', readable b') = body_stage (c2, readable b2))"
    if "buffer_inv b2" for c2 b2
    using RecvHttpBody_stage [OF that, of c2]
    by (intro stage_then [where g = "\<lambda>x. x"]) (simp_all add: body_stage_def)
  have head: "returns (RecvHttpHead c1 b1 \<bind> (\<lambda>(_, c2, b2). RecvHttpBody c2 b2 \<bind> (\<lambda>(_, c3, b3). Some (c3, b3))))
      (\<lambda>(c', b'). buffer_inv b' \<and> (c', readable b') = body_stage (head_stage (c1, readable b1)))"
    if "buffer_inv b1" for c1 b1
    using RecvHttpHead_stage [OF that, of c1]
    by (intro stage_then [where g = body_stage] body) (simp_all add: head_stage_def)
  show ?thesis
  proof (cases "recv_statu c = RECV_HTTP_LINE")
    case True
    have "returns (RecvHttpLine c b \<bind> (\<lambda>(_, c1, b1). RecvHttpHead c1 b1 \<bind>
            (\<lambda>(_, c2, b2). RecvHttpBody c2 b2 \<bind> (\<lambda>(_, c3, b3). Some (c3, b3)))))
      (\<lambda>(c', b'). buffer_inv b' \<and>
         (c', readable b') = body_stage (head_stage (line_stage (c, readable b))))"
      using RecvHttpLine_refines [OF assms True] True
      by (intro stage_then [where g = "\<lambda>x. body_stage (head_stage x)"] head) (simp_all add: line_stage_def)
    then show ?thesis using True by (simp add: RecvHttpRequest_def recv_spec_stages)
  next
    case False
    then have "line_stage (c, s) = (c, s)" for s by (simp add: line_stage_def)
    then show ?thesis
      using head [OF assms, of c] body [OF assms, of c] False assms
      by (cases "recv_statu c")
         (simp_all add: RecvHttpRequest_def recv_spec_stages head_stage_def body_stage_def)
  qed
qed

section \<open>The stages under more input\<close>

lemma line_of_append: "line_of s \<noteq> [] \<Longrightarrow> line_of (s @ t) = line_of s"
  by (auto simp: line_of_def find_index_append dest: find_index_lt split: option.splits)

lemma line_of_append_long: "line_of s = [] \<Longrightarrow> line_of (s @ t) = [] \<or> length s < length (line_of (s @ t))"
  by (auto simp: line_of_def find_index_append dest: find_index_lt split: option.splits)

lemma drop_line_append:
  "drop (length (line_of s)) (s @ t) = drop (length (line_of s)) s @ t"
  using length_line_of_le [of s] by simp

lemma ctx_error_simps [http_simps, simp]:
  "recv_statu (ctx_error st c) = RECV_HTTP_ERROR"
  "resp_statu (ctx_error st c) = st"
  "ctx_request (ctx_error st c) = ctx_request c"
  by (simp_all add: ctx_error_def)

lemma append_body_simps [http_simps, simp]:
  "recv_statu (append_body xs c) = recv_statu c"
  "resp_statu (append_body xs c) = resp_statu c"
  "req_body (ctx_request (append_body xs c)) = req_body (ctx_request c) @ xs"
  "ContentLength (ctx_request (append_body xs c)) = ContentLength (ctx_request c)"
  "append_body ys (append_body xs c) = append_body (xs @ ys) c"
  by (simp_all add: append_body_def ContentLength_def HttpRequest_HasHeader_def HttpRequest_GetHeader_def)

lemma ParseHttpLine_params_stage:
  "ParseHttpLine_params strs c = (ret, c') \<Longrightarrow>
   recv_statu c' = (if ret then recv_statu c else RECV_HTTP_ERROR)"
  by (induction strs c rule: ParseHttpLine_params.induct) (auto simp: Let_def split: option.splits)

lemma ParseHttpLine_stage:
  "ParseHttpLine l c = (ret, c') \<Longrightarrow> recv_statu c' = (if ret then recv_statu c else RECV_HTTP_ERROR)"
  by (auto simp: ParseHttpLine_def Let_def split: option.splits dest: ParseHttpLine_params_stage)

lemma spec_header_stage:
  "spec_header l c = (ret, c') \<Longrightarrow> recv_statu c' = (if ret then recv_statu c else RECV_HTTP_ERROR)"
  by (auto simp: spec_header_def split: option.splits)

lemma spec_line_more:
  assumes "recv_statu c = RECV_HTTP_LINE" and "spec_line c s = (c1, s1)"
  shows "c1 = c \<and> s1 = s \<or>
         recv_statu c1 = RECV_HTTP_HEAD \<and> spec_line c (s @ t) = (c1, s1 @ t) \<or>
         recv_statu c1 = RECV_HTTP_ERROR \<and> fst (spec_line c (s @ t)) = c1"
proof (cases "line_of s = []")
  case True
  then have "c1 = (if MAX_LINE < length s then ctx_error 414 c else c)" "s1 = s"
    using assms(2) by (auto simp: spec_line_def Let_def)
  moreover have "fst (spec_line c (s @ t)) = ctx_error 414 c" if "MAX_LINE < length s"
    using that line_of_append_long [OF True, of t] by (auto simp: spec_line_def Let_def)
  ultimately show ?thesis by (auto split: if_splits)
next
  case False
  obtain ret c' where "ParseHttpLine (line_of s) c = (ret, c')" by fastforce
  with False show ?thesis
    using assms ParseHttpLine_stage [of "line_of s" c ret c'] line_of_append [OF False, of t]
    by (auto simp: spec_line_def Let_def drop_line_append split: if_splits)
qed

lemma spec_head_more:
  assumes "recv_statu c = RECV_HTTP_HEAD" and "spec_head c s = (c1, s1)"
  shows "recv_statu c1 = RECV_HTTP_HEAD \<and> spec_head c1 (s1 @ t) = spec_head c (s @ t) \<or>
         recv_statu c1 = RECV_HTTP_BODY \<and> spec_head c (s @ t) = (c1, s1 @ t) \<or>
         recv_statu c1 = RECV_HTTP_ERROR \<and> fst (spec_head c (s @ t)) = c1"
  using assms
proof (induction c s rule: spec_head.induct)
  case (1 c s)
  show ?case
  proof (cases "line_of s = []")
    case True
    then have "spec_head c s = ((if MAX_LINE < length s then ctx_error 414 c else c), s)"
      by (simp add: spec_head.simps [of c s] Let_def)
    with "1.prems"(2) have "c1 = (if MAX_LINE < length s then ctx_error 414 c else c)" "s1 = s"
      by auto
    moreover have "fst (spec_head c (s @ t)) = ctx_error 414 c" if "MAX_LINE < length s"
      using that line_of_append_long [OF True, of t]
      by (auto simp: spec_head.simps [of c "s @ t"] Let_def)
    ultimately show ?thesis using "1.prems"(1) by (auto split: if_splits)
  next
    case ne: False
    note app = line_of_append [OF ne, of t] drop_line_append [of s t]
    consider (stop) "MAX_LINE < length (line_of s) \<or> line_of s = [CHR 0x0A] \<or> line_of s = [CHR 0x0D, CHR 0x0A]"
      | (header) "\<not> MAX_LINE < length (line_of s)" "\<not> (line_of s = [CHR 0x0A] \<or> line_of s = [CHR 0x0D, CHR 0x0A])"
      by blast
    then show ?thesis
    proof cases
      case stop
      then show ?thesis
        using "1.prems" ne app
        by (auto simp: spec_head.simps [of c s] spec_head.simps [of c "s @ t"] Let_def)
    next
      case header
      obtain ret c' where h: "spec_header (line_of s) c = (ret, c')" by fastforce
      note st = spec_header_stage [OF h]
      have eq: "spec_head c s = (if ret then spec_head c' (drop (length (line_of s)) s)
                                 else (c', drop (length (line_of s)) s))"
        and eq': "spec_head c (s @ t) = (if ret then spec_head c' (drop (length (line_of s)) s @ t)
                                 else (c', drop (length (line_of s)) s @ t))"
        using ne header h app
        by (simp_all add: spec_head.simps [of c s] spec_head.simps [of c "s @ t"] Let_def)
      show ?thesis
      proof (cases ret)
        case True
        then show ?thesis
          using "1.IH" [OF refl refl ne header] "1.prems" h st eq eq' by auto
      next
        case False
        then show ?thesis using "1.prems" st eq eq' by auto
      qed
    qed
  qed
qed

lemma spec_body_more:
  assumes "recv_statu c = RECV_HTTP_BODY" and "spec_body c s = (c1, s1)"
  shows "body_stage (c1, s1 @ t) = body_stage (c, s @ t)"
    and "recv_statu c1 = RECV_HTTP_BODY \<or> recv_statu c1 = RECV_HTTP_OVER"
proof -
  let ?cl = "ContentLength (ctx_request c)" and ?b = "req_body (ctx_request c)"
  show "recv_statu c1 = RECV_HTTP_BODY \<or> recv_statu c1 = RECV_HTTP_OVER"
    using assms by (auto simp: spec_body_def Let_def split: if_splits)
  show "body_stage (c1, s1 @ t) = body_stage (c, s @ t)"
  proof (cases "?cl \<noteq> 0 \<and> length s < unat (?cl - word_of_nat (length ?b))")
    case False
    then show ?thesis using assms by (auto simp: body_stage_def spec_body_def Let_def)
  next
    case True
    then have c1: "c1 = append_body s c" "s1 = []"
      using assms by (auto simp: spec_body_def Let_def)
    have "unat (?cl - word_of_nat (length ?b)) < 2 ^ LENGTH(64)" by (rule unsigned_less)
    with True have "length s < 2 ^ 64" by simp
    then have "unat (word_of_nat (length s) :: u64) = length s"
      by (intro unat_word_of_nat_small) simp
    then have "unat (?cl - word_of_nat (length ?b) - word_of_nat (length s))
             = unat (?cl - word_of_nat (length ?b)) - length s"
      using True by (simp add: unat_minus_le)
    then have n: "unat (?cl - word_of_nat (length (?b @ s))) = unat (?cl - word_of_nat (length ?b)) - length s"
      by (simp add: diff_diff_eq)
    show ?thesis
      using assms(1) True n unfolding c1 body_stage_def
      by (auto simp: spec_body_def Let_def not_le)
  qed
qed

section \<open>What is parsed does not depend on how the bytes arrive\<close>

lemma recv_spec_done:
  "recv_statu c = RECV_HTTP_ERROR \<or> recv_statu c = RECV_HTTP_OVER \<Longrightarrow> recv_spec c s = (c, s)"
  by (auto simp: recv_spec_def)

lemma recv_spec_from_body:
  "recv_statu c = RECV_HTTP_BODY \<or> recv_statu c = RECV_HTTP_OVER \<Longrightarrow> recv_spec c s = body_stage (c, s)"
  by (auto simp: recv_spec_stages head_stage_def line_stage_def)

lemma recv_spec_from_head:
  "recv_statu c = RECV_HTTP_HEAD \<Longrightarrow> recv_spec c s = body_stage (spec_head c s)"
  by (simp add: recv_spec_stages head_stage_def line_stage_def)

text \<open>Two outcomes of the parser that no client can tell apart: the same context, and the
  same unread bytes unless the request was refused.\<close>

definition same_parse :: "HttpContext \<times> bytes \<Rightarrow> HttpContext \<times> bytes \<Rightarrow> bool" where
  "same_parse p q \<longleftrightarrow> fst p = fst q \<and> (recv_statu (fst q) \<noteq> RECV_HTTP_ERROR \<longrightarrow> snd p = snd q)"

lemma same_parse_refl [simp]: "same_parse p p"
  by (simp add: same_parse_def)

lemma recv_more_head:
  assumes "recv_statu c = RECV_HTTP_HEAD" and "body_stage (spec_head c s) = (c', s')"
  shows "same_parse (recv_spec c' (s' @ t)) (body_stage (spec_head c (s @ t)))"
proof -
  obtain c1 s1 where h: "spec_head c s = (c1, s1)" by fastforce
  from spec_head_more [OF assms(1) h, of t] show ?thesis
  proof (elim disjE conjE)
    assume st: "recv_statu c1 = RECV_HTTP_HEAD" and "spec_head c1 (s1 @ t) = spec_head c (s @ t)"
    moreover have "c' = c1" "s' = s1" using assms(2) h st by (simp_all add: body_stage_def)
    ultimately show ?thesis by (simp add: recv_spec_from_head)
  next
    assume st: "recv_statu c1 = RECV_HTTP_BODY" and eq: "spec_head c (s @ t) = (c1, s1 @ t)"
    have b: "spec_body c1 s1 = (c', s')" using assms(2) h st by (simp add: body_stage_def)
    then show ?thesis
      using spec_body_more(1) [OF st b, of t] spec_body_more(2) [OF st b] eq by (simp add: recv_spec_from_body)
  next
    assume st: "recv_statu c1 = RECV_HTTP_ERROR" and eq: "fst (spec_head c (s @ t)) = c1"
    obtain s2 where "spec_head c (s @ t) = (c1, s2)" using eq by (cases "spec_head c (s @ t)") auto
    then show ?thesis
      using assms(2) h st by (simp add: body_stage_def recv_spec_done same_parse_def)
  qed
qed

lemma recv_more:
  assumes "recv_spec c s = (c', s')"
  shows "same_parse (recv_spec c' (s' @ t)) (recv_spec c (s @ t))"
proof (cases "recv_statu c")
  case RECV_HTTP_LINE
  obtain c1 s1 where l: "spec_line c s = (c1, s1)" by fastforce
  from spec_line_more [OF RECV_HTTP_LINE l, of t] show ?thesis
  proof (elim disjE conjE)
    assume "c1 = c" "s1 = s"
    then have "c' = c" "s' = s"
      using assms l RECV_HTTP_LINE by (simp_all add: recv_spec_def)
    then show ?thesis by simp
  next
    assume st: "recv_statu c1 = RECV_HTTP_HEAD" and eq: "spec_line c (s @ t) = (c1, s1 @ t)"
    have "recv_spec c (s @ t) = body_stage (spec_head c1 (s1 @ t))"
      using RECV_HTTP_LINE st eq by (simp add: recv_spec_stages line_stage_def head_stage_def)
    moreover have "body_stage (spec_head c1 s1) = (c', s')"
      using assms RECV_HTTP_LINE st l by (simp add: recv_spec_stages line_stage_def head_stage_def)
    ultimately show ?thesis using recv_more_head [OF st] by simp
  next
    assume st: "recv_statu c1 = RECV_HTTP_ERROR" and eq: "fst (spec_line c (s @ t)) = c1"
    obtain s2 where "spec_line c (s @ t) = (c1, s2)" using eq by (cases "spec_line c (s @ t)") auto
    then show ?thesis
      using assms l st RECV_HTTP_LINE by (simp add: recv_spec_def recv_spec_done same_parse_def)
  qed
next
  case RECV_HTTP_HEAD
  then show ?thesis using assms recv_more_head [of c s c' s' t] by (simp add: recv_spec_from_head)
next
  case RECV_HTTP_BODY
  then have b: "spec_body c s = (c', s')" using assms by (simp add: recv_spec_from_body body_stage_def)
  then show ?thesis
    using spec_body_more(1) [OF RECV_HTTP_BODY b, of t] spec_body_more(2) [OF RECV_HTTP_BODY b] RECV_HTTP_BODY by (simp add: recv_spec_from_body)
qed (use assms in \<open>simp_all add: recv_spec_done\<close>)

text \<open>Feeding pieces one after the other, parsing after each.\<close>

fun feed :: "HttpContext \<Rightarrow> Buffer \<Rightarrow> bytes list \<Rightarrow> (HttpContext \<times> Buffer) option" where
  "feed c b [] = Some (c, b)"
| "feed c b (piece # pieces) = do {
     b1 \<leftarrow> WriteString piece b;
     (c2, b2) \<leftarrow> RecvHttpRequest c b1;
     feed c2 b2 pieces }"

fun feed_spec :: "HttpContext \<times> bytes \<Rightarrow> bytes list \<Rightarrow> HttpContext \<times> bytes" where
  "feed_spec p [] = p"
| "feed_spec p (piece # pieces) = feed_spec (recv_spec (fst p) (snd p @ piece)) pieces"

lemma length_spec_head: "length (snd (spec_head c s)) \<le> length s"
proof (induction c s rule: spec_head.induct)
  case (1 c s)
  show ?case
    using "1.IH" by (subst spec_head.simps) (fastforce simp: Let_def split: prod.splits bool.splits)
qed

lemma length_stages:
  "length (snd (line_stage p)) \<le> length (snd p)"
  "length (snd (head_stage p)) \<le> length (snd p)"
  "length (snd (body_stage p)) \<le> length (snd p)"
  using length_spec_head [of "fst p" "snd p"]
  by (auto simp: line_stage_def spec_line_def head_stage_def body_stage_def spec_body_def Let_def split_def)

lemma length_recv_spec: "length (snd (recv_spec c s)) \<le> length s"
  using length_stages(3) [of "head_stage (line_stage (c, s))"] length_stages(2) [of "line_stage (c, s)"]
    length_stages(1) [of "(c, s)"]
  by (simp add: recv_spec_stages)

lemma same_parse_trans: "same_parse p q \<Longrightarrow> same_parse q r \<Longrightarrow> same_parse p r"
  by (auto simp: same_parse_def)

lemma feed_spec_concat:
  "pieces \<noteq> [] \<Longrightarrow> same_parse (feed_spec (c, s) pieces) (recv_spec c (s @ concat pieces))"
proof (induction pieces arbitrary: c s)
  case (Cons x xs)
  obtain c1 s1 where r: "recv_spec c (s @ x) = (c1, s1)" by fastforce
  show ?case
  proof (cases "xs = []")
    case False
    then have "same_parse (feed_spec (c1, s1) xs) (recv_spec c1 (s1 @ concat xs))" by (rule Cons.IH)
    with recv_more [OF r, of "concat xs"] r show ?thesis by (auto intro: same_parse_trans)
  qed simp
qed simp

lemma feed_refines:
  assumes "buffer_inv b" and "length (readable b) + 2 * length (concat pieces) \<le> 2 ^ 62"
  shows "returns (feed c b pieces)
           (\<lambda>(c', b'). buffer_inv b' \<and> (c', readable b') = feed_spec (c, readable b) pieces)"
  using assms
proof (induction pieces arbitrary: c b)
  case (Cons x xs)
  obtain b1 where b1: "WriteString x b = Some b1" "buffer_inv b1" "readable b1 = readable b @ x"
    using WriteString_ok [of b x] Cons.prems by (auto elim!: returnsE)
  obtain c2 b2 where b2: "RecvHttpRequest c b1 = Some (c2, b2)" "buffer_inv b2"
      "(c2, readable b2) = recv_spec c (readable b @ x)"
    using RecvHttpRequest_refines [OF b1(2), of c] b1(3) by (auto elim!: returnsE)
  have "length (readable b2) \<le> length (readable b @ x)"
    using length_recv_spec [of c "readable b @ x"] b2(3) by (metis snd_conv)
  then have "returns (feed c2 b2 xs)
      (\<lambda>(c', b'). buffer_inv b' \<and> (c', readable b') = feed_spec (c2, readable b2) xs)"
    using b2(2) Cons.prems by (intro Cons.IH) simp_all
  then show ?case using b1(1) b2(1) by (simp add: b2(3) [symmetric])
qed simp

text \<open>
  C5. Parsing does not depend on how the bytes are cut into pieces: from any parser
  state and any buffer, writing pieces one after the other and parsing after each of them
  returns, and ends with the same context as writing everything at once; unless the
  request was refused, the same bytes are left unread.
\<close>

theorem parsing_chunk_independent:
  assumes "buffer_inv b" and "pieces \<noteq> []"
    and "length (readable b) + 2 * length (concat pieces) \<le> 2 ^ 62"
  shows "\<exists>c1 b1 c2 b2. feed c b pieces = Some (c1, b1) \<and> feed c b [concat pieces] = Some (c2, b2) \<and>
           c1 = c2 \<and> (recv_statu c1 \<noteq> RECV_HTTP_ERROR \<longrightarrow> readable b1 = readable b2) \<and>
           buffer_inv b1 \<and> buffer_inv b2"
proof -
  obtain c1 b1 where 1: "feed c b pieces = Some (c1, b1)" "buffer_inv b1"
      "(c1, readable b1) = feed_spec (c, readable b) pieces"
    using feed_refines [OF assms(1,3), of c] by (auto elim!: returnsE)
  obtain c2 b2 where 2: "feed c b [concat pieces] = Some (c2, b2)" "buffer_inv b2"
      "(c2, readable b2) = feed_spec (c, readable b) [concat pieces]"
    using feed_refines [of b "[concat pieces]" c] assms(1,3) by (auto elim!: returnsE)
  have "same_parse (feed_spec (c, readable b) pieces) (feed_spec (c, readable b) [concat pieces])"
    using feed_spec_concat [OF assms(2)] by simp
  then have "same_parse (c1, readable b1) (c2, readable b2)" by (simp only: 1(3) 2(3))
  then have "c1 = c2" "recv_statu c1 \<noteq> RECV_HTTP_ERROR \<longrightarrow> readable b1 = readable b2"
    by (simp_all add: same_parse_def)
  with 1(1,2) 2(1,2) show ?thesis by blast
qed

theorem parsing_chunk_independent_witness:
  "\<exists>c1 b1 c2 b2. feed HttpContext_new Buffer_new [''GET / HT'', ''TP/1.1''] = Some (c1, b1) \<and>
     feed HttpContext_new Buffer_new [''GET / HTTP/1.1''] = Some (c2, b2) \<and> c1 = c2"
  using parsing_chunk_independent [of Buffer_new "[''GET / HT'', ''TP/1.1'']" HttpContext_new] by fastforce

section \<open>The response status of the parser\<close>

text \<open>The parser reports 200 until it refuses a request with 400 or 414, and the error
  stage is the one with an error status.\<close>

definition ctx_ok :: "HttpContext \<Rightarrow> bool" where
  "ctx_ok c \<longleftrightarrow> (if recv_statu c = RECV_HTTP_ERROR then resp_statu c = 400 \<or> resp_statu c = 414
                else resp_statu c = 200)"

lemma ctx_ok_new [simp]: "ctx_ok HttpContext_new" "ctx_ok (HttpContext_ReSet c)"
  by (simp_all add: ctx_ok_def HttpContext_new_def HttpContext_ReSet_def)

lemma ctx_ok_error [simp]: "ctx_ok (ctx_error 400 c)" "ctx_ok (ctx_error 414 c)"
  by (simp_all add: ctx_ok_def)

lemma ctx_ok_iff: "ctx_ok c \<Longrightarrow> 400 \<le> resp_statu c \<longleftrightarrow> recv_statu c = RECV_HTTP_ERROR"
  by (auto simp: ctx_ok_def split: if_splits)

lemma ctx_ok_update:
  "ctx_ok c \<Longrightarrow> recv_statu c \<noteq> RECV_HTTP_ERROR \<Longrightarrow> st \<noteq> RECV_HTTP_ERROR \<Longrightarrow> ctx_ok (c\<lparr>recv_statu := st\<rparr>)"
  "ctx_ok (c\<lparr>ctx_request := r\<rparr>) = ctx_ok c" "ctx_ok (append_body xs c) = ctx_ok c"
  by (auto simp: ctx_ok_def append_body_def split: if_splits)

lemma ParseHttpLine_params_ok: "ctx_ok c \<Longrightarrow> ParseHttpLine_params strs c = (ret, c') \<Longrightarrow> ctx_ok c'"
  by (induction strs c rule: ParseHttpLine_params.induct)
     (auto simp: Let_def ctx_ok_update split: option.splits)

lemma ParseHttpLine_ok: "ctx_ok c \<Longrightarrow> ParseHttpLine l c = (ret, c') \<Longrightarrow> ctx_ok c'"
  by (auto simp: ParseHttpLine_def Let_def ctx_ok_update split: option.splits
      dest: ParseHttpLine_params_ok [rotated])

lemma spec_line_ok:
  assumes "ctx_ok c" and "recv_statu c = RECV_HTTP_LINE"
  shows "ctx_ok (fst (spec_line c s))"
proof -
  obtain ret c' where h: "ParseHttpLine (line_of s) c = (ret, c')" by fastforce
  show ?thesis
    using assms ParseHttpLine_ok [OF assms(1) h] ParseHttpLine_stage [OF h]
    by (auto simp: spec_line_def Let_def h ctx_ok_update)
qed

lemma spec_head_ok: "ctx_ok c \<Longrightarrow> recv_statu c = RECV_HTTP_HEAD \<Longrightarrow> ctx_ok (fst (spec_head c s))"
proof (induction c s rule: spec_head.induct)
  case (1 c s)
  obtain ret c' where h: "spec_header (line_of s) c = (ret, c')" by fastforce
  then have "ctx_ok c'" using "1.prems" by (auto simp: spec_header_def ctx_ok_update split: option.splits)
  then show ?case
    using "1.IH" [OF refl refl] "1.prems" h spec_header_stage [OF h]
    by (subst spec_head.simps) (auto simp: Let_def ctx_ok_update split: bool.splits)
qed

lemma recv_spec_ok:
  assumes "ctx_ok c"
  shows "ctx_ok (fst (recv_spec c s))"
proof -
  have 1: "ctx_ok (fst (line_stage (c, s)))"
    using assms by (simp add: line_stage_def spec_line_ok)
  have 2: "ctx_ok (fst (head_stage p))" if "ctx_ok (fst p)" for p
    using that by (simp add: head_stage_def spec_head_ok split_def)
  have 3: "ctx_ok (fst (body_stage p))" if "ctx_ok (fst p)" for p
    using that by (auto simp: body_stage_def spec_body_def Let_def ctx_ok_update split_def)
  show ?thesis using 1 2 3 by (simp add: recv_spec_stages)
qed

text \<open>
  C12. Safety of the parser: on every buffer that satisfies the index invariant and from
  every consistent context it returns (no assertion of the buffer fails, no access leaves
  it), never adds bytes, and keeps the context consistent: the status is 200 before an
  error and 400 or 414 exactly in the error stage.
\<close>

theorem parser_safe:
  assumes "buffer_inv b" and "ctx_ok c"
  shows "\<exists>c' b'. RecvHttpRequest c b = Some (c', b') \<and> buffer_inv b' \<and> ctx_ok c' \<and>
                 length (readable b') \<le> length (readable b)"
proof -
  obtain c' b' where r: "RecvHttpRequest c b = Some (c', b')" "buffer_inv b'"
      "(c', readable b') = recv_spec c (readable b)"
    using RecvHttpRequest_refines [OF assms(1), of c] by (auto elim!: returnsE)
  moreover have "fst (recv_spec c (readable b)) = c'" "snd (recv_spec c (readable b)) = readable b'"
    by (simp_all add: r(3) [symmetric])
  ultimately show ?thesis
    using recv_spec_ok [OF assms(2), of "readable b"] length_recv_spec [of c "readable b"] by auto
qed

theorem parser_safe_witness:
  "\<exists>c' b'. RecvHttpRequest HttpContext_new Buffer_new = Some (c', b') \<and> ctx_ok c' \<and> length (readable b') \<le> 0"
  using parser_safe [of Buffer_new HttpContext_new] by auto

end
