(* ===== verification/TimerWheel.thy ===== *)
theory TimerWheel
  imports Prelude
begin

text \<open>
  The classes \<open>TimerTask\<close> and \<open>TimerWheel\<close> of \<open>src/http-v1/source/server.hpp\<close>: a wheel of 60
  slots, one per second, whose slots own the tasks through \<open>shared_ptr\<close> and whose index
  \<open>_timers\<close> refers to them through \<open>weak_ptr\<close>.

  Tasks are objects of an explicit heap with addresses that are never reused. The
  reference count of a task is the number of its occurrences in the slots; a task is
  destroyed, and then runs its callback unless it was cancelled, when its last occurrence
  is. \<open>lock()\<close> of a weak pointer is the look-up of its address in the heap. Clearing a
  slot destroys its elements from first to last (\<open>std::vector::clear\<close>); a slot holds the
  elements not destroyed yet. Appending to the vector that is being cleared is undefined
  and is \<open>None\<close>. The callbacks are of a type parameter, and what a callback does is the
  argument \<open>exec\<close> of the operations that run callbacks.

  The state is an extensible record: the event loop extends it with its other members.
  \<open>tw_fired\<close> is not in the code; it records the callbacks run so far, with the
  address of their task.
\<close>

section \<open>State and operations\<close>

type_synonym addr = nat

record 'cb TimerTask =
  task_id :: u64
  task_timeout :: u32
  task_cb :: 'cb
  task_release :: "u64 option"
  is_cancel :: bool

record 'cb TimerWheel =
  tw_tick :: nat
  tw_capacity :: nat
  tw_wheel :: "addr list list"
  tw_timers :: "u64 \<rightharpoonup> addr"
  tw_heap :: "addr \<rightharpoonup> 'cb TimerTask"
  tw_next :: addr
  tw_clearing :: "nat option"
  tw_fired :: "(addr \<times> 'cb) list"

definition TimerTask_new :: "u64 \<Rightarrow> u32 \<Rightarrow> 'cb \<Rightarrow> 'cb TimerTask" where
  "TimerTask_new tid timeout cb =
     \<lparr>task_id = tid, task_timeout = timeout, task_cb = cb, task_release = None, is_cancel = False\<rparr>"

text \<open>The release callback is always \<open>RemoveTimer\<close> bound to an id.\<close>

definition SetRealse :: "u64 \<Rightarrow> 'cb TimerTask \<Rightarrow> 'cb TimerTask" where
  "SetRealse tid t = t\<lparr>task_release := Some tid\<rparr>"

definition DelayTime :: "'cb TimerTask \<Rightarrow> u32" where
  "DelayTime t = task_timeout t"

definition Cancel :: "'cb TimerTask \<Rightarrow> 'cb TimerTask" where
  "Cancel t = t\<lparr>is_cancel := True\<rparr>"

definition TimerWheel_new :: "'cb TimerWheel" where
  "TimerWheel_new =
     \<lparr>tw_tick = 0, tw_capacity = 60, tw_wheel = replicate 60 [], tw_timers = (\<lambda>_. None),
      tw_heap = (\<lambda>_. None), tw_next = 0, tw_clearing = None, tw_fired = []\<rparr>"

text \<open>\<open>(_tick + timeout) % _capacity\<close>: the \<open>int\<close> operands are converted to \<open>unsigned\<close>.\<close>

definition slot_of :: "u32 \<Rightarrow> ('cb, 'z) TimerWheel_scheme \<Rightarrow> nat" where
  "slot_of timeout w = unat ((word_of_nat (tw_tick w) + timeout) mod word_of_nat (tw_capacity w))"

definition push_slot :: "nat \<Rightarrow> addr \<Rightarrow> ('cb, 'z) TimerWheel_scheme \<Rightarrow> ('cb, 'z) TimerWheel_scheme option" where
  "push_slot i a w =
     (if i < length (tw_wheel w) \<and> tw_clearing w \<noteq> Some i
      then Some (w\<lparr>tw_wheel := (tw_wheel w)[i := tw_wheel w ! i @ [a]]\<rparr>) else None)"

definition TimerAddInLoop ::
    "u64 \<Rightarrow> u32 \<Rightarrow> 'cb \<Rightarrow> ('cb, 'z) TimerWheel_scheme \<Rightarrow> ('cb, 'z) TimerWheel_scheme option" where
  "TimerAddInLoop tid timeout cb w =
     (let pt = tw_next w;
          w1 = w\<lparr>tw_heap := (tw_heap w)(pt \<mapsto> SetRealse tid (TimerTask_new tid timeout cb)), tw_next := pt + 1\<rparr>
      in do {
        w2 \<leftarrow> push_slot (slot_of timeout w1) pt w1;
        Some (w2\<lparr>tw_timers := (tw_timers w2)(tid \<mapsto> pt)\<rparr>)
      })"

text \<open>\<open>it->second.lock()\<close> of the entry of an id.\<close>

definition lock_timer :: "u64 \<Rightarrow> ('cb, 'z) TimerWheel_scheme \<Rightarrow> (addr \<times> 'cb TimerTask) option" where
  "lock_timer tid w = do { a \<leftarrow> tw_timers w tid; t \<leftarrow> tw_heap w a; Some (a, t) }"

definition TimerRefreshInLoop ::
    "u64 \<Rightarrow> ('cb, 'z) TimerWheel_scheme \<Rightarrow> ('cb, 'z) TimerWheel_scheme option" where
  "TimerRefreshInLoop tid w =
     (case lock_timer tid w of
        None \<Rightarrow> Some w
      | Some (pt, t) \<Rightarrow> push_slot (slot_of (DelayTime t) w) pt w)"

definition TimerCancelInLoop :: "u64 \<Rightarrow> ('cb, 'z) TimerWheel_scheme \<Rightarrow> ('cb, 'z) TimerWheel_scheme" where
  "TimerCancelInLoop tid w =
     (case lock_timer tid w of
        None \<Rightarrow> w
      | Some (pt, t) \<Rightarrow> w\<lparr>tw_heap := (tw_heap w)(pt \<mapsto> Cancel t)\<rparr>)"

definition TimerWheel_HasTimer :: "u64 \<Rightarrow> ('cb, 'z) TimerWheel_scheme \<Rightarrow> bool" where
  "TimerWheel_HasTimer tid w = (case tw_timers w tid of None \<Rightarrow> False | Some _ \<Rightarrow> True)"

definition RemoveTimer :: "u64 \<Rightarrow> ('cb, 'z) TimerWheel_scheme \<Rightarrow> ('cb, 'z) TimerWheel_scheme" where
  "RemoveTimer tid w =
     (case tw_timers w tid of None \<Rightarrow> w | Some _ \<Rightarrow> w\<lparr>tw_timers := (tw_timers w)(tid := None)\<rparr>)"

text \<open>The destructor of the task \<open>t\<close> at \<open>a\<close>; no weak pointer can be locked any more.\<close>

definition TimerTask_destroy ::
    "('cb \<Rightarrow> ('cb, 'z) TimerWheel_scheme \<Rightarrow> ('cb, 'z) TimerWheel_scheme option) \<Rightarrow> addr \<Rightarrow> 'cb TimerTask \<Rightarrow>
     ('cb, 'z) TimerWheel_scheme \<Rightarrow> ('cb, 'z) TimerWheel_scheme option" where
  "TimerTask_destroy exec a t w =
     (let w1 = w\<lparr>tw_heap := (tw_heap w)(a := None)\<rparr> in do {
        w2 \<leftarrow> (if is_cancel t then Some w1
               else exec (task_cb t) (w1\<lparr>tw_fired := tw_fired w1 @ [(a, task_cb t)]\<rparr>));
        Some (case task_release t of None \<Rightarrow> w2 | Some tid \<Rightarrow> RemoveTimer tid w2)
      })"

text \<open>Dropping one \<open>shared_ptr\<close> to \<open>a\<close> that is no longer in any slot.\<close>

definition drop_ref ::
    "('cb \<Rightarrow> ('cb, 'z) TimerWheel_scheme \<Rightarrow> ('cb, 'z) TimerWheel_scheme option) \<Rightarrow> addr \<Rightarrow>
     ('cb, 'z) TimerWheel_scheme \<Rightarrow> ('cb, 'z) TimerWheel_scheme option" where
  "drop_ref exec a w =
     (if a \<in> set (concat (tw_wheel w)) then Some w
      else case tw_heap w a of
        None \<Rightarrow> None
      | Some t \<Rightarrow> TimerTask_destroy exec a t w)"

fun clear_slot ::
    "('cb \<Rightarrow> ('cb, 'z) TimerWheel_scheme \<Rightarrow> ('cb, 'z) TimerWheel_scheme option) \<Rightarrow> nat \<Rightarrow> addr list \<Rightarrow>
     ('cb, 'z) TimerWheel_scheme \<Rightarrow> ('cb, 'z) TimerWheel_scheme option" where
  "clear_slot exec i [] w = Some (w\<lparr>tw_clearing := None\<rparr>)"
| "clear_slot exec i (a # as) w = do {
     w1 \<leftarrow> drop_ref exec a (w\<lparr>tw_wheel := (tw_wheel w)[i := as]\<rparr>);
     clear_slot exec i as w1
   }"

definition Run ::
    "('cb \<Rightarrow> ('cb, 'z) TimerWheel_scheme \<Rightarrow> ('cb, 'z) TimerWheel_scheme option) \<Rightarrow>
     ('cb, 'z) TimerWheel_scheme \<Rightarrow> ('cb, 'z) TimerWheel_scheme option" where
  "Run exec w =
     (let i = (tw_tick w + 1) mod tw_capacity w
      in clear_slot exec i (tw_wheel w ! i) (w\<lparr>tw_tick := i, tw_clearing := Some i\<rparr>))"

text \<open>\<open>Ontime\<close>: the read of the timer descriptor returns a negative number on failure, and
  then the process aborts; the number of expirations it reads is not used.\<close>

definition ReadTimerFd :: "int \<Rightarrow> unit option" where
  "ReadTimerFd ret = (if ret < 0 then None else Some ())"

definition Ontime ::
    "('cb \<Rightarrow> ('cb, 'z) TimerWheel_scheme \<Rightarrow> ('cb, 'z) TimerWheel_scheme option) \<Rightarrow> int \<Rightarrow>
     ('cb, 'z) TimerWheel_scheme \<Rightarrow> ('cb, 'z) TimerWheel_scheme option" where
  "Ontime exec ret w = do { _ \<leftarrow> ReadTimerFd ret; Run exec w }"

section \<open>Distances on the wheel\<close>

text \<open>The number of ticks after which a slot is cleared, from 1 to 60, and the number of
  ticks after which a task put at \<open>timeout\<close> expires: the timeout itself from 1 to 60, and
  modulo 60 otherwise.\<close>

definition slot_dist :: "nat \<Rightarrow> nat \<Rightarrow> nat" where
  "slot_dist tick i = (i + 59 - tick) mod 60 + 1"

definition delay :: "u32 \<Rightarrow> nat" where
  "delay timeout = (unat timeout + 59) mod 60 + 1"

lemma delay_small: "1 \<le> unat timeout \<Longrightarrow> unat timeout \<le> 60 \<Longrightarrow> delay timeout = unat timeout"
  by (cases "unat timeout = 60") (auto simp: delay_def mod_if)

lemma slot_dist_range: "1 \<le> slot_dist t i" "slot_dist t i \<le> 60"
  by (simp_all add: slot_dist_def Suc_leI)

lemma slot_dist_eq:
  assumes "t < 60" and "i < 60"
  shows "slot_dist t i = (if t < i then i - t else i + 60 - t)"
proof (cases "t < i")
  case True
  then have "i + 59 - t = (i - t - 1) + 60" by simp
  then have "(i + 59 - t) mod 60 = i - t - 1" using assms by (simp add: mod_if)
  with True show ?thesis by (simp add: slot_dist_def)
next
  case False
  with assms show ?thesis by (simp add: slot_dist_def)
qed

lemma slot_dist_tick:
  assumes "t < 60" and "i < 60"
  shows "slot_dist ((t + 1) mod 60) i = (if i = (t + 1) mod 60 then 60 else slot_dist t i - 1)"
proof (cases "t = 59")
  case True
  then show ?thesis using assms by (simp add: slot_dist_eq)
next
  case False
  then have "(t + 1) mod 60 = t + 1" "t + 1 < 60" using assms by simp_all
  then show ?thesis using assms slot_dist_eq [of "t + 1" i] slot_dist_eq [OF assms] by auto
qed

lemma slot_dist_one: "t < 60 \<Longrightarrow> i < 60 \<Longrightarrow> slot_dist t i = 1 \<longleftrightarrow> i = (t + 1) mod 60"
  by (auto simp: slot_dist_eq mod_if split: if_splits)

lemma slot_dist_slot:
  assumes "t < 60" and "d + 60 \<le> 2 ^ 32"
  shows "slot_dist t ((t + d) mod 60) = (d + 59) mod 60 + 1"
proof -
  have "((t + d) mod 60 + 59 - t) mod 60 = ((t + d) mod 60 + (59 - t)) mod 60" using assms(1) by simp
  also have "\<dots> = (t + d + (59 - t)) mod 60" by (simp add: mod_simps)
  also have "t + d + (59 - t) = d + 59" using assms(1) by simp
  finally show ?thesis by (simp add: slot_dist_def)
qed

section \<open>Invariant\<close>

text \<open>The wheel owns exactly the live tasks (no slot refers to a destroyed task, and every
  live task is in a slot); an index entry refers to a task with its id; a task is never
  further away than its timeout (outside the slot being cleared); no callback has run
  twice, and none of a live task has run.\<close>

definition wheel_inv :: "('cb, 'z) TimerWheel_scheme \<Rightarrow> bool" where
  "wheel_inv w \<longleftrightarrow>
     tw_capacity w = 60 \<and> length (tw_wheel w) = 60 \<and> tw_tick w < 60 \<and>
     (\<forall>a. (\<exists>t. tw_heap w a = Some t) \<longleftrightarrow> (\<exists>i < 60. a \<in> set (tw_wheel w ! i))) \<and>
     (\<forall>a t. tw_heap w a = Some t \<longrightarrow> a < tw_next w \<and> task_release t = Some (task_id t)) \<and>
     (\<forall>tid a. tw_timers w tid = Some a \<longrightarrow> a < tw_next w \<and> (\<forall>t. tw_heap w a = Some t \<longrightarrow> task_id t = tid)) \<and>
     (\<forall>i < 60. \<forall>a t. tw_clearing w \<noteq> Some i \<longrightarrow> a \<in> set (tw_wheel w ! i) \<longrightarrow> tw_heap w a = Some t \<longrightarrow>
        unat (task_timeout t) + 60 \<le> 2 ^ 32 \<longrightarrow> slot_dist (tw_tick w) i \<le> delay (task_timeout t)) \<and>
     distinct (map fst (tw_fired w)) \<and>
     (\<forall>a. a \<in> fst ` set (tw_fired w) \<longrightarrow> a < tw_next w \<and> tw_heap w a = None)"

lemma wheel_invD:
  assumes "wheel_inv w"
  shows "tw_capacity w = 60" and "length (tw_wheel w) = 60" and "tw_tick w < 60"
    and "(\<exists>t. tw_heap w a = Some t) \<longleftrightarrow> (\<exists>i < 60. a \<in> set (tw_wheel w ! i))"
    and "tw_heap w a = Some t \<Longrightarrow> a < tw_next w" and "tw_heap w a = Some t \<Longrightarrow> task_release t = Some (task_id t)"
    and "tw_timers w tid = Some a \<Longrightarrow> a < tw_next w"
    and "tw_timers w tid = Some a \<Longrightarrow> tw_heap w a = Some t \<Longrightarrow> task_id t = tid"
    and "i < 60 \<Longrightarrow> tw_clearing w \<noteq> Some i \<Longrightarrow> a \<in> set (tw_wheel w ! i) \<Longrightarrow> tw_heap w a = Some t \<Longrightarrow>
           unat (task_timeout t) + 60 \<le> 2 ^ 32 \<Longrightarrow> slot_dist (tw_tick w) i \<le> delay (task_timeout t)"
    and "distinct (map fst (tw_fired w))"
    and "a \<in> fst ` set (tw_fired w) \<Longrightarrow> a < tw_next w" and "a \<in> fst ` set (tw_fired w) \<Longrightarrow> tw_heap w a = None"
  using assms by (simp_all add: wheel_inv_def)

lemma wheel_invI:
  assumes "tw_capacity w = 60" and "length (tw_wheel w) = 60" and "tw_tick w < 60"
    and "\<And>a. (\<exists>t. tw_heap w a = Some t) \<longleftrightarrow> (\<exists>i < 60. a \<in> set (tw_wheel w ! i))"
    and "\<And>a t. tw_heap w a = Some t \<Longrightarrow> a < tw_next w \<and> task_release t = Some (task_id t)"
    and "\<And>tid a. tw_timers w tid = Some a \<Longrightarrow> a < tw_next w \<and> (\<forall>t. tw_heap w a = Some t \<longrightarrow> task_id t = tid)"
    and "\<And>i a t. i < 60 \<Longrightarrow> tw_clearing w \<noteq> Some i \<Longrightarrow> a \<in> set (tw_wheel w ! i) \<Longrightarrow> tw_heap w a = Some t \<Longrightarrow>
           unat (task_timeout t) + 60 \<le> 2 ^ 32 \<Longrightarrow> slot_dist (tw_tick w) i \<le> delay (task_timeout t)"
    and "distinct (map fst (tw_fired w))"
    and "\<And>a. a \<in> fst ` set (tw_fired w) \<Longrightarrow> a < tw_next w \<and> tw_heap w a = None"
  shows "wheel_inv w"
  unfolding wheel_inv_def using assms by (simp only: simp_thms) simp

text \<open>What any sequence of the operations keeps of an earlier state: the slots only grow,
  the slot being cleared is not touched, live tasks stay live and themselves, destroyed
  ones stay destroyed.\<close>

definition same_task :: "'cb TimerTask \<Rightarrow> 'cb TimerTask \<Rightarrow> bool" where
  "same_task t t' \<longleftrightarrow> task_id t' = task_id t \<and> task_timeout t' = task_timeout t \<and> task_cb t' = task_cb t \<and>
     (is_cancel t \<longrightarrow> is_cancel t')"

definition wheel_le :: "('cb, 'z) TimerWheel_scheme \<Rightarrow> ('cb, 'z) TimerWheel_scheme \<Rightarrow> bool" where
  "wheel_le w w' \<longleftrightarrow>
     tw_tick w' = tw_tick w \<and> tw_clearing w' = tw_clearing w \<and> tw_fired w' = tw_fired w \<and>
     (\<forall>i < 60. set (tw_wheel w ! i) \<subseteq> set (tw_wheel w' ! i)) \<and>
     (\<forall>i < 60. tw_clearing w = Some i \<longrightarrow> tw_wheel w' ! i = tw_wheel w ! i) \<and>
     (\<forall>a t. tw_heap w a = Some t \<longrightarrow> (\<exists>t'. tw_heap w' a = Some t' \<and> same_task t t')) \<and>
     tw_next w \<le> tw_next w' \<and>
     (\<forall>a < tw_next w. tw_heap w a = None \<longrightarrow> tw_heap w' a = None)"

lemma wheel_leD:
  assumes "wheel_le w w'"
  shows "tw_tick w' = tw_tick w" and "tw_clearing w' = tw_clearing w" and "tw_fired w' = tw_fired w"
    and "i < 60 \<Longrightarrow> a \<in> set (tw_wheel w ! i) \<Longrightarrow> a \<in> set (tw_wheel w' ! i)"
    and "i < 60 \<Longrightarrow> tw_clearing w = Some i \<Longrightarrow> tw_wheel w' ! i = tw_wheel w ! i"
    and "tw_heap w a = Some t \<Longrightarrow> \<exists>t'. tw_heap w' a = Some t' \<and> same_task t t'"
    and "tw_next w \<le> tw_next w'"
    and "a < tw_next w \<Longrightarrow> tw_heap w a = None \<Longrightarrow> tw_heap w' a = None"
  using assms unfolding wheel_le_def by auto

lemma same_task_refl [simp]: "same_task t t"
  by (simp add: same_task_def)

lemma same_task_trans: "same_task t u \<Longrightarrow> same_task u v \<Longrightarrow> same_task t v"
  by (simp add: same_task_def)

lemma wheel_le_refl [simp]: "wheel_le w w"
  by (simp add: wheel_le_def)

lemma wheel_le_trans:
  assumes "wheel_le u v" and "wheel_le v w"
  shows "wheel_le u w"
proof -
  have "\<exists>t'. tw_heap w a = Some t' \<and> same_task t t'" if "tw_heap u a = Some t" for a t
    using wheel_leD(6) [OF assms(1) that] wheel_leD(6) [OF assms(2)] same_task_trans by metis
  moreover have "tw_heap w a = None" if "a < tw_next u" "tw_heap u a = None" for a
    using that wheel_leD(7,8) [OF assms(1)] wheel_leD(8) [OF assms(2)] by (simp add: less_le_trans)
  ultimately show ?thesis
    using wheel_leD(1-5,7) [OF assms(1)] wheel_leD(1-5,7) [OF assms(2)]
    unfolding wheel_le_def by (auto simp: subset_iff)
qed

lemma wheel_inv_new [simp]: "wheel_inv (TimerWheel_new :: 'cb TimerWheel)"
  by (simp add: wheel_inv_def TimerWheel_new_def)

lemma slot_of_eq:
  assumes "wheel_inv w" and "unat timeout + 60 \<le> 2 ^ 32"
  shows "slot_of timeout w = (tw_tick w + unat timeout) mod 60"
proof -
  have t: "tw_tick w < 60" "tw_capacity w = 60" using wheel_invD [OF assms(1)] by simp_all
  then have u: "unat (word_of_nat (tw_tick w) :: u32) = tw_tick w"
    by (intro unat_word_of_nat_small) simp
  then have "unat (word_of_nat (tw_tick w) + timeout) = tw_tick w + unat timeout"
    using assms(2) t by (subst unat_plus_small) simp_all
  then show ?thesis by (simp add: slot_of_def unat_mod t)
qed

lemma slot_of_less [simp]: "wheel_inv w \<Longrightarrow> slot_of timeout w < 60"
  by (simp add: slot_of_def wheel_invD unat_mod)

lemma slot_dist_slot_of:
  "wheel_inv w \<Longrightarrow> unat timeout + 60 \<le> 2 ^ 32 \<Longrightarrow> slot_dist (tw_tick w) (slot_of timeout w) = delay timeout"
  by (simp add: slot_of_eq slot_dist_slot wheel_invD delay_def)

section \<open>The operations keep the invariant\<close>

lemma push_slot_ok:
  assumes "wheel_inv w" and "tw_heap w a = Some t" and "i = slot_of (task_timeout t) w" and "tw_clearing w \<noteq> Some i"
  shows "push_slot i a w = Some (w\<lparr>tw_wheel := (tw_wheel w)[i := tw_wheel w ! i @ [a]]\<rparr>)"
    and "wheel_inv (w\<lparr>tw_wheel := (tw_wheel w)[i := tw_wheel w ! i @ [a]]\<rparr>)" (is "wheel_inv ?w")
    and "wheel_le w (w\<lparr>tw_wheel := (tw_wheel w)[i := tw_wheel w ! i @ [a]]\<rparr>)"
proof -
  have i: "i < 60" and l: "length (tw_wheel w) = 60" using assms wheel_invD [OF assms(1)] by simp_all
  have mem: "x \<in> set (tw_wheel ?w ! j) \<longleftrightarrow> x \<in> set (tw_wheel w ! j) \<or> (j = i \<and> x = a)" if "j < 60" for j x
    using that i l by (auto simp: nth_list_update)
  have own: "(\<exists>u. tw_heap w x = Some u) \<longleftrightarrow> (\<exists>j < 60. x \<in> set (tw_wheel ?w ! j))" for x
    using wheel_invD(4) [OF assms(1), of x] assms(2) i mem by (cases "x = a") auto
  have far: "slot_dist (tw_tick w) j \<le> delay (task_timeout u)"
    if "j < 60" "tw_clearing w \<noteq> Some j" "x \<in> set (tw_wheel ?w ! j)" "tw_heap w x = Some u"
       "unat (task_timeout u) + 60 \<le> 2 ^ 32" for j x u
    using that assms(2,3) slot_dist_slot_of [OF assms(1), of "task_timeout u"] mem [OF that(1), of x]
      wheel_invD(9) [OF assms(1) that(1,2) _ that(4,5)]
    by auto
  show "push_slot i a w = Some ?w" using i l assms(4) by (simp add: push_slot_def)
  show "wheel_inv ?w"
    using own far wheel_invD [OF assms(1)] l by (intro wheel_invI) simp_all
  show "wheel_le w ?w" using mem assms(4) by (auto simp: wheel_le_def nth_list_update)
qed

text \<open>An operation on the wheel that cannot disturb it.\<close>

definition keeps :: "('cb, 'z) TimerWheel_scheme \<Rightarrow> ('cb, 'z) TimerWheel_scheme option \<Rightarrow> bool" where
  "keeps w r \<longleftrightarrow> returns r (\<lambda>w'. wheel_inv w' \<and> wheel_le w w')"

lemma keepsI: "wheel_inv w' \<Longrightarrow> wheel_le w w' \<Longrightarrow> keeps w (Some w')"
  by (simp add: keeps_def)

lemma TimerRefreshInLoop_keeps:
  assumes "wheel_inv w"
    and "\<And>a t. lock_timer tid w = Some (a, t) \<Longrightarrow> tw_clearing w \<noteq> Some (slot_of (task_timeout t) w)"
  shows "keeps w (TimerRefreshInLoop tid w)"
proof (cases "lock_timer tid w")
  case None
  then show ?thesis using assms(1) by (simp add: TimerRefreshInLoop_def keeps_def)
next
  case (Some p)
  then obtain a t where p: "p = (a, t)" "tw_heap w a = Some t"
    by (auto simp: lock_timer_def Option.bind_eq_Some_conv)
  show ?thesis
    using push_slot_ok [OF assms(1) p(2) refl] assms(2) Some p
    by (simp add: TimerRefreshInLoop_def DelayTime_def keepsI)
qed

lemma TimerCancelInLoop_keeps:
  assumes "wheel_inv w"
  shows "keeps w (Some (TimerCancelInLoop tid w))"
proof (cases "lock_timer tid w")
  case None
  then show ?thesis using assms by (simp add: TimerCancelInLoop_def keeps_def)
next
  case (Some p)
  then obtain a t where p: "p = (a, t)" "tw_heap w a = Some t"
    by (auto simp: lock_timer_def Option.bind_eq_Some_conv)
  let ?w = "w\<lparr>tw_heap := (tw_heap w)(a \<mapsto> Cancel t)\<rparr>"
  have own: "(\<exists>u. tw_heap ?w x = Some u) \<longleftrightarrow> (\<exists>u. tw_heap w x = Some u)" for x
    using p(2) by simp
  have "wheel_inv ?w"
  proof (rule wheel_invI)
    fix x assume x: "x \<in> fst ` set (tw_fired ?w)"
    then show "x < tw_next ?w \<and> tw_heap ?w x = None"
      using wheel_invD(11,12) [OF assms, of x] p(2) by auto
  qed (use wheel_invD(1-10) [OF assms] own p(2) in \<open>auto simp: Cancel_def split: if_splits\<close>)
  moreover have "wheel_le w ?w"
    using p(2) by (auto simp: wheel_le_def same_task_def Cancel_def)
  ultimately show ?thesis using Some p by (simp add: TimerCancelInLoop_def keepsI)
qed

definition added :: "u64 \<Rightarrow> u32 \<Rightarrow> 'cb \<Rightarrow> ('cb, 'z) TimerWheel_scheme \<Rightarrow> ('cb, 'z) TimerWheel_scheme" where
  "added tid timeout cb w =
     w\<lparr>tw_heap := (tw_heap w)(tw_next w \<mapsto> SetRealse tid (TimerTask_new tid timeout cb)),
       tw_next := tw_next w + 1,
       tw_wheel := (tw_wheel w)[slot_of timeout w := tw_wheel w ! slot_of timeout w @ [tw_next w]],
       tw_timers := (tw_timers w)(tid \<mapsto> tw_next w)\<rparr>"

lemma TimerAddInLoop_added:
  "wheel_inv w \<Longrightarrow> tw_clearing w \<noteq> Some (slot_of timeout w) \<Longrightarrow>
   TimerAddInLoop tid timeout cb w = Some (added tid timeout cb w)"
  using slot_of_less [of w timeout] wheel_invD(2) [of w]
  by (simp add: TimerAddInLoop_def push_slot_def added_def slot_of_def Let_def)

lemma TimerAddInLoop_SomeD:
  "wheel_inv w \<Longrightarrow> TimerAddInLoop tid timeout cb w = Some w' \<Longrightarrow>
   tw_clearing w \<noteq> Some (slot_of timeout w) \<and> w' = added tid timeout cb w"
  using slot_of_less [of w timeout] wheel_invD(2) [of w]
  by (auto simp: TimerAddInLoop_def push_slot_def added_def slot_of_def Let_def split: if_splits)

lemma added_mem:
  assumes "wheel_inv w" and "j < 60"
  shows "x \<in> set (tw_wheel (added tid timeout cb w) ! j) \<longleftrightarrow>
           x \<in> set (tw_wheel w ! j) \<or> (j = slot_of timeout w \<and> x = tw_next w)"
  using assms wheel_invD(2) [OF assms(1)] by (auto simp: added_def nth_list_update)

lemma fresh_addr:
  assumes "wheel_inv w"
  shows "tw_heap w (tw_next w) = None" and "i < 60 \<Longrightarrow> tw_next w \<notin> set (tw_wheel w ! i)"
    and "tw_timers w tid \<noteq> Some (tw_next w)" and "tw_next w \<notin> fst ` set (tw_fired w)"
proof -
  show 1: "tw_heap w (tw_next w) = None"
    using wheel_invD(5) [OF assms, of "tw_next w"] by (cases "tw_heap w (tw_next w)") auto
  show "i < 60 \<Longrightarrow> tw_next w \<notin> set (tw_wheel w ! i)"
    using 1 wheel_invD(4) [OF assms, of "tw_next w"] by auto
  show "tw_timers w tid \<noteq> Some (tw_next w)" using wheel_invD(7) [OF assms] by blast
  show "tw_next w \<notin> fst ` set (tw_fired w)" using wheel_invD(11) [OF assms, of "tw_next w"] by blast
qed

lemma added_heap:
  "tw_heap (added tid timeout cb w) a =
     (if a = tw_next w then Some (SetRealse tid (TimerTask_new tid timeout cb)) else tw_heap w a)"
  by (simp add: added_def)

lemma added_other [simp]:
  "tw_tick (added tid timeout cb w) = tw_tick w" "tw_capacity (added tid timeout cb w) = tw_capacity w"
  "tw_clearing (added tid timeout cb w) = tw_clearing w" "tw_fired (added tid timeout cb w) = tw_fired w"
  "tw_next (added tid timeout cb w) = tw_next w + 1"
  "tw_timers (added tid timeout cb w) = (tw_timers w)(tid \<mapsto> tw_next w)"
  "length (tw_wheel (added tid timeout cb w)) = length (tw_wheel w)"
  by (simp_all add: added_def)

lemma new_task_simps [simp]:
  "task_id (SetRealse i (TimerTask_new tid timeout cb)) = tid"
  "task_timeout (SetRealse i (TimerTask_new tid timeout cb)) = timeout"
  "task_cb (SetRealse i (TimerTask_new tid timeout cb)) = cb"
  "task_release (SetRealse i (TimerTask_new tid timeout cb)) = Some i"
  "is_cancel (SetRealse i (TimerTask_new tid timeout cb)) = False"
  by (simp_all add: SetRealse_def TimerTask_new_def)

lemma added_inv:
  assumes "wheel_inv w" and "tw_clearing w \<noteq> Some (slot_of timeout w)"
  shows "wheel_inv (added tid timeout cb w)" (is "wheel_inv ?w")
proof -
  note inv = wheel_invD [OF assms(1)] and fresh = fresh_addr [OF assms(1)]
  have own: "(\<exists>u. tw_heap ?w x = Some u) \<longleftrightarrow> (\<exists>j < 60. x \<in> set (tw_wheel ?w ! j))" for x
    using inv(4) [of x] fresh(2) slot_of_less [OF assms(1), of timeout]
    by (cases "x = tw_next w") (auto simp: added_heap added_mem [OF assms(1)])
  have far: "slot_dist (tw_tick w) j \<le> delay (task_timeout u)"
    if "j < 60" "tw_clearing w \<noteq> Some j" "x \<in> set (tw_wheel ?w ! j)" "tw_heap ?w x = Some u"
       "unat (task_timeout u) + 60 \<le> 2 ^ 32" for j x u
  proof (cases "x = tw_next w")
    case True
    then show ?thesis
      using that slot_dist_slot_of [OF assms(1), of timeout] fresh(2) [OF that(1)]
      by (auto simp: added_heap added_mem [OF assms(1)])
  next
    case False
    then show ?thesis
      using that inv(9) [OF that(1,2) _ _ that(5)] by (auto simp: added_heap added_mem [OF assms(1)])
  qed
  have tm: "a < tw_next ?w \<and> (\<forall>t. tw_heap ?w a = Some t \<longrightarrow> task_id t = i)" if "tw_timers ?w i = Some a" for i a
    using that inv(7,8) fresh(3) by (auto simp: added_heap split: if_splits intro: less_SucI)
  have hp: "a < tw_next ?w \<and> task_release u = Some (task_id u)" if "tw_heap ?w a = Some u" for a u
    using that inv(5,6) by (auto simp: added_heap split: if_splits intro: less_SucI)
  have fr: "a < tw_next ?w \<and> tw_heap ?w a = None" if "a \<in> fst ` set (tw_fired ?w)" for a
    using that inv(11,12) [of a] by (auto simp: added_heap)
  show ?thesis
    by (rule wheel_invI) (use own far tm hp fr inv(1-3,10) in \<open>simp_all\<close>)
qed

lemma added_le:
  assumes "wheel_inv w" and "tw_clearing w \<noteq> Some (slot_of timeout w)"
  shows "wheel_le w (added tid timeout cb w)"
proof -
  have "tw_wheel (added tid timeout cb w) ! i = tw_wheel w ! i" if "tw_clearing w = Some i" for i
    using assms(2) that by (auto simp: added_def nth_list_update)
  moreover have "tw_heap w a = Some t \<Longrightarrow> a \<noteq> tw_next w" for a t
    using fresh_addr(1) [OF assms(1)] by auto
  ultimately show ?thesis
    using added_mem [OF assms(1)] unfolding wheel_le_def by (auto simp: added_heap)
qed

lemma TimerAddInLoop_keeps:
  "wheel_inv w \<Longrightarrow> tw_clearing w \<noteq> Some (slot_of timeout w) \<Longrightarrow> keeps w (TimerAddInLoop tid timeout cb w)"
  by (simp add: TimerAddInLoop_added keepsI added_inv added_le)

section \<open>Clearing a slot\<close>

text \<open>Taking the first element of the slot being cleared, before its reference is dropped.\<close>

definition popped :: "nat \<Rightarrow> addr list \<Rightarrow> ('cb, 'z) TimerWheel_scheme \<Rightarrow> ('cb, 'z) TimerWheel_scheme" where
  "popped i as w = w\<lparr>tw_wheel := (tw_wheel w)[i := as]\<rparr>"

definition referenced :: "addr \<Rightarrow> ('cb, 'z) TimerWheel_scheme \<Rightarrow> bool" where
  "referenced a w \<longleftrightarrow> a \<in> set (concat (tw_wheel w))"

lemma referenced_iff: "length (tw_wheel w) = 60 \<Longrightarrow> referenced a w \<longleftrightarrow> (\<exists>j < 60. a \<in> set (tw_wheel w ! j))"
  unfolding referenced_def by (auto simp: in_set_conv_nth [of _ "tw_wheel w"]) (metis nth_mem)

lemma popped_mem:
  "length (tw_wheel w) = 60 \<Longrightarrow> i < 60 \<Longrightarrow> tw_wheel w ! i = a # as \<Longrightarrow> j < 60 \<Longrightarrow>
   x \<in> set (tw_wheel (popped i as w) ! j) \<longleftrightarrow> (if j = i then x \<in> set as else x \<in> set (tw_wheel w ! j))"
  by (simp add: popped_def nth_list_update)

lemma popped_other [simp]:
  "tw_tick (popped i as w) = tw_tick w" "tw_capacity (popped i as w) = tw_capacity w"
  "tw_clearing (popped i as w) = tw_clearing w" "tw_fired (popped i as w) = tw_fired w"
  "tw_next (popped i as w) = tw_next w" "tw_timers (popped i as w) = tw_timers w"
  "tw_heap (popped i as w) = tw_heap w" "length (tw_wheel (popped i as w)) = length (tw_wheel w)"
  by (simp_all add: popped_def)

text \<open>The state in which the callback of the destroyed task \<open>a\<close> starts.\<close>

definition expired :: "addr \<Rightarrow> 'cb TimerTask \<Rightarrow> ('cb, 'z) TimerWheel_scheme \<Rightarrow> ('cb, 'z) TimerWheel_scheme" where
  "expired a t w =
     (let w1 = w\<lparr>tw_heap := (tw_heap w)(a := None)\<rparr>
      in if is_cancel t then w1 else w1\<lparr>tw_fired := tw_fired w1 @ [(a, task_cb t)]\<rparr>)"

lemma expired_other [simp]:
  "tw_tick (expired a t w) = tw_tick w" "tw_capacity (expired a t w) = tw_capacity w"
  "tw_clearing (expired a t w) = tw_clearing w" "tw_next (expired a t w) = tw_next w"
  "tw_timers (expired a t w) = tw_timers w" "tw_wheel (expired a t w) = tw_wheel w"
  "tw_heap (expired a t w) = (tw_heap w)(a := None)"
  "tw_fired (expired a t w) = tw_fired w @ (if is_cancel t then [] else [(a, task_cb t)])"
  by (simp_all add: expired_def Let_def)

lemma TimerTask_destroy_expired:
  "TimerTask_destroy exec a t w =
     do { w2 \<leftarrow> (if is_cancel t then Some (expired a t w) else exec (task_cb t) (expired a t w));
          Some (case task_release t of None \<Rightarrow> w2 | Some tid \<Rightarrow> RemoveTimer tid w2) }"
  by (simp add: TimerTask_destroy_def expired_def Let_def)

lemma popped_inv:
  assumes inv: "wheel_inv w" and i: "i < 60" "tw_clearing w = Some i" "tw_wheel w ! i = a # as"
    and "referenced a (popped i as w)"
  shows "wheel_inv (popped i as w)"
proof -
  note D = wheel_invD [OF inv] and mem = popped_mem [OF wheel_invD(2) [OF inv] i(1,3)]
  have own: "(\<exists>t. tw_heap w x = Some t) \<longleftrightarrow> (\<exists>j < 60. x \<in> set (tw_wheel (popped i as w) ! j))" for x
  proof (cases "x = a")
    case True
    then show ?thesis using D(2) D(4) [of a] i assms(5) by (auto simp: referenced_iff)
  next
    case False
    then have "x \<in> set (tw_wheel (popped i as w) ! j) \<longleftrightarrow> x \<in> set (tw_wheel w ! j)" if "j < 60" for j
      using mem [OF that, of x] i(3) by simp
    then show ?thesis using D(4) [of x] by auto
  qed
  show ?thesis
    by (rule wheel_invI) (use D own mem i(2) in \<open>auto split: if_splits\<close>)
qed

lemma expired_inv:
  assumes inv: "wheel_inv w" and i: "i < 60" "tw_clearing w = Some i" "tw_wheel w ! i = a # as"
    and "\<not> referenced a (popped i as w)" and t: "tw_heap w a = Some t"
  shows "wheel_inv (expired a t (popped i as w))"
proof -
  note D = wheel_invD [OF inv] and mem = popped_mem [OF wheel_invD(2) [OF inv] i(1,3)]
  have no: "j < 60 \<Longrightarrow> a \<notin> set (tw_wheel (popped i as w) ! j)" for j
    using assms(5) D(2) by (auto simp: referenced_iff)
  have own: "(\<exists>t. ((tw_heap w)(a := None)) x = Some t) \<longleftrightarrow> (\<exists>j < 60. x \<in> set (tw_wheel (popped i as w) ! j))" for x
  proof (cases "x = a")
    case False
    then have "x \<in> set (tw_wheel (popped i as w) ! j) \<longleftrightarrow> x \<in> set (tw_wheel w ! j)" if "j < 60" for j
      using mem [OF that, of x] i(3) by simp
    then show ?thesis using D(4) [of x] False by auto
  qed (use no in auto)
  have nf: "a \<notin> fst ` set (tw_fired w)" using t D(12) [of a] by auto
  have far: "slot_dist (tw_tick w) j \<le> delay (task_timeout u)"
    if "j < 60" "tw_clearing w \<noteq> Some j" "x \<in> set (tw_wheel (popped i as w) ! j)"
       "((tw_heap w)(a := None)) x = Some u" "unat (task_timeout u) + 60 \<le> 2 ^ 32" for j x u
    using that D(9) [OF that(1,2) _ _ that(5), of x] mem [OF that(1), of x] i(2) by (auto split: if_splits)
  have fired: "x < tw_next w \<and> ((tw_heap w)(a := None)) x = None"
    if "x \<in> fst ` set (tw_fired (expired a t (popped i as w)))" for x
    using that D(5) [OF t] D(11,12) [of x] by (auto split: if_splits)
  show ?thesis
    by (rule wheel_invI) (use D(1-3,5-8,10) own far nf fired in \<open>auto split: if_splits\<close>)
qed

lemma RemoveTimer_simps [simp]:
  "tw_tick (RemoveTimer tid w) = tw_tick w" "tw_capacity (RemoveTimer tid w) = tw_capacity w"
  "tw_clearing (RemoveTimer tid w) = tw_clearing w" "tw_next (RemoveTimer tid w) = tw_next w"
  "tw_timers (RemoveTimer tid w) = (tw_timers w)(tid := None)" "tw_wheel (RemoveTimer tid w) = tw_wheel w"
  "tw_heap (RemoveTimer tid w) = tw_heap w" "tw_fired (RemoveTimer tid w) = tw_fired w"
  by (auto simp: RemoveTimer_def split: option.splits)

lemma RemoveTimer_inv: "wheel_inv w \<Longrightarrow> wheel_inv (RemoveTimer tid w)"
  by (auto simp: wheel_inv_def)

text \<open>The effect of dropping the first reference of the slot \<open>i\<close> being cleared.\<close>

definition drop_step ::
    "nat \<Rightarrow> addr \<Rightarrow> addr list \<Rightarrow> ('cb, 'z) TimerWheel_scheme \<Rightarrow> ('cb, 'z) TimerWheel_scheme \<Rightarrow> bool" where
  "drop_step i a as w w' \<longleftrightarrow>
     wheel_inv w' \<and> tw_tick w' = tw_tick w \<and> tw_clearing w' = Some i \<and> tw_wheel w' ! i = as \<and>
     (\<forall>j < 60. j \<noteq> i \<longrightarrow> set (tw_wheel w ! j) \<subseteq> set (tw_wheel w' ! j)) \<and> tw_next w \<le> tw_next w' \<and>
     (\<forall>x < tw_next w. tw_heap w x = None \<longrightarrow> tw_heap w' x = None) \<and>
     (\<forall>x t. tw_heap w x = Some t \<longrightarrow> x \<noteq> a \<or> referenced a (popped i as w) \<longrightarrow>
        (\<exists>t'. tw_heap w' x = Some t' \<and> same_task t t')) \<and>
     (\<forall>t. tw_heap w a = Some t \<longrightarrow>
        (if referenced a (popped i as w) then tw_fired w' = tw_fired w
         else tw_heap w' a = None \<and> tw_fired w' = tw_fired w @ (if is_cancel t then [] else [(a, task_cb t)])))"

text \<open>The callbacks of a client of the wheel: whatever operations of the wheel they use, they
  return and keep it intact.\<close>

locale timer_client =
  fixes exec :: "'cb \<Rightarrow> ('cb, 'z) TimerWheel_scheme \<Rightarrow> ('cb, 'z) TimerWheel_scheme option"
  assumes exec_keeps: "wheel_inv w \<Longrightarrow> keeps w (exec cb w)"
begin

lemma drop_ref_step:
  assumes inv: "wheel_inv w" and i: "i < 60" "tw_clearing w = Some i" "tw_wheel w ! i = a # as"
  shows "returns (drop_ref exec a (popped i as w)) (drop_step i a as w)"
proof -
  note D = wheel_invD [OF inv] and mem = popped_mem [OF wheel_invD(2) [OF inv] i(1,3)]
  have at_i: "tw_wheel (popped i as w) ! i = as" using D(2) i(1) by (simp add: popped_def)
  have sub: "set (tw_wheel w ! j) \<subseteq> set (tw_wheel (popped i as w) ! j)" if "j < 60" "j \<noteq> i" for j
    using mem [OF that(1)] that(2) by auto
  obtain t where t: "tw_heap w a = Some t" using D(4) [of a] i by auto
  show ?thesis
  proof (cases "referenced a (popped i as w)")
    case True
    then have "drop_ref exec a (popped i as w) = Some (popped i as w)"
      by (simp add: drop_ref_def referenced_def)
    then show ?thesis
      using True popped_inv [OF inv i True] at_i sub i(2) by (simp add: drop_step_def)
  next
    case False
    let ?w = "expired a t (popped i as w)"
    have e: "drop_ref exec a (popped i as w) = TimerTask_destroy exec a t (popped i as w)"
      using False t by (simp add: drop_ref_def referenced_def)
    have inv1: "wheel_inv ?w" by (rule expired_inv [OF inv i False t])
    have "keeps ?w (if is_cancel t then Some ?w else exec (task_cb t) ?w)"
      using inv1 exec_keeps [OF inv1] by (simp add: keeps_def)
    then obtain w2 where w2: "(if is_cancel t then Some ?w else exec (task_cb t) ?w) = Some w2"
        "wheel_inv w2" "wheel_le ?w w2"
      unfolding keeps_def by (rule returnsE) blast
    note le = wheel_leD [OF w2(3)]
    have dead: "tw_heap w2 x = None" if "x < tw_next w" "tw_heap w x = None \<or> x = a" for x
      using le(8) [of x] that by auto
    have grow: "set (tw_wheel w ! j) \<subseteq> set (tw_wheel w2 ! j)" if "j < 60" "j \<noteq> i" for j
      using le(4) [OF that(1)] sub [OF that] by auto
    have live: "\<exists>u'. tw_heap w2 x = Some u' \<and> same_task u u'" if "tw_heap w x = Some u" "x \<noteq> a" for x u
      using le(6) [of x u] that by simp
    have "drop_step i a as w w2"
      using w2(2) le(1-3,5,7) at_i i(1,2) grow dead live t False D(5) [OF t] by (auto simp: drop_step_def)
    then have "drop_step i a as w (RemoveTimer tid w2)" for tid
      using RemoveTimer_inv [OF w2(2)] by (simp add: drop_step_def)
    with \<open>drop_step i a as w w2\<close> show ?thesis
      unfolding e TimerTask_destroy_expired w2(1) by (auto split: option.splits)
  qed
qed

end

text \<open>The effect of clearing the whole slot \<open>i\<close>.\<close>

definition cleared :: "nat \<Rightarrow> ('cb, 'z) TimerWheel_scheme \<Rightarrow> ('cb, 'z) TimerWheel_scheme \<Rightarrow> bool" where
  "cleared i w w' \<longleftrightarrow>
     wheel_inv w' \<and> tw_tick w' = tw_tick w \<and> tw_clearing w' = None \<and> tw_next w \<le> tw_next w' \<and>
     tw_wheel w' ! i = [] \<and> (\<forall>x < tw_next w. tw_heap w x = None \<longrightarrow> tw_heap w' x = None) \<and>
     (\<forall>x t j. tw_heap w x = Some t \<longrightarrow> j < 60 \<longrightarrow> j \<noteq> i \<longrightarrow> x \<in> set (tw_wheel w ! j) \<longrightarrow>
        x \<in> set (tw_wheel w' ! j) \<and> (\<exists>t'. tw_heap w' x = Some t' \<and> same_task t t'))"

lemma cleared_nil:
  assumes "wheel_inv w" and "i < 60" "tw_clearing w = Some i" "tw_wheel w ! i = []"
  shows "cleared i w (w\<lparr>tw_clearing := None\<rparr>)"
proof -
  note D = wheel_invD [OF assms(1)]
  have "slot_dist (tw_tick w) j \<le> delay (task_timeout t)"
    if "j < 60" "x \<in> set (tw_wheel w ! j)" "tw_heap w x = Some t" "unat (task_timeout t) + 60 \<le> 2 ^ 32" for j x t
    using D(9) [OF that(1) _ that(2-4)] that(2) assms(3,4) by (cases "j = i") auto
  then have "wheel_inv (w\<lparr>tw_clearing := None\<rparr>)"
    by (intro wheel_invI) (use D in simp_all)
  then show ?thesis using assms(4) by (auto simp: cleared_def)
qed

context timer_client
begin

lemma clear_slot_cleared:
  assumes "wheel_inv w" and "i < 60" "tw_clearing w = Some i" "tw_wheel w ! i = as"
  shows "returns (clear_slot exec i as w) (cleared i w)"
  using assms
proof (induction as arbitrary: w)
  case Nil
  then show ?case by (simp add: cleared_nil)
next
  case (Cons a as)
  obtain w1 where w1: "drop_ref exec a (popped i as w) = Some w1" "drop_step i a as w w1"
    using drop_ref_step [OF Cons.prems] by (auto elim: returnsE)
  have "returns (clear_slot exec i as w1) (cleared i w1)"
    using w1(2) Cons.prems(2) by (intro Cons.IH) (simp_all add: drop_step_def)
  then obtain w2 where w2: "clear_slot exec i as w1 = Some w2" "cleared i w1 w2" by (auto elim: returnsE)
  have alive: "\<exists>t'. tw_heap w1 x = Some t' \<and> same_task t t'"
    if "tw_heap w x = Some t" "j < 60" "j \<noteq> i" "x \<in> set (tw_wheel w ! j)" for x t j
  proof -
    have "x \<noteq> a \<or> referenced a (popped i as w)"
      using that popped_mem [OF wheel_invD(2) [OF Cons.prems(1)] Cons.prems(2,4) that(2), of x]
        wheel_invD(2) [OF Cons.prems(1)]
      by (auto simp: referenced_iff)
    then show ?thesis using w1(2) that(1) by (simp add: drop_step_def)
  qed
  have surv: "x \<in> set (tw_wheel w2 ! j) \<and> (\<exists>t'. tw_heap w2 x = Some t' \<and> same_task t t')"
    if x: "tw_heap w x = Some t" "j < 60" "j \<noteq> i" "x \<in> set (tw_wheel w ! j)" for x t j
  proof -
    obtain t' where t': "tw_heap w1 x = Some t'" "same_task t t'" using alive [OF x] by blast
    have "x \<in> set (tw_wheel w1 ! j)" using w1(2) x(2-4) by (auto simp: drop_step_def)
    with t'(1) w2(2) x(2,3) obtain t'' where "x \<in> set (tw_wheel w2 ! j)" "tw_heap w2 x = Some t''" "same_task t' t''"
      unfolding cleared_def by metis
    with t'(2) show ?thesis using same_task_trans by blast
  qed
  have "cleared i w w2"
    using w1(2) w2(2) surv unfolding drop_step_def cleared_def by auto
  then show ?case using w1(1) w2(1) by (simp add: popped_def)
qed

lemma Run_cleared:
  assumes "wheel_inv w" and "tw_clearing w = None"
  shows "returns (Run exec w)
    (cleared ((tw_tick w + 1) mod 60) (w\<lparr>tw_tick := (tw_tick w + 1) mod 60, tw_clearing := Some ((tw_tick w + 1) mod 60)\<rparr>))"
proof -
  note D = wheel_invD [OF assms(1)]
  let ?i = "(tw_tick w + 1) mod 60"
  let ?w = "w\<lparr>tw_tick := ?i, tw_clearing := Some ?i\<rparr>"
  have far: "slot_dist ?i j \<le> delay (task_timeout t)"
    if "j < 60" "?i \<noteq> j" "x \<in> set (tw_wheel w ! j)" "tw_heap w x = Some t" "unat (task_timeout t) + 60 \<le> 2 ^ 32"
    for j x t
    using D(9) [OF that(1) _ that(3-5)] assms(2) slot_dist_tick [OF D(3) that(1)] that(2) by simp
  have "wheel_inv ?w" by (intro wheel_invI) (use D far in simp_all)
  then have "returns (clear_slot exec ?i (tw_wheel w ! ?i) ?w) (cleared ?i ?w)"
    by (intro clear_slot_cleared) simp_all
  then show ?thesis using D(1) by (simp add: Run_def Let_def)
qed

end

section \<open>When a task expires\<close>

text \<open>The number of ticks until the last reference to a task is dropped, 0 if there is none.\<close>

definition due :: "('cb, 'z) TimerWheel_scheme \<Rightarrow> addr \<Rightarrow> nat" where
  "due w a = Max (insert 0 (slot_dist (tw_tick w) ` {i. i < 60 \<and> a \<in> set (tw_wheel w ! i)}))"

lemma due_le_iff: "due w a \<le> n \<longleftrightarrow> (\<forall>i < 60. a \<in> set (tw_wheel w ! i) \<longrightarrow> slot_dist (tw_tick w) i \<le> n)"
  unfolding due_def by (subst Max_le_iff) auto

lemma due_ge: "i < 60 \<Longrightarrow> a \<in> set (tw_wheel w ! i) \<Longrightarrow> slot_dist (tw_tick w) i \<le> due w a"
  using due_le_iff [of w a "due w a"] by simp

lemma due_eqI:
  assumes "i < 60" "a \<in> set (tw_wheel w ! i)" "slot_dist (tw_tick w) i = n"
    and "\<And>j. j < 60 \<Longrightarrow> a \<in> set (tw_wheel w ! j) \<Longrightarrow> slot_dist (tw_tick w) j \<le> n"
  shows "due w a = n"
  using assms due_ge [OF assms(1,2)] due_le_iff [of w a n] by (intro antisym) auto

lemma due_attained:
  assumes "0 < due w a"
  obtains i where "i < 60" "a \<in> set (tw_wheel w ! i)" "slot_dist (tw_tick w) i = due w a"
proof -
  have "due w a \<in> insert 0 (slot_dist (tw_tick w) ` {i. i < 60 \<and> a \<in> set (tw_wheel w ! i)})"
    unfolding due_def by (rule Max_in) auto
  with assms that show ?thesis by auto
qed

text \<open>A callback that leaves the task \<open>x\<close> alone.\<close>

definition quiet ::
    "('cb \<Rightarrow> ('cb, 'z) TimerWheel_scheme \<Rightarrow> ('cb, 'z) TimerWheel_scheme option) \<Rightarrow> addr \<Rightarrow> bool" where
  "quiet exec x \<longleftrightarrow>
     (\<forall>cb w w'. wheel_inv w \<longrightarrow> x < tw_next w \<longrightarrow> exec cb w = Some w' \<longrightarrow>
        tw_heap w' x = tw_heap w x \<and> (\<forall>j < 60. x \<in> set (tw_wheel w' ! j) \<longleftrightarrow> x \<in> set (tw_wheel w ! j)))"

context timer_client
begin

lemma drop_ref_quiet:
  assumes inv: "wheel_inv w" and i: "i < 60" "tw_clearing w = Some i" "tw_wheel w ! i = a # as"
    and "quiet exec x" and "drop_ref exec a (popped i as w) = Some w'"
    and "x \<noteq> a \<or> referenced a (popped i as w)" and "x < tw_next w"
  shows "tw_heap w' x = tw_heap w x" and "j < 60 \<Longrightarrow> j \<noteq> i \<Longrightarrow> x \<in> set (tw_wheel w' ! j) \<longleftrightarrow> x \<in> set (tw_wheel w ! j)"
proof -
  note mem = popped_mem [OF wheel_invD(2) [OF inv] i(1,3)]
  have "tw_heap w' x = tw_heap w x \<and> (\<forall>j < 60. x \<in> set (tw_wheel w' ! j) \<longleftrightarrow> x \<in> set (tw_wheel (popped i as w) ! j))"
  proof (cases "referenced a (popped i as w)")
    case True
    then have "w' = popped i as w" using assms(6) by (simp add: drop_ref_def referenced_def)
    then show ?thesis by simp
  next
    case False
    obtain t where t: "tw_heap w a = Some t" using wheel_invD(4) [OF inv, of a] i by auto
    let ?w = "expired a t (popped i as w)"
    obtain w2 where w2: "(if is_cancel t then Some ?w else exec (task_cb t) ?w) = Some w2"
        "w' = (case task_release t of None \<Rightarrow> w2 | Some tid \<Rightarrow> RemoveTimer tid w2)"
      using assms(6) False t
      by (auto simp: drop_ref_def referenced_def TimerTask_destroy_expired Option.bind_eq_Some_conv split: if_splits)
    have "wheel_inv ?w" by (rule expired_inv [OF inv i False t])
    then have "tw_heap w2 x = tw_heap ?w x \<and> (\<forall>j < 60. x \<in> set (tw_wheel w2 ! j) \<longleftrightarrow> x \<in> set (tw_wheel ?w ! j))"
      using w2(1) assms(5,8) unfolding quiet_def by (auto split: if_splits)
    then show ?thesis using w2(2) assms(7) False by (auto split: option.splits)
  qed
  then show "tw_heap w' x = tw_heap w x" and "j < 60 \<Longrightarrow> j \<noteq> i \<Longrightarrow> x \<in> set (tw_wheel w' ! j) \<longleftrightarrow> x \<in> set (tw_wheel w ! j)"
    using mem by auto
qed

text \<open>A task that is referenced from another slot survives, unchanged.\<close>

lemma clear_slot_elsewhere:
  assumes "wheel_inv w" and "i < 60" "tw_clearing w = Some i" "tw_wheel w ! i = as"
    and "quiet exec x" and "clear_slot exec i as w = Some w'"
    and "k < 60" "k \<noteq> i" "x \<in> set (tw_wheel w ! k)"
  shows "tw_heap w' x = tw_heap w x \<and> (\<forall>j < 60. j \<noteq> i \<longrightarrow> (x \<in> set (tw_wheel w' ! j) \<longleftrightarrow> x \<in> set (tw_wheel w ! j)))"
  using assms
proof (induction as arbitrary: w)
  case (Cons a as)
  obtain w1 where w1: "drop_ref exec a (popped i as w) = Some w1" "clear_slot exec i as w1 = Some w'"
    using Cons.prems(6) by (auto simp: popped_def Option.bind_eq_Some_conv)
  have step: "drop_step i a as w w1"
    using drop_ref_step [OF Cons.prems(1-4)] w1(1) by simp
  have ne: "x \<noteq> a \<or> referenced a (popped i as w)"
    using Cons.prems(7-9) popped_mem [OF wheel_invD(2) [OF Cons.prems(1)] Cons.prems(2,4,7), of x]
      wheel_invD(2) [OF Cons.prems(1)] by (auto simp: referenced_iff)
  have "x < tw_next w" using wheel_invD(4,5) [OF Cons.prems(1), of x] Cons.prems(7,9) by blast
  note q = drop_ref_quiet [OF Cons.prems(1-5) w1(1) ne this]
  have "tw_heap w' x = tw_heap w1 x \<and> (\<forall>j < 60. j \<noteq> i \<longrightarrow> (x \<in> set (tw_wheel w' ! j) \<longleftrightarrow> x \<in> set (tw_wheel w1 ! j)))"
    using step w1(2) Cons.prems q(2) by (intro Cons.IH) (simp_all add: drop_step_def)
  then show ?case using q by simp
qed auto

lemma clear_slot_fired_prefix:
  assumes "wheel_inv w" and "i < 60" "tw_clearing w = Some i" "tw_wheel w ! i = as"
    and "clear_slot exec i as w = Some w'"
  shows "set (tw_fired w) \<subseteq> set (tw_fired w')"
  using assms
proof (induction as arbitrary: w)
  case (Cons a as)
  obtain w1 where w1: "drop_ref exec a (popped i as w) = Some w1" "clear_slot exec i as w1 = Some w'"
    using Cons.prems(5) by (auto simp: popped_def Option.bind_eq_Some_conv)
  have step: "drop_step i a as w w1" using drop_ref_step [OF Cons.prems(1-4)] w1(1) by simp
  have "set (tw_fired w1) \<subseteq> set (tw_fired w')"
    using step w1(2) Cons.prems(2) by (intro Cons.IH) (simp_all add: drop_step_def)
  moreover obtain t where "tw_heap w a = Some t" using wheel_invD(4) [OF Cons.prems(1), of a] Cons.prems(2,4) by auto
  then have "set (tw_fired w) \<subseteq> set (tw_fired w1)" using step by (auto simp: drop_step_def split: if_splits)
  ultimately show ?case by blast
qed auto

text \<open>A task that is referenced from the cleared slot only is destroyed, and runs its
  callback unless it is cancelled.\<close>

lemma clear_slot_expires:
  assumes "wheel_inv w" and "i < 60" "tw_clearing w = Some i" "tw_wheel w ! i = as"
    and "quiet exec x" and "clear_slot exec i as w = Some w'"
    and "tw_heap w x = Some t" and "\<And>j. j < 60 \<Longrightarrow> j \<noteq> i \<Longrightarrow> x \<notin> set (tw_wheel w ! j)"
  shows "tw_heap w' x = None \<and> (\<not> is_cancel t \<longrightarrow> (x, task_cb t) \<in> set (tw_fired w'))"
  using assms
proof (induction as arbitrary: w)
  case Nil
  then show ?case using wheel_invD(4) [OF Nil.prems(1), of x] by (metis empty_iff list.set(1))
next
  case (Cons a as)
  obtain w1 where w1: "drop_ref exec a (popped i as w) = Some w1" "clear_slot exec i as w1 = Some w'"
    using Cons.prems(6) by (auto simp: popped_def Option.bind_eq_Some_conv)
  have step: "drop_step i a as w w1" using drop_ref_step [OF Cons.prems(1-4)] w1(1) by simp
  show ?case
  proof (cases "x \<noteq> a \<or> referenced a (popped i as w)")
    case True
    note q = drop_ref_quiet [OF Cons.prems(1-5) w1(1) True wheel_invD(5) [OF Cons.prems(1,7)]]
    show ?thesis using step w1(2) Cons.prems q by (intro Cons.IH [of w1]) (simp_all add: drop_step_def)
  next
    case False
    then have x: "tw_heap w1 x = None" "\<not> is_cancel t \<Longrightarrow> (x, task_cb t) \<in> set (tw_fired w1)" "x < tw_next w1"
      using step Cons.prems(7) wheel_invD(5) [OF Cons.prems(1,7)] by (auto simp: drop_step_def)
    have "returns (clear_slot exec i as w1) (cleared i w1)"
      using step Cons.prems(2) by (intro clear_slot_cleared) (simp_all add: drop_step_def)
    then have "cleared i w1 w'" using w1(2) by simp
    moreover have "set (tw_fired w1) \<subseteq> set (tw_fired w')"
      using step Cons.prems(2) w1(2)
      by (intro clear_slot_fired_prefix [of w1 i as]) (simp_all add: drop_step_def)
    ultimately show ?thesis using x by (auto simp: cleared_def)
  qed
qed

end

context timer_client
begin

lemma Run_SomeD:
  assumes "wheel_inv w" and "tw_clearing w = None" and "Run exec w = Some w'"
  shows "wheel_inv w'" and "tw_clearing w' = None" and "tw_tick w' = (tw_tick w + 1) mod 60"
    and "tw_next w \<le> tw_next w'" and "x < tw_next w \<Longrightarrow> tw_heap w x = None \<Longrightarrow> tw_heap w' x = None"
    and "tw_wheel w' ! ((tw_tick w + 1) mod 60) = []"
  using Run_cleared [OF assms(1,2)] assms(3) by (auto simp: cleared_def)

lemma Run_returns: "wheel_inv w \<Longrightarrow> tw_clearing w = None \<Longrightarrow> \<exists>w'. Run exec w = Some w'"
  using Run_cleared [of w] by (auto elim: returnsE)

lemma Run_started:
  assumes "wheel_inv w" and "tw_clearing w = None" and "i = (tw_tick w + 1) mod 60"
  shows "wheel_inv (w\<lparr>tw_tick := i, tw_clearing := Some i\<rparr>)"
    and "Run exec w = clear_slot exec i (tw_wheel w ! i) (w\<lparr>tw_tick := i, tw_clearing := Some i\<rparr>)"
proof -
  note D = wheel_invD [OF assms(1)]
  have "slot_dist i j \<le> delay (task_timeout t)"
    if "j < 60" "i \<noteq> j" "x \<in> set (tw_wheel w ! j)" "tw_heap w x = Some t" "unat (task_timeout t) + 60 \<le> 2 ^ 32"
    for j x t
    using D(9) [OF that(1) _ that(3-5)] assms(2,3) slot_dist_tick [OF D(3) that(1)] that(2) by simp
  then show "wheel_inv (w\<lparr>tw_tick := i, tw_clearing := Some i\<rparr>)"
    using assms(3) by (intro wheel_invI) (use D in simp_all)
  show "Run exec w = clear_slot exec i (tw_wheel w ! i) (w\<lparr>tw_tick := i, tw_clearing := Some i\<rparr>)"
    using D(1) assms(3) by (simp add: Run_def Let_def)
qed

text \<open>One tick: a task that is due later is one tick nearer, a task that is due now is
  destroyed and its callback runs.\<close>

lemma Run_due:
  assumes "wheel_inv w" and "tw_clearing w = None" and "Run exec w = Some w'" and "quiet exec x"
    and t: "tw_heap w x = Some t"
  shows "1 < due w x \<Longrightarrow> tw_heap w' x = Some t \<and> due w' x = due w x - 1"
    and "due w x = 1 \<Longrightarrow> tw_heap w' x = None \<and> (\<not> is_cancel t \<longrightarrow> (x, task_cb t) \<in> set (tw_fired w'))"
proof -
  note D = wheel_invD [OF assms(1)]
  let ?i = "(tw_tick w + 1) mod 60"
  let ?w = "w\<lparr>tw_tick := ?i, tw_clearing := Some ?i\<rparr>"
  note st = Run_started [OF assms(1,2) refl]
  have run: "clear_slot exec ?i (tw_wheel ?w ! ?i) ?w = Some w'" using st(2) assms(3) by simp
  {
    assume d: "1 < due w x"
    then obtain k where k: "k < 60" "x \<in> set (tw_wheel w ! k)" "slot_dist (tw_tick w) k = due w x"
      using due_attained [of w x] by auto
    then have ki: "k \<noteq> ?i" using d slot_dist_one [OF D(3) k(1)] by auto
    note e = clear_slot_elsewhere [OF st(1) _ _ refl assms(4) run k(1) ki]
    have "due w' x = due w x - 1"
    proof (rule due_eqI [OF k(1)])
      show "x \<in> set (tw_wheel w' ! k)" using e k ki by simp
      show "slot_dist (tw_tick w') k = due w x - 1"
        using k ki slot_dist_tick [OF D(3) k(1)] Run_SomeD(3) [OF assms(1-3)] by simp
      fix j assume j: "j < 60" "x \<in> set (tw_wheel w' ! j)"
      show "slot_dist (tw_tick w') j \<le> due w x - 1"
        using e j k slot_dist_tick [OF D(3) j(1)] Run_SomeD(3) [OF assms(1-3)] due_ge [of j x w]
          Run_SomeD(6) [OF assms(1-3)]
        by (cases "j = ?i") (auto simp: diff_le_mono)
    qed
    then show "tw_heap w' x = Some t \<and> due w' x = due w x - 1" using e k t by simp
  next
    assume d: "due w x = 1"
    have "x \<notin> set (tw_wheel w ! j)" if "j < 60" "j \<noteq> ?i" for j
      using due_ge [OF that(1), of x w] slot_dist_one [OF D(3) that(1)] slot_dist_range(1) [of "tw_tick w" j] d that
      by (auto simp: le_antisym)
    then show "tw_heap w' x = None \<and> (\<not> is_cancel t \<longrightarrow> (x, task_cb t) \<in> set (tw_fired w'))"
      using t by (intro clear_slot_expires [OF st(1) _ _ refl assms(4) run]) simp_all
  }
qed

end

section \<open>Sequences of ticks and operations\<close>

fun ticks ::
    "('cb \<Rightarrow> ('cb, 'z) TimerWheel_scheme \<Rightarrow> ('cb, 'z) TimerWheel_scheme option) \<Rightarrow> nat \<Rightarrow>
     ('cb, 'z) TimerWheel_scheme \<Rightarrow> ('cb, 'z) TimerWheel_scheme option" where
  "ticks exec 0 w = Some w"
| "ticks exec (Suc n) w = do { w1 \<leftarrow> ticks exec n w; Run exec w1 }"

text \<open>One operation of the wheel between callbacks, and any number of them.\<close>

inductive wheel_step ::
    "('cb \<Rightarrow> ('cb, 'z) TimerWheel_scheme \<Rightarrow> ('cb, 'z) TimerWheel_scheme option) \<Rightarrow>
     ('cb, 'z) TimerWheel_scheme \<Rightarrow> ('cb, 'z) TimerWheel_scheme \<Rightarrow> bool"
  for exec where
  add: "TimerAddInLoop tid timeout cb w = Some w' \<Longrightarrow> wheel_step exec w w'"
| refresh: "TimerRefreshInLoop tid w = Some w' \<Longrightarrow> wheel_step exec w w'"
| cancel: "wheel_step exec w (TimerCancelInLoop tid w)"
| run: "Run exec w = Some w' \<Longrightarrow> wheel_step exec w w'"

text \<open>The callback of the task \<open>x\<close> has not run and never will.\<close>

definition muted :: "addr \<Rightarrow> ('cb, 'z) TimerWheel_scheme \<Rightarrow> bool" where
  "muted x w \<longleftrightarrow> x < tw_next w \<and> x \<notin> fst ` set (tw_fired w) \<and> (\<forall>t. tw_heap w x = Some t \<longrightarrow> is_cancel t)"

lemma muted_le: "muted x w \<Longrightarrow> wheel_le w w' \<Longrightarrow> muted x w'"
  using wheel_leD(3,6,7,8) [of w w']
  by (cases "tw_heap w x") (fastforce simp: muted_def same_task_def)+

lemma muted_drop_step:
  assumes "wheel_inv w" "i < 60" "tw_wheel w ! i = a # as" "muted x w" "drop_step i a as w w'"
  shows "muted x w'"
proof -
  obtain t where t: "tw_heap w a = Some t" using wheel_invD(4) [OF assms(1), of a] assms(2,3) by auto
  have "x \<notin> fst ` set (tw_fired w')"
    using assms(4,5) t by (auto simp: muted_def drop_step_def split: if_splits)
  moreover have "is_cancel u" if "tw_heap w' x = Some u" for u
  proof (cases "tw_heap w x")
    case None
    then show ?thesis using assms(4,5) that by (auto simp: muted_def drop_step_def)
  next
    case (Some v)
    then show ?thesis
      using assms(4,5) that t by (cases "x \<noteq> a \<or> referenced a (popped i as w)")
        (fastforce simp: muted_def drop_step_def same_task_def)+
  qed
  ultimately show ?thesis using assms(4,5) by (auto simp: muted_def drop_step_def)
qed

lemma wheel_op_le:
  assumes "wheel_inv w"
  shows "TimerAddInLoop tid timeout cb w = Some w' \<Longrightarrow> wheel_inv w' \<and> wheel_le w w'"
    and "TimerRefreshInLoop tid w = Some w' \<Longrightarrow> wheel_inv w' \<and> wheel_le w w'"
    and "wheel_inv (TimerCancelInLoop tid w) \<and> wheel_le w (TimerCancelInLoop tid w)"
proof -
  show "wheel_inv w' \<and> wheel_le w w'" if "TimerAddInLoop tid timeout cb w = Some w'"
    using TimerAddInLoop_SomeD [OF assms that] assms by (simp add: added_inv added_le)
  show "wheel_inv w' \<and> wheel_le w w'" if "TimerRefreshInLoop tid w = Some w'"
    using TimerRefreshInLoop_keeps [OF assms, of tid] that
    by (fastforce simp: keeps_def TimerRefreshInLoop_def push_slot_def DelayTime_def split: if_splits)
  show "wheel_inv (TimerCancelInLoop tid w) \<and> wheel_le w (TimerCancelInLoop tid w)"
    using TimerCancelInLoop_keeps [OF assms, of tid] by (simp add: keeps_def)
qed

context timer_client
begin

lemma Run_muted:
  assumes "wheel_inv w" and "tw_clearing w = None" and "muted x w" and "Run exec w = Some w'"
  shows "muted x w'"
proof -
  have main: "muted x v'" if "wheel_inv v" "i < 60" "tw_clearing v = Some i" "tw_wheel v ! i = as"
      "clear_slot exec i as v = Some v'" "muted x v" for i as v v'
    using that
  proof (induction as arbitrary: v)
    case (Cons a as)
    obtain w1 where w1: "drop_ref exec a (popped i as v) = Some w1" "clear_slot exec i as w1 = Some v'"
      using Cons.prems(5) by (auto simp: popped_def Option.bind_eq_Some_conv)
    have step: "drop_step i a as v w1" using drop_ref_step [OF Cons.prems(1-4)] w1(1) by simp
    show ?case
      using step w1(2) muted_drop_step [OF Cons.prems(1,2,4,6) step] Cons.prems(2)
      by (intro Cons.IH [of w1]) (simp_all add: drop_step_def)
  qed (auto simp: muted_def)
  note st = Run_started [OF assms(1,2) refl]
  let ?i = "(tw_tick w + 1) mod 60"
  let ?w = "w\<lparr>tw_tick := ?i, tw_clearing := Some ?i\<rparr>"
  have run: "clear_slot exec ?i (tw_wheel ?w ! ?i) ?w = Some w'" using st(2) assms(4) by simp
  have m: "muted x ?w" using assms(3) by (simp add: muted_def)
  show ?thesis by (rule main [OF st(1) _ _ refl run m]) simp_all
qed

lemma step_inv:
  assumes "wheel_step exec w w'" and "wheel_inv w" "tw_clearing w = None"
  shows "wheel_inv w'" and "tw_clearing w' = None" and "muted x w \<Longrightarrow> muted x w'"
proof -
  have "wheel_inv w' \<and> tw_clearing w' = None \<and> (muted x w \<longrightarrow> muted x w')"
    using assms
  proof cases
    case run
    then show ?thesis using Run_SomeD(1,2) [OF assms(2,3) run] Run_muted [OF assms(2,3) _ run] by blast
  qed (use assms(2,3) wheel_op_le [OF assms(2)] muted_le wheel_leD(2) in \<open>metis\<close>)+
  then show "wheel_inv w'" and "tw_clearing w' = None" and "muted x w \<Longrightarrow> muted x w'" by auto
qed

lemma steps_inv:
  assumes "(wheel_step exec)\<^sup>*\<^sup>* w w'" and "wheel_inv w" "tw_clearing w = None"
  shows "wheel_inv w' \<and> tw_clearing w' = None \<and> (muted x w \<longrightarrow> muted x w')"
  using assms by (induction rule: rtranclp_induct) (auto dest: step_inv)

lemma Run_fired_prefix:
  assumes "wheel_inv w" and "tw_clearing w = None" and "Run exec w = Some w'"
  shows "set (tw_fired w) \<subseteq> set (tw_fired w')"
proof -
  let ?i = "(tw_tick w + 1) mod 60"
  note st = Run_started [OF assms(1,2) refl]
  have "set (tw_fired (w\<lparr>tw_tick := ?i, tw_clearing := Some ?i\<rparr>)) \<subseteq> set (tw_fired w')"
    using st(2) assms(3) by (intro clear_slot_fired_prefix [OF st(1) _ _ refl]) simp_all
  then show ?thesis by simp
qed

lemma ticks_due:
  assumes "wheel_inv w" and "tw_clearing w = None" and "quiet exec x"
    and "tw_heap w x = Some t" and "0 < due w x"
  shows "returns (ticks exec n w) (\<lambda>w'. wheel_inv w' \<and> tw_clearing w' = None \<and>
    (if n < due w x then tw_heap w' x = Some t \<and> due w' x = due w x - n
     else tw_heap w' x = None \<and> x < tw_next w' \<and> (\<not> is_cancel t \<longrightarrow> (x, task_cb t) \<in> set (tw_fired w'))))"
proof (induction n)
  case 0
  then show ?case using assms by simp
next
  case (Suc n)
  then obtain w1 where w1: "ticks exec n w = Some w1" "wheel_inv w1" "tw_clearing w1 = None"
    "if n < due w x then tw_heap w1 x = Some t \<and> due w1 x = due w x - n
     else tw_heap w1 x = None \<and> x < tw_next w1 \<and> (\<not> is_cancel t \<longrightarrow> (x, task_cb t) \<in> set (tw_fired w1))"
    by (auto elim: returnsE)
  obtain w2 where w2: "Run exec w1 = Some w2" using Run_returns [OF w1(2,3)] by blast
  note D = Run_SomeD [OF w1(2,3) w2]
  have sub: "set (tw_fired w1) \<subseteq> set (tw_fired w2)" by (rule Run_fired_prefix [OF w1(2,3) w2])
  have nx: "x < tw_next w2" using w1(4) wheel_invD(5) [OF w1(2), of x t] D(4) by (auto split: if_splits)
  show ?case
    using w1 w2 D(1,2,5) sub nx Run_due [OF w1(2,3) w2 assms(3)]
    by (cases "Suc n < due w x"; cases "n < due w x") auto
qed

lemma ticks_fires:
  assumes "wheel_inv w" and "tw_clearing w = None" and "quiet exec x"
    and "tw_heap w x = Some t" and "0 < due w x" and "\<not> is_cancel t"
  shows "\<exists>w'. ticks exec n w = Some w' \<and> ((x, task_cb t) \<in> set (tw_fired w') \<longleftrightarrow> due w x \<le> n)"
proof -
  obtain w' where w': "ticks exec n w = Some w'" "wheel_inv w'"
    "if n < due w x then tw_heap w' x = Some t \<and> due w' x = due w x - n
     else tw_heap w' x = None \<and> x < tw_next w' \<and> (\<not> is_cancel t \<longrightarrow> (x, task_cb t) \<in> set (tw_fired w'))"
    using ticks_due [OF assms(1-5), of n] by (auto elim: returnsE)
  have "(x, task_cb t) \<notin> set (tw_fired w')" if "n < due w x"
    using wheel_invD(12) [OF w'(2), of x] w'(3) that by force
  then show ?thesis using w' assms(6) by (cases "n < due w x") (auto simp: not_less)
qed

end

section \<open>Properties\<close>

lemma due_added:
  assumes "wheel_inv w" and "unat timeout + 60 \<le> 2 ^ 32"
  shows "due (added tid timeout cb w) (tw_next w) = delay timeout"
  using assms fresh_addr(2) [OF assms(1)]
  by (intro due_eqI [of "slot_of timeout w"]) (auto simp: added_mem slot_dist_slot_of)

lemma delay_pos [simp]: "0 < delay timeout"
  by (simp add: delay_def)

text \<open>
  C3. A timer fires once, and on time: on a wheel that satisfies the invariant, adding a task
  succeeds, and if callbacks only use operations of the wheel and leave this task alone, then
  every tick returns and the task's callback has run after \<open>n\<close> ticks exactly if \<open>n\<close> has reached
  the delay, which is the timeout itself for a timeout from 1 to 60 seconds (and the timeout
  wrapped around the 60 slots otherwise).
\<close>

theorem timer_fires_on_time:
  assumes "\<And>cb w. wheel_inv w \<Longrightarrow> keeps w (exec cb w)"
    and "wheel_inv w" and "tw_clearing w = None" and "quiet exec (tw_next w)"
    and "unat timeout + 60 \<le> 2 ^ 32"
  shows "\<exists>w1. TimerAddInLoop tid timeout cb w = Some w1 \<and>
           (\<forall>n. \<exists>w'. ticks exec n w1 = Some w' \<and>
              ((tw_next w, cb) \<in> set (tw_fired w') \<longleftrightarrow> delay timeout \<le> n) \<and> distinct (map fst (tw_fired w'))) \<and>
           (1 \<le> unat timeout \<longrightarrow> unat timeout \<le> 60 \<longrightarrow> delay timeout = unat timeout)"
proof -
  have client: "timer_client exec" using assms(1) by (rule timer_client.intro)
  let ?w = "added tid timeout cb w"
  let ?t = "SetRealse tid (TimerTask_new tid timeout cb)"
  have inv: "wheel_inv ?w" using assms(2,3) by (simp add: added_inv)
  have h: "tw_heap ?w (tw_next w) = Some ?t" by (simp add: added_heap)
  have d: "due ?w (tw_next w) = delay timeout" using assms(2,5) by (rule due_added)
  have "\<exists>w'. ticks exec n ?w = Some w' \<and> ((tw_next w, cb) \<in> set (tw_fired w') \<longleftrightarrow> delay timeout \<le> n) \<and>
      distinct (map fst (tw_fired w'))" for n
    using timer_client.ticks_fires [OF client inv _ assms(4) h, of n]
      timer_client.ticks_due [OF client inv _ assms(4) h, of n] assms(3) d
    by (auto dest: wheel_invD(10))
  then show ?thesis using assms(2,3) by (simp add: TimerAddInLoop_added delay_small)
qed

text \<open>A wheel with one timer, and callbacks that do nothing.\<close>

lemma idle_laws: "wheel_inv w \<Longrightarrow> keeps w (Some w)" "quiet (\<lambda>_ w. Some w) x"
  by (simp_all add: keeps_def quiet_def)

lemma wheel_new_simps [simp]:
  "tw_clearing (TimerWheel_new :: 'cb TimerWheel) = None" "tw_next (TimerWheel_new :: 'cb TimerWheel) = 0"
  by (simp_all add: TimerWheel_new_def)

definition demo_wheel :: "nat TimerWheel" where
  "demo_wheel = added 7 30 5 TimerWheel_new"

lemma demo_wheel_facts:
  "TimerAddInLoop 7 30 5 TimerWheel_new = Some demo_wheel" "wheel_inv demo_wheel" "tw_clearing demo_wheel = None"
  "lock_timer 7 demo_wheel = Some (0, SetRealse 7 (TimerTask_new 7 30 5))" "delay 30 = 30"
proof -
  show "TimerAddInLoop 7 30 5 TimerWheel_new = Some demo_wheel"
    by (simp add: demo_wheel_def TimerAddInLoop_added)
  show "wheel_inv demo_wheel" by (simp add: demo_wheel_def added_inv)
  show "tw_clearing demo_wheel = None" by (simp add: demo_wheel_def)
  show "lock_timer 7 demo_wheel = Some (0, SetRealse 7 (TimerTask_new 7 30 5))"
    by (simp add: demo_wheel_def lock_timer_def added_heap)
  show "delay 30 = 30" by (simp add: delay_def)
qed

theorem timer_fires_on_time_witness:
  "(\<exists>w'. ticks (\<lambda>_ w. Some w) 29 demo_wheel = Some w' \<and> (0, 5) \<notin> set (tw_fired w')) \<and>
   (\<exists>w'. ticks (\<lambda>_ w. Some w) 30 demo_wheel = Some w' \<and> (0, 5) \<in> set (tw_fired w'))"
proof -
  have *: "\<exists>w1. TimerAddInLoop 7 30 5 (TimerWheel_new :: nat TimerWheel) = Some w1 \<and>
     (\<forall>n. \<exists>w'. ticks (\<lambda>_ w. Some w) n w1 = Some w' \<and> ((0, 5) \<in> set (tw_fired w') \<longleftrightarrow> delay 30 \<le> n) \<and>
        distinct (map fst (tw_fired w')))"
    using timer_fires_on_time [of "\<lambda>_ w. Some w" "TimerWheel_new :: nat TimerWheel" 30 7 5]
    by (simp add: idle_laws) blast
  then have "\<exists>w'. ticks (\<lambda>_ w. Some w) n demo_wheel = Some w' \<and> ((0, 5) \<in> set (tw_fired w') \<longleftrightarrow> 30 \<le> n)" for n
    unfolding demo_wheel_facts(1,5) by (simp only: option.inject ex_simps simp_thms) metis
  from this [of 29] this [of 30] show ?thesis by auto
qed

text \<open>
  Refreshing postpones: refreshing a live timer makes it fire exactly its delay after the
  refresh, however late or early the refresh comes.
\<close>

lemma timer_refresh_postpones:
  assumes "\<And>cb w. wheel_inv w \<Longrightarrow> keeps w (exec cb w)"
    and "wheel_inv w" and "tw_clearing w = None" and "lock_timer tid w = Some (x, t)" and "\<not> is_cancel t"
    and "quiet exec x" and "unat (task_timeout t) + 60 \<le> 2 ^ 32"
  shows "\<exists>w1. TimerRefreshInLoop tid w = Some w1 \<and>
           (\<forall>n. \<exists>w'. ticks exec n w1 = Some w' \<and>
              ((x, task_cb t) \<in> set (tw_fired w') \<longleftrightarrow> delay (task_timeout t) \<le> n))"
proof -
  have client: "timer_client exec" using assms(1) by (rule timer_client.intro)
  have h: "tw_heap w x = Some t" using assms(4) by (auto simp: lock_timer_def Option.bind_eq_Some_conv)
  let ?i = "slot_of (task_timeout t) w"
  let ?w = "w\<lparr>tw_wheel := (tw_wheel w)[?i := tw_wheel w ! ?i @ [x]]\<rparr>"
  have p: "push_slot ?i x w = Some ?w" "wheel_inv ?w"
    using push_slot_ok [OF assms(2) h refl] assms(3) by simp_all
  have "due ?w x = delay (task_timeout t)"
  proof (rule due_eqI [of ?i])
    fix j assume "j < 60" "x \<in> set (tw_wheel ?w ! j)"
    then show "slot_dist (tw_tick ?w) j \<le> delay (task_timeout t)"
      using wheel_invD(9) [OF p(2), of j x t] assms(3,7) h by simp
  qed (use assms(2,7) wheel_invD(2) [OF assms(2)] in \<open>simp_all add: slot_dist_slot_of\<close>)
  then have "\<exists>w'. ticks exec n ?w = Some w' \<and>
      ((x, task_cb t) \<in> set (tw_fired w') \<longleftrightarrow> delay (task_timeout t) \<le> n)" for n
    using timer_client.ticks_fires [OF client p(2) _ assms(6), of t n] assms(3,5) h by simp
  then show ?thesis using assms(4) p(1) by (simp add: TimerRefreshInLoop_def DelayTime_def)
qed

text \<open>
  C14. A cancelled timer never fires: after \<open>TimerCancelInLoop\<close> on a live timer no sequence of
  further operations and ticks (refreshing it included) runs its callback.
\<close>

theorem timer_cancel_final:
  assumes "\<And>cb w. wheel_inv w \<Longrightarrow> keeps w (exec cb w)"
    and "wheel_inv w" and "tw_clearing w = None" and "lock_timer tid w = Some (x, t)"
    and "(wheel_step exec)\<^sup>*\<^sup>* (TimerCancelInLoop tid w) w'"
  shows "x \<notin> fst ` set (tw_fired w')"
proof -
  have client: "timer_client exec" using assms(1) by (rule timer_client.intro)
  have h: "tw_heap w x = Some t" using assms(4) by (auto simp: lock_timer_def Option.bind_eq_Some_conv)
  have c: "TimerCancelInLoop tid w = w\<lparr>tw_heap := (tw_heap w)(x \<mapsto> Cancel t)\<rparr>"
    using assms(4) by (simp add: TimerCancelInLoop_def)
  have "muted x (TimerCancelInLoop tid w)"
    using wheel_invD(5) [OF assms(2) h] wheel_invD(12) [OF assms(2), of x] h
    unfolding c by (auto simp: muted_def Cancel_def)
  then have "muted x w'"
    using timer_client.steps_inv [OF client assms(5), of x] wheel_op_le(3) [OF assms(2), of tid] assms(3)
    by (simp add: c)
  then show ?thesis by (simp add: muted_def)
qed

theorem timer_cancel_final_witness:
  "\<exists>w'. TimerRefreshInLoop 7 (TimerCancelInLoop 7 demo_wheel) = Some w' \<and>
     0 \<notin> fst ` set (tw_fired w')"
proof -
  let ?w = "TimerCancelInLoop 7 demo_wheel"
  have "keeps ?w (TimerRefreshInLoop 7 ?w)"
    using wheel_op_le(3) [OF demo_wheel_facts(2), of 7] demo_wheel_facts(3) wheel_leD(2)
    by (intro TimerRefreshInLoop_keeps) fastforce+
  then obtain w' where w': "TimerRefreshInLoop 7 ?w = Some w'" by (auto simp: keeps_def elim: returnsE)
  then have "(wheel_step (\<lambda>_ w. Some w))\<^sup>*\<^sup>* ?w w'" by (blast intro: wheel_step.refresh)
  from timer_cancel_final [OF _ demo_wheel_facts(2,3,4) this] w' show ?thesis by (simp add: idle_laws)
qed


text \<open>
  C15. Ownership: in every state reached by any operations and ticks from the empty wheel, the
  next tick returns (no task is destroyed twice), the live tasks are exactly those in the
  slots, every index entry of a live task has that task's id, and no callback has run twice.
\<close>

theorem wheel_ownership:
  fixes exec :: "'cb \<Rightarrow> 'cb TimerWheel \<Rightarrow> 'cb TimerWheel option"
  assumes "\<And>cb w. wheel_inv w \<Longrightarrow> keeps w (exec cb w)"
    and "(wheel_step exec)\<^sup>*\<^sup>* TimerWheel_new w"
  shows "(\<exists>w'. Run exec w = Some w') \<and> dom (tw_heap w) = set (concat (tw_wheel w)) \<and>
     (\<forall>tid a t. tw_timers w tid = Some a \<longrightarrow> tw_heap w a = Some t \<longrightarrow> task_id t = tid) \<and>
     distinct (map fst (tw_fired w))"
proof -
  have client: "timer_client exec" using assms(1) by (rule timer_client.intro)
  have "tw_clearing (TimerWheel_new :: 'cb TimerWheel) = None" by (simp add: TimerWheel_new_def)
  then have w: "wheel_inv w" "tw_clearing w = None"
    using timer_client.steps_inv [OF client assms(2)] by simp_all
  have "a \<in> dom (tw_heap w) \<longleftrightarrow> a \<in> set (concat (tw_wheel w))" for a
    using wheel_invD(4) [OF w(1), of a] referenced_iff [of w a] wheel_invD(2) [OF w(1)]
    unfolding referenced_def by (simp add: dom_def)
  then have "dom (tw_heap w) = set (concat (tw_wheel w))" by blast
  then show ?thesis
    using timer_client.Run_returns [OF client w] wheel_invD(8,10) [OF w(1)] by simp
qed

theorem wheel_ownership_witness:
  "(\<exists>w'. Run (\<lambda>_ w. Some w) demo_wheel = Some w') \<and> dom (tw_heap demo_wheel) = set (concat (tw_wheel demo_wheel))"
proof -
  have "(wheel_step (\<lambda>_ w. Some w))\<^sup>*\<^sup>* TimerWheel_new demo_wheel"
    using demo_wheel_facts(1) by (blast intro: wheel_step.add)
  from wheel_ownership [OF _ this] show ?thesis by (simp add: idle_laws)
qed

end
