(* ===== verification/Reactor.thy ===== *)
theory Reactor
  imports Prelude
begin

unbundle bit_operations_syntax

text \<open>
  The classes \<open>Channel\<close> and \<open>Poller\<close> of \<open>src/http-v1/source/server.hpp\<close>. A channel holds the
  event mask of a descriptor and its callbacks; the poller keeps the table from descriptors
  to channels and the kernel's interest list. A channel is referred to by an address.

  The kernel's interest list is part of the state: \<open>epoll_ctl\<close> adds, changes or deletes an
  entry and fails if the entry exists, respectively does not exist; \<open>po_errors\<close> counts the
  failures the code only logs. The handlers of a channel are of a type parameter and what
  they do is the argument \<open>run\<close> of \<open>Channel_HandleEvent\<close>.

  The theory shows that the poller's table and the kernel's interest list always agree with
  the masks of the channels and that \<open>epoll_ctl\<close> never fails.
\<close>

section \<open>Channel\<close>

definition EPOLLIN :: u32 where "EPOLLIN = 1"
definition EPOLLPRI :: u32 where "EPOLLPRI = 2"
definition EPOLLOUT :: u32 where "EPOLLOUT = 4"
definition EPOLLERR :: u32 where "EPOLLERR = 8"
definition EPOLLHUP :: u32 where "EPOLLHUP = 16"

lemmas epoll_flags = EPOLLIN_def EPOLLPRI_def EPOLLOUT_def EPOLLERR_def EPOLLHUP_def

record 'h Channel =
  ch_addr :: nat
  ch_fd :: int
  ch_events :: u32
  ch_revents :: u32
  ch_read_cb :: "'h option"
  ch_write_cb :: "'h option"
  ch_error_cb :: "'h option"
  ch_close_cb :: "'h option"
  ch_event_cb :: "'h option"
  ch_tied :: bool

definition Channel_new :: "nat \<Rightarrow> int \<Rightarrow> 'h Channel" where
  "Channel_new a fd = \<lparr>ch_addr = a, ch_fd = fd, ch_events = 0, ch_revents = 0, ch_read_cb = None,
     ch_write_cb = None, ch_error_cb = None, ch_close_cb = None, ch_event_cb = None, ch_tied = False\<rparr>"

definition SetRevents :: "u32 \<Rightarrow> 'h Channel \<Rightarrow> 'h Channel" where
  "SetRevents revents ch = ch\<lparr>ch_revents := revents\<rparr>"

definition Channel_SetReadCallBack :: "'h \<Rightarrow> 'h Channel \<Rightarrow> 'h Channel" where
  "Channel_SetReadCallBack cb ch = ch\<lparr>ch_read_cb := Some cb\<rparr>"

definition Channel_SetWriteCallBack :: "'h \<Rightarrow> 'h Channel \<Rightarrow> 'h Channel" where
  "Channel_SetWriteCallBack cb ch = ch\<lparr>ch_write_cb := Some cb\<rparr>"

definition Channel_SetErrorCallBack :: "'h \<Rightarrow> 'h Channel \<Rightarrow> 'h Channel" where
  "Channel_SetErrorCallBack cb ch = ch\<lparr>ch_error_cb := Some cb\<rparr>"

definition Channel_SetCloseCallBack :: "'h \<Rightarrow> 'h Channel \<Rightarrow> 'h Channel" where
  "Channel_SetCloseCallBack cb ch = ch\<lparr>ch_close_cb := Some cb\<rparr>"

definition Channel_SetEventCallBack :: "'h \<Rightarrow> 'h Channel \<Rightarrow> 'h Channel" where
  "Channel_SetEventCallBack cb ch = ch\<lparr>ch_event_cb := Some cb\<rparr>"

definition Channel_Tie :: "'h Channel \<Rightarrow> 'h Channel" where
  "Channel_Tie ch = ch\<lparr>ch_tied := True\<rparr>"

definition ReadAble :: "'h Channel \<Rightarrow> bool" where
  "ReadAble ch = (ch_events ch AND EPOLLIN \<noteq> 0)"

definition WriteAble :: "'h Channel \<Rightarrow> bool" where
  "WriteAble ch = (ch_events ch AND EPOLLOUT \<noteq> 0)"

section \<open>Poller\<close>

record Poller =
  po_channels :: "int \<rightharpoonup> nat"
  po_interest :: "int \<rightharpoonup> u32"
  po_errors :: nat

datatype epoll_op = EPOLL_CTL_ADD | EPOLL_CTL_MOD | EPOLL_CTL_DEL

definition Poller_new :: Poller where
  "Poller_new = \<lparr>po_channels = (\<lambda>_. None), po_interest = (\<lambda>_. None), po_errors = 0\<rparr>"

text \<open>The system call.\<close>

definition epoll_ctl :: "epoll_op \<Rightarrow> int \<Rightarrow> u32 \<Rightarrow> Poller \<Rightarrow> bool \<times> Poller" where
  "epoll_ctl op fd events p =
     (case op of
        EPOLL_CTL_ADD \<Rightarrow>
          (if po_interest p fd = None then (True, p\<lparr>po_interest := (po_interest p)(fd \<mapsto> events)\<rparr>) else (False, p))
      | EPOLL_CTL_MOD \<Rightarrow>
          (if po_interest p fd = None then (False, p) else (True, p\<lparr>po_interest := (po_interest p)(fd \<mapsto> events)\<rparr>))
      | EPOLL_CTL_DEL \<Rightarrow>
          (if po_interest p fd = None then (False, p) else (True, p\<lparr>po_interest := (po_interest p)(fd := None)\<rparr>)))"

definition Poller_Update :: "'h Channel \<Rightarrow> epoll_op \<Rightarrow> Poller \<Rightarrow> Poller" where
  "Poller_Update ch op p =
     (let (ok, p1) = epoll_ctl op (ch_fd ch) (ch_events ch) p
      in if ok then p1 else p1\<lparr>po_errors := po_errors p1 + 1\<rparr>)"

definition IsExist :: "'h Channel \<Rightarrow> Poller \<Rightarrow> bool" where
  "IsExist ch p = (case po_channels p (ch_fd ch) of None \<Rightarrow> False | Some _ \<Rightarrow> True)"

definition UpdateEvent :: "'h Channel \<Rightarrow> Poller \<Rightarrow> Poller" where
  "UpdateEvent ch p =
     (let fd = ch_fd ch; events = ch_events ch; exist = IsExist ch p in
      if events = 0 then
        (if exist then Poller_Update ch EPOLL_CTL_DEL (p\<lparr>po_channels := (po_channels p)(fd := None)\<rparr>) else p)
      else if exist then Poller_Update ch EPOLL_CTL_MOD p
      else Poller_Update ch EPOLL_CTL_ADD (p\<lparr>po_channels := (po_channels p)(fd \<mapsto> ch_addr ch)\<rparr>))"

definition RemoveEvent :: "'h Channel \<Rightarrow> Poller \<Rightarrow> Poller" where
  "RemoveEvent ch p =
     (case po_channels p (ch_fd ch) of
        None \<Rightarrow> p
      | Some _ \<Rightarrow> Poller_Update ch EPOLL_CTL_DEL (p\<lparr>po_channels := (po_channels p)(ch_fd ch := None)\<rparr>))"

text \<open>\<open>Poll\<close>: the outcome of \<open>epoll_wait\<close> is a list of ready descriptors with their events, an
  interruption, or another failure, which aborts. The result is the list of active channels
  with the events set on each.\<close>

datatype wait_result = Ready "(int \<times> u32) list" | WaitEINTR | WaitError

fun poll_collect :: "(int \<rightharpoonup> nat) \<Rightarrow> (int \<times> u32) list \<Rightarrow> (nat \<times> u32) list" where
  "poll_collect channels [] = []"
| "poll_collect channels ((fd, events) # evs) =
     (case channels fd of
        None \<Rightarrow> poll_collect channels evs
      | Some ch \<Rightarrow> (ch, events) # poll_collect channels evs)"

definition Poll :: "wait_result \<Rightarrow> Poller \<Rightarrow> (nat \<times> u32) list option" where
  "Poll r p =
     (case r of
        WaitEINTR \<Rightarrow> Some []
      | WaitError \<Rightarrow> None
      | Ready evs \<Rightarrow> Some (poll_collect (po_channels p) evs))"

section \<open>Operations of a channel on its poller\<close>

definition Channel_Update :: "'h Channel \<times> Poller \<Rightarrow> 'h Channel \<times> Poller" where
  "Channel_Update s = (fst s, UpdateEvent (fst s) (snd s))"

definition Channel_Remove :: "'h Channel \<times> Poller \<Rightarrow> 'h Channel \<times> Poller" where
  "Channel_Remove s = (fst s, RemoveEvent (fst s) (snd s))"

definition EnableRead :: "'h Channel \<times> Poller \<Rightarrow> 'h Channel \<times> Poller" where
  "EnableRead s = Channel_Update ((fst s)\<lparr>ch_events := ch_events (fst s) OR EPOLLIN\<rparr>, snd s)"

definition EnableWrite :: "'h Channel \<times> Poller \<Rightarrow> 'h Channel \<times> Poller" where
  "EnableWrite s = Channel_Update ((fst s)\<lparr>ch_events := ch_events (fst s) OR EPOLLOUT\<rparr>, snd s)"

definition DisableRead :: "'h Channel \<times> Poller \<Rightarrow> 'h Channel \<times> Poller" where
  "DisableRead s = Channel_Update ((fst s)\<lparr>ch_events := ch_events (fst s) AND NOT EPOLLIN\<rparr>, snd s)"

definition DisableWrite :: "'h Channel \<times> Poller \<Rightarrow> 'h Channel \<times> Poller" where
  "DisableWrite s = Channel_Update ((fst s)\<lparr>ch_events := ch_events (fst s) AND NOT EPOLLOUT\<rparr>, snd s)"

definition DisableAll :: "'h Channel \<times> Poller \<Rightarrow> 'h Channel \<times> Poller" where
  "DisableAll s = Channel_Update ((fst s)\<lparr>ch_events := 0\<rparr>, snd s)"

text \<open>\<open>HandleEvent\<close>. The channel is part of the state the handlers change: \<open>chan\<close> reads it.
  \<open>alive\<close> is whether the tied object can still be locked. A callback field is tested when its
  turn comes, as in the code.\<close>

definition call_opt :: "('h \<Rightarrow> 's \<Rightarrow> 's option) \<Rightarrow> 'h option \<Rightarrow> 's \<Rightarrow> 's option" where
  "call_opt run cb s = (case cb of None \<Rightarrow> Some s | Some h \<Rightarrow> run h s)"

definition Channel_HandleEvent ::
    "('h \<Rightarrow> 's \<Rightarrow> 's option) \<Rightarrow> ('s \<Rightarrow> 'h Channel) \<Rightarrow> ('s \<Rightarrow> bool) \<Rightarrow> 's \<Rightarrow> 's option" where
  "Channel_HandleEvent run chan alive s =
     (if ch_tied (chan s) \<and> \<not> alive s then Some s
      else do {
        s1 \<leftarrow> call_opt run (ch_event_cb (chan s)) s;
        let error = (ch_revents (chan s1) AND EPOLLERR \<noteq> 0);
        let closed = (ch_revents (chan s1) AND EPOLLHUP \<noteq> 0);
        s2 \<leftarrow> (if ch_revents (chan s1) AND (EPOLLIN OR EPOLLPRI) \<noteq> 0
               then call_opt run (ch_read_cb (chan s1)) s1 else Some s1);
        s3 \<leftarrow> (if ch_revents (chan s2) AND EPOLLOUT \<noteq> 0
               then call_opt run (ch_write_cb (chan s2)) s2 else Some s2);
        if error then call_opt run (ch_error_cb (chan s3)) s3
        else if closed then call_opt run (ch_close_cb (chan s3)) s3
        else Some s3
      })"

section \<open>The interface of an event monitor\<close>

text \<open>A client asks to watch a descriptor for the events of a channel, or to forget it.\<close>

datatype 'c monitor_op = MUpdate 'c | MRemove 'c

locale event_monitor =
  fixes inv :: "'p \<Rightarrow> bool"
    and update :: "'c \<Rightarrow> 'p \<Rightarrow> 'p"
    and remove :: "'c \<Rightarrow> 'p \<Rightarrow> 'p"
    and watch :: "'p \<Rightarrow> int \<Rightarrow> u32"
    and errors :: "'p \<Rightarrow> nat"
    and fd_of :: "'c \<Rightarrow> int"
    and events_of :: "'c \<Rightarrow> u32"
  assumes update_inv: "inv p \<Longrightarrow> inv (update c p)"
    and remove_inv: "inv p \<Longrightarrow> inv (remove c p)"
    and update_watch: "inv p \<Longrightarrow> watch (update c p) = (watch p)(fd_of c := events_of c)"
    and remove_watch: "inv p \<Longrightarrow> watch (remove c p) = (watch p)(fd_of c := 0)"
    and update_errors: "inv p \<Longrightarrow> errors (update c p) = errors p"
    and remove_errors: "inv p \<Longrightarrow> errors (remove c p) = errors p"
begin

fun apply_op :: "'c monitor_op \<Rightarrow> 'p \<Rightarrow> 'p" where
  "apply_op (MUpdate c) p = update c p"
| "apply_op (MRemove c) p = remove c p"

fun op_watch :: "'c monitor_op \<Rightarrow> (int \<Rightarrow> u32) \<Rightarrow> int \<Rightarrow> u32" where
  "op_watch (MUpdate c) f = f(fd_of c := events_of c)"
| "op_watch (MRemove c) f = f(fd_of c := 0)"

lemma ops_watch:
  assumes "inv p"
  shows "inv (fold apply_op ops p)" and "watch (fold apply_op ops p) = fold op_watch ops (watch p)"
    and "errors (fold apply_op ops p) = errors p"
proof -
  have "inv (fold apply_op ops p) \<and> watch (fold apply_op ops p) = fold op_watch ops (watch p) \<and>
        errors (fold apply_op ops p) = errors p"
    using assms
  proof (induction ops arbitrary: p)
    case (Cons op ops)
    then have "inv (apply_op op p)" "watch (apply_op op p) = op_watch op (watch p)" "errors (apply_op op p) = errors p"
      by (cases op; simp add: update_inv remove_inv update_watch remove_watch update_errors remove_errors)+
    then show ?case using Cons.IH [of "apply_op op p"] by simp
  qed simp
  then show "inv (fold apply_op ops p)" and "watch (fold apply_op ops p) = fold op_watch ops (watch p)"
    and "errors (fold apply_op ops p) = errors p" by auto
qed

end

section \<open>The poller implements it\<close>

definition poller_inv :: "Poller \<Rightarrow> bool" where
  "poller_inv p \<longleftrightarrow> (\<forall>fd. po_channels p fd = None \<longleftrightarrow> po_interest p fd = None) \<and> (\<forall>fd. po_interest p fd \<noteq> Some 0)"

definition watched :: "Poller \<Rightarrow> int \<Rightarrow> u32" where
  "watched p fd = (case po_interest p fd of None \<Rightarrow> 0 | Some e \<Rightarrow> e)"

lemma poller_inv_new [simp]: "poller_inv Poller_new" "watched Poller_new = (\<lambda>_. 0)" "po_errors Poller_new = 0"
  by (simp_all add: poller_inv_def Poller_new_def watched_def fun_eq_iff)

lemmas poller_defs = UpdateEvent_def RemoveEvent_def IsExist_def Poller_Update_def epoll_ctl_def Let_def

lemma UpdateEvent_ok:
  assumes "poller_inv p"
  shows "poller_inv (UpdateEvent ch p)" and "watched (UpdateEvent ch p) = (watched p)(ch_fd ch := ch_events ch)"
    and "po_errors (UpdateEvent ch p) = po_errors p"
proof -
  have a: "po_channels p (ch_fd ch) = None \<longleftrightarrow> po_interest p (ch_fd ch) = None"
    using assms by (simp add: poller_inv_def)
  show "poller_inv (UpdateEvent ch p)"
    using assms a by (auto simp: poller_defs poller_inv_def split: option.splits)
  show "watched (UpdateEvent ch p) = (watched p)(ch_fd ch := ch_events ch)"
    using a by (auto simp: poller_defs watched_def fun_eq_iff split: option.splits)
  show "po_errors (UpdateEvent ch p) = po_errors p"
    using a by (auto simp: poller_defs split: option.splits)
qed

lemma RemoveEvent_ok:
  assumes "poller_inv p"
  shows "poller_inv (RemoveEvent ch p)" and "watched (RemoveEvent ch p) = (watched p)(ch_fd ch := 0)"
    and "po_errors (RemoveEvent ch p) = po_errors p"
proof -
  have a: "po_channels p (ch_fd ch) = None \<longleftrightarrow> po_interest p (ch_fd ch) = None"
    using assms by (simp add: poller_inv_def)
  show "poller_inv (RemoveEvent ch p)"
    using assms a by (auto simp: poller_defs poller_inv_def split: option.splits)
  show "watched (RemoveEvent ch p) = (watched p)(ch_fd ch := 0)"
    using a by (auto simp: poller_defs watched_def fun_eq_iff split: option.splits)
  show "po_errors (RemoveEvent ch p) = po_errors p"
    using a by (auto simp: poller_defs split: option.splits)
qed

interpretation epoll: event_monitor poller_inv UpdateEvent RemoveEvent watched po_errors ch_fd ch_events
  by unfold_locales (simp_all add: UpdateEvent_ok RemoveEvent_ok)

text \<open>Requests of channels to the poller, executed and specified.\<close>

fun poller_request :: "'h Channel monitor_op \<Rightarrow> Poller \<Rightarrow> Poller" where
  "poller_request (MUpdate ch) p = UpdateEvent ch p"
| "poller_request (MRemove ch) p = RemoveEvent ch p"

fun last_request :: "'h Channel monitor_op list \<Rightarrow> int \<Rightarrow> u32" where
  "last_request [] fd = 0"
| "last_request (MUpdate ch # rs) fd = (if ch_fd ch = fd then ch_events ch else last_request rs fd)"
| "last_request (MRemove ch # rs) fd = (if ch_fd ch = fd then 0 else last_request rs fd)"

lemma poller_request_apply: "poller_request r = epoll.apply_op r"
  by (cases r) (simp_all add: fun_eq_iff)

lemma fold_op_watch: "fold epoll.op_watch rs (\<lambda>_. 0) = last_request (rev rs)"
proof (induction rs rule: rev_induct)
  case (snoc r rs)
  then show ?case by (cases r) (auto simp: fun_eq_iff)
qed (simp add: fun_eq_iff)

text \<open>
  C16. The poller watches what the channels ask for: after any sequence of updates and removals
  on a new poller, the kernel's interest in every descriptor is exactly the mask of the last
  request for it (no entry for mask 0), the poller's table has the same descriptors, and no
  \<open>epoll_ctl\<close> has failed.
\<close>

theorem poller_tracks_channels:
  "let p = fold poller_request rs Poller_new in
     po_interest p fd = (if last_request (rev rs) fd = 0 then None else Some (last_request (rev rs) fd)) \<and>
     dom (po_channels p) = dom (po_interest p) \<and> po_errors p = 0"
proof -
  have f: "fold poller_request rs Poller_new = fold epoll.apply_op rs Poller_new"
    by (rule fold_cong) (simp_all add: poller_request_apply)
  note o = epoll.ops_watch [OF poller_inv_new(1), of rs]
  let ?p = "fold poller_request rs Poller_new"
  have w: "watched ?p fd = last_request (rev rs) fd" using o(2) by (simp add: f fold_op_watch)
  have inv: "poller_inv ?p" and e: "po_errors ?p = 0" using o(1,3) by (simp_all add: f)
  have "po_interest ?p fd = (if last_request (rev rs) fd = 0 then None else Some (last_request (rev rs) fd))"
    using inv unfolding w [symmetric] by (cases "po_interest ?p fd") (auto simp: watched_def poller_inv_def)
  moreover have "dom (po_channels ?p) = dom (po_interest ?p)" using inv by (auto simp: poller_inv_def dom_def)
  ultimately show ?thesis using e unfolding Let_def by (intro conjI)
qed

lemma watched_zero: "poller_inv p \<Longrightarrow> watched p fd = 0 \<longleftrightarrow> po_interest p fd = None"
  by (auto simp: watched_def poller_inv_def split: option.splits)

lemma channel_ops_ok [reactor_simps]:
  assumes "poller_inv p"
  shows "poller_inv (snd (EnableRead (ch, p)))" "poller_inv (snd (EnableWrite (ch, p)))"
    "poller_inv (snd (DisableWrite (ch, p)))" "poller_inv (snd (Channel_Remove (ch, p)))"
    "watched (snd (EnableRead (ch, p))) = (watched p)(ch_fd ch := ch_events ch OR EPOLLIN)"
    "watched (snd (EnableWrite (ch, p))) = (watched p)(ch_fd ch := ch_events ch OR EPOLLOUT)"
    "watched (snd (DisableWrite (ch, p))) = (watched p)(ch_fd ch := ch_events ch AND NOT EPOLLOUT)"
    "watched (snd (Channel_Remove (ch, p))) = (watched p)(ch_fd ch := 0)"
  using assms by (simp_all add: EnableRead_def EnableWrite_def DisableWrite_def Channel_Remove_def
      Channel_Update_def UpdateEvent_ok RemoveEvent_ok)

section \<open>Dispatch\<close>

definition dispatched :: "'h Channel \<Rightarrow> 'h list" where
  "dispatched ch =
     (let r = ch_revents ch; opt = (\<lambda>c f. if c then (case f of None \<Rightarrow> [] | Some h \<Rightarrow> [h]) else [])
      in opt True (ch_event_cb ch) @
         opt (r AND (EPOLLIN OR EPOLLPRI) \<noteq> 0) (ch_read_cb ch) @
         opt (r AND EPOLLOUT \<noteq> 0) (ch_write_cb ch) @
         opt (r AND EPOLLERR \<noteq> 0) (ch_error_cb ch) @
         opt (r AND EPOLLERR = 0 \<and> r AND EPOLLHUP \<noteq> 0) (ch_close_cb ch))"

fun run_all :: "('h \<Rightarrow> 's \<Rightarrow> 's option) \<Rightarrow> 'h list \<Rightarrow> 's \<Rightarrow> 's option" where
  "run_all run [] s = Some s"
| "run_all run (h # hs) s = do { s1 \<leftarrow> run h s; run_all run hs s1 }"

lemma run_all_append: "run_all run (xs @ ys) s = do { s1 \<leftarrow> run_all run xs s; run_all run ys s1 }"
  by (induction xs arbitrary: s) (auto split: bind_splits)

lemma call_opt_run_all: "call_opt run cb s = run_all run (case cb of None \<Rightarrow> [] | Some h \<Rightarrow> [h]) s"
  by (cases cb; cases "run (the cb) s") (simp_all add: call_opt_def)

lemma run_all_chan:
  assumes "\<And>h s s'. run h s = Some s' \<Longrightarrow> chan s' = chan s"
  shows "run_all run hs s = Some s' \<Longrightarrow> chan s' = chan s"
  by (induction hs arbitrary: s) (auto simp: Option.bind_eq_Some_conv dest: assms)

text \<open>If handlers do not change the channel, they run in the order event, read, write, and last
  error or else close.\<close>

lemma HandleEvent_dispatched:
  assumes "\<And>h s s'. run h s = Some s' \<Longrightarrow> chan s' = chan s"
  shows "Channel_HandleEvent run chan alive s =
    (if ch_tied (chan s) \<and> \<not> alive s then Some s else run_all run (dispatched (chan s)) s)"
proof -
  have c: "chan s' = chan s" if "call_opt run cb s = Some s'" for cb s s'
    using that assms by (auto simp: call_opt_def split: option.splits)
  have "call_opt run cb s \<bind> f = call_opt run cb s \<bind> g" if "\<And>s'. chan s' = chan s \<Longrightarrow> f s' = g s'" for cb f g s
    using that c by (cases "call_opt run cb s") auto
  note cong = this
  show ?thesis
    unfolding Channel_HandleEvent_def dispatched_def Let_def
    by (auto simp: run_all_append call_opt_run_all [symmetric] c intro!: cong split: bind_splits dest!: c)
qed

end
