(* ===== verification/EventLoop.thy ===== *)
theory EventLoop
  imports TimerWheel Reactor
begin

text \<open>
  The class \<open>EventLoop\<close> of \<open>src/http-v1/source/server.hpp\<close>: poller, task queue, event descriptor
  and timer wheel of one thread. Its state extends the state of the wheel. A functor of the
  task queue is one of the wheel's operations bound to its arguments, or an action of the
  client, of a type parameter whose meaning is an argument of the operations that run
  functors. The event descriptor is its counter; its reads and writes are not interrupted by signals.

  Two views are given: the operations as functions, and the interleaving of one loop thread
  with any number of threads that queue tasks, as a step relation over the same functions,
  for which no task is lost, run twice or left waiting.
\<close>

section \<open>State and operations\<close>

datatype ('cb, 'g) loop_task =
  FTimerAdd u64 u32 'cb
| FTimerRefresh u64
| FTimerCancel u64
| FClient 'g

record ('cb, 'g) EventLoop = "'cb TimerWheel" +
  el_thread :: nat
  el_poll :: Poller
  el_tasks :: "('cb, 'g) loop_task list"
  el_eventfd :: u64

text \<open>The constructors of \<open>EventLoop\<close> and of its wheel register the event and the timer
  descriptor with the poller.\<close>

definition EventLoop_new :: "nat \<Rightarrow> int \<Rightarrow> int \<Rightarrow> ('cb, 'g) EventLoop" where
  "EventLoop_new thread evfd timerfd =
     (let p0 = Poller_new;
          p1 = snd (EnableRead (Channel_new 0 timerfd :: unit Channel, p0));
          p2 = snd (EnableRead (Channel_new 1 evfd :: unit Channel, p1))
      in \<lparr>tw_tick = 0, tw_capacity = 60, tw_wheel = replicate 60 [], tw_timers = (\<lambda>_. None),
           tw_heap = (\<lambda>_. None), tw_next = 0, tw_clearing = None, tw_fired = [],
           el_thread = thread, el_poll = p2, el_tasks = [], el_eventfd = 0\<rparr>)"

lemma EventLoop_new_wheel: "wheel_inv (EventLoop_new thread evfd timerfd :: ('cb, 'g) EventLoop)"
  by (simp add: wheel_inv_def EventLoop_new_def Let_def)

definition IsInLoop :: "nat \<Rightarrow> ('cb, 'g, 'z) EventLoop_scheme \<Rightarrow> bool" where
  "IsInLoop this_thread l = (if el_thread l = this_thread then True else False)"

definition AssertInLoop :: "nat \<Rightarrow> ('cb, 'g, 'z) EventLoop_scheme \<Rightarrow> unit option" where
  "AssertInLoop this_thread l = (if el_thread l = this_thread then Some () else None)"

text \<open>\<open>WakeUpEventFd\<close>: the write adds one to the counter and fails with \<open>EAGAIN\<close> at its
  maximum, which the code ignores. \<open>ReadEventFd\<close>: the read resets the counter; with nothing
  to read it fails with \<open>EAGAIN\<close>, and the code aborts.\<close>

definition WakeUpEventFd :: "('cb, 'g, 'z) EventLoop_scheme \<Rightarrow> ('cb, 'g, 'z) EventLoop_scheme" where
  "WakeUpEventFd l = (if el_eventfd l < - 2 then l\<lparr>el_eventfd := el_eventfd l + 1\<rparr> else l)"

definition ReadEventFd :: "('cb, 'g, 'z) EventLoop_scheme \<Rightarrow> ('cb, 'g, 'z) EventLoop_scheme option" where
  "ReadEventFd l = (if el_eventfd l = 0 then None else Some (l\<lparr>el_eventfd := 0\<rparr>))"

text \<open>The section of \<open>QueueInLoop\<close> under the lock, and the whole.\<close>

definition push_task :: "('cb, 'g) loop_task \<Rightarrow> ('cb, 'g, 'z) EventLoop_scheme \<Rightarrow> ('cb, 'g, 'z) EventLoop_scheme" where
  "push_task f l = l\<lparr>el_tasks := el_tasks l @ [f]\<rparr>"

definition QueueInLoop :: "('cb, 'g) loop_task \<Rightarrow> ('cb, 'g, 'z) EventLoop_scheme \<Rightarrow> ('cb, 'g, 'z) EventLoop_scheme" where
  "QueueInLoop f l = WakeUpEventFd (push_task f l)"

text \<open>Running a functor.\<close>

definition run_functor ::
    "('g \<Rightarrow> ('cb, 'g, 'z) EventLoop_scheme \<Rightarrow> ('cb, 'g, 'z) EventLoop_scheme option) \<Rightarrow> ('cb, 'g) loop_task \<Rightarrow>
     ('cb, 'g, 'z) EventLoop_scheme \<Rightarrow> ('cb, 'g, 'z) EventLoop_scheme option" where
  "run_functor client f l =
     (case f of
        FTimerAdd tid timeout cb \<Rightarrow> TimerAddInLoop tid timeout cb l
      | FTimerRefresh tid \<Rightarrow> TimerRefreshInLoop tid l
      | FTimerCancel tid \<Rightarrow> Some (TimerCancelInLoop tid l)
      | FClient g \<Rightarrow> client g l)"

definition RunInLoop ::
    "('g \<Rightarrow> ('cb, 'g, 'z) EventLoop_scheme \<Rightarrow> ('cb, 'g, 'z) EventLoop_scheme option) \<Rightarrow> nat \<Rightarrow> ('cb, 'g) loop_task \<Rightarrow>
     ('cb, 'g, 'z) EventLoop_scheme \<Rightarrow> ('cb, 'g, 'z) EventLoop_scheme option" where
  "RunInLoop client this_thread f l =
     (if IsInLoop this_thread l then run_functor client f l else Some (QueueInLoop f l))"

definition TimerAdd ::
    "('g \<Rightarrow> ('cb, 'g, 'z) EventLoop_scheme \<Rightarrow> ('cb, 'g, 'z) EventLoop_scheme option) \<Rightarrow> nat \<Rightarrow> u64 \<Rightarrow> u32 \<Rightarrow> 'cb \<Rightarrow>
     ('cb, 'g, 'z) EventLoop_scheme \<Rightarrow> ('cb, 'g, 'z) EventLoop_scheme option" where
  "TimerAdd client this_thread tid timeout cb l = RunInLoop client this_thread (FTimerAdd tid timeout cb) l"

definition TimerRefresh ::
    "('g \<Rightarrow> ('cb, 'g, 'z) EventLoop_scheme \<Rightarrow> ('cb, 'g, 'z) EventLoop_scheme option) \<Rightarrow> nat \<Rightarrow> u64 \<Rightarrow>
     ('cb, 'g, 'z) EventLoop_scheme \<Rightarrow> ('cb, 'g, 'z) EventLoop_scheme option" where
  "TimerRefresh client this_thread tid l = RunInLoop client this_thread (FTimerRefresh tid) l"

definition TimerCancel ::
    "('g \<Rightarrow> ('cb, 'g, 'z) EventLoop_scheme \<Rightarrow> ('cb, 'g, 'z) EventLoop_scheme option) \<Rightarrow> nat \<Rightarrow> u64 \<Rightarrow>
     ('cb, 'g, 'z) EventLoop_scheme \<Rightarrow> ('cb, 'g, 'z) EventLoop_scheme option" where
  "TimerCancel client this_thread tid l = RunInLoop client this_thread (FTimerCancel tid) l"

definition EventLoop_HasTimer :: "u64 \<Rightarrow> ('cb, 'g, 'z) EventLoop_scheme \<Rightarrow> bool" where
  "EventLoop_HasTimer tid l = TimerWheel_HasTimer tid l"

definition EventLoop_UpdateEvent :: "'h Channel \<Rightarrow> ('cb, 'g, 'z) EventLoop_scheme \<Rightarrow> ('cb, 'g, 'z) EventLoop_scheme" where
  "EventLoop_UpdateEvent ch l = l\<lparr>el_poll := UpdateEvent ch (el_poll l)\<rparr>"

definition EventLoop_RemoveEvent :: "'h Channel \<Rightarrow> ('cb, 'g, 'z) EventLoop_scheme \<Rightarrow> ('cb, 'g, 'z) EventLoop_scheme" where
  "EventLoop_RemoveEvent ch l = l\<lparr>el_poll := RemoveEvent ch (el_poll l)\<rparr>"

text \<open>\<open>RunAllTasks\<close>: the swap under the lock, then the functors in order.\<close>

definition swap_tasks ::
    "('cb, 'g, 'z) EventLoop_scheme \<Rightarrow> ('cb, 'g) loop_task list \<times> ('cb, 'g, 'z) EventLoop_scheme" where
  "swap_tasks l = (el_tasks l, l\<lparr>el_tasks := []\<rparr>)"

definition RunAllTasks ::
    "('g \<Rightarrow> ('cb, 'g, 'z) EventLoop_scheme \<Rightarrow> ('cb, 'g, 'z) EventLoop_scheme option) \<Rightarrow>
     ('cb, 'g, 'z) EventLoop_scheme \<Rightarrow> ('cb, 'g, 'z) EventLoop_scheme option" where
  "RunAllTasks client l = (let (functors, l1) = swap_tasks l in run_all (run_functor client) functors l1)"

text \<open>One round of \<open>Start\<close>: \<open>handle\<close> is the dispatch to the channel at an address with the events
  that are ready. \<open>Start\<close> runs rounds for ever; \<open>Start_rounds\<close> runs one per outcome of
  \<open>epoll_wait\<close>.\<close>

definition Start_round ::
    "(nat \<times> u32 \<Rightarrow> ('cb, 'g, 'z) EventLoop_scheme \<Rightarrow> ('cb, 'g, 'z) EventLoop_scheme option) \<Rightarrow>
     ('g \<Rightarrow> ('cb, 'g, 'z) EventLoop_scheme \<Rightarrow> ('cb, 'g, 'z) EventLoop_scheme option) \<Rightarrow> wait_result \<Rightarrow>
     ('cb, 'g, 'z) EventLoop_scheme \<Rightarrow> ('cb, 'g, 'z) EventLoop_scheme option" where
  "Start_round handle client r l = do {
     actives \<leftarrow> Poll r (el_poll l);
     l1 \<leftarrow> run_all handle actives l;
     RunAllTasks client l1
   }"

fun Start_rounds ::
    "(nat \<times> u32 \<Rightarrow> ('cb, 'g, 'z) EventLoop_scheme \<Rightarrow> ('cb, 'g, 'z) EventLoop_scheme option) \<Rightarrow>
     ('g \<Rightarrow> ('cb, 'g, 'z) EventLoop_scheme \<Rightarrow> ('cb, 'g, 'z) EventLoop_scheme option) \<Rightarrow> wait_result list \<Rightarrow>
     ('cb, 'g, 'z) EventLoop_scheme \<Rightarrow> ('cb, 'g, 'z) EventLoop_scheme option" where
  "Start_rounds handle client [] l = Some l"
| "Start_rounds handle client (r # rs) l = do { l1 \<leftarrow> Start_round handle client r l; Start_rounds handle client rs l1 }"

section \<open>The loop thread and the threads that queue tasks\<close>

text \<open>Where the loop thread is: waiting in \<open>Poll\<close>, about to read the event descriptor, before
  \<open>RunAllTasks\<close>, or running the swapped tasks. \<open>waking t\<close>: thread \<open>t\<close> has pushed a task and not
  yet written to the event descriptor. The last two components record what was queued and
  what has run.\<close>

datatype ('cb, 'g) loop_pc = InPoll | ToRead | ToSwap | Running "('cb, 'g) loop_task list"

record ('cb, 'g) loop_sys =
  ls_loop :: "('cb, 'g) EventLoop"
  ls_pc :: "('cb, 'g) loop_pc"
  ls_waking :: "nat \<Rightarrow> bool"
  ls_queued :: "('cb, 'g) loop_task list"
  ls_ran :: "('cb, 'g) loop_task list"

definition loop_start :: "('cb, 'g) EventLoop \<Rightarrow> ('cb, 'g) loop_sys" where
  "loop_start l = \<lparr>ls_loop = l, ls_pc = InPoll, ls_waking = (\<lambda>_. False), ls_queued = [], ls_ran = []\<rparr>"

text \<open>\<open>io\<close>: whether descriptors other than the event descriptor can become ready.\<close>

inductive loop_step :: "bool \<Rightarrow> ('cb, 'g) loop_sys \<Rightarrow> ('cb, 'g) loop_sys \<Rightarrow> bool" for io where
  push: "\<not> ls_waking s t \<Longrightarrow>
    loop_step io s (s\<lparr>ls_loop := push_task f (ls_loop s), ls_waking := (ls_waking s)(t := True), ls_queued := ls_queued s @ [f]\<rparr>)"
| wake: "ls_waking s t \<Longrightarrow>
    loop_step io s (s\<lparr>ls_loop := WakeUpEventFd (ls_loop s), ls_waking := (ls_waking s)(t := False)\<rparr>)"
| poll_wake: "ls_pc s = InPoll \<Longrightarrow> el_eventfd (ls_loop s) \<noteq> 0 \<Longrightarrow> loop_step io s (s\<lparr>ls_pc := ToRead\<rparr>)"
| poll_other: "io \<Longrightarrow> ls_pc s = InPoll \<Longrightarrow> loop_step io s (s\<lparr>ls_pc := ToSwap\<rparr>)"
| read: "ls_pc s = ToRead \<Longrightarrow> ReadEventFd (ls_loop s) = Some l \<Longrightarrow> loop_step io s (s\<lparr>ls_loop := l, ls_pc := ToSwap\<rparr>)"
| swap: "ls_pc s = ToSwap \<Longrightarrow> swap_tasks (ls_loop s) = (fs, l) \<Longrightarrow> loop_step io s (s\<lparr>ls_loop := l, ls_pc := Running fs\<rparr>)"
| run: "ls_pc s = Running (f # fs) \<Longrightarrow> loop_step io s (s\<lparr>ls_pc := Running fs, ls_ran := ls_ran s @ [f]\<rparr>)"
| finish: "ls_pc s = Running [] \<Longrightarrow> loop_step io s (s\<lparr>ls_pc := InPoll\<rparr>)"

definition running :: "('cb, 'g) loop_sys \<Rightarrow> ('cb, 'g) loop_task list" where
  "running s = (case ls_pc s of Running fs \<Rightarrow> fs | _ \<Rightarrow> [])"

text \<open>Nothing lost, duplicated or reordered; a waiting task has woken the loop, will be swapped
  in this round, or its thread is about to wake the loop; the read does not fail.\<close>

definition loop_inv :: "('cb, 'g) loop_sys \<Rightarrow> bool" where
  "loop_inv s \<longleftrightarrow>
     ls_ran s @ running s @ el_tasks (ls_loop s) = ls_queued s \<and>
     (el_tasks (ls_loop s) \<noteq> [] \<longrightarrow>
        el_eventfd (ls_loop s) \<noteq> 0 \<or> ls_pc s = ToSwap \<or> (\<exists>t. ls_waking s t)) \<and>
     (ls_pc s = ToRead \<longrightarrow> el_eventfd (ls_loop s) \<noteq> 0)"

lemma wake_counter: "el_eventfd (WakeUpEventFd l) \<noteq> 0"
proof (cases "el_eventfd l < - 2")
  case True
  then have "el_eventfd l \<noteq> - 1" using word_n1_ge [of "- 2 :: u64"] by auto
  then have "el_eventfd l + 1 \<noteq> 0" by (simp add: eq_neg_iff_add_eq_0)
  then show ?thesis using True by (simp add: WakeUpEventFd_def)
next
  case False
  then show ?thesis by (auto simp: WakeUpEventFd_def word_gt_0)
qed

lemma wake_other [simp]: "el_tasks (WakeUpEventFd l) = el_tasks l" "el_poll (WakeUpEventFd l) = el_poll l"
  by (simp_all add: WakeUpEventFd_def)

lemma loop_inv_start: "el_tasks l = [] \<Longrightarrow> loop_inv (loop_start l)"
  by (simp add: loop_inv_def loop_start_def running_def)

lemma loop_inv_step: "loop_step io s s' \<Longrightarrow> loop_inv s \<Longrightarrow> loop_inv s'"
proof (induction rule: loop_step.induct)
  case (push s t f)
  then show ?case by (auto simp: loop_inv_def running_def push_task_def)
next
  case (wake s t)
  then show ?case using wake_counter [of "ls_loop s"] by (auto simp: loop_inv_def running_def)
next
  case (read s l)
  then show ?case by (auto simp: loop_inv_def running_def ReadEventFd_def split: if_splits)
next
  case (swap s fs l)
  then show ?case by (auto simp: loop_inv_def running_def swap_tasks_def)
qed (auto simp: loop_inv_def running_def)

lemma loop_inv_steps: "(loop_step io)\<^sup>*\<^sup>* s s' \<Longrightarrow> loop_inv s \<Longrightarrow> loop_inv s'"
  by (induction rule: rtranclp_induct) (auto intro: loop_inv_step)

text \<open>A round of the loop thread runs the tasks it has swapped, in order.\<close>

lemma finish_round:
  "ls_pc s = Running fs \<Longrightarrow> (loop_step io)\<^sup>*\<^sup>* s (s\<lparr>ls_pc := InPoll, ls_ran := ls_ran s @ fs\<rparr>)"
proof (induction fs arbitrary: s)
  case Nil
  have "loop_step io s (s\<lparr>ls_pc := InPoll\<rparr>)" by (rule loop_step.finish [OF Nil])
  then show ?case by (simp add: r_into_rtranclp)
next
  case (Cons f fs)
  let ?s = "s\<lparr>ls_pc := Running fs, ls_ran := ls_ran s @ [f]\<rparr>"
  have "loop_step io s ?s" by (rule loop_step.run [OF Cons.prems])
  moreover have "(loop_step io)\<^sup>*\<^sup>* ?s (?s\<lparr>ls_pc := InPoll, ls_ran := ls_ran ?s @ fs\<rparr>)"
    by (rule Cons.IH) simp
  ultimately show ?case by (simp add: converse_rtranclp_into_rtranclp)
qed

lemma swap_round:
  assumes "ls_pc s = ToSwap"
  shows "\<exists>s'. (loop_step io)\<^sup>*\<^sup>* s s' \<and> ls_ran s' = ls_ran s @ el_tasks (ls_loop s)"
proof -
  let ?l = "(ls_loop s)\<lparr>el_tasks := []\<rparr>"
  let ?s = "s\<lparr>ls_loop := ?l, ls_pc := Running (el_tasks (ls_loop s))\<rparr>"
  have "loop_step io s ?s" by (rule loop_step.swap [OF assms]) (simp add: swap_tasks_def)
  moreover have "(loop_step io)\<^sup>*\<^sup>* ?s (?s\<lparr>ls_pc := InPoll, ls_ran := ls_ran ?s @ el_tasks (ls_loop s)\<rparr>)"
    by (rule finish_round) simp
  ultimately show ?thesis
    by (intro exI [of _ "?s\<lparr>ls_pc := InPoll, ls_ran := ls_ran ?s @ el_tasks (ls_loop s)\<rparr>"])
       (simp add: converse_rtranclp_into_rtranclp)
qed

lemma read_round:
  assumes "ls_pc s = ToRead" and "el_eventfd (ls_loop s) \<noteq> 0"
  shows "\<exists>s'. (loop_step io)\<^sup>*\<^sup>* s s' \<and> ls_ran s' = ls_ran s @ el_tasks (ls_loop s)"
proof -
  let ?l = "(ls_loop s)\<lparr>el_eventfd := 0\<rparr>"
  let ?s = "s\<lparr>ls_loop := ?l, ls_pc := ToSwap\<rparr>"
  have "loop_step io s ?s" by (rule loop_step.read [OF assms(1)]) (use assms(2) in \<open>simp add: ReadEventFd_def\<close>)
  moreover obtain s' where "(loop_step io)\<^sup>*\<^sup>* ?s s'" "ls_ran s' = ls_ran s @ el_tasks (ls_loop s)"
    using swap_round [of ?s io] by auto
  ultimately show ?thesis by (meson converse_rtranclp_into_rtranclp)
qed

lemma poll_round:
  assumes "ls_pc s = InPoll" and "loop_inv s" and "\<forall>t. \<not> ls_waking s t"
  shows "\<exists>s'. (loop_step io)\<^sup>*\<^sup>* s s' \<and> ls_ran s' = ls_ran s @ el_tasks (ls_loop s)"
proof (cases "el_tasks (ls_loop s) = []")
  case False
  then have e: "el_eventfd (ls_loop s) \<noteq> 0" using assms by (auto simp: loop_inv_def)
  have "loop_step io s (s\<lparr>ls_pc := ToRead\<rparr>)" by (rule loop_step.poll_wake [OF assms(1) e])
  moreover obtain s' where "(loop_step io)\<^sup>*\<^sup>* (s\<lparr>ls_pc := ToRead\<rparr>) s'" "ls_ran s' = ls_ran s @ el_tasks (ls_loop s)"
    using read_round [of "s\<lparr>ls_pc := ToRead\<rparr>" io] e by auto
  ultimately show ?thesis by (meson converse_rtranclp_into_rtranclp)
qed auto

lemma queue_steps:
  assumes "\<not> ls_waking s t"
  shows "(loop_step io)\<^sup>*\<^sup>* s (s\<lparr>ls_loop := QueueInLoop f (ls_loop s), ls_queued := ls_queued s @ [f]\<rparr>)"
proof -
  let ?s = "s\<lparr>ls_loop := push_task f (ls_loop s), ls_waking := (ls_waking s)(t := True), ls_queued := ls_queued s @ [f]\<rparr>"
  have "loop_step io s ?s" by (rule push [OF assms])
  moreover have "loop_step io ?s (?s\<lparr>ls_loop := WakeUpEventFd (ls_loop ?s), ls_waking := (ls_waking ?s)(t := False)\<rparr>)"
    by (rule wake) simp
  moreover have "?s\<lparr>ls_loop := WakeUpEventFd (ls_loop ?s), ls_waking := (ls_waking ?s)(t := False)\<rparr> =
      s\<lparr>ls_loop := QueueInLoop f (ls_loop s), ls_queued := ls_queued s @ [f]\<rparr>"
    using assms by (cases s) (simp add: QueueInLoop_def fun_upd_idem)
  ultimately show ?thesis by (metis converse_rtranclp_into_rtranclp r_into_rtranclp)
qed

text \<open>
  C11. No task is lost: in every interleaving of the loop thread with threads that queue tasks,
  the tasks run so far, those being run and those in the queue are together exactly the
  queued tasks, each once and in the order they were queued, and the read of the event
  descriptor never fails. A thread that is not yet queueing a task can always execute
  \<open>QueueInLoop\<close> as its two steps. Whenever no thread is between pushing its task and waking the
  loop, the loop thread can run every queued task without any other descriptor becoming
  ready. (Reads and writes of the event descriptor that a signal interrupts, after which the code returns without
  retrying, are left out.)
\<close>

theorem queued_tasks_run:
  assumes "el_tasks l = []" and "(loop_step True)\<^sup>*\<^sup>* (loop_start l) s"
  shows "ls_ran s @ running s @ el_tasks (ls_loop s) = ls_queued s \<and>
    (ls_pc s = ToRead \<longrightarrow> ReadEventFd (ls_loop s) \<noteq> None) \<and>
    (\<forall>t f. \<not> ls_waking s t \<longrightarrow> (loop_step False)\<^sup>*\<^sup>* s (s\<lparr>ls_loop := QueueInLoop f (ls_loop s), ls_queued := ls_queued s @ [f]\<rparr>)) \<and>
    ((\<forall>t. \<not> ls_waking s t) \<longrightarrow> (\<exists>s'. (loop_step False)\<^sup>*\<^sup>* s s' \<and> ls_ran s' = ls_queued s))"
proof -
  have inv: "loop_inv s" by (rule loop_inv_steps [OF assms(2) loop_inv_start [OF assms(1)]])
  have all: "ls_ran s @ running s @ el_tasks (ls_loop s) = ls_queued s" using inv by (simp add: loop_inv_def)
  have "\<exists>s'. (loop_step False)\<^sup>*\<^sup>* s s' \<and> ls_ran s' = ls_queued s" if w: "\<forall>t. \<not> ls_waking s t"
  proof (cases "ls_pc s")
    case InPoll
    then show ?thesis using poll_round [OF InPoll inv w] all by (simp add: running_def)
  next
    case ToRead
    then show ?thesis using read_round [OF ToRead] inv all by (simp add: running_def loop_inv_def)
  next
    case ToSwap
    then show ?thesis using swap_round [OF ToSwap] all by (simp add: running_def)
  next
    case (Running fs)
    let ?s = "s\<lparr>ls_pc := InPoll, ls_ran := ls_ran s @ fs\<rparr>"
    have st: "(loop_step False)\<^sup>*\<^sup>* s ?s" by (rule finish_round [OF Running])
    have "\<exists>s'. (loop_step False)\<^sup>*\<^sup>* ?s s' \<and> ls_ran s' = ls_ran ?s @ el_tasks (ls_loop ?s)"
      using w by (intro poll_round loop_inv_steps [OF st inv]) simp_all
    then show ?thesis using st all Running by (auto simp: running_def intro: rtranclp_trans)
  qed
  with all inv queue_steps show ?thesis by (auto simp: loop_inv_def ReadEventFd_def)
qed

theorem queued_tasks_run_witness:
  "\<exists>s s'. (loop_step True)\<^sup>*\<^sup>* (loop_start (EventLoop_new 0 4 5 :: (nat, nat) EventLoop)) s \<and>
     ls_queued s = [FClient 7] \<and> (loop_step False)\<^sup>*\<^sup>* s s' \<and> ls_ran s' = [FClient 7]"
proof -
  let ?l = "EventLoop_new 0 4 5 :: (nat, nat) EventLoop"
  let ?s0 = "loop_start ?l"
  let ?s1 = "?s0\<lparr>ls_loop := push_task (FClient 7) (ls_loop ?s0), ls_waking := (ls_waking ?s0)(3 := True),
      ls_queued := ls_queued ?s0 @ [FClient 7]\<rparr>"
  let ?s2 = "?s1\<lparr>ls_loop := WakeUpEventFd (ls_loop ?s1), ls_waking := (ls_waking ?s1)(3 := False)\<rparr>"
  have "loop_step True ?s0 ?s1" by (rule loop_step.push) (simp add: loop_start_def)
  moreover have "loop_step True ?s1 ?s2" by (rule loop_step.wake) simp
  ultimately have r: "(loop_step True)\<^sup>*\<^sup>* ?s0 ?s2" by (meson r_into_rtranclp rtranclp.rtrancl_into_rtrancl)
  have e: "el_tasks ?l = []" by (simp add: EventLoop_new_def Let_def)
  have q: "ls_queued ?s2 = [FClient 7]" "\<forall>t. \<not> ls_waking ?s2 t" by (simp_all add: loop_start_def)
  then obtain s' where s': "(loop_step False)\<^sup>*\<^sup>* ?s2 s'" "ls_ran s' = [FClient 7]"
    using queued_tasks_run [OF e r] by metis
  show ?thesis by (rule exI [of _ ?s2], rule exI [of _ s']) (use r s' q(1) in blast)
qed

end
