(* ===== verification/Socket.thy ===== *)
theory Socket
  imports Prelude Reactor
begin

text \<open>
  The class \<open>Socket\<close> and the class \<open>Acceptor\<close> of \<open>src/http-v1/source/server.hpp\<close>. A system call is
  its outcome, \<open>Ok\<close> with what it returns or \<open>Fail\<close> with \<open>errno\<close>; the outcomes are arguments of
  the operations, so that every theorem holds for every behaviour of the kernel. The calls
  made are recorded in order. A loop over a system call consumes a list of outcomes; \<open>None\<close>
  is that it is still waiting for the next one.
\<close>

section \<open>System calls\<close>

datatype errno = EINTR | EAGAIN | EINPROGRESS | EOTHER nat

datatype 'a sys = Ok 'a | Fail errno

datatype sock_call =
  CallSocket
| CallGetFl int
| CallSetNonBlock int
| CallReuseAddr int
| CallReusePort int
| CallBind int nat bytes
| CallListen int nat
| CallConnect int nat bytes
| CallClose int

record sock_results =
  r_socket :: "int sys"
  r_getfl :: "int sys"
  r_bind :: "unit sys"
  r_listen :: "unit sys"
  r_connect :: "unit sys"

section \<open>Socket\<close>

record Socket =
  sock_fd :: int
  sock_calls :: "sock_call list"

definition MAX_LISTEN :: nat where
  "MAX_LISTEN = 20000"

definition Socket_new :: Socket where
  "Socket_new = \<lparr>sock_fd = - 1, sock_calls = []\<rparr>"

definition Socket_of_fd :: "int \<Rightarrow> Socket" where
  "Socket_of_fd fd = \<lparr>sock_fd = fd, sock_calls = []\<rparr>"

definition syscall :: "sock_call \<Rightarrow> Socket \<Rightarrow> Socket" where
  "syscall c s = s\<lparr>sock_calls := sock_calls s @ [c]\<rparr>"

definition is_ok :: "'a sys \<Rightarrow> bool" where
  "is_ok r = (case r of Ok _ \<Rightarrow> True | Fail _ \<Rightarrow> False)"

definition CreateSocket :: "sock_results \<Rightarrow> Socket \<Rightarrow> bool \<times> Socket" where
  "CreateSocket k s =
     (case r_socket k of
        Fail _ \<Rightarrow> (False, syscall CallSocket s)
      | Ok fd \<Rightarrow> (True, (syscall CallSocket s)\<lparr>sock_fd := fd\<rparr>))"

definition Bind :: "sock_results \<Rightarrow> nat \<Rightarrow> bytes \<Rightarrow> Socket \<Rightarrow> bool \<times> Socket" where
  "Bind k port ip s = (is_ok (r_bind k), syscall (CallBind (sock_fd s) port ip) s)"

definition Socket_Listen :: "sock_results \<Rightarrow> nat \<Rightarrow> Socket \<Rightarrow> bool \<times> Socket" where
  "Socket_Listen k backlog s = (is_ok (r_listen k), syscall (CallListen (sock_fd s) backlog) s)"

definition Connect :: "sock_results \<Rightarrow> nat \<Rightarrow> bytes \<Rightarrow> Socket \<Rightarrow> bool \<times> Socket" where
  "Connect k port ip s =
     ((case r_connect k of Ok _ \<Rightarrow> True | Fail e \<Rightarrow> e = EINPROGRESS), syscall (CallConnect (sock_fd s) port ip) s)"

definition ReuseAddress :: "Socket \<Rightarrow> Socket" where
  "ReuseAddress s = syscall (CallReusePort (sock_fd s)) (syscall (CallReuseAddr (sock_fd s)) s)"

definition SetNonBlock :: "sock_results \<Rightarrow> Socket \<Rightarrow> Socket" where
  "SetNonBlock k s =
     (let s1 = syscall (CallGetFl (sock_fd s)) s
      in case r_getfl k of Fail _ \<Rightarrow> s1 | Ok _ \<Rightarrow> syscall (CallSetNonBlock (sock_fd s)) s1)"

definition Socket_Close :: "Socket \<Rightarrow> Socket" where
  "Socket_Close s =
     (if sock_fd s \<noteq> - 1 then (syscall (CallClose (sock_fd s)) s)\<lparr>sock_fd := - 1\<rparr> else s)"

definition Socket_destroy :: "Socket \<Rightarrow> Socket" where
  "Socket_destroy s = (if sock_fd s \<noteq> - 1 then Socket_Close s else s)"

definition CreateServer :: "sock_results \<Rightarrow> nat \<Rightarrow> bytes \<Rightarrow> bool \<Rightarrow> Socket \<Rightarrow> bool \<times> Socket" where
  "CreateServer k port ip isBlock s =
     (let (ok, s1) = CreateSocket k s in
      if \<not> ok then (False, s1)
      else
        let s2 = (if \<not> isBlock then SetNonBlock k s1 else s1);
            s3 = ReuseAddress s2;
            (ok, s4) = Bind k port ip s3 in
        if \<not> ok then (False, s4)
        else
          let (ok, s5) = Socket_Listen k MAX_LISTEN s4 in
          if \<not> ok then (False, s5) else (True, s5))"

definition CreateClient :: "sock_results \<Rightarrow> nat \<Rightarrow> bytes \<Rightarrow> Socket \<Rightarrow> bool \<times> Socket" where
  "CreateClient k port ip s =
     (let (ok, s1) = CreateSocket k s in
      if \<not> ok then (False, s1)
      else let (ok, s2) = Connect k port ip s1 in if \<not> ok then (False, s2) else (True, s2))"

text \<open>\<open>Recv\<close>: the number returned and the bytes stored in the caller's array. \<open>Send\<close>: the number
  returned for the outcome of \<open>send\<close>.\<close>

definition Recv :: "bytes sys \<Rightarrow> int \<times> bytes" where
  "Recv r =
     (case r of
        Fail _ \<Rightarrow> (- 1, [])
      | Ok xs \<Rightarrow> if length xs = 0 then (0, []) else (int (length xs), xs))"

definition NonBlockRecv :: "bytes sys \<Rightarrow> int \<times> bytes" where
  "NonBlockRecv r = Recv r"

definition Socket_Send :: "nat sys \<Rightarrow> int" where
  "Socket_Send r =
     (case r of
        Ok n \<Rightarrow> int n
      | Fail e \<Rightarrow> if e = EAGAIN \<or> e = EINTR then 0 else - 1)"

definition NonBlockSend :: "nat sys \<Rightarrow> int" where
  "NonBlockSend r = Socket_Send r"

text \<open>\<open>Accept\<close>: retried while it is interrupted.\<close>

fun Accept :: "int sys list \<Rightarrow> (int \<times> int sys list) option" where
  "Accept [] = None"
| "Accept (Ok fd # rs) = Some (fd, rs)"
| "Accept (Fail e # rs) = (if e = EINTR then Accept rs else Some (- 1, rs))"

lemma Accept_shorter: "Accept rs = Some (fd, rs') \<Longrightarrow> length rs' < length rs"
  by (induction rs rule: Accept.induct) (auto split: if_splits)

section \<open>Acceptor\<close>

text \<open>\<open>HandleRead\<close>: accepts until there is nothing left to accept.\<close>

function Acceptor_HandleRead :: "(int \<Rightarrow> 's \<Rightarrow> 's option) option \<Rightarrow> int sys list \<Rightarrow> 's \<Rightarrow> ('s \<times> int sys list) option" where
  "Acceptor_HandleRead accept_callback rs s =
     (case Accept rs of
        None \<Rightarrow> None
      | Some (newfd, rs1) \<Rightarrow>
          if newfd < 0 then Some (s, rs1)
          else do {
            s1 \<leftarrow> (case accept_callback of None \<Rightarrow> Some s | Some cb \<Rightarrow> cb newfd s);
            Acceptor_HandleRead accept_callback rs1 s1
          })"
  by pat_completeness auto
termination
  by (relation "measure (\<lambda>(cb, rs, s). length rs)") (auto dest: Accept_shorter)

declare Acceptor_HandleRead.simps [simp del]

definition Acceptor_new :: "sock_results \<Rightarrow> nat \<Rightarrow> nat \<Rightarrow> 'h \<Rightarrow> (Socket \<times> 'h Channel) option" where
  "Acceptor_new k port addr handler =
     (let (ret, s) = CreateServer k port ''0.0.0.0'' False Socket_new
      in if ret then Some (s, Channel_SetReadCallBack handler (Channel_new addr (sock_fd s))) else None)"

definition Acceptor_Listen :: "'h Channel \<times> Poller \<Rightarrow> 'h Channel \<times> Poller" where
  "Acceptor_Listen s = EnableRead s"

section \<open>Properties\<close>

lemma is_ok_simps [simp]: "is_ok (Ok x)" "\<not> is_ok (Fail e)"
  by (simp_all add: is_ok_def)

definition server_calls :: "sock_results \<Rightarrow> int \<Rightarrow> nat \<Rightarrow> bytes \<Rightarrow> sock_call list" where
  "server_calls k fd port ip =
     CallGetFl fd # (if is_ok (r_getfl k) then [CallSetNonBlock fd] else []) @
     [CallReuseAddr fd, CallReusePort fd, CallBind fd port ip] @
     (if is_ok (r_bind k) then [CallListen fd MAX_LISTEN] else [])"

text \<open>
  Creating a listening socket: it succeeds exactly if \<open>socket\<close>, \<open>bind\<close> and \<open>listen\<close> do, the
  calls are made in the order socket, non-blocking mode, address reuse, bind, listen, and stop
  at the first that fails; and closing the socket afterwards, any number of times, closes the
  descriptor exactly once.
\<close>

lemma create_server_calls:
  assumes "r_socket k = Ok fd" and "0 \<le> fd"
  shows "CreateServer k port ip False Socket_new =
           (is_ok (r_bind k) \<and> is_ok (r_listen k), \<lparr>sock_fd = fd, sock_calls = CallSocket # server_calls k fd port ip\<rparr>) \<and>
         (Socket_Close ^^ Suc n) (snd (CreateServer k port ip False Socket_new)) =
           \<lparr>sock_fd = - 1, sock_calls = CallSocket # server_calls k fd port ip @ [CallClose fd]\<rparr>"
proof -
  have 1: "CreateServer k port ip False Socket_new =
      (is_ok (r_bind k) \<and> is_ok (r_listen k), \<lparr>sock_fd = fd, sock_calls = CallSocket # server_calls k fd port ip\<rparr>)"
    using assms(1)
    by (cases "r_getfl k"; cases "r_bind k"; cases "r_listen k")
       (simp_all add: CreateServer_def CreateSocket_def SetNonBlock_def ReuseAddress_def Bind_def Socket_Listen_def
         server_calls_def syscall_def Socket_new_def)
  have idem: "(Socket_Close ^^ n) s = s" if "sock_fd s = - 1" for s :: Socket and n
    using that by (induction n) (simp_all add: Socket_Close_def)
  show ?thesis
    using assms(2) 1 by (simp add: funpow_Suc_right Socket_Close_def syscall_def idem del: funpow.simps)
qed

text \<open>The descriptors accepted before the first real failure.\<close>

fun accepted_fds :: "int sys list \<Rightarrow> int list" where
  "accepted_fds [] = []"
| "accepted_fds (Ok fd # rs) = fd # accepted_fds rs"
| "accepted_fds (Fail e # rs) = (if e = EINTR then accepted_fds rs else [])"

definition stops :: "int sys list \<Rightarrow> bool" where
  "stops rs = list_ex (\<lambda>r. case r of Ok _ \<Rightarrow> False | Fail e \<Rightarrow> e \<noteq> EINTR) rs"

definition valid_fds :: "int sys list \<Rightarrow> bool" where
  "valid_fds rs = list_all (\<lambda>r. case r of Ok fd \<Rightarrow> 0 \<le> fd | Fail _ \<Rightarrow> True) rs"

text \<open>
  Accepting: once the listening socket has nothing left (an outcome other than an
  interruption), one readiness event hands every accepted descriptor to the callback, in order,
  none skipped because of interrupted calls, and returns.
\<close>

lemma accept_loop_delivers:
  assumes "stops rs" and "valid_fds rs"
  shows "map_option fst (Acceptor_HandleRead (Some cb) rs s) = run_all cb (accepted_fds rs) s"
  using assms
proof (induction rs arbitrary: s rule: accepted_fds.induct)
  case (2 fd rs)
  then show ?case
    by (subst Acceptor_HandleRead.simps) (cases "cb fd s"; simp add: stops_def valid_fds_def)
next
  case (3 e rs)
  show ?case
  proof (cases "e = EINTR")
    case True
    have "Acceptor_HandleRead (Some cb) (Fail EINTR # rs) s = Acceptor_HandleRead (Some cb) rs s"
      by (simp add: Acceptor_HandleRead.simps [of _ rs] Acceptor_HandleRead.simps [of _ "Fail EINTR # rs"])
    then show ?thesis using 3 True by (simp add: stops_def valid_fds_def)
  next
    case False
    then show ?thesis by (simp add: Acceptor_HandleRead.simps)
  qed
qed (simp add: stops_def)

end
