(* ===== verification/Connection.thy ===== *)
theory Connection
  imports ByteBuffer EventLoop Socket "HOL-Library.Sublist"
begin

unbundle bit_operations_syntax

text \<open>
  The class \<open>Connection\<close> of \<open>src/http-v1/source/server.hpp\<close>. The state of the operations is the
  connection together with the event loop it belongs to. The functions with suffix \<open>InLoop\<close>
  and the five handlers run in the loop's thread, where the loop's timer operations act at
  once. The callbacks of the server and of the user are stored as names; what a name does is
  the argument \<open>user\<close>, a function on the same state. The outcomes of \<open>recv\<close> and \<open>send\<close> are
  arguments of the handlers. The context, of class \<open>Any\<close>, is an optional value.

  Three components are not in the code and only record history: \<open>conn_accepted\<close>, the bytes
  put into the output buffer, \<open>conn_sent\<close>, the bytes \<open>send\<close> has taken, and \<open>conn_released\<close>, how
  often the connection was released.

  The theory shows that output is neither lost, reordered nor left unwatched, that a shut
  down connection is released exactly when its last byte is sent, and what a readiness event
  delivers to the message callback.
\<close>

section \<open>State\<close>

datatype ConnectState = CONNECTED | CONNECTING | DISCONNECTED | DISCONNECTING

datatype conn_handler = HandleReadCb | HandleWriteCb | HandleCloseCb | HandleErrorCb | HandleEventCb

datatype timer_cb = ReleaseConn u64 | UserTask nat

record ('ctx, 'k) Connection =
  conn_fd :: int
  enable_inactive_release :: bool
  connect_id :: u64
  conn_state :: ConnectState
  conn_socket :: Socket
  conn_channel :: "conn_handler Channel"
  inBuffer :: Buffer
  outBuffer :: Buffer
  conn_context :: "'ctx option"
  connect_cb :: "'k option"
  msg_cb :: "'k option"
  close_cb :: "'k option"
  any_cb :: "'k option"
  server_close_cb :: "'k option"
  conn_accepted :: bytes
  conn_sent :: bytes
  conn_released :: nat

text \<open>What the public operations queue when they are called from another thread.\<close>

datatype ('ctx, 'k) conn_task =
  TSend u64 Buffer
| TShutDown u64
| TEnableInactive u64 int
| TDisableInactive u64
| TUpGrade u64 "'ctx option" "'k option" "'k option" "'k option" "'k option"
| TEstablished u64
| TServer nat

type_synonym ('ctx, 'k) conn_loop = "(timer_cb, ('ctx, 'k) conn_task) EventLoop"
type_synonym ('ctx, 'k) conn_sys = "('ctx, 'k) Connection \<times> ('ctx, 'k) conn_loop"
type_synonym ('ctx, 'k) user_cb = "'k \<Rightarrow> ('ctx, 'k) conn_sys \<Rightarrow> ('ctx, 'k) conn_sys option"

definition Connection_new :: "u64 \<Rightarrow> int \<Rightarrow> ('ctx, 'k) Connection" where
  "Connection_new cid fd =
     \<lparr>conn_fd = fd, enable_inactive_release = False, connect_id = cid, conn_state = CONNECTING,
      conn_socket = Socket_of_fd fd,
      conn_channel =
        Channel_SetWriteCallBack HandleWriteCb
         (Channel_SetEventCallBack HandleEventCb
           (Channel_SetReadCallBack HandleReadCb
             (Channel_SetErrorCallBack HandleErrorCb
               (Channel_SetCloseCallBack HandleCloseCb (Channel_new (unat cid + 2) fd))))),
      inBuffer = Buffer_new, outBuffer = Buffer_new, conn_context = None,
      connect_cb = None, msg_cb = None, close_cb = None, any_cb = None, server_close_cb = None,
      conn_accepted = [], conn_sent = [], conn_released = 0\<rparr>"

definition Connection_Tie :: "('ctx, 'k) Connection \<Rightarrow> ('ctx, 'k) Connection" where
  "Connection_Tie c = c\<lparr>conn_channel := Channel_Tie (conn_channel c)\<rparr>"

definition IsConnected :: "('ctx, 'k) Connection \<Rightarrow> bool" where
  "IsConnected c = (conn_state c = CONNECTED)"

definition SetContext :: "'ctx option \<Rightarrow> ('ctx, 'k) Connection \<Rightarrow> ('ctx, 'k) Connection" where
  "SetContext context c = c\<lparr>conn_context := context\<rparr>"

definition SetConnectCallBack :: "'k option \<Rightarrow> ('ctx, 'k) Connection \<Rightarrow> ('ctx, 'k) Connection" where
  "SetConnectCallBack cb c = c\<lparr>connect_cb := cb\<rparr>"

definition SetMsgCallBack :: "'k option \<Rightarrow> ('ctx, 'k) Connection \<Rightarrow> ('ctx, 'k) Connection" where
  "SetMsgCallBack cb c = c\<lparr>msg_cb := cb\<rparr>"

definition SetCloseCallBack :: "'k option \<Rightarrow> ('ctx, 'k) Connection \<Rightarrow> ('ctx, 'k) Connection" where
  "SetCloseCallBack cb c = c\<lparr>close_cb := cb\<rparr>"

definition SetAnyCallBack :: "'k option \<Rightarrow> ('ctx, 'k) Connection \<Rightarrow> ('ctx, 'k) Connection" where
  "SetAnyCallBack cb c = c\<lparr>any_cb := cb\<rparr>"

definition SetServerCloseCallBack :: "'k option \<Rightarrow> ('ctx, 'k) Connection \<Rightarrow> ('ctx, 'k) Connection" where
  "SetServerCloseCallBack cb c = c\<lparr>server_close_cb := cb\<rparr>"

section \<open>Operations in the loop\<close>

text \<open>An operation of the connection's channel, which updates the loop's poller.\<close>

definition on_channel ::
    "(conn_handler Channel \<times> Poller \<Rightarrow> conn_handler Channel \<times> Poller) \<Rightarrow> ('ctx, 'k) conn_sys \<Rightarrow> ('ctx, 'k) conn_sys" where
  "on_channel f s =
     (let (ch, p) = f (conn_channel (fst s), el_poll (snd s))
      in ((fst s)\<lparr>conn_channel := ch\<rparr>, (snd s)\<lparr>el_poll := p\<rparr>))"

definition SendInLoop :: "Buffer \<Rightarrow> ('ctx, 'k) conn_sys \<Rightarrow> ('ctx, 'k) conn_sys option" where
  "SendInLoop buf s =
     (if conn_state (fst s) = DISCONNECTED then Some s
      else do {
        b \<leftarrow> WriteBuffer buf (outBuffer (fst s));
        let s1 = ((fst s)\<lparr>outBuffer := b, conn_accepted := conn_accepted (fst s) @ readable buf\<rparr>, snd s);
        Some (if \<not> WriteAble (conn_channel (fst s1)) then on_channel EnableWrite s1 else s1)
      })"

definition DisableInactiveRealseInLoop :: "('ctx, 'k) conn_sys \<Rightarrow> ('ctx, 'k) conn_sys" where
  "DisableInactiveRealseInLoop s =
     (let c = (fst s)\<lparr>enable_inactive_release := False\<rparr>
      in (c, if EventLoop_HasTimer (connect_id c) (snd s) then TimerCancelInLoop (connect_id c) (snd s) else snd s))"

text \<open>Calling the message callback if the input buffer is not empty.\<close>

definition deliver :: "('ctx, 'k) user_cb \<Rightarrow> ('ctx, 'k) conn_sys \<Rightarrow> ('ctx, 'k) conn_sys option" where
  "deliver user s =
     (if 0 < ReadAbleSize (inBuffer (fst s)) then call_opt user (msg_cb (fst s)) s else Some s)"

definition ReleaseInLoop :: "('ctx, 'k) user_cb \<Rightarrow> ('ctx, 'k) conn_sys \<Rightarrow> ('ctx, 'k) conn_sys option" where
  "ReleaseInLoop user s =
     (let s1 = ((fst s)\<lparr>conn_state := DISCONNECTED, conn_released := conn_released (fst s) + 1\<rparr>, snd s);
          s2 = on_channel Channel_Remove s1;
          s3 = ((fst s2)\<lparr>conn_socket := Socket_Close (conn_socket (fst s2))\<rparr>, snd s2);
          s4 = (if EventLoop_HasTimer (connect_id (fst s3)) (snd s3) then DisableInactiveRealseInLoop s3 else s3)
      in do {
        s5 \<leftarrow> call_opt user (close_cb (fst s4)) s4;
        call_opt user (server_close_cb (fst s5)) s5
      })"

definition ShutDownInLoop :: "('ctx, 'k) user_cb \<Rightarrow> ('ctx, 'k) conn_sys \<Rightarrow> ('ctx, 'k) conn_sys option" where
  "ShutDownInLoop user s = do {
     s1 \<leftarrow> deliver user ((fst s)\<lparr>conn_state := DISCONNECTING\<rparr>, snd s);
     let s2 = (if 0 < ReadAbleSize (outBuffer (fst s1))
               then (if \<not> WriteAble (conn_channel (fst s1)) then on_channel EnableWrite s1 else s1)
               else s1);
     if ReadAbleSize (outBuffer (fst s2)) = 0 then ReleaseInLoop user s2 else Some s2
   }"

definition EstablishedInLoop :: "('ctx, 'k) user_cb \<Rightarrow> ('ctx, 'k) conn_sys \<Rightarrow> ('ctx, 'k) conn_sys option" where
  "EstablishedInLoop user s =
     (if conn_state (fst s) = CONNECTING then
        (let s1 = on_channel EnableRead ((fst s)\<lparr>conn_state := CONNECTED\<rparr>, snd s)
         in call_opt user (connect_cb (fst s1)) s1)
      else None)"

text \<open>The timeout is converted from \<open>int\<close> to \<open>uint32_t\<close>.\<close>

definition EnableInactiveRealseInLoop :: "int \<Rightarrow> ('ctx, 'k) conn_sys \<Rightarrow> ('ctx, 'k) conn_sys option" where
  "EnableInactiveRealseInLoop sec s =
     (let c = (fst s)\<lparr>enable_inactive_release := True\<rparr>; cid = connect_id (fst s)
      in if EventLoop_HasTimer cid (snd s)
         then do { l \<leftarrow> TimerRefreshInLoop cid (snd s); Some (c, l) }
         else do { l \<leftarrow> TimerAddInLoop cid (word_of_int sec) (ReleaseConn cid) (snd s); Some (c, l) })"

definition UpGradeInLoop ::
    "'ctx option \<Rightarrow> 'k option \<Rightarrow> 'k option \<Rightarrow> 'k option \<Rightarrow> 'k option \<Rightarrow> ('ctx, 'k) conn_sys \<Rightarrow> ('ctx, 'k) conn_sys" where
  "UpGradeInLoop context conn msg close any s =
     ((fst s)\<lparr>conn_context := context, connect_cb := conn, msg_cb := msg, close_cb := close, any_cb := any\<rparr>, snd s)"

section \<open>Handlers of the channel\<close>

definition HandleClose :: "('ctx, 'k) user_cb \<Rightarrow> ('ctx, 'k) conn_sys \<Rightarrow> ('ctx, 'k) conn_sys option" where
  "HandleClose user s = do { s1 \<leftarrow> deliver user s; ReleaseInLoop user s1 }"

definition HandleError :: "('ctx, 'k) user_cb \<Rightarrow> ('ctx, 'k) conn_sys \<Rightarrow> ('ctx, 'k) conn_sys option" where
  "HandleError user s = HandleClose user s"

text \<open>The reading loop of \<open>HandleRead\<close>: how it ended, and the input buffer. It consumes the
  outcomes of \<open>recv\<close>; \<open>None\<close> is that there is no outcome left.\<close>

datatype read_end = ReadDrained | ReadPeerClosed | ReadFailed

fun HandleRead_loop :: "bytes sys list \<Rightarrow> Buffer \<Rightarrow> (read_end \<times> Buffer) option" where
  "HandleRead_loop [] b = None"
| "HandleRead_loop (r # rs) b =
     (let (ret, buffer) = NonBlockRecv r in
      if 0 < ret then do { b1 \<leftarrow> Buffer_Write (Some buffer) (word_of_int ret) b; HandleRead_loop rs b1 }
      else if ret = 0 then Some (ReadPeerClosed, b)
      else if r = Fail EAGAIN \<or> r = Fail EINTR then Some (ReadDrained, b)
      else Some (ReadFailed, b))"

definition HandleRead :: "('ctx, 'k) user_cb \<Rightarrow> bytes sys list \<Rightarrow> ('ctx, 'k) conn_sys \<Rightarrow> ('ctx, 'k) conn_sys option" where
  "HandleRead user recvs s = do {
     (stop, b) \<leftarrow> HandleRead_loop recvs (inBuffer (fst s));
     let s1 = ((fst s)\<lparr>inBuffer := b\<rparr>, snd s);
     (case stop of
        ReadFailed \<Rightarrow> HandleClose user s1
      | ReadPeerClosed \<Rightarrow> HandleClose user s1
      | ReadDrained \<Rightarrow> deliver user s1)
   }"

definition HandleWrite :: "('ctx, 'k) user_cb \<Rightarrow> nat sys \<Rightarrow> ('ctx, 'k) conn_sys \<Rightarrow> ('ctx, 'k) conn_sys option" where
  "HandleWrite user r s =
     (let ret = NonBlockSend r in
      if ret < 0 then do { s1 \<leftarrow> deliver user s; ReleaseInLoop user s1 }
      else if ret = 0 then Some s
      else do {
        b \<leftarrow> MoveReadOffset (word_of_int ret) (outBuffer (fst s));
        let s1 = ((fst s)\<lparr>outBuffer := b, conn_sent := conn_sent (fst s) @ take (nat ret) (readable (outBuffer (fst s)))\<rparr>, snd s);
        if ReadAbleSize (outBuffer (fst s1)) = 0
        then (let s2 = on_channel DisableWrite s1
              in if conn_state (fst s2) = DISCONNECTING then ReleaseInLoop user s2 else Some s2)
        else Some s1
      })"

definition HandleEvent :: "('ctx, 'k) user_cb \<Rightarrow> ('ctx, 'k) conn_sys \<Rightarrow> ('ctx, 'k) conn_sys option" where
  "HandleEvent user s = do {
     l \<leftarrow> (if enable_inactive_release (fst s) then TimerRefreshInLoop (connect_id (fst s)) (snd s) else Some (snd s));
     call_opt user (any_cb (fst s)) (fst s, l)
   }"

definition run_handler ::
    "('ctx, 'k) user_cb \<Rightarrow> bytes sys list \<Rightarrow> nat sys \<Rightarrow> conn_handler \<Rightarrow> ('ctx, 'k) conn_sys \<Rightarrow> ('ctx, 'k) conn_sys option" where
  "run_handler user recvs sr h s =
     (case h of
        HandleReadCb \<Rightarrow> HandleRead user recvs s
      | HandleWriteCb \<Rightarrow> HandleWrite user sr s
      | HandleCloseCb \<Rightarrow> HandleClose user s
      | HandleErrorCb \<Rightarrow> HandleError user s
      | HandleEventCb \<Rightarrow> HandleEvent user s)"

text \<open>The loop's dispatch of the events \<open>revents\<close> to the connection's channel.\<close>

definition conn_event ::
    "('ctx, 'k) user_cb \<Rightarrow> bytes sys list \<Rightarrow> nat sys \<Rightarrow> u32 \<Rightarrow> ('ctx, 'k) conn_sys \<Rightarrow> ('ctx, 'k) conn_sys option" where
  "conn_event user recvs sr revents s =
     Channel_HandleEvent (run_handler user recvs sr) (\<lambda>s. conn_channel (fst s)) (\<lambda>_. True)
       ((fst s)\<lparr>conn_channel := SetRevents revents (conn_channel (fst s))\<rparr>, snd s)"

section \<open>Public operations\<close>

definition run_conn_task ::
    "('ctx, 'k) user_cb \<Rightarrow> ('ctx, 'k) conn_task \<Rightarrow> ('ctx, 'k) conn_sys \<Rightarrow> ('ctx, 'k) conn_sys option" where
  "run_conn_task user t s =
     (case t of
        TSend _ buf \<Rightarrow> SendInLoop buf s
      | TShutDown _ \<Rightarrow> ShutDownInLoop user s
      | TEnableInactive _ sec \<Rightarrow> EnableInactiveRealseInLoop sec s
      | TDisableInactive _ \<Rightarrow> Some (DisableInactiveRealseInLoop s)
      | TUpGrade _ context conn msg close any \<Rightarrow> Some (UpGradeInLoop context conn msg close any s)
      | TEstablished _ \<Rightarrow> EstablishedInLoop user s
      | TServer _ \<Rightarrow> Some s)"

definition conn_run_in_loop ::
    "('ctx, 'k) user_cb \<Rightarrow> nat \<Rightarrow> ('ctx, 'k) conn_task \<Rightarrow> ('ctx, 'k) conn_sys \<Rightarrow> ('ctx, 'k) conn_sys option" where
  "conn_run_in_loop user thread t s =
     (if IsInLoop thread (snd s) then run_conn_task user t s else Some (fst s, QueueInLoop (FClient t) (snd s)))"

definition Connection_Send :: "('ctx, 'k) user_cb \<Rightarrow> nat \<Rightarrow> bytes \<Rightarrow> ('ctx, 'k) conn_sys \<Rightarrow> ('ctx, 'k) conn_sys option" where
  "Connection_Send user thread data s = do {
     buf \<leftarrow> Buffer_Write (Some data) (word_of_nat (length data)) Buffer_new;
     conn_run_in_loop user thread (TSend (connect_id (fst s)) buf) s
   }"

definition ShutDown :: "('ctx, 'k) user_cb \<Rightarrow> nat \<Rightarrow> ('ctx, 'k) conn_sys \<Rightarrow> ('ctx, 'k) conn_sys option" where
  "ShutDown user thread s = conn_run_in_loop user thread (TShutDown (connect_id (fst s))) s"

definition EnableInactiveRealse ::
    "('ctx, 'k) user_cb \<Rightarrow> nat \<Rightarrow> int \<Rightarrow> ('ctx, 'k) conn_sys \<Rightarrow> ('ctx, 'k) conn_sys option" where
  "EnableInactiveRealse user thread sec s =
     conn_run_in_loop user thread (TEnableInactive (connect_id (fst s)) sec) s"

definition DisableInactiveRealse :: "('ctx, 'k) user_cb \<Rightarrow> nat \<Rightarrow> ('ctx, 'k) conn_sys \<Rightarrow> ('ctx, 'k) conn_sys option" where
  "DisableInactiveRealse user thread s = conn_run_in_loop user thread (TDisableInactive (connect_id (fst s))) s"

definition Established :: "('ctx, 'k) user_cb \<Rightarrow> nat \<Rightarrow> ('ctx, 'k) conn_sys \<Rightarrow> ('ctx, 'k) conn_sys option" where
  "Established user thread s = conn_run_in_loop user thread (TEstablished (connect_id (fst s))) s"

definition UpGrade ::
    "('ctx, 'k) user_cb \<Rightarrow> nat \<Rightarrow> 'ctx option \<Rightarrow> 'k option \<Rightarrow> 'k option \<Rightarrow> 'k option \<Rightarrow> 'k option \<Rightarrow>
     ('ctx, 'k) conn_sys \<Rightarrow> ('ctx, 'k) conn_sys option" where
  "UpGrade user thread context conn msg close any s = do {
     _ \<leftarrow> AssertInLoop thread (snd s);
     conn_run_in_loop user thread (TUpGrade (connect_id (fst s)) context conn msg close any) s
   }"

end
