(* ===== verification/ConnectionSafety.thy ===== *)
theory ConnectionSafety
  imports Connection
begin

unbundle bit_operations_syntax

text \<open>
  Properties of \<open>Connection\<close>: an invariant that every operation and handler keeps as long as the
  callbacks do (the locale \<open>conn_client\<close>), and what follows from it for the bytes of the
  connection, its event mask and its release.
\<close>

section \<open>Event masks\<close>

lemma mask_simps:
  "(x OR EPOLLOUT) AND EPOLLOUT \<noteq> 0" "(x OR EPOLLIN) AND EPOLLOUT = x AND EPOLLOUT"
  "EPOLLOUT \<noteq> 0"
  by (simp_all add: epoll_flags bit.conj_disj_distrib2 or_eq_0_iff)

section \<open>The invariant\<close>

text \<open>The bytes sent and the bytes pending are the bytes accepted; as long as the connection has
  not been released its descriptor is open and watched with the channel's mask, and pending
  output is watched.\<close>

definition conn_ok :: "('ctx, 'k) conn_sys \<Rightarrow> bool" where
  "conn_ok s \<longleftrightarrow>
     (let c = fst s; p = el_poll (snd s) in
       buffer_inv (inBuffer c) \<and> buffer_inv (outBuffer c) \<and> poller_inv p \<and>
       conn_sent c @ readable (outBuffer c) = conn_accepted c \<and>
       ch_fd (conn_channel c) = conn_fd c \<and>
       (if conn_released c = 0
        then watched p (conn_fd c) = ch_events (conn_channel c) \<and>
             (readable (outBuffer c) \<noteq> [] \<longrightarrow> WriteAble (conn_channel c)) \<and>
             conn_state c \<noteq> DISCONNECTED \<and> sock_fd (conn_socket c) = conn_fd c
        else sock_fd (conn_socket c) = - 1))"

text \<open>How a connection may change.\<close>

definition conn_le :: "('ctx, 'k) conn_sys \<Rightarrow> ('ctx, 'k) conn_sys \<Rightarrow> bool" where
  "conn_le s s' \<longleftrightarrow>
     prefix (conn_accepted (fst s)) (conn_accepted (fst s')) \<and> prefix (conn_sent (fst s)) (conn_sent (fst s')) \<and>
     conn_released (fst s) \<le> conn_released (fst s') \<and> conn_fd (fst s') = conn_fd (fst s) \<and>
     connect_id (fst s') = connect_id (fst s)"

definition conn_keeps :: "('ctx, 'k) conn_sys \<Rightarrow> ('ctx, 'k) conn_sys option \<Rightarrow> bool" where
  "conn_keeps s r \<longleftrightarrow> (\<forall>s'. r = Some s' \<longrightarrow> conn_ok s' \<and> conn_le s s')"

lemma conn_le_refl [simp]: "conn_le s s"
  by (simp add: conn_le_def)

lemma conn_le_trans: "conn_le s t \<Longrightarrow> conn_le t u \<Longrightarrow> conn_le s u"
  unfolding conn_le_def using prefix_order.order_trans by fastforce

lemma keeps_Some [simp]: "conn_keeps s (Some s') \<longleftrightarrow> conn_ok s' \<and> conn_le s s'"
  by (simp add: conn_keeps_def)

lemma keeps_None [simp]: "conn_keeps s None"
  by (simp add: conn_keeps_def)

lemma keeps_bind:
  assumes "conn_keeps s r" and "\<And>t. conn_ok t \<Longrightarrow> conn_le s t \<Longrightarrow> conn_keeps t (f t)"
  shows "conn_keeps s (r \<bind> f)"
proof (cases r)
  case (Some t)
  then have t: "conn_ok t" "conn_le s t" using assms(1) by simp_all
  show ?thesis
    using assms(2) [OF t] t(2) Some conn_le_trans unfolding conn_keeps_def by fastforce
qed simp

lemma keeps_from: "conn_keeps t r \<Longrightarrow> conn_le s t \<Longrightarrow> conn_keeps s r"
  unfolding conn_keeps_def using conn_le_trans by blast

lemma conn_ok_new:
  assumes "poller_inv (el_poll l)" and "watched (el_poll l) fd = 0"
  shows "conn_ok (Connection_new cid fd, l)"
  using assms
  by (simp add: conn_ok_def Connection_new_def Channel_new_def Channel_SetReadCallBack_def
      Channel_SetWriteCallBack_def Channel_SetErrorCallBack_def Channel_SetCloseCallBack_def
      Channel_SetEventCallBack_def Socket_of_fd_def)

section \<open>Operations that call no callback\<close>

lemma on_channel_simps [simp]:
  "fst (on_channel f s) = (fst s)\<lparr>conn_channel := fst (f (conn_channel (fst s), el_poll (snd s)))\<rparr>"
  "snd (on_channel f s) = (snd s)\<lparr>el_poll := snd (f (conn_channel (fst s), el_poll (snd s)))\<rparr>"
  by (simp_all add: on_channel_def split_def Let_def)

lemma channel_op_simps [simp]:
  "fst (EnableWrite (ch, p)) = ch\<lparr>ch_events := ch_events ch OR EPOLLOUT\<rparr>"
  "fst (EnableRead (ch, p)) = ch\<lparr>ch_events := ch_events ch OR EPOLLIN\<rparr>"
  "fst (DisableWrite (ch, p)) = ch\<lparr>ch_events := ch_events ch AND NOT EPOLLOUT\<rparr>"
  "fst (Channel_Remove (ch, p)) = ch"
  by (simp_all add: EnableWrite_def EnableRead_def DisableWrite_def Channel_Remove_def Channel_Update_def)

lemma EnableWrite_keeps:
  assumes "buffer_inv (inBuffer (fst s))" "buffer_inv (outBuffer (fst s))" "poller_inv (el_poll (snd s))"
    "conn_sent (fst s) @ readable (outBuffer (fst s)) = conn_accepted (fst s)"
    "ch_fd (conn_channel (fst s)) = conn_fd (fst s)"
    "if conn_released (fst s) = 0
     then conn_state (fst s) \<noteq> DISCONNECTED \<and> sock_fd (conn_socket (fst s)) = conn_fd (fst s)
     else sock_fd (conn_socket (fst s)) = - 1"
  shows "conn_ok (on_channel EnableWrite s)"
  using assms by (simp add: conn_ok_def Let_def channel_ops_ok WriteAble_def mask_simps)

lemma SendInLoop_keeps:
  assumes "conn_ok s" and "buffer_inv buf"
  shows "conn_keeps s (SendInLoop buf s)"
proof (cases "conn_state (fst s) = DISCONNECTED")
  case True
  then show ?thesis using assms(1) by (simp add: SendInLoop_def)
next
  case False
  show ?thesis
  proof (cases "WriteBuffer buf (outBuffer (fst s))")
    case None
    then show ?thesis using False by (simp add: SendInLoop_def)
  next
    case (Some b)
    have b: "buffer_inv b" "readable b = readable (outBuffer (fst s)) @ readable buf"
      using WriteBuffer_SomeD [OF _ assms(2) Some] assms(1) by (simp_all add: conn_ok_def Let_def)
    let ?s = "((fst s)\<lparr>outBuffer := b, conn_accepted := conn_accepted (fst s) @ readable buf\<rparr>, snd s)"
    have "conn_ok (if \<not> WriteAble (conn_channel (fst s)) then on_channel EnableWrite ?s else ?s)"
    proof (cases "WriteAble (conn_channel (fst s))")
      case True
      then show ?thesis using assms(1) b by (auto simp: conn_ok_def Let_def)
    next
      case w: False
      have "conn_ok (on_channel EnableWrite ?s)"
        by (rule EnableWrite_keeps) (use assms(1) b False in \<open>auto simp: conn_ok_def Let_def\<close>)
      then show ?thesis using w by simp
    qed
    then show ?thesis using False Some by (auto simp: SendInLoop_def Let_def conn_le_def)
  qed
qed

lemma DisableInactive_keeps:
  assumes "conn_ok s"
  shows "conn_ok (DisableInactiveRealseInLoop s)" "conn_le s (DisableInactiveRealseInLoop s)"
proof -
  have "el_poll (TimerCancelInLoop tid (snd s)) = el_poll (snd s)" for tid
    by (auto simp: TimerCancelInLoop_def split: option.splits)
  then show "conn_ok (DisableInactiveRealseInLoop s)" "conn_le s (DisableInactiveRealseInLoop s)"
    using assms by (auto simp: DisableInactiveRealseInLoop_def conn_ok_def conn_le_def Let_def)
qed

text \<open>The state in which the callbacks of a release run.\<close>

definition released_state :: "('ctx, 'k) conn_sys \<Rightarrow> ('ctx, 'k) conn_sys" where
  "released_state s =
     (let s1 = ((fst s)\<lparr>conn_state := DISCONNECTED, conn_released := conn_released (fst s) + 1\<rparr>, snd s);
          s2 = on_channel Channel_Remove s1;
          s3 = ((fst s2)\<lparr>conn_socket := Socket_Close (conn_socket (fst s2))\<rparr>, snd s2)
      in (if EventLoop_HasTimer (connect_id (fst s3)) (snd s3) then DisableInactiveRealseInLoop s3 else s3))"

lemma ReleaseInLoop_alt:
  "ReleaseInLoop user s = do {
     s5 \<leftarrow> call_opt user (close_cb (fst (released_state s))) (released_state s);
     call_opt user (server_close_cb (fst s5)) s5 }"
  by (simp add: ReleaseInLoop_def released_state_def Let_def)

lemma sock_fd_closed [simp]: "sock_fd (Socket_Close s) = - 1"
  by (simp add: Socket_Close_def)

lemma released_state_ok:
  assumes "conn_ok s"
  shows "conn_ok (released_state s)" "conn_le s (released_state s)"
    "conn_state (fst (released_state s)) = DISCONNECTED"
    "conn_released (fst (released_state s)) = conn_released (fst s) + 1"
    "watched (el_poll (snd (released_state s))) (conn_fd (fst s)) = 0"
proof -
  let ?s3 = "(let s1 = ((fst s)\<lparr>conn_state := DISCONNECTED, conn_released := conn_released (fst s) + 1\<rparr>, snd s);
          s2 = on_channel Channel_Remove s1
      in ((fst s2)\<lparr>conn_socket := Socket_Close (conn_socket (fst s2))\<rparr>, snd s2))"
  have ok: "conn_ok ?s3" "conn_le s ?s3"
    using assms by (auto simp: conn_ok_def conn_le_def Let_def channel_ops_ok)
  have c: "el_poll (TimerCancelInLoop tid l) = el_poll l" for tid and l :: "('c, 'd) conn_loop"
    by (auto simp: TimerCancelInLoop_def split: option.splits)
  show "conn_ok (released_state s)"
    using ok(1) DisableInactive_keeps(1) [OF ok(1)] by (simp add: released_state_def Let_def)
  show "conn_le s (released_state s)"
    using ok DisableInactive_keeps(2) [OF ok(1)] conn_le_trans [OF ok(2)]
    by (simp add: released_state_def Let_def)
  show "conn_state (fst (released_state s)) = DISCONNECTED"
    "conn_released (fst (released_state s)) = conn_released (fst s) + 1"
    by (simp_all add: released_state_def Let_def DisableInactiveRealseInLoop_def)
  show "watched (el_poll (snd (released_state s))) (conn_fd (fst s)) = 0"
    using assms by (simp add: released_state_def Let_def DisableInactiveRealseInLoop_def c conn_ok_def channel_ops_ok)
qed

text \<open>Taking all pending output.\<close>

lemma drained_ok:
  assumes "conn_ok s" and "buffer_inv b" and "readable b = []"
  shows "conn_ok (on_channel DisableWrite
    ((fst s)\<lparr>outBuffer := b, conn_sent := conn_sent (fst s) @ readable (outBuffer (fst s))\<rparr>, snd s))"
  using assms by (auto simp: conn_ok_def Let_def channel_ops_ok split: if_splits)

lemma ReleaseInLoop_returns:
  assumes "\<And>k s. user k s \<noteq> None"
  shows "ReleaseInLoop user s \<noteq> None"
proof -
  have c: "call_opt user cb x \<noteq> None" for cb x using assms by (cases cb) (simp_all add: call_opt_def)
  then obtain y where "call_opt user (close_cb (fst (released_state s))) (released_state s) = Some y" by blast
  with c show ?thesis by (simp add: ReleaseInLoop_alt)
qed

section \<open>The reading loop\<close>

definition valid_recv :: "bytes sys \<Rightarrow> bool" where
  "valid_recv r = (case r of Ok xs \<Rightarrow> length xs \<le> 65535 | Fail _ \<Rightarrow> True)"

definition valid_send :: "nat sys \<Rightarrow> bool" where
  "valid_send r = (case r of Ok n \<Rightarrow> n < 2 ^ 63 | Fail _ \<Rightarrow> True)"

text \<open>The bytes received, and how the reading ends.\<close>

fun received :: "bytes sys list \<Rightarrow> bytes" where
  "received [] = []"
| "received (Ok xs # rs) = (if xs = [] then [] else xs @ received rs)"
| "received (Fail e # rs) = []"

fun read_stop :: "bytes sys list \<Rightarrow> read_end option" where
  "read_stop [] = None"
| "read_stop (Ok xs # rs) = (if xs = [] then Some ReadPeerClosed else read_stop rs)"
| "read_stop (Fail e # rs) = (if e = EAGAIN \<or> e = EINTR then Some ReadDrained else Some ReadFailed)"

lemma recv_len:
  assumes "length xs \<le> 65535"
  shows "unat (word_of_int (int (length xs)) :: u64) = length xs"
  using assms unat_word_of_nat_small [of "length xs", where 'a = 64] by simp

lemma HandleRead_loop_SomeD:
  assumes "list_all valid_recv rs" and "buffer_inv b" and "HandleRead_loop rs b = Some (e, b')"
  shows "buffer_inv b' \<and> readable b' = readable b @ received rs \<and> read_stop rs = Some e"
  using assms
proof (induction rs arbitrary: b rule: received.induct)
  case (2 xs rs)
  show ?case
  proof (cases "xs = []")
    case True
    then show ?thesis using 2 by (simp add: NonBlockRecv_def Recv_def)
  next
    case False
    then obtain b1 where b1: "Buffer_Write (Some xs) (word_of_int (int (length xs))) b = Some b1"
        "HandleRead_loop rs b1 = Some (e, b')"
      using "2.prems"(3) by (auto simp: NonBlockRecv_def Recv_def bind_eq_Some_conv)
    have len: "length xs \<le> 65535" using "2.prems"(1) by (simp add: valid_recv_def)
    have "buffer_inv b1 \<and> readable b1 = readable b @ xs"
      using Buffer_Write_SomeD [OF "2.prems"(2) _ _ b1(1)] len recv_len [OF len] by simp
    then show ?thesis using "2.IH" [OF False _ _ b1(2)] "2.prems"(1) False by simp
  qed
qed (auto simp: NonBlockRecv_def Recv_def split: if_splits)

lemma HandleRead_loop_returns:
  assumes "list_all valid_recv rs" and "buffer_inv b" and "read_stop rs \<noteq> None"
    and "length (readable b) + 2 * length (received rs) \<le> 2 ^ 62"
  shows "\<exists>e b'. HandleRead_loop rs b = Some (e, b')"
  using assms
proof (induction rs arbitrary: b rule: received.induct)
  case (2 xs rs)
  show ?case
  proof (cases "xs = []")
    case False
    have len: "length xs \<le> 65535" using "2.prems"(1) by (simp add: valid_recv_def)
    have "returns (Buffer_Write (Some xs) (word_of_int (int (length xs))) b)
        (\<lambda>b'. buffer_inv b' \<and> readable b' = readable b @ xs)"
      using Buffer_Write_ok [OF "2.prems"(2), of "word_of_int (int (length xs))" xs] recv_len [OF len] "2.prems"(4) False
      by simp
    then obtain b1 where "Buffer_Write (Some xs) (word_of_int (int (length xs))) b = Some b1" "buffer_inv b1"
        "readable b1 = readable b @ xs" by (auto elim: returnsE)
    then show ?thesis using 2 False by (simp add: NonBlockRecv_def Recv_def)
  qed (simp add: NonBlockRecv_def Recv_def)
qed (auto simp: NonBlockRecv_def Recv_def)

section \<open>Operations that call callbacks\<close>

text \<open>The callbacks of a client: whatever operations of the connection they use, the invariant
  holds when they return.\<close>

locale conn_client =
  fixes user :: "('ctx, 'k) user_cb"
  assumes user_keeps: "conn_ok s \<Longrightarrow> conn_keeps s (user k s)"
begin

lemma call_keeps: "conn_ok s \<Longrightarrow> conn_keeps s (call_opt user cb s)"
  by (cases cb) (simp_all add: call_opt_def user_keeps)

lemma deliver_keeps: "conn_ok s \<Longrightarrow> conn_keeps s (deliver user s)"
  by (simp add: deliver_def call_keeps)

lemma ReleaseInLoop_keeps_from:
  assumes "conn_ok s"
  shows "conn_keeps (released_state s) (ReleaseInLoop user s)"
  unfolding ReleaseInLoop_alt
  by (rule keeps_bind [OF call_keeps]) (simp_all add: released_state_ok [OF assms] call_keeps)

lemma ReleaseInLoop_keeps: "conn_ok s \<Longrightarrow> conn_keeps s (ReleaseInLoop user s)"
  by (rule keeps_from [OF ReleaseInLoop_keeps_from]) (simp_all add: released_state_ok)

lemma HandleClose_keeps: "conn_ok s \<Longrightarrow> conn_keeps s (HandleClose user s)"
  unfolding HandleClose_def by (rule keeps_bind [OF deliver_keeps ReleaseInLoop_keeps])

lemma set_state_ok:
  "conn_ok s \<Longrightarrow> st \<noteq> DISCONNECTED \<Longrightarrow> conn_ok ((fst s)\<lparr>conn_state := st\<rparr>, snd s)"
  by (auto simp: conn_ok_def Let_def split: if_splits)

lemma ShutDownInLoop_keeps:
  assumes "conn_ok s"
  shows "conn_keeps s (ShutDownInLoop user s)"
proof -
  let ?s = "((fst s)\<lparr>conn_state := DISCONNECTING\<rparr>, snd s)"
  have ok: "conn_ok ?s" using assms by (rule set_state_ok) simp
  have le: "conn_le s ?s" by (simp add: conn_le_def)
  have w: "conn_ok (on_channel EnableWrite t)" if "conn_ok t" for t :: "('ctx, 'k) conn_sys"
    by (rule EnableWrite_keeps) (use that in \<open>auto simp: conn_ok_def Let_def split: if_splits\<close>)
  have l: "conn_le t (on_channel EnableWrite t)" for t :: "('ctx, 'k) conn_sys"
    by (simp add: conn_le_def)
  show ?thesis
    unfolding ShutDownInLoop_def Let_def
  proof (rule keeps_bind [OF keeps_from [OF deliver_keeps [OF ok] le]])
    fix t :: "('ctx, 'k) conn_sys"
    assume t: "conn_ok t"
    let ?t = "if 0 < ReadAbleSize (outBuffer (fst t))
      then if \<not> WriteAble (conn_channel (fst t)) then on_channel EnableWrite t else t else t"
    have "conn_ok ?t" "conn_le t ?t" using t w [OF t] l by simp_all
    then show "conn_keeps t (if ReadAbleSize (outBuffer (fst ?t)) = 0 then ReleaseInLoop user ?t else Some ?t)"
      using keeps_from [OF ReleaseInLoop_keeps] by simp
  qed
qed

lemma EstablishedInLoop_keeps:
  assumes "conn_ok s"
  shows "conn_keeps s (EstablishedInLoop user s)"
proof -
  let ?s = "on_channel EnableRead ((fst s)\<lparr>conn_state := CONNECTED\<rparr>, snd s)"
  have "conn_ok ?s"
    using assms by (auto simp: conn_ok_def Let_def channel_ops_ok WriteAble_def mask_simps split: if_splits)
  then have "conn_keeps s (call_opt user (connect_cb (fst ?s)) ?s)"
    by (intro keeps_from [OF call_keeps]) (simp_all add: conn_le_def)
  then show ?thesis by (simp add: EstablishedInLoop_def Let_def)
qed

lemma HandleWrite_keeps:
  assumes "conn_ok s" and "valid_send r"
  shows "conn_keeps s (HandleWrite user r s)"
proof -
  let ?ret = "NonBlockSend r" and ?b0 = "outBuffer (fst s)"
  have rel: "conn_keeps s (deliver user s \<bind> ReleaseInLoop user)"
    by (rule keeps_bind [OF deliver_keeps [OF assms(1)] ReleaseInLoop_keeps])
  show ?thesis
  proof (cases "0 < ?ret")
    case False
    then show ?thesis using rel assms(1) by (simp add: HandleWrite_def Let_def)
  next
    case pos: True
    then obtain n where n: "r = Ok n" "?ret = int n" "n < 2 ^ 63"
      using assms(2) by (cases r) (auto simp: NonBlockSend_def Socket_Send_def valid_send_def split: if_splits)
    have u: "unat (word_of_int (int n) :: u64) = n"
      using n(3) unat_word_of_nat_small [of n, where 'a = 64] by simp
    show ?thesis
    proof (cases "MoveReadOffset (word_of_int ?ret) ?b0")
      case None
      then show ?thesis using pos by (simp add: HandleWrite_def Let_def)
    next
      case (Some b)
      have inv: "buffer_inv ?b0" using assms(1) by (simp add: conn_ok_def Let_def)
      have "n \<le> length (readable ?b0)"
        using Some n(2) MoveReadOffset_abort [OF inv, of "word_of_int (int n)"] u by (metis not_le option.distinct(1))
      then have b: "buffer_inv b" "readable b = drop n (readable ?b0)"
        using MoveReadOffset_ok [OF inv, of "word_of_int (int n)"] Some n(2) u by simp_all
      let ?s1 = "((fst s)\<lparr>outBuffer := b, conn_sent := conn_sent (fst s) @ take n (readable ?b0)\<rparr>, snd s)"
      have ok1: "conn_ok ?s1" "conn_le s ?s1"
        using assms(1) b by (auto simp: conn_ok_def conn_le_def Let_def split: if_splits)
      have ok2: "conn_ok (on_channel DisableWrite ?s1)" "conn_le s (on_channel DisableWrite ?s1)"
        if "ReadAbleSize b = 0"
      proof -
        have "readable b = []" using that unat_ReadAbleSize [OF b(1)] by simp
        then show "conn_ok (on_channel DisableWrite ?s1)" "conn_le s (on_channel DisableWrite ?s1)"
          using ok1 by (auto simp: conn_ok_def conn_le_def Let_def channel_ops_ok split: if_splits)
      qed
      show ?thesis
        using pos n(2) Some ok1 ok2 keeps_from [OF ReleaseInLoop_keeps [OF ok2(1)] ok2(2)]
        by (simp add: HandleWrite_def Let_def)
    qed
  qed
qed

lemma HandleRead_keeps:
  assumes "conn_ok s" and "list_all valid_recv recvs"
  shows "conn_keeps s (HandleRead user recvs s)"
proof (cases "HandleRead_loop recvs (inBuffer (fst s))")
  case None
  then show ?thesis by (simp add: HandleRead_def)
next
  case (Some p)
  obtain e b where p: "p = (e, b)" by fastforce
  have "buffer_inv b"
    using HandleRead_loop_SomeD [OF assms(2) _ Some [unfolded p]] assms(1) by (simp add: conn_ok_def Let_def)
  then have ok: "conn_ok ((fst s)\<lparr>inBuffer := b\<rparr>, snd s)" using assms(1) by (simp add: conn_ok_def Let_def)
  have le: "conn_le s ((fst s)\<lparr>inBuffer := b\<rparr>, snd s)" by (simp add: conn_le_def)
  show ?thesis
    using Some p keeps_from [OF HandleClose_keeps [OF ok] le] keeps_from [OF deliver_keeps [OF ok] le]
    by (cases e) (simp_all add: HandleRead_def Let_def)
qed

end

lemma loop_poll_timer [simp]:
  "push_slot i a l = Some l' \<Longrightarrow> el_poll l' = el_poll l"
  "TimerRefreshInLoop tid l = Some l' \<Longrightarrow> el_poll l' = el_poll l"
  "TimerAddInLoop tid timeout cb l = Some l' \<Longrightarrow> el_poll l' = el_poll l"
proof -
  have 1: "push_slot i a l = Some l' \<Longrightarrow> el_poll l' = el_poll l"
    for i a and l l' :: "('cb, 'g, 'z) EventLoop_scheme"
    by (auto simp: push_slot_def split: if_splits)
  then show "push_slot i a l = Some l' \<Longrightarrow> el_poll l' = el_poll l" .
  show "TimerRefreshInLoop tid l = Some l' \<Longrightarrow> el_poll l' = el_poll l"
    using 1 by (auto simp: TimerRefreshInLoop_def split: option.splits)
  show "TimerAddInLoop tid timeout cb l = Some l' \<Longrightarrow> el_poll l' = el_poll l"
    using 1 by (fastforce simp: TimerAddInLoop_def Let_def bind_eq_Some_conv)
qed

lemma same_poll_ok: "el_poll l' = el_poll (snd s) \<Longrightarrow> conn_ok (fst s, l') = conn_ok s"
  by (simp add: conn_ok_def Let_def)

lemma flag_ok: "conn_ok ((fst s)\<lparr>enable_inactive_release := v\<rparr>, l) = conn_ok (fst s, l)"
  by (simp add: conn_ok_def Let_def)

lemma EnableInactive_keeps:
  assumes "conn_ok s"
  shows "conn_keeps s (EnableInactiveRealseInLoop sec s)"
  using assms same_poll_ok [of _ s]
  by (auto simp: EnableInactiveRealseInLoop_def Let_def conn_keeps_def bind_eq_Some_conv flag_ok conn_le_def
      split: if_splits)

lemma UpGrade_keeps: "conn_ok s \<Longrightarrow> conn_keeps s (Some (UpGradeInLoop context conn msg close any s))"
  by (simp add: UpGradeInLoop_def conn_ok_def conn_le_def Let_def)

context conn_client
begin

lemma HandleEvent_keeps:
  assumes "conn_ok s"
  shows "conn_keeps s (HandleEvent user s)"
proof -
  have "conn_keeps s (call_opt user (any_cb (fst s)) (fst s, l))" if "el_poll l = el_poll (snd s)" for l
    using same_poll_ok [OF that] assms by (intro keeps_from [OF call_keeps]) (simp_all add: conn_le_def)
  note c = this
  show ?thesis
  proof (cases "enable_inactive_release (fst s)")
    case True
    then show ?thesis
      using c loop_poll_timer(2)
      by (cases "TimerRefreshInLoop (connect_id (fst s)) (snd s)") (simp_all add: HandleEvent_def)
  next
    case False
    then show ?thesis using c [of "snd s"] by (simp add: HandleEvent_def)
  qed
qed

lemma run_handler_keeps:
  "conn_ok s \<Longrightarrow> list_all valid_recv recvs \<Longrightarrow> valid_send sr \<Longrightarrow> conn_keeps s (run_handler user recvs sr h s)"
  by (cases h) (simp_all add: run_handler_def HandleError_def HandleRead_keeps HandleWrite_keeps HandleClose_keeps
      HandleEvent_keeps)

lemma conn_event_keeps:
  assumes "conn_ok s" and "list_all valid_recv recvs" and "valid_send sr"
  shows "conn_keeps s (conn_event user recvs sr revents s)"
proof -
  let ?s = "((fst s)\<lparr>conn_channel := SetRevents revents (conn_channel (fst s))\<rparr>, snd s)"
  have ok: "conn_ok ?s" and le: "conn_le s ?s"
    using assms(1) by (auto simp: conn_ok_def conn_le_def SetRevents_def Let_def WriteAble_def split: if_splits)
  have h: "conn_keeps t (call_opt (run_handler user recvs sr) h t)" if "conn_ok t" for h t
    using that assms(2,3) by (cases h) (simp_all add: call_opt_def run_handler_keeps)
  show ?thesis
    unfolding conn_event_def Channel_HandleEvent_def
    by (rule keeps_from [OF _ le])
       (auto simp: Let_def h ok intro!: keeps_bind [OF h [OF ok]] keeps_bind)
qed

lemma run_conn_task_keeps:
  assumes "conn_ok s" and "\<And>cid buf. t = TSend cid buf \<Longrightarrow> buffer_inv buf"
  shows "conn_keeps s (run_conn_task user t s)"
  using assms
  by (cases t) (simp_all add: run_conn_task_def SendInLoop_keeps ShutDownInLoop_keeps EnableInactive_keeps
      DisableInactive_keeps UpGrade_keeps [simplified] EstablishedInLoop_keeps)

end

section \<open>Reachable states\<close>

text \<open>Everything that happens to a connection in its loop: a task of one of the public operations,
  a readiness event with any outcomes of the system calls, the expiry of its timer, and
  changes of the loop that keep the poller's state for this descriptor.\<close>

inductive conn_step :: "('ctx, 'k) user_cb \<Rightarrow> ('ctx, 'k) conn_sys \<Rightarrow> ('ctx, 'k) conn_sys \<Rightarrow> bool" for user where
  task: "run_conn_task user t s = Some s' \<Longrightarrow> (\<And>cid buf. t = TSend cid buf \<Longrightarrow> buffer_inv buf) \<Longrightarrow> conn_step user s s'"
| event: "conn_event user recvs sr revents s = Some s' \<Longrightarrow> list_all valid_recv recvs \<Longrightarrow> valid_send sr \<Longrightarrow> conn_step user s s'"
| expire: "ReleaseInLoop user s = Some s' \<Longrightarrow> conn_step user s s'"
| others: "poller_inv (el_poll l) \<Longrightarrow> watched (el_poll l) (conn_fd (fst s)) = watched (el_poll (snd s)) (conn_fd (fst s)) \<Longrightarrow>
    conn_step user s (fst s, l)"

context conn_client
begin

lemma conn_step_keep:
  assumes "conn_step user s s'" and "conn_ok s"
  shows "conn_ok s' \<and> conn_le s s'"
  using assms
proof cases
  case (task t)
  then show ?thesis using run_conn_task_keeps [OF assms(2), of t] by (simp add: conn_keeps_def)
next
  case (event recvs sr revents)
  then show ?thesis using conn_event_keeps [OF assms(2), of recvs sr revents] by (simp add: conn_keeps_def)
next
  case expire
  then show ?thesis using ReleaseInLoop_keeps [OF assms(2)] by (simp add: conn_keeps_def)
next
  case (others l)
  then show ?thesis using assms(2) by (auto simp: conn_ok_def Let_def conn_le_def split: if_splits)
qed

lemma conn_steps_keep:
  assumes "(conn_step user)\<^sup>*\<^sup>* s s'" and "conn_ok s"
  shows "conn_ok s' \<and> conn_le s s'"
  using assms by (induction rule: rtranclp_induct) (auto dest: conn_step_keep conn_le_trans)

end

section \<open>Properties\<close>

text \<open>What one call of \<open>SendInLoop\<close> accepts: all of its bytes, or none if the connection is disconnected.\<close>

lemma SendInLoop_accepts:
  "SendInLoop buf s = Some t \<Longrightarrow>
   conn_accepted (fst t) = conn_accepted (fst s) @ (if conn_state (fst s) = DISCONNECTED then [] else readable buf)"
  by (auto simp: SendInLoop_def on_channel_def Let_def split_def Option.bind_eq_Some_conv split: if_splits)

text \<open>
  C2. Output of an open connection: through every sequence of operations,
  readiness events with any outcomes of \<open>recv\<close> and \<open>send\<close> (short writes included), timer expiries
  and callbacks, the bytes the socket has taken followed by the bytes still in the output buffer
  are exactly the accepted bytes, in order, so that none is duplicated or reordered; neither the bytes taken nor the
  bytes accepted are ever taken back; a \<open>Send\<close> is accepted as a whole, except on a disconnected connection, where it is dropped as a whole.
  As long as the connection has not been released it is not disconnected, its socket is open and unsent bytes are waited for, so nothing is dropped.
  A release gives up what is still in the buffer (the close of the peer, an error and the inactivity timer release at once).
\<close>

theorem output_in_order:
  assumes "\<And>k s. conn_ok s \<Longrightarrow> conn_keeps s (user k s)"
    and "poller_inv (el_poll l)" and "watched (el_poll l) fd = 0"
    and "(conn_step user)\<^sup>*\<^sup>* (Connection_new cid fd, l) s" and "(conn_step user)\<^sup>*\<^sup>* s s'"
  shows "conn_sent (fst s) @ readable (outBuffer (fst s)) = conn_accepted (fst s) \<and>
         prefix (conn_sent (fst s)) (conn_sent (fst s')) \<and> prefix (conn_accepted (fst s)) (conn_accepted (fst s')) \<and>
         (\<forall>buf t. SendInLoop buf s = Some t \<longrightarrow>
            conn_accepted (fst t) = conn_accepted (fst s) @ (if conn_state (fst s) = DISCONNECTED then [] else readable buf)) \<and>
         (conn_released (fst s) = 0 \<longrightarrow> conn_state (fst s) \<noteq> DISCONNECTED \<and> sock_fd (conn_socket (fst s)) = fd \<and>
            (readable (outBuffer (fst s)) \<noteq> [] \<longrightarrow> WriteAble (conn_channel (fst s))))"
proof -
  have client: "conn_client user" using assms(1) by (rule conn_client.intro)
  have ok: "conn_ok s" and "conn_le (Connection_new cid fd, l) s"
    using conn_client.conn_steps_keep [OF client assms(4)] conn_ok_new [OF assms(2,3)] by blast+
  then have "conn_fd (fst s) = fd" by (simp add: conn_le_def Connection_new_def)
  moreover have "conn_le s s'" using conn_client.conn_steps_keep [OF client assms(5) ok] by blast
  ultimately show ?thesis using ok SendInLoop_accepts [of _ s] by (simp add: conn_ok_def conn_le_def Let_def)
qed

text \<open>
  C9. Pending output is always watched: as long as a connection has not been released, its
  descriptor is open, the kernel's interest in it is exactly the mask of its channel, and if the
  output buffer is not empty this includes writability, so that the loop is told when to go on.
\<close>

theorem pending_output_watched:
  assumes "\<And>k s. conn_ok s \<Longrightarrow> conn_keeps s (user k s)"
    and "poller_inv (el_poll l)" and "watched (el_poll l) fd = 0"
    and "(conn_step user)\<^sup>*\<^sup>* (Connection_new cid fd, l) s" and "conn_released (fst s) = 0"
  shows "sock_fd (conn_socket (fst s)) = fd \<and>
         watched (el_poll (snd s)) fd = ch_events (conn_channel (fst s)) \<and>
         (readable (outBuffer (fst s)) \<noteq> [] \<longrightarrow> watched (el_poll (snd s)) fd AND EPOLLOUT \<noteq> 0)"
proof -
  have client: "conn_client user" using assms(1) by (rule conn_client.intro)
  have ok: "conn_ok s" "conn_le (Connection_new cid fd, l) s"
    using conn_client.conn_steps_keep [OF client assms(4)] conn_ok_new [OF assms(2,3)] by blast+
  then have "conn_fd (fst s) = fd" by (simp add: conn_le_def Connection_new_def)
  with ok(1) assms(5) show ?thesis by (auto simp: conn_ok_def Let_def WriteAble_def)
qed

text \<open>A connection with one message queued on a new loop.\<close>

lemma idle_user: "conn_ok s \<Longrightarrow> conn_keeps s (Some s)"
  by simp

definition demo_loop :: "(nat, nat) conn_loop" where
  "demo_loop = EventLoop_new 0 4 5"

lemma demo_loop_poll: "poller_inv (el_poll demo_loop)" "watched (el_poll demo_loop) 9 = 0"
proof -
  have p: "el_poll demo_loop = snd (EnableRead (Channel_new 1 4 :: unit Channel, snd (EnableRead (Channel_new 0 5 :: unit Channel, Poller_new))))"
    by (simp add: demo_loop_def EventLoop_new_def Let_def)
  show "poller_inv (el_poll demo_loop)" "watched (el_poll demo_loop) 9 = 0"
    unfolding p by (simp_all add: channel_ops_ok Channel_new_def)
qed

lemma demo_send:
  "\<exists>s. (conn_step (\<lambda>_ s. Some s))\<^sup>*\<^sup>* (Connection_new 1 9, demo_loop) s \<and> conn_accepted (fst s) = ''hello'' \<and>
     conn_released (fst s) = 0 \<and> readable (outBuffer (fst s)) = ''hello'' \<and> readable (inBuffer (fst s)) = []"
proof -
  let ?s0 = "(Connection_new 1 9, demo_loop)"
  obtain buf where buf: "buffer_inv buf" "readable buf = ''hello''"
    using WriteString_ok [of Buffer_new "''hello''"] by (auto elim: returnsE)
  obtain b where b: "WriteBuffer buf Buffer_new = Some b" "readable b = ''hello''"
    using WriteBuffer_ok [of Buffer_new buf] buf by (auto elim: returnsE)
  obtain s where s: "SendInLoop buf ?s0 = Some s" "conn_accepted (fst s) = ''hello''" "conn_released (fst s) = 0"
      "readable (outBuffer (fst s)) = ''hello''" "readable (inBuffer (fst s)) = []"
    using b buf(2) by (auto simp: SendInLoop_def Connection_new_def Let_def)
  have "conn_step (\<lambda>_ s. Some s) ?s0 s"
    by (rule conn_step.task [of _ "TSend 1 buf"]) (use s(1) buf(1) in \<open>simp_all add: run_conn_task_def\<close>)
  then show ?thesis using s by blast
qed

theorem output_in_order_witness:
  "\<exists>s. (conn_step (\<lambda>_ s. Some s))\<^sup>*\<^sup>* (Connection_new 1 9, demo_loop) s \<and>
     conn_sent (fst s) @ readable (outBuffer (fst s)) = ''hello''"
  using demo_send output_in_order [OF idle_user demo_loop_poll _ rtranclp.rtrancl_refl] by metis

text \<open>When the peer has sent its request and closed its side, the answer of the message callback is put into the output buffer and the connection is
  released at once: the answer is accepted and never sent.\<close>

definition answering :: "nat \<Rightarrow> (nat, nat) conn_sys \<Rightarrow> (nat, nat) conn_sys option" where
  "answering k s = WriteString ''hello'' Buffer_new \<bind> (\<lambda>buf. SendInLoop buf s)"

lemma half_close_loses_answer:
  "map_option (\<lambda>s. (conn_accepted (fst s), conn_sent (fst s), conn_released (fst s), sock_fd (conn_socket (fst s))))
     (HandleRead answering [Ok ''GET'', Ok []] ((Connection_new 1 9)\<lparr>conn_state := CONNECTED, msg_cb := Some 0\<rparr>, demo_loop)) =
   Some (''hello'', [], 1, - 1)"
  by code_simp

theorem pending_output_watched_witness:
  "\<exists>s. (conn_step (\<lambda>_ s. Some s))\<^sup>*\<^sup>* (Connection_new 1 9, demo_loop) s \<and>
     watched (el_poll (snd s)) 9 AND EPOLLOUT \<noteq> 0"
proof -
  obtain s where s: "(conn_step (\<lambda>_ s. Some s))\<^sup>*\<^sup>* (Connection_new 1 9, demo_loop) s" "conn_released (fst s) = 0"
      "readable (outBuffer (fst s)) = ''hello''"
    using demo_send by blast
  have "readable (outBuffer (fst s)) \<noteq> []" by (simp add: s(3))
  then have "watched (el_poll (snd s)) 9 AND EPOLLOUT \<noteq> 0"
    using pending_output_watched [OF idle_user demo_loop_poll s(1,2)] by blast
  with s(1) show ?thesis by blast
qed

section \<open>Shutting down\<close>

text \<open>Writability events in which \<open>send\<close> takes the given numbers of bytes.\<close>

fun write_all :: "('ctx, 'k) user_cb \<Rightarrow> nat list \<Rightarrow> ('ctx, 'k) conn_sys \<Rightarrow> ('ctx, 'k) conn_sys option" where
  "write_all user [] s = Some s"
| "write_all user (n # ns) s = do { s1 \<leftarrow> HandleWrite user (Ok n) s; write_all user ns s1 }"

lemma ReadAbleSize_zero: "buffer_inv b \<Longrightarrow> ReadAbleSize b = 0 \<longleftrightarrow> readable b = []"
  using unat_ReadAbleSize [of b] by (metis length_0_conv unat_eq_zero)

lemma HandleWrite_takes:
  assumes "conn_ok s" and "0 < n" and "n \<le> length (readable (outBuffer (fst s)))"
  shows "\<exists>b. buffer_inv b \<and> readable b = drop n (readable (outBuffer (fst s))) \<and>
    (let s1 = ((fst s)\<lparr>outBuffer := b, conn_sent := conn_sent (fst s) @ take n (readable (outBuffer (fst s)))\<rparr>, snd s) in
     HandleWrite user (Ok n) s =
       (if readable b = []
        then (if conn_state (fst s) = DISCONNECTING then ReleaseInLoop user (on_channel DisableWrite s1)
              else Some (on_channel DisableWrite s1))
        else Some s1))"
proof -
  have inv: "buffer_inv (outBuffer (fst s))" using assms(1) by (simp add: conn_ok_def Let_def)
  have "n < 2 ^ 64" using assms(3) length_readable_bound [OF inv] by simp
  then have u: "unat (word_of_nat n :: u64) = n" by (intro unat_word_of_nat_small) simp
  obtain b where b: "MoveReadOffset (word_of_nat n) (outBuffer (fst s)) = Some b" "buffer_inv b"
      "readable b = drop n (readable (outBuffer (fst s)))"
    using MoveReadOffset_ok [OF inv, of "word_of_nat n"] assms(3) u by (auto elim: returnsE)
  show ?thesis
    using assms(2) b ReadAbleSize_zero [OF b(2)]
    by (intro exI [of _ b]) (simp add: HandleWrite_def NonBlockSend_def Socket_Send_def Let_def)
qed

text \<open>What is left to send after a short write keeps the connection going.\<close>

lemma write_all_pending:
  assumes "conn_client user" and "conn_ok s" and "conn_state (fst s) = DISCONNECTING" and "conn_released (fst s) = 0"
    and "list_all (\<lambda>n. 0 < n) ns" and "sum_list ns < length (readable (outBuffer (fst s)))"
  shows "returns (write_all user ns s)
    (\<lambda>t. conn_ok t \<and> conn_state (fst t) = DISCONNECTING \<and> conn_released (fst t) = 0 \<and>
         readable (outBuffer (fst t)) = drop (sum_list ns) (readable (outBuffer (fst s))) \<and>
         conn_accepted (fst t) = conn_accepted (fst s))"
  using assms(2-6)
proof (induction ns arbitrary: s)
  case (Cons n ns)
  have n: "0 < n" "n \<le> length (readable (outBuffer (fst s)))" using Cons.prems by simp_all
  obtain b where b: "readable b = drop n (readable (outBuffer (fst s)))"
    "HandleWrite user (Ok n) s =
       Some ((fst s)\<lparr>outBuffer := b, conn_sent := conn_sent (fst s) @ take n (readable (outBuffer (fst s)))\<rparr>, snd s)"
    (is "_ = Some ?s1")
    using HandleWrite_takes [OF Cons.prems(1) n, of user] Cons.prems(5) by (auto simp: Let_def)
  have "n < 2 ^ 63" using n(2) length_readable_bound [of "outBuffer (fst s)"] Cons.prems(1) by (simp add: conn_ok_def Let_def)
  then have "conn_ok ?s1"
    using conn_client.HandleWrite_keeps [OF assms(1) Cons.prems(1), of "Ok n"] b(2) by (simp add: valid_send_def)
  then have "returns (write_all user ns ?s1)
    (\<lambda>t. conn_ok t \<and> conn_state (fst t) = DISCONNECTING \<and> conn_released (fst t) = 0 \<and>
         readable (outBuffer (fst t)) = drop (sum_list ns) (readable (outBuffer (fst ?s1))) \<and>
         conn_accepted (fst t) = conn_accepted (fst ?s1))"
    using Cons.prems b(1) by (intro Cons.IH) simp_all
  then show ?case using b by (auto simp: drop_drop add.commute elim!: returns_mono)
qed simp

text \<open>
  C8. A graceful shutdown: shutting down a connection with pending output and no unread input
  releases it exactly when the last pending byte has been sent. However the kernel splits the
  writes, before the last of them the connection is still open and not released; after the last
  one it has been released and every byte that was accepted has been sent.
\<close>

theorem shutdown_flushes:
  assumes "\<And>k s. conn_ok s \<Longrightarrow> conn_keeps s (user k s)" and "\<And>k s. user k s \<noteq> None"
    and "conn_ok s" and "conn_released (fst s) = 0"
    and "readable (inBuffer (fst s)) = []" and "readable (outBuffer (fst s)) \<noteq> []"
    and "list_all (\<lambda>n. 0 < n) (ns @ [n])" and "sum_list (ns @ [n]) = length (readable (outBuffer (fst s)))"
  shows "\<exists>t u v. ShutDownInLoop user s = Some t \<and> write_all user ns t = Some u \<and> write_all user (ns @ [n]) t = Some v \<and>
           conn_released (fst u) = 0 \<and> conn_state (fst u) = DISCONNECTING \<and>
           0 < conn_released (fst v) \<and> prefix (conn_accepted (fst s)) (conn_sent (fst v))"
proof -
  have client: "conn_client user" using assms(1) by (rule conn_client.intro)
  let ?t = "((fst s)\<lparr>conn_state := DISCONNECTING\<rparr>, snd s)"
  have inv: "buffer_inv (inBuffer (fst s))" "buffer_inv (outBuffer (fst s))" "WriteAble (conn_channel (fst s))"
    using assms(3,4,6) by (simp_all add: conn_ok_def Let_def)
  have t: "ShutDownInLoop user s = Some ?t"
    using inv(3) ReadAbleSize_zero [OF inv(1)] ReadAbleSize_zero [OF inv(2)] assms(5,6)
    by (simp add: ShutDownInLoop_def deliver_def Let_def)
  have okt: "conn_ok ?t" using conn_client.set_state_ok [OF client assms(3)] by simp
  obtain u where u: "write_all user ns ?t = Some u" "conn_ok u" "conn_state (fst u) = DISCONNECTING"
      "conn_released (fst u) = 0" "readable (outBuffer (fst u)) = drop (sum_list ns) (readable (outBuffer (fst s)))"
      "conn_accepted (fst u) = conn_accepted (fst s)"
    using write_all_pending [OF client okt, of ns] assms(4,7,8) by (auto elim: returnsE)
  have n: "0 < n" "n = length (readable (outBuffer (fst u)))" using assms(7,8) u(5) by simp_all
  obtain b where b: "buffer_inv b" "readable b = []" "HandleWrite user (Ok n) u = ReleaseInLoop user (on_channel DisableWrite
      ((fst u)\<lparr>outBuffer := b, conn_sent := conn_sent (fst u) @ readable (outBuffer (fst u))\<rparr>, snd u))"
    using HandleWrite_takes [OF u(2) n(1), of user] n(2) u(3) by (auto simp: Let_def)
  let ?r = "on_channel DisableWrite ((fst u)\<lparr>outBuffer := b, conn_sent := conn_sent (fst u) @ readable (outBuffer (fst u))\<rparr>, snd u)"
  have ok: "conn_ok ?r" by (rule drained_ok [OF u(2) b(1,2)])
  obtain v where v: "ReleaseInLoop user ?r = Some v" using ReleaseInLoop_returns [of user ?r] assms(2) by blast
  have le: "conn_le (released_state ?r) v" "conn_le ?r v"
    using conn_client.ReleaseInLoop_keeps_from [OF client ok] conn_client.ReleaseInLoop_keeps [OF client ok] v
    by (simp_all add: conn_keeps_def)
  have "0 < conn_released (fst v)"
    using le(1) released_state_ok(4) [OF ok] by (simp add: conn_le_def)
  moreover have "conn_sent (fst ?r) = conn_accepted (fst s)"
    using u(2,6) by (simp add: conn_ok_def Let_def)
  then have "prefix (conn_accepted (fst s)) (conn_sent (fst v))" using le(2) by (simp add: conn_le_def)
  moreover have "write_all user (ns @ [n]) ?t = Some v"
  proof -
    have "write_all user (xs @ [n]) x = write_all user xs x \<bind> HandleWrite user (Ok n)" for xs x
      by (induction xs arbitrary: x) (auto split: bind_splits)
    then show ?thesis using u(1) b(3) v by simp
  qed
  ultimately show ?thesis using t u(1,3,4) by blast
qed

theorem shutdown_flushes_witness:
  "\<exists>s t u v. conn_accepted (fst s) = ''hello'' \<and> ShutDownInLoop (\<lambda>_ (s :: (nat, nat) conn_sys). Some s) s = Some t \<and>
     write_all (\<lambda>_ s. Some s) [2] t = Some u \<and> conn_released (fst u) = 0 \<and>
     write_all (\<lambda>_ s. Some s) [2, 3] t = Some v \<and> 0 < conn_released (fst v) \<and> prefix ''hello'' (conn_sent (fst v))"
proof -
  obtain s where s: "(conn_step (\<lambda>_ s. Some s))\<^sup>*\<^sup>* (Connection_new 1 9, demo_loop) s" "conn_accepted (fst s) = ''hello''"
      "conn_released (fst s) = 0" "readable (outBuffer (fst s)) = ''hello''" "readable (inBuffer (fst s)) = []"
    using demo_send by blast
  have "conn_client (\<lambda>_ (s :: (nat, nat) conn_sys). Some s)" by unfold_locales (rule idle_user)
  from conn_client.conn_steps_keep [OF this s(1) conn_ok_new [OF demo_loop_poll]] have "conn_ok s" by blast
  then have "\<exists>t u v. ShutDownInLoop (\<lambda>_ (s :: (nat, nat) conn_sys). Some s) s = Some t \<and>
      write_all (\<lambda>_ s. Some s) [2] t = Some u \<and> write_all (\<lambda>_ s. Some s) ([2] @ [3]) t = Some v \<and>
      conn_released (fst u) = 0 \<and> conn_state (fst u) = DISCONNECTING \<and>
      0 < conn_released (fst v) \<and> prefix (conn_accepted (fst s)) (conn_sent (fst v))"
    by (intro shutdown_flushes) (simp_all add: s(3-5))
  then show ?thesis unfolding s(2) append.simps using s(2) by blast
qed

section \<open>Reading\<close>

text \<open>
  A readiness event delivers everything that has arrived: if the reading ends because the
  socket is drained, the message callback is called once, with the unread input followed by all
  received bytes in order.
\<close>

lemma read_delivers:
  assumes "conn_ok s" and "list_all valid_recv rs" and "read_stop rs = Some ReadDrained"
    and "msg_cb (fst s) = Some k" and "readable (inBuffer (fst s)) @ received rs \<noteq> []"
    and "length (readable (inBuffer (fst s))) + 2 * length (received rs) \<le> 2 ^ 62"
  shows "\<exists>b. buffer_inv b \<and> readable b = readable (inBuffer (fst s)) @ received rs \<and>
           HandleRead user rs s = user k ((fst s)\<lparr>inBuffer := b\<rparr>, snd s)"
proof -
  have inv: "buffer_inv (inBuffer (fst s))" using assms(1) by (simp add: conn_ok_def Let_def)
  obtain e b where eb: "HandleRead_loop rs (inBuffer (fst s)) = Some (e, b)"
    using HandleRead_loop_returns [OF assms(2) inv _ assms(6)] assms(3) by auto
  have b: "buffer_inv b" "readable b = readable (inBuffer (fst s)) @ received rs" "e = ReadDrained"
    using HandleRead_loop_SomeD [OF assms(2) inv eb] assms(3) by simp_all
  have "0 < ReadAbleSize b" using ReadAbleSize_zero [OF b(1)] assms(5) b(2) by (simp add: word_gt_0)
  then show ?thesis
    using b eb assms(4) by (intro exI [of _ b]) (simp add: HandleRead_def deliver_def call_opt_def Let_def)
qed

section \<open>A second release\<close>

text \<open>
  A connection that the peer resets is released twice: the read handler sees the error and
  releases the connection, and the same event then runs the error handler, which releases it
  again, so that the close callbacks run a second time.
\<close>

lemma reset_releases_twice:
  assumes "ch_read_cb (conn_channel (fst s)) = Some HandleReadCb"
    and "ch_error_cb (conn_channel (fst s)) = Some HandleErrorCb"
    and "ch_event_cb (conn_channel (fst s)) = Some HandleEventCb"
    and "\<not> enable_inactive_release (fst s)"
  shows "\<exists>s'. conn_event (\<lambda>_ s. Some s) [Fail (EOTHER e)] sr (EPOLLIN OR EPOLLERR OR EPOLLHUP) s = Some s' \<and>
              conn_released (fst s') = conn_released (fst s) + 2"
proof -
  have call: "call_opt (\<lambda>_ s. Some s) cb x = Some x" for cb and x :: "('a, 'b) conn_sys"
    by (cases cb) (simp_all add: call_opt_def)
  have rel: "ReleaseInLoop (\<lambda>_ s. Some s) x = Some (released_state x)" for x :: "('a, 'b) conn_sys"
    by (simp add: ReleaseInLoop_alt call)
  have dl: "deliver (\<lambda>_ s. Some s) x = Some x" for x :: "('a, 'b) conn_sys" by (simp add: deliver_def call)
  have hc: "HandleClose (\<lambda>_ s. Some s) x = Some (released_state x)" for x :: "('a, 'b) conn_sys"
    by (simp add: HandleClose_def dl rel)
  have ch: "ch_error_cb (conn_channel (fst (released_state x))) = ch_error_cb (conn_channel (fst x))"
    "ch_revents (conn_channel (fst (released_state x))) = ch_revents (conn_channel (fst x))"
    "conn_released (fst (released_state x)) = conn_released (fst x) + 1" for x :: "('a, 'b) conn_sys"
    by (simp_all add: released_state_def Let_def DisableInactiveRealseInLoop_def)
  have m: "(EPOLLIN OR EPOLLERR OR EPOLLHUP) AND EPOLLERR \<noteq> 0" "(EPOLLIN OR EPOLLERR OR EPOLLHUP) AND (EPOLLIN OR EPOLLPRI) \<noteq> 0"
    "(EPOLLIN OR EPOLLERR OR EPOLLHUP) AND EPOLLOUT = 0"
    by (simp_all add: epoll_flags)
  let ?run = "run_handler (\<lambda>_ s. Some s) [Fail (EOTHER e)] sr"
  let ?s = "((fst s)\<lparr>conn_channel := SetRevents (EPOLLIN OR EPOLLERR OR EPOLLHUP) (conn_channel (fst s))\<rparr>, snd s)"
  have "(fst ?s)\<lparr>inBuffer := inBuffer (fst ?s)\<rparr> = fst ?s" by simp
  then have read: "call_opt ?run (Some HandleReadCb) ?s = Some (released_state ?s)"
    by (simp add: call_opt_def run_handler_def HandleRead_def NonBlockRecv_def Recv_def hc)
  have event: "call_opt ?run (Some HandleEventCb) ?s = Some ?s"
    using assms(4) by (simp add: call_opt_def [of ?run] run_handler_def HandleEvent_def call)
  have err: "call_opt ?run (Some HandleErrorCb) (released_state ?s) = Some (released_state (released_state ?s))"
    by (simp add: call_opt_def run_handler_def HandleError_def hc)
  have cbs: "ch_event_cb (conn_channel (fst ?s)) = Some HandleEventCb" "ch_read_cb (conn_channel (fst ?s)) = Some HandleReadCb"
    "ch_error_cb (conn_channel (fst (released_state ?s))) = Some HandleErrorCb"
    "ch_revents (conn_channel (fst ?s)) = EPOLLIN OR EPOLLERR OR EPOLLHUP"
    "ch_revents (conn_channel (fst (released_state ?s))) = EPOLLIN OR EPOLLERR OR EPOLLHUP"
    using assms(1-3) by (simp_all add: SetRevents_def ch)
  have "conn_event (\<lambda>_ s. Some s) [Fail (EOTHER e)] sr (EPOLLIN OR EPOLLERR OR EPOLLHUP) s = Some (released_state (released_state ?s))"
    unfolding conn_event_def Channel_HandleEvent_def Let_def
    by (simp only: cbs event read err m bind.bind_lunit simp_thms if_True if_False not_True_eq_False)
  then show ?thesis by (simp add: ch)
qed

end
