(* ===== verification/ConnectionUse.thy ===== *)
theory ConnectionUse
  imports ConnectionSafety
begin

text \<open>
  What the callbacks of servers use of a connection: sending and shutting down from the loop's
  thread, with what they change and that they keep the invariant.
\<close>

section \<open>Sending and shutting down from a callback\<close>

text \<open>The state after \<open>t\<close> was accepted for output: nothing else of the connection has changed but
  its channel.\<close>

definition extends :: "bytes \<Rightarrow> ('ctx, 'k) conn_sys \<Rightarrow> ('ctx, 'k) conn_sys \<Rightarrow> bool" where
  "extends t s s' \<longleftrightarrow>
     buffer_inv (outBuffer (fst s')) \<and> readable (outBuffer (fst s')) = readable (outBuffer (fst s)) @ t \<and>
     conn_accepted (fst s') = conn_accepted (fst s) @ t \<and> inBuffer (fst s') = inBuffer (fst s) \<and>
     conn_context (fst s') = conn_context (fst s) \<and> conn_state (fst s') = conn_state (fst s) \<and>
     conn_released (fst s') = conn_released (fst s) \<and> msg_cb (fst s') = msg_cb (fst s) \<and>
     conn_sent (fst s') = conn_sent (fst s) \<and> connect_id (fst s') = connect_id (fst s) \<and>
     conn_fd (fst s') = conn_fd (fst s) \<and> el_thread (snd s') = el_thread (snd s)"

lemma Send_extends:
  assumes "buffer_inv (outBuffer (fst s))" and "length (readable (outBuffer (fst s))) + 2 * length t \<le> 2 ^ 62"
    and "conn_state (fst s) \<noteq> DISCONNECTED"
  shows "\<exists>s'. Connection_Send user (el_thread (snd s)) t s = Some s' \<and> extends t s s'"
proof -
  obtain buf where buf: "WriteString t Buffer_new = Some buf" "buffer_inv buf" "readable buf = t"
    using WriteString_ok [of Buffer_new t] assms(2) by (auto elim!: returnsE)
  obtain b where b: "WriteBuffer buf (outBuffer (fst s)) = Some b" "buffer_inv b"
      "readable b = readable (outBuffer (fst s)) @ t"
    using WriteBuffer_ok [OF assms(1) buf(2)] assms(2) buf(3) by (auto elim!: returnsE)
  show ?thesis
    using assms(3) buf b
    by (auto simp: Connection_Send_def WriteString_def conn_run_in_loop_def IsInLoop_def run_conn_task_def SendInLoop_def
        extends_def Let_def)
qed

lemma ShutDown_extends:
  assumes "deliver user ((fst s)\<lparr>conn_state := DISCONNECTING\<rparr>, snd s) = Some s1"
    and "buffer_inv (outBuffer (fst s1))" and "readable (outBuffer (fst s1)) \<noteq> []"
  shows "\<exists>s'. ShutDown user (el_thread (snd s)) s = Some s' \<and> extends [] s1 s'"
proof -
  have ne: "ReadAbleSize (outBuffer (fst s1)) \<noteq> 0" using assms(2,3) ReadAbleSize_zero by blast
  define s2 where "s2 = (if 0 < ReadAbleSize (outBuffer (fst s1))
    then (if \<not> WriteAble (conn_channel (fst s1)) then on_channel EnableWrite s1 else s1) else s1)"
  have o: "outBuffer (fst s2) = outBuffer (fst s1)" by (simp add: s2_def)
  have "ShutDown user (el_thread (snd s)) s = Some s2"
    using assms(1) ne o
    by (simp add: ShutDown_def conn_run_in_loop_def IsInLoop_def run_conn_task_def ShutDownInLoop_def Let_def s2_def [symmetric])
  moreover have "extends [] s1 s2" using assms(2) by (simp add: extends_def s2_def)
  ultimately show ?thesis by blast
qed

section \<open>The invariant\<close>

lemma Send_keeps:
  assumes "conn_ok s" and "length data < 2 ^ 63"
  shows "conn_keeps s (Connection_Send user (el_thread (snd s)) data s)"
proof (cases "Buffer_Write (Some data) (word_of_nat (length data)) Buffer_new")
  case None
  then show ?thesis by (simp add: Connection_Send_def)
next
  case (Some buf)
  have "unat (word_of_nat (length data) :: u64) = length data" using assms(2) by (intro unat_word_of_nat_small) simp
  then have "buffer_inv buf" using Buffer_Write_SomeD [OF _ _ _ Some] assms(2) by simp
  then show ?thesis
    using Some SendInLoop_keeps [OF assms(1)]
    by (simp add: Connection_Send_def conn_run_in_loop_def IsInLoop_def run_conn_task_def)
qed

lemma client_ShutDown_keeps:
  assumes "\<And>k s. conn_ok s \<Longrightarrow> conn_keeps s (user k s)" and "conn_ok s"
  shows "conn_keeps s (ShutDown user (el_thread (snd s)) s)"
  using conn_client.ShutDownInLoop_keeps [of user s] assms
  by (simp add: conn_client_def ShutDown_def conn_run_in_loop_def IsInLoop_def run_conn_task_def)

lemma conn_ok_inBuffer: "conn_ok s \<Longrightarrow> buffer_inv (inBuffer (fst s))"
  by (simp add: conn_ok_def Let_def)

end
