(* ===== verification/HttpServer.thy ===== *)
theory HttpServer
  imports HttpContext ConnectionUse "HOL-Library.Multiset"
begin

text \<open>
  The class \<open>HttpServer\<close> of \<open>src/http-v1/source/http/http.hpp\<close> on top of connection, parser and
  messages. The file system is the parameter \<open>fs\<close>; the order in which a response's header table is
  iterated, which the container leaves open, is the parameter \<open>iter\<close>. A handler is a function of
  the request and the response it completes. The callbacks the server installs on a connection
  are named by \<open>http_cb\<close>. \<open>OnMessage\<close> calls \<open>ShutDown\<close>, which calls the message callback again while
  input is left; the recursion is bounded by fuel, and twice the unread input plus two is enough.

  The theory shows that every complete request in the input is answered exactly once and in
  order, what the responses contain, and which files are served.
\<close>

section \<open>The server and its responses\<close>

type_synonym handler = "HttpRequest \<Rightarrow> HttpResponse \<Rightarrow> HttpResponse"
type_synonym handlers = "(regex \<times> handler) list"

record HttpServer =
  get_route :: handlers
  post_route :: handlers
  put_route :: handlers
  delete_route :: handlers
  basedir :: bytes

definition HttpServer_new :: HttpServer where
  "HttpServer_new = \<lparr>get_route = [], post_route = [], put_route = [], delete_route = [], basedir = []\<rparr>"

definition SetBaseDir :: "file_env \<Rightarrow> bytes \<Rightarrow> HttpServer \<Rightarrow> HttpServer option" where
  "SetBaseDir fs path srv = (if IsDirection fs path then Some (srv\<lparr>basedir := path\<rparr>) else None)"

definition Get :: "regex \<Rightarrow> handler \<Rightarrow> HttpServer \<Rightarrow> HttpServer" where
  "Get pattern handler srv = srv\<lparr>get_route := get_route srv @ [(pattern, handler)]\<rparr>"

definition Post :: "regex \<Rightarrow> handler \<Rightarrow> HttpServer \<Rightarrow> HttpServer" where
  "Post pattern handler srv = srv\<lparr>post_route := post_route srv @ [(pattern, handler)]\<rparr>"

definition Put :: "regex \<Rightarrow> handler \<Rightarrow> HttpServer \<Rightarrow> HttpServer" where
  "Put pattern handler srv = srv\<lparr>put_route := put_route srv @ [(pattern, handler)]\<rparr>"

definition Delete :: "regex \<Rightarrow> handler \<Rightarrow> HttpServer \<Rightarrow> HttpServer" where
  "Delete pattern handler srv = srv\<lparr>delete_route := delete_route srv @ [(pattern, handler)]\<rparr>"

definition ErrorHandler :: "HttpRequest \<Rightarrow> HttpResponse \<Rightarrow> HttpResponse" where
  "ErrorHandler req rsp =
     (let quote = [CHR 0x27];
          body = ''<html>'' @ ''<head>'' @
                 ''<meta http-equiv='' @ quote @ ''Content-Type'' @ quote @ '' content='' @ quote @
                 ''text/html;charset=utf-8'' @ quote @ ''>'' @
                 ''</head>'' @ ''<body>'' @ ''<h1>'' @ to_string (rsp_statu rsp) @ '' '' @
                 StatuDescribe (rsp_statu rsp) @ ''</h1>'' @ ''</body>'' @ ''</html>''
      in SetContent body ''text/html'' rsp)"

text \<open>\<open>WriteReponse\<close> in its two steps: completing the header fields of the response, and its text.\<close>

definition complete_headers :: "HttpRequest \<Rightarrow> HttpResponse \<Rightarrow> HttpResponse" where
  "complete_headers req rsp =
     (let r1 = (if HttpRequest_Close req then HttpResponse_SetHeader ''Connection'' ''close'' rsp
                else HttpResponse_SetHeader ''Connection'' ''keep-alive'' rsp);
          r2 = (if rsp_body r1 \<noteq> [] \<and> \<not> HttpResponse_HasHeader ''Content-Length'' r1
                then HttpResponse_SetHeader ''Content-Length'' (to_string (int (length (rsp_body r1)))) r1 else r1);
          r3 = (if rsp_body r2 \<noteq> [] \<and> \<not> HttpResponse_HasHeader ''Content-Type'' r2
                then HttpResponse_SetHeader ''Content-Type'' ''application/octet-stream'' r2 else r2)
      in (if redirect_flag r3 then HttpResponse_SetHeader ''Location'' (redirect_url r3) r3 else r3))"

definition crlf :: bytes where
  "crlf = [CHR 0x0D, CHR 0x0A]"

definition header_text :: "str_map \<Rightarrow> bytes" where
  "header_text hs = concat (map (\<lambda>(k, v). k @ '': '' @ v @ crlf) hs)"

definition response_text :: "(str_map \<Rightarrow> str_map) \<Rightarrow> HttpRequest \<Rightarrow> HttpResponse \<Rightarrow> bytes" where
  "response_text iter req rsp =
     req_version req @ '' '' @ to_string (rsp_statu rsp) @ '' '' @ StatuDescribe (rsp_statu rsp) @ crlf @
     header_text (iter (rsp_headers rsp)) @ crlf @
     (if req_method req \<noteq> ''HEAD'' then rsp_body rsp else [])"

text \<open>\<open>str()\<close> of the stream: a string longer than libstdc++'s \<open>max_size\<close> throws.\<close>

definition str_build :: "bytes \<Rightarrow> bytes option" where
  "str_build t = (if length t < 2 ^ 62 then Some t else None)"

definition WriteReponse ::
    "(str_map \<Rightarrow> str_map) \<Rightarrow> (HttpContext, 'k) user_cb \<Rightarrow> HttpRequest \<Rightarrow> HttpResponse \<Rightarrow>
     (HttpContext, 'k) conn_sys \<Rightarrow> (HttpResponse \<times> (HttpContext, 'k) conn_sys) option" where
  "WriteReponse iter user req rsp s =
     (let rsp' = complete_headers req rsp in do {
        response \<leftarrow> str_build (response_text iter req rsp');
        s1 \<leftarrow> Connection_Send user (el_thread (snd s)) response s;
        Some (rsp', s1)
      })"

section \<open>Routing\<close>

text \<open>The file a request names. \<open>back()\<close> of an empty path is undefined; the path is not empty
  where \<open>file_path\<close> is used.\<close>

definition file_path :: "HttpServer \<Rightarrow> HttpRequest \<Rightarrow> bytes" where
  "file_path srv req =
     (let p = basedir srv @ req_path req
      in if last (req_path req) = CHR ''/'' then p @ ''index.html'' else p)"

definition IsFileHandler :: "file_env \<Rightarrow> HttpServer \<Rightarrow> HttpRequest \<Rightarrow> bool" where
  "IsFileHandler fs srv req =
     (if basedir srv = [] then False
      else if req_method req \<noteq> ''GET'' \<and> req_method req \<noteq> ''HEAD'' then False
      else if \<not> IsValid (req_path req) then False
      else if req_path req = [] then False
      else if \<not> IsRegular fs (file_path srv req) then False
      else True)"

definition FileHandler :: "file_env \<Rightarrow> HttpServer \<Rightarrow> HttpRequest \<Rightarrow> HttpResponse \<Rightarrow> HttpResponse" where
  "FileHandler fs srv req rsp =
     (let (ret, body) = ReadFile fs (file_path srv req) (rsp_body rsp); rsp1 = rsp\<lparr>rsp_body := body\<rparr>
      in if \<not> ret then rsp1
         else HttpResponse_SetHeader ''Content-Type'' (ExMime (file_path srv req)) rsp1)"

text \<open>The groups of an expression, and the \<open>smatch\<close> of a match: the whole text, then the groups.\<close>

primrec mark_count :: "regex \<Rightarrow> nat" where
  "mark_count REps = 0"
| "mark_count (RChar c) = 0"
| "mark_count RAny = 0"
| "mark_count (RSet cs) = 0"
| "mark_count (RNot cs) = 0"
| "mark_count (RSeq r1 r2) = mark_count r1 + mark_count r2"
| "mark_count (RAlt r1 r2) = mark_count r1 + mark_count r2"
| "mark_count (RStar r) = mark_count r"
| "mark_count (ROpt r) = mark_count r"
| "mark_count (RGroup n r) = Suc (mark_count r)"

definition smatch :: "regex \<Rightarrow> bytes \<Rightarrow> captures option \<Rightarrow> bytes list" where
  "smatch re path m =
     (case m of None \<Rightarrow> [] | Some caps \<Rightarrow> path # map (capture caps) [1..<Suc (mark_count re)])"

fun Dispatcher :: "HttpRequest \<Rightarrow> HttpResponse \<Rightarrow> handlers \<Rightarrow> HttpResponse" where
  "Dispatcher req rsp [] = rsp\<lparr>rsp_statu := 404\<rparr>"
| "Dispatcher req rsp ((re, handler) # handlers) =
     (let m = regex_match False re (req_path req); req1 = req\<lparr>req_matches := smatch re (req_path req) m\<rparr>
      in if m = None then Dispatcher req1 rsp handlers else handler req1 rsp)"

definition Route :: "file_env \<Rightarrow> HttpServer \<Rightarrow> HttpRequest \<Rightarrow> HttpResponse \<Rightarrow> HttpResponse" where
  "Route fs srv req rsp =
     (if IsFileHandler fs srv req then FileHandler fs srv req rsp
      else if req_method req = ''GET'' \<or> req_method req = ''HEAD'' then Dispatcher req rsp (get_route srv)
      else if req_method req = ''POST'' then Dispatcher req rsp (post_route srv)
      else if req_method req = ''PUT'' then Dispatcher req rsp (put_route srv)
      else if req_method req = ''DELETE'' then Dispatcher req rsp (delete_route srv)
      else rsp\<lparr>rsp_statu := 405\<rparr>)"

section \<open>Callbacks of a connection\<close>

datatype http_cb = CbConnected | CbMessage | CbServerClose

type_synonym http_sys = "(HttpContext, http_cb) conn_sys"

definition set_context :: "HttpContext \<Rightarrow> http_sys \<Rightarrow> http_sys" where
  "set_context c s = (SetContext (Some c) (fst s), snd s)"

definition set_input :: "Buffer \<Rightarrow> http_sys \<Rightarrow> http_sys" where
  "set_input b s = ((fst s)\<lparr>inBuffer := b\<rparr>, snd s)"

definition OnConnected :: "http_sys \<Rightarrow> http_sys option" where
  "OnConnected s = Some (set_context HttpContext_new s)"

text \<open>What a callback of the connection does, given what \<open>OnMessage\<close> does. The server's own close
  callback changes the server's table of connections and neither the connection nor its loop.\<close>

definition http_callback :: "(http_sys \<Rightarrow> http_sys option) \<Rightarrow> http_cb \<Rightarrow> http_sys \<Rightarrow> http_sys option" where
  "http_callback on_message k s =
     (case k of CbConnected \<Rightarrow> OnConnected s | CbMessage \<Rightarrow> on_message s | CbServerClose \<Rightarrow> Some s)"

primrec OnMessage :: "file_env \<Rightarrow> (str_map \<Rightarrow> str_map) \<Rightarrow> HttpServer \<Rightarrow> nat \<Rightarrow> http_sys \<Rightarrow> http_sys option" where
  "OnMessage fs iter srv 0 = (\<lambda>s. None)"
| "OnMessage fs iter srv (Suc n) = (\<lambda>s.
     if 0 < ReadAbleSize (inBuffer (fst s)) then do {
       ctx0 \<leftarrow> conn_context (fst s);
       (ctx, buf) \<leftarrow> RecvHttpRequest ctx0 (inBuffer (fst s));
       let s1 = set_context ctx (set_input buf s);
       let req = ctx_request ctx;
       let rsp = HttpResponse_new (resp_statu ctx);
       let user = http_callback (OnMessage fs iter srv n);
       if 400 \<le> resp_statu ctx then do {
         (rsp1, s2) \<leftarrow> WriteReponse iter user req (ErrorHandler req rsp) s1;
         let s3 = set_context (HttpContext_ReSet ctx) s2;
         buf1 \<leftarrow> MoveReadOffset (ReadAbleSize (inBuffer (fst s3))) (inBuffer (fst s3));
         ShutDown user (el_thread (snd s3)) (set_input buf1 s3)
       }
       else if recv_statu ctx \<noteq> RECV_HTTP_OVER then Some s1
       else do {
         (rsp1, s2) \<leftarrow> WriteReponse iter user req (Route fs srv req rsp) s1;
         let s3 = set_context (HttpContext_ReSet ctx) s2;
         s4 \<leftarrow> (if HttpResponse_Close rsp1 then ShutDown user (el_thread (snd s3)) s3 else Some s3);
         OnMessage fs iter srv n s4
       }
     }
     else Some s)"

end
