(* ===== verification/HttpGrammar.thy ===== *)
theory HttpGrammar
  imports HttpContext
begin

text \<open>
  What the parser of \<open>HttpContext\<close> accepts, stated without the matcher: the parts of a
  request line, the uniqueness of its decomposition, and the parse of a complete request
  (request line, headers, blank line, body) back to its parts.
\<close>

section \<open>Character comparison without case\<close>

lemma to_lower_upper: "is_upper x \<Longrightarrow> code (to_lower x) = code x + 32"
  by (simp add: to_lower_def is_upper_def of_char_of)

lemma to_lower_other: "\<not> is_upper x \<Longrightarrow> to_lower x = x"
  by (simp add: to_lower_def)

lemma code_inject: "code x = code y \<Longrightarrow> x = y"
  by simp

lemma same_char_nonalpha:
  assumes "\<not> is_alpha y"
  shows "same_char True x y \<longleftrightarrow> x = y"
proof -
  have y: "to_lower y = y" "\<not> is_lower y" using assms by (auto simp: is_alpha_def to_lower_other)
  show ?thesis
  proof (cases "is_upper x")
    case True
    then have "is_lower (to_lower x)" using to_lower_upper [OF True] by (simp add: is_lower_def is_upper_def)
    then have "to_lower x \<noteq> y" using y(2) by auto
    moreover have "x \<noteq> y" using True assms by (auto simp: is_alpha_def)
    ultimately show ?thesis by (simp add: same_char_def y(1))
  next
    case False
    then show ?thesis by (simp add: same_char_def to_lower_other y(1))
  qed
qed

lemma same_char_upper:
  assumes "same_char True x y" and "is_upper y"
  shows "to_upper x = y" and "is_alpha x"
proof -
  have e: "code (to_lower x) = code y + 32"
    using assms by (simp add: same_char_def to_lower_upper)
  have "to_upper x = y \<and> is_alpha x"
  proof (cases "is_upper x")
    case True
    then have "x = y" using e to_lower_upper [OF True] by simp
    then show ?thesis using assms(2) by (auto simp: to_upper_def char_class_defs)
  next
    case False
    then have x: "code x = code y + 32" using e by (simp add: to_lower_other)
    then have "is_lower x" using assms(2) by (simp add: is_lower_def is_upper_def)
    moreover have "char_of (code x - 32) = y" using x by simp
    ultimately show ?thesis by (simp add: to_upper_def is_alpha_def)
  qed
  then show "to_upper x = y" and "is_alpha x" by auto
qed

text \<open>A word written with any mix of cases.\<close>

definition ieq :: "bytes \<Rightarrow> bytes \<Rightarrow> bool" where
  "ieq s t \<longleftrightarrow> list_all2 (same_char True) s t"

lemma ieq_upper: "ieq s t \<Longrightarrow> list_all is_upper t \<Longrightarrow> map to_upper s = t \<and> list_all is_alpha s"
  unfolding ieq_def
  by (induction rule: list_all2_induct) (auto dest: same_char_upper)

lemma ieq_length: "ieq s t \<Longrightarrow> length s = length t"
  by (simp add: ieq_def list_all2_lengthD)

section \<open>The parts of a request line\<close>

definition http_methods :: "bytes list" where
  "http_methods = [''GET'', ''HEAD'', ''POST'', ''PUT'', ''DELETE'']"

definition is_method :: "bytes \<Rightarrow> bool" where
  "is_method m \<longleftrightarrow> list_ex (ieq m) http_methods"

definition is_version :: "bytes \<Rightarrow> bool" where
  "is_version v \<longleftrightarrow> (\<exists>v0 d. v = v0 @ [d] \<and> ieq v0 ''HTTP/1.'' \<and> (d = CHR ''0'' \<or> d = CHR ''1''))"

definition is_eol :: "bytes \<Rightarrow> bool" where
  "is_eol e \<longleftrightarrow> e = [] \<or> e = [CHR 0x0A] \<or> e = [CHR 0x0D, CHR 0x0A]"

definition query_text :: "bytes option \<Rightarrow> bytes" where
  "query_text q = (case q of None \<Rightarrow> [] | Some t \<Rightarrow> CHR ''?'' # t)"

text \<open>\<open>is_request_line l m p q v\<close>: the line \<open>l\<close> has the method \<open>m\<close>, the path \<open>p\<close> before the first
  question mark, the query \<open>q\<close> after it, if there is one, and the version \<open>v\<close>.\<close>

definition is_request_line :: "bytes \<Rightarrow> bytes \<Rightarrow> bytes \<Rightarrow> bytes option \<Rightarrow> bytes \<Rightarrow> bool" where
  "is_request_line l m p q v \<longleftrightarrow>
     is_method m \<and> CHR ''?'' \<notin> set p \<and> (\<forall>t. q = Some t \<longrightarrow> list_all is_any t) \<and> is_version v \<and>
     (\<exists>e. is_eol e \<and> l = m @ CHR '' '' # p @ query_text q @ CHR '' '' # v @ e)"

lemma is_methodD:
  assumes "is_method m"
  shows "map to_upper m \<in> set http_methods" and "CHR '' '' \<notin> set m"
proof -
  obtain t where t: "t \<in> set http_methods" "ieq m t" using assms by (auto simp: is_method_def list_ex_iff)
  then have "list_all is_upper t" by (auto simp: http_methods_def is_upper_def)
  with t ieq_upper [OF t(2)] show "map to_upper m \<in> set http_methods" and "CHR '' '' \<notin> set m"
    by (auto simp: list_all_iff char_class_defs)
qed

lemma is_version_length: "is_version v \<Longrightarrow> length v = 8"
  by (auto simp: is_version_def dest!: ieq_length)

section \<open>Uniqueness\<close>

lemma eol_unique:
  assumes "x @ v @ e = x' @ v' @ e'" and "is_version v" "is_version v'" "is_eol e" "is_eol e'"
  shows "e = e'"
proof -
  obtain v0 d v1 d' where "v = v0 @ [d]" "v' = v1 @ [d']"
      "d = CHR ''0'' \<or> d = CHR ''1''" "d' = CHR ''0'' \<or> d' = CHR ''1''"
    using assms(2,3) by (auto simp: is_version_def)
  moreover have "rev (x @ v @ e) = rev (x' @ v' @ e')" using assms(1) by simp
  ultimately show ?thesis using assms(4,5) by (auto simp: is_eol_def)
qed

lemma first_mark_unique:
  assumes "p @ query_text q = p' @ query_text q'" and "CHR ''?'' \<notin> set p" "CHR ''?'' \<notin> set p'"
  shows "p = p' \<and> q = q'"
proof -
  have "takeWhile (\<lambda>c. c \<noteq> CHR ''?'') (p @ query_text q) = p"
    if "CHR ''?'' \<notin> set p" for p and q :: "bytes option"
    using that takeWhile_upto [OF that]
    by (cases q) (auto simp: query_text_def takeWhile_eq_all_conv)
  then have "p = p'" using assms by metis
  with assms(1) show ?thesis by (auto simp: query_text_def split: option.splits)
qed

lemma first_space_unique:
  assumes "m @ CHR '' '' # r = m' @ CHR '' '' # r'" and "CHR '' '' \<notin> set m" "CHR '' '' \<notin> set m'"
  shows "m = m' \<and> r = r'"
proof -
  have "m = m'" using assms takeWhile_upto [OF assms(2), of r] takeWhile_upto [OF assms(3), of r'] by metis
  with assms(1) show ?thesis by simp
qed

lemma request_line_unique:
  assumes "is_request_line l m p q v" and "is_request_line l m' p' q' v'"
  shows "m = m' \<and> p = p' \<and> q = q' \<and> v = v'"
proof -
  obtain e e' where e: "is_eol e" "l = m @ CHR '' '' # p @ query_text q @ CHR '' '' # v @ e"
    and e': "is_eol e'" "l = m' @ CHR '' '' # p' @ query_text q' @ CHR '' '' # v' @ e'"
    using assms by (auto simp: is_request_line_def)
  have v: "is_version v" "is_version v'" and m: "CHR '' '' \<notin> set m" "CHR '' '' \<notin> set m'"
    and p: "CHR ''?'' \<notin> set p" "CHR ''?'' \<notin> set p'"
    using assms is_methodD by (auto simp: is_request_line_def)
  have 1: "m = m'" "p @ query_text q @ CHR '' '' # v @ e = p' @ query_text q' @ CHR '' '' # v' @ e'"
    using first_space_unique [OF trans [OF e(2) [symmetric] e'(2)] m] by auto
  have 2: "e = e'"
    using eol_unique [of "p @ query_text q @ ['' '' ! 0]" v e "p' @ query_text q' @ ['' '' ! 0]" v' e']
      1(2) v e(1) e'(1) by simp
  have "length v = length v'" using v is_version_length by simp
  then have "p @ query_text q = p' @ query_text q' \<and> v = v'"
    using 1(2) 2 append_eq_append_conv [of "p @ query_text q" "p' @ query_text q'" "CHR '' '' # v" "CHR '' '' # v'"]
    by simp
  then show ?thesis using first_mark_unique [OF _ p] 1(1) by blast
qed

section \<open>The expression of ParseHttpLine\<close>

lemma matches_method: "matches True http_method_re c m c' \<longleftrightarrow> c' = c \<and> is_method m"
  unfolding http_method_re_def matches_simps(7) matches_rlit
  by (auto simp: is_method_def http_methods_def ieq_def)

lemma same_char_space: "same_char True x (CHR '' '') \<longleftrightarrow> x = CHR '' ''"
  by (rule same_char_nonalpha) (simp add: char_class_defs)

lemma same_char_mark: "same_char True x (CHR ''?'') \<longleftrightarrow> x = CHR ''?''"
  by (rule same_char_nonalpha) (simp add: char_class_defs)

lemma in_set_mark: "in_set True ''?'' x \<longleftrightarrow> x = CHR ''?''"
  by (simp add: in_set_def same_char_mark)

lemma matches_path: "matches True (RStar (RNot ''?'')) c p c' \<longleftrightarrow> c' = c \<and> CHR ''?'' \<notin> set p"
  by (auto simp: star_not in_set_mark list_all_iff)

lemma matches_version:
  "matches True (RSeq (rlit ''HTTP/1.'') (RSet ''01'')) c v c' \<longleftrightarrow> c' = c \<and> is_version v"
proof -
  have d: "in_set True ''01'' x \<longleftrightarrow> x = CHR ''0'' \<or> x = CHR ''1''" for x
    by (auto simp: in_set_def same_char_nonalpha char_class_defs)
  show ?thesis
    unfolding matches_simps(4,6) matches_rlit ieq_def [symmetric] is_version_def d by auto
qed

lemma matches_eol:
  "matches True (ROpt (RAlt (rlit [CHR 0x0A]) (rlit [CHR 0x0D, CHR 0x0A]))) c e c' \<longleftrightarrow> c' = c \<and> is_eol e"
proof -
  have "list_all2 (same_char True) e [CHR 0x0A] \<longleftrightarrow> e = [CHR 0x0A]"
    "list_all2 (same_char True) e [CHR 0x0D, CHR 0x0A] \<longleftrightarrow> e = [CHR 0x0D, CHR 0x0A]"
    by (auto simp: list_all2_Cons2 same_char_nonalpha char_class_defs)
  then show ?thesis unfolding matches_simps(7,8) matches_rlit is_eol_def by auto
qed

lemma matches_query:
  "matches True (ROpt (RSeq (RChar (CHR ''?'')) (RGroup 3 (RStar RAny)))) c t c' \<longleftrightarrow>
   (\<exists>q. t = query_text q \<and> (\<forall>s. q = Some s \<longrightarrow> list_all is_any s) \<and>
        c' = (case q of None \<Rightarrow> c | Some s \<Rightarrow> c(3 := Some s)))"
proof -
  have "(\<exists>q. t = query_text q \<and> (\<forall>s. q = Some s \<longrightarrow> list_all is_any s) \<and>
        c' = (case q of None \<Rightarrow> c | Some s \<Rightarrow> c(3 := Some s))) \<longleftrightarrow>
      t = [] \<and> c' = c \<or> (\<exists>s. t = CHR ''?'' # s \<and> list_all is_any s \<and> c' = c(3 := Some s))"
    (is "(\<exists>q. ?P q) \<longleftrightarrow> ?R")
  proof
    assume "\<exists>q. ?P q"
    then show ?R by (auto simp: query_text_def split: option.splits)
  next
    assume ?R
    then show "\<exists>q. ?P q"
    proof (elim disjE exE)
      assume "t = [] \<and> c' = c"
      then have "?P None" by (simp add: query_text_def)
      then show ?thesis by blast
    next
      fix s assume "t = CHR ''?'' # s \<and> list_all is_any s \<and> c' = c(3 := Some s)"
      then have "?P (Some s)" by (simp add: query_text_def)
      then show ?thesis by blast
    qed
  qed
  then show ?thesis
    unfolding matches_simps(2,6,8,9) star_any same_char_mark by auto
qed

definition line_caps :: "bytes \<Rightarrow> bytes \<Rightarrow> bytes option \<Rightarrow> bytes \<Rightarrow> captures" where
  "line_caps m p q v =
     (let c = (\<lambda>_. None)(1 := Some m, 2 := Some p);
          c3 = (case q of None \<Rightarrow> c | Some s \<Rightarrow> c(3 := Some s))
      in c3(4 := Some v))"

lemma matches_request_line:
  "matches True request_line_re (\<lambda>_. None) l c \<longleftrightarrow>
   (\<exists>m p q v. is_request_line l m p q v \<and> c = line_caps m p q v)"
proof
  assume "matches True request_line_re (\<lambda>_. None) l c"
  then show "\<exists>m p q v. is_request_line l m p q v \<and> c = line_caps m p q v"
    unfolding request_line_re_def
    apply (simp only: matches_simps(6))
    apply (elim exE conjE)
    apply (simp only: matches_eol matches_query matches_simps(2,9) same_char_space matches_method
        matches_path matches_version)
    apply (elim exE conjE)
    apply (simp only: is_request_line_def line_caps_def Let_def)
    apply (intro exI conjI)
          apply assumption+
         apply auto
    done
next
  assume "\<exists>m p q v. is_request_line l m p q v \<and> c = line_caps m p q v"
  then obtain m p q v e where l: "l = m @ [CHR '' ''] @ p @ query_text q @ [CHR '' ''] @ v @ e"
      and ok: "is_method m" "CHR ''?'' \<notin> set p" "\<forall>t. q = Some t \<longrightarrow> list_all is_any t"
        "is_version v" "is_eol e" and c: "c = line_caps m p q v"
    by (auto simp: is_request_line_def)
  have f1: "matches True (RGroup 1 http_method_re) c0 m (c0(1 := Some m))" for c0
    using ok(1) by (intro matches.grp) (simp add: matches_method)
  have f2: "matches True (RChar (CHR '' '')) c0 [CHR '' ''] c0" for c0
    by (rule matches.chr) (simp add: same_char_def)
  have f3: "matches True (RGroup 2 (RStar (RNot ''?''))) c0 p (c0(2 := Some p))" for c0
    using ok(2) by (intro matches.grp) (simp add: matches_path)
  have f4: "matches True (ROpt (RSeq (RChar (CHR ''?'')) (RGroup 3 (RStar RAny)))) c0 (query_text q)
      (case q of None \<Rightarrow> c0 | Some s \<Rightarrow> c0(3 := Some s))" for c0
    using ok(3) unfolding matches_query by blast
  have f5: "matches True (RGroup 4 (RSeq (rlit ''HTTP/1.'') (RSet ''01''))) c0 v (c0(4 := Some v))" for c0
    using ok(4) by (intro matches.grp) (simp only: matches_version simp_thms)
  have f6: "matches True (ROpt (RAlt (rlit [CHR 0x0A]) (rlit [CHR 0x0D, CHR 0x0A]))) c0 e c0" for c0
    using ok(5) by (simp only: matches_eol simp_thms)
  show "matches True request_line_re (\<lambda>_. None) l c"
    unfolding request_line_re_def l c line_caps_def Let_def
    by (rule matches.seq, rule f1, rule matches.seq, rule f2, rule matches.seq, rule f3,
        rule matches.seq, rule f4, rule matches.seq, rule f2, rule matches.seq, rule f5, rule f6)
qed

lemma regex_match_request_line:
  "is_request_line l m p q v \<Longrightarrow> regex_match True request_line_re l = Some (line_caps m p q v)"
  by (rule regex_match_unique) (auto simp: matches_request_line dest: request_line_unique)

lemma regex_match_no_request_line:
  "\<nexists>m p q v. is_request_line l m p q v \<Longrightarrow> regex_match True request_line_re l = None"
  using regex_match_sound [of True request_line_re l]
  by (cases "regex_match True request_line_re l") (auto simp: matches_request_line)

lemma capture_line_caps:
  "capture (line_caps m p q v) (Suc 0) = m" "capture (line_caps m p q v) 2 = p"
  "capture (line_caps m p q v) 3 = (case q of None \<Rightarrow> [] | Some s \<Rightarrow> s)"
  "capture (line_caps m p q v) 4 = v"
  by (auto simp: line_caps_def capture_def Let_def split: option.splits)

text \<open>The non-empty fields of the query, and the request with the parts of the line.\<close>

definition query_fields :: "bytes option \<Rightarrow> bytes list" where
  "query_fields q = filter (\<lambda>f. f \<noteq> []) (HttpUtil.fields (CHR ''&'') (case q of None \<Rightarrow> [] | Some s \<Rightarrow> s))"

definition with_line :: "bytes \<Rightarrow> bytes \<Rightarrow> bytes \<Rightarrow> HttpContext \<Rightarrow> HttpContext" where
  "with_line m p v c =
     c\<lparr>ctx_request := (ctx_request c)\<lparr>req_method := map to_upper m, req_path := UrlDecode p False,
                                       req_version := v\<rparr>\<rparr>"

lemma ParseHttpLine_request_line:
  "is_request_line l m p q v \<Longrightarrow>
   ParseHttpLine l c = ParseHttpLine_params (query_fields q) (with_line m p v c)"
  by (simp add: ParseHttpLine_def regex_match_request_line capture_line_caps Split_char query_fields_def
      with_line_def Let_def)

text \<open>
  \<open>ParseHttpLine\<close> accepts exactly the request lines: a line that is a method (in any
  mix of cases), a path up to the first question mark, an optional query and a version,
  separated by single spaces, sets the upper-case method, the decoded path and the
  version, and goes on with the non-empty fields of the query; every other line is
  refused with 400.
\<close>

lemma request_line_grammar:
  "(is_request_line l m p q v \<longrightarrow>
      ParseHttpLine l c = ParseHttpLine_params (query_fields q) (with_line m p v c)) \<and>
   ((\<nexists>m p q v. is_request_line l m p q v) \<longrightarrow> ParseHttpLine l c = (False, ctx_error 400 c))"
  using regex_match_no_request_line [of l] ParseHttpLine_request_line [of l m p q v c]
  by (simp add: ParseHttpLine_def [of l c] del: not_ex)

section \<open>A complete request\<close>

text \<open>The name and the text of a field \<open>name=text\<close> of the query, and all of them entered in order.\<close>

definition param_of :: "bytes \<Rightarrow> bytes \<times> bytes" where
  "param_of f =
     (let (k, v) = (takeWhile (\<lambda>x. x \<noteq> CHR ''='') f, tl (dropWhile (\<lambda>x. x \<noteq> CHR ''='') f))
      in (UrlDecode k True, UrlDecode v True))"

definition set_params :: "bytes list \<Rightarrow> HttpRequest \<Rightarrow> HttpRequest" where
  "set_params fs r = fold (\<lambda>f. SetParam (fst (param_of f)) (snd (param_of f))) fs r"

definition set_headers :: "str_map \<Rightarrow> HttpRequest \<Rightarrow> HttpRequest" where
  "set_headers hs r = fold (\<lambda>(k, v). HttpRequest_SetHeader k v) hs r"

lemma str_find_char:
  assumes "c \<in> set s"
  shows "str_find [c] 0 s = Some (length (takeWhile (\<lambda>x. x \<noteq> c) s))"
  using assms unfolding str_find_def find_sub_single by (induction s) auto

lemma drop_Suc_takeWhile: "drop (Suc (length (takeWhile P s))) s = tl (dropWhile P s)"
  by (simp add: drop_Suc tl_drop [symmetric] dropWhile_eq_drop)

lemma ParseHttpLine_params_all:
  "list_all (\<lambda>f. CHR ''='' \<in> set f) fs \<Longrightarrow>
   ParseHttpLine_params fs c = (True, c\<lparr>ctx_request := set_params fs (ctx_request c)\<rparr>)"
proof (induction fs c rule: ParseHttpLine_params.induct)
  case (2 str strs c)
  then have "str_find ''='' 0 str = Some (length (takeWhile (\<lambda>x. x \<noteq> CHR ''='') str))"
    by (intro str_find_char) simp
  with "2.IH" [OF this refl refl] "2.prems" show ?case
    by (simp add: set_params_def param_of_def drop_Suc_takeWhile takeWhile_eq_take [symmetric])
qed (simp add: set_params_def)

text \<open>The text of a request, with both lines ends \<open>CR LF\<close>.\<close>

definition CRLF :: bytes where
  "CRLF = [CHR 0x0D, CHR 0x0A]"

definition header_line :: "bytes \<times> bytes \<Rightarrow> bytes" where
  "header_line h = fst h @ '': '' @ snd h @ CRLF"

definition request_line :: "bytes \<Rightarrow> bytes \<Rightarrow> bytes option \<Rightarrow> bytes \<Rightarrow> bytes" where
  "request_line m p q v = m @ CHR '' '' # p @ query_text q @ CHR '' '' # v @ CRLF"

definition request_text :: "bytes \<Rightarrow> bytes \<Rightarrow> bytes option \<Rightarrow> bytes \<Rightarrow> str_map \<Rightarrow> bytes \<Rightarrow> bytes" where
  "request_text m p q v hs body =
     request_line m p q v @ concat (map header_line hs) @ CRLF @ body"

definition header_wf :: "bytes \<times> bytes \<Rightarrow> bool" where
  "header_wf h \<longleftrightarrow> CHR '':'' \<notin> set (fst h) \<and> CHR 0x0A \<notin> set (fst h) \<and> CHR 0x0A \<notin> set (snd h) \<and>
     length (header_line h) \<le> MAX_LINE"

definition request_wf :: "bytes \<Rightarrow> bytes \<Rightarrow> bytes option \<Rightarrow> bytes \<Rightarrow> str_map \<Rightarrow> bool" where
  "request_wf m p q v hs \<longleftrightarrow>
     is_request_line (request_line m p q v) m p q v \<and> CHR 0x0A \<notin> set p \<and>
     length (request_line m p q v) \<le> MAX_LINE \<and>
     list_all (\<lambda>f. CHR ''='' \<in> set f) (query_fields q) \<and> list_all header_wf hs"

text \<open>The request the text stands for.\<close>

definition request_of :: "bytes \<Rightarrow> bytes \<Rightarrow> bytes option \<Rightarrow> bytes \<Rightarrow> str_map \<Rightarrow> HttpRequest" where
  "request_of m p q v hs =
     set_headers hs (set_params (query_fields q)
       (HttpRequest_new\<lparr>req_method := map to_upper m, req_path := UrlDecode p False, req_version := v\<rparr>))"

lemma line_of_line:
  assumes "CHR 0x0A \<notin> set l"
  shows "line_of (l @ CHR 0x0A # s) = l @ [CHR 0x0A]"
proof -
  have "find_index (\<lambda>c. c = CHR 0x0A) l = None" using assms by (auto simp: find_index_None_iff)
  then show ?thesis by (simp add: line_of_def find_index_append)
qed

lemma header_line_find:
  assumes "CHR '':'' \<notin> set k"
  shows "str_find '': '' 0 (k @ '': '' @ v) = Some (length k)"
  using assms unfolding str_find_def by (induction k) auto

lemma spec_header_line:
  assumes "header_wf h"
  shows "spec_header (header_line h) c =
     (True, c\<lparr>ctx_request := HttpRequest_SetHeader (fst h) (snd h) (ctx_request c)\<rparr>)"
proof -
  have "strip_eol (header_line h) = fst h @ '': '' @ snd h"
    by (simp add: strip_eol_def header_line_def CRLF_def butlast_append)
  with assms header_line_find [of "fst h" "snd h"] show ?thesis
    by (simp add: spec_header_def header_wf_def)
qed

lemma header_line_of:
  assumes "header_wf h"
  shows "line_of (header_line h @ s) = header_line h"
  using line_of_line [of "fst h @ '': '' @ snd h @ [CHR 0x0D]" s] assms
  by (simp add: header_line_def CRLF_def header_wf_def)

lemma header_line_ne: "header_line h \<noteq> []" "header_line h \<noteq> [CHR 0x0A]" "header_line h \<noteq> [CHR 0x0D, CHR 0x0A]"
  by (auto simp: header_line_def CRLF_def append_eq_Cons_conv)

lemma spec_head_lines:
  assumes "list_all header_wf hs"
  shows "spec_head c (concat (map header_line hs) @ CRLF @ s) =
     (c\<lparr>ctx_request := set_headers hs (ctx_request c), recv_statu := RECV_HTTP_BODY\<rparr>, s)"
  using assms
proof (induction hs arbitrary: c)
  case Nil
  have "line_of (CRLF @ s) = CRLF" using line_of_line [of "[CHR 0x0D]" s] by (simp add: CRLF_def)
  then show ?case
    by (subst spec_head.simps) (simp add: Let_def set_headers_def, simp add: CRLF_def MAX_LINE_def)
next
  case (Cons h hs)
  then have h: "header_wf h" by simp
  let ?s = "concat (map header_line hs) @ CRLF @ s"
  have l: "line_of (header_line h @ ?s) = header_line h" by (rule header_line_of [OF h])
  have "length (header_line h) \<le> MAX_LINE" using h by (simp add: header_wf_def)
  then have "spec_head c (header_line h @ ?s) =
      spec_head (c\<lparr>ctx_request := HttpRequest_SetHeader (fst h) (snd h) (ctx_request c)\<rparr>) ?s"
    by (subst spec_head.simps) (simp add: l Let_def spec_header_line [OF h] header_line_ne)
  then show ?case using Cons by (simp add: set_headers_def split_def)
qed

lemma ieq_no_lf: "ieq s t \<Longrightarrow> CHR 0x0A \<notin> set t \<Longrightarrow> CHR 0x0A \<notin> set s"
  unfolding ieq_def
proof (induction rule: list_all2_induct)
  case (Cons x xs y ys)
  have "x \<noteq> CHR 0x0A" if "same_char True x y" "y \<noteq> CHR 0x0A"
    using that by (auto simp: same_char_def to_lower_def is_upper_def char_of_eq split: if_splits)
  with Cons show ?case by auto
qed simp

lemma method_no_lf: "is_method m \<Longrightarrow> CHR 0x0A \<notin> set m"
  by (auto simp: is_method_def http_methods_def list_ex_iff dest!: ieq_no_lf)

lemma version_no_lf: "is_version v \<Longrightarrow> CHR 0x0A \<notin> set v"
  by (auto simp: is_version_def dest!: ieq_no_lf)

lemma request_line_of:
  assumes "request_wf m p q v hs"
  shows "line_of (request_line m p q v @ s) = request_line m p q v"
proof -
  have "CHR 0x0A \<notin> set m" "CHR 0x0A \<notin> set v"
    using assms method_no_lf [of m] version_no_lf [of v] by (simp_all add: request_wf_def is_request_line_def)
  moreover have "CHR 0x0A \<notin> set (query_text q)"
    using assms by (auto simp: request_wf_def is_request_line_def query_text_def is_any_def list_all_iff split: option.splits)
  ultimately have "CHR 0x0A \<notin> set (m @ CHR '' '' # p @ query_text q @ CHR '' '' # v @ [CHR 0x0D])"
    using assms by (auto simp: request_wf_def)
  from line_of_line [OF this, of s] show ?thesis by (simp add: request_line_def CRLF_def)
qed

lemma set_headers_params_other [simp]:
  "req_body (set_headers hs r) = req_body r" "req_method (set_headers hs r) = req_method r"
  "req_path (set_headers hs r) = req_path r" "req_version (set_headers hs r) = req_version r"
  "req_params (set_headers hs r) = req_params r"
  "req_body (set_params fs r) = req_body r" "req_method (set_params fs r) = req_method r"
  "req_path (set_params fs r) = req_path r" "req_version (set_params fs r) = req_version r"
  "req_headers (set_params fs r) = req_headers r"
proof -
  show "req_body (set_headers hs r) = req_body r" "req_method (set_headers hs r) = req_method r"
    "req_path (set_headers hs r) = req_path r" "req_version (set_headers hs r) = req_version r"
    "req_params (set_headers hs r) = req_params r"
    unfolding set_headers_def by (induction hs arbitrary: r) (auto simp: HttpRequest_SetHeader_def)
  show "req_body (set_params fs r) = req_body r" "req_method (set_params fs r) = req_method r"
    "req_path (set_params fs r) = req_path r" "req_version (set_params fs r) = req_version r"
    "req_headers (set_params fs r) = req_headers r"
    unfolding set_params_def by (induction fs arbitrary: r) (auto simp: SetParam_def)
qed

lemma set_headers_lookup: "map_of (req_headers (set_headers hs r)) k = (map_of (req_headers r) ++ map_of (rev hs)) k"
  unfolding set_headers_def
  by (induction hs arbitrary: r)
     (auto simp: HttpRequest_SetHeader_def update_conv map_add_def split: option.splits)

lemma set_params_lookup:
  "map_of (req_params (set_params fs r)) k = (map_of (req_params r) ++ map_of (rev (map param_of fs))) k"
  unfolding set_params_def
  by (induction fs arbitrary: r) (auto simp: SetParam_def update_conv map_add_def split: option.splits)

lemma request_of_lookup [simp]:
  "map_of (req_headers (request_of m p q v hs)) k = map_of (rev hs) k"
  "map_of (req_params (request_of m p q v hs)) k = map_of (rev (map param_of (query_fields q))) k"
  by (simp_all add: request_of_def set_headers_lookup set_params_lookup HttpRequest_new_def)

lemma request_of_parts [simp]:
  "req_method (request_of m p q v hs) = map to_upper m" "req_path (request_of m p q v hs) = UrlDecode p False"
  "req_version (request_of m p q v hs) = v" "req_body (request_of m p q v hs) = []"
  by (simp_all add: request_of_def HttpRequest_new_def)

lemma recv_spec_request:
  assumes "request_wf m p q v hs" and cl: "unat (ContentLength (request_of m p q v hs)) = length body"
  shows "recv_spec HttpContext_new (request_text m p q v hs body @ rest) =
     (\<lparr>resp_statu = 200, recv_statu = RECV_HTTP_OVER,
       ctx_request = (request_of m p q v hs)\<lparr>req_body := body\<rparr>\<rparr>, rest)"
proof -
  let ?s = "concat (map header_line hs) @ CRLF @ body @ rest"
  let ?c1 = "HttpContext_new\<lparr>recv_statu := RECV_HTTP_HEAD, ctx_request := set_params (query_fields q)
       (HttpRequest_new\<lparr>req_method := map to_upper m, req_path := UrlDecode p False, req_version := v\<rparr>)\<rparr>"
  have wf: "is_request_line (request_line m p q v) m p q v" "length (request_line m p q v) \<le> MAX_LINE"
      "list_all (\<lambda>f. CHR ''='' \<in> set f) (query_fields q)" "list_all header_wf hs"
    using assms(1) by (simp_all add: request_wf_def)
  have t: "request_text m p q v hs body @ rest = request_line m p q v @ ?s" by (simp add: request_text_def)
  have "request_line m p q v \<noteq> []" by (simp add: request_line_def)
  moreover have "ParseHttpLine (request_line m p q v) HttpContext_new = (True, ?c1\<lparr>recv_statu := RECV_HTTP_LINE\<rparr>)"
    using wf(1,3) by (simp add: ParseHttpLine_request_line ParseHttpLine_params_all with_line_def HttpContext_new_def)
  ultimately have line: "spec_line HttpContext_new (request_line m p q v @ ?s) = (?c1, ?s)"
    using wf(2) unfolding spec_line_def request_line_of [OF assms(1)] Let_def by (simp add: HttpContext_new_def)
  have head: "spec_head ?c1 ?s = (?c1\<lparr>ctx_request := request_of m p q v hs, recv_statu := RECV_HTTP_BODY\<rparr>, body @ rest)"
    (is "_ = (?c2, _)")
    using spec_head_lines [OF wf(4), of ?c1 "body @ rest"] by (simp add: request_of_def)
  have "spec_body ?c2 (body @ rest) = (?c2\<lparr>recv_statu := RECV_HTTP_OVER,
      ctx_request := (request_of m p q v hs)\<lparr>req_body := body\<rparr>\<rparr>, rest)"
    using cl by (auto simp: spec_body_def Let_def append_body_def unat_eq_zero)
  moreover have "recv_statu HttpContext_new = RECV_HTTP_LINE" by (simp add: HttpContext_new_def)
  ultimately have "recv_spec HttpContext_new (request_line m p q v @ ?s) = (?c2\<lparr>recv_statu := RECV_HTTP_OVER,
      ctx_request := (request_of m p q v hs)\<lparr>req_body := body\<rparr>\<rparr>, rest)"
    unfolding recv_spec_def by (simp add: line head)
  then show ?thesis unfolding t by (simp add: HttpContext_new_def)
qed

text \<open>
  C6. Round trip of a request: a buffer that starts with the text of a well-formed request
  (request line, headers with CR LF line ends, blank line, a body of the announced length)
  is parsed to exactly that request and the parser is done: method in upper case, decoded
  path, version, decoded parameters and headers (the last of equal names), body; and what
  follows the request stays in the buffer.
\<close>

theorem request_roundtrip:
  assumes "buffer_inv b" and "readable b = request_text m p q v hs body @ rest"
    and "request_wf m p q v hs" and "unat (ContentLength (request_of m p q v hs)) = length body"
  shows "\<exists>c' b'. RecvHttpRequest HttpContext_new b = Some (c', b') \<and>
           buffer_inv b' \<and> readable b' = rest \<and>
           recv_statu c' = RECV_HTTP_OVER \<and> resp_statu c' = 200 \<and>
           req_method (ctx_request c') = map to_upper m \<and> req_path (ctx_request c') = UrlDecode p False \<and>
           req_version (ctx_request c') = v \<and> req_body (ctx_request c') = body \<and>
           map_of (req_headers (ctx_request c')) = map_of (rev hs) \<and>
           map_of (req_params (ctx_request c')) = map_of (rev (map param_of (query_fields q)))"
proof -
  obtain c' b' where r: "RecvHttpRequest HttpContext_new b = Some (c', b')" "buffer_inv b'"
      "(c', readable b') = recv_spec HttpContext_new (readable b)"
    using RecvHttpRequest_refines [OF assms(1), of HttpContext_new] by (auto elim!: returnsE)
  show ?thesis
    using r recv_spec_request [OF assms(3,4), of rest] assms(2) by (auto simp: fun_eq_iff)
qed

text \<open>A concrete request.\<close>

definition demo_headers :: str_map where
  "demo_headers = [(''Host'', ''x''), (''Content-Length'', ''2'')]"

lemma demo_line: "is_request_line (request_line ''GET'' ''/a%20b'' (Some ''k=v'') ''HTTP/1.1'')
    ''GET'' ''/a%20b'' (Some ''k=v'') ''HTTP/1.1''"
proof -
  have "is_version ''HTTP/1.1''"
    unfolding is_version_def
    by (rule exI [of _ "''HTTP/1.''"], rule exI [of _ "CHR ''1''"]) (simp add: ieq_def same_char_def)
  moreover have "is_method ''GET''"
    by (simp add: is_method_def http_methods_def ieq_def same_char_def)
  moreover have "is_eol CRLF" by (simp add: is_eol_def CRLF_def)
  ultimately show ?thesis
    unfolding is_request_line_def request_line_def by (auto simp: query_text_def is_any_def)
qed

lemma demo_wf: "request_wf ''GET'' ''/a%20b'' (Some ''k=v'') ''HTTP/1.1'' demo_headers"
  unfolding request_wf_def
  by (intro conjI demo_line)
     (simp_all add: request_line_def query_text_def CRLF_def MAX_LINE_def query_fields_def demo_headers_def
       header_wf_def header_line_def)

lemma demo_length: "unat (ContentLength (request_of ''GET'' ''/a%20b'' (Some ''k=v'') ''HTTP/1.1'' demo_headers)) = 2"
  by (simp add: ContentLength_def HttpRequest_HasHeader_def HttpRequest_GetHeader_def demo_headers_def
      is_digit_def)

theorem request_roundtrip_witness:
  "\<exists>b c' b'. WriteString (request_text ''GET'' ''/a%20b'' (Some ''k=v'') ''HTTP/1.1'' demo_headers ''hi'' @ ''next'')
       Buffer_new = Some b \<and>
     RecvHttpRequest HttpContext_new b = Some (c', b') \<and> recv_statu c' = RECV_HTTP_OVER \<and>
     req_method (ctx_request c') = ''GET'' \<and> req_path (ctx_request c') = ''/a b'' \<and>
     req_body (ctx_request c') = ''hi'' \<and> map_of (req_headers (ctx_request c')) ''Host'' = Some ''x'' \<and>
     map_of (req_params (ctx_request c')) ''k'' = Some ''v'' \<and> readable b' = ''next''"
proof -
  let ?s = "request_text ''GET'' ''/a%20b'' (Some ''k=v'') ''HTTP/1.1'' demo_headers ''hi'' @ ''next''"
  have "length ?s \<le> 1000"
    by (simp add: request_text_def request_line_def header_line_def demo_headers_def query_text_def CRLF_def)
  then obtain b where b: "WriteString ?s Buffer_new = Some b" "buffer_inv b" "readable b = ?s"
    using WriteString_ok [of Buffer_new ?s] by (auto elim!: returnsE)
  have u: "UrlDecode ''/a%20b'' False = ''/a b''" "map to_upper ''GET'' = ''GET''"
    by (simp_all add: HexToDecimal_def char_class_defs to_upper_def char_of_eq)
  have k: "map_of (rev demo_headers) ''Host'' = Some ''x''"
    "map_of (rev (map param_of (query_fields (Some ''k=v'')))) ''k'' = Some ''v''"
    by (simp_all add: demo_headers_def query_fields_def param_of_def)
  obtain c' b' where r: "RecvHttpRequest HttpContext_new b = Some (c', b')" "readable b' = ''next''"
      "recv_statu c' = RECV_HTTP_OVER" "req_method (ctx_request c') = map to_upper ''GET''"
      "req_path (ctx_request c') = UrlDecode ''/a%20b'' False" "req_body (ctx_request c') = ''hi''"
      "map_of (req_headers (ctx_request c')) = map_of (rev demo_headers)"
      "map_of (req_params (ctx_request c')) = map_of (rev (map param_of (query_fields (Some ''k=v''))))"
    using request_roundtrip [OF b(2,3) demo_wf] demo_length by auto
  show ?thesis
    by (rule exI [of _ b], rule exI [of _ c'], rule exI [of _ b'])
       (simp only: b(1) r u k simp_thms refl)
qed

end
