(* ===== verification/HttpService.thy ===== *)
theory HttpService
  imports HttpServer HttpGrammar
begin

text \<open>
  Properties of \<open>HttpServer\<close>: \<open>serve\<close> is what the server owes for a piece of input, the responses
  in order, and \<open>OnMessage\<close> is shown to deliver it on the connection; then what a response
  contains and which requests are answered with a file, by a handler, or with an error.
\<close>

section \<open>What is owed for the input\<close>

definition answer :: "file_env \<Rightarrow> (str_map \<Rightarrow> str_map) \<Rightarrow> HttpServer \<Rightarrow> HttpRequest \<Rightarrow> bytes \<times> bool" where
  "answer fs iter srv req =
     (let rsp = complete_headers req (Route fs srv req (HttpResponse_new 200))
      in (response_text iter req rsp, HttpResponse_Close rsp))"

definition refusal :: "(str_map \<Rightarrow> str_map) \<Rightarrow> HttpContext \<Rightarrow> bytes" where
  "refusal iter ctx =
     (let req = ctx_request ctx
      in response_text iter req (complete_headers req (ErrorHandler req (HttpResponse_new (resp_statu ctx)))))"

text \<open>Requests left to parse: every round of \<open>OnMessage\<close> makes it smaller.\<close>

definition workload :: "HttpContext \<Rightarrow> bytes \<Rightarrow> nat" where
  "workload c s = 2 * length s + (if recv_statu c = RECV_HTTP_LINE then 0 else 1)"

lemma spec_line_consumes:
  assumes "recv_statu c = RECV_HTTP_LINE" and "spec_line c s = (c1, s1)" and "recv_statu c1 \<noteq> RECV_HTTP_LINE"
    and "recv_statu c1 \<noteq> RECV_HTTP_ERROR"
  shows "length s1 < length s"
proof -
  have "line_of s \<noteq> []" using assms by (auto simp: spec_line_def Let_def split: if_splits)
  then have "length s - length (line_of s) < length s" using length_line_of_le [of s] by (cases "line_of s") auto
  then show ?thesis
    using assms(2) \<open>line_of s \<noteq> []\<close> by (auto simp: spec_line_def Let_def split: if_splits prod.splits)
qed

lemma recv_spec_consumes:
  assumes "recv_statu c = RECV_HTTP_LINE" and "recv_spec c s = (c1, s1)" and "recv_statu c1 \<noteq> RECV_HTTP_LINE"
    and "recv_statu c1 \<noteq> RECV_HTTP_ERROR"
  shows "length s1 < length s"
proof -
  obtain c2 s2 where l: "spec_line c s = (c2, s2)" by fastforce
  then have r: "recv_spec c s = body_stage (head_stage (c2, s2))"
    using assms(1) by (simp add: recv_spec_stages line_stage_def)
  have "recv_statu c2 = RECV_HTTP_LINE \<or> recv_statu c2 = RECV_HTTP_ERROR \<Longrightarrow> body_stage (head_stage (c2, s2)) = (c2, s2)"
    by (auto simp: head_stage_def body_stage_def)
  then have "recv_statu c2 \<noteq> RECV_HTTP_LINE" "recv_statu c2 \<noteq> RECV_HTTP_ERROR" using r assms by auto
  then have "length s2 < length s" by (rule spec_line_consumes [OF assms(1) l])
  moreover have "length s1 \<le> length s2"
    using length_stages(3) [of "head_stage (c2, s2)"] length_stages(2) [of "(c2, s2)"] r [symmetric] assms(2) by simp
  ultimately show ?thesis by simp
qed

lemma recv_workload:
  assumes "recv_spec c s = (c1, s1)" and "recv_statu c1 \<noteq> RECV_HTTP_ERROR"
  shows "workload c1 s1 \<le> workload c s"
    and "recv_statu c1 = RECV_HTTP_OVER \<Longrightarrow> workload (HttpContext_ReSet c1) s1 < workload c s"
proof -
  have le: "length s1 \<le> length s" using length_recv_spec [of c s] assms(1) by simp
  have lt: "length s1 < length s" if "recv_statu c = RECV_HTTP_LINE" "recv_statu c1 \<noteq> RECV_HTTP_LINE"
    using that recv_spec_consumes assms by blast
  show "workload c1 s1 \<le> workload c s"
    using le lt by (cases "recv_statu c = RECV_HTTP_LINE") (auto simp: workload_def)
  show "workload (HttpContext_ReSet c1) s1 < workload c s" if "recv_statu c1 = RECV_HTTP_OVER"
    using le lt that by (cases "recv_statu c = RECV_HTTP_LINE") (auto simp: workload_def HttpContext_ReSet_def)
qed

text \<open>The responses for the unread bytes, each with whether it closes the connection; the context
  and the bytes that are left. A refused request ends the input.\<close>

function serve ::
    "file_env \<Rightarrow> (str_map \<Rightarrow> str_map) \<Rightarrow> HttpServer \<Rightarrow> HttpContext \<Rightarrow> bytes \<Rightarrow> (bytes \<times> bool) list \<times> HttpContext \<times> bytes" where
  "serve fs iter srv c s =
     (if s = [] then ([], c, [])
      else let (c1, s1) = recv_spec c s in
        if recv_statu c1 = RECV_HTTP_ERROR then ([(refusal iter c1, True)], HttpContext_ReSet c1, [])
        else if recv_statu c1 \<noteq> RECV_HTTP_OVER then ([], c1, s1)
        else let (rs, c2, s2) = serve fs iter srv (HttpContext_ReSet c1) s1
             in (answer fs iter srv (ctx_request c1) # rs, c2, s2))"
  by pat_completeness auto
termination
  by (relation "measure (\<lambda>(fs, iter, srv, c, s). workload c s)") (auto simp: recv_workload)

declare serve.simps [simp del]

lemma serve_Nil [simp]: "serve fs iter srv c [] = ([], c, [])"
  by (simp add: serve.simps)

lemma recv_spec_again:
  assumes "recv_spec c s = (c1, s1)" and "recv_statu c1 \<noteq> RECV_HTTP_ERROR"
  shows "recv_spec c1 s1 = (c1, s1)"
  using recv_more [OF assms(1), of "[]"] assms by (cases "recv_spec c1 s1") (simp add: same_parse_def)

lemma serve_settled:
  assumes "serve fs iter srv c s = (rs, c', r)" and "ctx_ok c"
  shows "ctx_ok c' \<and> serve fs iter srv c' r = ([], c', r) \<and> workload c' r \<le> workload c s"
  using assms
proof (induction fs iter srv c s arbitrary: rs c' r rule: serve.induct)
  case (1 fs iter srv c s)
  obtain c1 s1 where rec: "recv_spec c s = (c1, s1)" by fastforce
  have ok: "ctx_ok c1" using recv_spec_ok [OF "1.prems"(2), of s] rec by simp
  consider (nil) "s = []" | (err) "s \<noteq> []" "recv_statu c1 = RECV_HTTP_ERROR"
    | (more) "s \<noteq> []" "recv_statu c1 \<noteq> RECV_HTTP_ERROR" "recv_statu c1 \<noteq> RECV_HTTP_OVER"
    | (over) "s \<noteq> []" "recv_statu c1 \<noteq> RECV_HTTP_ERROR" "recv_statu c1 = RECV_HTTP_OVER"
    by blast
  then show ?case
  proof cases
    case nil
    then show ?thesis using "1.prems" by simp
  next
    case err
    then show ?thesis
      using "1.prems" rec by (auto simp: serve.simps [of _ _ _ c s] workload_def HttpContext_ReSet_def ctx_ok_def)
  next
    case more
    then have "c' = c1" "r = s1" using "1.prems"(1) rec by (auto simp: serve.simps [of _ _ _ c s])
    moreover have "serve fs iter srv c1 s1 = ([], c1, s1)"
      using more recv_spec_again [OF rec more(2)] by (simp add: serve.simps [of _ _ _ c1 s1])
    ultimately show ?thesis using ok recv_workload(1) [OF rec more(2)] by simp
  next
    case over
    obtain rs' c2 s2 where t: "serve fs iter srv (HttpContext_ReSet c1) s1 = (rs', c2, s2)"
      by (cases "serve fs iter srv (HttpContext_ReSet c1) s1") auto
    then have e: "c' = c2" "r = s2" using "1.prems"(1) over rec by (auto simp: serve.simps [of _ _ _ c s])
    show ?thesis
      using "1.IH" [OF over(1) rec [symmetric] refl over(2)] over(3) t e recv_workload(2) [OF rec over(2,3)] by force
  qed
qed

section \<open>OnMessage serves the input\<close>

text \<open>What \<open>OnMessage\<close> promises to have done.\<close>

definition served :: "http_sys \<Rightarrow> (bytes \<times> bool) list \<Rightarrow> HttpContext \<Rightarrow> bytes \<Rightarrow> http_sys \<Rightarrow> bool" where
  "served s rs c rest s' \<longleftrightarrow>
     buffer_inv (inBuffer (fst s')) \<and> readable (inBuffer (fst s')) = rest \<and> conn_context (fst s') = Some c \<and>
     buffer_inv (outBuffer (fst s')) \<and>
     readable (outBuffer (fst s')) = readable (outBuffer (fst s)) @ concat (map fst rs) \<and>
     conn_accepted (fst s') = conn_accepted (fst s) @ concat (map fst rs) \<and>
     conn_state (fst s') = (if list_ex snd rs then DISCONNECTING else conn_state (fst s)) \<and>
     conn_released (fst s') = conn_released (fst s) \<and> msg_cb (fst s') = msg_cb (fst s) \<and>
     conn_sent (fst s') = conn_sent (fst s) \<and> connect_id (fst s') = connect_id (fst s) \<and>
     conn_fd (fst s') = conn_fd (fst s) \<and> el_thread (snd s') = el_thread (snd s)"

lemma set_simps [simp]:
  "conn_context (fst (set_context c s)) = Some c" "inBuffer (fst (set_context c s)) = inBuffer (fst s)"
  "inBuffer (fst (set_input b s)) = b" "conn_context (fst (set_input b s)) = conn_context (fst s)"
  "snd (set_context c s) = snd s" "snd (set_input b s) = snd s"
  by (simp_all add: set_context_def set_input_def SetContext_def)

lemma response_text_ne: "response_text iter req rsp \<noteq> []"
  by (simp add: response_text_def crlf_def)

lemma ReSet_ReSet [simp]: "HttpContext_ReSet (HttpContext_ReSet c) = HttpContext_ReSet c"
  by (simp add: HttpContext_ReSet_def http_simps)

lemma ReSet_new: "HttpContext_ReSet c = HttpContext_new"
  by (simp add: HttpContext_ReSet_def HttpContext_new_def http_simps)

text \<open>One response is written and the context is reset.\<close>

definition answered :: "bytes \<Rightarrow> Buffer \<Rightarrow> http_sys \<Rightarrow> http_sys \<Rightarrow> bool" where
  "answered t b s s' \<longleftrightarrow> extends t ((fst s)\<lparr>inBuffer := b, conn_context := Some HttpContext_new\<rparr>, snd s) s'"

lemma WriteReponse_answers:
  assumes "buffer_inv (outBuffer (fst s))" and "conn_state (fst s) \<noteq> DISCONNECTED"
    and "length (readable (outBuffer (fst s))) + 2 * length (response_text iter req (complete_headers req rsp)) \<le> 2 ^ 62"
  shows "\<exists>s'. WriteReponse iter user req rsp (set_context c (set_input b s)) = Some (complete_headers req rsp, s') \<and>
              answered (response_text iter req (complete_headers req rsp)) b s (set_context HttpContext_new s')"
proof -
  let ?s = "set_context c (set_input b s)"
  have o: "outBuffer (fst ?s) = outBuffer (fst s)" "conn_state (fst ?s) = conn_state (fst s)"
    by (simp_all add: set_context_def set_input_def SetContext_def)
  obtain s' where s': "Connection_Send user (el_thread (snd ?s)) (response_text iter req (complete_headers req rsp)) ?s = Some s'"
      "extends (response_text iter req (complete_headers req rsp)) ?s s'"
    using Send_extends [of ?s] assms o by metis
  moreover have "str_build (response_text iter req (complete_headers req rsp)) = Some (response_text iter req (complete_headers req rsp))"
    using assms(3) by (simp add: str_build_def)
  ultimately show ?thesis
    by (auto simp: WriteReponse_def answered_def extends_def set_context_def set_input_def SetContext_def Let_def)
qed

definition ready ::
    "file_env \<Rightarrow> (str_map \<Rightarrow> str_map) \<Rightarrow> HttpServer \<Rightarrow> HttpContext \<Rightarrow> (bytes \<times> bool) list \<Rightarrow> HttpContext \<Rightarrow> bytes \<Rightarrow> http_sys \<Rightarrow> bool" where
  "ready fs iter srv c rs c' rest s \<longleftrightarrow>
     buffer_inv (inBuffer (fst s)) \<and> buffer_inv (outBuffer (fst s)) \<and> conn_context (fst s) = Some c \<and> ctx_ok c \<and>
     msg_cb (fst s) = Some CbMessage \<and> conn_state (fst s) \<noteq> DISCONNECTED \<and>
     serve fs iter srv c (readable (inBuffer (fst s))) = (rs, c', rest) \<and>
     length (readable (outBuffer (fst s))) + 2 * length (concat (map fst rs)) \<le> 2 ^ 62"

lemma served_trans:
  assumes "served s rs c r t" and "served t rs' c' r' u"
  shows "served s (rs @ rs') c' r' u"
  using assms by (auto simp: served_def)

lemma served_extends: "served s rs c r t \<Longrightarrow> extends [] t u \<Longrightarrow> served s rs c r u"
  by (auto simp: served_def extends_def)

lemma shut_serves:
  assumes IH: "readable (inBuffer (fst s)) \<noteq> [] \<Longrightarrow>
      \<exists>s'. OnMessage fs iter srv n ((fst s)\<lparr>conn_state := DISCONNECTING\<rparr>, snd s) = Some s' \<and>
           served ((fst s)\<lparr>conn_state := DISCONNECTING\<rparr>, snd s) rs c' rest s'"
    and "ready fs iter srv c rs c' rest s" and "readable (outBuffer (fst s)) \<noteq> []"
  shows "\<exists>s'. ShutDown (http_callback (OnMessage fs iter srv n)) (el_thread (snd s)) s = Some s' \<and>
              served ((fst s)\<lparr>conn_state := DISCONNECTING\<rparr>, snd s) rs c' rest s'"
proof -
  let ?s = "((fst s)\<lparr>conn_state := DISCONNECTING\<rparr>, snd s)"
  have inv: "buffer_inv (inBuffer (fst s))" using assms(2) by (simp add: ready_def)
  have "\<exists>s1. deliver (http_callback (OnMessage fs iter srv n)) ?s = Some s1 \<and> served ?s rs c' rest s1"
  proof (cases "readable (inBuffer (fst s)) = []")
    case True
    then show ?thesis
      using assms(2) ReadAbleSize_zero [OF inv] by (auto simp: deliver_def ready_def served_def)
  next
    case False
    then show ?thesis
      using IH [OF False] assms(2) ReadAbleSize_zero [OF inv]
      by (auto simp: deliver_def ready_def call_opt_def http_callback_def word_neq_0_conv)
  qed
  then obtain s1 where s1: "deliver (http_callback (OnMessage fs iter srv n)) ?s = Some s1" "served ?s rs c' rest s1"
    by blast
  have "buffer_inv (outBuffer (fst s1))" "readable (outBuffer (fst s1)) \<noteq> []"
    using s1(2) assms(3) by (simp_all add: served_def)
  with ShutDown_extends [OF s1(1)] served_extends [OF s1(2)] show ?thesis by blast
qed

lemma answered_ready:
  assumes "answered t b s s3" and "buffer_inv b" and "msg_cb (fst s) = Some CbMessage" and "conn_state (fst s) \<noteq> DISCONNECTED"
    and "serve fs iter srv HttpContext_new (readable b) = (rs, c', rest)"
    and "length (readable (outBuffer (fst s))) + 2 * length (t @ concat (map fst rs)) \<le> 2 ^ 62"
  shows "ready fs iter srv HttpContext_new rs c' rest s3"
    and "ready fs iter srv HttpContext_new rs c' rest ((fst s3)\<lparr>conn_state := DISCONNECTING\<rparr>, snd s3)"
  using assms by (simp_all add: ready_def answered_def extends_def)

lemma answered_served:
  assumes "answered t b s s3"
  shows "served s3 rs c r u \<Longrightarrow> served s ((t, False) # rs) c r u"
    and "served ((fst s3)\<lparr>conn_state := DISCONNECTING\<rparr>, snd s3) rs c r u \<Longrightarrow> served s ((t, True) # rs) c r u"
  using assms by (auto simp: served_def answered_def extends_def)

lemma served_ready:
  assumes "served s rs c r t" and "conn_state (fst s) \<noteq> DISCONNECTED" and "msg_cb (fst s) = Some CbMessage"
    and "serve fs iter srv c r = ([], c, r)" and "ctx_ok c"
    and "length (readable (outBuffer (fst s))) + 2 * length (concat (map fst rs)) \<le> 2 ^ 62"
  shows "ready fs iter srv c [] c r t"
  using assms by (simp add: served_def ready_def)

text \<open>\<open>OnMessage\<close> with fuel \<open>n\<close> serves every state whose work is below \<open>n\<close>.\<close>

definition serves :: "file_env \<Rightarrow> (str_map \<Rightarrow> str_map) \<Rightarrow> HttpServer \<Rightarrow> nat \<Rightarrow> bool" where
  "serves fs iter srv n \<longleftrightarrow>
     (\<forall>s c rs c' rest. ready fs iter srv c rs c' rest s \<longrightarrow> workload c (readable (inBuffer (fst s))) < n \<longrightarrow>
        (\<exists>s'. OnMessage fs iter srv n s = Some s' \<and> served s rs c' rest s'))"

lemma servesD:
  "serves fs iter srv n \<Longrightarrow> ready fs iter srv c rs c' rest s \<Longrightarrow> workload c (readable (inBuffer (fst s))) < n \<Longrightarrow>
   \<exists>s'. OnMessage fs iter srv n s = Some s' \<and> served s rs c' rest s'"
  unfolding serves_def by blast

text \<open>The parsing part of a round.\<close>

lemma OnMessage_parse:
  assumes "ready fs iter srv c rs c' rest s" and "readable (inBuffer (fst s)) \<noteq> []"
  obtains c1 b1 where "RecvHttpRequest c (inBuffer (fst s)) = Some (c1, b1)" "buffer_inv b1" "ctx_ok c1"
    "recv_spec c (readable (inBuffer (fst s))) = (c1, readable b1)" "0 < ReadAbleSize (inBuffer (fst s))"
proof -
  let ?b = "inBuffer (fst s)"
  have inv: "buffer_inv ?b" and ok: "ctx_ok c" using assms(1) by (simp_all add: ready_def)
  obtain c1 b1 where r: "RecvHttpRequest c ?b = Some (c1, b1)" "buffer_inv b1" "recv_spec c (readable ?b) = (c1, readable b1)"
    using RecvHttpRequest_refines [OF inv, of c] by (auto elim!: returnsE)
  moreover have "ctx_ok c1" using recv_spec_ok [OF ok, of "readable ?b"] r(3) by simp
  moreover have "0 < ReadAbleSize ?b" using assms(2) ReadAbleSize_zero [OF inv] by (simp add: word_neq_0_conv)
  ultimately show thesis using that by blast
qed

lemma refuse_round:
  assumes rdy: "ready fs iter srv c rs c' rest s" and ne: "readable (inBuffer (fst s)) \<noteq> []"
    and r: "RecvHttpRequest c (inBuffer (fst s)) = Some (c1, b1)" "buffer_inv b1" "ctx_ok c1"
      "recv_spec c (readable (inBuffer (fst s))) = (c1, readable b1)" "0 < ReadAbleSize (inBuffer (fst s))"
    and err: "recv_statu c1 = RECV_HTTP_ERROR"
  shows "\<exists>s'. OnMessage fs iter srv (Suc n) s = Some s' \<and> served s rs c' rest s'"
proof -
  let ?user = "http_callback (OnMessage fs iter srv n)"
  have e: "rs = [(refusal iter c1, True)]" "c' = HttpContext_new" "rest = []"
    using rdy ne r(4) err by (simp_all add: ready_def serve.simps [of _ _ _ c] ReSet_new)
  have pre: "buffer_inv (outBuffer (fst s))" "conn_state (fst s) \<noteq> DISCONNECTED" "msg_cb (fst s) = Some CbMessage"
      "conn_context (fst s) = Some c"
      "length (readable (outBuffer (fst s))) + 2 * length (refusal iter c1) \<le> 2 ^ 62"
    using rdy e(1) by (simp_all add: ready_def)
  let ?rsp = "ErrorHandler (ctx_request c1) (HttpResponse_new (resp_statu c1))"
  obtain s2 where s2: "WriteReponse iter ?user (ctx_request c1) ?rsp (set_context c1 (set_input b1 s)) =
        Some (complete_headers (ctx_request c1) ?rsp, s2)"
      "answered (refusal iter c1) b1 s (set_context HttpContext_new s2)"
    using WriteReponse_answers [OF pre(1,2), of iter "ctx_request c1" ?rsp ?user c1 b1] pre(5)
    by (auto simp: refusal_def Let_def)
  have in2: "inBuffer (fst s2) = b1" using s2(2) by (simp add: answered_def extends_def)
  obtain b2 where b2: "MoveReadOffset (ReadAbleSize b1) b1 = Some b2" "buffer_inv b2" "readable b2 = []"
    using MoveReadOffset_ok [OF r(2), of "ReadAbleSize b1"] unat_ReadAbleSize [OF r(2)] by (auto elim!: returnsE)
  let ?s3 = "set_input b2 (set_context HttpContext_new s2)"
  have a3: "answered (refusal iter c1) b2 s ?s3"
    using s2(2) by (auto simp: answered_def extends_def set_input_def)
  have rd: "ready fs iter srv HttpContext_new [] HttpContext_new [] ?s3"
    using pre b2(2,3) by (intro answered_ready(1) [OF a3]) simp_all
  have "readable (outBuffer (fst ?s3)) \<noteq> []"
    using a3 response_text_ne by (auto simp: answered_def extends_def refusal_def Let_def)
  then obtain s4 where "ShutDown ?user (el_thread (snd ?s3)) ?s3 = Some s4"
      "served ((fst ?s3)\<lparr>conn_state := DISCONNECTING\<rparr>, snd ?s3) [] HttpContext_new [] s4"
    using shut_serves [OF _ rd, of n] b2(3) by fastforce
  moreover from this(2) have "served s rs c' rest s4" unfolding e by (rule answered_served(2) [OF a3])
  ultimately show ?thesis
    using r(5) pre(4) r(1) ctx_ok_iff [OF r(3)] err s2(1) b2(1) in2 by (simp add: Let_def ReSet_new)
qed

lemma close_serves:
  assumes IH: "serves fs iter srv n"
    and rd: "ready fs iter srv c rs c' rest s" and ne: "readable (outBuffer (fst s)) \<noteq> []"
    and w: "workload c (readable (inBuffer (fst s))) < n"
  shows "\<exists>s'. (ShutDown (http_callback (OnMessage fs iter srv n)) (el_thread (snd s)) s \<bind> OnMessage fs iter srv n) = Some s' \<and>
              served ((fst s)\<lparr>conn_state := DISCONNECTING\<rparr>, snd s) rs c' rest s'"
proof -
  let ?s = "((fst s)\<lparr>conn_state := DISCONNECTING\<rparr>, snd s)"
  have rd': "ready fs iter srv c rs c' rest ?s" using rd by (simp add: ready_def)
  then have "\<exists>s'. OnMessage fs iter srv n ?s = Some s' \<and> served ?s rs c' rest s'" using servesD [OF IH rd'] w by simp
  then obtain s4 where s4: "ShutDown (http_callback (OnMessage fs iter srv n)) (el_thread (snd s)) s = Some s4"
      "served ?s rs c' rest s4"
    using shut_serves [OF _ rd ne, of n] by blast
  have set: "ctx_ok c'" "serve fs iter srv c' rest = ([], c', rest)" "workload c' rest < n"
    using serve_settled [of fs iter srv c "readable (inBuffer (fst s))" rs c' rest] rd w by (auto simp: ready_def)
  have rd4: "ready fs iter srv c' [] c' rest s4"
    using rd' by (intro served_ready [OF s4(2) _ _ set(2,1)]) (simp_all add: ready_def)
  have "readable (inBuffer (fst s4)) = rest" using s4(2) by (simp add: served_def)
  then obtain s5 where s5: "OnMessage fs iter srv n s4 = Some s5" "served s4 [] c' rest s5"
    using servesD [OF IH rd4] set(3) by blast
  from served_trans [OF s4(2) s5(2)] show ?thesis
    by (intro exI [of _ s5]) (simp add: s4(1) s5(1))
qed

lemma answer_round:
  assumes IH: "serves fs iter srv n"
    and rdy: "ready fs iter srv c rs c' rest s" and ne: "readable (inBuffer (fst s)) \<noteq> []"
    and work: "workload c (readable (inBuffer (fst s))) < Suc n"
    and r: "RecvHttpRequest c (inBuffer (fst s)) = Some (c1, b1)" "buffer_inv b1" "ctx_ok c1"
      "recv_spec c (readable (inBuffer (fst s))) = (c1, readable b1)" "0 < ReadAbleSize (inBuffer (fst s))"
    and over: "recv_statu c1 \<noteq> RECV_HTTP_ERROR" "recv_statu c1 = RECV_HTTP_OVER"
  shows "\<exists>s'. OnMessage fs iter srv (Suc n) s = Some s' \<and> served s rs c' rest s'"
proof -
  let ?user = "http_callback (OnMessage fs iter srv n)" and ?req = "ctx_request c1"
  let ?route = "Route fs srv ?req (HttpResponse_new 200)"
  let ?rsp = "complete_headers ?req ?route"
  let ?t = "response_text iter ?req ?rsp"
  have ok: "resp_statu c1 = 200" using r(3) over by (simp add: ctx_ok_def)
  obtain rs' where ser: "serve fs iter srv HttpContext_new (readable b1) = (rs', c', rest)" "rs = (?t, HttpResponse_Close ?rsp) # rs'"
    using rdy ne r(4) over
    by (auto simp: ready_def serve.simps [of _ _ _ c] ReSet_new answer_def Let_def split: prod.splits)
  have pre: "buffer_inv (outBuffer (fst s))" "conn_state (fst s) \<noteq> DISCONNECTED" "msg_cb (fst s) = Some CbMessage"
      "conn_context (fst s) = Some c"
      "length (readable (outBuffer (fst s))) + 2 * length (?t @ concat (map fst rs')) \<le> 2 ^ 62"
    using rdy ser(2) by (simp_all add: ready_def)
  obtain s2 where s2: "WriteReponse iter ?user ?req ?route (set_context c1 (set_input b1 s)) = Some (?rsp, s2)"
      "answered ?t b1 s (set_context HttpContext_new s2)"
    using WriteReponse_answers [OF pre(1,2), of iter ?req ?route ?user c1 b1] pre(5) by auto
  let ?s3 = "set_context HttpContext_new s2"
  note rd = answered_ready(1) [OF s2(2) r(2) pre(3,2) ser(1) pre(5)]
  have w: "workload HttpContext_new (readable (inBuffer (fst ?s3))) < n"
    using recv_workload(2) [OF r(4) over] work s2(2) by (simp add: ReSet_new answered_def extends_def)
  have ne3: "readable (outBuffer (fst ?s3)) \<noteq> []"
    using s2(2) response_text_ne by (auto simp: answered_def extends_def)
  have step: "OnMessage fs iter srv (Suc n) s =
      (if HttpResponse_Close ?rsp then ShutDown ?user (el_thread (snd ?s3)) ?s3 else Some ?s3) \<bind> OnMessage fs iter srv n"
    using r(5) pre(4) r(1) over ok s2(1) by (simp add: Let_def ReSet_new)
  show ?thesis
  proof (cases "HttpResponse_Close ?rsp")
    case False
    obtain s4 where "OnMessage fs iter srv n ?s3 = Some s4" "served ?s3 rs' c' rest s4" using servesD [OF IH rd w] by blast
    then show ?thesis using step False answered_served(1) [OF s2(2)] ser(2) by auto
  next
    case True
    obtain s4 where s4: "(ShutDown ?user (el_thread (snd ?s3)) ?s3 \<bind> OnMessage fs iter srv n) = Some s4"
        "served ((fst ?s3)\<lparr>conn_state := DISCONNECTING\<rparr>, snd ?s3) rs' c' rest s4"
      using close_serves [OF IH rd ne3 w] by blast
    have "OnMessage fs iter srv (Suc n) s = Some s4" unfolding step if_P [OF True] by (rule s4(1))
    moreover have "served s rs c' rest s4" using answered_served(2) [OF s2(2) s4(2)] ser(2) True by simp
    ultimately show ?thesis by blast
  qed
qed

lemma OnMessage_serves: "serves fs iter srv n"
proof (induction n)
  case (Suc n)
  show ?case
    unfolding serves_def
  proof (intro allI impI)
    fix s c rs c' rest
    assume rdy: "ready fs iter srv c rs c' rest s" and w: "workload c (readable (inBuffer (fst s))) < Suc n"
    show "\<exists>s'. OnMessage fs iter srv (Suc n) s = Some s' \<and> served s rs c' rest s'"
    proof (cases "readable (inBuffer (fst s)) = []")
      case True
      then show ?thesis using rdy ReadAbleSize_zero [of "inBuffer (fst s)"] by (simp add: served_def ready_def)
    next
      case ne: False
      obtain c1 b1 where r: "RecvHttpRequest c (inBuffer (fst s)) = Some (c1, b1)" "buffer_inv b1" "ctx_ok c1"
          "recv_spec c (readable (inBuffer (fst s))) = (c1, readable b1)" "0 < ReadAbleSize (inBuffer (fst s))"
        using OnMessage_parse [OF rdy ne] .
      consider (err) "recv_statu c1 = RECV_HTTP_ERROR"
        | (more) "recv_statu c1 \<noteq> RECV_HTTP_ERROR" "recv_statu c1 \<noteq> RECV_HTTP_OVER"
        | (over) "recv_statu c1 \<noteq> RECV_HTTP_ERROR" "recv_statu c1 = RECV_HTTP_OVER"
        by blast
      then show ?thesis
      proof cases
        case err
        then show ?thesis by (rule refuse_round [OF rdy ne r])
      next
        case more
        have "rs = []" "c' = c1" "rest = readable b1"
          using rdy ne r(4) more by (simp_all add: ready_def serve.simps [of _ _ _ c])
        then show ?thesis
          using rdy r more ctx_ok_iff [OF r(3)]
          by (simp add: ready_def served_def set_context_def set_input_def SetContext_def Let_def)
      next
        case over
        then show ?thesis by (rule answer_round [OF Suc.IH rdy ne w r])
      qed
    qed
  qed
qed (simp add: serves_def)

section \<open>The server is a client of the connection\<close>

lemma set_context_keeps: "conn_ok s \<Longrightarrow> conn_ok (set_context c s) \<and> conn_le s (set_context c s)"
  by (simp add: set_context_def SetContext_def conn_ok_def conn_le_def Let_def)

lemma set_input_keeps: "conn_ok s \<Longrightarrow> buffer_inv b \<Longrightarrow> conn_ok (set_input b s) \<and> conn_le s (set_input b s)"
  by (simp add: set_input_def conn_ok_def conn_le_def Let_def)

lemma WriteReponse_keeps:
  assumes "conn_ok s" and "WriteReponse iter user req rsp s = Some (rsp', s')"
  shows "conn_ok s' \<and> conn_le s s'"
proof -
  obtain t where t: "str_build (response_text iter req (complete_headers req rsp)) = Some t"
      "Connection_Send user (el_thread (snd s)) t s = Some s'"
    using assms(2) by (auto simp: WriteReponse_def Let_def bind_eq_Some_conv)
  then have "length t < 2 ^ 63" by (auto simp: str_build_def split: if_splits)
  from Send_keeps [OF assms(1) this, of user] t(2) show ?thesis by (simp add: conn_keeps_def)
qed

lemma http_callback_keeps:
  "(\<And>s. conn_ok s \<Longrightarrow> conn_keeps s (f s)) \<Longrightarrow> conn_ok s \<Longrightarrow> conn_keeps s (http_callback f k s)"
  using set_context_keeps [of s HttpContext_new] by (cases k) (simp_all add: http_callback_def OnConnected_def)

lemma RecvHttpRequest_inv: "buffer_inv b \<Longrightarrow> RecvHttpRequest c b = Some (c', b') \<Longrightarrow> buffer_inv b'"
  using RecvHttpRequest_refines [of b c] by simp

lemma reply_keeps:
  assumes "conn_ok s" and "\<And>rsp1 t. conn_ok t \<Longrightarrow> conn_keeps t (f rsp1 t)"
  shows "conn_keeps s (WriteReponse iter user req rsp s \<bind> (\<lambda>(rsp1, s2). f rsp1 (set_context c s2)))"
proof (cases "WriteReponse iter user req rsp s")
  case (Some p)
  obtain rsp1 s2 where p: "p = (rsp1, s2)" by (cases p)
  have "conn_ok s2" "conn_le s s2" using WriteReponse_keeps [OF assms(1) Some [unfolded p]] by simp_all
  then have "conn_keeps s (f rsp1 (set_context c s2))"
    using assms(2) set_context_keeps conn_le_trans by (blast intro: keeps_from)
  then show ?thesis using Some p by simp
qed simp

lemma drain_keeps:
  assumes "\<And>t. conn_ok t \<Longrightarrow> conn_keeps t (ShutDown user (el_thread (snd t)) t)" and "conn_ok s"
  shows "conn_keeps s (MoveReadOffset (ReadAbleSize (inBuffer (fst s))) (inBuffer (fst s)) \<bind>
           (\<lambda>b. ShutDown user (el_thread (snd s)) (set_input b s)))"
proof (cases "MoveReadOffset (ReadAbleSize (inBuffer (fst s))) (inBuffer (fst s))")
  case (Some b)
  note inv = conn_ok_inBuffer [OF assms(2)]
  have "buffer_inv b" using MoveReadOffset_ok [OF inv, of "ReadAbleSize (inBuffer (fst s))"] unat_ReadAbleSize [OF inv] Some by simp
  then have "conn_ok (set_input b s)" "conn_le s (set_input b s)" using set_input_keeps [OF assms(2)] by simp_all
  then show ?thesis using Some assms(1) [of "set_input b s"] keeps_from by simp
qed simp

lemma OnMessage_keeps: "conn_ok s \<Longrightarrow> conn_keeps s (OnMessage fs iter srv n s)"
proof (induction n arbitrary: s)
  case (Suc n)
  let ?user = "http_callback (OnMessage fs iter srv n)"
  have shut: "conn_keeps t (ShutDown ?user (el_thread (snd t)) t)" if "conn_ok t" for t
    using that by (intro client_ShutDown_keeps http_callback_keeps Suc.IH)
  show ?case
  proof (cases "\<exists>c ctx buf. 0 < ReadAbleSize (inBuffer (fst s)) \<and> conn_context (fst s) = Some c \<and>
      RecvHttpRequest c (inBuffer (fst s)) = Some (ctx, buf)")
    case False
    then show ?thesis using Suc.prems by (auto simp: conn_keeps_def bind_eq_Some_conv)
  next
    case True
    then obtain c ctx buf where r: "0 < ReadAbleSize (inBuffer (fst s))" "conn_context (fst s) = Some c"
        "RecvHttpRequest c (inBuffer (fst s)) = Some (ctx, buf)"
      by blast
    let ?s1 = "set_context ctx (set_input buf s)"
    have s1: "conn_ok ?s1" "conn_le s ?s1"
      using set_input_keeps [OF Suc.prems RecvHttpRequest_inv [OF conn_ok_inBuffer [OF Suc.prems] r(3)]]
        set_context_keeps [of "set_input buf s" ctx] conn_le_trans by blast+
    have go: "conn_keeps t ((if HttpResponse_Close rsp1 then ShutDown ?user (el_thread (snd t)) t else Some t) \<bind> OnMessage fs iter srv n)"
      if "conn_ok t" for rsp1 t
      using that shut [OF that] by (intro keeps_bind Suc.IH) simp_all
    have "conn_keeps ?s1 (OnMessage fs iter srv (Suc n) s)"
      using r s1(1)
        reply_keeps [OF s1(1), where f = "\<lambda>_ t. MoveReadOffset (ReadAbleSize (inBuffer (fst t))) (inBuffer (fst t)) \<bind>
            (\<lambda>b. ShutDown ?user (el_thread (snd t)) (set_input b t))", OF drain_keeps [OF shut]]
        reply_keeps [OF s1(1), where f = "\<lambda>rsp1 t. (if HttpResponse_Close rsp1 then ShutDown ?user (el_thread (snd t)) t
            else Some t) \<bind> OnMessage fs iter srv n", OF go]
      by (simp add: Let_def)
    then show ?thesis using s1(2) by (rule keeps_from)
  qed
qed simp

text \<open>The callbacks of an HTTP server keep the connection's invariant.\<close>

interpretation http: conn_client "http_callback (OnMessage fs iter srv n)" for fs iter srv n
  by unfold_locales (rule http_callback_keeps [OF OnMessage_keeps])

section \<open>Properties of the service\<close>

text \<open>
  C1. Every request in the input is answered exactly once and in order, and \<open>OnMessage\<close>
  returns: from any parser state, with fuel above twice the unread bytes plus one, it appends
  to the output exactly the responses of \<open>serve\<close> (nested calls through \<open>ShutDown\<close> included), leaves the
  unfinished request in context and input buffer, takes nothing that was sent back, releases
  nothing, and shuts the connection down if and only if some response closes it.
\<close>

theorem requests_answered:
  assumes "buffer_inv (inBuffer (fst s))" and "buffer_inv (outBuffer (fst s))"
    and "conn_context (fst s) = Some c" and "ctx_ok c" and "msg_cb (fst s) = Some CbMessage"
    and "conn_state (fst s) \<noteq> DISCONNECTED"
    and "serve fs iter srv c (readable (inBuffer (fst s))) = (rs, c', rest)"
    and "length (readable (outBuffer (fst s))) + 2 * length (concat (map fst rs)) \<le> 2 ^ 62"
    and "2 * length (readable (inBuffer (fst s))) + 1 < n"
  shows "\<exists>s'. OnMessage fs iter srv n s = Some s' \<and>
           readable (outBuffer (fst s')) = readable (outBuffer (fst s)) @ concat (map fst rs) \<and>
           conn_accepted (fst s') = conn_accepted (fst s) @ concat (map fst rs) \<and>
           conn_context (fst s') = Some c' \<and> readable (inBuffer (fst s')) = rest \<and>
           conn_sent (fst s') = conn_sent (fst s) \<and> conn_released (fst s') = conn_released (fst s) \<and>
           conn_state (fst s') = (if list_ex snd rs then DISCONNECTING else conn_state (fst s))"
proof -
  have "ready fs iter srv c rs c' rest s" using assms(1-8) by (simp add: ready_def)
  moreover have "workload c (readable (inBuffer (fst s))) < n" using assms(9) by (simp add: workload_def)
  ultimately show ?thesis using servesD [OF OnMessage_serves] unfolding served_def by blast
qed

text \<open>Well-formed requests: method, path, query, version, headers and body.\<close>

type_synonym req_parts = "bytes \<times> bytes \<times> bytes option \<times> bytes \<times> str_map \<times> bytes"

fun parts_wf :: "req_parts \<Rightarrow> bool" where
  "parts_wf (m, p, q, v, hs, body) \<longleftrightarrow>
     request_wf m p q v hs \<and> unat (ContentLength (request_of m p q v hs)) = length body"

fun parts_text :: "req_parts \<Rightarrow> bytes" where
  "parts_text (m, p, q, v, hs, body) = request_text m p q v hs body"

fun parts_request :: "req_parts \<Rightarrow> HttpRequest" where
  "parts_request (m, p, q, v, hs, body) = (request_of m p q v hs)\<lparr>req_body := body\<rparr>"

lemma complete_headers_close [simp]: "HttpResponse_Close (complete_headers req rsp) = HttpRequest_Close req"
  by (auto simp: complete_headers_def Let_def HttpResponse_Close_def http_simps)

lemma serve_pipeline:
  assumes "list_all parts_wf qs"
  shows "serve fs iter srv HttpContext_new (concat (map parts_text qs)) =
     (map (\<lambda>q. answer fs iter srv (parts_request q)) qs, HttpContext_new, [])"
  using assms
proof (induction qs)
  case (Cons q qs)
  obtain m p qu v hs body where q: "q = (m, p, qu, v, hs, body)" by (cases q)
  have wf: "request_wf m p qu v hs" "unat (ContentLength (request_of m p qu v hs)) = length body"
    using Cons.prems q by simp_all
  have ne: "parts_text q @ concat (map parts_text qs) \<noteq> []"
    by (simp add: q request_text_def request_line_def)
  show ?case
    using Cons recv_spec_request [OF wf, of "concat (map parts_text qs)"] ne
    by (simp add: q serve.simps [of _ _ _ _ "request_text _ _ _ _ _ _ @ _"] ReSet_new)
qed simp

text \<open>
  C7. Pipelining: when the input buffer of a fresh parser holds the texts of any number of
  well-formed requests, the server routes exactly these requests, in order, and its output is
  exactly their responses; the input is empty and the parser fresh again; and the connection
  is shut down if and only if one of the requests did not ask to keep it alive.
\<close>

theorem pipelined_requests:
  assumes "list_all parts_wf qs" and "readable (inBuffer (fst s)) = concat (map parts_text qs)"
    and "buffer_inv (inBuffer (fst s))" and "buffer_inv (outBuffer (fst s))"
    and "conn_context (fst s) = Some HttpContext_new" and "msg_cb (fst s) = Some CbMessage"
    and "conn_state (fst s) \<noteq> DISCONNECTED"
    and "length (readable (outBuffer (fst s))) +
           2 * length (concat (map (\<lambda>q. fst (answer fs iter srv (parts_request q))) qs)) \<le> 2 ^ 62"
    and "2 * length (readable (inBuffer (fst s))) + 1 < n"
  shows "\<exists>s'. OnMessage fs iter srv n s = Some s' \<and>
           readable (outBuffer (fst s')) =
             readable (outBuffer (fst s)) @ concat (map (\<lambda>q. fst (answer fs iter srv (parts_request q))) qs) \<and>
           readable (inBuffer (fst s')) = [] \<and> conn_context (fst s') = Some HttpContext_new \<and>
           conn_state (fst s') =
             (if list_ex (\<lambda>q. HttpRequest_Close (parts_request q)) qs then DISCONNECTING else conn_state (fst s))"
proof -
  have m: "map fst (map (\<lambda>q. answer fs iter srv (parts_request q)) qs) = map (\<lambda>q. fst (answer fs iter srv (parts_request q))) qs"
    by simp
  have ex: "list_ex snd (map (\<lambda>q. answer fs iter srv (parts_request q)) qs) = list_ex (\<lambda>q. HttpRequest_Close (parts_request q)) qs"
    by (simp add: list_ex_iff answer_def Let_def)
  have "ready fs iter srv HttpContext_new (map (\<lambda>q. answer fs iter srv (parts_request q)) qs) HttpContext_new [] s"
    using assms serve_pipeline [OF assms(1)] by (simp add: ready_def comp_def)
  moreover have "workload HttpContext_new (readable (inBuffer (fst s))) < n" using assms(9) by (simp add: workload_def)
  ultimately obtain s' where "OnMessage fs iter srv n s = Some s'"
      "served s (map (\<lambda>q. answer fs iter srv (parts_request q)) qs) HttpContext_new [] s'"
    using servesD [OF OnMessage_serves] by blast
  then show ?thesis unfolding served_def m ex by blast
qed

text \<open>A connection with given input, for the examples.\<close>

definition http_conn :: "Buffer \<Rightarrow> http_sys" where
  "http_conn b = ((Connection_new 1 9)\<lparr>inBuffer := b, conn_context := Some HttpContext_new, msg_cb := Some CbMessage,
     conn_state := CONNECTED\<rparr>, EventLoop_new 0 3 4)"

lemma http_conn_simps [simp]:
  "inBuffer (fst (http_conn b)) = b" "conn_context (fst (http_conn b)) = Some HttpContext_new"
  "msg_cb (fst (http_conn b)) = Some CbMessage" "conn_state (fst (http_conn b)) = CONNECTED"
  "outBuffer (fst (http_conn b)) = Buffer_new" "conn_accepted (fst (http_conn b)) = []"
  by (simp_all add: http_conn_def Connection_new_def)

definition no_files :: file_env where
  "no_files = \<lparr>stat_mode = (\<lambda>_. None), file_content = (\<lambda>_. None), read_count = (\<lambda>_ n. n), open_write = (\<lambda>_. False),
     write_count = (\<lambda>_ n. n)\<rparr>"

theorem requests_answered_witness:
  "\<exists>b s'. WriteString ''GET /'' Buffer_new = Some b \<and>
     OnMessage no_files (\<lambda>hs. hs) HttpServer_new 20 (http_conn b) = Some s' \<and> conn_accepted (fst s') = [] \<and>
     readable (inBuffer (fst s')) = ''GET /'' \<and> conn_state (fst s') = CONNECTED"
proof -
  obtain b where b: "WriteString ''GET /'' Buffer_new = Some b" "buffer_inv b" "readable b = ''GET /''"
    using WriteString_ok [of Buffer_new "''GET /''"] by (auto elim!: returnsE)
  have "recv_spec HttpContext_new ''GET /'' = (HttpContext_new, ''GET /'')"
    by (simp add: recv_spec_def HttpContext_new_def spec_line_def line_of_def MAX_LINE_def)
  then have "serve no_files (\<lambda>hs. hs) HttpServer_new HttpContext_new ''GET /'' = ([], HttpContext_new, ''GET /'')"
    by (simp add: serve.simps HttpContext_new_def)
  then show ?thesis
    using requests_answered [of "http_conn b" HttpContext_new no_files "\<lambda>hs. hs" HttpServer_new "[]" HttpContext_new "''GET /''" 20] b
    by auto
qed

definition demo_parts :: req_parts where
  "demo_parts = (''GET'', ''/a%20b'', Some ''k=v'', ''HTTP/1.1'', demo_headers, ''hi'')"

lemma demo_parts_wf: "parts_wf demo_parts"
  using demo_wf demo_length by (simp add: demo_parts_def)

lemma demo_answer:
  "answer fs (\<lambda>hs. hs) HttpServer_new (parts_request demo_parts) =
     (''HTTP/1.1 404 Not Found'' @ crlf @ ''Connection: close'' @ crlf @ crlf, True)"
proof -
  have m: "to_upper (CHR ''G'') = CHR ''G''" "to_upper (CHR ''E'') = CHR ''E''" "to_upper (CHR ''T'') = CHR ''T''"
    by (simp_all add: char_class_defs to_upper_def char_of_eq)
  have c: "HttpRequest_Close (parts_request demo_parts)"
    by (simp add: HttpRequest_Close_def HttpRequest_HasHeader_def demo_parts_def demo_headers_def request_of_lookup [symmetric])
  have r: "Route fs HttpServer_new (parts_request demo_parts) (HttpResponse_new 200) = HttpResponse_new 404"
    by (simp add: Route_def IsFileHandler_def HttpServer_new_def demo_parts_def m HttpResponse_new_def)
  have h: "complete_headers (parts_request demo_parts) (HttpResponse_new 404) =
      (HttpResponse_new 404)\<lparr>rsp_headers := [(''Connection'', ''close'')]\<rparr>"
    using c by (simp add: complete_headers_def HttpResponse_new_def HttpResponse_SetHeader_def)
  have s: "to_string 404 = ''404''"
    by (simp add: to_string_def to_string_nat.simps char_of_eq)
  show ?thesis
    unfolding answer_def r h Let_def
    by (simp add: response_text_def header_text_def s HttpResponse_new_def StatuDescribe_def statuMap_def
        demo_parts_def m HttpResponse_Close_def HttpResponse_HasHeader_def HttpResponse_GetHeader_def)
qed

theorem pipelined_requests_witness:
  "\<exists>b s'. WriteString (parts_text demo_parts @ parts_text demo_parts) Buffer_new = Some b \<and>
     OnMessage no_files (\<lambda>hs. hs) HttpServer_new 1000 (http_conn b) = Some s' \<and>
     readable (outBuffer (fst s')) =
       ''HTTP/1.1 404 Not Found'' @ crlf @ ''Connection: close'' @ crlf @ crlf @
       ''HTTP/1.1 404 Not Found'' @ crlf @ ''Connection: close'' @ crlf @ crlf \<and>
     readable (inBuffer (fst s')) = [] \<and> conn_state (fst s') = DISCONNECTING"
proof -
  let ?t = "parts_text demo_parts @ parts_text demo_parts"
  have len: "length ?t \<le> 200"
    by (simp add: demo_parts_def request_text_def request_line_def header_line_def demo_headers_def query_text_def CRLF_def)
  then obtain b where b: "WriteString ?t Buffer_new = Some b" "buffer_inv b" "readable b = ?t"
    using WriteString_ok [of Buffer_new ?t] by (auto elim!: returnsE)
  have c: "HttpRequest_Close (parts_request demo_parts)"
    using demo_answer [of no_files] by (simp add: answer_def Let_def)
  have "length (crlf :: bytes) = 2" by (simp add: crlf_def)
  then show ?thesis
    using pipelined_requests [of "[demo_parts, demo_parts]" "http_conn b" no_files "\<lambda>hs. hs" HttpServer_new 1000] b len c demo_parts_wf
    by (auto simp: demo_answer)
qed

end
