(* ===== verification/HttpRouting.thy ===== *)
theory HttpRouting
  imports HttpService
begin

text \<open>
  What a response of \<open>HttpServer\<close> contains, and how \<open>Route\<close> chooses between a file, a handler and
  an error.
\<close>

section \<open>Framing of responses\<close>

lemma distinct_update: "distinct (map fst xs) \<Longrightarrow> distinct (map fst (AList.update k v xs))"
  by (rule distinct_update)

lemma complete_headers_distinct:
  "distinct (map fst (rsp_headers rsp)) \<Longrightarrow> distinct (map fst (rsp_headers (complete_headers req rsp)))"
  by (simp add: complete_headers_def Let_def HttpResponse_SetHeader_def distinct_update)

lemma complete_headers_body [simp]:
  "rsp_body (complete_headers req rsp) = rsp_body rsp" "rsp_statu (complete_headers req rsp) = rsp_statu rsp"
  by (simp_all add: complete_headers_def Let_def HttpResponse_SetHeader_def)

lemma map_of_permuted:
  assumes "mset ys = mset xs" and "distinct (map fst xs)"
  shows "map_of (rev ys) = map_of xs"
proof -
  have "mset (map fst ys) = mset (map fst xs)" using assms(1) by simp
  then have "distinct (map fst (rev ys))"
    using assms(2) by (metis distinct_rev mset_eq_imp_distinct_iff rev_map)
  moreover have "set (rev ys) = set xs" using assms(1) by (metis set_mset_mset set_rev)
  ultimately show ?thesis using assms(2) by (simp add: map_of_inject_set)
qed

lemma header_text_lines: "header_text hs = concat (map header_line hs)"
proof -
  have "(\<lambda>(k, v). k @ '': '' @ v @ crlf) = header_line"
    by (simp add: fun_eq_iff header_line_def crlf_def CRLF_def)
  then show ?thesis by (simp add: header_text_def)
qed

lemma response_header_lookup [simp]:
  "map_of (rsp_headers (HttpResponse_SetHeader k v r)) k' = (if k' = k then Some v else map_of (rsp_headers r) k')"
  by (simp add: HttpResponse_SetHeader_def update_conv)

lemma cond_set:
  "map_of (rsp_headers (if b then HttpResponse_SetHeader k v r else r)) k' =
     (if b \<and> k' = k then Some v else map_of (rsp_headers r) k')"
  "rsp_body (if b then HttpResponse_SetHeader k v r else r) = rsp_body r"
  "(if b then HttpResponse_SetHeader k v r else HttpResponse_SetHeader k w r) = HttpResponse_SetHeader k (if b then v else w) r"
  "rsp_body (HttpResponse_SetHeader k v r) = rsp_body r"
  by (auto simp: HttpResponse_SetHeader_def update_conv)

lemma HasHeader_lookup: "HttpResponse_HasHeader k r = (map_of (rsp_headers r) k \<noteq> None)"
  by (simp add: HttpResponse_HasHeader_def split: option.splits)

lemma complete_headers_lookup:
  "map_of (rsp_headers (complete_headers req rsp)) ''Connection'' =
     Some (if HttpRequest_Close req then ''close'' else ''keep-alive'')"
  "map_of (rsp_headers (complete_headers req rsp)) ''Content-Length'' =
     (if rsp_body rsp \<noteq> [] \<and> map_of (rsp_headers rsp) ''Content-Length'' = None
      then Some (to_string (int (length (rsp_body rsp)))) else map_of (rsp_headers rsp) ''Content-Length'')"
  "map_of (rsp_headers (complete_headers req rsp)) ''Content-Type'' =
     (if rsp_body rsp \<noteq> [] \<and> map_of (rsp_headers rsp) ''Content-Type'' = None
      then Some ''application/octet-stream'' else map_of (rsp_headers rsp) ''Content-Type'')"
  unfolding complete_headers_def Let_def HasHeader_lookup
  by (simp_all only: cond_set response_header_lookup) simp_all

lemma status_no_lf: "CHR 0x0A \<notin> set (StatuDescribe st)"
proof -
  have "list_all (\<lambda>(k, d). CHR 0x0A \<notin> set d) statuMap" by (simp add: statuMap_def)
  then have "(st, d) \<in> set statuMap \<Longrightarrow> CHR 0x0A \<notin> set d" for d by (auto simp: list_all_iff)
  then show ?thesis by (auto simp: StatuDescribe_def split: option.splits dest: map_of_SomeD)
qed

lemma digits_no_lf: "list_all is_digit s \<Longrightarrow> CHR 0x0A \<notin> set s"
  by (auto simp: list_all_iff is_digit_def)

lemma to_string_no_lf: "CHR 0x0A \<notin> set (to_string i)"
  using to_string_nat_digits [of "nat i"] to_string_nat_digits [of "nat (- i)"]
  by (simp add: to_string_def digits_no_lf)

text \<open>
  C13. A response can be read back: whatever order the header table is iterated in, the
  first line of the response is the status line, and the header parser of the project reads
  from the rest exactly the headers of the completed response and stops at the body; there
  the \<open>Connection\<close> header says what the request asked for, and \<open>Content-Length\<close>, unless the handler
  set it, is the length of the body that follows.
\<close>

theorem response_framing:
  assumes "mset (iter (rsp_headers (complete_headers req rsp))) = mset (rsp_headers (complete_headers req rsp))"
    and "distinct (map fst (rsp_headers rsp))"
    and "list_all header_wf (rsp_headers (complete_headers req rsp))"
    and "CHR 0x0A \<notin> set (req_version req)" and "req_method req \<noteq> ''HEAD''"
    and "req_headers (ctx_request c) = []"
  shows "\<exists>c'. (let text = response_text iter req (complete_headers req rsp) in
           line_of text = req_version req @ '' '' @ to_string (rsp_statu rsp) @ '' '' @ StatuDescribe (rsp_statu rsp) @ crlf \<and>
           spec_head c (drop (length (line_of text)) text) = (c', rsp_body rsp)) \<and>
         recv_statu c' = RECV_HTTP_BODY \<and>
         map_of (req_headers (ctx_request c')) = map_of (rsp_headers (complete_headers req rsp)) \<and>
         HttpRequest_Close (ctx_request c') = HttpRequest_Close req \<and>
         (map_of (rsp_headers rsp) ''Content-Length'' = None \<longrightarrow>
            ContentLength (ctx_request c') = word_of_nat (length (rsp_body rsp)))"
proof -
  let ?r = "complete_headers req rsp"
  let ?hs = "iter (rsp_headers ?r)" and ?st = "req_version req @ '' '' @ to_string (rsp_statu rsp) @ '' '' @ StatuDescribe (rsp_statu rsp)"
  let ?text = "response_text iter req ?r"
  have resp: "?text = (?st @ [CHR 0x0D]) @ CHR 0x0A # (concat (map header_line ?hs) @ CRLF @ rsp_body rsp)"
    using assms(5) by (simp add: response_text_def crlf_def CRLF_def header_text_lines)
  have lf: "CHR 0x0A \<notin> set (?st @ [CHR 0x0D])" using assms(4) status_no_lf to_string_no_lf by simp
  have line: "line_of ?text = ?st @ crlf" unfolding resp line_of_line [OF lf] by (simp add: crlf_def)
  have wf: "list_all header_wf ?hs" using assms(1,3) by (metis list.pred_set set_mset_mset)
  let ?c = "c\<lparr>ctx_request := set_headers ?hs (ctx_request c), recv_statu := RECV_HTTP_BODY\<rparr>"
  have "?text = (?st @ crlf) @ concat (map header_line ?hs) @ CRLF @ rsp_body rsp"
    unfolding resp by (simp add: crlf_def)
  then have "drop (length (line_of ?text)) ?text = concat (map header_line ?hs) @ CRLF @ rsp_body rsp"
    unfolding line by (metis append_eq_conv_conj)
  then have head: "spec_head c (drop (length (line_of ?text)) ?text) = (?c, rsp_body rsp)"
    using spec_head_lines [OF wf] by simp
  have hdr: "map_of (req_headers (ctx_request ?c)) = map_of (rsp_headers ?r)"
    using map_of_permuted [OF assms(1) complete_headers_distinct [OF assms(2)]] assms(6)
    by (simp add: set_headers_lookup fun_eq_iff)
  have close: "HttpRequest_Close (ctx_request ?c) = HttpRequest_Close req"
    unfolding HttpRequest_Close_def HttpRequest_HasHeader_def HttpRequest_GetHeader_def hdr
    by (simp add: complete_headers_lookup HttpRequest_Close_def HttpRequest_HasHeader_def HttpRequest_GetHeader_def)
  have len: "ContentLength (ctx_request ?c) = word_of_nat (length (rsp_body rsp))" if "map_of (rsp_headers rsp) ''Content-Length'' = None"
    using that to_string_nat_digits [of "length (rsp_body rsp)"]
      ContentLength_loop_digits [of "to_string_nat (length (rsp_body rsp))" 0] dec_value_to_string_nat [of "length (rsp_body rsp)"]
    unfolding ContentLength_def HttpRequest_HasHeader_def HttpRequest_GetHeader_def hdr complete_headers_lookup
    by (simp add: to_string_def dec_value_def Let_def)
  show ?thesis
    by (rule exI [of _ ?c]) (use line head hdr close len in \<open>simp add: Let_def\<close>)
qed

text \<open>An ordinary response.\<close>

definition demo_rsp :: HttpResponse where
  "demo_rsp = SetContent ''Hello'' ''text/plain'' (HttpResponse_new 200)"

lemma demo_rsp_headers:
  "rsp_headers (complete_headers HttpRequest_new demo_rsp) =
     [(''Content-Type'', ''text/plain''), (''Connection'', ''close''), (''Content-Length'', ''5'')]"
proof -
  have "to_string 5 = ''5''" by (simp add: to_string_def to_string_nat.simps char_of_eq)
  then show ?thesis
    by (simp add: demo_rsp_def SetContent_def complete_headers_def HttpResponse_SetHeader_def HttpResponse_new_def
        HttpResponse_HasHeader_def HttpRequest_Close_def HttpRequest_HasHeader_def HttpRequest_new_def Let_def)
qed

theorem response_framing_witness:
  "\<exists>c'. (let text = response_text rev HttpRequest_new (complete_headers HttpRequest_new demo_rsp) in
           line_of text = ''HTTP/1.1 200 OK'' @ crlf \<and>
           spec_head HttpContext_new (drop (length (line_of text)) text) = (c', ''Hello'')) \<and>
         ContentLength (ctx_request c') = 5"
proof -
  have "list_all header_wf (rsp_headers (complete_headers HttpRequest_new demo_rsp))"
    by (simp add: demo_rsp_headers header_wf_def header_line_def CRLF_def MAX_LINE_def)
  moreover have "distinct (map fst (rsp_headers demo_rsp))" "map_of (rsp_headers demo_rsp) ''Content-Length'' = None"
      "rsp_body demo_rsp = ''Hello''" "rsp_statu demo_rsp = 200"
    by (simp_all add: demo_rsp_def SetContent_def HttpResponse_SetHeader_def HttpResponse_new_def)
  moreover have "to_string 200 = ''200''" "StatuDescribe 200 = ''OK''"
    by (simp_all add: to_string_def to_string_nat.simps char_of_eq StatuDescribe_def statuMap_def)
  ultimately show ?thesis
    using response_framing [of rev HttpRequest_new demo_rsp HttpContext_new]
    by (auto simp: HttpRequest_new_def HttpContext_new_def Let_def)
qed

section \<open>Routing\<close>

definition route_table :: "HttpServer \<Rightarrow> bytes \<Rightarrow> handlers option" where
  "route_table srv m =
     (if m = ''GET'' \<or> m = ''HEAD'' then Some (get_route srv)
      else if m = ''POST'' then Some (post_route srv)
      else if m = ''PUT'' then Some (put_route srv)
      else if m = ''DELETE'' then Some (delete_route srv) else None)"

definition route_matches :: "bytes \<Rightarrow> regex \<times> handler \<Rightarrow> bool" where
  "route_matches path h \<longleftrightarrow> regex_match False (fst h) path \<noteq> None"

lemma Dispatcher_first:
  "Dispatcher req rsp hs =
     (case find (route_matches (req_path req)) hs of
        None \<Rightarrow> rsp\<lparr>rsp_statu := 404\<rparr>
      | Some (re, h) \<Rightarrow> h (req\<lparr>req_matches := smatch re (req_path req) (regex_match False re (req_path req))\<rparr>) rsp)"
  by (induction req rsp hs rule: Dispatcher.induct)
     (auto simp: route_matches_def Let_def split: option.splits prod.splits)

text \<open>
  Dispatch of a request that names no static file: it goes to the table of its method,
  there to the first route whose expression matches the whole path, with the captured groups
  in the request, and to no other; without such a route the status is 404, and 405 for a method
  without a table.
\<close>

lemma route_decides:
  assumes "\<not> IsFileHandler fs srv req"
  shows "Route fs srv req rsp =
     (case route_table srv (req_method req) of
        None \<Rightarrow> rsp\<lparr>rsp_statu := 405\<rparr>
      | Some hs \<Rightarrow>
          (case find (route_matches (req_path req)) hs of
             None \<Rightarrow> rsp\<lparr>rsp_statu := 404\<rparr>
           | Some (re, h) \<Rightarrow>
               h (req\<lparr>req_matches := smatch re (req_path req) (regex_match False re (req_path req))\<rparr>) rsp))"
  using assms by (simp add: Route_def route_table_def Dispatcher_first)

text \<open>The program of \<open>src/http-v1/source/http/HttpServer.cc\<close>: one route, \<open>/hello\<close>.\<close>

definition Hello :: handler where
  "Hello req rsp =
     (let body = ''Hello HTTP Server'' @ [CHR 0x0A] @ ''Method: '' @ req_method req @ [CHR 0x0A] @
                 ''Path: '' @ req_path req @ [CHR 0x0A]
      in SetContent body ''text/plain'' rsp)"

definition hello_server :: "file_env \<Rightarrow> HttpServer option" where
  "hello_server fs = do { srv \<leftarrow> SetBaseDir fs ''./wwwroot'' HttpServer_new; Some (Get (rlit ''/hello'') Hello srv) }"

definition www_files :: file_env where
  "www_files = no_files\<lparr>stat_mode := [''./wwwroot'' \<mapsto> ModeDir, ''./wwwroot/index.html'' \<mapsto> ModeReg],
     file_content := [''./wwwroot/index.html'' \<mapsto> ''<html>'']\<rparr>"

definition hello_srv :: HttpServer where
  "hello_srv = Get (rlit ''/hello'') Hello (HttpServer_new\<lparr>basedir := ''./wwwroot''\<rparr>)"

lemma hello_srv_www: "hello_server www_files = Some hello_srv"
  by (simp add: hello_server_def hello_srv_def SetBaseDir_def IsDirection_def www_files_def)

lemma rlit_matches: "regex_match False (rlit s) t \<noteq> None \<longleftrightarrow> t = s"
proof -
  have eq: "same_char False = (=)" by (simp add: fun_eq_iff same_char_def)
  have "matches False (rlit s) c t c' \<longleftrightarrow> c' = c \<and> t = s" for c c'
    by (simp add: matches_rlit eq list.rel_eq)
  then show ?thesis
    using regex_match_sound [of False "rlit s" t] regex_match_complete [of False "rlit s" t] by blast
qed

text \<open>
  Static files: a request is answered from the file system only under a configured root,
  for \<open>GET\<close> and \<open>HEAD\<close>, and for a regular file whose name is the root followed by the request's path
  (and \<open>index.html\<close> for a directory); when the whole file can be read, the response is its
  contents with the type of its suffix; and if the path has no \<open>.\<close> component it does not
  leave the root directory.
\<close>

lemma static_file_served:
  assumes "IsFileHandler fs srv req" and "file_content fs (file_path srv req) = Some content"
    and "length content \<le> read_count fs (file_path srv req) (length content)"
  shows "Route fs srv req rsp =
           HttpResponse_SetHeader ''Content-Type'' (ExMime (file_path srv req)) (rsp\<lparr>rsp_body := content\<rparr>) \<and>
         (req_method req = ''GET'' \<or> req_method req = ''HEAD'') \<and> IsRegular fs (file_path srv req) \<and>
         (file_path srv req = basedir srv @ req_path req \<or>
          file_path srv req = basedir srv @ req_path req @ ''index.html'' \<and> last (req_path req) = CHR ''/'') \<and>
         basedir srv \<noteq> [] \<and>
         (''.'' \<notin> set (path_dirs (req_path req)) \<longrightarrow> stays_inside 0 (path_dirs (req_path req)))"
proof -
  have h: "basedir srv \<noteq> []" "req_method req = ''GET'' \<or> req_method req = ''HEAD''" "IsValid (req_path req)"
      "IsRegular fs (file_path srv req)"
    using assms(1) by (simp_all add: IsFileHandler_def split: if_splits)
  have "Route fs srv req rsp =
      HttpResponse_SetHeader ''Content-Type'' (ExMime (file_path srv req)) (rsp\<lparr>rsp_body := content\<rparr>)"
    using assms by (simp add: Route_def FileHandler_def ReadFile_def Let_def min.absorb1)
  moreover have "''.'' \<notin> set (path_dirs (req_path req)) \<longrightarrow> stays_inside 0 (path_dirs (req_path req))"
    using h(3) IsValid_loop_iff [of "path_dirs (req_path req)" 0] by (simp add: IsValid_dirs)
  ultimately show ?thesis using h by (simp add: file_path_def Let_def)
qed

end
