(* ===== verification/LoopPool.thy ===== *)
theory LoopPool
  imports Prelude "HOL-Library.Multiset" "HOL-Library.Signed_Division"
begin

text \<open>
  The classes \<open>LoopThread\<close> and \<open>LoopThreadPool\<close> of \<open>src/http-v1/source/server.hpp\<close>. An event loop
  is a value of a type parameter. The pool is a record and its operations are functions. The
  start of a loop thread, which creates its loop and publishes it to the threads that wait for it
  on a condition variable, is a step relation over the thread, the waiting threads and the mutex.
\<close>

section \<open>The publication of a loop\<close>

text \<open>Where \<open>ThreadEntry\<close> is: creating its loop, holding the mutex, or running the loop; and where a
  thread that calls \<open>GetLoop\<close> is: before locking, holding the mutex, asleep in \<open>wait\<close>, woken and
  about to lock again, or returned with a loop.\<close>

datatype entry_pc = Creating | EntryLocked | LoopRuns

datatype 'l getter_pc = Calling | GetterLocked | Sleeping | Woken | Returned "'l option"

datatype owner = OwnerEntry | OwnerGetter nat

record 'l LoopThread =
  lt_loop :: "'l option"
  lt_mutex :: "owner option"
  lt_entry :: entry_pc
  lt_getters :: "nat \<Rightarrow> 'l getter_pc"

definition LoopThread_new :: "'l LoopThread" where
  "LoopThread_new = \<lparr>lt_loop = None, lt_mutex = None, lt_entry = Creating, lt_getters = (\<lambda>_. Calling)\<rparr>"

text \<open>\<open>notify_all\<close>.\<close>

definition notify_all :: "(nat \<Rightarrow> 'l getter_pc) \<Rightarrow> nat \<Rightarrow> 'l getter_pc" where
  "notify_all gs g = (if gs g = Sleeping then Woken else gs g)"

text \<open>\<open>ThreadEntry\<close>: lock; then store the loop, notify and unlock. \<open>GetLoop\<close>: lock; if the loop is
  there take it and unlock, otherwise unlock and sleep in one step, as \<open>wait\<close> does; a sleeping
  thread is woken by the notification or spuriously, and then locks and tests again.\<close>

inductive thread_step :: "'l \<Rightarrow> 'l LoopThread \<Rightarrow> 'l LoopThread \<Rightarrow> bool" for loop where
  entry_lock: "lt_entry s = Creating \<Longrightarrow> lt_mutex s = None \<Longrightarrow>
    thread_step loop s (s\<lparr>lt_entry := EntryLocked, lt_mutex := Some OwnerEntry\<rparr>)"
| publish: "lt_entry s = EntryLocked \<Longrightarrow>
    thread_step loop s (s\<lparr>lt_loop := Some loop, lt_getters := notify_all (lt_getters s), lt_mutex := None, lt_entry := LoopRuns\<rparr>)"
| getter_lock: "lt_getters s g = Calling \<or> lt_getters s g = Woken \<Longrightarrow> lt_mutex s = None \<Longrightarrow>
    thread_step loop s (s\<lparr>lt_getters := (lt_getters s)(g := GetterLocked), lt_mutex := Some (OwnerGetter g)\<rparr>)"
| getter_take: "lt_getters s g = GetterLocked \<Longrightarrow> lt_loop s \<noteq> None \<Longrightarrow>
    thread_step loop s (s\<lparr>lt_getters := (lt_getters s)(g := Returned (lt_loop s)), lt_mutex := None\<rparr>)"
| getter_wait: "lt_getters s g = GetterLocked \<Longrightarrow> lt_loop s = None \<Longrightarrow>
    thread_step loop s (s\<lparr>lt_getters := (lt_getters s)(g := Sleeping), lt_mutex := None\<rparr>)"
| spurious: "lt_getters s g = Sleeping \<Longrightarrow>
    thread_step loop s (s\<lparr>lt_getters := (lt_getters s)(g := Woken)\<rparr>)"

definition thread_inv :: "'l \<Rightarrow> 'l LoopThread \<Rightarrow> bool" where
  "thread_inv loop s \<longleftrightarrow>
     (lt_loop s = (if lt_entry s = LoopRuns then Some loop else None)) \<and>
     (lt_entry s = EntryLocked \<longleftrightarrow> lt_mutex s = Some OwnerEntry) \<and>
     (\<forall>g. lt_getters s g = GetterLocked \<longleftrightarrow> lt_mutex s = Some (OwnerGetter g)) \<and>
     (\<forall>g. lt_getters s g = Sleeping \<longrightarrow> lt_entry s \<noteq> LoopRuns) \<and>
     (\<forall>g r. lt_getters s g = Returned r \<longrightarrow> r = Some loop \<and> lt_entry s = LoopRuns)"

lemma thread_invD:
  assumes "thread_inv loop s"
  shows "lt_entry s = LoopRuns \<Longrightarrow> lt_loop s = Some loop"
    and "lt_getters s g = GetterLocked \<longleftrightarrow> lt_mutex s = Some (OwnerGetter g)"
    and "lt_entry s = EntryLocked \<longleftrightarrow> lt_mutex s = Some OwnerEntry"
    and "lt_getters s g = Sleeping \<Longrightarrow> lt_entry s \<noteq> LoopRuns"
    and "lt_getters s g = Returned r \<Longrightarrow> r = Some loop"
  using assms unfolding thread_inv_def by (simp, blast, blast, blast, blast)

lemma thread_inv_new: "thread_inv loop LoopThread_new"
  by (simp add: thread_inv_def LoopThread_new_def)

lemma thread_inv_step: "thread_step loop s s' \<Longrightarrow> thread_inv loop s \<Longrightarrow> thread_inv loop s'"
proof (induction rule: thread_step.induct)
  case (publish s)
  then show ?case by (auto simp: thread_inv_def notify_all_def)
next
  case (spurious s g)
  then have "lt_mutex s \<noteq> Some (OwnerGetter g)" unfolding thread_inv_def by (metis getter_pc.distinct(9))
  then show ?case using spurious by (auto simp: thread_inv_def)
qed (auto simp: thread_inv_def)

lemma thread_inv_steps: "(thread_step loop)\<^sup>*\<^sup>* s s' \<Longrightarrow> thread_inv loop s \<Longrightarrow> thread_inv loop s'"
  by (induction rule: rtranclp_induct) (auto intro: thread_inv_step)

text \<open>A thread that calls \<open>GetLoop\<close> can go on until it returns, from any reachable state: whoever
  holds the mutex releases it, the loop is published, and no notification is missed.\<close>

lemma mutex_released:
  assumes "thread_inv loop s"
  shows "\<exists>s'. (thread_step loop)\<^sup>*\<^sup>* s s' \<and> lt_mutex s' = None \<and> (lt_entry s = LoopRuns \<longrightarrow> lt_entry s' = LoopRuns)"
proof (cases "lt_mutex s")
  case (Some w)
  show ?thesis
  proof (cases w)
    case OwnerEntry
    then have "lt_entry s = EntryLocked" using assms Some by (simp add: thread_inv_def)
    from thread_step.publish [OF this] show ?thesis by (intro exI conjI, rule r_into_rtranclp) simp_all
  next
    case (OwnerGetter g)
    then have g: "lt_getters s g = GetterLocked" using assms Some by (simp add: thread_inv_def)
    show ?thesis
    proof (cases "lt_loop s")
      case None
      from thread_step.getter_wait [OF g None] show ?thesis by (intro exI conjI, rule r_into_rtranclp) simp_all
    next
      case (Some x)
      then have "lt_loop s \<noteq> None" by simp
      from thread_step.getter_take [OF g this] show ?thesis by (intro exI conjI, rule r_into_rtranclp) simp_all
    qed
  qed
qed auto

lemma loop_published:
  assumes "thread_inv loop s"
  shows "\<exists>s'. (thread_step loop)\<^sup>*\<^sup>* s s' \<and> lt_mutex s' = None \<and> lt_entry s' = LoopRuns"
proof -
  obtain s1 where s1: "(thread_step loop)\<^sup>*\<^sup>* s s1" "lt_mutex s1 = None" using mutex_released [OF assms] by blast
  have inv: "thread_inv loop s1" by (rule thread_inv_steps [OF s1(1) assms])
  show ?thesis
  proof (cases "lt_entry s1")
    case Creating
    let ?s2 = "s1\<lparr>lt_entry := EntryLocked, lt_mutex := Some OwnerEntry\<rparr>"
    have 1: "thread_step loop s1 ?s2" by (rule thread_step.entry_lock [OF Creating s1(2)])
    have "lt_entry ?s2 = EntryLocked" by simp
    note 2 = thread_step.publish [OF this, of loop]
    show ?thesis
      by (rule exI, intro conjI, rule rtranclp.rtrancl_into_rtrancl [OF rtranclp.rtrancl_into_rtrancl [OF s1(1) 1] 2]) simp_all
  next
    case EntryLocked
    then show ?thesis using inv s1(2) by (simp add: thread_inv_def)
  qed (use s1 in blast)
qed

lemma getter_returns:
  assumes "thread_inv loop s"
  shows "\<exists>s'. (thread_step loop)\<^sup>*\<^sup>* s s' \<and> lt_getters s' g = Returned (Some loop)"
proof -
  obtain s1 where s1: "(thread_step loop)\<^sup>*\<^sup>* s s1" "lt_mutex s1 = None" "lt_entry s1 = LoopRuns"
    using loop_published [OF assms] by blast
  have inv: "thread_inv loop s1" by (rule thread_inv_steps [OF s1(1) assms])
  have l: "lt_loop s1 = Some loop" using inv s1(3) by (simp add: thread_inv_def)
  show ?thesis
  proof (cases "lt_getters s1 g = Calling \<or> lt_getters s1 g = Woken")
    case True
    let ?s2 = "s1\<lparr>lt_getters := (lt_getters s1)(g := GetterLocked), lt_mutex := Some (OwnerGetter g)\<rparr>"
    let ?s3 = "?s2\<lparr>lt_getters := (lt_getters ?s2)(g := Returned (lt_loop ?s2)), lt_mutex := None\<rparr>"
    have "thread_step loop s1 ?s2" using True s1(2) by (rule thread_step.getter_lock)
    moreover have "thread_step loop ?s2 ?s3" by (rule thread_step.getter_take) (simp_all add: l)
    ultimately have "(thread_step loop)\<^sup>*\<^sup>* s ?s3" using s1(1) by (blast intro: rtranclp.rtrancl_into_rtrancl)
    moreover have "lt_getters ?s3 g = Returned (Some loop)" by (simp add: l)
    ultimately show ?thesis by (intro exI [of _ ?s3] conjI)
  next
    case False
    have "lt_getters s1 g \<noteq> GetterLocked" "lt_getters s1 g \<noteq> Sleeping"
      using thread_invD(2) [OF inv, of g] thread_invD(4) [OF inv, of g] s1(2,3) by (simp, blast)
    with False obtain r where "lt_getters s1 g = Returned r" by (cases "lt_getters s1 g") auto
    moreover from this have "r = Some loop" by (rule thread_invD(5) [OF inv])
    ultimately show ?thesis using s1(1) by auto
  qed
qed




section \<open>The pool\<close>

record 'l LoopThreadPool =
  thread_count :: int
  thread_index :: int
  base_loop :: 'l
  pool_loops :: "'l list"

definition LoopThreadPool_new :: "'l \<Rightarrow> 'l LoopThreadPool" where
  "LoopThreadPool_new loop = \<lparr>thread_count = 0, thread_index = 0, base_loop = loop, pool_loops = []\<rparr>"

definition SetThreadCount :: "int \<Rightarrow> 'l LoopThreadPool \<Rightarrow> 'l LoopThreadPool" where
  "SetThreadCount cnt p = p\<lparr>thread_count := cnt\<rparr>"

text \<open>\<open>CreateThread\<close>: \<open>start i\<close> is the loop that the \<open>i\<close>-th new thread publishes.\<close>

definition CreateThread :: "(nat \<Rightarrow> 'l) \<Rightarrow> 'l LoopThreadPool \<Rightarrow> 'l LoopThreadPool" where
  "CreateThread start p =
     (if 0 < thread_count p then p\<lparr>pool_loops := map start [0..<nat (thread_count p)]\<rparr> else p)"

text \<open>\<open>GetLoop\<close>: \<open>%\<close> truncates; an index outside the vector is \<open>None\<close>.\<close>

definition GetLoop :: "'l LoopThreadPool \<Rightarrow> ('l \<times> 'l LoopThreadPool) option" where
  "GetLoop p =
     (if thread_count p = 0 then Some (base_loop p, p)
      else
        let i = (thread_index p + 1) smod thread_count p
        in if 0 \<le> i \<and> i < int (length (pool_loops p))
           then Some (pool_loops p ! nat i, p\<lparr>thread_index := i\<rparr>) else None)"

fun GetLoops :: "nat \<Rightarrow> 'l LoopThreadPool \<Rightarrow> ('l list \<times> 'l LoopThreadPool) option" where
  "GetLoops 0 p = Some ([], p)"
| "GetLoops (Suc k) p = do { (l, p1) \<leftarrow> GetLoop p; (ls, p2) \<leftarrow> GetLoops k p1; Some (l # ls, p2) }"

definition pool_ok :: "nat \<Rightarrow> nat \<Rightarrow> 'l LoopThreadPool \<Rightarrow> bool" where
  "pool_ok n i p \<longleftrightarrow> 0 < n \<and> i < n \<and> thread_count p = int n \<and> thread_index p = int i \<and> length (pool_loops p) = n"

lemma GetLoop_ok:
  assumes "pool_ok n i p"
  shows "GetLoop p = Some (pool_loops p ! ((i + 1) mod n), p\<lparr>thread_index := int ((i + 1) mod n)\<rparr>)"
    and "pool_ok n ((i + 1) mod n) (p\<lparr>thread_index := int ((i + 1) mod n)\<rparr>)"
proof -
  have "(int i + 1) smod int n = int ((i + 1) mod n)"
    using assms by (simp add: smod_int_alt_def pool_ok_def zmod_int sgn_if abs_if add.commute)
  then show "GetLoop p = Some (pool_loops p ! ((i + 1) mod n), p\<lparr>thread_index := int ((i + 1) mod n)\<rparr>)"
    using assms by (simp add: GetLoop_def pool_ok_def Let_def)
  show "pool_ok n ((i + 1) mod n) (p\<lparr>thread_index := int ((i + 1) mod n)\<rparr>)"
    using assms by (simp add: pool_ok_def)
qed

lemma GetLoops_ok:
  assumes "pool_ok n i p"
  shows "\<exists>p'. GetLoops k p = Some (map (\<lambda>j. pool_loops p ! ((i + 1 + j) mod n)) [0..<k], p')"
  using assms
proof (induction k arbitrary: i p)
  case (Suc k)
  let ?i = "(i + 1) mod n" and ?p = "p\<lparr>thread_index := int ((i + 1) mod n)\<rparr>"
  obtain p' where p': "GetLoops k ?p = Some (map (\<lambda>j. pool_loops p ! ((?i + 1 + j) mod n)) [0..<k], p')"
    using Suc.IH [OF GetLoop_ok(2) [OF Suc.prems]] by auto
  have "map (\<lambda>j. pool_loops p ! ((?i + 1 + j) mod n)) [0..<k] = map (\<lambda>j. pool_loops p ! ((i + 1 + Suc j) mod n)) [0..<k]"
  proof -
    have "((i + 1) mod n + 1 + j) mod n = (i + 1 + Suc j) mod n" for j
      using mod_add_left_eq [of "i + 1" n "1 + j"] by (simp add: add.assoc)
    then show ?thesis by simp
  qed
  moreover have "[0..<Suc k] = 0 # map Suc [0..<k]" by (simp add: upt_conv_Cons map_Suc_upt del: upt_Suc)
  ultimately show ?case using p' GetLoop_ok(1) [OF Suc.prems] by (simp add: comp_def del: upt_Suc)
qed simp

lemma mod_shift_perm:
  assumes "0 < n"
  shows "image_mset (\<lambda>j. (a + j) mod n) (mset [0..<n]) = mset [0..<n]"
proof -
  let ?f = "\<lambda>j. (a + j) mod n"
  have "y \<in> ?f ` {0..<n}" if y: "y < n" for y
  proof -
    have "?f ((y + n - a mod n) mod n) = (a mod n + (y + n - a mod n)) mod n" by (simp add: mod_simps)
    also have "a mod n + (y + n - a mod n) = y + n" using assms by (simp add: trans_le_add2 less_imp_le)
    finally have "?f ((y + n - a mod n) mod n) = y" using y by simp
    moreover have "(y + n - a mod n) mod n \<in> {0..<n}" using assms by simp
    ultimately show ?thesis by (metis image_eqI)
  qed
  then have img: "?f ` {0..<n} = {0..<n}" using assms by auto
  have inj: "inj_on ?f {0..<n}" by (rule eq_card_imp_inj_on) (simp_all add: img)
  show ?thesis
    using image_mset_mset_set [OF inj] img by (simp add: atLeast_upt mset_upt)
qed

text \<open>
  Connections are spread evenly: with \<open>n > 0\<close> loop threads, \<open>k\<close> consecutive requests are
  served round robin from the loop after the last one used, and any \<open>n\<close> consecutive requests
  get every loop of the pool exactly once.
\<close>

lemma round_robin_fair:
  assumes "pool_ok n i p"
  shows "\<exists>p'. GetLoops n p = Some (map (\<lambda>j. pool_loops p ! ((i + 1 + j) mod n)) [0..<n], p') \<and>
              mset (map (\<lambda>j. pool_loops p ! ((i + 1 + j) mod n)) [0..<n]) = mset (pool_loops p)"
proof -
  have n: "0 < n" "length (pool_loops p) = n" using assms by (simp_all add: pool_ok_def)
  have "mset (map (\<lambda>j. pool_loops p ! ((i + 1 + j) mod n)) [0..<n])
      = image_mset (\<lambda>j. pool_loops p ! j) (image_mset (\<lambda>j. (i + 1 + j) mod n) (mset [0..<n]))"
    by (simp add: multiset.map_comp comp_def)
  also have "\<dots> = image_mset (\<lambda>j. pool_loops p ! j) (mset [0..<n])" by (simp only: mod_shift_perm [OF n(1)])
  also have "\<dots> = mset (pool_loops p)" using map_nth [of "pool_loops p"] n(2) by (metis mset_map)
  finally show ?thesis using GetLoops_ok [OF assms, of n] by blast
qed

lemma CreateThread_ok: "0 < cnt \<Longrightarrow> pool_ok (nat cnt) 0 (CreateThread start (SetThreadCount cnt (LoopThreadPool_new l)))"
  by (simp add: pool_ok_def CreateThread_def SetThreadCount_def LoopThreadPool_new_def)

end
