(* ===== verification/TcpServer.thy ===== *)
theory TcpServer
  imports ConnectionSafety LoopPool
begin

unbundle bit_operations_syntax

text \<open>
  The class \<open>TcpServer\<close> of \<open>src/http-v1/source/server.hpp\<close>: it accepts connections, hands them to the
  loops of its pool and keeps them in a table until they are released. The loops are numbered,
  loop 0 is \<open>_baseloop\<close>. A connection object is its loop and its state, found under its identifier; the
  table \<open>srv_connections\<close> holds the identifiers. \<open>remove_cb\<close> is the name of the callback bound to
  \<open>RemoveConnection\<close>. A release inside an operation of a connection calls it; \<open>with_conn\<close> applies its effect
  on the table when the operation returns, once per release.

  The theory shows what a new connection is set up with and where it runs, and which entries
  of the table a release removes; and it ties the timer wheel to the connections: the
  release callback keeps the wheel intact, so that the properties of the wheel hold for the
  inactivity timers of connections.
\<close>

section \<open>State and operations\<close>

record ('ctx, 'k) TcpServer =
  srv_port :: nat
  con_timer_id :: u64
  srv_timeout :: int
  srv_inactive :: bool
  srv_loops :: "nat \<Rightarrow> ('ctx, 'k) conn_loop"
  srv_acceptor :: "Socket \<times> unit Channel"
  srv_pool :: "nat LoopThreadPool"
  srv_objects :: "u64 \<rightharpoonup> nat \<times> ('ctx, 'k) Connection"
  srv_connections :: "u64 set"
  srv_connect_cb :: "'k option"
  srv_msg_cb :: "'k option"
  srv_close_cb :: "'k option"
  srv_any_cb :: "'k option"
  srv_server_close_cb :: "'k option"

definition TcpServer_new :: "sock_results \<Rightarrow> nat \<Rightarrow> (nat \<Rightarrow> ('ctx, 'k) conn_loop) \<Rightarrow> ('ctx, 'k) TcpServer option" where
  "TcpServer_new k port loops = do {
     (sock, ch) \<leftarrow> Acceptor_new k port 1 ();
     let (ch1, p) = Acceptor_Listen (ch, el_poll (loops 0));
     Some \<lparr>srv_port = port, con_timer_id = 0, srv_timeout = 0, srv_inactive = False,
       srv_loops = loops(0 := (loops 0)\<lparr>el_poll := p\<rparr>), srv_acceptor = (sock, ch1), srv_pool = LoopThreadPool_new 0,
       srv_objects = (\<lambda>_. None), srv_connections = {},
       srv_connect_cb = None, srv_msg_cb = None, srv_close_cb = None, srv_any_cb = None, srv_server_close_cb = None\<rparr>
   }"

text \<open>\<open>Start\<close> creates the threads (the \<open>i\<close>-th new thread runs loop \<open>i + 1\<close>) before it runs the base loop.\<close>

definition TcpServer_Start :: "('ctx, 'k) TcpServer \<Rightarrow> ('ctx, 'k) TcpServer" where
  "TcpServer_Start srv = srv\<lparr>srv_pool := CreateThread Suc (srv_pool srv)\<rparr>"

definition TcpServer_SetThreadCount :: "int \<Rightarrow> ('ctx, 'k) TcpServer \<Rightarrow> ('ctx, 'k) TcpServer" where
  "TcpServer_SetThreadCount cnt srv = srv\<lparr>srv_pool := SetThreadCount cnt (srv_pool srv)\<rparr>"

definition TcpServer_EnableInactiveRealse :: "int \<Rightarrow> ('ctx, 'k) TcpServer \<Rightarrow> ('ctx, 'k) TcpServer" where
  "TcpServer_EnableInactiveRealse timeout srv = srv\<lparr>srv_timeout := timeout, srv_inactive := True\<rparr>"

definition TcpServer_SetConnectCallBack :: "'k option \<Rightarrow> ('ctx, 'k) TcpServer \<Rightarrow> ('ctx, 'k) TcpServer" where
  "TcpServer_SetConnectCallBack cb srv = srv\<lparr>srv_connect_cb := cb\<rparr>"

definition TcpServer_SetMsgCallBack :: "'k option \<Rightarrow> ('ctx, 'k) TcpServer \<Rightarrow> ('ctx, 'k) TcpServer" where
  "TcpServer_SetMsgCallBack cb srv = srv\<lparr>srv_msg_cb := cb\<rparr>"

definition TcpServer_SetCloseCallBack :: "'k option \<Rightarrow> ('ctx, 'k) TcpServer \<Rightarrow> ('ctx, 'k) TcpServer" where
  "TcpServer_SetCloseCallBack cb srv = srv\<lparr>srv_close_cb := cb\<rparr>"

definition TcpServer_SetAnyCallBack :: "'k option \<Rightarrow> ('ctx, 'k) TcpServer \<Rightarrow> ('ctx, 'k) TcpServer" where
  "TcpServer_SetAnyCallBack cb srv = srv\<lparr>srv_any_cb := cb\<rparr>"

definition TcpServer_SetServerCloseCallBack :: "'k option \<Rightarrow> ('ctx, 'k) TcpServer \<Rightarrow> ('ctx, 'k) TcpServer" where
  "TcpServer_SetServerCloseCallBack cb srv = srv\<lparr>srv_server_close_cb := cb\<rparr>"

text \<open>\<open>int id = conn->GetId()\<close> keeps the low 32 bits, and the search converts the \<open>int\<close> back to 64 bits.\<close>

definition int_key :: "u64 \<Rightarrow> u64" where
  "int_key cid = word_of_int (sint (word_of_int (uint cid) :: u32))"

definition RemoveConnectionInLoop :: "u64 \<Rightarrow> ('ctx, 'k) TcpServer \<Rightarrow> ('ctx, 'k) TcpServer" where
  "RemoveConnectionInLoop cid srv =
     (let key = int_key cid
      in if key \<in> srv_connections srv then srv\<lparr>srv_connections := srv_connections srv - {key}\<rparr> else srv)"

definition RemoveConnection :: "nat \<Rightarrow> u64 \<Rightarrow> ('ctx, 'k) TcpServer \<Rightarrow> ('ctx, 'k) TcpServer" where
  "RemoveConnection thread cid srv =
     (if IsInLoop thread (srv_loops srv 0) then RemoveConnectionInLoop cid srv
      else srv\<lparr>srv_loops := (srv_loops srv)(0 := QueueInLoop (FClient (TServer (unat cid))) (srv_loops srv 0))\<rparr>)"

text \<open>An operation \<open>f\<close> of the connection \<open>cid\<close>, on the connection and its loop.\<close>

definition with_conn ::
    "'k \<Rightarrow> u64 \<Rightarrow> (('ctx, 'k) conn_sys \<Rightarrow> ('ctx, 'k) conn_sys option) \<Rightarrow> ('ctx, 'k) TcpServer \<Rightarrow> ('ctx, 'k) TcpServer option" where
  "with_conn remove_cb cid f srv = do {
     (i, c) \<leftarrow> srv_objects srv cid;
     (c1, l1) \<leftarrow> f (c, srv_loops srv i);
     let srv1 = srv\<lparr>srv_objects := (srv_objects srv)(cid \<mapsto> (i, c1)), srv_loops := (srv_loops srv)(i := l1)\<rparr>;
     let times = (if server_close_cb c = Some remove_cb then conn_released c1 - conn_released c else 0);
     Some ((RemoveConnection (el_thread l1) cid ^^ times) srv1)
   }"

definition new_conn :: "'k \<Rightarrow> u64 \<Rightarrow> int \<Rightarrow> ('ctx, 'k) TcpServer \<Rightarrow> ('ctx, 'k) Connection" where
  "new_conn remove_cb cid newfd srv =
     SetServerCloseCallBack (Some remove_cb)
      (SetAnyCallBack (srv_any_cb srv)
        (SetMsgCallBack (srv_msg_cb srv)
          (SetConnectCallBack (srv_connect_cb srv)
            (SetCloseCallBack (srv_server_close_cb srv)
              (Connection_Tie (Connection_new cid newfd))))))"

definition NewConnection ::
    "('ctx, 'k) user_cb \<Rightarrow> 'k \<Rightarrow> nat \<Rightarrow> int \<Rightarrow> ('ctx, 'k) TcpServer \<Rightarrow> ('ctx, 'k) TcpServer option" where
  "NewConnection user remove_cb thread newfd srv =
     (let cid = con_timer_id srv + 1; srv0 = srv\<lparr>con_timer_id := cid\<rparr> in do {
        (i, pool) \<leftarrow> GetLoop (srv_pool srv0);
        let srv1 = srv0\<lparr>srv_pool := pool,
              srv_objects := (srv_objects srv0)(cid \<mapsto> (i, new_conn remove_cb cid newfd srv0))\<rparr>;
        srv2 \<leftarrow> (if srv_inactive srv1
                 then with_conn remove_cb cid (EnableInactiveRealse user thread (srv_timeout srv1)) srv1 else Some srv1);
        srv3 \<leftarrow> with_conn remove_cb cid (Established user thread) srv2;
        Some (srv3\<lparr>srv_connections := insert cid (srv_connections srv3)\<rparr>)
      })"

definition SetDelayTaskInLoop :: "nat \<Rightarrow> nat \<Rightarrow> int \<Rightarrow> ('ctx, 'k) TcpServer \<Rightarrow> ('ctx, 'k) TcpServer option" where
  "SetDelayTaskInLoop thread func timeout srv =
     (let cid = con_timer_id srv + 1 in do {
        l \<leftarrow> TimerAdd (\<lambda>_ l. Some l) thread cid (word_of_int timeout) (UserTask func) (srv_loops srv 0);
        Some (srv\<lparr>con_timer_id := cid, srv_loops := (srv_loops srv)(0 := l)\<rparr>)
      })"

section \<open>Timers of connections\<close>

text \<open>A loop together with the connections it owns, on which the callbacks of timers run. \<open>CbRemove\<close>
  is the callback bound to \<open>RemoveConnection\<close>, the only one a release calls; it and the user's delayed
  tasks are recorded.\<close>

datatype srv_cb = CbRemove

record 'ctx loop_world = "(timer_cb, ('ctx, srv_cb) conn_task) EventLoop" +
  lw_conns :: "u64 \<rightharpoonup> ('ctx, srv_cb) Connection"
  lw_ran :: "nat list"

definition timer_exec :: "timer_cb \<Rightarrow> 'ctx loop_world \<Rightarrow> 'ctx loop_world option" where
  "timer_exec cb w =
     (case cb of
        UserTask n \<Rightarrow> Some (w\<lparr>lw_ran := lw_ran w @ [n]\<rparr>)
      | ReleaseConn cid \<Rightarrow>
          (case lw_conns w cid of
             None \<Rightarrow> Some w
           | Some c \<Rightarrow> do {
               (c1, l) \<leftarrow> ReleaseInLoop (\<lambda>_ s. Some s) (c, EventLoop.EventLoop.truncate w);
               Some (EventLoop.EventLoop.extend l (loop_world.fields ((lw_conns w)(cid \<mapsto> c1)) (lw_ran w)))
             }))"

text \<open>A loop as seen by the wheel: the same timers whatever else differs.\<close>

lemma world_simps [simp]:
  "tw_tick (EventLoop.EventLoop.truncate w) = tw_tick w" "tw_clearing (EventLoop.EventLoop.truncate w) = tw_clearing w"
    "tw_fired (EventLoop.EventLoop.truncate w) = tw_fired w" "tw_wheel (EventLoop.EventLoop.truncate w) = tw_wheel w"
    "tw_heap (EventLoop.EventLoop.truncate w) = tw_heap w" "tw_next (EventLoop.EventLoop.truncate w) = tw_next w"
    "tw_capacity (EventLoop.EventLoop.truncate w) = tw_capacity w" "tw_timers (EventLoop.EventLoop.truncate w) = tw_timers w"
  by (simp_all add: EventLoop.EventLoop.truncate_def)

lemma world_put_simps [simp]:
  "tw_tick (EventLoop.EventLoop.extend l z) = tw_tick l" "tw_clearing (EventLoop.EventLoop.extend l z) = tw_clearing l"
  "tw_fired (EventLoop.EventLoop.extend l z) = tw_fired l" "tw_wheel (EventLoop.EventLoop.extend l z) = tw_wheel l"
  "tw_heap (EventLoop.EventLoop.extend l z) = tw_heap l" "tw_next (EventLoop.EventLoop.extend l z) = tw_next l"
  "tw_capacity (EventLoop.EventLoop.extend l z) = tw_capacity l" "tw_timers (EventLoop.EventLoop.extend l z) = tw_timers l"
  by (simp_all add: EventLoop.EventLoop.extend_def)

lemma world_wheel:
  "wheel_inv (EventLoop.EventLoop.truncate w) = wheel_inv w" "wheel_inv (EventLoop.EventLoop.extend l z) = wheel_inv l"
  "wheel_le (EventLoop.EventLoop.truncate w) l \<Longrightarrow> wheel_le w (EventLoop.EventLoop.extend l z)"
  "wheel_inv (l\<lparr>el_poll := p\<rparr>) = wheel_inv l" "wheel_le l (l\<lparr>el_poll := p\<rparr>)" "wheel_le (l\<lparr>el_poll := p\<rparr>) l' = wheel_le l l'"
  by (simp_all add: wheel_inv_def wheel_le_def)

lemma released_wheel:
  assumes "wheel_inv (snd s)"
  shows "wheel_inv (snd (released_state s)) \<and> wheel_le (snd s) (snd (released_state s))"
  using assms wheel_op_le(3) [of "(snd s)\<lparr>el_poll := p\<rparr>" "connect_id (fst s)" for p]
  by (simp add: released_state_def DisableInactiveRealseInLoop_def Let_def world_wheel)

lemma timer_exec_keeps:
  fixes w :: "'ctx loop_world"
  assumes "wheel_inv w"
  shows "keeps w (timer_exec cb w)"
proof (cases cb)
  case (UserTask n)
  then show ?thesis using assms by (simp add: timer_exec_def keeps_def wheel_inv_def wheel_le_def)
next
  case (ReleaseConn cid)
  have call: "call_opt (\<lambda>_ s. Some s) k x = Some x" for k and x :: "('ctx, srv_cb) conn_sys"
    by (cases k) (simp_all add: call_opt_def)
  show ?thesis
  proof (cases "lw_conns w cid")
    case None
    then show ?thesis using ReleaseConn assms by (simp add: timer_exec_def keeps_def wheel_le_def)
  next
    case (Some c)
    let ?s = "(c, EventLoop.EventLoop.truncate w)"
    have "wheel_inv (snd (released_state ?s))" "wheel_le (EventLoop.EventLoop.truncate w) (snd (released_state ?s))"
      using released_wheel [of ?s] assms by (simp_all add: world_wheel)
    then show ?thesis
      using ReleaseConn Some by (simp add: timer_exec_def ReleaseInLoop_alt call keeps_def world_wheel split_def)
  qed
qed

text \<open>The inactivity timers and the delayed tasks of a server are clients of its loop's wheel.\<close>

interpretation conn_timers: timer_client timer_exec
  by unfold_locales (rule timer_exec_keeps)

section \<open>Properties\<close>

lemma int_key_eq: "int_key cid = word_of_int (signed_take_bit 31 (uint cid))"
  unfolding int_key_def sint_sbintrunc' by simp

lemma uint_bound: "uint w < int k \<longleftrightarrow> unat w < k" "int k \<le> uint w \<longleftrightarrow> k \<le> unat w"
  by (simp_all only: uint_nat of_nat_less_iff of_nat_le_iff)

lemma int_key_small:
  assumes "unat cid < 2 ^ 31"
  shows "int_key cid = cid"
proof -
  have u: "uint cid < 2 ^ 31" "0 \<le> uint cid" using uint_bound(1) [of cid "2 ^ 31"] assms by simp_all
  have "- (2 ^ 31) \<le> uint cid" using order_trans [OF _ u(2), of "- (2 ^ 31)"] by simp
  then have "signed_take_bit 31 (uint cid) = uint cid" using u(1) by (rule signed_take_bit_int_eq_self)
  then show ?thesis by (simp only: int_key_eq word_of_int_uint)
qed

lemma int_key_large:
  assumes "2 ^ 31 \<le> unat cid" and "unat cid < 2 ^ 64 - 2 ^ 31"
  shows "int_key cid \<noteq> cid"
proof
  assume eq: "int_key cid = cid"
  let ?i = "signed_take_bit 31 (uint cid)"
  have r: "- (2 ^ 31) \<le> ?i" "?i < 2 ^ 31"
    using signed_take_bit_int_greater_eq_minus_exp [of 31 "uint cid"] signed_take_bit_int_less_exp [of 31 "uint cid"] by simp_all
  have "uint (int_key cid) = ?i mod 2 ^ LENGTH(64)" unfolding int_key_eq by (rule uint_word_of_int)
  then have u: "uint cid = ?i mod 2 ^ 64" using eq by simp
  have b: "2 ^ 31 \<le> uint cid" "uint cid < 2 ^ 64 - 2 ^ 31"
    using uint_bound(2) [of "2 ^ 31" cid] uint_bound(1) [of cid "2 ^ 64 - 2 ^ 31"] assms by simp_all
  show False
  proof (cases "0 \<le> ?i")
    case True
    then have "?i mod 2 ^ 64 = ?i" using r by (intro mod_pos_pos_trivial) simp_all
    then show False using u b(1) r(2) by simp
  next
    case False
    then have "(?i + 2 ^ 64) mod 2 ^ 64 = ?i + 2 ^ 64" using r by (intro mod_pos_pos_trivial) simp_all
    then show False using u b(2) r(1) by simp
  qed
qed

lemma int_key_top:
  assumes "2 ^ 64 - 2 ^ 31 \<le> unat cid"
  shows "int_key cid = cid"
proof -
  let ?i = "uint cid - 2 ^ 64"
  have u: "2 ^ 64 - 2 ^ 31 \<le> uint cid" using uint_bound(2) [of "2 ^ 64 - 2 ^ 31" cid] assms by simp
  have l: "uint cid < 2 ^ 64" using uint_lt2p [of cid] by simp
  have "?i = uint cid + (- (2 ^ 32)) * 2 ^ 32" by simp
  then have "?i mod 2 ^ 32 = uint cid mod 2 ^ 32" by (metis mod_mult_self1)
  then have "take_bit (Suc 31) ?i = take_bit (Suc 31) (uint cid)" by (simp add: take_bit_eq_mod)
  then have "signed_take_bit 31 ?i = signed_take_bit 31 (uint cid)"
    by (simp add: signed_take_bit_eq_iff_take_bit_eq)
  moreover have "signed_take_bit 31 ?i = ?i" using u l by (intro signed_take_bit_int_eq_self) simp_all
  ultimately have "signed_take_bit 31 (uint cid) = ?i" by simp
  then show ?thesis by (simp add: int_key_eq)
qed

lemma int_key_wraps:
  assumes "unat k < 2 ^ 31"
  shows "int_key (k + 2 ^ 32) = k"
proof -
  have "uint k < 2 ^ 31" using uint_bound(1) [of k "2 ^ 31"] assms by simp
  then have "uint (k + 2 ^ 32) = uint k + 2 ^ 32" by (simp add: uint_word_ariths(1))
  then have "(word_of_int (uint (k + 2 ^ 32)) :: u32) = word_of_int (uint k)" by (simp add: word_of_int_eq_iff take_bit_eq_mod)
  then show ?thesis using int_key_small [OF assms] by (simp add: int_key_def)
qed

text \<open>
  C22. Removal from the table: the identifier of a released connection passes through an \<open>int\<close>. Its entry is removed exactly if the
  identifier is below \<open>2^31\<close> or among the last \<open>2^31\<close> values of the 64-bit type; then no other entry is touched. For every other identifier the
  entry stays, and the release of the connection \<open>2^32 + k\<close> removes the entry of the connection \<open>k\<close> instead.
\<close>

theorem remove_connection_range:
  "(cid \<in> srv_connections srv \<longrightarrow>
      (cid \<notin> srv_connections (RemoveConnectionInLoop cid srv) \<longleftrightarrow> unat cid < 2 ^ 31 \<or> 2 ^ 64 - 2 ^ 31 \<le> unat cid)) \<and>
   (unat cid < 2 ^ 31 \<or> 2 ^ 64 - 2 ^ 31 \<le> unat cid \<longrightarrow>
      srv_connections (RemoveConnectionInLoop cid srv) = srv_connections srv - {cid}) \<and>
   (unat cid < 2 ^ 31 \<longrightarrow> srv_connections (RemoveConnectionInLoop (cid + 2 ^ 32) srv) = srv_connections srv - {cid})"
proof -
  have k: "int_key cid = cid \<longleftrightarrow> unat cid < 2 ^ 31 \<or> 2 ^ 64 - 2 ^ 31 \<le> unat cid"
    using int_key_small [of cid] int_key_large [of cid] int_key_top [of cid] by linarith
  have r: "srv_connections (RemoveConnectionInLoop c srv) = srv_connections srv - {int_key c}" for c
    by (auto simp: RemoveConnectionInLoop_def Let_def)
  have w: "unat cid < 2 ^ 31 \<longrightarrow> int_key (cid + 2 ^ 32) = cid" using int_key_wraps by blast
  show ?thesis unfolding r using k w by auto
qed

definition demo_server :: "(nat, nat) TcpServer" where
  "demo_server = \<lparr>srv_port = 8080, con_timer_id = 0, srv_timeout = 10, srv_inactive = True,
     srv_loops = (\<lambda>i. EventLoop_new i 3 4), srv_acceptor = (Socket_new, Channel_new 0 5),
     srv_pool = \<lparr>thread_count = 2, thread_index = 0, base_loop = 0, pool_loops = [1, 2]\<rparr>,
     srv_objects = (\<lambda>_. None), srv_connections = {}, srv_connect_cb = None, srv_msg_cb = Some 5, srv_close_cb = Some 6,
     srv_any_cb = None, srv_server_close_cb = None\<rparr>"

theorem remove_connection_range_witness:
  "srv_connections (RemoveConnectionInLoop 7 (demo_server\<lparr>srv_connections := {7}\<rparr>)) = {} \<and>
   3000000000 \<in> srv_connections (RemoveConnectionInLoop 3000000000 (demo_server\<lparr>srv_connections := {3000000000}\<rparr>)) \<and>
   srv_connections (RemoveConnectionInLoop (7 + 2 ^ 32) (demo_server\<lparr>srv_connections := {7}\<rparr>)) = {}"
proof -
  have u: "unat (7 :: u64) = 7" "unat (3000000000 :: u64) = 3000000000" by simp_all
  show ?thesis
    using remove_connection_range [of 7 "demo_server\<lparr>srv_connections := {7}\<rparr>"]
      remove_connection_range [of 3000000000 "demo_server\<lparr>srv_connections := {3000000000}\<rparr>"]
    unfolding u by simp
qed

section \<open>New connections\<close>

lemma Queue_simps [simp]:
  "el_tasks (QueueInLoop f l) = el_tasks l @ [f]" "el_thread (QueueInLoop f l) = el_thread l"
  by (simp_all add: QueueInLoop_def push_task_def WakeUpEventFd_def)

lemma new_conn_simps [simp]:
  "connect_id (new_conn r cid fd srv) = cid" "conn_fd (new_conn r cid fd srv) = fd" "conn_released (new_conn r cid fd srv) = 0"
  "conn_state (new_conn r cid fd srv) = CONNECTING" "close_cb (new_conn r cid fd srv) = srv_server_close_cb srv"
  "connect_cb (new_conn r cid fd srv) = srv_connect_cb srv" "msg_cb (new_conn r cid fd srv) = srv_msg_cb srv"
  "any_cb (new_conn r cid fd srv) = srv_any_cb srv" "server_close_cb (new_conn r cid fd srv) = Some r"
  by (simp_all add: new_conn_def SetServerCloseCallBack_def SetAnyCallBack_def SetMsgCallBack_def SetConnectCallBack_def
      SetCloseCallBack_def Connection_Tie_def Connection_new_def)

lemma new_conn_setup:
  "conn_channel (new_conn r cid fd srv) = Channel_Tie (conn_channel (Connection_new cid fd))" "inBuffer (new_conn r cid fd srv) = Buffer_new"
  "outBuffer (new_conn r cid fd srv) = Buffer_new" "\<not> enable_inactive_release (new_conn r cid fd srv)"
  "ch_events (conn_channel (new_conn r cid fd srv)) = 0"
  by (simp_all add: new_conn_def SetServerCloseCallBack_def SetAnyCallBack_def SetMsgCallBack_def SetConnectCallBack_def
      SetCloseCallBack_def Connection_Tie_def Connection_new_def Channel_new_def Channel_SetWriteCallBack_def Channel_SetEventCallBack_def
      Channel_SetReadCallBack_def Channel_SetErrorCallBack_def Channel_SetCloseCallBack_def Channel_Tie_def)

lemma with_conn_queue:
  assumes "srv_objects srv cid = Some (i, c)" and "thread \<noteq> el_thread (srv_loops srv i)"
  shows "with_conn r cid (conn_run_in_loop user thread t) srv =
     Some (srv\<lparr>srv_loops := (srv_loops srv)(i := QueueInLoop (FClient t) (srv_loops srv i))\<rparr>)"
proof -
  have "(srv_objects srv)(cid \<mapsto> (i, c)) = srv_objects srv" using assms(1) by auto
  then show ?thesis using assms by (simp add: with_conn_def conn_run_in_loop_def IsInLoop_def)
qed

lemma QueueInLoop_only:
  "\<exists>n. QueueInLoop f l = l\<lparr>el_tasks := el_tasks l @ [f], el_eventfd := n\<rparr>"
proof -
  have "QueueInLoop f l = l\<lparr>el_tasks := el_tasks l @ [f], el_eventfd := el_eventfd (QueueInLoop f l)\<rparr>"
    by (cases l) (simp add: QueueInLoop_def push_task_def WakeUpEventFd_def)
  then show ?thesis by blast
qed

text \<open>
  C17. Hand-over of a new connection: a connection accepted in the base loop's thread gets the
  next identifier, is put into the table with the server's callbacks, and is given to the
  loop the pool chooses. When that loop runs in another thread, the new server is the old one but for the
  identifier, the pool's turn, the table, the new object and that loop, and of the loop nothing is changed but its task
  queue and the counter that wakes it: to the queue exactly the inactivity timer (if
  enabled) and then the establishment are added. The object is the one its constructor and setters make: it is still
  connecting, its channel asks for no events, its buffers are empty. The close callback that is installed is the
  one of \<open>SetServerCloseCallBack\<close>: the one set by \<open>SetCloseCallBack\<close> is not used.
\<close>

theorem new_connection_handover:
  fixes srv :: "('ctx, 'k) TcpServer"
  assumes "GetLoop (srv_pool srv) = Some (i, pool)" and "thread \<noteq> el_thread (srv_loops srv i)"
  shows "\<exists>c n. (let cid = con_timer_id srv + 1;
             tasks = (if srv_inactive srv then [FClient (TEnableInactive cid (srv_timeout srv))] else []) @ [FClient (TEstablished cid)] in
           NewConnection user remove_cb thread newfd srv = Some (srv\<lparr>con_timer_id := cid, srv_pool := pool,
             srv_objects := (srv_objects srv)(cid \<mapsto> (i, c)), srv_connections := insert cid (srv_connections srv),
             srv_loops := (srv_loops srv)(i := (srv_loops srv i)\<lparr>el_tasks := el_tasks (srv_loops srv i) @ tasks, el_eventfd := n\<rparr>)\<rparr>) \<and>
           connect_id c = cid \<and> conn_fd c = newfd \<and> conn_state c = CONNECTING \<and> conn_released c = 0 \<and>
           conn_channel c = Channel_Tie (conn_channel (Connection_new cid newfd :: ('ctx, 'k) Connection)) \<and> ch_events (conn_channel c) = 0 \<and>
           inBuffer c = Buffer_new \<and> outBuffer c = Buffer_new \<and> \<not> enable_inactive_release c \<and>
           connect_cb c = srv_connect_cb srv \<and> msg_cb c = srv_msg_cb srv \<and> any_cb c = srv_any_cb srv \<and>
           close_cb c = srv_server_close_cb srv \<and> server_close_cb c = Some remove_cb)"
proof -
  define cid where "cid = con_timer_id srv + 1"
  define c where "c = new_conn remove_cb cid newfd (srv\<lparr>con_timer_id := cid\<rparr>)"
  define s1 where "s1 = srv\<lparr>con_timer_id := cid, srv_pool := pool, srv_objects := (srv_objects srv)(cid \<mapsto> (i, c))\<rparr>"
  define s2 where "s2 = (if srv_inactive srv
    then s1\<lparr>srv_loops := (srv_loops srv)(i := QueueInLoop (FClient (TEnableInactive cid (srv_timeout srv))) (srv_loops srv i))\<rparr> else s1)"
  define s3 where "s3 = s2\<lparr>srv_loops := (srv_loops s2)(i := QueueInLoop (FClient (TEstablished cid)) (srv_loops s2 i))\<rparr>"
  have o1: "srv_objects s1 cid = Some (i, c)" "thread \<noteq> el_thread (srv_loops s1 i)" using assms(2) by (simp_all add: s1_def)
  have o2: "srv_objects s2 cid = Some (i, c)" "thread \<noteq> el_thread (srv_loops s2 i)"
    using assms(2) o1 by (simp_all add: s2_def)
  have c: "connect_id c = cid" by (simp add: c_def)
  have "with_conn remove_cb cid (EnableInactiveRealse user thread (srv_timeout srv)) s1 =
      with_conn remove_cb cid (conn_run_in_loop user thread (TEnableInactive cid (srv_timeout srv))) s1"
    using o1(1) c by (simp add: with_conn_def EnableInactiveRealse_def)
  then have 2: "(if srv_inactive srv then with_conn remove_cb cid (EnableInactiveRealse user thread (srv_timeout srv)) s1
      else Some s1) = Some s2"
    using with_conn_queue [OF o1] by (simp add: s2_def) (simp add: s1_def)
  have "with_conn remove_cb cid (Established user thread) s2 =
      with_conn remove_cb cid (conn_run_in_loop user thread (TEstablished cid)) s2"
    using o2(1) c by (simp add: with_conn_def Established_def)
  then have 3: "with_conn remove_cb cid (Established user thread) s2 = Some s3"
    using with_conn_queue [OF o2] by (simp add: s3_def)
  have "NewConnection user remove_cb thread newfd srv =
      (if srv_inactive srv then with_conn remove_cb cid (EnableInactiveRealse user thread (srv_timeout srv)) s1 else Some s1)
        \<bind> with_conn remove_cb cid (Established user thread) \<bind> (\<lambda>s. Some (s\<lparr>srv_connections := insert cid (srv_connections s)\<rparr>))"
    using assms(1) by (simp add: NewConnection_def Let_def s1_def c_def cid_def)
  then have n: "NewConnection user remove_cb thread newfd srv = Some (s3\<lparr>srv_connections := insert cid (srv_connections s3)\<rparr>)"
    by (simp only: 2 3 bind.bind_lunit)
  obtain m where m: "QueueInLoop (FClient (TEnableInactive cid (srv_timeout srv))) (srv_loops srv i) =
      (srv_loops srv i)\<lparr>el_tasks := el_tasks (srv_loops srv i) @ [FClient (TEnableInactive cid (srv_timeout srv))], el_eventfd := m\<rparr>"
    using QueueInLoop_only by blast
  obtain n' where n': "QueueInLoop (FClient (TEstablished cid)) (srv_loops s2 i) =
      (srv_loops s2 i)\<lparr>el_tasks := el_tasks (srv_loops s2 i) @ [FClient (TEstablished cid)], el_eventfd := n'\<rparr>"
    using QueueInLoop_only by blast
  show ?thesis
    unfolding Let_def cid_def [symmetric]
    by (rule exI [of _ c], rule exI [of _ n'], unfold n option.inject, intro conjI)
      (simp_all add: s3_def n', simp_all add: s2_def m s1_def c_def new_conn_setup)
qed

theorem new_connection_handover_witness:
  "\<exists>srv' c. NewConnection (\<lambda>_ s. Some s) 9 0 77 demo_server = Some srv' \<and> srv_objects srv' 1 = Some (2, c) \<and>
     close_cb c = None \<and> msg_cb c = Some 5 \<and>
     el_tasks (srv_loops srv' 2) = [FClient (TEnableInactive 1 10), FClient (TEstablished 1)]"
proof -
  have g: "GetLoop (srv_pool demo_server) = Some (2, (srv_pool demo_server)\<lparr>thread_index := 1\<rparr>)"
    by (simp add: demo_server_def GetLoop_def signed_modulo_int_def Let_def)
  have t: "(0::nat) \<noteq> el_thread (srv_loops demo_server 2)" "el_tasks (srv_loops demo_server 2) = []"
    by (simp_all add: demo_server_def EventLoop_new_def Let_def)
  have d: "con_timer_id demo_server = 0" "srv_server_close_cb demo_server = None" "srv_msg_cb demo_server = Some 5"
      "srv_inactive demo_server" "srv_timeout demo_server = 10"
    by (simp_all add: demo_server_def)
  obtain srv' c where "NewConnection (\<lambda>_ s. Some s) 9 0 77 demo_server = Some srv'"
      "srv_objects srv' = (srv_objects demo_server)(1 \<mapsto> (2, c))" "close_cb c = None" "msg_cb c = Some 5"
      "el_tasks (srv_loops srv' 2) = [FClient (TEnableInactive 1 10), FClient (TEstablished 1)]"
    using new_connection_handover [OF g t(1), of "\<lambda>_ s. Some s" 9 77] d t(2) by (auto simp: Let_def)
  then show ?thesis by (intro exI [of _ srv'] exI [of _ c]) simp
qed

end
