(* ===== verification/Echo.thy ===== *)
theory Echo
  imports ConnectionUse
begin

text \<open>
  The class \<open>EchoServer\<close> of \<open>src/http-v1/source/echo/echo.hpp\<close>: the callbacks it installs on a
  connection. \<open>ShutDown\<close> may call the message callback again; the recursion is bounded by fuel, of which two
  units are enough because the input is empty then.

  The theory shows that the callbacks keep the invariant of the connection, and what the
  server answers.
\<close>

section \<open>Callbacks\<close>

datatype echo_cb = EchoConnected | EchoClosed | EchoMessage | EchoRemove

type_synonym echo_sys = "(unit, echo_cb) conn_sys"

text \<open>\<open>OnConnected\<close> and \<open>OnClosed\<close> only log.\<close>

definition Echo_OnConnected :: "echo_sys \<Rightarrow> echo_sys option" where
  "Echo_OnConnected s = Some s"

definition Echo_OnClosed :: "echo_sys \<Rightarrow> echo_sys option" where
  "Echo_OnClosed s = Some s"

definition echo_callback :: "(echo_sys \<Rightarrow> echo_sys option) \<Rightarrow> echo_cb \<Rightarrow> echo_sys \<Rightarrow> echo_sys option" where
  "echo_callback on_message k s =
     (case k of
        EchoConnected \<Rightarrow> Echo_OnConnected s
      | EchoClosed \<Rightarrow> Echo_OnClosed s
      | EchoMessage \<Rightarrow> on_message s
      | EchoRemove \<Rightarrow> Some s)"

definition echo_response :: "bool \<Rightarrow> bytes" where
  "echo_response keep_alive =
     ''HTTP/1.1 200 OK'' @ [CHR 0x0D, CHR 0x0A] @ ''Content-Length: 5'' @ [CHR 0x0D, CHR 0x0A] @
     ''Connection: '' @ (if keep_alive then ''keep-alive'' else ''close'') @ [CHR 0x0D, CHR 0x0A] @
     [CHR 0x0D, CHR 0x0A] @ ''Hello''"

primrec Echo_OnMessage :: "nat \<Rightarrow> echo_sys \<Rightarrow> echo_sys option" where
  "Echo_OnMessage 0 = (\<lambda>s. None)"
| "Echo_OnMessage (Suc n) = (\<lambda>s. do {
     buf \<leftarrow> MoveReadOffset (ReadAbleSize (inBuffer (fst s))) (inBuffer (fst s));
     let s1 = ((fst s)\<lparr>inBuffer := buf\<rparr>, snd s);
     request \<leftarrow> mem_read (ReadPos buf) (unat (ReadAbleSize buf)) (buf_store buf);
     let keep_alive = (str_find ''Connection: keep-alive'' 0 request \<noteq> None \<or>
                       str_find ''connection: keep-alive'' 0 request \<noteq> None);
     let user = echo_callback (Echo_OnMessage n);
     s2 \<leftarrow> Connection_Send user (el_thread (snd s1)) (echo_response keep_alive) s1;
     if \<not> keep_alive then ShutDown user (el_thread (snd s2)) s2 else Some s2
   })"

section \<open>The callbacks keep the invariant\<close>

lemma echo_callback_keeps:
  "(\<And>s. conn_ok s \<Longrightarrow> conn_keeps s (f s)) \<Longrightarrow> conn_ok s \<Longrightarrow> conn_keeps s (echo_callback f k s)"
  by (cases k) (simp_all add: echo_callback_def Echo_OnConnected_def Echo_OnClosed_def)

lemma length_echo_response: "length (echo_response b) < 100"
  by (simp add: echo_response_def)

lemma Echo_OnMessage_keeps: "conn_ok s \<Longrightarrow> conn_keeps s (Echo_OnMessage n s)"
proof (induction n arbitrary: s)
  case (Suc n)
  let ?user = "echo_callback (Echo_OnMessage n)" and ?b = "inBuffer (fst s)"
  note inv = conn_ok_inBuffer [OF Suc.prems]
  have shut: "conn_keeps t (ShutDown ?user (el_thread (snd t)) t)" if "conn_ok t" for t
    using that by (intro client_ShutDown_keeps echo_callback_keeps Suc.IH)
  obtain b where b: "MoveReadOffset (ReadAbleSize ?b) ?b = Some b" "buffer_inv b"
    using MoveReadOffset_ok [OF inv, of "ReadAbleSize ?b"] unat_ReadAbleSize [OF inv] by (auto elim!: returnsE)
  let ?s1 = "((fst s)\<lparr>inBuffer := b\<rparr>, snd s)"
  have s1: "conn_ok ?s1" "conn_le s ?s1" using Suc.prems b(2) by (simp_all add: conn_ok_def conn_le_def Let_def)
  have "conn_keeps ?s1 (Connection_Send ?user (el_thread (snd ?s1)) (echo_response k) ?s1 \<bind>
      (\<lambda>s2. if \<not> k then ShutDown ?user (el_thread (snd s2)) s2 else Some s2))" for k
    using length_echo_response [of k] s1(1) shut by (intro keeps_bind Send_keeps) simp_all
  note send = this
  have "conn_keeps ?s1 (Echo_OnMessage (Suc n) s)"
  proof (cases "mem_read (ReadPos b) (unat (ReadAbleSize b)) (buf_store b)")
    case None
    then show ?thesis using b(1) by simp
  next
    case (Some r)
    then show ?thesis
      using send [of "str_find ''Connection: keep-alive'' 0 r \<noteq> None \<or> str_find ''connection: keep-alive'' 0 r \<noteq> None"] b(1)
      by (simp add: Let_def)
  qed
  then show ?case using s1(2) by (rule keeps_from)
qed simp

interpretation echo: conn_client "echo_callback (Echo_OnMessage n)" for n
  by unfold_locales (rule echo_callback_keeps [OF Echo_OnMessage_keeps])

section \<open>What the server answers\<close>

text \<open>
  The echo server answers every delivery of input with the same fixed response, empties
  the input, and shuts the connection down, whatever the input was: the search for
  \<open>keep-alive\<close> runs after the request has been discarded, so it never succeeds.
\<close>

lemma echo_always_closes:
  assumes "conn_state (fst s) \<noteq> DISCONNECTED" and "buffer_inv (inBuffer (fst s))" and "buffer_inv (outBuffer (fst s))"
    and "length (readable (outBuffer (fst s))) \<le> 2 ^ 61"
  shows "\<exists>s'. Echo_OnMessage (Suc n) s = Some s' \<and> conn_state (fst s') = DISCONNECTING \<and>
           readable (inBuffer (fst s')) = [] \<and>
           readable (outBuffer (fst s')) = readable (outBuffer (fst s)) @ echo_response False"
proof -
  let ?user = "echo_callback (Echo_OnMessage n)" and ?b = "inBuffer (fst s)"
  obtain b where b: "MoveReadOffset (ReadAbleSize ?b) ?b = Some b" "buffer_inv b" "readable b = []"
    using MoveReadOffset_ok [OF assms(2), of "ReadAbleSize ?b"] unat_ReadAbleSize [OF assms(2)] by (auto elim!: returnsE)
  let ?s1 = "((fst s)\<lparr>inBuffer := b\<rparr>, snd s)"
  have z: "ReadAbleSize b = 0" using ReadAbleSize_zero [OF b(2)] b(3) by simp
  have empty: "mem_read (ReadPos b) (unat (ReadAbleSize b)) (buf_store b) = Some []"
    using mem_read_readable [OF b(2), of "unat (ReadAbleSize b)"] z by (simp add: b(3))
  obtain s2 where s2: "Connection_Send ?user (el_thread (snd ?s1)) (echo_response False) ?s1 = Some s2"
      "extends (echo_response False) ?s1 s2"
    using Send_extends [of ?s1 "echo_response False" ?user] assms length_echo_response [of False] by auto
  have d: "deliver ?user ((fst s2)\<lparr>conn_state := DISCONNECTING\<rparr>, snd s2) = Some ((fst s2)\<lparr>conn_state := DISCONNECTING\<rparr>, snd s2)"
    using s2(2) z by (simp add: deliver_def extends_def)
  have "readable (outBuffer (fst s2)) \<noteq> []" using s2(2) by (simp add: extends_def echo_response_def)
  then obtain s3 where s3: "ShutDown ?user (el_thread (snd s2)) s2 = Some s3"
      "extends [] ((fst s2)\<lparr>conn_state := DISCONNECTING\<rparr>, snd s2) s3"
    using ShutDown_extends [OF d] s2(2) by (auto simp: extends_def)
  have "Echo_OnMessage (Suc n) s = Some s3"
    using b(1) empty s2(1) s3(1) by (simp add: str_find_def Let_def)
  then show ?thesis using s2(2) s3(2) b(3) by (simp add: extends_def)
qed

end
