(* ===== verification/AnyHolder.thy ===== *)
theory AnyHolder
  imports Prelude
begin

text \<open>
  The class \<open>Any\<close> of \<open>src/http-v1/source/server.hpp\<close>: a value of any type behind an owned
  pointer to a \<open>Holder\<close>. The holders are objects of an explicit heap; an \<open>Any\<close> is its
  pointer, \<open>None\<close> for \<open>nullptr\<close>. Dereferencing or deleting a pointer that is not live, and a
  failing assertion, are \<open>None\<close>. The type of values is a parameter, with \<open>typeid\<close> giving the
  dynamic type of a value.

  The theory shows that the class has value semantics: variables of type \<open>Any\<close> behave as
  independent optional values under assignment, copying, swapping and update through
  \<open>Get\<close>, no holder leaks and none is deleted twice.
\<close>

section \<open>Operations\<close>

record 'v AnyHeap =
  holders :: "nat \<rightharpoonup> 'v"
  next_holder :: nat

type_synonym Any = "nat option"

definition new_holder :: "'v \<Rightarrow> 'v AnyHeap \<Rightarrow> nat \<times> 'v AnyHeap" where
  "new_holder v h =
     (next_holder h, h\<lparr>holders := (holders h)(next_holder h \<mapsto> v), next_holder := next_holder h + 1\<rparr>)"

definition Any_default :: Any where
  "Any_default = None"

definition Any_val :: "'v \<Rightarrow> 'v AnyHeap \<Rightarrow> Any \<times> 'v AnyHeap" where
  "Any_val v h = (let (p, h1) = new_holder v h in (Some p, h1))"

text \<open>\<open>PlaceHolder::clone\<close> of the holder at \<open>p\<close>.\<close>

definition Holder_clone :: "nat \<Rightarrow> 'v AnyHeap \<Rightarrow> (nat \<times> 'v AnyHeap) option" where
  "Holder_clone p h = do { v \<leftarrow> holders h p; Some (new_holder v h) }"

definition Any_copy :: "Any \<Rightarrow> 'v AnyHeap \<Rightarrow> (Any \<times> 'v AnyHeap) option" where
  "Any_copy other h =
     (case other of
        None \<Rightarrow> Some (None, h)
      | Some p \<Rightarrow> do { (q, h1) \<leftarrow> Holder_clone p h; Some (Some q, h1) })"

definition Any_destroy :: "Any \<Rightarrow> 'v AnyHeap \<Rightarrow> 'v AnyHeap option" where
  "Any_destroy a h =
     (case a of
        None \<Rightarrow> Some h
      | Some p \<Rightarrow> (case holders h p of None \<Rightarrow> None | Some _ \<Rightarrow> Some (h\<lparr>holders := (holders h)(p := None)\<rparr>)))"

definition Any_swap :: "Any \<Rightarrow> Any \<Rightarrow> Any \<times> Any" where
  "Any_swap a other = (other, a)"

definition Any_Get :: "('v \<Rightarrow> 'ty) \<Rightarrow> 'ty \<Rightarrow> Any \<Rightarrow> 'v AnyHeap \<Rightarrow> nat option" where
  "Any_Get typeid ty a h = do { p \<leftarrow> a; v \<leftarrow> holders h p; if ty = typeid v then Some p else None }"

text \<open>The assignments: a temporary is built, swapped with the target and destroyed.\<close>

definition Any_assign_val :: "'v \<Rightarrow> Any \<Rightarrow> 'v AnyHeap \<Rightarrow> (Any \<times> 'v AnyHeap) option" where
  "Any_assign_val v this h =
     (let (tmp, h1) = Any_val v h; (tmp, this) = Any_swap tmp this
      in do { h2 \<leftarrow> Any_destroy tmp h1; Some (this, h2) })"

definition Any_assign :: "Any \<Rightarrow> Any \<Rightarrow> 'v AnyHeap \<Rightarrow> (Any \<times> 'v AnyHeap) option" where
  "Any_assign other this h = do {
     (tmp, h1) \<leftarrow> Any_copy other h;
     let (tmp, this) = Any_swap tmp this;
     h2 \<leftarrow> Any_destroy tmp h1;
     Some (this, h2)
   }"

section \<open>Variables of type Any\<close>

text \<open>Programs over a fixed number of variables. \<open>Update\<close> stores through the pointer that
  \<open>Get\<close> returns.\<close>

datatype 'v any_op =
  AssignVal nat 'v
| AssignAny nat nat
| Swap nat nat
| Update nat 'v
| Destroy nat

definition any_exec :: "('v \<Rightarrow> 'ty) \<Rightarrow> 'v any_op \<Rightarrow> 'v AnyHeap \<times> Any list \<Rightarrow> ('v AnyHeap \<times> Any list) option" where
  "any_exec typeid op s =
     (let (h, vs) = s in
      case op of
        AssignVal i v \<Rightarrow> do { (a, h1) \<leftarrow> Any_assign_val v (vs ! i) h; Some (h1, vs[i := a]) }
      | AssignAny i j \<Rightarrow> do { (a, h1) \<leftarrow> Any_assign (vs ! j) (vs ! i) h; Some (h1, vs[i := a]) }
      | Swap i j \<Rightarrow> (let (a, b) = Any_swap (vs ! i) (vs ! j) in Some (h, vs[i := a, j := b]))
      | Update i v \<Rightarrow> do { p \<leftarrow> Any_Get typeid (typeid v) (vs ! i) h; Some (h\<lparr>holders := (holders h)(p \<mapsto> v)\<rparr>, vs) }
      | Destroy i \<Rightarrow> do { h1 \<leftarrow> Any_destroy (vs ! i) h; Some (h1, vs[i := Any_default]) })"

fun op_vars :: "'v any_op \<Rightarrow> nat list" where
  "op_vars (AssignVal i v) = [i]"
| "op_vars (AssignAny i j) = [i, j]"
| "op_vars (Swap i j) = [i, j]"
| "op_vars (Update i v) = [i]"
| "op_vars (Destroy i) = [i]"

text \<open>What the program means: the variables are optional values.\<close>

definition any_spec :: "('v \<Rightarrow> 'ty) \<Rightarrow> 'v any_op \<Rightarrow> 'v option list \<Rightarrow> 'v option list option" where
  "any_spec typeid op xs =
     (case op of
        AssignVal i v \<Rightarrow> Some (xs[i := Some v])
      | AssignAny i j \<Rightarrow> Some (xs[i := xs ! j])
      | Swap i j \<Rightarrow> Some (xs[i := xs ! j, j := xs ! i])
      | Update i v \<Rightarrow>
          (case xs ! i of None \<Rightarrow> None | Some u \<Rightarrow> if typeid v = typeid u then Some (xs[i := Some v]) else None)
      | Destroy i \<Rightarrow> Some (xs[i := None]))"

definition any_inv :: "'v AnyHeap \<times> Any list \<Rightarrow> bool" where
  "any_inv s \<longleftrightarrow>
     (\<forall>i j p. i < length (snd s) \<longrightarrow> j < length (snd s) \<longrightarrow> snd s ! i = Some p \<longrightarrow> snd s ! j = Some p \<longrightarrow> i = j) \<and>
     (\<forall>p. (\<exists>v. holders (fst s) p = Some v) \<longleftrightarrow> Some p \<in> set (snd s)) \<and>
     (\<forall>p. Some p \<in> set (snd s) \<longrightarrow> p < next_holder (fst s))"

definition any_abs :: "'v AnyHeap \<times> Any list \<Rightarrow> 'v option list" where
  "any_abs s = map (\<lambda>a. a \<bind> holders (fst s)) (snd s)"

lemma any_invD:
  assumes "any_inv (h, vs)"
  shows "i < length vs \<Longrightarrow> j < length vs \<Longrightarrow> vs ! i = Some p \<Longrightarrow> vs ! j = Some p \<Longrightarrow> i = j"
    and "i < length vs \<Longrightarrow> vs ! i = Some p \<Longrightarrow> \<exists>v. holders h p = Some v"
    and "holders h p = Some v \<Longrightarrow> Some p \<in> set vs"
    and "i < length vs \<Longrightarrow> vs ! i = Some p \<Longrightarrow> p < next_holder h"
    and "holders h p = Some v \<Longrightarrow> p < next_holder h"
  using assms unfolding any_inv_def by (auto simp: in_set_conv_nth) metis

lemma any_invI:
  assumes "\<And>i j p. i < length vs \<Longrightarrow> j < length vs \<Longrightarrow> vs ! i = Some p \<Longrightarrow> vs ! j = Some p \<Longrightarrow> i = j"
    and "\<And>i p. i < length vs \<Longrightarrow> vs ! i = Some p \<Longrightarrow> (\<exists>v. holders h p = Some v) \<and> p < next_holder h"
    and "\<And>p v. holders h p = Some v \<Longrightarrow> \<exists>i < length vs. vs ! i = Some p"
  shows "any_inv (h, vs)"
  unfolding any_inv_def using assms by (auto simp: in_set_conv_nth)

section \<open>Value semantics\<close>

text \<open>Giving the variable \<open>i\<close> a new holder, or none, and deleting the old one.\<close>

definition freed :: "Any \<Rightarrow> 'v AnyHeap \<Rightarrow> 'v AnyHeap" where
  "freed a h = (case a of None \<Rightarrow> h | Some p \<Rightarrow> h\<lparr>holders := (holders h)(p := None)\<rparr>)"

lemma freed_simps [simp]:
  "next_holder (freed a h) = next_holder h"
  "holders (freed a h) p = (if a = Some p then None else holders h p)"
  by (auto simp: freed_def split: option.splits)

lemma Any_destroy_freed:
  assumes "any_inv (h, vs)" and "i < length vs"
  shows "Any_destroy (vs ! i) h = Some (freed (vs ! i) h)"
    and "Any_destroy (vs ! i) (snd (new_holder v h)) = Some (freed (vs ! i) (snd (new_holder v h)))"
  using any_invD(2,4) [OF assms(1,2)]
  by (auto simp: Any_destroy_def freed_def new_holder_def split: option.splits)

lemma drop_var:
  assumes "any_inv (h, vs)" and "i < length vs"
  shows "any_inv (freed (vs ! i) h, vs[i := None])"
    and "any_abs (freed (vs ! i) h, vs[i := None]) = (any_abs (h, vs))[i := None]"
proof -
  note D = any_invD [OF assms(1)]
  show "any_inv (freed (vs ! i) h, vs[i := None])"
  proof (rule any_invI)
    fix p v assume "holders (freed (vs ! i) h) p = Some v"
    then have p: "vs ! i \<noteq> Some p" "holders h p = Some v" by (auto split: if_splits)
    then obtain j where "j < length vs" "vs ! j = Some p" using D(3) [OF p(2)] by (auto simp: in_set_conv_nth)
    with p show "\<exists>j < length (vs[i := None]). vs[i := None] ! j = Some p"
      by (intro exI [of _ j], cases "j = i") simp_all
  next
    fix j p assume "j < length (vs[i := None])" "vs[i := None] ! j = Some p"
    then have j: "j < length vs" "j \<noteq> i" "vs ! j = Some p"
      using assms(2) by (auto simp: nth_list_update split: if_splits)
    then have "vs ! i \<noteq> Some p" using D(1) [OF j(1) assms(2) j(3)] by auto
    then show "(\<exists>v. holders (freed (vs ! i) h) p = Some v) \<and> p < next_holder (freed (vs ! i) h)"
      using D(2,4) [OF j(1,3)] by auto
  qed (use D(1) assms(2) in \<open>auto simp: nth_list_update split: if_splits\<close>)
  show "any_abs (freed (vs ! i) h, vs[i := None]) = (any_abs (h, vs))[i := None]"
  proof (rule nth_equalityI)
    fix j assume j: "j < length (any_abs (freed (vs ! i) h, vs[i := None]))"
    have "vs ! i \<noteq> Some p" if "j \<noteq> i" "vs ! j = Some p" for p
      using D(1) [of j i p] that j assms(2) by (auto simp: any_abs_def)
    then show "any_abs (freed (vs ! i) h, vs[i := None]) ! j = (any_abs (h, vs))[i := None] ! j"
      using j assms(2) by (cases "j = i"; cases "vs ! j") (simp_all add: any_abs_def)
  qed (simp add: any_abs_def)
qed

lemma fill_var:
  assumes "any_inv (h, vs)" and "i < length vs" and "vs ! i = None"
  shows "any_inv (snd (new_holder v h), vs[i := Some (next_holder h)])"
    and "any_abs (snd (new_holder v h), vs[i := Some (next_holder h)]) = (any_abs (h, vs))[i := Some v]"
proof -
  note D = any_invD [OF assms(1)]
  show "any_inv (snd (new_holder v h), vs[i := Some (next_holder h)])"
  proof (rule any_invI)
    fix p u assume u: "holders (snd (new_holder v h)) p = Some u"
    show "\<exists>j < length (vs[i := Some (next_holder h)]). vs[i := Some (next_holder h)] ! j = Some p"
    proof (cases "p = next_holder h")
      case True
      then show ?thesis using assms(2) by (intro exI [of _ i]) simp
    next
      case False
      then obtain j where "j < length vs" "vs ! j = Some p"
        using u D(3) [of p u] by (auto simp: new_holder_def in_set_conv_nth)
      with assms(3) show ?thesis by (intro exI [of _ j], cases "j = i") simp_all
    qed
  next
    fix j k p
    assume "j < length (vs[i := Some (next_holder h)])" "k < length (vs[i := Some (next_holder h)])"
      "vs[i := Some (next_holder h)] ! j = Some p" "vs[i := Some (next_holder h)] ! k = Some p"
    then show "j = k"
      using D(1) [of j k p] D(4) [of j p] D(4) [of k p] assms(2) by (auto simp: nth_list_update split: if_splits)
  next
    fix j p assume "j < length (vs[i := Some (next_holder h)])" "vs[i := Some (next_holder h)] ! j = Some p"
    then show "(\<exists>u. holders (snd (new_holder v h)) p = Some u) \<and> p < next_holder (snd (new_holder v h))"
      using D(2,4) [of j p] assms(2) by (auto simp: new_holder_def nth_list_update split: if_splits)
  qed
  show "any_abs (snd (new_holder v h), vs[i := Some (next_holder h)]) = (any_abs (h, vs))[i := Some v]"
  proof (rule nth_equalityI)
    fix j assume "j < length (any_abs (snd (new_holder v h), vs[i := Some (next_holder h)]))"
    then show "any_abs (snd (new_holder v h), vs[i := Some (next_holder h)]) ! j = (any_abs (h, vs))[i := Some v] ! j"
      using D(4) [of j] assms(2) by (cases "vs ! j") (auto simp: any_abs_def nth_list_update new_holder_def)
  qed (simp add: any_abs_def)
qed

text \<open>Replacing the holder: the new one is allocated before the old one is deleted.\<close>

lemma replace_var:
  assumes "any_inv (h, vs)" and "i < length vs"
  shows "any_inv (freed (vs ! i) (snd (new_holder v h)), vs[i := Some (next_holder h)])"
    and "any_abs (freed (vs ! i) (snd (new_holder v h)), vs[i := Some (next_holder h)]) = (any_abs (h, vs))[i := Some v]"
proof -
  have "holders (freed (vs ! i) (snd (new_holder v h))) = holders (snd (new_holder v (freed (vs ! i) h)))"
    using any_invD(4) [OF assms] by (auto simp: new_holder_def fun_eq_iff)
  then have eq: "freed (vs ! i) (snd (new_holder v h)) = snd (new_holder v (freed (vs ! i) h))"
    by (simp add: new_holder_def freed_def split: option.splits)
  note d = drop_var [OF assms]
  have i: "i < length (vs[i := None])" "vs[i := None] ! i = None" using assms(2) by simp_all
  show "any_inv (freed (vs ! i) (snd (new_holder v h)), vs[i := Some (next_holder h)])"
    "any_abs (freed (vs ! i) (snd (new_holder v h)), vs[i := Some (next_holder h)]) = (any_abs (h, vs))[i := Some v]"
    using fill_var [OF d(1) i, of v] d(2) unfolding eq by simp_all
qed

lemma any_abs_nth: "i < length vs \<Longrightarrow> any_abs (h, vs) ! i = vs ! i \<bind> holders h"
  by (simp add: any_abs_def)

lemma update_var:
  assumes "any_inv (h, vs)" and "i < length vs" and "vs ! i = Some p"
  shows "any_inv (h\<lparr>holders := (holders h)(p \<mapsto> v)\<rparr>, vs)"
    and "any_abs (h\<lparr>holders := (holders h)(p \<mapsto> v)\<rparr>, vs) = (any_abs (h, vs))[i := Some v]"
proof -
  note D = any_invD [OF assms(1)]
  show "any_inv (h\<lparr>holders := (holders h)(p \<mapsto> v)\<rparr>, vs)"
  proof (rule any_invI)
    fix q u assume "holders (h\<lparr>holders := (holders h)(p \<mapsto> v)\<rparr>) q = Some u"
    then have "Some q \<in> set vs" using D(3) [of q u] assms(2,3) by (auto simp: in_set_conv_nth split: if_splits)
    then show "\<exists>j < length vs. vs ! j = Some q" by (simp add: in_set_conv_nth)
  qed (use D in auto)
  show "any_abs (h\<lparr>holders := (holders h)(p \<mapsto> v)\<rparr>, vs) = (any_abs (h, vs))[i := Some v]"
  proof (rule nth_equalityI)
    fix j assume "j < length (any_abs (h\<lparr>holders := (holders h)(p \<mapsto> v)\<rparr>, vs))"
    then show "any_abs (h\<lparr>holders := (holders h)(p \<mapsto> v)\<rparr>, vs) ! j = (any_abs (h, vs))[i := Some v] ! j"
      using D(1) [of j i p] assms(2,3) by (cases "vs ! j") (auto simp: any_abs_def nth_list_update)
  qed (simp add: any_abs_def)
qed

lemma swap_var:
  assumes "any_inv (h, vs)" and "i < length vs" and "j < length vs"
  shows "any_inv (h, vs[i := vs ! j, j := vs ! i])"
    and "any_abs (h, vs[i := vs ! j, j := vs ! i]) = (any_abs (h, vs))[i := any_abs (h, vs) ! j, j := any_abs (h, vs) ! i]"
proof -
  note D = any_invD [OF assms(1)]
  have st: "set (vs[i := vs ! j, j := vs ! i]) = set vs" using assms(2,3) by (simp add: set_swap)
  show "any_inv (h, vs[i := vs ! j, j := vs ! i])"
  proof (rule any_invI)
    fix p v assume "holders h p = Some v"
    then have "Some p \<in> set (vs[i := vs ! j, j := vs ! i])" using D(3) st by simp
    then show "\<exists>k < length (vs[i := vs ! j, j := vs ! i]). vs[i := vs ! j, j := vs ! i] ! k = Some p"
      by (simp only: in_set_conv_nth)
  next
    fix k p assume "k < length (vs[i := vs ! j, j := vs ! i])" "vs[i := vs ! j, j := vs ! i] ! k = Some p"
    then have "Some p \<in> set vs" using st nth_mem by metis
    then show "(\<exists>v. holders h p = Some v) \<and> p < next_holder h" using D(2,4) by (auto simp: in_set_conv_nth)
  next
    fix k l p assume "k < length (vs[i := vs ! j, j := vs ! i])" "l < length (vs[i := vs ! j, j := vs ! i])"
      "vs[i := vs ! j, j := vs ! i] ! k = Some p" "vs[i := vs ! j, j := vs ! i] ! l = Some p"
    then show "k = l"
      using D(1) [of k l p] D(1) [of k i p] D(1) [of k j p] D(1) [of i l p] D(1) [of j l p] D(1) [of i j p] assms(2,3)
      by (auto simp: nth_list_update split: if_splits)
  qed
  show "any_abs (h, vs[i := vs ! j, j := vs ! i]) = (any_abs (h, vs))[i := any_abs (h, vs) ! j, j := any_abs (h, vs) ! i]"
    using assms(2,3) by (simp add: any_abs_def map_update)
qed

lemma new_holder_pair:
  obtains h1 where "new_holder v h = (next_holder h, h1)"
  by (simp add: new_holder_def)

text \<open>
  C18. \<open>Any\<close> has value semantics: on variables of type \<open>Any\<close> every operation (assignment of a
  value, copy assignment, also from itself, swap, store through \<open>Get\<close>, destruction) does exactly
  what it does on independent optional values, fails exactly if \<open>Get\<close> is called with the wrong
  type or on an empty variable, and leaves no holder leaked, shared or dangling.
\<close>

theorem any_value_semantics:
  assumes "any_inv s" and "\<forall>i \<in> set (op_vars op). i < length (snd s)"
  shows "case any_exec typeid op s of
           None \<Rightarrow> any_spec typeid op (any_abs s) = None
         | Some s' \<Rightarrow> any_inv s' \<and> any_spec typeid op (any_abs s) = Some (any_abs s')"
proof -
  obtain h vs where s: "s = (h, vs)" by fastforce
  have inv: "any_inv (h, vs)" using assms(1) s by simp
  show ?thesis
  proof (cases op)
    case (AssignVal i v)
    then have i: "i < length vs" using assms(2) s by simp
    obtain h1 where h1: "new_holder v h = (next_holder h, h1)" by (rule new_holder_pair)
    show ?thesis
      using replace_var [OF inv i, of v] Any_destroy_freed(2) [OF inv i, of v]
      by (simp add: s AssignVal any_exec_def Any_assign_val_def Any_val_def Any_swap_def h1 any_spec_def)
  next
    case (AssignAny i j)
    then have i: "i < length vs" "j < length vs" using assms(2) s by simp_all
    show ?thesis
    proof (cases "vs ! j")
      case None
      then show ?thesis
        using drop_var [OF inv i(1)] Any_destroy_freed(1) [OF inv i(1)] i
        by (simp add: s AssignAny any_exec_def Any_assign_def Any_copy_def Any_swap_def any_spec_def any_abs_nth)
    next
      case (Some p)
      obtain v where v: "holders h p = Some v" using any_invD(2) [OF inv i(2) Some] by blast
      obtain h1 where h1: "new_holder v h = (next_holder h, h1)" by (rule new_holder_pair)
      show ?thesis
        using replace_var [OF inv i(1), of v] Any_destroy_freed(2) [OF inv i(1), of v] i Some v
        by (simp add: s AssignAny any_exec_def Any_assign_def Any_copy_def Holder_clone_def Any_swap_def
            h1 any_spec_def any_abs_nth)
    qed
  next
    case (Swap i j)
    then have i: "i < length vs" "j < length vs" using assms(2) s by simp_all
    show ?thesis
      using swap_var [OF inv i] by (simp add: s Swap any_exec_def Any_swap_def any_spec_def)
  next
    case (Update i v)
    then have i: "i < length vs" using assms(2) s by simp
    show ?thesis
    proof (cases "vs ! i")
      case None
      then show ?thesis using i by (simp add: s Update any_exec_def Any_Get_def any_spec_def any_abs_nth)
    next
      case (Some p)
      obtain u where u: "holders h p = Some u" using any_invD(2) [OF inv i Some] by blast
      then show ?thesis
        using update_var [OF inv i Some, of v] i Some
        by (simp add: s Update any_exec_def Any_Get_def any_spec_def any_abs_nth)
    qed
  next
    case (Destroy i)
    then have i: "i < length vs" using assms(2) s by simp
    show ?thesis
      using drop_var [OF inv i] Any_destroy_freed(1) [OF inv i]
      by (simp add: s Destroy any_exec_def Any_default_def any_spec_def)
  qed
qed

theorem any_value_semantics_witness:
  "\<exists>s'. any_exec (\<lambda>v. v mod 2) (AssignAny 1 0) (\<lparr>holders = [0 \<mapsto> 7 :: nat], next_holder = 1\<rparr>, [Some 0, None]) = Some s' \<and>
     any_inv s' \<and> any_abs s' = [Some 7, Some 7]"
proof -
  let ?s = "(\<lparr>holders = [0 \<mapsto> 7 :: nat], next_holder = 1\<rparr>, [Some 0, None])"
  have "any_inv ?s" by (rule any_invI) (auto simp: nth_Cons split: nat.splits if_splits)
  then show ?thesis
    using any_value_semantics [of ?s "AssignAny 1 0" "\<lambda>v. v mod 2"]
    by (auto simp: any_spec_def any_abs_def split: option.splits)
qed

end
