(* ===== verification/MuduoPoller.thy ===== *)
theory MuduoPoller
  imports Reactor
begin

unbundle bit_operations_syntax

text \<open>
  The class \<open>Channel\<close> of the bundled muduo library and its two pollers: \<open>Channel.h\<close>, \<open>Channel.cc\<close>,
  \<open>Poller.cc\<close>, \<open>poller/EPollPoller.cc\<close> and \<open>poller/PollPoller.cc\<close> under
  \<open>src/muduo_source_code/muduo/net\<close>. Channels live on a heap, a map from addresses to channels: a
  poller stores its own bookkeeping in the field \<open>index_\<close> of the channels, and \<open>PollPoller\<close> changes the index of
  a channel other than the one it is called with. \<open>None\<close> is a failed assertion, \<open>LOG_SYSFATAL\<close>, or
  the use of a channel that does not exist. The virtual calls of a channel to its poller are the
  arguments \<open>upd\<close> and \<open>rem\<close> of the operations of a channel.

  The number of descriptors of a process is below \<open>2^31\<close>, so indices into \<open>pollfds_\<close> are integers; event
  masks keep their width, \<open>int\<close> in a channel and \<open>short\<close> in a \<open>pollfd\<close>.

  The locale \<open>channel_poller\<close> is what a channel relies on. Both pollers are shown to fulfil it, so under
  every sequence of operations of channels that respects the protocol of the class neither aborts and both watch the
  same descriptors for the same events.
\<close>

section \<open>Channel\<close>

definition POLLNVAL :: u32 where "POLLNVAL = 0x20"
definition POLLRDHUP :: u32 where "POLLRDHUP = 0x2000"

definition kNoneEvent :: u32 where "kNoneEvent = 0"
definition kReadEvent :: u32 where "kReadEvent = EPOLLIN OR EPOLLPRI"
definition kWriteEvent :: u32 where "kWriteEvent = EPOLLOUT"

record 'h MChannel =
  mc_fd :: int
  mc_events :: u32
  mc_revents :: u32
  mc_index :: int
  mc_logHup :: bool
  mc_tied :: bool
  mc_eventHandling :: bool
  mc_addedToLoop :: bool
  mc_readCallback :: "'h option"
  mc_writeCallback :: "'h option"
  mc_closeCallback :: "'h option"
  mc_errorCallback :: "'h option"

type_synonym 'h chans = "nat \<rightharpoonup> 'h MChannel"

definition MChannel_new :: "int \<Rightarrow> 'h MChannel" where
  "MChannel_new fd = \<lparr>mc_fd = fd, mc_events = 0, mc_revents = 0, mc_index = -1, mc_logHup = True, mc_tied = False,
     mc_eventHandling = False, mc_addedToLoop = False, mc_readCallback = None, mc_writeCallback = None,
     mc_closeCallback = None, mc_errorCallback = None\<rparr>"

text \<open>The destructor: \<open>inLoop\<close> and \<open>has\<close> are the answers of \<open>isInLoopThread\<close> and \<open>hasChannel\<close>.\<close>

definition MChannel_dtor :: "bool \<Rightarrow> bool \<Rightarrow> 'h MChannel \<Rightarrow> unit option" where
  "MChannel_dtor inLoop has c =
     (if mc_eventHandling c \<or> mc_addedToLoop c \<or> (inLoop \<and> has) then None else Some ())"

definition isNoneEvent :: "'h MChannel \<Rightarrow> bool" where "isNoneEvent c = (mc_events c = kNoneEvent)"
definition isWriting :: "'h MChannel \<Rightarrow> bool" where "isWriting c = (mc_events c AND kWriteEvent \<noteq> 0)"
definition isReading :: "'h MChannel \<Rightarrow> bool" where "isReading c = (mc_events c AND kReadEvent \<noteq> 0)"

definition set_revents :: "u32 \<Rightarrow> 'h MChannel \<Rightarrow> 'h MChannel" where "set_revents revt c = c\<lparr>mc_revents := revt\<rparr>"
definition set_index :: "int \<Rightarrow> 'h MChannel \<Rightarrow> 'h MChannel" where "set_index idx c = c\<lparr>mc_index := idx\<rparr>"
definition doNotLogHup :: "'h MChannel \<Rightarrow> 'h MChannel" where "doNotLogHup c = c\<lparr>mc_logHup := False\<rparr>"
definition MChannel_tie :: "'h MChannel \<Rightarrow> 'h MChannel" where "MChannel_tie c = c\<lparr>mc_tied := True\<rparr>"
definition setReadCallback :: "'h \<Rightarrow> 'h MChannel \<Rightarrow> 'h MChannel" where "setReadCallback cb c = c\<lparr>mc_readCallback := Some cb\<rparr>"
definition setWriteCallback :: "'h \<Rightarrow> 'h MChannel \<Rightarrow> 'h MChannel" where "setWriteCallback cb c = c\<lparr>mc_writeCallback := Some cb\<rparr>"
definition setCloseCallback :: "'h \<Rightarrow> 'h MChannel \<Rightarrow> 'h MChannel" where "setCloseCallback cb c = c\<lparr>mc_closeCallback := Some cb\<rparr>"
definition setErrorCallback :: "'h \<Rightarrow> 'h MChannel \<Rightarrow> 'h MChannel" where "setErrorCallback cb c = c\<lparr>mc_errorCallback := Some cb\<rparr>"

text \<open>Changing the channel at an address.\<close>

definition at_channel :: "nat \<Rightarrow> ('h MChannel \<Rightarrow> 'h MChannel) \<Rightarrow> 'h chans \<Rightarrow> 'h chans" where
  "at_channel a f chs = chs(a := map_option f (chs a))"

type_synonym ('h, 'p) poller_call = "nat \<Rightarrow> 'h chans \<times> 'p \<Rightarrow> ('h chans \<times> 'p) option"

definition MChannel_update :: "('h, 'p) poller_call \<Rightarrow> ('h, 'p) poller_call" where
  "MChannel_update upd a s = upd a (at_channel a (\<lambda>c. c\<lparr>mc_addedToLoop := True\<rparr>) (fst s), snd s)"

definition MChannel_remove :: "('h, 'p) poller_call \<Rightarrow> ('h, 'p) poller_call" where
  "MChannel_remove rem a s =
     (case fst s a of
        None \<Rightarrow> None
      | Some c \<Rightarrow>
          if isNoneEvent c then rem a (at_channel a (\<lambda>c. c\<lparr>mc_addedToLoop := False\<rparr>) (fst s), snd s) else None)"

definition enableReading :: "('h, 'p) poller_call \<Rightarrow> ('h, 'p) poller_call" where
  "enableReading upd a s =
     MChannel_update upd a (at_channel a (\<lambda>c. c\<lparr>mc_events := mc_events c OR kReadEvent\<rparr>) (fst s), snd s)"

definition disableReading :: "('h, 'p) poller_call \<Rightarrow> ('h, 'p) poller_call" where
  "disableReading upd a s =
     MChannel_update upd a (at_channel a (\<lambda>c. c\<lparr>mc_events := mc_events c AND NOT kReadEvent\<rparr>) (fst s), snd s)"

definition enableWriting :: "('h, 'p) poller_call \<Rightarrow> ('h, 'p) poller_call" where
  "enableWriting upd a s =
     MChannel_update upd a (at_channel a (\<lambda>c. c\<lparr>mc_events := mc_events c OR kWriteEvent\<rparr>) (fst s), snd s)"

definition disableWriting :: "('h, 'p) poller_call \<Rightarrow> ('h, 'p) poller_call" where
  "disableWriting upd a s =
     MChannel_update upd a (at_channel a (\<lambda>c. c\<lparr>mc_events := mc_events c AND NOT kWriteEvent\<rparr>) (fst s), snd s)"

definition disableAll :: "('h, 'p) poller_call \<Rightarrow> ('h, 'p) poller_call" where
  "disableAll upd a s =
     MChannel_update upd a (at_channel a (\<lambda>c. c\<lparr>mc_events := kNoneEvent\<rparr>) (fst s), snd s)"

text \<open>The dispatch. The channel is part of the state the handlers change: \<open>chan\<close> reads it and
  \<open>modify\<close> changes it; \<open>alive\<close> is whether the tied owner can be locked.\<close>

definition handleEventWithGuard ::
    "('h \<Rightarrow> 's \<Rightarrow> 's option) \<Rightarrow> ('s \<Rightarrow> 'h MChannel) \<Rightarrow> (('h MChannel \<Rightarrow> 'h MChannel) \<Rightarrow> 's \<Rightarrow> 's) \<Rightarrow> 's \<Rightarrow> 's option" where
  "handleEventWithGuard run chan modify s = do {
     let s0 = modify (\<lambda>c. c\<lparr>mc_eventHandling := True\<rparr>) s;
     s1 \<leftarrow> (if mc_revents (chan s0) AND EPOLLHUP \<noteq> 0 \<and> mc_revents (chan s0) AND EPOLLIN = 0
            then call_opt run (mc_closeCallback (chan s0)) s0 else Some s0);
     s2 \<leftarrow> (if mc_revents (chan s1) AND (EPOLLERR OR POLLNVAL) \<noteq> 0
            then call_opt run (mc_errorCallback (chan s1)) s1 else Some s1);
     s3 \<leftarrow> (if mc_revents (chan s2) AND (EPOLLIN OR EPOLLPRI OR POLLRDHUP) \<noteq> 0
            then call_opt run (mc_readCallback (chan s2)) s2 else Some s2);
     s4 \<leftarrow> (if mc_revents (chan s3) AND EPOLLOUT \<noteq> 0
            then call_opt run (mc_writeCallback (chan s3)) s3 else Some s3);
     Some (modify (\<lambda>c. c\<lparr>mc_eventHandling := False\<rparr>) s4)
   }"

definition MChannel_handleEvent ::
    "('h \<Rightarrow> 's \<Rightarrow> 's option) \<Rightarrow> ('s \<Rightarrow> 'h MChannel) \<Rightarrow> (('h MChannel \<Rightarrow> 'h MChannel) \<Rightarrow> 's \<Rightarrow> 's) \<Rightarrow> ('s \<Rightarrow> bool) \<Rightarrow> 's \<Rightarrow> 's option" where
  "MChannel_handleEvent run chan modify alive s =
     (if mc_tied (chan s) then
        if alive s then handleEventWithGuard run chan modify s else Some s
      else handleEventWithGuard run chan modify s)"

section \<open>Poller\<close>

text \<open>\<open>hasChannel\<close> of the base class, on its map \<open>channels_\<close>.\<close>

definition hasChannel :: "(int \<rightharpoonup> nat) \<Rightarrow> nat \<Rightarrow> 'h MChannel \<Rightarrow> bool" where
  "hasChannel channels a c = (channels (mc_fd c) = Some a)"

section \<open>EPollPoller\<close>

definition kNew :: int where "kNew = -1"
definition kAdded :: int where "kAdded = 1"
definition kDeleted :: int where "kDeleted = 2"

text \<open>\<open>ep_interest\<close> is the kernel's interest list: for a descriptor the mask and the pointer given with it.
  \<open>ep_errors\<close> counts the failures that are only logged.\<close>

record EPollPoller =
  ep_channels :: "int \<rightharpoonup> nat"
  ep_interest :: "int \<rightharpoonup> u32 \<times> nat"
  ep_events_size :: nat
  ep_errors :: nat

definition EPollPoller_new :: EPollPoller where
  "EPollPoller_new = \<lparr>ep_channels = (\<lambda>_. None), ep_interest = (\<lambda>_. None), ep_events_size = 16, ep_errors = 0\<rparr>"

definition ep_update :: "epoll_op \<Rightarrow> nat \<Rightarrow> 'h chans \<times> EPollPoller \<Rightarrow> ('h chans \<times> EPollPoller) option" where
  "ep_update op a s =
     (let (chs, p) = s in
      case chs a of
        None \<Rightarrow> None
      | Some c \<Rightarrow>
          let fd = mc_fd c; present = (ep_interest p fd \<noteq> None) in
          (case op of
             EPOLL_CTL_ADD \<Rightarrow>
               if present then None else Some (chs, p\<lparr>ep_interest := (ep_interest p)(fd \<mapsto> (mc_events c, a))\<rparr>)
           | EPOLL_CTL_MOD \<Rightarrow>
               if present then Some (chs, p\<lparr>ep_interest := (ep_interest p)(fd \<mapsto> (mc_events c, a))\<rparr>) else None
           | EPOLL_CTL_DEL \<Rightarrow>
               if present then Some (chs, p\<lparr>ep_interest := (ep_interest p)(fd := None)\<rparr>)
               else Some (chs, p\<lparr>ep_errors := ep_errors p + 1\<rparr>)))"

definition ep_updateChannel :: "nat \<Rightarrow> 'h chans \<times> EPollPoller \<Rightarrow> ('h chans \<times> EPollPoller) option" where
  "ep_updateChannel a s =
     (let (chs, p) = s in
      case chs a of
        None \<Rightarrow> None
      | Some c \<Rightarrow>
          let index = mc_index c; fd = mc_fd c in
          if index = kNew \<or> index = kDeleted then
            if index = kNew then
              if ep_channels p fd = None
              then ep_update EPOLL_CTL_ADD a (at_channel a (set_index kAdded) chs, p\<lparr>ep_channels := (ep_channels p)(fd \<mapsto> a)\<rparr>)
              else None
            else if ep_channels p fd = Some a
            then ep_update EPOLL_CTL_ADD a (at_channel a (set_index kAdded) chs, p)
            else None
          else if ep_channels p fd = Some a \<and> index = kAdded then
            if isNoneEvent c then do {
              (chs1, p1) \<leftarrow> ep_update EPOLL_CTL_DEL a (chs, p);
              Some (at_channel a (set_index kDeleted) chs1, p1)
            }
            else ep_update EPOLL_CTL_MOD a (chs, p)
          else None)"

definition ep_removeChannel :: "nat \<Rightarrow> 'h chans \<times> EPollPoller \<Rightarrow> ('h chans \<times> EPollPoller) option" where
  "ep_removeChannel a s =
     (let (chs, p) = s in
      case chs a of
        None \<Rightarrow> None
      | Some c \<Rightarrow>
          let index = mc_index c; fd = mc_fd c in
          if ep_channels p fd = Some a \<and> isNoneEvent c \<and> (index = kAdded \<or> index = kDeleted) then do {
            let p1 = p\<lparr>ep_channels := (ep_channels p)(fd := None)\<rparr>;
            (chs2, p2) \<leftarrow> (if index = kAdded then ep_update EPOLL_CTL_DEL a (chs, p1) else Some (chs, p1));
            Some (at_channel a (set_index kNew) chs2, p2)
          }
          else None)"

text \<open>\<open>poll\<close>: \<open>epoll_wait\<close> returns the pointers stored in the interest list with their events.\<close>

datatype 'e poll_outcome = PollReady 'e | PollEINTR | PollError

fun ep_fillActiveChannels :: "(nat \<times> u32) list \<Rightarrow> 'h chans \<Rightarrow> ('h chans \<times> nat list) option" where
  "ep_fillActiveChannels [] chs = Some (chs, [])"
| "ep_fillActiveChannels ((a, events) # evs) chs =
     (if chs a = None then None
      else do {
        (chs1, active) \<leftarrow> ep_fillActiveChannels evs (at_channel a (set_revents events) chs);
        Some (chs1, a # active)
      })"

definition ep_poll :: "(nat \<times> u32) list poll_outcome \<Rightarrow> 'h chans \<times> EPollPoller \<Rightarrow> (('h chans \<times> EPollPoller) \<times> nat list) option" where
  "ep_poll r s =
     (let (chs, p) = s in
      case r of
        PollReady evs \<Rightarrow>
          if evs = [] then Some ((chs, p), [])
          else if length evs \<le> ep_events_size p then
            do {
              (chs1, active) \<leftarrow> ep_fillActiveChannels evs chs;
              let p1 = (if length evs = ep_events_size p then p\<lparr>ep_events_size := ep_events_size p * 2\<rparr> else p);
              Some ((chs1, p1), active)
            }
          else None
      | PollEINTR \<Rightarrow> Some ((chs, p), [])
      | PollError \<Rightarrow> Some ((chs, p\<lparr>ep_errors := ep_errors p + 1\<rparr>), []))"

section \<open>PollPoller\<close>

record pollfd =
  pfd_fd :: int
  pfd_events :: "16 word"
  pfd_revents :: "16 word"

record PollPoller =
  pp_channels :: "int \<rightharpoonup> nat"
  pp_pollfds :: "pollfd list"

definition PollPoller_new :: PollPoller where
  "PollPoller_new = \<lparr>pp_channels = (\<lambda>_. None), pp_pollfds = []\<rparr>"

definition pp_updateChannel :: "nat \<Rightarrow> 'h chans \<times> PollPoller \<Rightarrow> ('h chans \<times> PollPoller) option" where
  "pp_updateChannel a s =
     (let (chs, p) = s in
      case chs a of
        None \<Rightarrow> None
      | Some c \<Rightarrow>
          if mc_index c < 0 then
            if pp_channels p (mc_fd c) = None then
              let pfd = \<lparr>pfd_fd = mc_fd c, pfd_events = ucast (mc_events c), pfd_revents = 0\<rparr>;
                  pollfds = pp_pollfds p @ [pfd];
                  idx = int (length pollfds) - 1
              in Some (at_channel a (set_index idx) chs,
                       p\<lparr>pp_pollfds := pollfds, pp_channels := (pp_channels p)(pfd_fd pfd \<mapsto> a)\<rparr>)
            else None
          else if pp_channels p (mc_fd c) = Some a \<and> nat (mc_index c) < length (pp_pollfds p) then
            let idx = nat (mc_index c); pfd = pp_pollfds p ! idx in
            if pfd_fd pfd = mc_fd c \<or> pfd_fd pfd = - mc_fd c - 1 then
              let pfd1 = \<lparr>pfd_fd = (if isNoneEvent c then - mc_fd c - 1 else mc_fd c), pfd_events = ucast (mc_events c), pfd_revents = 0\<rparr>
              in Some (chs, p\<lparr>pp_pollfds := (pp_pollfds p)[idx := pfd1]\<rparr>)
            else None
          else None)"

definition pp_removeChannel :: "nat \<Rightarrow> 'h chans \<times> PollPoller \<Rightarrow> ('h chans \<times> PollPoller) option" where
  "pp_removeChannel a s =
     (let (chs, p) = s in
      case chs a of
        None \<Rightarrow> None
      | Some c \<Rightarrow>
          if pp_channels p (mc_fd c) = Some a \<and> isNoneEvent c \<and> 0 \<le> mc_index c \<and> nat (mc_index c) < length (pp_pollfds p) then
            let idx = nat (mc_index c); pfd = pp_pollfds p ! idx; n = length (pp_pollfds p) in
            if pfd_fd pfd = - mc_fd c - 1 \<and> pfd_events pfd = ucast (mc_events c) then
              let channels = (pp_channels p)(mc_fd c := None) in
              if idx = n - 1 then Some (chs, p\<lparr>pp_channels := channels, pp_pollfds := butlast (pp_pollfds p)\<rparr>)
              else
                let endfd = pfd_fd (last (pp_pollfds p));
                    channelAtEnd = (if endfd < 0 then - endfd - 1 else endfd);
                    pollfds = (pp_pollfds p)[idx := pp_pollfds p ! (n - 1), n - 1 := pp_pollfds p ! idx]
                in case channels channelAtEnd of
                     None \<Rightarrow> None
                   | Some b \<Rightarrow>
                       if chs b = None then None
                       else Some (at_channel b (set_index (int idx)) chs,
                                  p\<lparr>pp_channels := channels, pp_pollfds := butlast pollfds\<rparr>)
            else None
          else None)"

text \<open>\<open>poll\<close> writes \<open>revents\<close> of every entry and returns the number of entries it set.\<close>

fun pp_fillActiveChannels :: "nat \<Rightarrow> pollfd list \<Rightarrow> (int \<rightharpoonup> nat) \<Rightarrow> 'h chans \<Rightarrow> ('h chans \<times> nat list) option" where
  "pp_fillActiveChannels n [] channels chs = Some (chs, [])"
| "pp_fillActiveChannels 0 (pfd # pfds) channels chs = Some (chs, [])"
| "pp_fillActiveChannels (Suc n) (pfd # pfds) channels chs =
     (if 0 < sint (pfd_revents pfd) then
        (case channels (pfd_fd pfd) of
           None \<Rightarrow> None
         | Some a \<Rightarrow>
             (case chs a of
                None \<Rightarrow> None
              | Some c \<Rightarrow>
                  if mc_fd c = pfd_fd pfd then do {
                    (chs1, active) \<leftarrow> pp_fillActiveChannels n pfds channels (at_channel a (set_revents (scast (pfd_revents pfd))) chs);
                    Some (chs1, a # active)
                  }
                  else None))
      else pp_fillActiveChannels (Suc n) pfds channels chs)"

definition pp_poll :: "(nat \<times> 16 word list) poll_outcome \<Rightarrow> 'h chans \<times> PollPoller \<Rightarrow> (('h chans \<times> PollPoller) \<times> nat list) option" where
  "pp_poll r s =
     (let (chs, p) = s in
      case r of
        PollReady (numEvents, revents) \<Rightarrow>
          let p1 = p\<lparr>pp_pollfds := map2 (\<lambda>pfd r. pfd\<lparr>pfd_revents := r\<rparr>) (pp_pollfds p) revents\<rparr> in
          if 0 < numEvents then do {
            (chs1, active) \<leftarrow> pp_fillActiveChannels numEvents (pp_pollfds p1) (pp_channels p1) chs;
            Some ((chs1, p1), active)
          }
          else Some ((chs, p1), [])
      | PollEINTR \<Rightarrow> Some ((chs, p), [])
      | PollError \<Rightarrow> Some ((chs, p), []))"

section \<open>What users of channels may do\<close>

text \<open>The life of a channel: it is created, changes its events, is removed once it has none, and is
  destroyed. A descriptor has at most one registered channel. The first change of a channel
  enables something, and a removed channel is not used again.\<close>

datatype chan_op = Create nat int | EnableReading nat | DisableReading nat | EnableWriting nat | DisableWriting nat
  | DisableAll nat | RemoveChan nat | Destroy nat

datatype chan_phase = Fresh int | Active int u32 | Gone

record chan_spec =
  sp_chan :: "nat \<rightharpoonup> chan_phase"
  sp_owner :: "int \<rightharpoonup> nat"

definition spec_new :: chan_spec where "spec_new = \<lparr>sp_chan = (\<lambda>_. None), sp_owner = (\<lambda>_. None)\<rparr>"

definition spec_mask :: "(u32 \<Rightarrow> u32) \<Rightarrow> nat \<Rightarrow> chan_spec \<Rightarrow> chan_spec option" where
  "spec_mask f a s =
     (case sp_chan s a of
        Some (Fresh fd) \<Rightarrow>
          if f 0 \<noteq> 0 \<and> sp_owner s fd = None
          then Some (s\<lparr>sp_chan := (sp_chan s)(a \<mapsto> Active fd (f 0)), sp_owner := (sp_owner s)(fd \<mapsto> a)\<rparr>) else None
      | Some (Active fd m) \<Rightarrow> Some (s\<lparr>sp_chan := (sp_chan s)(a \<mapsto> Active fd (f m))\<rparr>)
      | _ \<Rightarrow> None)"

fun spec_step :: "chan_op \<Rightarrow> chan_spec \<Rightarrow> chan_spec option" where
  "spec_step (Create a fd) s = (if sp_chan s a = None \<and> 0 \<le> fd then Some (s\<lparr>sp_chan := (sp_chan s)(a \<mapsto> Fresh fd)\<rparr>) else None)"
| "spec_step (EnableReading a) s = spec_mask (\<lambda>m. m OR kReadEvent) a s"
| "spec_step (DisableReading a) s = spec_mask (\<lambda>m. m AND NOT kReadEvent) a s"
| "spec_step (EnableWriting a) s = spec_mask (\<lambda>m. m OR kWriteEvent) a s"
| "spec_step (DisableWriting a) s = spec_mask (\<lambda>m. m AND NOT kWriteEvent) a s"
| "spec_step (DisableAll a) s = spec_mask (\<lambda>m. kNoneEvent) a s"
| "spec_step (RemoveChan a) s =
     (case sp_chan s a of
        Some (Active fd m) \<Rightarrow>
          if m = 0 then Some (s\<lparr>sp_chan := (sp_chan s)(a \<mapsto> Gone), sp_owner := (sp_owner s)(fd := None)\<rparr>) else None
      | _ \<Rightarrow> None)"
| "spec_step (Destroy a) s =
     (case sp_chan s a of
        Some (Active fd m) \<Rightarrow> None
      | Some _ \<Rightarrow> Some (s\<lparr>sp_chan := (sp_chan s)(a := None)\<rparr>)
      | None \<Rightarrow> None)"

text \<open>The operations themselves, on a poller given by its calls and its map.\<close>

fun chan_step :: "('h, 'p) poller_call \<Rightarrow> ('h, 'p) poller_call \<Rightarrow> ('p \<Rightarrow> int \<rightharpoonup> nat) \<Rightarrow> chan_op \<Rightarrow> 'h chans \<times> 'p \<Rightarrow> ('h chans \<times> 'p) option" where
  "chan_step upd rem tab (Create a fd) s = (if fst s a = None then Some ((fst s)(a \<mapsto> MChannel_new fd), snd s) else None)"
| "chan_step upd rem tab (EnableReading a) s = enableReading upd a s"
| "chan_step upd rem tab (DisableReading a) s = disableReading upd a s"
| "chan_step upd rem tab (EnableWriting a) s = enableWriting upd a s"
| "chan_step upd rem tab (DisableWriting a) s = disableWriting upd a s"
| "chan_step upd rem tab (DisableAll a) s = disableAll upd a s"
| "chan_step upd rem tab (RemoveChan a) s = MChannel_remove rem a s"
| "chan_step upd rem tab (Destroy a) s =
     (case fst s a of
        None \<Rightarrow> None
      | Some c \<Rightarrow> do { MChannel_dtor True (hasChannel (tab (snd s)) a c) c; Some ((fst s)(a := None), snd s) })"

fun run_ops :: "('o \<Rightarrow> 's \<Rightarrow> 's option) \<Rightarrow> 'o list \<Rightarrow> 's \<Rightarrow> 's option" where
  "run_ops step [] s = Some s"
| "run_ops step (x # xs) s = do { s1 \<leftarrow> step x s; run_ops step xs s1 }"

text \<open>The events asked for on a descriptor.\<close>

definition spec_watch :: "chan_spec \<Rightarrow> int \<Rightarrow> u32" where
  "spec_watch s fd =
     (case sp_owner s fd of
        None \<Rightarrow> 0
      | Some a \<Rightarrow> (case sp_chan s a of Some (Active _ m) \<Rightarrow> m | _ \<Rightarrow> 0))"

section \<open>The interface between channels and pollers\<close>

text \<open>A poller sees of a channel its descriptor and index; nothing but the index is changed by a poller.\<close>

definition chan_keys :: "'h chans \<Rightarrow> nat \<rightharpoonup> int \<times> int" where
  "chan_keys chs a = map_option (\<lambda>c. (mc_fd c, mc_index c)) (chs a)"

definition same_but_index :: "'h chans \<Rightarrow> 'h chans \<Rightarrow> bool" where
  "same_but_index chs chs' \<longleftrightarrow> (\<forall>a. map_option (set_index 0) (chs a) = map_option (set_index 0) (chs' a))"

lemma at_channel_simps [simp]:
  "at_channel a f chs a = map_option f (chs a)" "b \<noteq> a \<Longrightarrow> at_channel a f chs b = chs b"
  by (simp_all add: at_channel_def)

lemma chan_keys_Some: "chs a = Some c \<Longrightarrow> chan_keys chs a = Some (mc_fd c, mc_index c)"
  by (simp add: chan_keys_def)

lemma chan_keys_index: "chs a = Some c \<Longrightarrow> chan_keys (at_channel a (set_index i) chs) = (chan_keys chs)(a \<mapsto> (mc_fd c, i))"
  by (auto simp: fun_eq_iff chan_keys_def at_channel_def set_index_def)

lemma same_but_index_simps [simp]:
  "same_but_index chs chs" "same_but_index chs (at_channel a (set_index i) chs)"
  by (auto simp: same_but_index_def at_channel_def set_index_def option.map_comp comp_def intro!: option.map_cong0)

lemma same_but_indexD:
  assumes "same_but_index chs chs'" and "chs a = Some c"
  obtains i where "chs' a = Some (set_index i c)"
proof -
  have "map_option (set_index 0) (chs' a) = Some (set_index 0 c)" using assms by (metis same_but_index_def option.simps(9))
  then obtain c' where "chs' a = Some c'" "set_index 0 c' = set_index 0 c" by auto
  then have "chs' a = Some (set_index (mc_index c') c)" by (cases c; cases c') (auto simp: set_index_def)
  then show ?thesis using that by blast
qed

lemma same_but_index_None: "same_but_index chs chs' \<Longrightarrow> (chs' a = None) = (chs a = None)"
  by (metis same_but_index_def option.map_disc_iff)

text \<open>What a poller neither reads nor changes.\<close>

definition chan_frame :: "'h MChannel \<Rightarrow> 'h MChannel" where
  "chan_frame c = c\<lparr>mc_events := 0, mc_index := 0, mc_addedToLoop := True\<rparr>"

lemma same_but_index_frame: "same_but_index chs chs' \<Longrightarrow> map_option chan_frame (chs' a) = map_option chan_frame (chs a)"
proof (cases "chs a")
  case (Some c)
  assume "same_but_index chs chs'"
  then obtain i where "chs' a = Some (set_index i c)" using same_but_indexD Some by metis
  then show ?thesis using Some by (simp add: chan_frame_def set_index_def)
qed (simp add: same_but_index_None)

text \<open>The masks of a channel: only bits of \<open>kReadEvent\<close> and \<open>kWriteEvent\<close>.\<close>

definition mask_ok :: "u32 \<Rightarrow> bool" where
  "mask_ok m \<longleftrightarrow> m AND (kReadEvent OR kWriteEvent) = m"

text \<open>The laws of a poller: \<open>table\<close> is its map of channels, \<open>watch\<close> the events the kernel is asked for, \<open>removable\<close> whether
  the channel of a descriptor is in the state in which it may be removed.\<close>

locale channel_poller =
  fixes update :: "nat \<Rightarrow> 'h chans \<times> 'p \<Rightarrow> ('h chans \<times> 'p) option"
    and remove :: "nat \<Rightarrow> 'h chans \<times> 'p \<Rightarrow> ('h chans \<times> 'p) option"
    and inv :: "(nat \<rightharpoonup> int \<times> int) \<Rightarrow> 'p \<Rightarrow> bool"
    and table :: "'p \<Rightarrow> int \<rightharpoonup> nat"
    and watch :: "'p \<Rightarrow> int \<Rightarrow> u32"
    and removable :: "'p \<Rightarrow> int \<Rightarrow> bool"
    and new :: 'p
  assumes inv_new: "\<forall>a k. keys a = Some k \<longrightarrow> snd k = -1 \<Longrightarrow> inv keys new"
    and new_empty: "table new = (\<lambda>_. None)" "watch new = (\<lambda>_. 0)"
    and inv_table: "inv keys p \<Longrightarrow> table p fd = Some a \<Longrightarrow> \<exists>i. keys a = Some (fd, i)"
    and inv_fresh: "inv keys p \<Longrightarrow> keys a = None \<Longrightarrow> inv (keys(a \<mapsto> (fd, -1))) p"
    and inv_forget: "inv keys p \<Longrightarrow> a \<notin> ran (table p) \<Longrightarrow> inv (keys(a := None)) p"
    and update_ok:
      "\<lbrakk>inv (chan_keys chs) p; chs a = Some c; 0 \<le> mc_fd c; mask_ok (mc_events c);
        table p (mc_fd c) = Some a \<or> table p (mc_fd c) = None \<and> mc_index c = -1\<rbrakk>
       \<Longrightarrow> returns (update a (chs, p)) (\<lambda>(chs', p'). inv (chan_keys chs') p' \<and> same_but_index chs chs' \<and>
             (\<forall>b. b \<noteq> a \<longrightarrow> chs' b = chs b) \<and>
             table p' = (table p)(mc_fd c \<mapsto> a) \<and> watch p' = (watch p)(mc_fd c := mc_events c) \<and>
             (\<forall>fd. fd \<noteq> mc_fd c \<longrightarrow> 0 \<le> fd \<longrightarrow> removable p' fd = removable p fd) \<and>
             (table p (mc_fd c) = Some a \<and> mc_events c = 0 \<longrightarrow> removable p' (mc_fd c)))"
    and remove_ok:
      "\<lbrakk>inv (chan_keys chs) p; chs a = Some c; 0 \<le> mc_fd c; mc_events c = 0; table p (mc_fd c) = Some a; removable p (mc_fd c)\<rbrakk>
       \<Longrightarrow> returns (remove a (chs, p)) (\<lambda>(chs', p'). inv (chan_keys chs') p' \<and> same_but_index chs chs' \<and>
             (\<forall>b. b \<noteq> a \<longrightarrow> b \<notin> ran (table p) \<longrightarrow> chs' b = chs b) \<and>
             table p' = (table p)(mc_fd c := None) \<and> watch p' = (watch p)(mc_fd c := 0) \<and>
             (\<forall>fd. fd \<noteq> mc_fd c \<longrightarrow> 0 \<le> fd \<longrightarrow> removable p' fd = removable p fd))"
begin

text \<open>The state of a channel in each phase, and the simulation. \<open>B\<close> are the channels whose events are being handled.\<close>

definition phase_ok :: "nat set \<Rightarrow> 'p \<Rightarrow> (int \<rightharpoonup> nat) \<Rightarrow> nat \<Rightarrow> 'h MChannel \<Rightarrow> chan_phase \<Rightarrow> bool" where
  "phase_ok B p owner a c ph \<longleftrightarrow>
     (a \<notin> B \<longrightarrow> \<not> mc_eventHandling c) \<and> mc_addedToLoop c = (case ph of Active _ _ \<Rightarrow> True | _ \<Rightarrow> False) \<and>
     (case ph of
        Fresh fd \<Rightarrow> mc_fd c = fd \<and> 0 \<le> fd \<and> mc_events c = 0 \<and> mc_index c = -1 \<and> a \<notin> ran owner
      | Active fd m \<Rightarrow> mc_fd c = fd \<and> 0 \<le> fd \<and> mc_events c = m \<and> mask_ok m \<and> owner fd = Some a \<and> watch p fd = m \<and>
          (m = 0 \<longrightarrow> removable p fd)
      | Gone \<Rightarrow> mc_events c = 0 \<and> a \<notin> ran owner)"

definition sim :: "nat set \<Rightarrow> 'h chans \<times> 'p \<Rightarrow> chan_spec \<Rightarrow> bool" where
  "sim B s sp \<longleftrightarrow>
     inv (chan_keys (fst s)) (snd s) \<and> table (snd s) = sp_owner sp \<and>
     (\<forall>a. (fst s a = None) = (sp_chan sp a = None)) \<and>
     (\<forall>a c ph. fst s a = Some c \<longrightarrow> sp_chan sp a = Some ph \<longrightarrow> phase_ok B (snd s) (sp_owner sp) a c ph) \<and>
     (\<forall>fd a. sp_owner sp fd = Some a \<longrightarrow> (\<exists>m. sp_chan sp a = Some (Active fd m))) \<and>
     (\<forall>fd. sp_owner sp fd = None \<longrightarrow> watch (snd s) fd = 0)"

lemma simD:
  assumes "sim B (chs, p) sp"
  shows "inv (chan_keys chs) p" "table p = sp_owner sp" "(chs a = None) = (sp_chan sp a = None)"
    "chs a = Some c \<Longrightarrow> sp_chan sp a = Some ph \<Longrightarrow> phase_ok B p (sp_owner sp) a c ph"
    "sp_owner sp fd = Some a \<Longrightarrow> \<exists>m. sp_chan sp a = Some (Active fd m)"
    "sp_owner sp fd = None \<Longrightarrow> watch p fd = 0"
  using assms unfolding sim_def by auto

lemma simI:
  assumes "inv (chan_keys chs) p" "table p = sp_owner sp" "\<And>a. (chs a = None) = (sp_chan sp a = None)"
    "\<And>a c ph. chs a = Some c \<Longrightarrow> sp_chan sp a = Some ph \<Longrightarrow> phase_ok B p (sp_owner sp) a c ph"
    "\<And>fd a. sp_owner sp fd = Some a \<Longrightarrow> \<exists>m. sp_chan sp a = Some (Active fd m)"
    "\<And>fd. sp_owner sp fd = None \<Longrightarrow> watch p fd = 0"
  shows "sim B (chs, p) sp"
  using assms unfolding sim_def by auto

lemma sim_phase:
  assumes "sim B (chs, p) sp" and "sp_chan sp a = Some ph"
  obtains c where "chs a = Some c" and "phase_ok B p (sp_owner sp) a c ph"
  using assms simD(3) [OF assms(1), of a] simD(4) [OF assms(1), of a] by (cases "chs a") auto

lemma sim_watch:
  assumes "sim B (chs, p) sp"
  shows "watch p fd = spec_watch sp fd"
proof (cases "sp_owner sp fd")
  case (Some a)
  then obtain m where m: "sp_chan sp a = Some (Active fd m)" using simD(5) [OF assms] by blast
  then obtain c where "phase_ok B p (sp_owner sp) a c (Active fd m)" using sim_phase [OF assms] by blast
  then show ?thesis using Some m by (simp add: phase_ok_def spec_watch_def)
qed (use simD(6) [OF assms] in \<open>simp add: spec_watch_def\<close>)

text \<open>A change of the events of a channel.\<close>

lemma sim_mask_frame:
  assumes s: "sim B (chs, p) sp" and sp: "spec_mask f a sp = Some sp'" and f: "\<And>m. mask_ok m \<Longrightarrow> mask_ok (f m)"
  shows "returns (MChannel_update update a (at_channel a (\<lambda>c. c\<lparr>mc_events := f (mc_events c)\<rparr>) chs, p))
    (\<lambda>s'. sim B s' sp' \<and> map_option chan_frame (fst s' b) = map_option chan_frame (chs b))"
proof -
  from sp obtain ph where ph: "sp_chan sp a = Some ph" "ph \<noteq> Gone"
    by (auto simp: spec_mask_def split: option.splits chan_phase.splits)
  then obtain c where c: "chs a = Some c" and ok: "phase_ok B p (sp_owner sp) a c ph" using sim_phase [OF s] by blast
  let ?c = "c\<lparr>mc_events := f (mc_events c), mc_addedToLoop := True\<rparr>"
  let ?chs = "at_channel a (\<lambda>c. c\<lparr>mc_addedToLoop := True\<rparr>) (at_channel a (\<lambda>c. c\<lparr>mc_events := f (mc_events c)\<rparr>) chs)"
  have ca: "?chs a = Some ?c" and co: "\<And>b. b \<noteq> a \<Longrightarrow> ?chs b = chs b" using c by simp_all
  have keys: "chan_keys ?chs = chan_keys chs" using c by (auto simp: chan_keys_def fun_eq_iff at_channel_def)
  have fd: "0 \<le> mc_fd c" and m: "mask_ok (mc_events c)" and reg: "table p (mc_fd c) = Some a \<or> table p (mc_fd c) = None \<and> mc_index c = -1"
    and sp': "sp' = sp\<lparr>sp_chan := (sp_chan sp)(a \<mapsto> Active (mc_fd c) (f (mc_events c))), sp_owner := (sp_owner sp)(mc_fd c \<mapsto> a)\<rparr>"
    and z: "table p (mc_fd c) = None \<Longrightarrow> f (mc_events c) \<noteq> 0" and nh: "a \<notin> B \<longrightarrow> \<not> mc_eventHandling c"
    using ok ph sp simD(2) [OF s]
    by (auto simp: phase_ok_def spec_mask_def mask_ok_def fun_upd_idem split: chan_phase.splits if_splits)
  have "inv (chan_keys ?chs) p" unfolding keys by (rule simD(1) [OF s])
  from update_ok [OF this ca] fd f [OF m] reg obtain chs' p' where
    u: "update a (?chs, p) = Some (chs', p')" "inv (chan_keys chs') p'" "same_but_index ?chs chs'" "\<And>b. b \<noteq> a \<Longrightarrow> chs' b = ?chs b"
      "table p' = (table p)(mc_fd c \<mapsto> a)" "watch p' = (watch p)(mc_fd c := f (mc_events c))"
      "\<And>fd. fd \<noteq> mc_fd c \<Longrightarrow> 0 \<le> fd \<Longrightarrow> removable p' fd = removable p fd"
      "table p (mc_fd c) = Some a \<and> f (mc_events c) = 0 \<longrightarrow> removable p' (mc_fd c)"
    by (auto simp: returns_iff)
  have "sim B (chs', p') sp'"
  proof (rule simI)
    obtain i where c': "chs' a = Some (set_index i ?c)" using same_but_indexD [OF u(3) ca] by blast
    show "(chs' b = None) = (sp_chan sp' b = None)" for b
      using u(4) [of b] simD(3) [OF s, of b] c' by (auto simp: sp')
    show "phase_ok B p' (sp_owner sp') b d ph'" if d: "chs' b = Some d" "sp_chan sp' b = Some ph'" for b d ph'
    proof (cases "b = a")
      case True
      then show ?thesis using d c' u(6,8) fd f [OF m] nh reg z by (auto simp: sp' phase_ok_def set_index_def)
    next
      case False
      then have "phase_ok B p (sp_owner sp) b d ph'" using d u(4) co simD(4) [OF s, of b d ph'] by (simp add: sp')
      moreover have "b \<notin> ran (sp_owner sp')" if "b \<notin> ran (sp_owner sp)" using that False by (auto simp: sp' ran_def)
      ultimately show ?thesis using False reg u(6,7) simD(2) [OF s]
        by (cases ph') (auto simp: sp' phase_ok_def)
    qed
    show "\<exists>m. sp_chan sp' b = Some (Active x m)" if "sp_owner sp' x = Some b" for x b
      using that simD(5) [OF s, of x b] ok ph by (auto simp: sp' phase_ok_def split: if_splits)
    show "watch p' x = 0" if "sp_owner sp' x = None" for x
      using that simD(6) [OF s, of x] by (auto simp: sp' u(6) split: if_splits)
  qed (use u simD(2) [OF s] in \<open>simp_all add: sp'\<close>)
  moreover have "map_option chan_frame (?chs b) = map_option chan_frame (chs b)" for b
    using c by (cases "b = a") (simp_all add: chan_frame_def)
  ultimately show ?thesis using u(1) same_but_index_frame [OF u(3)] by (simp add: MChannel_update_def)
qed

lemma sim_mask:
  assumes "sim B (chs, p) sp" and "spec_mask f a sp = Some sp'" and "\<And>m. mask_ok m \<Longrightarrow> mask_ok (f m)"
  shows "returns (MChannel_update update a (at_channel a (\<lambda>c. c\<lparr>mc_events := f (mc_events c)\<rparr>) chs, p)) (\<lambda>s'. sim B s' sp')"
  by (rule returns_mono [OF sim_mask_frame [where b = a, OF assms(1,2)]]) (use assms(3) in blast)+

lemma sim_remove_frame:
  assumes s: "sim B (chs, p) sp" and sp: "spec_step (RemoveChan a) sp = Some sp'"
  shows "returns (MChannel_remove remove a (chs, p))
    (\<lambda>s'. sim B s' sp' \<and> map_option chan_frame (fst s' b) = map_option chan_frame (chs b))"
proof -
  from sp obtain fd where ph: "sp_chan sp a = Some (Active fd 0)"
    and sp': "sp' = sp\<lparr>sp_chan := (sp_chan sp)(a \<mapsto> Gone), sp_owner := (sp_owner sp)(fd := None)\<rparr>"
    by (auto split: option.splits chan_phase.splits if_splits)
  then obtain c where c: "chs a = Some c" and ok: "phase_ok B p (sp_owner sp) a c (Active fd 0)" using sim_phase [OF s] by blast
  let ?c = "c\<lparr>mc_addedToLoop := False\<rparr>"
  let ?chs = "at_channel a (\<lambda>c. c\<lparr>mc_addedToLoop := False\<rparr>) chs"
  have ca: "?chs a = Some ?c" and co: "\<And>b. b \<noteq> a \<Longrightarrow> ?chs b = chs b" using c by simp_all
  have keys: "chan_keys ?chs = chan_keys chs" using c by (auto simp: chan_keys_def fun_eq_iff at_channel_def)
  have cc: "mc_fd c = fd" "0 \<le> fd" "mc_events c = 0" "sp_owner sp fd = Some a" "removable p fd" "a \<notin> B \<longrightarrow> \<not> mc_eventHandling c"
    using ok by (auto simp: phase_ok_def)
  have "inv (chan_keys ?chs) p" unfolding keys by (rule simD(1) [OF s])
  from remove_ok [OF this ca] cc simD(2) [OF s] obtain chs' p' where
    u: "remove a (?chs, p) = Some (chs', p')" "inv (chan_keys chs') p'" "same_but_index ?chs chs'"
      "\<And>b. b \<noteq> a \<Longrightarrow> b \<notin> ran (table p) \<Longrightarrow> chs' b = ?chs b"
      "table p' = (table p)(fd := None)" "watch p' = (watch p)(fd := 0)"
      "\<And>x. x \<noteq> fd \<Longrightarrow> 0 \<le> x \<Longrightarrow> removable p' x = removable p x"
    by (auto simp: returns_iff)
  have "sim B (chs', p') sp'"
  proof (rule simI)
    have "x = fd" if "sp_owner sp x = Some a" for x using simD(5) [OF s that] ph by simp
    then have nr: "a \<notin> ran (sp_owner sp')" by (auto simp: sp' ran_def)
    show "(chs' b = None) = (sp_chan sp' b = None)" for b
      using same_but_index_None [OF u(3), of b] simD(3) [OF s, of b] c by (cases "b = a") (auto simp: sp')
    show "phase_ok B p' (sp_owner sp') b d ph'" if d: "chs' b = Some d" "sp_chan sp' b = Some ph'" for b d ph'
    proof (cases "b = a")
      case True
      obtain i where "chs' a = Some (set_index i ?c)" using same_but_indexD [OF u(3) ca] by blast
      then show ?thesis using True d cc nr by (auto simp: sp' phase_ok_def set_index_def)
    next
      case False
      then obtain e where e: "chs b = Some e" using same_but_index_None [OF u(3), of b] d by auto
      then have pb: "phase_ok B p (sp_owner sp) b e ph'" using d False simD(4) [OF s, of b e ph'] by (simp add: sp')
      obtain i where i: "d = set_index i e" using same_but_indexD [OF u(3), of b e] e False d by auto
      have "d = e" if "b \<notin> ran (sp_owner sp)" using u(4) [OF False] that simD(2) [OF s] e d False by simp
      moreover have "b \<notin> ran (sp_owner sp')" if "b \<notin> ran (sp_owner sp)" using that by (auto simp: sp' ran_def)
      ultimately show ?thesis using False pb u(6,7) cc i
        by (cases ph') (auto simp: sp' phase_ok_def set_index_def)
    qed
    show "\<exists>m. sp_chan sp' b = Some (Active x m)" if "sp_owner sp' x = Some b" for x b
      using that simD(5) [OF s, of x b] ph by (auto simp: sp' split: if_splits)
    show "watch p' x = 0" if "sp_owner sp' x = None" for x
      using that simD(6) [OF s, of x] by (auto simp: sp' u(6) split: if_splits)
  qed (use u simD(2) [OF s] in \<open>simp_all add: sp'\<close>)
  moreover have "map_option chan_frame (?chs b) = map_option chan_frame (chs b)" for b
    using c by (cases "b = a") (simp_all add: chan_frame_def)
  ultimately show ?thesis using u(1) c cc(3) same_but_index_frame [OF u(3)]
    by (simp add: MChannel_remove_def isNoneEvent_def kNoneEvent_def)
qed

lemma sim_remove:
  assumes "sim B (chs, p) sp" and "spec_step (RemoveChan a) sp = Some sp'"
  shows "returns (MChannel_remove remove a (chs, p)) (\<lambda>s'. sim B s' sp')"
  by (rule returns_mono [OF sim_remove_frame [where b = a, OF assms]]) blast

lemma owner_not_ran: "sim B (chs, p) sp \<Longrightarrow> (\<And>fd m. sp_chan sp a \<noteq> Some (Active fd m)) \<Longrightarrow> a \<notin> ran (sp_owner sp)"
  using simD(5) by (fastforce simp: ran_def)

lemma sim_create:
  assumes s: "sim B (chs, p) sp" and sp: "spec_step (Create a fd) sp = Some sp'"
  shows "returns (chan_step update remove table (Create a fd) (chs, p)) (\<lambda>s'. sim B s' sp')"
proof -
  have n: "sp_chan sp a = None" "chs a = None" "0 \<le> fd" and sp': "sp' = sp\<lparr>sp_chan := (sp_chan sp)(a \<mapsto> Fresh fd)\<rparr>"
    using sp simD(3) [OF s, of a] by (auto split: if_splits)
  have nr: "a \<notin> ran (sp_owner sp)" by (rule owner_not_ran [OF s]) (simp add: n)
  have keys: "chan_keys (chs(a \<mapsto> MChannel_new fd)) = (chan_keys chs)(a \<mapsto> (fd, -1))"
    by (simp add: fun_eq_iff chan_keys_def MChannel_new_def)
  have "inv (chan_keys (chs(a \<mapsto> MChannel_new fd))) p"
    unfolding keys by (rule inv_fresh [OF simD(1) [OF s]]) (simp add: chan_keys_def n)
  then have "sim B (chs(a \<mapsto> MChannel_new fd), p) sp'"
  proof (rule simI)
    show "phase_ok B p (sp_owner sp') b d ph" if "(chs(a \<mapsto> MChannel_new fd)) b = Some d" "sp_chan sp' b = Some ph" for b d ph
      using that simD(4) [OF s, of b d ph] n nr by (cases "b = a") (auto simp: sp' phase_ok_def MChannel_new_def)
    show "\<exists>m. sp_chan sp' b = Some (Active x m)" if "sp_owner sp' x = Some b" for x b
      using that simD(5) [OF s, of x b] n by (auto simp: sp')
  qed (use simD(2,3,6) [OF s] in \<open>simp_all add: sp'\<close>)
  then show ?thesis using n by simp
qed

lemma sim_destroy:
  assumes s: "sim B (chs, p) sp" and sp: "spec_step (Destroy a) sp = Some sp'" and B: "a \<notin> B"
  shows "returns (chan_step update remove table (Destroy a) (chs, p)) (\<lambda>s'. sim B s' sp')"
proof -
  from sp obtain ph where ph: "sp_chan sp a = Some ph" "\<And>fd m. ph \<noteq> Active fd m"
    and sp': "sp' = sp\<lparr>sp_chan := (sp_chan sp)(a := None)\<rparr>"
    by (auto split: option.splits chan_phase.splits)
  then obtain c where c: "chs a = Some c" and ok: "phase_ok B p (sp_owner sp) a c ph" using sim_phase [OF s] by blast
  have nr: "a \<notin> ran (sp_owner sp)" by (rule owner_not_ran [OF s]) (simp add: ph)
  then have h: "\<not> hasChannel (table p) a c" using simD(2) [OF s] by (auto simp: hasChannel_def ran_def)
  have "\<not> mc_eventHandling c" "\<not> mc_addedToLoop c" using ok ph B by (cases ph; simp add: phase_ok_def)+
  moreover have "sim B (chs(a := None), p) sp'"
  proof (rule simI)
    have "chan_keys (chs(a := None)) = (chan_keys chs)(a := None)" by (simp add: fun_eq_iff chan_keys_def)
    then show "inv (chan_keys (chs(a := None))) p" using inv_forget simD(1,2) [OF s] nr by simp
    show "\<exists>m. sp_chan sp' b = Some (Active x m)" if "sp_owner sp' x = Some b" for x b
      using that simD(5) [OF s, of x b] ph(1) ph(2) [of x] by (cases "b = a") (auto simp: sp')
  qed (use simD [OF s] in \<open>auto simp: sp' split: if_splits\<close>)
  ultimately show ?thesis using c h by (simp add: MChannel_dtor_def)
qed

lemma mask_ok_ops:
  assumes "mask_ok m"
  shows "mask_ok (m OR kReadEvent)" "mask_ok (m AND NOT kReadEvent)" "mask_ok (m OR kWriteEvent)" "mask_ok (m AND NOT kWriteEvent)"
    "mask_ok kNoneEvent"
  using assms unfolding mask_ok_def kNoneEvent_def by (auto simp: bit_eq_iff bit_simps)

lemma sim_step:
  assumes s: "sim B (chs, p) sp" and sp: "spec_step x sp = Some sp'" and B: "\<forall>a \<in> B. x \<noteq> Destroy a"
  shows "returns (chan_step update remove table x (chs, p)) (\<lambda>s'. sim B s' sp')"
proof (cases x)
  case (EnableReading a)
  then show ?thesis using sim_mask [OF s, of "\<lambda>m. m OR kReadEvent" a sp'] sp mask_ok_ops by (simp add: enableReading_def)
next
  case (DisableReading a)
  then show ?thesis using sim_mask [OF s, of "\<lambda>m. m AND NOT kReadEvent" a sp'] sp mask_ok_ops by (simp add: disableReading_def)
next
  case (EnableWriting a)
  then show ?thesis using sim_mask [OF s, of "\<lambda>m. m OR kWriteEvent" a sp'] sp mask_ok_ops by (simp add: enableWriting_def)
next
  case (DisableWriting a)
  then show ?thesis using sim_mask [OF s, of "\<lambda>m. m AND NOT kWriteEvent" a sp'] sp mask_ok_ops by (simp add: disableWriting_def)
next
  case (DisableAll a)
  then show ?thesis using sim_mask [OF s, of "\<lambda>m. kNoneEvent" a sp'] sp mask_ok_ops by (simp add: disableAll_def)
next
  case (Create a fd)
  show ?thesis unfolding Create using sim_create [OF s] sp [unfolded Create] by blast
next
  case (Destroy a)
  show ?thesis unfolding Destroy using sim_destroy [OF s sp [unfolded Destroy]] B Destroy by blast
next
  case (RemoveChan a)
  show ?thesis unfolding RemoveChan using sim_remove [OF s] sp [unfolded RemoveChan] by (simp only: chan_step.simps) 
qed

text \<open>Changes of a channel that no poller looks at.\<close>

lemma sim_change:
  assumes s: "sim B (chs, p) sp" and f: "\<And>c. mc_fd (f c) = mc_fd c \<and> mc_index (f c) = mc_index c \<and> mc_events (f c) = mc_events c \<and>
      mc_addedToLoop (f c) = mc_addedToLoop c"
    and B: "insert a B = insert a B'" and h: "a \<notin> B' \<Longrightarrow> \<forall>c. mc_eventHandling (f c) \<longrightarrow> a \<notin> B \<and> mc_eventHandling c"
  shows "sim B' (at_channel a f chs, p) sp"
proof (rule simI)
  have "chan_keys (at_channel a f chs) = chan_keys chs" using f by (auto simp: fun_eq_iff chan_keys_def at_channel_def option.map_comp comp_def)
  then show "inv (chan_keys (at_channel a f chs)) p" using simD(1) [OF s] by simp
  show "phase_ok B' p (sp_owner sp) b d ph" if d: "at_channel a f chs b = Some d" "sp_chan sp b = Some ph" for b d ph
  proof (cases "b = a")
    case True
    then obtain c where "chs a = Some c" "d = f c" using d(1) by auto
    then have c: "phase_ok B p (sp_owner sp) a c ph" "d = f c" using True simD(4) [OF s, of a c ph] d(2) by simp_all
    have e: "a \<notin> B' \<longrightarrow> \<not> mc_eventHandling (f c)" using h c(1) unfolding phase_ok_def by blast
    show ?thesis using c(1) e f [of c] unfolding c(2) True phase_ok_def by (simp split: chan_phase.splits)
  next
    case False
    moreover from this have "b \<in> B \<longleftrightarrow> b \<in> B'" using B by blast
    ultimately show ?thesis using d simD(4) [OF s, of b d ph] by (simp add: phase_ok_def)
  qed
  show "(at_channel a f chs b = None) = (sp_chan sp b = None)" for b using simD(3) [OF s, of b] by (auto simp: at_channel_def)
qed (use simD(2,5,6) [OF s] in auto)

lemma sim_run:
  "sim {} (chs, p) sp \<Longrightarrow> run_ops spec_step xs sp = Some sp' \<Longrightarrow>
   returns (run_ops (chan_step update remove table) xs (chs, p)) (\<lambda>s'. sim {} s' sp')"
proof (induction xs arbitrary: chs p sp)
  case (Cons x xs)
  then obtain sp1 where sp1: "spec_step x sp = Some sp1" "run_ops spec_step xs sp1 = Some sp'"
    by (auto simp: Option.bind_eq_Some_conv)
  have "returns (run_ops (chan_step update remove table) xs s) (\<lambda>s'. sim {} s' sp')" if "sim {} s sp1" for s
    using Cons.IH [of "fst s" "snd s", OF _ sp1(2)] that by simp
  then show ?case using returns_mono [OF sim_step [OF Cons.prems(1) sp1(1), simplified]] by simp
qed simp

lemma sim_new: "sim {} (\<lambda>_. None, new) spec_new"
  using inv_new [of "chan_keys (\<lambda>_. None)"] by (simp add: sim_def spec_new_def new_empty chan_keys_def)

lemma protocol_served:
  assumes "run_ops spec_step xs spec_new = Some sp"
  shows "returns (run_ops (chan_step update remove table) xs (\<lambda>_. None, new))
    (\<lambda>s. watch (snd s) = spec_watch sp \<and> table (snd s) = sp_owner sp \<and> dom (fst s) = dom (sp_chan sp))"
  using sim_run [OF sim_new assms]
proof (rule returns_mono)
  fix s assume "sim {} s sp"
  then have s: "sim {} (fst s, snd s) sp" by simp
  show "watch (snd s) = spec_watch sp \<and> table (snd s) = sp_owner sp \<and> dom (fst s) = dom (sp_chan sp)"
    using sim_watch [OF s] simD(2,3) [OF s] by (auto simp: dom_def fun_eq_iff)
qed

end

section \<open>EPollPoller fulfils it\<close>

definition ep_inv :: "(nat \<rightharpoonup> int \<times> int) \<Rightarrow> EPollPoller \<Rightarrow> bool" where
  "ep_inv keys p \<longleftrightarrow>
     (\<forall>fd a. ep_channels p fd = Some a \<longrightarrow>
        (\<exists>m. keys a = Some (fd, kAdded) \<and> ep_interest p fd = Some (m, a)) \<or>
        keys a = Some (fd, kDeleted) \<and> ep_interest p fd = None) \<and>
     (\<forall>fd. ep_channels p fd = None \<longrightarrow> ep_interest p fd = None)"

definition ep_watch :: "EPollPoller \<Rightarrow> int \<Rightarrow> u32" where
  "ep_watch p fd = (case ep_interest p fd of None \<Rightarrow> 0 | Some (m, _) \<Rightarrow> m)"

lemmas kstates = kNew_def kAdded_def kDeleted_def

lemma at_channel_same: "chs a = Some c \<Longrightarrow> mc_index c = i \<Longrightarrow> at_channel a (set_index i) chs = chs"
  by (auto simp: at_channel_def set_index_def fun_eq_iff)

lemma ep_invD:
  assumes "ep_inv keys p"
  shows "ep_channels p fd = Some a \<Longrightarrow>
      (\<exists>m. keys a = Some (fd, kAdded) \<and> ep_interest p fd = Some (m, a)) \<or> keys a = Some (fd, kDeleted) \<and> ep_interest p fd = None"
    and "ep_channels p fd = None \<Longrightarrow> ep_interest p fd = None"
  using assms unfolding ep_inv_def by blast+

text \<open>What \<open>updateChannel\<close> does: it deletes a registered channel without events, and (re-)registers every other.\<close>

lemma ep_updateChannel_eq:
  assumes i: "ep_inv (chan_keys chs) p" and c: "chs a = Some c"
    and t: "ep_channels p (mc_fd c) = Some a \<or> ep_channels p (mc_fd c) = None \<and> mc_index c = -1"
  shows "ep_updateChannel a (chs, p) = Some (
    if mc_index c = kAdded \<and> mc_events c = 0
    then (at_channel a (set_index kDeleted) chs, p\<lparr>ep_interest := (ep_interest p)(mc_fd c := None)\<rparr>)
    else (at_channel a (set_index kAdded) chs,
          p\<lparr>ep_channels := (ep_channels p)(mc_fd c \<mapsto> a), ep_interest := (ep_interest p)(mc_fd c \<mapsto> (mc_events c, a))\<rparr>))"
  using t
proof
  assume r: "ep_channels p (mc_fd c) = Some a"
  have u: "(ep_channels p)(mc_fd c \<mapsto> a) = ep_channels p" using r by auto
  from ep_invD(1) [OF i r] chan_keys_Some [of chs a c, OF c]
  have "mc_index c = kAdded \<and> ep_interest p (mc_fd c) \<noteq> None \<or> mc_index c = kDeleted \<and> ep_interest p (mc_fd c) = None" by auto
  then show ?thesis
    using r c u at_channel_same [of chs a c]
    by (auto simp: ep_updateChannel_def ep_update_def kstates isNoneEvent_def kNoneEvent_def set_index_def)
next
  assume "ep_channels p (mc_fd c) = None \<and> mc_index c = -1"
  then show ?thesis using c ep_invD(2) [OF i, of "mc_fd c"]
    by (simp add: ep_updateChannel_def ep_update_def kstates set_index_def Let_def)
qed

lemma ep_removeChannel_eq:
  assumes i: "ep_inv (chan_keys chs) p" and c: "chs a = Some c" and r: "ep_channels p (mc_fd c) = Some a" and e: "mc_events c = 0"
  shows "ep_removeChannel a (chs, p) = Some (at_channel a (set_index kNew) chs,
    p\<lparr>ep_channels := (ep_channels p)(mc_fd c := None), ep_interest := (ep_interest p)(mc_fd c := None)\<rparr>)"
proof -
  from ep_invD(1) [OF i r] chan_keys_Some [of chs a c, OF c]
  have "mc_index c = kAdded \<and> ep_interest p (mc_fd c) \<noteq> None \<or> mc_index c = kDeleted \<and> ep_interest p (mc_fd c) = None" by auto
  moreover have "(ep_interest p)(mc_fd c := None) = ep_interest p" if "ep_interest p (mc_fd c) = None" using that by auto
  ultimately show ?thesis using c r e
    by (auto simp: ep_removeChannel_def ep_update_def kstates isNoneEvent_def kNoneEvent_def Let_def)
qed

lemma ep_update_ok:
  fixes chs :: "'h chans"
  assumes i: "ep_inv (chan_keys chs) p" and c: "chs a = Some c"
    and t: "ep_channels p (mc_fd c) = Some a \<or> ep_channels p (mc_fd c) = None \<and> mc_index c = -1"
  shows "returns (ep_updateChannel a (chs, p)) (\<lambda>(chs', p'). ep_inv (chan_keys chs') p' \<and> same_but_index chs chs' \<and>
     (\<forall>b. b \<noteq> a \<longrightarrow> chs' b = chs b) \<and> ep_channels p' = (ep_channels p)(mc_fd c \<mapsto> a) \<and>
     ep_watch p' = (ep_watch p)(mc_fd c := mc_events c))"
proof -
  have o: "b \<noteq> a" if "ep_channels p fd = Some b" "fd \<noteq> mc_fd c" for fd b
    using ep_invD(1) [OF i that(1)] that(2) chan_keys_Some [of chs a c, OF c] by auto
  have r: "ep_channels p (mc_fd c) = Some a" if "mc_index c = kAdded" using t that by (auto simp: kstates)
  show ?thesis
    unfolding ep_updateChannel_eq [OF assms]
    using ep_invD [OF i] o r
    by (auto simp: ep_inv_def chan_keys_index [of chs a c, OF c] ep_watch_def fun_eq_iff)
qed

lemma ep_remove_ok:
  fixes chs :: "'h chans"
  assumes i: "ep_inv (chan_keys chs) p" and c: "chs a = Some c" and r: "ep_channels p (mc_fd c) = Some a" and e: "mc_events c = 0"
  shows "returns (ep_removeChannel a (chs, p)) (\<lambda>(chs', p'). ep_inv (chan_keys chs') p' \<and> same_but_index chs chs' \<and>
     (\<forall>b. b \<noteq> a \<longrightarrow> b \<notin> ran (ep_channels p) \<longrightarrow> chs' b = chs b) \<and> ep_channels p' = (ep_channels p)(mc_fd c := None) \<and>
     ep_watch p' = (ep_watch p)(mc_fd c := 0))"
proof -
  have o: "b \<noteq> a" if "ep_channels p fd = Some b" "fd \<noteq> mc_fd c" for fd b
    using ep_invD(1) [OF i that(1)] that(2) chan_keys_Some [of chs a c, OF c] by auto
  show ?thesis
    unfolding ep_removeChannel_eq [OF assms]
    using ep_invD [OF i] o
    by (auto simp: ep_inv_def chan_keys_index [of chs a c, OF c] ep_watch_def fun_eq_iff)
qed

interpretation ep: channel_poller ep_updateChannel ep_removeChannel ep_inv ep_channels ep_watch "\<lambda>_ _. True" EPollPoller_new
proof (unfold_locales, goal_cases)
  case (6 keys p a)
  then have "b \<noteq> a" if "ep_channels p fd = Some b" for fd b using that by (auto simp: ran_def)
  then show ?case using 6(1) by (auto simp: ep_inv_def)
next
  case (4 keys p fd a)
  then show ?case unfolding ep_inv_def by blast
next
  case (5 keys p a fd)
  then show ?case unfolding ep_inv_def by (metis fun_upd_apply option.distinct(1))
next
  case (7 chs p a c)
  then show ?case using ep_update_ok [of chs p a c] by simp
next
  case (8 chs p a c)
  then show ?case using ep_remove_ok [of chs p a c] by simp
qed (simp_all add: ep_inv_def EPollPoller_new_def ep_watch_def fun_eq_iff)

section \<open>PollPoller fulfils it\<close>

text \<open>An entry with a negative descriptor is ignored by the kernel and stands for a channel without events.\<close>

definition real_fd :: "int \<Rightarrow> int" where
  "real_fd fd = (if fd < 0 then - fd - 1 else fd)"

text \<open>The table and the entries describe each other: the entry of a channel is at its index.\<close>

definition pp_inv :: "(nat \<rightharpoonup> int \<times> int) \<Rightarrow> PollPoller \<Rightarrow> bool" where
  "pp_inv keys p \<longleftrightarrow>
     (\<forall>fd a. pp_channels p fd = Some a \<longrightarrow> 0 \<le> fd \<and>
        (\<exists>i < length (pp_pollfds p). keys a = Some (fd, int i) \<and> real_fd (pfd_fd (pp_pollfds p ! i)) = fd)) \<and>
     (\<forall>i < length (pp_pollfds p). \<exists>a. pp_channels p (real_fd (pfd_fd (pp_pollfds p ! i))) = Some a \<and>
        keys a = Some (real_fd (pfd_fd (pp_pollfds p ! i)), int i))"

definition pp_entry :: "PollPoller \<Rightarrow> int \<Rightarrow> pollfd option" where
  "pp_entry p fd = find (\<lambda>pfd. real_fd (pfd_fd pfd) = fd) (pp_pollfds p)"

definition pp_watch :: "PollPoller \<Rightarrow> int \<Rightarrow> u32" where
  "pp_watch p fd = (case pp_entry p fd of None \<Rightarrow> 0 | Some pfd \<Rightarrow> if pfd_fd pfd < 0 then 0 else ucast (pfd_events pfd))"

definition pp_removable :: "PollPoller \<Rightarrow> int \<Rightarrow> bool" where
  "pp_removable p fd = (case pp_entry p fd of None \<Rightarrow> False | Some pfd \<Rightarrow> pfd_fd pfd < 0 \<and> pfd_events pfd = 0)"

lemma real_fd_simps [simp]: "0 \<le> fd \<Longrightarrow> real_fd fd = fd" "0 \<le> fd \<Longrightarrow> real_fd (- fd - 1) = fd" "0 \<le> real_fd fd"
  by (auto simp: real_fd_def)

lemma real_fd_cases: "real_fd x = fd \<Longrightarrow> x = fd \<or> x = - fd - 1"
  by (auto simp: real_fd_def split: if_splits)

lemma pp_invD:
  assumes "pp_inv keys p"
  shows "pp_channels p fd = Some a \<Longrightarrow> 0 \<le> fd \<and>
      (\<exists>i < length (pp_pollfds p). keys a = Some (fd, int i) \<and> real_fd (pfd_fd (pp_pollfds p ! i)) = fd)"
    and "i < length (pp_pollfds p) \<Longrightarrow> \<exists>a. pp_channels p (real_fd (pfd_fd (pp_pollfds p ! i))) = Some a \<and>
        keys a = Some (real_fd (pfd_fd (pp_pollfds p ! i)), int i)"
  using assms unfolding pp_inv_def by blast+

lemma pp_entry_at:
  assumes i: "pp_inv keys p" and t: "pp_channels p fd = Some a" and k: "keys a = Some (fd, int n)"
  shows "n < length (pp_pollfds p)" and "pp_entry p fd = Some (pp_pollfds p ! n)"
    and "real_fd (pfd_fd (pp_pollfds p ! n)) = fd"
    and "j < length (pp_pollfds p) \<Longrightarrow> real_fd (pfd_fd (pp_pollfds p ! j)) = fd \<Longrightarrow> j = n"
proof -
  show u: "j = n" if "j < length (pp_pollfds p)" "real_fd (pfd_fd (pp_pollfds p ! j)) = fd" for j
    using pp_invD(2) [OF i that(1)] that(2) t k by auto
  from pp_invD(1) [OF i t] k show n: "n < length (pp_pollfds p)" and r: "real_fd (pfd_fd (pp_pollfds p ! n)) = fd" by auto
  show "pp_entry p fd = Some (pp_pollfds p ! n)"
    unfolding pp_entry_def find_Some_iff using n r u by (metis order_less_trans less_irrefl)
qed

lemma pp_entry_None: "pp_inv keys p \<Longrightarrow> pp_channels p fd = None \<Longrightarrow> pp_entry p fd = None"
  unfolding pp_entry_def find_None_iff by (metis in_set_conv_nth option.distinct(1) pp_invD(2))

text \<open>The entries determine each other through the invariant, so it is enough to know the entry of every descriptor.\<close>

lemma pp_entry_other:
  assumes "pp_inv keys p" and "pp_channels p fd = Some a" and "keys a = Some (fd, int n)"
    and "pp_inv keys' p'" and "pp_channels p' fd = Some a" and "keys' a = Some (fd, int n')"
    and "pp_pollfds p' ! n' = pp_pollfds p ! n"
  shows "pp_entry p' fd = pp_entry p fd"
  using pp_entry_at(2) [OF assms(1-3)] pp_entry_at(2) [OF assms(4-6)] assms(7) by simp

lemma mask_ok_short: "mask_ok m \<Longrightarrow> ucast (ucast m :: 16 word) = m"
proof -
  assume "mask_ok m"
  then have "m = m AND 7" by (simp add: mask_ok_def kReadEvent_def kWriteEvent_def epoll_flags)
  then have "m \<le> 7" by (metis word_and_le1)
  then have "unat m \<le> 7" by (simp add: word_le_nat_alt)
  then show ?thesis by (simp add: unsigned_ucast_eq word_unat_eq_iff unsigned_take_bit_eq take_bit_nat_eq_self)
qed

lemma find_snoc: "find P (xs @ [y]) = (case find P xs of None \<Rightarrow> if P y then Some y else None | Some x \<Rightarrow> Some x)"
  by (induction xs) auto

lemma pp_update_fresh:
  fixes chs :: "'h chans"
  assumes i: "pp_inv (chan_keys chs) p" and c: "chs a = Some c" and fd: "0 \<le> mc_fd c"
    and t: "pp_channels p (mc_fd c) = None" and x: "mc_index c = -1"
  defines "pfd \<equiv> \<lparr>pfd_fd = mc_fd c, pfd_events = ucast (mc_events c), pfd_revents = 0\<rparr>"
  defines "p' \<equiv> p\<lparr>pp_pollfds := pp_pollfds p @ [pfd], pp_channels := (pp_channels p)(mc_fd c \<mapsto> a)\<rparr>"
  shows "pp_updateChannel a (chs, p) = Some (at_channel a (set_index (int (length (pp_pollfds p)))) chs, p')"
    and "pp_inv (chan_keys (at_channel a (set_index (int (length (pp_pollfds p)))) chs)) p'"
    and "pp_entry p' = (pp_entry p)(mc_fd c \<mapsto> pfd)"
proof -
  have k: "chan_keys chs a = Some (mc_fd c, -1)" using chan_keys_Some [of chs a c, OF c] x by simp
  show "pp_updateChannel a (chs, p) = Some (at_channel a (set_index (int (length (pp_pollfds p)))) chs, p')"
    using c t x by (simp add: pp_updateChannel_def p'_def pfd_def Let_def)
  have o: "b \<noteq> a" if "pp_channels p f = Some b" for f b using pp_invD(1) [OF i that] k by auto
  show "pp_inv (chan_keys (at_channel a (set_index (int (length (pp_pollfds p)))) chs)) p'"
    unfolding chan_keys_index [of chs a c, OF c] pp_inv_def p'_def
    using pp_invD [OF i] o t fd
    by (force simp: pfd_def nth_append less_Suc_eq)
  show "pp_entry p' = (pp_entry p)(mc_fd c \<mapsto> pfd)"
    using pp_entry_None [OF i t] fd by (auto simp: fun_eq_iff pp_entry_def p'_def pfd_def find_snoc split: option.splits)
qed

lemma pp_update_registered:
  fixes chs :: "'h chans"
  assumes i: "pp_inv (chan_keys chs) p" and c: "chs a = Some c" and t: "pp_channels p (mc_fd c) = Some a"
  defines "pfd \<equiv> \<lparr>pfd_fd = (if mc_events c = 0 then - mc_fd c - 1 else mc_fd c), pfd_events = ucast (mc_events c), pfd_revents = 0\<rparr>"
  defines "p' \<equiv> p\<lparr>pp_pollfds := (pp_pollfds p)[nat (mc_index c) := pfd]\<rparr>"
  shows "pp_updateChannel a (chs, p) = Some (chs, p')" and "pp_inv (chan_keys chs) p'"
    and "pp_entry p' = (pp_entry p)(mc_fd c \<mapsto> pfd)"
proof -
  note kc = chan_keys_Some [of chs a c, OF c]
  from pp_invD(1) [OF i t] obtain n where fd: "0 \<le> mc_fd c" and k: "chan_keys chs a = Some (mc_fd c, int n)" by auto
  then have x: "mc_index c = int n" using kc by simp
  note e = pp_entry_at [OF i t k]
  show "pp_updateChannel a (chs, p) = Some (chs, p')"
    using c t x e(1) real_fd_cases [OF e(3)]
    by (auto simp: pp_updateChannel_def p'_def pfd_def Let_def isNoneEvent_def kNoneEvent_def)
  have r: "real_fd (pfd_fd pfd) = mc_fd c" using fd by (simp add: pfd_def)
  have nth: "real_fd (pfd_fd (pp_pollfds p' ! j)) = real_fd (pfd_fd (pp_pollfds p ! j))" if "j < length (pp_pollfds p)" for j
    using that e(1,3) r x by (auto simp: p'_def nth_list_update)
  show i': "pp_inv (chan_keys chs) p'"
  proof -
    have "length (pp_pollfds p') = length (pp_pollfds p)" "pp_channels p' = pp_channels p" by (simp_all add: p'_def)
    then show ?thesis using i nth by (simp add: pp_inv_def cong: conj_cong)
  qed
  have "pp_entry p' f = ((pp_entry p)(mc_fd c \<mapsto> pfd)) f" for f
  proof (cases "pp_channels p f")
    case None
    then have "pp_channels p' f = None" by (simp add: p'_def)
    then show ?thesis using pp_entry_None [OF i None] pp_entry_None [OF i'] None t by auto
  next
    case (Some b)
    then obtain m where m: "chan_keys chs b = Some (f, int m)" using pp_invD(1) [OF i Some] by auto
    have "pp_channels p' f = Some b" using Some by (simp add: p'_def)
    then have "pp_entry p' f = Some (pp_pollfds p' ! m)" using pp_entry_at(2) [OF i' _ m] by simp
    moreover have "pp_entry p f = Some (pp_pollfds p ! m)" using pp_entry_at(2) [OF i Some m] .
    moreover have "m = n \<longleftrightarrow> f = mc_fd c" using Some t k m pp_entry_at(3) [OF i Some m] e(3) by auto
    ultimately show ?thesis using x e(1) by (auto simp: p'_def)
  qed
  then show "pp_entry p' = (pp_entry p)(mc_fd c \<mapsto> pfd)" by (rule ext)
qed

lemma pp_entry_fun:
  assumes "pp_entry p' = (pp_entry p)(fd \<mapsto> pfd)"
  shows "pp_watch p' = (pp_watch p)(fd := if pfd_fd pfd < 0 then 0 else ucast (pfd_events pfd))"
    and "pp_removable p' = (pp_removable p)(fd := (pfd_fd pfd < 0 \<and> pfd_events pfd = 0))"
  using assms by (auto simp: fun_eq_iff pp_watch_def pp_removable_def)

lemma pp_update_ok:
  fixes chs :: "'h chans"
  assumes i: "pp_inv (chan_keys chs) p" and c: "chs a = Some c" and fd: "0 \<le> mc_fd c" and m: "mask_ok (mc_events c)"
    and t: "pp_channels p (mc_fd c) = Some a \<or> pp_channels p (mc_fd c) = None \<and> mc_index c = -1"
  shows "returns (pp_updateChannel a (chs, p)) (\<lambda>(chs', p'). pp_inv (chan_keys chs') p' \<and> same_but_index chs chs' \<and>
     (\<forall>b. b \<noteq> a \<longrightarrow> chs' b = chs b) \<and> pp_channels p' = (pp_channels p)(mc_fd c \<mapsto> a) \<and>
     pp_watch p' = (pp_watch p)(mc_fd c := mc_events c) \<and>
     (\<forall>fd. fd \<noteq> mc_fd c \<longrightarrow> 0 \<le> fd \<longrightarrow> pp_removable p' fd = pp_removable p fd) \<and>
     (pp_channels p (mc_fd c) = Some a \<and> mc_events c = 0 \<longrightarrow> pp_removable p' (mc_fd c)))"
  using t
proof
  assume r: "pp_channels p (mc_fd c) = Some a"
  note u = pp_update_registered [OF i c r]
  show ?thesis using fd mask_ok_short [OF m] r u(2) pp_entry_fun [OF u(3)] unfolding u(1) by (auto simp: fun_upd_idem)
next
  assume "pp_channels p (mc_fd c) = None \<and> mc_index c = -1"
  then have r: "pp_channels p (mc_fd c) = None" "mc_index c = -1" by auto
  note u = pp_update_fresh [OF i c fd r]
  show ?thesis using fd mask_ok_short [OF m] r unfolding u(1)
    by (auto simp: u(2) pp_entry_fun [OF u(3)])
qed

text \<open>Removing the entry at an index: the last entry takes its place.\<close>

definition swap_remove :: "nat \<Rightarrow> 'a list \<Rightarrow> 'a list" where
  "swap_remove k xs = butlast (xs[k := last xs])"

lemma length_swap_remove [simp]: "length (swap_remove k xs) = length xs - 1"
  by (simp add: swap_remove_def)

lemma nth_swap_remove:
  "k < length xs \<Longrightarrow> j < length xs - 1 \<Longrightarrow> swap_remove k xs ! j = (if j = k then xs ! (length xs - 1) else xs ! j)"
  using last_conv_nth [of xs] by (cases "xs = []") (auto simp: swap_remove_def nth_butlast nth_list_update)

lemma swap_remove_swap:
  assumes "k < length xs"
  shows "butlast (xs[k := xs ! (length xs - 1), length xs - 1 := x]) = swap_remove k xs"
  using assms last_conv_nth [of xs]
  by (cases "xs = []") (auto simp: swap_remove_def nth_butlast nth_list_update intro!: nth_equalityI)

lemma swap_remove_last: "swap_remove (length xs - 1) xs = butlast xs"
  by (simp add: swap_remove_def butlast_list_update)

lemma pp_remove_eq:
  fixes chs :: "'h chans"
  assumes i: "pp_inv (chan_keys chs) p" and c: "chs a = Some c" and t: "pp_channels p (mc_fd c) = Some a"
    and e0: "mc_events c = 0" and rm: "pp_removable p (mc_fd c)"
  defines "k \<equiv> nat (mc_index c)" and "n \<equiv> length (pp_pollfds p)"
  defines "p' \<equiv> p\<lparr>pp_channels := (pp_channels p)(mc_fd c := None), pp_pollfds := swap_remove (nat (mc_index c)) (pp_pollfds p)\<rparr>"
  obtains b fb where "chan_keys chs b = Some (fb, int (n - 1))" and "pp_channels p fb = Some b" and "k < n"
    and "real_fd (pfd_fd (pp_pollfds p ! (n - 1))) = fb" and "mc_index c = int k" and "k = n - 1 \<longleftrightarrow> fb = mc_fd c"
    and "pp_removeChannel a (chs, p) = Some (if k = n - 1 then chs else at_channel b (set_index (int k)) chs, p')"
proof -
  from pp_invD(1) [OF i t] obtain m where fd: "0 \<le> mc_fd c" and kk: "chan_keys chs a = Some (mc_fd c, int m)" by auto
  have x: "mc_index c = int m" and km: "k = m" using kk chan_keys_Some [of chs a c, OF c] by (simp_all add: k_def)
  have nx: "nat (mc_index c) = m" "0 \<le> mc_index c" using x by simp_all
  note e = pp_entry_at [OF i t kk]
  have kn: "k < n" using e(1) km by (simp add: n_def)
  have "n - 1 < length (pp_pollfds p)" using kn by (auto simp: n_def)
  from pp_invD(2) [OF i this] obtain b where
    b: "pp_channels p (real_fd (pfd_fd (pp_pollfds p ! (n - 1)))) = Some b"
       "chan_keys chs b = Some (real_fd (pfd_fd (pp_pollfds p ! (n - 1))), int (n - 1))" by blast
  let ?fb = "real_fd (pfd_fd (pp_pollfds p ! (n - 1)))"
  have iff: "k = n - 1 \<longleftrightarrow> ?fb = mc_fd c" using e(3) e(4) [of "n - 1"] kn km by (auto simp: n_def)
  have neg: "pfd_fd (pp_pollfds p ! m) = - mc_fd c - 1" "pfd_events (pp_pollfds p ! m) = 0"
    using rm e(2) real_fd_cases [OF e(3)] fd by (auto simp: pp_removable_def)
  have ne: "pp_pollfds p \<noteq> []" using e(1) by auto
  have lst: "last (pp_pollfds p) = pp_pollfds p ! (n - 1)" using ne by (simp add: last_conv_nth n_def)
  have endfd: "(if pfd_fd (last (pp_pollfds p)) < 0 then - pfd_fd (last (pp_pollfds p)) - 1 else pfd_fd (last (pp_pollfds p))) = ?fb"
    by (simp add: lst real_fd_def)
  have cb: "chs b \<noteq> None" using b(2) by (auto simp: chan_keys_def)
  have "pp_removeChannel a (chs, p) = Some (if k = n - 1 then chs else at_channel b (set_index (int k)) chs, p')"
  proof (cases "k = n - 1")
    case True
    then show ?thesis using c t e0 nx e(1) neg km swap_remove_last [of "pp_pollfds p"]
      by (simp add: pp_removeChannel_def p'_def isNoneEvent_def kNoneEvent_def n_def Let_def)
  next
    case False
    then have "((pp_channels p)(mc_fd c := None)) ?fb = Some b" using b(1) iff by auto
    then show ?thesis using False c t e0 nx e(1) neg km endfd cb swap_remove_swap [OF e(1)]
      by (simp add: pp_removeChannel_def p'_def isNoneEvent_def kNoneEvent_def n_def Let_def)
  qed
  then show ?thesis using that b kn iff x km by auto
qed

lemma pp_entry_gone:
  assumes "pp_entry p' = (pp_entry p)(fd := None)"
  shows "pp_watch p' = (pp_watch p)(fd := 0)" and "f \<noteq> fd \<Longrightarrow> pp_removable p' f = pp_removable p f"
  using assms by (auto simp: fun_eq_iff pp_watch_def pp_removable_def)

lemma pp_remove_ok:
  fixes chs :: "'h chans"
  assumes i: "pp_inv (chan_keys chs) p" and c: "chs a = Some c" and t: "pp_channels p (mc_fd c) = Some a"
    and e0: "mc_events c = 0" and rm: "pp_removable p (mc_fd c)"
  shows "returns (pp_removeChannel a (chs, p)) (\<lambda>(chs', p'). pp_inv (chan_keys chs') p' \<and> same_but_index chs chs' \<and>
     (\<forall>b. b \<noteq> a \<longrightarrow> b \<notin> ran (pp_channels p) \<longrightarrow> chs' b = chs b) \<and> pp_channels p' = (pp_channels p)(mc_fd c := None) \<and>
     pp_watch p' = (pp_watch p)(mc_fd c := 0) \<and>
     (\<forall>fd. fd \<noteq> mc_fd c \<longrightarrow> 0 \<le> fd \<longrightarrow> pp_removable p' fd = pp_removable p fd))"
proof -
  obtain b fb n k where kb: "chan_keys chs b = Some (fb, int (n - 1))" and tb: "pp_channels p fb = Some b" and kn: "k < n"
    and rb: "real_fd (pfd_fd (pp_pollfds p ! (n - 1))) = fb" and x: "mc_index c = int k" and iff: "k = n - 1 \<longleftrightarrow> fb = mc_fd c"
    and n: "n = length (pp_pollfds p)"
    and eq: "pp_removeChannel a (chs, p) = Some (if k = n - 1 then chs else at_channel b (set_index (int k)) chs,
      p\<lparr>pp_channels := (pp_channels p)(mc_fd c := None), pp_pollfds := swap_remove (nat (mc_index c)) (pp_pollfds p)\<rparr>)"
    using pp_remove_eq [OF assms] by metis
  let ?chs = "if k = n - 1 then chs else at_channel b (set_index (int k)) chs"
  let ?p = "p\<lparr>pp_channels := (pp_channels p)(mc_fd c := None), pp_pollfds := swap_remove (nat (mc_index c)) (pp_pollfds p)\<rparr>"
  have ka: "chan_keys chs a = Some (mc_fd c, int k)" using chan_keys_Some [of chs a c, OF c] x by simp
  obtain cb where cb: "chs b = Some cb" "mc_fd cb = fb" using kb by (auto simp: chan_keys_def)
  have keys: "chan_keys ?chs = (if k = n - 1 then chan_keys chs else (chan_keys chs)(b \<mapsto> (fb, int k)))"
    using cb chan_keys_index [of chs b cb] by simp
  have nth: "pp_pollfds ?p ! j = (if j = k then pp_pollfds p ! (n - 1) else pp_pollfds p ! j)" if "j < n - 1" for j
    using nth_swap_remove [of k "pp_pollfds p" j] kn that x n by simp
  have tab: "pp_channels p f = Some d \<Longrightarrow> \<exists>m<n. chan_keys chs d = Some (f, int m) \<and> real_fd (pfd_fd (pp_pollfds p ! m)) = f \<and>
      (f \<noteq> mc_fd c \<longrightarrow> m \<noteq> k) \<and> (m = n - 1 \<longrightarrow> d = b \<and> f = fb)" for f d
    using pp_invD(1) [OF i, of f d] pp_entry_at(3) [OF i t ka] rb tb unfolding n by auto
  have i': "pp_inv (chan_keys ?chs) ?p"
    unfolding pp_inv_def
  proof (intro conjI allI impI)
    fix f d assume f: "pp_channels ?p f = Some d"
    then have fp: "pp_channels p f = Some d" and ne: "f \<noteq> mc_fd c" by (auto split: if_splits)
    show "0 \<le> f" using pp_invD(1) [OF i fp] by simp
    from tab [OF fp] ne obtain m where m: "m < n" "chan_keys chs d = Some (f, int m)" "real_fd (pfd_fd (pp_pollfds p ! m)) = f" "m \<noteq> k"
      "m = n - 1 \<longrightarrow> d = b \<and> f = fb" by auto
    let ?m = "if m = n - 1 then k else m"
    have "?m < n - 1" using m kn iff ne by auto
    moreover have "d = b \<longleftrightarrow> m = n - 1" using m kb by auto
    ultimately show "\<exists>i<length (pp_pollfds ?p). chan_keys ?chs d = Some (f, int i) \<and> real_fd (pfd_fd (pp_pollfds ?p ! i)) = f"
      using m nth [of ?m] keys rb n by (intro exI [of _ ?m]) (auto split: if_splits)
  next
    fix j assume "j < length (pp_pollfds ?p)"
    then have j: "j < n - 1" by (simp add: n)
    let ?j = "if j = k then n - 1 else j"
    have jn: "?j < n" using j by auto
    from pp_invD(2) [OF i, of ?j] jn n obtain d where d: "pp_channels p (real_fd (pfd_fd (pp_pollfds p ! ?j))) = Some d"
      "chan_keys chs d = Some (real_fd (pfd_fd (pp_pollfds p ! ?j)), int ?j)" by auto
    have "real_fd (pfd_fd (pp_pollfds p ! ?j)) \<noteq> mc_fd c" using pp_entry_at(4) [OF i t ka, of ?j] jn n j by auto
    moreover have "d = b \<longleftrightarrow> j = k" using d kb tb rb j kn by (auto split: if_splits)
    ultimately show "\<exists>a. pp_channels ?p (real_fd (pfd_fd (pp_pollfds ?p ! j))) = Some a \<and>
        chan_keys ?chs a = Some (real_fd (pfd_fd (pp_pollfds ?p ! j)), int j)"
      using d nth [OF j] keys rb j by (intro exI [of _ d]) (auto split: if_splits)
  qed
  have ent: "pp_entry ?p f = ((pp_entry p)(mc_fd c := None)) f" for f
  proof (cases "pp_channels ?p f")
    case None
    then show ?thesis using pp_entry_None [OF i' None] pp_entry_None [OF i, of f] by (auto split: if_splits)
  next
    case (Some d)
    then have fp: "pp_channels p f = Some d" and ne: "f \<noteq> mc_fd c" by (auto split: if_splits)
    from tab [OF fp] ne obtain m where m: "m < n" "chan_keys chs d = Some (f, int m)" "m \<noteq> k" "m = n - 1 \<longrightarrow> d = b \<and> f = fb" by auto
    let ?m = "if m = n - 1 then k else m"
    have ml: "?m < n - 1" using m kn iff ne by auto
    have "d = b \<longleftrightarrow> m = n - 1" using m kb by auto
    then have "chan_keys ?chs d = Some (f, int ?m)" using m keys ml by auto
    then have "pp_entry ?p f = pp_entry p f"
      by (rule pp_entry_other [OF i fp m(2) i' Some]) (use nth [OF ml] m in auto)
    then show ?thesis using ne by simp
  qed
  have "?chs d = chs d" if "d \<notin> ran (pp_channels p)" for d using that ranI [of "pp_channels p" fb b, OF tb] by (cases "d = b") auto
  then show ?thesis unfolding eq using i' pp_entry_gone [OF ext [OF ent]] by simp
qed

interpretation pp: channel_poller pp_updateChannel pp_removeChannel pp_inv pp_channels pp_watch pp_removable PollPoller_new
proof (unfold_locales, goal_cases)
  case (6 keys p a)
  then have "b \<noteq> a" if "pp_channels p fd = Some b" for fd b using that by (auto simp: ran_def)
  then show ?case using 6(1) by (simp add: pp_inv_def) metis
next
  case (4 keys p fd a)
  then show ?case using pp_invD(1) by blast
next
  case (5 keys p a fd)
  have "(keys(a \<mapsto> (fd, -1))) b = Some (f, int i) \<longleftrightarrow> keys b = Some (f, int i)" for b f i using 5(2) by auto
  then show ?case using 5(1) by (simp add: pp_inv_def del: fun_upd_apply)
next
  case (7 chs p a c)
  show ?case by (rule pp_update_ok) (fact 7)+
next
  case (8 chs p a c)
  show ?case by (rule pp_remove_ok) (fact 8)+
qed (simp_all add: pp_inv_def PollPoller_new_def pp_watch_def pp_entry_def fun_eq_iff)

section \<open>The two pollers\<close>

text \<open>
  C23. The two pollers of muduo are interchangeable: for every sequence of operations of channels that respects the
  protocol of the class (checked by \<open>spec_step\<close>), neither poller fails an assertion or a fatal system call, both
  ask the kernel for exactly the current events of the registered channels, and both have the
  same table of channels. For \<open>PollPoller\<close> this includes the moves of entries in the vector of
  descriptors and the indices stored in other channels.
\<close>

theorem pollers_agree:
  assumes "run_ops spec_step xs spec_new = Some sp"
  shows "\<exists>chs p chs' q.
    run_ops (chan_step ep_updateChannel ep_removeChannel ep_channels) xs (\<lambda>_. None, EPollPoller_new) = Some (chs :: 'h chans, p) \<and>
    run_ops (chan_step pp_updateChannel pp_removeChannel pp_channels) xs (\<lambda>_. None, PollPoller_new) = Some (chs' :: 'h chans, q) \<and>
    ep_watch p = spec_watch sp \<and> pp_watch q = spec_watch sp \<and> ep_channels p = sp_owner sp \<and> pp_channels q = sp_owner sp"
  using ep.protocol_served [OF assms] pp.protocol_served [OF assms] unfolding returns_iff by fastforce

definition two_channels :: "chan_op list" where
  "two_channels = [Create 0 5, EnableReading 0, Create 1 6, EnableWriting 1, DisableAll 0, RemoveChan 0, Destroy 0, EnableReading 1]"

theorem pollers_agree_witness:
  "\<exists>chs p chs' q.
    run_ops (chan_step ep_updateChannel ep_removeChannel ep_channels) two_channels (\<lambda>_. None, EPollPoller_new) = Some (chs :: unit chans, p) \<and>
    run_ops (chan_step pp_updateChannel pp_removeChannel pp_channels) two_channels (\<lambda>_. None, PollPoller_new) = Some (chs' :: unit chans, q) \<and>
    ep_watch p 5 = 0 \<and> pp_watch q 5 = 0 \<and> ep_watch p 6 = 7 \<and> pp_watch q 6 = 7"
proof -
  obtain sp where sp: "run_ops spec_step two_channels spec_new = Some sp" and w: "spec_watch sp 5 = 0" "spec_watch sp 6 = 7"
    by (simp add: two_channels_def spec_new_def spec_mask_def spec_watch_def kReadEvent_def kWriteEvent_def kNoneEvent_def epoll_flags)
  show ?thesis using pollers_agree [where 'h = unit, OF sp] w by auto
qed

text \<open>Outside the protocol they differ. A channel that is removed keeps its index in \<open>PollPoller\<close>, so it cannot be
  registered again; a channel that is registered without events cannot be removed from
  it; and \<open>EPollPoller\<close> registers a channel without events again when it is disabled twice.\<close>

lemma pollers_differ:
  defines "ep \<equiv> \<lambda>xs. run_ops (chan_step ep_updateChannel ep_removeChannel ep_channels) xs (\<lambda>_. None :: unit MChannel option, EPollPoller_new)"
    and "pp \<equiv> \<lambda>xs. run_ops (chan_step pp_updateChannel pp_removeChannel pp_channels) xs (\<lambda>_. None :: unit MChannel option, PollPoller_new)"
  shows "ep [Create 0 5, EnableReading 0, DisableAll 0, RemoveChan 0, EnableReading 0] \<noteq> None"
    and "pp [Create 0 5, EnableReading 0, DisableAll 0, RemoveChan 0, EnableReading 0] = None"
    and "ep [Create 0 5, DisableAll 0, RemoveChan 0] \<noteq> None"
    and "pp [Create 0 5, DisableAll 0, RemoveChan 0] = None"
    and "map_option (\<lambda>s. ep_interest (snd s) 5) (ep [Create 0 5, EnableReading 0, DisableAll 0]) = Some None"
    and "map_option (\<lambda>s. ep_interest (snd s) 5) (ep [Create 0 5, EnableReading 0, DisableAll 0, DisableAll 0]) = Some (Some (0, 0))"
  by (simp_all add: assms MChannel_new_def EPollPoller_new_def PollPoller_new_def enableReading_def disableAll_def MChannel_update_def
      MChannel_remove_def ep_updateChannel_def ep_removeChannel_def ep_update_def pp_updateChannel_def pp_removeChannel_def
      at_channel_def set_index_def isNoneEvent_def kNoneEvent_def kReadEvent_def epoll_flags kstates)

section \<open>Active channels and their dispatch\<close>

text \<open>The active channels are those the kernel reported, in its order, each with its events.\<close>

lemma ep_fill_ok:
  assumes "\<And>a e. (a, e) \<in> set evs \<Longrightarrow> chs a \<noteq> None"
  shows "returns (ep_fillActiveChannels evs chs) (\<lambda>(chs', active). active = map fst evs \<and> dom chs' = dom chs \<and>
    (distinct (map fst evs) \<longrightarrow> (\<forall>(a, e) \<in> set evs. map_option mc_revents (chs' a) = Some e)) \<and>
    (\<forall>a. a \<notin> set (map fst evs) \<longrightarrow> chs' a = chs a))"
  using assms
proof (induction evs arbitrary: chs)
  case (Cons x evs)
  obtain a e where x: "x = (a, e)" by fastforce
  obtain c where c: "chs a = Some c" using Cons.prems [of a e] x by auto
  let ?chs = "at_channel a (set_revents e) chs"
  have "returns (ep_fillActiveChannels evs ?chs) (\<lambda>(chs', active). active = map fst evs \<and> dom chs' = dom ?chs \<and>
    (distinct (map fst evs) \<longrightarrow> (\<forall>(a, e) \<in> set evs. map_option mc_revents (chs' a) = Some e)) \<and>
    (\<forall>a. a \<notin> set (map fst evs) \<longrightarrow> chs' a = ?chs a))"
    by (rule Cons.IH) (use Cons.prems x in \<open>auto simp: at_channel_def\<close>)
  then obtain chs' where "ep_fillActiveChannels evs ?chs = Some (chs', map fst evs)" "dom chs' = dom ?chs"
    "distinct (map fst evs) \<longrightarrow> (\<forall>(a, e) \<in> set evs. map_option mc_revents (chs' a) = Some e)"
    "\<And>a. a \<notin> set (map fst evs) \<Longrightarrow> chs' a = ?chs a"
    by (auto simp: returns_iff)
  moreover have "dom ?chs = dom chs" by (auto simp: at_channel_def dom_def)
  ultimately show ?case using c by (simp add: x set_revents_def)
qed simp

text \<open>If handlers do not change the channel, the dispatch runs close, error, read, write, and leaves the channel unmarked.\<close>

definition m_dispatched :: "'h MChannel \<Rightarrow> 'h list" where
  "m_dispatched c =
     (let r = mc_revents c; opt = (\<lambda>b f. if b then (case f of None \<Rightarrow> [] | Some h \<Rightarrow> [h]) else [])
      in opt (r AND EPOLLHUP \<noteq> 0 \<and> r AND EPOLLIN = 0) (mc_closeCallback c) @
         opt (r AND (EPOLLERR OR POLLNVAL) \<noteq> 0) (mc_errorCallback c) @
         opt (r AND (EPOLLIN OR EPOLLPRI OR POLLRDHUP) \<noteq> 0) (mc_readCallback c) @
         opt (r AND EPOLLOUT \<noteq> 0) (mc_writeCallback c))"

lemma handleEventWithGuard_dispatched:
  assumes "\<And>h s s'. run h s = Some s' \<Longrightarrow> chan s' = chan s"
    and m: "\<And>f s. chan (modify f s) = f (chan s)"
  shows "handleEventWithGuard run chan modify s =
    map_option (modify (\<lambda>c. c\<lparr>mc_eventHandling := False\<rparr>))
      (run_all run (m_dispatched (chan s)) (modify (\<lambda>c. c\<lparr>mc_eventHandling := True\<rparr>) s))"
proof -
  have c: "chan s' = chan s" if "run_all run hs s = Some s'" for hs s s' using run_all_chan [of run chan] assms(1) that by blast
  have call: "(if b then call_opt run f s else Some s) = run_all run (if b then (case f of None \<Rightarrow> [] | Some h \<Rightarrow> [h]) else []) s" for b f s
    by (simp add: call_opt_run_all)
  let ?s = "modify (\<lambda>c. c\<lparr>mc_eventHandling := True\<rparr>) s"
  have d: "m_dispatched (chan s) = m_dispatched (chan ?s)" by (simp add: m m_dispatched_def)
  have "handleEventWithGuard run chan modify s =
      run_all run (m_dispatched (chan ?s)) ?s \<bind> (\<lambda>s'. Some (modify (\<lambda>c. c\<lparr>mc_eventHandling := False\<rparr>) s'))"
    unfolding handleEventWithGuard_def m_dispatched_def Let_def call run_all_append bind_assoc
    by (intro Option.bind_cong) (auto dest!: c)
  then show ?thesis unfolding d by (simp add: map_conv_bind_option comp_def)
qed

end
