(* ===== verification/MuduoBuffer.thy ===== *)
theory MuduoBuffer
  imports ByteBuffer Socket
begin

text \<open>
  The class \<open>Buffer\<close> of the bundled muduo library, \<open>src/muduo_source_code/muduo/net/Buffer.h\<close> and
  \<open>Buffer.cc\<close>: bytes between a reader and a writer index, with room in front for a protocol
  header. The vector is a list of bytes, indices and sizes are \<open>size_t\<close> (64-bit words), a pointer into the
  buffer is its offset from \<open>begin()\<close>, and \<open>None\<close> is a failed assertion or an access outside the vector.
  Integers travel in network byte order; the byte sequence of an integer in memory after
  \<open>hostToNetwork\<close> is its big-endian representation.

  The theory shows that the class implements the same byte queue as the server's own buffer
  (the locale \<open>byte_queue\<close>), that integers written at either end are read back, and that \<open>readFd\<close> appends
  exactly what the kernel delivered.
\<close>

section \<open>State and operations\<close>

record MBuffer =
  mb_store :: bytes
  readerIndex :: u64
  writerIndex :: u64

definition kCheapPrepend :: u64 where "kCheapPrepend = 8"
definition kInitialSize :: u64 where "kInitialSize = 1024"
definition kCRLF :: bytes where "kCRLF = [CHR 0x0D, CHR 0x0A]"

definition MBuffer_init :: "u64 \<Rightarrow> MBuffer" where
  "MBuffer_init initialSize =
     \<lparr>mb_store = replicate (unat (kCheapPrepend + initialSize)) (CHR 0x00), readerIndex = kCheapPrepend, writerIndex = kCheapPrepend\<rparr>"

definition MBuffer_new :: MBuffer where
  "MBuffer_new = MBuffer_init kInitialSize"

definition MBuffer_swap :: "MBuffer \<times> MBuffer \<Rightarrow> MBuffer \<times> MBuffer" where
  "MBuffer_swap p = (snd p, fst p)"

definition readableBytes :: "MBuffer \<Rightarrow> u64" where
  "readableBytes b = writerIndex b - readerIndex b"

definition writableBytes :: "MBuffer \<Rightarrow> u64" where
  "writableBytes b = word_of_nat (length (mb_store b)) - writerIndex b"

definition prependableBytes :: "MBuffer \<Rightarrow> u64" where
  "prependableBytes b = readerIndex b"

definition peek :: "MBuffer \<Rightarrow> nat" where
  "peek b = unat (readerIndex b)"

definition beginWrite :: "MBuffer \<Rightarrow> nat" where
  "beginWrite b = unat (writerIndex b)"

text \<open>The searches, from the start of the contents and from a pointer into them; the inner \<open>None\<close> is
  the null pointer.\<close>

definition findCRLF_from :: "nat \<Rightarrow> MBuffer \<Rightarrow> (nat option) option" where
  "findCRLF_from start b =
     (if peek b \<le> start \<and> start \<le> beginWrite b then do {
        xs \<leftarrow> mem_read start (beginWrite b - start) (mb_store b);
        Some (map_option (\<lambda>i. start + i) (find_sub kCRLF xs))
      } else None)"

definition findCRLF :: "MBuffer \<Rightarrow> (nat option) option" where
  "findCRLF b = findCRLF_from (peek b) b"

definition findEOL_from :: "nat \<Rightarrow> MBuffer \<Rightarrow> (nat option) option" where
  "findEOL_from start b =
     (if peek b \<le> start \<and> start \<le> beginWrite b then do {
        xs \<leftarrow> mem_read start (beginWrite b - start) (mb_store b);
        Some (map_option (\<lambda>i. start + i) (find_index (\<lambda>c. c = CHR 0x0A) xs))
      } else None)"

definition findEOL :: "MBuffer \<Rightarrow> (nat option) option" where
  "findEOL b = findEOL_from (peek b) b"

definition retrieveAll :: "MBuffer \<Rightarrow> MBuffer" where
  "retrieveAll b = b\<lparr>readerIndex := kCheapPrepend, writerIndex := kCheapPrepend\<rparr>"

definition retrieve :: "u64 \<Rightarrow> MBuffer \<Rightarrow> MBuffer option" where
  "retrieve len b =
     (if len \<le> readableBytes b
      then Some (if len < readableBytes b then b\<lparr>readerIndex := readerIndex b + len\<rparr> else retrieveAll b)
      else None)"

definition retrieveUntil :: "nat \<Rightarrow> MBuffer \<Rightarrow> MBuffer option" where
  "retrieveUntil p b = (if peek b \<le> p \<and> p \<le> beginWrite b then retrieve (word_of_nat (p - peek b)) b else None)"

definition retrieveInt64 :: "MBuffer \<Rightarrow> MBuffer option" where "retrieveInt64 b = retrieve 8 b"
definition retrieveInt32 :: "MBuffer \<Rightarrow> MBuffer option" where "retrieveInt32 b = retrieve 4 b"
definition retrieveInt16 :: "MBuffer \<Rightarrow> MBuffer option" where "retrieveInt16 b = retrieve 2 b"
definition retrieveInt8 :: "MBuffer \<Rightarrow> MBuffer option" where "retrieveInt8 b = retrieve 1 b"

definition retrieveAsString :: "u64 \<Rightarrow> MBuffer \<Rightarrow> (bytes \<times> MBuffer) option" where
  "retrieveAsString len b =
     (if len \<le> readableBytes b then do {
        result \<leftarrow> mem_read (peek b) (unat len) (mb_store b);
        b1 \<leftarrow> retrieve len b;
        Some (result, b1)
      } else None)"

definition retrieveAllAsString :: "MBuffer \<Rightarrow> (bytes \<times> MBuffer) option" where
  "retrieveAllAsString b = retrieveAsString (readableBytes b) b"

text \<open>\<open>toStringPiece\<close>: the pointer, as the bytes from it to the end of the vector, and the length as an \<open>int\<close>.\<close>

definition toStringPiece :: "MBuffer \<Rightarrow> bytes \<times> u32" where
  "toStringPiece b = (drop (peek b) (mb_store b), word_of_int (uint (readableBytes b)))"

definition makeSpace :: "u64 \<Rightarrow> MBuffer \<Rightarrow> MBuffer option" where
  "makeSpace len b =
     (if writableBytes b + prependableBytes b < len + kCheapPrepend then do {
        m \<leftarrow> vector_resize (unat (writerIndex b + len)) (mb_store b);
        Some (b\<lparr>mb_store := m\<rparr>)
      }
      else if kCheapPrepend < readerIndex b then
        (let readable = readableBytes b in do {
          xs \<leftarrow> mem_read (unat (readerIndex b)) (unat readable) (mb_store b);
          m \<leftarrow> mem_write (unat kCheapPrepend) xs (mb_store b);
          let b1 = b\<lparr>mb_store := m, readerIndex := kCheapPrepend, writerIndex := kCheapPrepend + readable\<rparr>;
          if readable = readableBytes b1 then Some b1 else None
        })
      else None)"

definition ensureWritableBytes :: "u64 \<Rightarrow> MBuffer \<Rightarrow> MBuffer option" where
  "ensureWritableBytes len b = do {
     b1 \<leftarrow> (if writableBytes b < len then makeSpace len b else Some b);
     if len \<le> writableBytes b1 then Some b1 else None
   }"

definition hasWritten :: "u64 \<Rightarrow> MBuffer \<Rightarrow> MBuffer option" where
  "hasWritten len b = (if len \<le> writableBytes b then Some (b\<lparr>writerIndex := writerIndex b + len\<rparr>) else None)"

definition unwrite :: "u64 \<Rightarrow> MBuffer \<Rightarrow> MBuffer option" where
  "unwrite len b = (if len \<le> readableBytes b then Some (b\<lparr>writerIndex := writerIndex b - len\<rparr>) else None)"

text \<open>\<open>append(const char *data, size_t len)\<close>, where the pointer is the bytes behind it, and its
  other overloads.\<close>

definition MBuffer_append :: "bytes \<Rightarrow> u64 \<Rightarrow> MBuffer \<Rightarrow> MBuffer option" where
  "MBuffer_append data len b = do {
     b1 \<leftarrow> ensureWritableBytes len b;
     xs \<leftarrow> mem_read 0 (unat len) data;
     m \<leftarrow> mem_write (beginWrite b1) xs (mb_store b1);
     hasWritten len (b1\<lparr>mb_store := m\<rparr>)
   }"

definition append_piece :: "bytes \<times> u32 \<Rightarrow> MBuffer \<Rightarrow> MBuffer option" where
  "append_piece str b = MBuffer_append (fst str) (word_of_int (sint (snd str))) b"

text \<open>\<open>StringPiece(const string& str)\<close>: the length of the string is cast to \<open>int\<close>.\<close>

definition StringPiece_string :: "bytes \<Rightarrow> bytes \<times> u32" where
  "StringPiece_string str = (str, word_of_nat (length str))"

definition append_string :: "bytes \<Rightarrow> MBuffer \<Rightarrow> MBuffer option" where
  "append_string s b = MBuffer_append s (word_of_nat (length s)) b"

definition MBuffer_prepend :: "bytes \<Rightarrow> u64 \<Rightarrow> MBuffer \<Rightarrow> MBuffer option" where
  "MBuffer_prepend data len b =
     (if len \<le> prependableBytes b then
        (let b1 = b\<lparr>readerIndex := readerIndex b - len\<rparr> in do {
           d \<leftarrow> mem_read 0 (unat len) data;
           m \<leftarrow> mem_write (unat (readerIndex b1)) d (mb_store b1);
           Some (b1\<lparr>mb_store := m\<rparr>)
         })
      else None)"

definition shrink :: "u64 \<Rightarrow> MBuffer \<Rightarrow> MBuffer option" where
  "shrink reserve b = do {
     other \<leftarrow> ensureWritableBytes (readableBytes b + reserve) MBuffer_new;
     other \<leftarrow> append_piece (toStringPiece b) other;
     Some (fst (MBuffer_swap (b, other)))
   }"

section \<open>Integers in network byte order\<close>

text \<open>The \<open>k\<close> bytes of a number, most significant first, and back.\<close>

fun be_bytes :: "nat \<Rightarrow> nat \<Rightarrow> bytes" where
  "be_bytes 0 n = []"
| "be_bytes (Suc k) n = be_bytes k (n div 256) @ [char_of n]"

definition be_value :: "bytes \<Rightarrow> nat" where
  "be_value s = foldl (\<lambda>n c. n * 256 + code c) 0 s"

definition peek_be :: "nat \<Rightarrow> MBuffer \<Rightarrow> nat option" where
  "peek_be k b =
     (if k \<le> unat (readableBytes b) then do { xs \<leftarrow> mem_read (peek b) k (mb_store b); Some (be_value xs) } else None)"

definition appendInt64 :: "u64 \<Rightarrow> MBuffer \<Rightarrow> MBuffer option" where "appendInt64 x b = MBuffer_append (be_bytes 8 (unat x)) 8 b"
definition appendInt32 :: "u32 \<Rightarrow> MBuffer \<Rightarrow> MBuffer option" where "appendInt32 x b = MBuffer_append (be_bytes 4 (unat x)) 4 b"
definition appendInt16 :: "16 word \<Rightarrow> MBuffer \<Rightarrow> MBuffer option" where "appendInt16 x b = MBuffer_append (be_bytes 2 (unat x)) 2 b"
definition appendInt8 :: "8 word \<Rightarrow> MBuffer \<Rightarrow> MBuffer option" where "appendInt8 x b = MBuffer_append (be_bytes 1 (unat x)) 1 b"

definition peekInt64 :: "MBuffer \<Rightarrow> u64 option" where "peekInt64 b = map_option word_of_nat (peek_be 8 b)"
definition peekInt32 :: "MBuffer \<Rightarrow> u32 option" where "peekInt32 b = map_option word_of_nat (peek_be 4 b)"
definition peekInt16 :: "MBuffer \<Rightarrow> 16 word option" where "peekInt16 b = map_option word_of_nat (peek_be 2 b)"
definition peekInt8 :: "MBuffer \<Rightarrow> 8 word option" where "peekInt8 b = map_option word_of_nat (peek_be 1 b)"

definition readInt64 :: "MBuffer \<Rightarrow> (u64 \<times> MBuffer) option" where
  "readInt64 b = do { result \<leftarrow> peekInt64 b; b1 \<leftarrow> retrieveInt64 b; Some (result, b1) }"

definition readInt32 :: "MBuffer \<Rightarrow> (u32 \<times> MBuffer) option" where
  "readInt32 b = do { result \<leftarrow> peekInt32 b; b1 \<leftarrow> retrieveInt32 b; Some (result, b1) }"

definition readInt16 :: "MBuffer \<Rightarrow> (16 word \<times> MBuffer) option" where
  "readInt16 b = do { result \<leftarrow> peekInt16 b; b1 \<leftarrow> retrieveInt16 b; Some (result, b1) }"

definition readInt8 :: "MBuffer \<Rightarrow> (8 word \<times> MBuffer) option" where
  "readInt8 b = do { result \<leftarrow> peekInt8 b; b1 \<leftarrow> retrieveInt8 b; Some (result, b1) }"

definition prependInt64 :: "u64 \<Rightarrow> MBuffer \<Rightarrow> MBuffer option" where "prependInt64 x b = MBuffer_prepend (be_bytes 8 (unat x)) 8 b"
definition prependInt32 :: "u32 \<Rightarrow> MBuffer \<Rightarrow> MBuffer option" where "prependInt32 x b = MBuffer_prepend (be_bytes 4 (unat x)) 4 b"
definition prependInt16 :: "16 word \<Rightarrow> MBuffer \<Rightarrow> MBuffer option" where "prependInt16 x b = MBuffer_prepend (be_bytes 2 (unat x)) 2 b"
definition prependInt8 :: "8 word \<Rightarrow> MBuffer \<Rightarrow> MBuffer option" where "prependInt8 x b = MBuffer_prepend (be_bytes 1 (unat x)) 1 b"

section \<open>Reading from a descriptor\<close>

text \<open>\<open>readFd\<close>: the outcome of \<open>readv\<close> is an argument; the kernel fills the writable part first and
  the rest into the buffer on the stack.\<close>

definition extrabuf_size :: nat where "extrabuf_size = 65536"

definition readFd :: "bytes sys \<Rightarrow> MBuffer \<Rightarrow> (int \<times> MBuffer) option" where
  "readFd r b =
     (let writable = writableBytes b;
          iov_total = (if unat writable < extrabuf_size then unat writable + extrabuf_size else unat writable)
      in case r of
           Fail e \<Rightarrow> Some (- 1, b)
         | Ok xs \<Rightarrow>
             if iov_total < length xs then None
             else do {
               m \<leftarrow> mem_write (unat (writerIndex b)) (take (unat writable) xs) (mb_store b);
               let b1 = b\<lparr>mb_store := m\<rparr>;
               if length xs \<le> unat writable
               then Some (int (length xs), b1\<lparr>writerIndex := writerIndex b1 + word_of_nat (length xs)\<rparr>)
               else do {
                 b2 \<leftarrow> MBuffer_append (drop (unat writable) xs) (word_of_nat (length xs) - writable)
                         (b1\<lparr>writerIndex := word_of_nat (length (mb_store b1))\<rparr>);
                 Some (int (length xs), b2)
               }
             })"

section \<open>Invariant\<close>

definition mb_inv :: "MBuffer \<Rightarrow> bool" where
  "mb_inv b \<longleftrightarrow>
     unat (readerIndex b) \<le> unat (writerIndex b) \<and> unat (writerIndex b) \<le> length (mb_store b) \<and>
     8 \<le> length (mb_store b) \<and> length (mb_store b) < 2 ^ 63"

definition contents :: "MBuffer \<Rightarrow> bytes" where
  "contents b = take (unat (writerIndex b) - unat (readerIndex b)) (drop (unat (readerIndex b)) (mb_store b))"

lemma mb_invD:
  assumes "mb_inv b"
  shows "unat (readerIndex b) \<le> unat (writerIndex b)" and "unat (writerIndex b) \<le> length (mb_store b)"
    and "8 \<le> length (mb_store b)" and "length (mb_store b) < 2 ^ 63"
  using assms by (simp_all add: mb_inv_def)

lemma length_contents: "mb_inv b \<Longrightarrow> length (contents b) = unat (writerIndex b) - unat (readerIndex b)"
  by (auto simp: mb_inv_def contents_def)

lemma unat_readableBytes: "mb_inv b \<Longrightarrow> unat (readableBytes b) = length (contents b)"
  by (simp add: readableBytes_def unat_minus_le mb_inv_def length_contents)

lemma unat_store: "mb_inv b \<Longrightarrow> unat (word_of_nat (length (mb_store b)) :: u64) = length (mb_store b)"
  by (intro unat_word_of_nat_small) (simp add: mb_inv_def)

lemma unat_writableBytes: "mb_inv b \<Longrightarrow> unat (writableBytes b) = length (mb_store b) - unat (writerIndex b)"
  unfolding writableBytes_def by (subst unat_minus_le) (simp_all add: unat_store mb_inv_def)

lemma mb_inv_new [simp]: "mb_inv MBuffer_new" "contents MBuffer_new = []"
  by (simp_all add: MBuffer_new_def MBuffer_init_def mb_inv_def contents_def kCheapPrepend_def kInitialSize_def)

lemma read_contents:
  assumes "mb_inv b" and "n \<le> length (contents b)"
  shows "mem_read (peek b) n (mb_store b) = Some (take n (contents b))"
  using assms mb_invD [OF assms(1)]
  by (simp add: mem_read_def peek_def length_contents contents_def take_take min.absorb1)

lemma retrieve_ok:
  assumes "mb_inv b" and "unat len \<le> length (contents b)"
  shows "returns (retrieve len b) (\<lambda>b'. mb_inv b' \<and> contents b' = drop (unat len) (contents b) \<and> mb_store b' = mb_store b)"
proof -
  note D = mb_invD [OF assms(1)]
  have le: "len \<le> readableBytes b" using assms by (simp add: word_le_nat_alt unat_readableBytes)
  show ?thesis
  proof (cases "len < readableBytes b")
    case True
    then have l: "unat len < unat (writerIndex b) - unat (readerIndex b)"
      using assms(1) by (simp add: word_less_nat_alt unat_readableBytes length_contents)
    have u: "unat (readerIndex b + len) = unat (readerIndex b) + unat len"
      using l D by (intro unat_plus_small) simp
    have "mb_inv (b\<lparr>readerIndex := readerIndex b + len\<rparr>)" using l D u by (simp add: mb_inv_def)
    moreover have "contents (b\<lparr>readerIndex := readerIndex b + len\<rparr>) = drop (unat len) (contents b)"
      using u by (simp add: contents_def drop_take add.commute diff_diff_eq)
    ultimately show ?thesis using le True by (simp add: retrieve_def)
  next
    case False
    then have "unat len = length (contents b)" using assms by (simp add: word_less_nat_alt unat_readableBytes)
    moreover have "mb_inv (retrieveAll b)" "contents (retrieveAll b) = []"
      using D by (simp_all add: retrieveAll_def mb_inv_def contents_def kCheapPrepend_def)
    ultimately show ?thesis using le False by (simp add: retrieve_def retrieveAll_def)
  qed
qed

lemma retrieve_abort: "mb_inv b \<Longrightarrow> length (contents b) < unat len \<Longrightarrow> retrieve len b = None"
  by (simp add: retrieve_def word_le_nat_alt unat_readableBytes)

lemma retrieveAsString_ok:
  assumes "mb_inv b" and "unat len \<le> length (contents b)"
  shows "returns (retrieveAsString len b)
           (\<lambda>(xs, b'). xs = take (unat len) (contents b) \<and> mb_inv b' \<and> contents b' = drop (unat len) (contents b))"
proof -
  have "len \<le> readableBytes b" using assms by (simp add: word_le_nat_alt unat_readableBytes)
  then show ?thesis
    using retrieve_ok [OF assms] read_contents [OF assms] by (auto simp: retrieveAsString_def elim!: returns_mono)
qed

lemma retrieveAsString_abort: "mb_inv b \<Longrightarrow> length (contents b) < unat len \<Longrightarrow> retrieveAsString len b = None"
  by (simp add: retrieveAsString_def word_le_nat_alt unat_readableBytes)

text \<open>Moving the contents to the front.\<close>

lemma makeSpace_compact:
  assumes "mb_inv b" and "8 < unat (readerIndex b)"
    and "\<not> writableBytes b + prependableBytes b < len + kCheapPrepend"
  shows "returns (makeSpace len b) (\<lambda>b'. mb_inv b' \<and> contents b' = contents b \<and>
           unat (writerIndex b') = 8 + length (contents b) \<and> length (mb_store b') = length (mb_store b))"
proof -
  note D = mb_invD [OF assms(1)]
  let ?r = "readableBytes b" and ?k = "length (contents b)"
  have r: "unat ?r = ?k" by (rule unat_readableBytes [OF assms(1)])
  have kl: "?k = unat (writerIndex b) - unat (readerIndex b)" by (rule length_contents [OF assms(1)])
  have w: "unat (kCheapPrepend + ?r) = 8 + ?k"
    using r D kl by (subst unat_plus_small) (simp_all add: kCheapPrepend_def)
  have c: "mem_read (unat (readerIndex b)) (unat ?r) (mb_store b) = Some (contents b)"
    using read_contents [OF assms(1), of ?k] r by (simp add: peek_def)
  let ?m = "take 8 (mb_store b) @ contents b @ drop (8 + ?k) (mb_store b)"
  have m: "mem_write (unat kCheapPrepend) (contents b) (mb_store b) = Some ?m"
    using D kl assms(2) by (simp add: kCheapPrepend_def)
  let ?b = "b\<lparr>mb_store := ?m, readerIndex := kCheapPrepend, writerIndex := kCheapPrepend + ?r\<rparr>"
  have len: "length ?m = length (mb_store b)" using D kl assms(2) by simp
  have "8 + ?k \<le> length (mb_store b)" using D kl assms(2) by linarith
  then have inv: "mb_inv ?b" using D w len unfolding mb_inv_def by (simp add: kCheapPrepend_def)
  have "contents ?b = contents b" using D w by (simp add: contents_def kCheapPrepend_def)
  moreover have "?r = readableBytes ?b" by (simp add: readableBytes_def)
  moreover have "kCheapPrepend < readerIndex b" using assms(2) by (simp add: word_less_nat_alt kCheapPrepend_def)
  ultimately show ?thesis using assms(3) c m inv w len by (simp add: makeSpace_def Let_def)
qed

lemma makeSpace_grow:
  assumes "mb_inv b" and "unat (writerIndex b) + unat len < 2 ^ 63" and "length (mb_store b) \<le> unat (writerIndex b) + unat len"
    and "writableBytes b + prependableBytes b < len + kCheapPrepend"
  shows "returns (makeSpace len b) (\<lambda>b'. mb_inv b' \<and> contents b' = contents b \<and>
           writerIndex b' = writerIndex b \<and> length (mb_store b') = unat (writerIndex b) + unat len)"
proof -
  note D = mb_invD [OF assms(1)]
  have u: "unat (writerIndex b + len) = unat (writerIndex b) + unat len" using assms(2) by (intro unat_plus_small) simp
  show ?thesis
    using assms D by (simp add: makeSpace_def vector_resize_def u mb_inv_def contents_def)
qed

lemma ensureWritableBytes_ok:
  assumes "mb_inv b" and "length (contents b) + 2 * unat len \<le> 2 ^ 62"
  shows "returns (ensureWritableBytes len b)
           (\<lambda>b'. mb_inv b' \<and> contents b' = contents b \<and> unat (writerIndex b') + unat len \<le> length (mb_store b'))"
proof -
  note D = mb_invD [OF assms(1)] and wb = unat_writableBytes [OF assms(1)]
  have kl: "length (contents b) = unat (writerIndex b) - unat (readerIndex b)" by (rule length_contents [OF assms(1)])
  have fits: "len \<le> writableBytes b'" if "mb_inv b'" "unat (writerIndex b') + unat len \<le> length (mb_store b')" for b'
    using that by (simp add: word_le_nat_alt unat_writableBytes)
  show ?thesis
  proof (cases "writableBytes b < len")
    case False
    then have "unat (writerIndex b) + unat len \<le> length (mb_store b)"
      using wb D by (simp add: word_less_nat_alt)
    then show ?thesis using False assms(1) fits by (simp add: ensureWritableBytes_def)
  next
    case True
    then have small: "length (mb_store b) < unat (writerIndex b) + unat len" using wb D by (simp add: word_less_nat_alt)
    have s1: "unat (writableBytes b + prependableBytes b) = length (mb_store b) - unat (writerIndex b) + unat (readerIndex b)"
      using wb D by (subst unat_plus_small) (simp_all add: prependableBytes_def)
    have s2: "unat (len + kCheapPrepend) = unat len + 8"
      using assms(2) by (subst unat_plus_small) (simp_all add: kCheapPrepend_def)
    show ?thesis
    proof (cases "writableBytes b + prependableBytes b < len + kCheapPrepend")
      case grow: True
      then have "unat (writerIndex b) + unat len < 2 ^ 63"
        using s1 s2 assms(2) kl D by (simp add: word_less_nat_alt)
      from makeSpace_grow [OF assms(1) this _ grow] small show ?thesis
        using True fits by (auto simp: ensureWritableBytes_def elim!: returns_mono)
    next
      case compact: False
      then have a: "unat len + 8 \<le> length (mb_store b) - unat (writerIndex b) + unat (readerIndex b)"
        using s1 s2 by (simp add: word_less_nat_alt)
      then have "8 < unat (readerIndex b)" using small D by linarith
      from makeSpace_compact [OF assms(1) this compact] show ?thesis
        using True fits a D kl by (auto simp: ensureWritableBytes_def elim!: returns_mono)
    qed
  qed
qed

lemma MBuffer_append_ok:
  assumes "mb_inv b" and "unat len \<le> length d" and "length (contents b) + 2 * unat len \<le> 2 ^ 62"
  shows "returns (MBuffer_append d len b) (\<lambda>b'. mb_inv b' \<and> contents b' = contents b @ take (unat len) d)"
proof -
  obtain b1 where b1: "ensureWritableBytes len b = Some b1" "mb_inv b1" "contents b1 = contents b"
      "unat (writerIndex b1) + unat len \<le> length (mb_store b1)"
    using ensureWritableBytes_ok [OF assms(1,3)] by (auto elim!: returnsE)
  note D = mb_invD [OF b1(2)]
  let ?xs = "take (unat len) d" and ?w = "unat (writerIndex b1)"
  have l: "length ?xs = unat len" using assms(2) by simp
  let ?m = "take ?w (mb_store b1) @ ?xs @ drop (?w + unat len) (mb_store b1)"
  have m: "mem_write (beginWrite b1) ?xs (mb_store b1) = Some ?m" using b1(4) l by (simp add: beginWrite_def)
  have len: "length ?m = length (mb_store b1)" using b1(4) l by simp
  have u: "unat (writerIndex b1 + len) = ?w + unat len" using b1(4) D by (intro unat_plus_small) simp
  let ?b = "b1\<lparr>mb_store := ?m\<rparr>"
  have inv: "mb_inv ?b" using D len by (simp add: mb_inv_def)
  then have "len \<le> writableBytes ?b" using len b1(4) by (simp add: word_le_nat_alt unat_writableBytes)
  moreover have "mb_inv (?b\<lparr>writerIndex := writerIndex b1 + len\<rparr>)" using D len u b1(4) by (simp add: mb_inv_def)
  moreover have "contents (?b\<lparr>writerIndex := writerIndex b1 + len\<rparr>) = contents b1 @ ?xs"
    using D u l by (simp add: contents_def drop_take)
  ultimately show ?thesis
    using b1(1,3) m assms(2) by (simp add: MBuffer_append_def hasWritten_def)
qed

lemma append_string_ok:
  assumes "mb_inv b" and "length (contents b) + 2 * length xs \<le> 2 ^ 62"
  shows "returns (append_string xs b) (\<lambda>b'. mb_inv b' \<and> contents b' = contents b @ xs)"
proof -
  have "unat (word_of_nat (length xs) :: u64) = length xs" using assms(2) by (intro unat_word_of_nat_small) simp
  then show ?thesis using MBuffer_append_ok [of b "word_of_nat (length xs)" xs] assms by (simp add: append_string_def)
qed

text \<open>A string that is appended through a \<open>StringPiece\<close>: its length is read as an \<open>int\<close> and extended to \<open>size_t\<close>, which is the length for strings of less than
  \<open>2\<^sup>3\<^sup>1\<close> bytes. For longer ones, up to \<open>2\<^sup>3\<^sup>2\<close>, the copy runs past the end of the string.\<close>

lemma append_piece_string:
  assumes "length xs < 2 ^ 31"
  shows "append_piece (StringPiece_string xs) b = append_string xs b"
proof -
  have "signed_take_bit 31 (int (length xs)) = int (length xs)" using assms by (intro signed_take_bit_int_eq_self) simp_all
  moreover have w: "(word_of_nat (length xs) :: u32) = word_of_int (int (length xs))" by simp
  have "sint (word_of_nat (length xs) :: u32) = signed_take_bit 31 (int (length xs))" unfolding w sint_sbintrunc' by simp
  ultimately show ?thesis by (simp add: append_piece_def append_string_def StringPiece_string_def)
qed

lemma append_piece_long:
  assumes "2 ^ 31 \<le> length xs" and "length xs < 2 ^ 32"
  shows "append_piece (StringPiece_string xs) b = None"
proof -
  define n where "n = int (length xs)"
  have n: "2 ^ 31 \<le> n" "n < 2 ^ 32" using assms by (simp_all add: n_def)
  have m: "(x - 2 ^ k) mod 2 ^ k = x mod 2 ^ k" for x :: int and k :: nat by simp
  have "(n + 2 ^ 31) mod 2 ^ 32 = n - 2 ^ 31" using n m [of "n + 2 ^ 31" 32] by simp
  then have "sint (word_of_int n :: u32) = n - 2 ^ 32" using n by (simp add: sint_sbintrunc' signed_take_bit_eq_take_bit_shift take_bit_eq_mod)
  moreover have w: "(word_of_nat (length xs) :: u32) = word_of_int n" by (simp add: n_def)
  ultimately have "unat (word_of_int (sint (word_of_nat (length xs) :: u32)) :: u64) = nat ((n - 2 ^ 32) mod 2 ^ 64)"
    unfolding w unat_eq_nat_uint uint_word_of_int by simp
  moreover have "(n - 2 ^ 32) mod 2 ^ 64 = n - 2 ^ 32 + 2 ^ 64" using n m [of "n - 2 ^ 32 + 2 ^ 64" 64] by simp
  ultimately have "length xs < unat (word_of_int (sint (word_of_nat (length xs) :: u32)) :: u64)" using n by (simp add: n_def)
  then have "mem_read 0 (unat (word_of_int (sint (word_of_nat (length xs) :: u32)) :: u64)) xs = None" by (simp add: mem_read_def)
  then show ?thesis by (simp add: append_piece_def StringPiece_string_def MBuffer_append_def split: bind_splits)
qed

lemma MBuffer_prepend_ok:
  assumes "mb_inv b" and "unat len \<le> length d" and "unat len \<le> unat (readerIndex b)"
  shows "returns (MBuffer_prepend d len b) (\<lambda>b'. mb_inv b' \<and> contents b' = take (unat len) d @ contents b)"
proof -
  note D = mb_invD [OF assms(1)]
  let ?xs = "take (unat len) d" and ?r = "unat (readerIndex b) - unat len"
  have l: "length ?xs = unat len" using assms(2) by simp
  have u: "unat (readerIndex b - len) = ?r" using assms(3) by (intro unat_minus_le)
  let ?m = "take ?r (mb_store b) @ ?xs @ drop (unat (readerIndex b)) (mb_store b)"
  have m: "mem_write ?r ?xs (mb_store b) = Some ?m" using assms(3) D l by simp
  let ?b = "b\<lparr>readerIndex := readerIndex b - len, mb_store := ?m\<rparr>"
  have len: "length ?m = length (mb_store b)" using assms(3) D l by simp
  have "mb_inv ?b" using D len u by (simp add: mb_inv_def)
  moreover have "contents ?b = ?xs @ contents b"
    using D u l assms(3) by (simp add: contents_def)
  moreover have "len \<le> prependableBytes b" using assms(3) by (simp add: prependableBytes_def word_le_nat_alt)
  ultimately show ?thesis using m u assms(2) by (simp add: MBuffer_prepend_def Let_def)
qed

text \<open>muduo's buffer fulfils the contract of the server's own buffer.\<close>

interpretation mb: byte_queue MBuffer_new contents mb_inv append_string retrieveAsString
  by unfold_locales (simp_all add: append_string_ok retrieveAsString_ok retrieveAsString_abort)

section \<open>Integers\<close>

lemma length_be_bytes [simp]: "length (be_bytes k n) = k"
  by (induction k arbitrary: n) simp_all

lemma be_value_snoc: "be_value (s @ [c]) = be_value s * 256 + code c"
  by (simp add: be_value_def)

lemma be_value_bytes: "be_value (be_bytes k n) = n mod 256 ^ k"
proof (induction k arbitrary: n)
  case 0
  then show ?case by (simp add: be_value_def)
next
  case (Suc k)
  have "n mod 256 ^ Suc k = (n div 256 mod 256 ^ k) * 256 + n mod 256"
    using mod_mult2_eq [of n 256 "256 ^ k"] by (simp add: mult.commute)
  then show ?case using Suc by (simp add: be_value_snoc)
qed

lemma peek_be_ok:
  assumes "mb_inv b" and "contents b = be_bytes k n @ rest"
  shows "peek_be k b = Some (n mod 256 ^ k)"
  using read_contents [OF assms(1), of k] assms by (simp add: peek_be_def unat_readableBytes be_value_bytes)

text \<open>Reading an integer of \<open>k\<close> bytes that are in front.\<close>

lemma read_int_ok:
  fixes x :: "'a::len word"
  assumes "mb_inv b" and "contents b = be_bytes k (unat x) @ rest" and "unat w = k" and "8 * k = LENGTH('a)"
  shows "returns (map_option word_of_nat (peek_be k b) \<bind> (\<lambda>result. retrieve w b \<bind> (\<lambda>b1. Some (result, b1))))
           (\<lambda>(y, b'). y = x \<and> mb_inv b' \<and> contents b' = rest)"
proof -
  have "(256 :: nat) ^ k = 2 ^ LENGTH('a)" using assms(4) by (simp flip: assms(4) add: power_mult)
  then have "unat x mod 256 ^ k = unat x" using unsigned_less [of x, where 'a = nat] by simp
  then have p: "map_option word_of_nat (peek_be k b) = Some x" using peek_be_ok [OF assms(1,2)] by simp
  show ?thesis
    using retrieve_ok [OF assms(1), of w] assms(2,3) unfolding p by (auto elim!: returns_mono)
qed

lemma append_int_ok:
  assumes "mb_inv b" and "unat w = k" and "length (contents b) + 2 * k \<le> 2 ^ 62"
  shows "returns (MBuffer_append (be_bytes k n) w b) (\<lambda>b'. mb_inv b' \<and> contents b' = contents b @ be_bytes k n)"
  using MBuffer_append_ok [of b w "be_bytes k n"] assms by simp

lemma prepend_int_ok:
  assumes "mb_inv b" and "unat w = k" and "k \<le> unat (readerIndex b)"
  shows "returns (MBuffer_prepend (be_bytes k n) w b) (\<lambda>b'. mb_inv b' \<and> contents b' = be_bytes k n @ contents b)"
  using MBuffer_prepend_ok [of b w "be_bytes k n"] assms by simp

lemmas read_int_defs = readInt64_def readInt32_def readInt16_def readInt8_def peekInt64_def peekInt32_def peekInt16_def
  peekInt8_def retrieveInt64_def retrieveInt32_def retrieveInt16_def retrieveInt8_def

section \<open>Properties\<close>

text \<open>
  C31. muduo's buffer and the server's own buffer are interchangeable for programs that append
  and take bytes: both return exactly what a queue of bytes returns and abort exactly when it
  has too few bytes; in muduo's buffer the bytes taken and the bytes left are the bytes
  appended, in order.
\<close>

theorem muduo_buffer_equivalent:
  assumes "length (qwritten ops) \<le> 2 ^ 61"
  shows "map_option fst (qrun append_string retrieveAsString ops MBuffer_new) = map_option fst (qspec ops []) \<and>
         map_option fst (qrun WriteString ReadAsString ops Buffer_new) = map_option fst (qspec ops []) \<and>
         (\<forall>out b. qrun append_string retrieveAsString ops MBuffer_new = Some (out, b) \<longrightarrow>
            mb_inv b \<and> out @ contents b = qwritten ops)"
proof -
  have "length (contents MBuffer_new) + 2 * length (qwritten ops) \<le> 2 ^ 62"
    "length (readable Buffer_new) + 2 * length (qwritten ops) \<le> 2 ^ 62" using assms by simp_all
  then show ?thesis
    using mb.run_refines [of MBuffer_new ops] bq.run_refines [of Buffer_new ops] mb.run_fifo [OF assms]
    by (auto split: option.splits)
qed

theorem muduo_buffer_equivalent_witness:
  "map_option fst (qrun append_string retrieveAsString [QWrite ''abc'', QRead 2, QWrite ''d'', QRead 2] MBuffer_new) = Some ''abcd'' \<and>
   map_option fst (qrun WriteString ReadAsString [QWrite ''abc'', QRead 2, QWrite ''d'', QRead 2] Buffer_new) = Some ''abcd''"
  using muduo_buffer_equivalent [of "[QWrite ''abc'', QRead 2, QWrite ''d'', QRead 2]"] by simp

text \<open>An integer in front is read back; one at the end is read back once the contents before it are taken.\<close>

lemma prepend_then_read:
  fixes x :: "'a::len word"
  assumes "mb_inv b" and "k \<le> unat (readerIndex b)" and "unat w = k" and "8 * k = LENGTH('a)"
  shows "returns (MBuffer_prepend (be_bytes k (unat x)) w b \<bind> (\<lambda>b1. map_option word_of_nat (peek_be k b1) \<bind>
      (\<lambda>result. retrieve w b1 \<bind> (\<lambda>b2. Some (result, b2))))) (\<lambda>(y, b'). y = x \<and> contents b' = contents b)"
proof -
  obtain b1 where "MBuffer_prepend (be_bytes k (unat x)) w b = Some b1" "mb_inv b1" "contents b1 = be_bytes k (unat x) @ contents b"
    using prepend_int_ok [OF assms(1,3,2), of "unat x"] by (auto simp: returns_iff)
  then show ?thesis using read_int_ok [of b1 k x "contents b" w] assms(3,4) by (auto elim!: returns_mono)
qed

lemma append_then_read:
  fixes x :: "'a::len word"
  assumes "mb_inv b" and "length (contents b) + 16 \<le> 2 ^ 62" and "k \<le> 8" and "unat w = k" and "8 * k = LENGTH('a)"
  shows "returns (MBuffer_append (be_bytes k (unat x)) w b \<bind> retrieve (readableBytes b) \<bind> (\<lambda>b1. map_option word_of_nat (peek_be k b1) \<bind>
      (\<lambda>result. retrieve w b1 \<bind> (\<lambda>b2. Some (result, b2))))) (\<lambda>(y, b'). y = x \<and> contents b' = [])"
proof -
  obtain b1 where b1: "MBuffer_append (be_bytes k (unat x)) w b = Some b1" "mb_inv b1" "contents b1 = contents b @ be_bytes k (unat x)"
    using append_int_ok [OF assms(1,4), of "unat x"] assms(2,3) by (auto simp: returns_iff)
  then obtain b2 where "retrieve (readableBytes b) b1 = Some b2" "mb_inv b2" "contents b2 = be_bytes k (unat x) @ []"
    using retrieve_ok [OF b1(2), of "readableBytes b"] assms(1) by (auto simp: returns_iff unat_readableBytes)
  then show ?thesis using b1(1) read_int_ok [of b2 k x "[]" w] assms(4,5) by (auto elim!: returns_mono)
qed

text \<open>
  Round trip of integers in network byte order, for 64, 32, 16 and 8 bits: an integer prepended to a
  buffer with room in front is read back first and leaves the contents as they were; an integer appended to a
  buffer is read back after the contents before it have been taken, and nothing is left.
\<close>

lemma muduo_int_roundtrip:
  assumes "mb_inv b" and "8 \<le> unat (readerIndex b)" and "length (contents b) + 16 \<le> 2 ^ 62"
  shows "returns (prependInt64 x64 b \<bind> readInt64) (\<lambda>(y, b'). y = x64 \<and> contents b' = contents b) \<and>
         returns (prependInt32 x32 b \<bind> readInt32) (\<lambda>(y, b'). y = x32 \<and> contents b' = contents b) \<and>
         returns (prependInt16 x16 b \<bind> readInt16) (\<lambda>(y, b'). y = x16 \<and> contents b' = contents b) \<and>
         returns (prependInt8 x8 b \<bind> readInt8) (\<lambda>(y, b'). y = x8 \<and> contents b' = contents b) \<and>
         returns (appendInt64 x64 b \<bind> retrieve (readableBytes b) \<bind> readInt64) (\<lambda>(y, b'). y = x64 \<and> contents b' = []) \<and>
         returns (appendInt32 x32 b \<bind> retrieve (readableBytes b) \<bind> readInt32) (\<lambda>(y, b'). y = x32 \<and> contents b' = []) \<and>
         returns (appendInt16 x16 b \<bind> retrieve (readableBytes b) \<bind> readInt16) (\<lambda>(y, b'). y = x16 \<and> contents b' = []) \<and>
         returns (appendInt8 x8 b \<bind> retrieve (readableBytes b) \<bind> readInt8) (\<lambda>(y, b'). y = x8 \<and> contents b' = [])"
  unfolding prependInt64_def prependInt32_def prependInt16_def prependInt8_def
    appendInt64_def appendInt32_def appendInt16_def appendInt8_def read_int_defs
  by (intro conjI; (rule prepend_then_read | rule append_then_read)) (use assms in simp_all)

section \<open>Reading from a descriptor and shrinking\<close>

lemma filled_ok:
  assumes "mb_inv b" and "length xs \<le> length (mb_store b) - unat (writerIndex b)" and "unat w = unat (writerIndex b) + length xs"
  shows "mb_inv (b\<lparr>mb_store := take (unat (writerIndex b)) (mb_store b) @ xs @ drop (unat (writerIndex b) + length xs) (mb_store b),
            writerIndex := w\<rparr>)"
    and "contents (b\<lparr>mb_store := take (unat (writerIndex b)) (mb_store b) @ xs @ drop (unat (writerIndex b) + length xs) (mb_store b),
            writerIndex := w\<rparr>) = contents b @ xs"
  using mb_invD [OF assms(1)] assms(2,3) by (simp_all add: mb_inv_def contents_def drop_take)

lemma readFd_appends:
  assumes "mb_inv b" and "length (contents b) + 2 * length xs \<le> 2 ^ 61"
    and "length xs \<le> unat (writableBytes b) + (if unat (writableBytes b) < extrabuf_size then extrabuf_size else 0)"
  shows "returns (readFd (Ok xs) b) (\<lambda>(n, b'). n = int (length xs) \<and> mb_inv b' \<and> contents b' = contents b @ xs)"
proof -
  note D = mb_invD [OF assms(1)] and wb = unat_writableBytes [OF assms(1)]
  let ?W = "unat (writableBytes b)"
  let ?m = "take (unat (writerIndex b)) (mb_store b) @ take ?W xs @ drop (unat (writerIndex b) + length (take ?W xs)) (mb_store b)"
  have m: "mem_write (unat (writerIndex b)) (take ?W xs) (mb_store b) = Some ?m" using D wb by simp
  have u: "unat (word_of_nat (length xs) :: u64) = length xs" using assms(2) by (intro unat_word_of_nat_small) simp
  have iov: "\<not> (if ?W < extrabuf_size then ?W + extrabuf_size else ?W) < length xs" using assms(3) by auto
  show ?thesis
  proof (cases "length xs \<le> ?W")
    case True
    have "unat (writerIndex b + word_of_nat (length xs)) = unat (writerIndex b) + length xs"
      using True wb D u by (subst unat_plus_small) simp_all
    then show ?thesis
      using filled_ok [OF assms(1), of xs] True wb m iov by (simp add: readFd_def Let_def)
  next
    case False
    let ?b = "b\<lparr>mb_store := ?m, writerIndex := word_of_nat (length ?m)\<rparr>"
    have len: "length ?m = length (mb_store b)" using False wb D by simp
    have f: "unat (word_of_nat (length ?m) :: u64) = unat (writerIndex b) + length (take ?W xs)"
      using unat_store [OF assms(1)] len False wb D by simp
    have b: "mb_inv ?b" "contents ?b = contents b @ take ?W xs"
      using filled_ok [OF assms(1), of "take ?W xs" "word_of_nat (length ?m)"] f wb by simp_all
    have n: "unat (word_of_nat (length xs) - writableBytes b) = length xs - ?W"
      using False u by (subst unat_minus_le) simp_all
    have "returns (MBuffer_append (drop ?W xs) (word_of_nat (length xs) - writableBytes b) ?b)
        (\<lambda>b'. mb_inv b' \<and> contents b' = contents ?b @ drop ?W xs)"
      using MBuffer_append_ok [OF b(1), of "word_of_nat (length xs) - writableBytes b" "drop ?W xs"] n assms(2) b(2) by simp
    then show ?thesis
      using False m iov b(2) by (auto simp: readFd_def Let_def elim!: returns_mono)
  qed
qed

lemma shrink_ok:
  assumes "mb_inv b" and "length (contents b) < 2 ^ 31" and "unat reserve \<le> 2 ^ 60"
  shows "returns (shrink reserve b) (\<lambda>b'. mb_inv b' \<and> contents b' = contents b)"
proof -
  let ?n = "length (contents b)"
  have r: "unat (readableBytes b) = ?n" by (rule unat_readableBytes [OF assms(1)])
  have s: "unat (readableBytes b + reserve) = ?n + unat reserve"
    using assms(2,3) r by (subst unat_plus_small) simp_all
  obtain b1 where b1: "ensureWritableBytes (readableBytes b + reserve) MBuffer_new = Some b1" "mb_inv b1" "contents b1 = []"
    using ensureWritableBytes_ok [of MBuffer_new "readableBytes b + reserve"] s assms(2,3) by (auto elim!: returnsE)
  have "uint (readableBytes b) = int ?n" using r by (simp add: uint_nat)
  moreover have "signed_take_bit 31 (int ?n) = int ?n" using assms(2) by (intro signed_take_bit_int_eq_self) simp_all
  ultimately have "word_of_int (sint (snd (toStringPiece b))) = (word_of_nat ?n :: u64)"
    unfolding toStringPiece_def snd_conv sint_sbintrunc' by simp
  moreover have "unat (word_of_nat ?n :: u64) = ?n" using assms(2) by (intro unat_word_of_nat_small) simp
  moreover have "take ?n (drop (peek b) (mb_store b)) = contents b" "?n \<le> length (drop (peek b) (mb_store b))"
    using read_contents [OF assms(1), of ?n] by (auto simp: mem_read_def split: if_splits)
  ultimately have "returns (append_piece (toStringPiece b) b1) (\<lambda>b'. mb_inv b' \<and> contents b' = contents b)"
    using MBuffer_append_ok [OF b1(2), of "word_of_nat ?n" "drop (peek b) (mb_store b)"] b1(3) assms(2)
    by (simp add: append_piece_def) (simp add: toStringPiece_def)
  then show ?thesis using b1(1) by (auto simp: shrink_def MBuffer_swap_def elim!: returns_mono)
qed

text \<open>
  \<open>readFd\<close> appends exactly the bytes the kernel delivered, whether they fit into the writable
  part or overflow into the buffer on the stack, and changes nothing on an error; and \<open>shrink\<close> keeps
  the contents of a buffer of less than \<open>2^31\<close> bytes (its length passes through an \<open>int\<close>).
\<close>

lemma muduo_readFd_appends:
  assumes "mb_inv b" and "length (contents b) + 2 * length xs \<le> 2 ^ 61"
    and "length xs \<le> unat (writableBytes b) + (if unat (writableBytes b) < extrabuf_size then extrabuf_size else 0)"
  shows "returns (readFd (Ok xs) b) (\<lambda>(n, b'). n = int (length xs) \<and> mb_inv b' \<and> contents b' = contents b @ xs) \<and>
         readFd (Fail e) b = Some (- 1, b) \<and>
         (length (contents b) < 2 ^ 31 \<and> unat reserve \<le> 2 ^ 60 \<longrightarrow>
            returns (shrink reserve b) (\<lambda>b'. mb_inv b' \<and> contents b' = contents b))"
  using readFd_appends [OF assms] shrink_ok [OF assms(1), of reserve] by (simp add: readFd_def Let_def)

end
