(* ===== verification/MuduoTcpConnection.thy ===== *)
theory MuduoTcpConnection
  imports MuduoPoller MuduoBuffer
begin

unbundle bit_operations_syntax

text \<open>
  The class \<open>TcpConnection\<close> of the bundled muduo library, \<open>src/muduo_source_code/muduo/net/TcpConnection.h\<close> and
  \<open>TcpConnection.cc\<close>, on its channel, a poller (the arguments \<open>upd\<close> and \<open>rem\<close>), the loop's queue of functors and the kernel. The
  callbacks of the application are a function \<open>user\<close> that gives, for the callback and the state it is called in, the
  calls the application makes on the connection, in the loop's thread; other threads make their calls as separate events. None of
  these calls runs a callback, so callbacks do not nest: \<open>send\<close> and \<open>forceClose\<close> queue theirs.

  \<open>None\<close> is a failed assertion, here or in the channel, the poller or a buffer. The outcome of the n-th \<open>write\<close> of the connection is
  \<open>wr n\<close>, the outcome of a \<open>readv\<close> comes with the event. Besides the fields of the object the state has the poller, the queue, the
  timers of \<open>forceCloseWithDelay\<close> and what the outside world has seen: the bytes the kernel has taken, the
  half-close, and, as histories that no operation reads, the number of bytes passed to \<open>send\<close>, the bytes accepted for sending and the
  state and unsent bytes at the half-close.

  The theory shows, for every poller that fulfils \<open>channel_poller\<close>, that in every sequence of events no assertion fails, output is
  neither lost, duplicated nor reordered, exactly the connections with unsent output are watched for writability, and the half-close of a
  graceful shutdown comes after the last byte and is never forgotten. It also shows which uses of the class abort.
\<close>

section \<open>State\<close>

datatype StateE = kDisconnected | kConnecting | kConnected | kDisconnecting

datatype tcp_handler = ReadH | WriteH | CloseH | ErrorH

datatype loop_fn = FSend bytes | FShutdown | FForceClose | FStartRead | FStopRead | FWriteComplete | FHighWater u64
  | FEstablished | FDestroyed

record 'p tcp =
  t_state :: StateE
  t_reading :: bool
  t_channel :: nat
  t_highWaterMark :: u64
  t_writeCompleteCallback :: bool
  t_highWaterMarkCallback :: bool
  t_input :: MBuffer
  t_output :: MBuffer
  w_poll :: "tcp_handler chans \<times> 'p"
  w_pending :: "loop_fn list"
  w_timers :: nat
  w_nwrites :: nat
  w_requested :: nat
  w_wire :: bytes
  w_accepted :: bytes
  w_shutdown :: "(StateE \<times> bytes) option"
  w_closed :: bool
  w_destroys :: nat

text \<open>The connection's channel, and changes of it that the poller does not see.\<close>

definition t_chan :: "'p tcp \<Rightarrow> tcp_handler MChannel" where
  "t_chan s = (case fst (w_poll s) (t_channel s) of None \<Rightarrow> MChannel_new (- 1) | Some c \<Rightarrow> c)"

definition t_modify :: "(tcp_handler MChannel \<Rightarrow> tcp_handler MChannel) \<Rightarrow> 'p tcp \<Rightarrow> 'p tcp" where
  "t_modify f s = s\<lparr>w_poll := (at_channel (t_channel s) f (fst (w_poll s)), snd (w_poll s))\<rparr>"

definition t_on_channel :: "(tcp_handler, 'p) poller_call \<Rightarrow> 'p tcp \<Rightarrow> 'p tcp option" where
  "t_on_channel call s = map_option (\<lambda>w. s\<lparr>w_poll := w\<rparr>) (call (t_channel s) (w_poll s))"

text \<open>The constructor, with the channel at address \<open>a\<close>; \<open>TcpServer\<close> then passes \<open>connectEstablished\<close> to the loop.\<close>

definition TcpConnection_new :: "nat \<Rightarrow> int \<Rightarrow> bool \<Rightarrow> bool \<Rightarrow> tcp_handler chans \<times> 'p \<Rightarrow> 'p tcp" where
  "TcpConnection_new a fd wc hw w =
     \<lparr>t_state = kConnecting, t_reading = True, t_channel = a, t_highWaterMark = 64 * 1024 * 1024, t_writeCompleteCallback = wc,
      t_highWaterMarkCallback = hw, t_input = MBuffer_new, t_output = MBuffer_new,
      w_poll = ((fst w)(a \<mapsto> setErrorCallback ErrorH (setCloseCallback CloseH (setWriteCallback WriteH
                  (setReadCallback ReadH (MChannel_new fd))))), snd w),
      w_pending = [FEstablished], w_timers = 0, w_nwrites = 0, w_requested = 0, w_wire = [], w_accepted = [], w_shutdown = None, w_closed = False,
      w_destroys = 0\<rparr>"

definition setHighWaterMark :: "u64 \<Rightarrow> 'p tcp \<Rightarrow> 'p tcp" where
  "setHighWaterMark n s = s\<lparr>t_highWaterMarkCallback := True, t_highWaterMark := n\<rparr>"

section \<open>Sending and shutting down\<close>

definition queueInLoop :: "loop_fn \<Rightarrow> 'p tcp \<Rightarrow> 'p tcp" where
  "queueInLoop f s = s\<lparr>w_pending := w_pending s @ [f]\<rparr>"

definition EPIPE :: errno where "EPIPE = EOTHER 32"
definition ECONNRESET :: errno where "ECONNRESET = EOTHER 104"

text \<open>\<open>write\<close> takes a prefix of the data or fails.\<close>

definition sockets_write :: "(nat \<Rightarrow> nat sys) \<Rightarrow> bytes \<Rightarrow> 'p tcp \<Rightarrow> nat sys \<times> 'p tcp" where
  "sockets_write wr data s =
     (let s1 = s\<lparr>w_nwrites := w_nwrites s + 1\<rparr> in
      case wr (w_nwrites s) of
        Fail e \<Rightarrow> (Fail e, s1)
      | Ok n \<Rightarrow> (Ok (min n (length data)), s1\<lparr>w_wire := w_wire s @ take n data\<rparr>))"

text \<open>The direct write of \<open>sendInLoop\<close>: the bytes that remain, or \<open>None\<close> on a fault.\<close>

definition direct_write :: "(nat \<Rightarrow> nat sys) \<Rightarrow> bytes \<Rightarrow> 'p tcp \<Rightarrow> bytes option \<times> 'p tcp" where
  "direct_write wr data s =
     (case sockets_write wr data s of
        (Ok n, s1) \<Rightarrow>
          (Some (drop n data),
           if length data - n = 0 \<and> t_writeCompleteCallback s1 then queueInLoop FWriteComplete s1 else s1)
      | (Fail e, s1) \<Rightarrow> (if e = EPIPE \<or> e = ECONNRESET then None else Some data, s1))"

definition buffer_rest :: "(tcp_handler, 'p) poller_call \<Rightarrow> bytes \<Rightarrow> 'p tcp \<Rightarrow> 'p tcp option" where
  "buffer_rest upd rest s =
     (let remaining = word_of_nat (length rest);
          oldLen = readableBytes (t_output s);
          s1 = (if t_highWaterMark s \<le> oldLen + remaining \<and> oldLen < t_highWaterMark s \<and> t_highWaterMarkCallback s
                then queueInLoop (FHighWater (oldLen + remaining)) s else s)
      in do {
        b \<leftarrow> MBuffer_append rest remaining (t_output s1);
        let s2 = s1\<lparr>t_output := b\<rparr>;
        if \<not> isWriting (t_chan s2) then t_on_channel (enableWriting upd) s2 else Some s2
      })"

definition sendInLoop :: "(tcp_handler, 'p) poller_call \<Rightarrow> (nat \<Rightarrow> nat sys) \<Rightarrow> bytes \<Rightarrow> 'p tcp \<Rightarrow> 'p tcp option" where
  "sendInLoop upd wr data s =
     (if t_state s = kDisconnected then Some s
      else
        let (remaining, s1) = (if \<not> isWriting (t_chan s) \<and> readableBytes (t_output s) = 0
                               then direct_write wr data s else (Some data, s))
        in case remaining of
             None \<Rightarrow> Some s1
           | Some rest \<Rightarrow>
               let s2 = s1\<lparr>w_accepted := w_accepted s1 @ data\<rparr>
               in if rest \<noteq> [] then buffer_rest upd rest s2 else Some s2)"

definition shutdownInLoop :: "'p tcp \<Rightarrow> 'p tcp" where
  "shutdownInLoop s =
     (if \<not> isWriting (t_chan s)
      then (if w_shutdown s = None then s\<lparr>w_shutdown := Some (t_state s, contents (t_output s))\<rparr> else s)
      else s)"

definition startReadInLoop :: "(tcp_handler, 'p) poller_call \<Rightarrow> 'p tcp \<Rightarrow> 'p tcp option" where
  "startReadInLoop upd s =
     (if \<not> t_reading s \<or> \<not> isReading (t_chan s)
      then map_option (\<lambda>s1. s1\<lparr>t_reading := True\<rparr>) (t_on_channel (enableReading upd) s) else Some s)"

definition stopReadInLoop :: "(tcp_handler, 'p) poller_call \<Rightarrow> 'p tcp \<Rightarrow> 'p tcp option" where
  "stopReadInLoop upd s =
     (if t_reading s \<or> isReading (t_chan s)
      then map_option (\<lambda>s1. s1\<lparr>t_reading := False\<rparr>) (t_on_channel (disableReading upd) s) else Some s)"

text \<open>\<open>runInLoop\<close> of a functor that runs no callback: at once in the loop's thread, queued from another.\<close>

fun simple_functor :: "(tcp_handler, 'p) poller_call \<Rightarrow> (nat \<Rightarrow> nat sys) \<Rightarrow> loop_fn \<Rightarrow> 'p tcp \<Rightarrow> 'p tcp option" where
  "simple_functor upd wr (FSend data) s = sendInLoop upd wr data s"
| "simple_functor upd wr FShutdown s = Some (shutdownInLoop s)"
| "simple_functor upd wr FStartRead s = startReadInLoop upd s"
| "simple_functor upd wr FStopRead s = stopReadInLoop upd s"
| "simple_functor upd wr _ s = Some s"

definition runInLoop :: "(tcp_handler, 'p) poller_call \<Rightarrow> (nat \<Rightarrow> nat sys) \<Rightarrow> bool \<Rightarrow> loop_fn \<Rightarrow> 'p tcp \<Rightarrow> 'p tcp option" where
  "runInLoop upd wr inLoop f s = (if inLoop then simple_functor upd wr f s else Some (queueInLoop f s))"

definition tcp_send :: "(tcp_handler, 'p) poller_call \<Rightarrow> (nat \<Rightarrow> nat sys) \<Rightarrow> bool \<Rightarrow> bytes \<Rightarrow> 'p tcp \<Rightarrow> 'p tcp option" where
  "tcp_send upd wr inLoop data s =
     (if t_state s = kConnected then runInLoop upd wr inLoop (FSend data) (s\<lparr>w_requested := w_requested s + length data\<rparr>) else Some s)"

definition tcp_shutdown :: "(tcp_handler, 'p) poller_call \<Rightarrow> (nat \<Rightarrow> nat sys) \<Rightarrow> bool \<Rightarrow> 'p tcp \<Rightarrow> 'p tcp option" where
  "tcp_shutdown upd wr inLoop s =
     (if t_state s = kConnected then runInLoop upd wr inLoop FShutdown (s\<lparr>t_state := kDisconnecting\<rparr>) else Some s)"

definition forceClose :: "'p tcp \<Rightarrow> 'p tcp" where
  "forceClose s =
     (if t_state s = kConnected \<or> t_state s = kDisconnecting then queueInLoop FForceClose (s\<lparr>t_state := kDisconnecting\<rparr>) else s)"

definition forceCloseWithDelay :: "'p tcp \<Rightarrow> 'p tcp" where
  "forceCloseWithDelay s =
     (if t_state s = kConnected \<or> t_state s = kDisconnecting
      then s\<lparr>t_state := kDisconnecting, w_timers := w_timers s + 1\<rparr> else s)"

section \<open>Calls of the application\<close>

text \<open>\<open>UConsume\<close> takes bytes from the input buffer, as many as there are; it is for the loop's thread only.\<close>

datatype ucall = USend bytes | UShutdown | UForceClose | UForceCloseWithDelay | UStartRead | UStopRead | UConsume u64

fun do_call :: "(tcp_handler, 'p) poller_call \<Rightarrow> (nat \<Rightarrow> nat sys) \<Rightarrow> bool \<Rightarrow> ucall \<Rightarrow> 'p tcp \<Rightarrow> 'p tcp option" where
  "do_call upd wr inLoop (USend data) s = tcp_send upd wr inLoop data s"
| "do_call upd wr inLoop UShutdown s = tcp_shutdown upd wr inLoop s"
| "do_call upd wr inLoop UForceClose s = Some (forceClose s)"
| "do_call upd wr inLoop UForceCloseWithDelay s = Some (forceCloseWithDelay s)"
| "do_call upd wr inLoop UStartRead s = runInLoop upd wr inLoop FStartRead s"
| "do_call upd wr inLoop UStopRead s = runInLoop upd wr inLoop FStopRead s"
| "do_call upd wr inLoop (UConsume n) s =
     map_option (\<lambda>b. s\<lparr>t_input := b\<rparr>) (retrieve (min n (readableBytes (t_input s))) (t_input s))"

fun do_calls :: "(tcp_handler, 'p) poller_call \<Rightarrow> (nat \<Rightarrow> nat sys) \<Rightarrow> ucall list \<Rightarrow> 'p tcp \<Rightarrow> 'p tcp option" where
  "do_calls upd wr [] s = Some s"
| "do_calls upd wr (c # cs) s = do { s1 \<leftarrow> do_call upd wr True c s; do_calls upd wr cs s1 }"

datatype cb_event = CbConnection | CbMessage | CbWriteComplete | CbHighWaterMark u64

type_synonym 'p tcp_user = "cb_event \<Rightarrow> 'p tcp \<Rightarrow> ucall list"

definition callback :: "(tcp_handler, 'p) poller_call \<Rightarrow> (nat \<Rightarrow> nat sys) \<Rightarrow> 'p tcp_user \<Rightarrow> cb_event \<Rightarrow> 'p tcp \<Rightarrow> 'p tcp option" where
  "callback upd wr user e s = do_calls upd wr (user e s) s"

section \<open>Handlers\<close>

definition connectEstablished :: "(tcp_handler, 'p) poller_call \<Rightarrow> (nat \<Rightarrow> nat sys) \<Rightarrow> 'p tcp_user \<Rightarrow> 'p tcp \<Rightarrow> 'p tcp option" where
  "connectEstablished upd wr user s =
     (if t_state s = kConnecting then do {
        let s1 = t_modify MChannel_tie (s\<lparr>t_state := kConnected\<rparr>);
        s2 \<leftarrow> t_on_channel (enableReading upd) s1;
        callback upd wr user CbConnection s2
      }
      else None)"

definition connectDestroyed ::
    "(tcp_handler, 'p) poller_call \<Rightarrow> (tcp_handler, 'p) poller_call \<Rightarrow> (nat \<Rightarrow> nat sys) \<Rightarrow> 'p tcp_user \<Rightarrow> 'p tcp \<Rightarrow> 'p tcp option" where
  "connectDestroyed upd rem wr user s = do {
     s1 \<leftarrow> (if t_state s = kConnected then do {
               s1 \<leftarrow> t_on_channel (disableAll upd) (s\<lparr>t_state := kDisconnected\<rparr>);
               callback upd wr user CbConnection s1
             }
             else Some s);
     t_on_channel (MChannel_remove rem) s1
   }"

text \<open>The close callback is the server's: it takes the connection from its map and later queues \<open>connectDestroyed\<close>.\<close>

definition handleClose :: "(tcp_handler, 'p) poller_call \<Rightarrow> (nat \<Rightarrow> nat sys) \<Rightarrow> 'p tcp_user \<Rightarrow> 'p tcp \<Rightarrow> 'p tcp option" where
  "handleClose upd wr user s =
     (if t_state s = kConnected \<or> t_state s = kDisconnecting then do {
        s1 \<leftarrow> t_on_channel (disableAll upd) (s\<lparr>t_state := kDisconnected\<rparr>);
        s2 \<leftarrow> callback upd wr user CbConnection s1;
        Some (s2\<lparr>w_closed := True\<rparr>)
      }
      else None)"

definition forceCloseInLoop :: "(tcp_handler, 'p) poller_call \<Rightarrow> (nat \<Rightarrow> nat sys) \<Rightarrow> 'p tcp_user \<Rightarrow> 'p tcp \<Rightarrow> 'p tcp option" where
  "forceCloseInLoop upd wr user s =
     (if t_state s = kConnected \<or> t_state s = kDisconnecting then handleClose upd wr user s else Some s)"

definition tcp_handleRead ::
    "(tcp_handler, 'p) poller_call \<Rightarrow> (nat \<Rightarrow> nat sys) \<Rightarrow> 'p tcp_user \<Rightarrow> bytes sys \<Rightarrow> 'p tcp \<Rightarrow> 'p tcp option" where
  "tcp_handleRead upd wr user r s = do {
     (n, b) \<leftarrow> readFd r (t_input s);
     let s1 = s\<lparr>t_input := b\<rparr>;
     if 0 < n then callback upd wr user CbMessage s1
     else if n = 0 then handleClose upd wr user s1
     else Some s1
   }"

definition tcp_handleWrite :: "(tcp_handler, 'p) poller_call \<Rightarrow> (nat \<Rightarrow> nat sys) \<Rightarrow> 'p tcp \<Rightarrow> 'p tcp option" where
  "tcp_handleWrite upd wr s =
     (if isWriting (t_chan s) then do {
        data \<leftarrow> mem_read (peek (t_output s)) (unat (readableBytes (t_output s))) (mb_store (t_output s));
        (case sockets_write wr data s of
           (Ok n, s1) \<Rightarrow>
             if 0 < n then do {
               b \<leftarrow> retrieve (word_of_nat n) (t_output s1);
               let s2 = s1\<lparr>t_output := b\<rparr>;
               if readableBytes b = 0 then do {
                 s3 \<leftarrow> t_on_channel (disableWriting upd) s2;
                 let s4 = (if t_writeCompleteCallback s3 then queueInLoop FWriteComplete s3 else s3);
                 Some (if t_state s4 = kDisconnecting then shutdownInLoop s4 else s4)
               }
               else Some s2
             }
             else Some s1
         | (Fail e, s1) \<Rightarrow> Some s1)
      }
      else Some s)"

text \<open>\<open>handleError\<close> only reads and logs the error of the socket.\<close>

fun tcp_handler_run ::
    "(tcp_handler, 'p) poller_call \<Rightarrow> (nat \<Rightarrow> nat sys) \<Rightarrow> 'p tcp_user \<Rightarrow> bytes sys \<Rightarrow> tcp_handler \<Rightarrow> 'p tcp \<Rightarrow> 'p tcp option" where
  "tcp_handler_run upd wr user r ReadH s = tcp_handleRead upd wr user r s"
| "tcp_handler_run upd wr user r WriteH s = tcp_handleWrite upd wr s"
| "tcp_handler_run upd wr user r CloseH s = handleClose upd wr user s"
| "tcp_handler_run upd wr user r ErrorH s = Some s"

section \<open>The loop's view\<close>

fun t_run_functor ::
    "(tcp_handler, 'p) poller_call \<Rightarrow> (tcp_handler, 'p) poller_call \<Rightarrow> (nat \<Rightarrow> nat sys) \<Rightarrow> 'p tcp_user \<Rightarrow> loop_fn \<Rightarrow> 'p tcp \<Rightarrow> 'p tcp option" where
  "t_run_functor upd rem wr user FWriteComplete s = callback upd wr user CbWriteComplete s"
| "t_run_functor upd rem wr user (FHighWater n) s = callback upd wr user (CbHighWaterMark n) s"
| "t_run_functor upd rem wr user FForceClose s = forceCloseInLoop upd wr user s"
| "t_run_functor upd rem wr user FEstablished s = connectEstablished upd wr user s"
| "t_run_functor upd rem wr user FDestroyed s = connectDestroyed upd rem wr user s"
| "t_run_functor upd rem wr user f s = simple_functor upd wr f s"

fun run_functors ::
    "(tcp_handler, 'p) poller_call \<Rightarrow> (tcp_handler, 'p) poller_call \<Rightarrow> (nat \<Rightarrow> nat sys) \<Rightarrow> 'p tcp_user \<Rightarrow> loop_fn list \<Rightarrow> 'p tcp \<Rightarrow> 'p tcp option" where
  "run_functors upd rem wr user [] s = Some s"
| "run_functors upd rem wr user (f # fs) s = do { s1 \<leftarrow> t_run_functor upd rem wr user f s; run_functors upd rem wr user fs s1 }"

text \<open>What can happen: an event of the descriptor, a round of the loop's functors, a call of another thread, the timer of a
  delayed close, and the server's \<open>connectDestroyed\<close> after the close callback.\<close>

datatype tcp_event = EvIO u32 "bytes sys" | EvPending | EvOther ucall | EvTimer | EvDestroy

fun tcp_step ::
    "(tcp_handler, 'p) poller_call \<Rightarrow> (tcp_handler, 'p) poller_call \<Rightarrow> (nat \<Rightarrow> nat sys) \<Rightarrow> 'p tcp_user \<Rightarrow> tcp_event \<Rightarrow> 'p tcp \<Rightarrow> 'p tcp option" where
  "tcp_step upd rem wr user (EvIO revents r) s =
     MChannel_handleEvent (tcp_handler_run upd wr user r) t_chan t_modify (\<lambda>_. True) (t_modify (set_revents revents) s)"
| "tcp_step upd rem wr user EvPending s = run_functors upd rem wr user (w_pending s) (s\<lparr>w_pending := []\<rparr>)"
| "tcp_step upd rem wr user (EvOther c) s = do_call upd wr False c s"
| "tcp_step upd rem wr user EvTimer s = Some (forceClose (s\<lparr>w_timers := w_timers s - 1\<rparr>))"
| "tcp_step upd rem wr user EvDestroy s = Some (queueInLoop FDestroyed (s\<lparr>w_destroys := w_destroys s + 1\<rparr>))"

fun tcp_run ::
    "(tcp_handler, 'p) poller_call \<Rightarrow> (tcp_handler, 'p) poller_call \<Rightarrow> (nat \<Rightarrow> nat sys) \<Rightarrow> 'p tcp_user \<Rightarrow> tcp_event list \<Rightarrow> 'p tcp \<Rightarrow> 'p tcp option" where
  "tcp_run upd rem wr user [] s = Some s"
| "tcp_run upd rem wr user (e # es) s = do { s1 \<leftarrow> tcp_step upd rem wr user e s; tcp_run upd rem wr user es s1 }"

section \<open>What is assumed of the kernel and the application\<close>

definition is_open :: "'p tcp \<Rightarrow> bool" where
  "is_open s \<longleftrightarrow> t_state s = kConnected \<or> t_state s = kDisconnecting"

fun reading_call :: "ucall \<Rightarrow> bool" where
  "reading_call UStartRead = True"
| "reading_call UStopRead = True"
| "reading_call _ = False"

fun call_bytes :: "ucall \<Rightarrow> nat" where
  "call_bytes (USend data) = length data"
| "call_bytes _ = 0"

fun fn_bytes :: "loop_fn \<Rightarrow> nat" where
  "fn_bytes (FSend data) = length data"
| "fn_bytes _ = 0"

definition script_bytes :: "ucall list \<Rightarrow> nat" where "script_bytes cs = sum_list (map call_bytes cs)"
definition queued_bytes :: "loop_fn list \<Rightarrow> nat" where "queued_bytes fs = sum_list (map fn_bytes fs)"

text \<open>The application calls \<open>startRead\<close> and \<open>stopRead\<close> only on open connections, and sends at most \<open>2^60\<close> bytes over a connection.\<close>

definition user_ok :: "'p tcp_user \<Rightarrow> bool" where
  "user_ok user \<longleftrightarrow> (\<forall>e s. (is_open s \<or> (\<forall>c \<in> set (user e s). \<not> reading_call c)) \<and>
     (w_requested s \<le> 2 ^ 60 \<longrightarrow> w_requested s + script_bytes (user e s) \<le> 2 ^ 60))"

text \<open>The kernel reports events of a registered descriptor only: those asked for, errors and hang-ups, and a hang-up of a connection
  that is watched for input comes with input (the end of the stream). A read fits into the space it is offered.\<close>

definition reported :: "u32 \<Rightarrow> u32 \<Rightarrow> bool" where
  "reported asked re \<longleftrightarrow> asked \<noteq> 0 \<and> re AND NOT (asked OR EPOLLERR OR EPOLLHUP OR POLLNVAL) = 0 \<and>
     (re AND EPOLLPRI \<noteq> 0 \<and> re AND EPOLLHUP \<noteq> 0 \<longrightarrow> re AND EPOLLIN \<noteq> 0)"

definition read_fits :: "bytes sys \<Rightarrow> MBuffer \<Rightarrow> bool" where
  "read_fits r b \<longleftrightarrow> (case r of Fail e \<Rightarrow> True
     | Ok xs \<Rightarrow> length (contents b) + 2 * length xs \<le> 2 ^ 61 \<and>
         length xs \<le> unat (writableBytes b) + (if unat (writableBytes b) < extrabuf_size then extrabuf_size else 0))"

fun event_ok :: "tcp_event \<Rightarrow> 'p tcp \<Rightarrow> bool" where
  "event_ok (EvIO re r) s \<longleftrightarrow> reported (mc_events (t_chan s)) re \<and> read_fits r (t_input s)"
| "event_ok EvPending s \<longleftrightarrow> True"
| "event_ok (EvOther c) s \<longleftrightarrow> \<not> reading_call c \<and> (\<forall>n. c \<noteq> UConsume n) \<and> w_requested s + call_bytes c \<le> 2 ^ 60"
| "event_ok EvTimer s \<longleftrightarrow> 0 < w_timers s"
| "event_ok EvDestroy s \<longleftrightarrow> w_closed s \<and> w_destroys s = 0"

fun possible ::
    "(tcp_handler, 'p) poller_call \<Rightarrow> (tcp_handler, 'p) poller_call \<Rightarrow> (nat \<Rightarrow> nat sys) \<Rightarrow> 'p tcp_user \<Rightarrow> tcp_event list \<Rightarrow> 'p tcp \<Rightarrow> bool" where
  "possible upd rem wr user [] s = True"
| "possible upd rem wr user (e # es) s =
     (event_ok e s \<and> (case tcp_step upd rem wr user e s of None \<Rightarrow> True | Some s1 \<Rightarrow> possible upd rem wr user es s1))"

section \<open>The channel of a connection\<close>

definition frame :: "'p tcp \<Rightarrow> tcp_handler MChannel" where "frame s = chan_frame (t_chan s)"

definition wired :: "tcp_handler MChannel \<Rightarrow> bool" where
  "wired c \<longleftrightarrow> mc_readCallback c = Some ReadH \<and> mc_writeCallback c = Some WriteH \<and> mc_closeCallback c = Some CloseH \<and>
     mc_errorCallback c = Some ErrorH"

lemma chan_updates [simp]:
  "t_chan (s\<lparr>t_state := a\<rparr>) = t_chan s" "t_chan (s\<lparr>t_reading := r\<rparr>) = t_chan s" "t_chan (s\<lparr>t_input := b\<rparr>) = t_chan s"
  "t_chan (s\<lparr>t_output := b\<rparr>) = t_chan s" "t_chan (s\<lparr>w_pending := q\<rparr>) = t_chan s" "t_chan (s\<lparr>w_timers := n\<rparr>) = t_chan s"
  "t_chan (s\<lparr>w_nwrites := n\<rparr>) = t_chan s" "t_chan (s\<lparr>w_requested := n\<rparr>) = t_chan s" "t_chan (s\<lparr>w_wire := d\<rparr>) = t_chan s"
  "t_chan (s\<lparr>w_accepted := d\<rparr>) = t_chan s" "t_chan (s\<lparr>w_shutdown := x\<rparr>) = t_chan s" "t_chan (s\<lparr>w_closed := y\<rparr>) = t_chan s"
  "t_chan (s\<lparr>w_destroys := n\<rparr>) = t_chan s"
  by (simp_all add: t_chan_def)

lemma frame_updates [simp]:
  "frame (s\<lparr>t_state := a\<rparr>) = frame s" "frame (s\<lparr>t_reading := r\<rparr>) = frame s" "frame (s\<lparr>t_input := b\<rparr>) = frame s"
  "frame (s\<lparr>t_output := b\<rparr>) = frame s" "frame (s\<lparr>w_pending := q\<rparr>) = frame s" "frame (s\<lparr>w_timers := n\<rparr>) = frame s"
  "frame (s\<lparr>w_nwrites := n\<rparr>) = frame s" "frame (s\<lparr>w_requested := n\<rparr>) = frame s" "frame (s\<lparr>w_wire := d\<rparr>) = frame s"
  "frame (s\<lparr>w_accepted := d\<rparr>) = frame s" "frame (s\<lparr>w_shutdown := x\<rparr>) = frame s" "frame (s\<lparr>w_closed := y\<rparr>) = frame s"
  "frame (s\<lparr>w_destroys := n\<rparr>) = frame s"
  by (simp_all add: frame_def)

lemma frame_chan: "frame s' = frame s \<Longrightarrow> mc_revents (t_chan s') = mc_revents (t_chan s) \<and> wired (t_chan s') = wired (t_chan s)"
  by (cases "t_chan s"; cases "t_chan s'") (auto simp: frame_def chan_frame_def wired_def)

text \<open>The queue of functors and the state, and the half-close.\<close>

definition queue_rel :: "loop_fn list \<Rightarrow> 'p tcp \<Rightarrow> bool" where
  "queue_rel Q s \<longleftrightarrow> (t_state s = kConnecting \<longrightarrow> Q = [FEstablished]) \<and> (t_state s \<noteq> kConnecting \<longrightarrow> FEstablished \<notin> set Q) \<and>
     count_list Q FDestroyed \<le> w_destroys s \<and> w_destroys s \<le> 1 \<and> (0 < w_destroys s \<or> w_closed s \<longrightarrow> t_state s = kDisconnected) \<and>
     FStartRead \<notin> set Q \<and> FStopRead \<notin> set Q \<and>
     (t_state s = kDisconnecting \<longrightarrow>
        w_shutdown s \<noteq> None \<or> contents (t_output s) \<noteq> [] \<or> FShutdown \<in> set Q \<or> FForceClose \<in> set Q \<or> 0 < w_timers s)"

lemma queue_rel_updates [simp]:
  "queue_rel Q (s\<lparr>w_requested := n\<rparr>) = queue_rel Q s" "queue_rel Q (s\<lparr>t_input := b\<rparr>) = queue_rel Q s" "queue_rel Q (s\<lparr>w_poll := w\<rparr>) = queue_rel Q s"
  "queue_rel Q (s\<lparr>w_pending := q\<rparr>) = queue_rel Q s" "queue_rel Q (s\<lparr>w_nwrites := n\<rparr>) = queue_rel Q s"
  by (simp_all add: queue_rel_def)

lemma queue_open:
  assumes "is_open s"
  shows "queue_rel Q s \<longleftrightarrow> FEstablished \<notin> set Q \<and> FDestroyed \<notin> set Q \<and> FStartRead \<notin> set Q \<and> FStopRead \<notin> set Q \<and> w_destroys s = 0 \<and>
     \<not> w_closed s \<and> (t_state s = kDisconnecting \<longrightarrow>
        w_shutdown s \<noteq> None \<or> contents (t_output s) \<noteq> [] \<or> FShutdown \<in> set Q \<or> FForceClose \<in> set Q \<or> 0 < w_timers s)"
proof -
  have "t_state s \<noteq> kConnecting" "t_state s \<noteq> kDisconnected" using assms by (auto simp: is_open_def)
  then show ?thesis unfolding queue_rel_def by (cases "w_destroys s") (auto simp: count_list_0_iff)
qed

definition shut_rel :: "'p tcp \<Rightarrow> bool" where
  "shut_rel s \<longleftrightarrow> (case w_shutdown s of None \<Rightarrow> True | Some (st, unsent) \<Rightarrow> unsent = [] \<or> st = kDisconnected)"

definition t_keeps :: "'p tcp \<Rightarrow> 'p tcp \<Rightarrow> bool" where
  "t_keeps s s' \<longleftrightarrow> frame s' = frame s \<and> t_channel s' = t_channel s \<and> (t_state s' = t_state s \<or> is_open s \<and> is_open s')"

lemma keeps_trans: "t_keeps s s1 \<Longrightarrow> t_keeps s1 s2 \<Longrightarrow> t_keeps s s2"
  by (auto simp: t_keeps_def is_open_def)

lemma queued_bytes_simps [simp]:
  "queued_bytes [] = 0" "queued_bytes (f # fs) = fn_bytes f + queued_bytes fs" "queued_bytes (fs @ gs) = queued_bytes fs + queued_bytes gs"
  by (simp_all add: queued_bytes_def)

lemma direct_write_cases:
  assumes "direct_write wr data s = (r, s1)"
  obtains k q where "s1 = s\<lparr>w_nwrites := w_nwrites s + 1, w_wire := w_wire s @ take k data, w_pending := w_pending s @ q\<rparr>"
    "q = [] \<or> q = [FWriteComplete]" "r = Some (drop k data) \<or> r = None \<and> k = 0"
proof (cases "wr (w_nwrites s)")
  case (Ok n)
  have d: "drop (min (length data) n) data = drop n data" by (simp add: min_def)
  show ?thesis
    using assms Ok that [where k = n and q = "if length data - n = 0 \<and> t_writeCompleteCallback s then [FWriteComplete] else []"]
    by (auto simp: direct_write_def sockets_write_def queueInLoop_def d min.commute min_def Let_def split: if_splits)
next
  case (Fail e)
  then show ?thesis using assms that [where k = 0 and q = "[]"] by (auto simp: direct_write_def sockets_write_def Let_def split: if_splits)
qed

text \<open>What holds of a connection in every state; \<open>asked\<close> are the events the poller asks the kernel for.\<close>

definition conn_correct :: "('p \<Rightarrow> int \<Rightarrow> u32) \<Rightarrow> int \<Rightarrow> 'p tcp \<Rightarrow> bool" where
  "conn_correct asked fd s \<longleftrightarrow>
     w_wire s @ contents (t_output s) = w_accepted s \<and>
     (is_open s \<longrightarrow> (asked (snd (w_poll s)) fd AND kWriteEvent \<noteq> 0 \<longleftrightarrow> contents (t_output s) \<noteq> [])) \<and>
     (t_state s = kDisconnected \<and> w_destroys s = 0 \<longrightarrow> asked (snd (w_poll s)) fd = 0) \<and>
     (t_state s = kDisconnecting \<longrightarrow> w_shutdown s \<noteq> None \<or> contents (t_output s) \<noteq> [] \<or> FShutdown \<in> set (w_pending s) \<or>
        FForceClose \<in> set (w_pending s) \<or> 0 < w_timers s) \<and>
     shut_rel s"

locale tcp_poller = channel_poller update remove inv table watch removable new
  for update :: "nat \<Rightarrow> tcp_handler chans \<times> 'p \<Rightarrow> (tcp_handler chans \<times> 'p) option"
    and remove inv table watch removable and new :: 'p
begin

definition at_phase :: "nat set \<Rightarrow> 'p tcp \<Rightarrow> chan_phase \<Rightarrow> bool" where
  "at_phase B s ph \<longleftrightarrow> (\<exists>sp. sim B (w_poll s) sp \<and> sp_chan sp (t_channel s) = Some ph \<and> (\<forall>fd. ph = Fresh fd \<longrightarrow> sp_owner sp fd = None))"

lemma at_phase_cong: "w_poll s' = w_poll s \<Longrightarrow> t_channel s' = t_channel s \<Longrightarrow> at_phase B s' ph = at_phase B s ph"
  by (simp add: at_phase_def)

lemma at_phase_updates [simp]:
  "at_phase B (s\<lparr>t_state := a\<rparr>) = at_phase B s" "at_phase B (s\<lparr>t_reading := r\<rparr>) = at_phase B s" "at_phase B (s\<lparr>t_input := b\<rparr>) = at_phase B s"
  "at_phase B (s\<lparr>t_output := b\<rparr>) = at_phase B s" "at_phase B (s\<lparr>w_pending := q\<rparr>) = at_phase B s" "at_phase B (s\<lparr>w_timers := n\<rparr>) = at_phase B s"
  "at_phase B (s\<lparr>w_nwrites := n\<rparr>) = at_phase B s" "at_phase B (s\<lparr>w_requested := n\<rparr>) = at_phase B s" "at_phase B (s\<lparr>w_wire := d\<rparr>) = at_phase B s"
  "at_phase B (s\<lparr>w_accepted := d\<rparr>) = at_phase B s" "at_phase B (s\<lparr>w_shutdown := x\<rparr>) = at_phase B s" "at_phase B (s\<lparr>w_closed := y\<rparr>) = at_phase B s"
  "at_phase B (s\<lparr>w_destroys := n\<rparr>) = at_phase B s"
  by (simp_all add: fun_eq_iff at_phase_def)

lemma phase_chan:
  assumes "at_phase B s ph"
  shows "fst (w_poll s) (t_channel s) = Some (t_chan s)"
    and "ph = Active fd m \<Longrightarrow> mc_events (t_chan s) = m \<and> mask_ok m \<and> watch (snd (w_poll s)) fd = m \<and> mc_fd (t_chan s) = fd"
    and "\<forall>fd m. ph \<noteq> Active fd m \<Longrightarrow> mc_events (t_chan s) = 0"
proof -
  obtain sp where sp: "sim B (fst (w_poll s), snd (w_poll s)) sp" "sp_chan sp (t_channel s) = Some ph"
    using assms by (auto simp: at_phase_def)
  from sim_phase [OF sp] obtain c where c: "fst (w_poll s) (t_channel s) = Some c"
    "phase_ok B (snd (w_poll s)) (sp_owner sp) (t_channel s) c ph" by blast
  then show t: "fst (w_poll s) (t_channel s) = Some (t_chan s)" by (simp add: t_chan_def)
  show "mc_events (t_chan s) = m \<and> mask_ok m \<and> watch (snd (w_poll s)) fd = m \<and> mc_fd (t_chan s) = fd" if "ph = Active fd m"
    using c t that by (auto simp: phase_ok_def)
  show "mc_events (t_chan s) = 0" if "\<forall>fd m. ph \<noteq> Active fd m"
    using c t that by (cases ph) (auto simp: phase_ok_def)
qed

lemma frame_poll: "map_option chan_frame (fst w (t_channel s)) = map_option chan_frame (fst (w_poll s) (t_channel s)) \<Longrightarrow>
    frame (s\<lparr>w_poll := w\<rparr>) = frame s"
  by (auto simp: frame_def t_chan_def split: option.splits)

text \<open>Changes of the mask, from the channel's first use on.\<close>

lemma mask_step:
  assumes ph: "at_phase B s ph" and to: "ph = Active fd m \<or> ph = Fresh fd \<and> m = 0 \<and> f 0 \<noteq> 0" and f: "\<And>m. mask_ok m \<Longrightarrow> mask_ok (f m)"
  shows "returns (MChannel_update update (t_channel s) (at_channel (t_channel s) (\<lambda>c. c\<lparr>mc_events := f (mc_events c)\<rparr>) (fst (w_poll s)), snd (w_poll s)))
    (\<lambda>w. at_phase B (s\<lparr>w_poll := w\<rparr>) (Active fd (f m)) \<and> frame (s\<lparr>w_poll := w\<rparr>) = frame s)"
proof -
  let ?a = "t_channel s"
  obtain sp where sp: "sim B (fst (w_poll s), snd (w_poll s)) sp" "sp_chan sp ?a = Some ph" "\<forall>fd. ph = Fresh fd \<longrightarrow> sp_owner sp fd = None"
    using ph by (auto simp: at_phase_def)
  obtain sp' where m: "spec_mask f ?a sp = Some sp'" "sp_chan sp' ?a = Some (Active fd (f m))"
    using sp(2,3) to by (auto simp: spec_mask_def)
  have "returns (MChannel_update update ?a (at_channel ?a (\<lambda>c. c\<lparr>mc_events := f (mc_events c)\<rparr>) (fst (w_poll s)), snd (w_poll s)))
      (\<lambda>w. sim B w sp' \<and> map_option chan_frame (fst w ?a) = map_option chan_frame (fst (w_poll s) ?a))"
    by (rule sim_mask_frame [OF sp(1) m(1) f])
  then show ?thesis
  proof (rule returns_mono)
    fix w assume w: "sim B w sp' \<and> map_option chan_frame (fst w ?a) = map_option chan_frame (fst (w_poll s) ?a)"
    then have "at_phase B (s\<lparr>w_poll := w\<rparr>) (Active fd (f m))" using m(2) unfolding at_phase_def by auto
    then show "at_phase B (s\<lparr>w_poll := w\<rparr>) (Active fd (f m)) \<and> frame (s\<lparr>w_poll := w\<rparr>) = frame s" using w frame_poll by blast
  qed
qed

lemma on_channel_mask:
  assumes "at_phase B s ph" and "ph = Active fd m \<or> ph = Fresh fd \<and> m = 0 \<and> f 0 \<noteq> 0" and "\<And>m. mask_ok m \<Longrightarrow> mask_ok (f m)"
    and call: "\<And>a w. call a w = MChannel_update update a (at_channel a (\<lambda>c. c\<lparr>mc_events := f (mc_events c)\<rparr>) (fst w), snd w)"
  shows "returns (t_on_channel call s) (\<lambda>s'. \<exists>w. s' = s\<lparr>w_poll := w\<rparr> \<and> at_phase B s' (Active fd (f m)) \<and> frame s' = frame s)"
  unfolding t_on_channel_def call returns_map_option
  by (rule returns_mono [OF mask_step [where f = f, OF assms(1,2)]]) (use assms(3) in blast)+

lemma on_mask:
  assumes "at_phase B s (Active fd m)"
  shows "returns (t_on_channel (enableReading update) s) (\<lambda>s'. \<exists>w. s' = s\<lparr>w_poll := w\<rparr> \<and> at_phase B s' (Active fd (m OR kReadEvent)) \<and> frame s' = frame s)"
    "returns (t_on_channel (disableReading update) s) (\<lambda>s'. \<exists>w. s' = s\<lparr>w_poll := w\<rparr> \<and> at_phase B s' (Active fd (m AND NOT kReadEvent)) \<and> frame s' = frame s)"
    "returns (t_on_channel (enableWriting update) s) (\<lambda>s'. \<exists>w. s' = s\<lparr>w_poll := w\<rparr> \<and> at_phase B s' (Active fd (m OR kWriteEvent)) \<and> frame s' = frame s)"
    "returns (t_on_channel (disableWriting update) s) (\<lambda>s'. \<exists>w. s' = s\<lparr>w_poll := w\<rparr> \<and> at_phase B s' (Active fd (m AND NOT kWriteEvent)) \<and> frame s' = frame s)"
    "returns (t_on_channel (disableAll update) s) (\<lambda>s'. \<exists>w. s' = s\<lparr>w_poll := w\<rparr> \<and> at_phase B s' (Active fd 0) \<and> frame s' = frame s)"
  using mask_ok_ops mask_ok_ops(5) [unfolded kNoneEvent_def]
  by (intro on_channel_mask [where f = "\<lambda>m. m OR kReadEvent", OF assms] on_channel_mask [where f = "\<lambda>m. m AND NOT kReadEvent", OF assms]
      on_channel_mask [where f = "\<lambda>m. m OR kWriteEvent", OF assms] on_channel_mask [where f = "\<lambda>m. m AND NOT kWriteEvent", OF assms]
      on_channel_mask [where f = "\<lambda>m. 0", OF assms];
    simp add: enableReading_def disableReading_def enableWriting_def disableWriting_def disableAll_def kNoneEvent_def)+

lemma on_first_read:
  assumes "at_phase B s (Fresh fd)"
  shows "returns (t_on_channel (enableReading update) s) (\<lambda>s'. \<exists>w. s' = s\<lparr>w_poll := w\<rparr> \<and> at_phase B s' (Active fd kReadEvent) \<and> frame s' = frame s)"
  using on_channel_mask [where f = "\<lambda>m. m OR kReadEvent" and call = "enableReading update" and m = 0, OF assms, of fd] mask_ok_ops(1)
  by (simp add: enableReading_def kReadEvent_def epoll_flags)

lemma on_remove:
  assumes "at_phase B s (Active fd 0)"
  shows "returns (t_on_channel (MChannel_remove remove) s) (\<lambda>s'. \<exists>w. s' = s\<lparr>w_poll := w\<rparr> \<and> at_phase B s' Gone)"
proof -
  let ?a = "t_channel s"
  obtain sp where sp: "sim B (fst (w_poll s), snd (w_poll s)) sp" "sp_chan sp ?a = Some (Active fd 0)"
    using assms by (auto simp: at_phase_def)
  then have "spec_step (RemoveChan ?a) sp = Some (sp\<lparr>sp_chan := (sp_chan sp)(?a \<mapsto> Gone), sp_owner := (sp_owner sp)(fd := None)\<rparr>)" by simp
  from sim_remove [OF sp(1) this] show ?thesis
    by (auto simp: t_on_channel_def at_phase_def elim!: returns_mono)
qed

text \<open>Changes that the poller does not see.\<close>

lemma modify_phase:
  assumes ph: "at_phase B s ph" and f: "\<And>c. mc_fd (f c) = mc_fd c \<and> mc_index (f c) = mc_index c \<and> mc_events (f c) = mc_events c \<and>
      mc_addedToLoop (f c) = mc_addedToLoop c"
    and B: "insert (t_channel s) B = insert (t_channel s) B'"
    and h: "t_channel s \<notin> B' \<Longrightarrow> \<forall>c. mc_eventHandling (f c) \<longrightarrow> t_channel s \<notin> B \<and> mc_eventHandling c"
  shows "at_phase B' (t_modify f s) ph" "t_chan (t_modify f s) = f (t_chan s)"
proof -
  obtain sp where "sim B (fst (w_poll s), snd (w_poll s)) sp" "sp_chan sp (t_channel s) = Some ph" "\<forall>fd. ph = Fresh fd \<longrightarrow> sp_owner sp fd = None"
    using ph by (auto simp: at_phase_def)
  then show "at_phase B' (t_modify f s) ph"
    using sim_change [of B "fst (w_poll s)" "snd (w_poll s)" sp f "t_channel s" B', OF _ f B h] by (auto simp: at_phase_def t_modify_def)
  show "t_chan (t_modify f s) = f (t_chan s)" using phase_chan(1) [OF ph] by (auto simp: t_chan_def t_modify_def split: option.splits)
qed

section \<open>The invariant\<close>

definition phase_rel :: "int \<Rightarrow> nat set \<Rightarrow> loop_fn list \<Rightarrow> 'p tcp \<Rightarrow> bool" where
  "phase_rel fd B Q s \<longleftrightarrow>
     (case t_state s of
        kConnecting \<Rightarrow> at_phase B s (Fresh fd) \<and> contents (t_output s) = []
      | kDisconnected \<Rightarrow> at_phase B s (if count_list Q FDestroyed < w_destroys s then Gone else Active fd 0)
      | _ \<Rightarrow> (\<exists>m. at_phase B s (Active fd m) \<and> (m AND kWriteEvent \<noteq> 0 \<longleftrightarrow> contents (t_output s) \<noteq> [])))"

lemma phase_rel_cong:
  assumes "w_poll s' = w_poll s" "t_channel s' = t_channel s" "t_state s' = t_state s" "t_output s' = t_output s" "w_destroys s' = w_destroys s"
  shows "phase_rel fd B Q s' = phase_rel fd B Q s"
  unfolding phase_rel_def assms(3-5) at_phase_cong [OF assms(1,2)] ..

lemma phase_rel_updates [simp]:
  "phase_rel fd B Q (s\<lparr>w_requested := n\<rparr>) = phase_rel fd B Q s" "phase_rel fd B Q (s\<lparr>t_input := b\<rparr>) = phase_rel fd B Q s"
  "phase_rel fd B Q (s\<lparr>w_closed := c\<rparr>) = phase_rel fd B Q s" "phase_rel fd B Q (s\<lparr>w_nwrites := n\<rparr>) = phase_rel fd B Q s"
  "phase_rel fd B Q (s\<lparr>w_pending := q\<rparr>) = phase_rel fd B Q s" "phase_rel fd B Q (s\<lparr>w_timers := n\<rparr>) = phase_rel fd B Q s"
  by (rule phase_rel_cong; simp)+

definition tcp_conn_ok :: "int \<Rightarrow> nat set \<Rightarrow> loop_fn list \<Rightarrow> 'p tcp \<Rightarrow> bool" where
  "tcp_conn_ok fd B fs s \<longleftrightarrow>
     mb_inv (t_input s) \<and> mb_inv (t_output s) \<and> w_wire s @ contents (t_output s) = w_accepted s \<and>
     length (w_accepted s) + queued_bytes (fs @ w_pending s) \<le> w_requested s \<and> w_requested s \<le> 2 ^ 60 \<and>
     phase_rel fd B (fs @ w_pending s) s \<and> queue_rel (fs @ w_pending s) s \<and> (t_state s \<noteq> kDisconnected \<longrightarrow> wired (t_chan s)) \<and> shut_rel s"

lemma open_phase:
  assumes "tcp_conn_ok fd B fs s" and "is_open s"
  obtains m where "at_phase B s (Active fd m)" "m AND kWriteEvent \<noteq> 0 \<longleftrightarrow> contents (t_output s) \<noteq> []"
    "isWriting (t_chan s) \<longleftrightarrow> contents (t_output s) \<noteq> []"
proof -
  from assms obtain m where m: "at_phase B s (Active fd m)" "m AND kWriteEvent \<noteq> 0 \<longleftrightarrow> contents (t_output s) \<noteq> []"
    by (auto simp: tcp_conn_ok_def phase_rel_def is_open_def)
  then show ?thesis using that phase_chan(2) [OF m(1) refl] by (simp add: isWriting_def)
qed

text \<open>An open connection after a change of its stream, its queue or its mask.\<close>

lemma conn_okI:
  assumes "tcp_conn_ok fd B fs s" and "is_open s" and s': "t_state s' = t_state s" "t_input s' = t_input s" "w_pending s' = w_pending s @ q"
    "w_requested s' = w_requested s" "w_shutdown s' = w_shutdown s" "w_closed s' = w_closed s" "w_destroys s' = w_destroys s"
    "w_timers s' = w_timers s" "frame s' = frame s"
    and out: "mb_inv (t_output s')" "w_wire s' @ contents (t_output s') = w_accepted s'"
    and q: "FEstablished \<notin> set q" "FDestroyed \<notin> set q" "FStartRead \<notin> set q" "FStopRead \<notin> set q" "queued_bytes q = 0"
    and len: "length (w_accepted s') + queued_bytes (fs @ w_pending s) \<le> w_requested s"
    and ph: "at_phase B s' (Active fd m)" "m AND kWriteEvent \<noteq> 0 \<longleftrightarrow> contents (t_output s') \<noteq> []"
    and shut: "t_state s = kDisconnecting \<Longrightarrow> contents (t_output s) \<noteq> [] \<Longrightarrow> contents (t_output s') \<noteq> [] \<or> FShutdown \<in> set fs"
  shows "tcp_conn_ok fd B fs s'"
proof -
  have "phase_rel fd B (fs @ w_pending s') s'" using ph assms(2) s'(1) by (auto simp: phase_rel_def is_open_def)
  moreover have "queue_rel (fs @ w_pending s') s'"
  proof -
    have o: "is_open s'" using assms(2) s'(1) by (simp add: is_open_def)
    have "queue_rel (fs @ w_pending s) s" using assms(1) by (simp add: tcp_conn_ok_def)
    moreover have "t_state s = kDisconnecting \<longrightarrow> contents (t_output s) \<noteq> [] \<longrightarrow> contents (t_output s') \<noteq> [] \<or> FShutdown \<in> set fs"
      using shut by blast
    ultimately show ?thesis
      using q(1-4) unfolding queue_open [OF o] queue_open [OF assms(2)] s' set_append Un_iff by (elim conjE, intro conjI; metis)
  qed
  moreover have "wired (t_chan s')" using assms(1,2) frame_chan [OF s'(9)] by (auto simp: tcp_conn_ok_def is_open_def)
  ultimately show ?thesis using assms(1) s' out len q(5) by (simp add: tcp_conn_ok_def shut_rel_def)
qed

lemma wrote_ok:
  assumes c: "tcp_conn_ok fd B fs s" "is_open s" and e: "contents (t_output s) = []" and q: "q = [] \<or> q = [FWriteComplete]"
    and len: "length (w_accepted s) + length xs + queued_bytes (fs @ w_pending s) \<le> w_requested s"
  shows "tcp_conn_ok fd B fs (s\<lparr>w_nwrites := n, w_wire := w_wire s @ xs, w_pending := w_pending s @ q, w_accepted := w_accepted s @ xs\<rparr>)"
proof -
  obtain m where m: "at_phase B s (Active fd m)" "m AND kWriteEvent \<noteq> 0 \<longleftrightarrow> contents (t_output s) \<noteq> []" using open_phase [OF c] by metis
  show ?thesis by (rule conn_okI [OF c, where q = q and m = m]) (use c q m e len in \<open>auto simp: tcp_conn_ok_def\<close>)
qed

lemma buffer_rest_ok:
  assumes c: "tcp_conn_ok fd B fs s" "is_open s" and r: "rest \<noteq> []"
    and len: "length (w_accepted s) + length rest + queued_bytes (fs @ w_pending s) \<le> w_requested s"
  shows "returns (buffer_rest update rest (s\<lparr>w_accepted := w_accepted s @ rest\<rparr>))
    (\<lambda>s'. tcp_conn_ok fd B fs s' \<and> t_keeps s s' \<and> w_requested s' = w_requested s)"
proof -
  obtain m where m: "at_phase B s (Active fd m)" "m AND kWriteEvent \<noteq> 0 \<longleftrightarrow> contents (t_output s) \<noteq> []"
    "isWriting (t_chan s) \<longleftrightarrow> contents (t_output s) \<noteq> []" using open_phase [OF c] by metis
  have i: "mb_inv (t_output s)" and w: "w_wire s @ contents (t_output s) = w_accepted s" and lim: "w_requested s \<le> 2 ^ 60"
    using c(1) by (auto simp: tcp_conn_ok_def)
  have le: "length (contents (t_output s)) + length rest \<le> 2 ^ 60" using len lim arg_cong [OF w, of length] by simp
  then have ul: "unat (word_of_nat (length rest) :: u64) = length rest" by (intro unat_word_of_nat_small) simp
  obtain b where b: "MBuffer_append rest (word_of_nat (length rest)) (t_output s) = Some b" "mb_inv b" "contents b = contents (t_output s) @ rest"
    using MBuffer_append_ok [OF i, of "word_of_nat (length rest)" rest] le ul by (auto simp: returns_iff)
  define q where "q = (if t_highWaterMark s \<le> readableBytes (t_output s) + word_of_nat (length rest) \<and>
      readableBytes (t_output s) < t_highWaterMark s \<and> t_highWaterMarkCallback s
    then [FHighWater (readableBytes (t_output s) + word_of_nat (length rest))] else [])"
  define s2 where "s2 = s\<lparr>w_accepted := w_accepted s @ rest, w_pending := w_pending s @ q, t_output := b\<rparr>"
  have eq: "buffer_rest update rest (s\<lparr>w_accepted := w_accepted s @ rest\<rparr>) =
      (if \<not> isWriting (t_chan s2) then t_on_channel (enableWriting update) s2 else Some s2)"
    by (simp add: buffer_rest_def Let_def b(1) queueInLoop_def q_def s2_def)
  have ok: "tcp_conn_ok fd B fs (s2\<lparr>w_poll := w\<rparr>)" "t_keeps s (s2\<lparr>w_poll := w\<rparr>)"
    if "at_phase B (s2\<lparr>w_poll := w\<rparr>) (Active fd k)" "k AND kWriteEvent \<noteq> 0" "frame (s2\<lparr>w_poll := w\<rparr>) = frame s" for w k
  proof -
    show "tcp_conn_ok fd B fs (s2\<lparr>w_poll := w\<rparr>)"
      by (rule conn_okI [OF c, where q = q and m = k]) (use that b(2,3) r w len in \<open>auto simp: s2_def q_def\<close>)
    show "t_keeps s (s2\<lparr>w_poll := w\<rparr>)" using that(3) by (simp add: t_keeps_def s2_def)
  qed
  have p2: "at_phase B s2 (Active fd m)" "frame s2 = frame s" "isWriting (t_chan s2) = isWriting (t_chan s)" using m(1) by (simp_all add: s2_def)
  show ?thesis
  proof (cases "isWriting (t_chan s)")
    case True
    then show ?thesis using ok [of "w_poll s2" m] p2 m eq by (simp add: s2_def)
  next
    case False
    have "(m OR kWriteEvent) AND kWriteEvent = kWriteEvent" by (auto simp: bit_eq_iff bit_simps)
    then have bit: "(m OR kWriteEvent) AND kWriteEvent \<noteq> 0" by (simp add: kWriteEvent_def epoll_flags)
    have "returns (t_on_channel (enableWriting update) s2)
        (\<lambda>s'. tcp_conn_ok fd B fs s' \<and> t_keeps s s' \<and> w_requested s' = w_requested s)"
      using on_mask(3) [OF p2(1)]
      by (rule returns_mono) (use ok bit p2(2) in \<open>auto simp: s2_def\<close>)
    then show ?thesis using False p2(3) eq by simp
  qed
qed

lemma sendInLoop_ok:
  assumes c: "tcp_conn_ok fd B fs s" "t_state s \<noteq> kConnecting"
    and len: "length (w_accepted s) + length data + queued_bytes (fs @ w_pending s) \<le> w_requested s"
  shows "returns (sendInLoop update wr data s) (\<lambda>s'. tcp_conn_ok fd B fs s' \<and> t_keeps s s' \<and> w_requested s' = w_requested s)"
proof (cases "t_state s = kDisconnected")
  case True
  then show ?thesis using c by (simp add: sendInLoop_def t_keeps_def)
next
  case False
  then have o: "is_open s" using c(2) by (cases "t_state s") (simp_all add: is_open_def)
  have i: "mb_inv (t_output s)" using c(1) by (simp add: tcp_conn_ok_def)
  have z: "readableBytes (t_output s) = 0 \<longleftrightarrow> contents (t_output s) = []"
    using unat_readableBytes [OF i] by (metis length_0_conv unat_eq_zero)
  obtain r s1 where d: "(if \<not> isWriting (t_chan s) \<and> readableBytes (t_output s) = 0 then direct_write wr data s else (Some data, s)) = (r, s1)"
    by fastforce
  show ?thesis
  proof (cases "contents (t_output s) = []")
    case True
    then have "direct_write wr data s = (r, s1)" using d z open_phase [OF c(1) o] by (metis (full_types))
    then obtain k q where s1: "s1 = s\<lparr>w_nwrites := w_nwrites s + 1, w_wire := w_wire s @ take k data, w_pending := w_pending s @ q\<rparr>"
      and q: "q = [] \<or> q = [FWriteComplete]" and r: "r = Some (drop k data) \<or> r = None \<and> k = 0"
      by (elim direct_write_cases)
    define s0 where "s0 = s1\<lparr>w_accepted := w_accepted s @ take k data\<rparr>"
    have s0: "tcp_conn_ok fd B fs s0"
      using wrote_ok [OF c(1) o True q, of "take k data" "w_nwrites s + 1"] len by (simp add: s0_def s1)
    have o0: "is_open s0" "t_keeps s s0" "w_requested s0 = w_requested s" using o by (auto simp: s0_def s1 is_open_def t_keeps_def)
    have qb: "queued_bytes q = 0" using q by auto
    have sw: "s1\<lparr>w_accepted := w_accepted s1 @ data\<rparr> = s0\<lparr>w_accepted := w_accepted s0 @ drop k data\<rparr>" by (simp add: s0_def s1)
    have l0: "length (w_accepted s0) + length (drop k data) + queued_bytes (fs @ w_pending s0) \<le> w_requested s0"
      using len qb by (simp add: s0_def s1)
    from r show ?thesis
    proof
      assume "r = Some (drop k data)"
      then have "sendInLoop update wr data s = (if drop k data \<noteq> [] then
          buffer_rest update (drop k data) (s0\<lparr>w_accepted := w_accepted s0 @ drop k data\<rparr>) else Some (s0\<lparr>w_accepted := w_accepted s0 @ drop k data\<rparr>))"
        using False d by (simp add: sendInLoop_def sw Let_def)
      then show ?thesis
        using buffer_rest_ok [OF s0 o0(1) _ l0] s0 o0 by (cases "drop k data = []") (auto elim!: returns_mono intro: keeps_trans)
    next
      assume "r = None \<and> k = 0"
      then show ?thesis using False d s0 o0 by (simp add: sendInLoop_def s0_def s1)
    qed
  next
    case nonempty: False
    then have "r = Some data" "s1 = s" using d z by auto
    then show ?thesis
      using False buffer_rest_ok [OF c(1) o _ len] c(1) nonempty z by (cases "data = []") (simp_all add: sendInLoop_def t_keeps_def)
  qed
qed

text \<open>Closing requests only change the state of an open connection and the queue.\<close>

lemma request_ok:
  assumes c: "tcp_conn_ok fd B fs s" "is_open s" and q: "q = [] \<or> q = [FShutdown] \<or> q = [FForceClose]"
    and why: "q \<noteq> [] \<or> n > w_timers s"
  shows "tcp_conn_ok fd B fs (s\<lparr>t_state := kDisconnecting, w_pending := w_pending s @ q, w_timers := max n (w_timers s)\<rparr>)"
proof -
  let ?s = "s\<lparr>t_state := kDisconnecting, w_pending := w_pending s @ q, w_timers := max n (w_timers s)\<rparr>"
  obtain m where m: "at_phase B s (Active fd m)" "m AND kWriteEvent \<noteq> 0 \<longleftrightarrow> contents (t_output s) \<noteq> []" using open_phase [OF c] by metis
  then have "phase_rel fd B (fs @ w_pending ?s) ?s" by (auto simp: phase_rel_def)
  moreover have "queue_rel (fs @ w_pending ?s) ?s"
  proof -
    have "is_open ?s" by (simp add: is_open_def)
    moreover have "queue_rel (fs @ w_pending s) s" using c(1) by (simp add: tcp_conn_ok_def)
    ultimately show ?thesis using q why unfolding queue_open [OF c(2)] by (simp add: queue_open) auto
  qed
  moreover have "t_state s \<noteq> kDisconnected" using c(2) by (auto simp: is_open_def)
  moreover have "queued_bytes q = 0" using q by auto
  ultimately show ?thesis using c(1) by (simp add: tcp_conn_ok_def shut_rel_def)
qed

lemma shutdownInLoop_ok:
  assumes "mb_inv (t_input s)" "mb_inv (t_output s)" "w_wire s @ contents (t_output s) = w_accepted s"
    "length (w_accepted s) + queued_bytes (fs @ w_pending s) \<le> w_requested s" "w_requested s \<le> 2 ^ 60"
    "phase_rel fd B (fs @ w_pending s) s" "t_state s \<noteq> kConnecting" "queue_rel (FShutdown # fs @ w_pending s) s"
    "t_state s \<noteq> kDisconnected \<longrightarrow> wired (t_chan s)" "shut_rel s"
  shows "tcp_conn_ok fd B fs (shutdownInLoop s)" "t_keeps s (shutdownInLoop s)" "w_requested (shutdownInLoop s) = w_requested s"
proof -
  let ?s = "shutdownInLoop s"
  have same: "t_state ?s = t_state s" "t_input ?s = t_input s" "t_output ?s = t_output s" "w_wire ?s = w_wire s" "w_accepted ?s = w_accepted s"
    "w_pending ?s = w_pending s" "w_timers ?s = w_timers s" "w_closed ?s = w_closed s" "w_destroys ?s = w_destroys s" "frame ?s = frame s"
    "t_chan ?s = t_chan s" "t_channel ?s = t_channel s" "at_phase B ?s = at_phase B s"
    by (simp_all add: shutdownInLoop_def)
  show "t_keeps s ?s" using same by (simp add: t_keeps_def)
  show r: "w_requested ?s = w_requested s" by (simp add: shutdownInLoop_def)
  have o: "isWriting (t_chan s) \<longleftrightarrow> contents (t_output s) \<noteq> []" if "is_open s"
  proof -
    from that assms(6) obtain m where m: "at_phase B s (Active fd m)" "m AND kWriteEvent \<noteq> 0 \<longleftrightarrow> contents (t_output s) \<noteq> []"
      by (auto simp: phase_rel_def is_open_def)
    then show ?thesis using phase_chan(2) [OF m(1) refl] by (simp add: isWriting_def)
  qed
  have "phase_rel fd B (fs @ w_pending ?s) ?s" using assms(6) unfolding phase_rel_def same .
  moreover have "shut_rel ?s" using assms(7,10) o by (cases "t_state s") (auto simp: shut_rel_def shutdownInLoop_def is_open_def)
  moreover have "queue_rel (fs @ w_pending ?s) ?s"
  proof -
    have "w_shutdown ?s \<noteq> None \<or> contents (t_output s) \<noteq> []" if "t_state s = kDisconnecting"
      using o that by (auto simp: shutdownInLoop_def is_open_def)
    moreover have "w_shutdown s \<noteq> None \<longrightarrow> w_shutdown ?s \<noteq> None" by (simp add: shutdownInLoop_def)
    ultimately show ?thesis using assms(7,8) unfolding queue_rel_def same by (auto split: if_splits)
  qed
  ultimately show "tcp_conn_ok fd B fs ?s" using assms unfolding tcp_conn_ok_def same r by blast
qed

lemma reading_ok:
  assumes c: "tcp_conn_ok fd B fs s" "is_open s"
  shows "returns (startReadInLoop update s) (\<lambda>s'. tcp_conn_ok fd B fs s' \<and> t_keeps s s' \<and> w_requested s' = w_requested s)"
    and "returns (stopReadInLoop update s) (\<lambda>s'. tcp_conn_ok fd B fs s' \<and> t_keeps s s' \<and> w_requested s' = w_requested s)"
proof -
  obtain m where m: "at_phase B s (Active fd m)" "m AND kWriteEvent \<noteq> 0 \<longleftrightarrow> contents (t_output s) \<noteq> []" using open_phase [OF c] by metis
  have ok: "tcp_conn_ok fd B fs (s\<lparr>w_poll := w, t_reading := x\<rparr>)" "t_keeps s (s\<lparr>w_poll := w, t_reading := x\<rparr>)"
    if "at_phase B (s\<lparr>w_poll := w\<rparr>) (Active fd k)" "k AND kWriteEvent = m AND kWriteEvent" "frame (s\<lparr>w_poll := w\<rparr>) = frame s" for w x k
  proof -
    show "tcp_conn_ok fd B fs (s\<lparr>w_poll := w, t_reading := x\<rparr>)"
      by (rule conn_okI [OF c, where q = "[]" and m = k]) (use c that m(2) in \<open>auto simp: tcp_conn_ok_def\<close>)
    show "t_keeps s (s\<lparr>w_poll := w, t_reading := x\<rparr>)" using that(3) by (simp add: t_keeps_def)
  qed
  have disjoint: "kReadEvent AND kWriteEvent = 0" "NOT kReadEvent AND kWriteEvent = kWriteEvent"
    by (simp_all add: kReadEvent_def kWriteEvent_def epoll_flags)
  have k: "(m OR kReadEvent) AND kWriteEvent = m AND kWriteEvent" "(m AND NOT kReadEvent) AND kWriteEvent = m AND kWriteEvent"
    using disjoint by (simp_all add: bit.conj_disj_distrib2 and.assoc)
  have s: "tcp_conn_ok fd B fs s" "t_keeps s s" using c by (simp_all add: t_keeps_def)
  have ok1: "tcp_conn_ok fd B fs (y\<lparr>t_reading := x\<rparr>) \<and> t_keeps s (y\<lparr>t_reading := x\<rparr>) \<and> w_requested y = w_requested s"
    if "\<exists>w. y = s\<lparr>w_poll := w\<rparr> \<and> at_phase B y (Active fd (m OR kReadEvent)) \<and> frame y = frame s" for x y
    using that ok [OF _ k(1)] by fastforce
  have ok2: "tcp_conn_ok fd B fs (y\<lparr>t_reading := x\<rparr>) \<and> t_keeps s (y\<lparr>t_reading := x\<rparr>) \<and> w_requested y = w_requested s"
    if "\<exists>w. y = s\<lparr>w_poll := w\<rparr> \<and> at_phase B y (Active fd (m AND NOT kReadEvent)) \<and> frame y = frame s" for x y
    using that ok [OF _ k(2)] by fastforce
  show "returns (startReadInLoop update s) (\<lambda>s'. tcp_conn_ok fd B fs s' \<and> t_keeps s s' \<and> w_requested s' = w_requested s)"
    using returns_mono [OF on_mask(1) [OF m(1)] ok1] s by (simp add: startReadInLoop_def)
  show "returns (stopReadInLoop update s) (\<lambda>s'. tcp_conn_ok fd B fs s' \<and> t_keeps s s' \<and> w_requested s' = w_requested s)"
    using returns_mono [OF on_mask(2) [OF m(1)] ok2] s by (simp add: stopReadInLoop_def)
qed

text \<open>Taking a functor from the queue, and raising the number of requested bytes.\<close>

lemma pop_ok:
  assumes "tcp_conn_ok fd B (f # fs) s" and "f \<notin> {FEstablished, FDestroyed, FShutdown}" and "f = FForceClose \<Longrightarrow> \<not> is_open s"
  shows "tcp_conn_ok fd B fs s" and "t_state s \<noteq> kConnecting" and "length (w_accepted s) + fn_bytes f + queued_bytes (fs @ w_pending s) \<le> w_requested s"
proof -
  have q: "queue_rel (f # fs @ w_pending s) s" and p: "phase_rel fd B (f # fs @ w_pending s) s" using assms(1) by (simp_all add: tcp_conn_ok_def)
  show n: "t_state s \<noteq> kConnecting" using q assms(2) by (auto simp: queue_rel_def)
  have "queue_rel (fs @ w_pending s) s"
    using q assms(2,3) n by (auto simp: queue_rel_def is_open_def)
  moreover have "phase_rel fd B (fs @ w_pending s) s" using p assms(2) by (simp add: phase_rel_def cong: StateE.case_cong)
  ultimately show "tcp_conn_ok fd B fs s" using assms(1) by (simp add: tcp_conn_ok_def)
  show "length (w_accepted s) + fn_bytes f + queued_bytes (fs @ w_pending s) \<le> w_requested s" using assms(1) by (simp add: tcp_conn_ok_def)
qed

lemma pop_shutdown:
  assumes "tcp_conn_ok fd B (FShutdown # fs) s"
  shows "tcp_conn_ok fd B fs (shutdownInLoop s)" "t_keeps s (shutdownInLoop s)" "w_requested (shutdownInLoop s) = w_requested s"
proof -
  have p: "phase_rel fd B (fs @ w_pending s) s" using assms by (simp add: tcp_conn_ok_def phase_rel_def cong: StateE.case_cong)
  have "t_state s \<noteq> kConnecting" using assms by (auto simp: tcp_conn_ok_def queue_rel_def)
  note sd = shutdownInLoop_ok [OF _ _ _ _ _ p this]
  show "tcp_conn_ok fd B fs (shutdownInLoop s)" "t_keeps s (shutdownInLoop s)" "w_requested (shutdownInLoop s) = w_requested s"
    by (rule sd; use assms in \<open>simp add: tcp_conn_ok_def\<close>)+
qed

lemma push_shutdown:
  assumes "tcp_conn_ok fd B fs s" and "is_open s"
  shows "tcp_conn_ok fd B (FShutdown # fs) (s\<lparr>t_state := kDisconnecting\<rparr>)"
proof -
  let ?s = "s\<lparr>t_state := kDisconnecting\<rparr>"
  have o: "is_open ?s" by (simp add: is_open_def)
  have "phase_rel fd B ((FShutdown # fs) @ w_pending ?s) ?s"
    using open_phase [OF assms] by (auto simp: phase_rel_def)
  moreover have "queue_rel ((FShutdown # fs) @ w_pending ?s) ?s"
    using assms unfolding queue_open [OF o] by (simp add: tcp_conn_ok_def queue_open)
  moreover have "t_state s \<noteq> kDisconnected" using assms(2) by (auto simp: is_open_def)
  ultimately show ?thesis using assms(1) by (simp add: tcp_conn_ok_def shut_rel_def)
qed

lemma requested_ok:
  assumes "tcp_conn_ok fd B fs s" and "w_requested s \<le> n" "n \<le> 2 ^ 60"
  shows "tcp_conn_ok fd B fs (s\<lparr>w_requested := n\<rparr>)"
  using assms by (simp add: tcp_conn_ok_def shut_rel_def)

lemma input_ok: "tcp_conn_ok fd B fs s \<Longrightarrow> mb_inv b \<Longrightarrow> tcp_conn_ok fd B fs (s\<lparr>t_input := b\<rparr>)"
  by (simp add: tcp_conn_ok_def shut_rel_def)

section \<open>Calls and callbacks\<close>

lemma do_call_ok:
  assumes c: "tcp_conn_ok fd B fs s" "t_state s \<noteq> kConnecting" and len: "w_requested s + call_bytes x \<le> 2 ^ 60"
    and rd: "reading_call x \<Longrightarrow> is_open s"
  shows "returns (do_call update wr True x s) (\<lambda>s'. tcp_conn_ok fd B fs s' \<and> t_keeps s s' \<and> w_requested s' \<le> w_requested s + call_bytes x)"
proof (cases x)
  case (USend data)
  let ?s = "s\<lparr>w_requested := w_requested s + length data\<rparr>"
  have "tcp_conn_ok fd B fs ?s" using requested_ok [OF c(1), of "w_requested s + length data"] len USend by simp
  moreover have "length (w_accepted ?s) + length data + queued_bytes (fs @ w_pending ?s) \<le> w_requested ?s" using c(1) by (simp add: tcp_conn_ok_def)
  ultimately have "returns (sendInLoop update wr data ?s) (\<lambda>s'. tcp_conn_ok fd B fs s' \<and> t_keeps ?s s' \<and> w_requested s' = w_requested ?s)"
    using sendInLoop_ok [of fd B fs ?s data wr] c(2) by simp
  moreover have "t_keeps s s" by (simp add: t_keeps_def)
  ultimately show ?thesis using USend c(1)
    by (auto simp: tcp_send_def runInLoop_def t_keeps_def is_open_def elim!: returns_mono)
next
  case UShutdown
  have k: "t_keeps s s'" if "t_keeps (s\<lparr>t_state := kDisconnecting\<rparr>) s'" "is_open s" for s'
    using that by (auto simp: t_keeps_def is_open_def)
  show ?thesis
  proof (cases "t_state s = kConnected")
    case True
    then have o: "is_open s" by (simp add: is_open_def)
    show ?thesis using pop_shutdown [OF push_shutdown [OF c(1) o]] True k [OF _ o] UShutdown by (simp add: tcp_shutdown_def runInLoop_def)
  qed (use UShutdown c in \<open>simp add: tcp_shutdown_def t_keeps_def\<close>)
next
  case UForceClose
  then show ?thesis using c request_ok [OF c(1), of "[FForceClose]" 0]
    by (auto simp: forceClose_def queueInLoop_def t_keeps_def is_open_def)
next
  case UForceCloseWithDelay
  then show ?thesis using c request_ok [OF c(1), of "[]" "w_timers s + 1"]
    by (auto simp: forceCloseWithDelay_def t_keeps_def is_open_def)
next
  case UStartRead
  then show ?thesis using reading_ok(1) [OF c(1)] rd by (auto simp: runInLoop_def elim!: returns_mono)
next
  case UStopRead
  then show ?thesis using reading_ok(2) [OF c(1)] rd by (auto simp: runInLoop_def elim!: returns_mono)
next
  case (UConsume n)
  have i: "mb_inv (t_input s)" using c(1) by (simp add: tcp_conn_ok_def)
  have "unat (min n (readableBytes (t_input s))) \<le> length (contents (t_input s))"
    using unat_readableBytes [OF i] by (simp add: min_def word_le_nat_alt split: if_splits)
  from retrieve_ok [OF i this] show ?thesis using UConsume input_ok [OF c(1)] by (auto simp: t_keeps_def elim!: returns_mono)
qed

lemma do_calls_ok:
  assumes "tcp_conn_ok fd B fs s" "t_state s \<noteq> kConnecting" "w_requested s + script_bytes xs \<le> 2 ^ 60"
    "is_open s \<or> (\<forall>x \<in> set xs. \<not> reading_call x)"
  shows "returns (do_calls update wr xs s) (\<lambda>s'. tcp_conn_ok fd B fs s' \<and> t_keeps s s')"
  using assms
proof (induction xs arbitrary: s)
  case Nil
  then show ?case by (simp add: t_keeps_def)
next
  case (Cons x xs)
  have len: "w_requested s + call_bytes x \<le> 2 ^ 60" and sb: "script_bytes (x # xs) = call_bytes x + script_bytes xs"
    using Cons.prems(3) by (simp_all add: script_bytes_def)
  obtain s1 where s1: "do_call update wr True x s = Some s1" "tcp_conn_ok fd B fs s1" "t_keeps s s1" "w_requested s1 \<le> w_requested s + call_bytes x"
    using do_call_ok [OF Cons.prems(1,2) len, of wr] Cons.prems(4) by (auto simp: returns_iff)
  have "t_state s1 \<noteq> kConnecting" "is_open s1 \<longleftrightarrow> is_open s" using s1(3) Cons.prems(2) by (auto simp: t_keeps_def is_open_def)
  moreover have "w_requested s1 + script_bytes xs \<le> 2 ^ 60" using s1(4) Cons.prems(3) sb by simp
  moreover have "is_open s \<or> (\<forall>x \<in> set xs. \<not> reading_call x)" using Cons.prems(4) by auto
  ultimately have "returns (do_calls update wr xs s1) (\<lambda>s'. tcp_conn_ok fd B fs s' \<and> t_keeps s1 s')" using Cons.IH [OF s1(2)] by simp
  then show ?case using s1(1,3) by (auto elim!: returns_mono intro: keeps_trans)
qed

lemma callback_ok:
  assumes "user_ok user" "tcp_conn_ok fd B fs s" "t_state s \<noteq> kConnecting"
  shows "returns (callback update wr user e s) (\<lambda>s'. tcp_conn_ok fd B fs s' \<and> t_keeps s s')"
proof -
  have "w_requested s \<le> 2 ^ 60" using assms(2) by (simp add: tcp_conn_ok_def)
  then show ?thesis using do_calls_ok [OF assms(2,3), of "user e s" wr] assms(1) by (simp add: callback_def user_ok_def)
qed

section \<open>Handlers\<close>

lemma closed_events: "tcp_conn_ok fd B fs s \<Longrightarrow> \<not> is_open s \<Longrightarrow> mc_events (t_chan s) = 0"
  using phase_chan(2) [of B s "Active fd 0" fd 0] phase_chan(3) [of B s Gone] phase_chan(3) [of B s "Fresh fd"]
  by (cases "t_state s") (auto simp: tcp_conn_ok_def phase_rel_def is_open_def split: if_splits)

text \<open>Leaving an open state.\<close>

lemma disconnect_ok:
  assumes c: "tcp_conn_ok fd B fs s" "is_open s" and ph: "at_phase B (s\<lparr>w_poll := w\<rparr>) (Active fd 0)"
  shows "tcp_conn_ok fd B fs (s\<lparr>t_state := kDisconnected, w_poll := w\<rparr>)"
proof -
  let ?s = "s\<lparr>t_state := kDisconnected, w_poll := w\<rparr>"
  have q: "queue_rel (fs @ w_pending s) s" using c(1) by (simp add: tcp_conn_ok_def)
  then have "queue_rel (fs @ w_pending ?s) ?s" unfolding queue_open [OF c(2)] by (simp add: queue_rel_def count_list_0_iff)
  moreover have "at_phase B ?s (Active fd 0)" using ph at_phase_cong [of ?s "s\<lparr>w_poll := w\<rparr>"] by simp
  then have "phase_rel fd B (fs @ w_pending ?s) ?s" using q unfolding queue_open [OF c(2)] by (simp add: phase_rel_def)
  ultimately show ?thesis using c by (simp add: tcp_conn_ok_def shut_rel_def)
qed

lemma handleClose_ok:
  assumes u: "user_ok user" and c: "tcp_conn_ok fd B fs s" "is_open s"
  shows "returns (handleClose update wr user s) (\<lambda>s'. tcp_conn_ok fd B fs s' \<and> frame s' = frame s \<and> t_channel s' = t_channel s \<and> t_state s' = kDisconnected)"
proof -
  let ?s = "s\<lparr>t_state := kDisconnected\<rparr>"
  obtain m where "at_phase B s (Active fd m)" using open_phase [OF c] by metis
  then have "at_phase B ?s (Active fd m)" by simp
  from on_mask(5) [OF this] obtain w where w: "t_on_channel (disableAll update) ?s = Some (?s\<lparr>w_poll := w\<rparr>)"
    "at_phase B (?s\<lparr>w_poll := w\<rparr>) (Active fd 0)" "frame (?s\<lparr>w_poll := w\<rparr>) = frame s" by (auto simp: returns_iff)
  let ?s1 = "?s\<lparr>w_poll := w\<rparr>"
  have "at_phase B (s\<lparr>w_poll := w\<rparr>) (Active fd 0)" using w(2) at_phase_cong [of "s\<lparr>w_poll := w\<rparr>" ?s1] by simp
  from disconnect_ok [OF c this] have s1: "tcp_conn_ok fd B fs ?s1" by simp
  obtain s2 where s2: "callback update wr user CbConnection ?s1 = Some s2" "tcp_conn_ok fd B fs s2" "t_keeps ?s1 s2"
    using callback_ok [OF u s1, of wr CbConnection] by (auto simp: returns_iff)
  then have st: "t_state s2 = kDisconnected" "frame s2 = frame s" "t_channel s2 = t_channel s"
    using w(3) by (auto simp: t_keeps_def is_open_def)
  have "tcp_conn_ok fd B fs (s2\<lparr>w_closed := True\<rparr>)" using s2(2) st(1) by (simp add: tcp_conn_ok_def queue_rel_def shut_rel_def)
  then show ?thesis using w(1) s2(1) st c(2) by (simp add: handleClose_def is_open_def)
qed

lemma connectEstablished_ok:
  assumes u: "user_ok user" and c: "tcp_conn_ok fd B (FEstablished # fs) s"
  shows "returns (connectEstablished update wr user s) (tcp_conn_ok fd B fs)"
proof -
  have st: "t_state s = kConnecting" "fs = []" "w_pending s = []" using c by (auto simp: tcp_conn_ok_def queue_rel_def)
  then have ph: "at_phase B s (Fresh fd)" and e: "contents (t_output s) = []" using c by (simp_all add: tcp_conn_ok_def phase_rel_def)
  define s1 where "s1 = t_modify MChannel_tie (s\<lparr>t_state := kConnected\<rparr>)"
  have "at_phase B (s\<lparr>t_state := kConnected\<rparr>) (Fresh fd)" using ph by simp
  note mod = modify_phase [OF this, of MChannel_tie B]
  have ph1: "at_phase B s1 (Fresh fd)" "t_chan s1 = MChannel_tie (t_chan s)" using mod by (simp_all add: s1_def MChannel_tie_def)
  from on_first_read [OF ph1(1)] obtain w where w: "t_on_channel (enableReading update) s1 = Some (s1\<lparr>w_poll := w\<rparr>)"
    "at_phase B (s1\<lparr>w_poll := w\<rparr>) (Active fd kReadEvent)" "frame (s1\<lparr>w_poll := w\<rparr>) = frame s1" by (auto simp: returns_iff)
  let ?s = "s1\<lparr>w_poll := w\<rparr>"
  have f: "t_state ?s = kConnected" "t_input ?s = t_input s" "t_output ?s = t_output s" "w_wire ?s = w_wire s" "w_accepted ?s = w_accepted s"
    "w_pending ?s = []" "w_requested ?s = w_requested s" "w_shutdown ?s = w_shutdown s" "w_closed ?s = w_closed s" "w_destroys ?s = w_destroys s"
    using st by (simp_all add: s1_def t_modify_def)
  have o: "is_open ?s" using f(1) by (simp add: is_open_def)
  have "wired (t_chan ?s)" using frame_chan [OF w(3)] ph1(2) c st(1) by (simp add: tcp_conn_ok_def wired_def MChannel_tie_def)
  moreover have "phase_rel fd B [] ?s" using w(2) f e by (auto simp: phase_rel_def kReadEvent_def kWriteEvent_def epoll_flags)
  moreover have "queue_rel [] ?s" using c st f unfolding queue_open [OF o] by (simp add: tcp_conn_ok_def queue_rel_def)
  ultimately have "tcp_conn_ok fd B [] ?s" using c st f by (simp add: tcp_conn_ok_def shut_rel_def)
  from callback_ok [OF u this, of wr CbConnection] f(1) show ?thesis
    using w(1) st by (auto simp: connectEstablished_def s1_def elim!: returns_mono)
qed

lemma connectDestroyed_ok:
  assumes c: "tcp_conn_ok fd B (FDestroyed # fs) s"
  shows "returns (connectDestroyed update remove wr user s) (tcp_conn_ok fd B fs)"
proof -
  let ?Q = "fs @ w_pending s"
  have n: "count_list ?Q FDestroyed = 0" "w_destroys s = 1" "t_state s = kDisconnected"
    using c by (auto simp: tcp_conn_ok_def queue_rel_def)
  then have "at_phase B s (Active fd 0)" using c by (simp add: tcp_conn_ok_def phase_rel_def)
  from on_remove [OF this] obtain w where w: "t_on_channel (MChannel_remove remove) s = Some (s\<lparr>w_poll := w\<rparr>)" "at_phase B (s\<lparr>w_poll := w\<rparr>) Gone"
    by (auto simp: returns_iff)
  have "phase_rel fd B ?Q (s\<lparr>w_poll := w\<rparr>)" using w(2) n by (simp add: phase_rel_def)
  moreover have "queue_rel ?Q s" using c n(3) by (simp add: tcp_conn_ok_def queue_rel_def)
  ultimately have "tcp_conn_ok fd B fs (s\<lparr>w_poll := w\<rparr>)" using c n(3) by (simp add: tcp_conn_ok_def shut_rel_def)
  then show ?thesis using w(1) n(3) by (simp add: connectDestroyed_def)
qed

lemma tcp_handleRead_ok:
  assumes u: "user_ok user" and c: "tcp_conn_ok fd B fs s" "is_open s" and r: "read_fits r (t_input s)"
  shows "returns (tcp_handleRead update wr user r s) (\<lambda>s'. tcp_conn_ok fd B fs s' \<and> frame s' = frame s \<and> t_channel s' = t_channel s)"
proof -
  have i: "mb_inv (t_input s)" using c(1) by (simp add: tcp_conn_ok_def)
  obtain n b where b: "readFd r (t_input s) = Some (n, b)" "mb_inv b"
  proof (cases r)
    case (Ok xs)
    then have "returns (readFd r (t_input s)) (\<lambda>(n, b'). n = int (length xs) \<and> mb_inv b' \<and> contents b' = contents (t_input s) @ xs)"
      using readFd_appends [OF i, of xs] r by (simp add: read_fits_def)
    then show ?thesis using that unfolding returns_iff by blast
  next
    case (Fail e)
    then show ?thesis using that [of "- 1" "t_input s"] i by (simp add: readFd_def Let_def)
  qed
  let ?s = "s\<lparr>t_input := b\<rparr>"
  have s: "tcp_conn_ok fd B fs ?s" "is_open ?s" "t_state ?s \<noteq> kConnecting" using input_ok [OF c(1) b(2)] c(2) by (auto simp: is_open_def)
  show ?thesis
    using callback_ok [OF u s(1,3), of wr CbMessage] handleClose_ok [OF u s(1,2), of wr] s(1) b(1)
    by (auto simp: tcp_handleRead_def t_keeps_def Let_def elim!: returns_mono)
qed

text \<open>The write handler: what the kernel takes leaves the buffer; the last byte ends the watch and completes a shutdown.\<close>

lemma t_drained_ok:
  assumes c: "tcp_conn_ok fd B fs s" "is_open s" and b: "mb_inv b" "contents b = []" and k: "take k (contents (t_output s)) = contents (t_output s)"
    and ph: "at_phase B (s\<lparr>w_poll := w\<rparr>) (Active fd m)" "m AND kWriteEvent = 0" "frame (s\<lparr>w_poll := w\<rparr>) = frame s"
    and q: "q = [] \<or> q = [FWriteComplete]" and sh: "t_state s = kDisconnecting \<longrightarrow> FShutdown \<in> set fs"
  shows "tcp_conn_ok fd B fs (s\<lparr>w_nwrites := n, w_wire := w_wire s @ take k (contents (t_output s)), t_output := b, w_poll := w, w_pending := w_pending s @ q\<rparr>)"
    (is "tcp_conn_ok fd B fs ?s")
proof (rule conn_okI [OF c, where q = q and m = m])
  show "at_phase B ?s (Active fd m)" using ph(1) at_phase_cong [of ?s "s\<lparr>w_poll := w\<rparr>"] by simp
  have "t_chan ?s = t_chan (s\<lparr>w_poll := w\<rparr>)" by (simp add: t_chan_def)
  then show "frame ?s = frame s" using ph(3) by (simp add: frame_def)
qed (use c b k ph q sh in \<open>auto simp: tcp_conn_ok_def\<close>)

lemma partial_ok:
  assumes c: "tcp_conn_ok fd B fs s" "is_open s" and b: "mb_inv b" "contents b = drop k (contents (t_output s))" "contents b \<noteq> []"
  shows "tcp_conn_ok fd B fs (s\<lparr>w_nwrites := n, w_wire := w_wire s @ take k (contents (t_output s)), t_output := b\<rparr>)"
proof -
  obtain m where m: "at_phase B s (Active fd m)" "m AND kWriteEvent \<noteq> 0 \<longleftrightarrow> contents (t_output s) \<noteq> []" using open_phase [OF c] by metis
  moreover have "contents (t_output s) \<noteq> []" using b(2,3) by auto
  ultimately show ?thesis by (intro conn_okI [OF c, where q = "[]" and m = m]) (use c b m in \<open>auto simp: tcp_conn_ok_def\<close>)
qed

lemma nwrites_ok: "tcp_conn_ok fd B fs s \<Longrightarrow> tcp_conn_ok fd B fs (s\<lparr>w_nwrites := n\<rparr>)"
  by (simp add: tcp_conn_ok_def shut_rel_def)

lemma tcp_handleWrite_ok:
  assumes c: "tcp_conn_ok fd B fs s"
  shows "returns (tcp_handleWrite update wr s) (\<lambda>s'. tcp_conn_ok fd B fs s' \<and> t_keeps s s')"
proof (cases "isWriting (t_chan s)")
  case False
  then show ?thesis using c by (simp add: tcp_handleWrite_def t_keeps_def)
next
  case True
  then have "mc_events (t_chan s) \<noteq> 0" by (auto simp: isWriting_def)
  then have o: "is_open s" using closed_events [OF c] by blast
  obtain m where m: "at_phase B s (Active fd m)" "contents (t_output s) \<noteq> []" using open_phase [OF c o] True by metis
  let ?d = "contents (t_output s)"
  have i: "mb_inv (t_output s)" and w: "w_wire s @ ?d = w_accepted s" "length (w_accepted s) \<le> 2 ^ 60" using c by (auto simp: tcp_conn_ok_def)
  have rd: "mem_read (peek (t_output s)) (unat (readableBytes (t_output s))) (mb_store (t_output s)) = Some ?d"
    using read_contents [OF i, of "length ?d"] unat_readableBytes [OF i] by simp
  have le: "length ?d \<le> 2 ^ 60" using w by (metis length_append le_add2 le_trans)
  show ?thesis
  proof (cases "wr (w_nwrites s)")
    case (Fail e)
    then show ?thesis using True rd nwrites_ok [OF c] by (simp add: tcp_handleWrite_def sockets_write_def t_keeps_def is_open_def)
  next
    case (Ok n)
    define k where "k = min n (length ?d)"
    have tk: "take n ?d = take k ?d" by (simp add: k_def take_all_iff min_def)
    let ?s1 = "s\<lparr>w_nwrites := w_nwrites s + 1, w_wire := w_wire s @ take k ?d\<rparr>"
    have wr: "sockets_write wr ?d s = (Ok k, ?s1)" using Ok by (simp add: sockets_write_def Let_def tk k_def [symmetric] min.commute)
    have uk: "unat (word_of_nat k :: u64) = k" using le by (intro unat_word_of_nat_small) (simp add: k_def)
    obtain b where b: "retrieve (word_of_nat k) (t_output s) = Some b" "mb_inv b" "contents b = drop k ?d"
      using retrieve_ok [OF i, of "word_of_nat k"] uk by (auto simp: k_def returns_iff)
    have z: "readableBytes b = 0 \<longleftrightarrow> contents b = []" using unat_readableBytes [OF b(2)] by (metis length_0_conv unat_eq_zero)
    show ?thesis
    proof (cases "0 < k \<and> contents b = []")
      case False
      then show ?thesis
        using True rd wr nwrites_ok [OF c, of "w_nwrites s + 1"] b z partial_ok [OF c o b(2,3), of "w_nwrites s + 1"]
        by (auto simp: tcp_handleWrite_def t_keeps_def is_open_def)
    next
      case emptied: True
      let ?s2 = "?s1\<lparr>t_output := b\<rparr>"
      define q where "q = (if t_writeCompleteCallback s then [FWriteComplete] else [])"
      have "at_phase B ?s2 (Active fd m)" using m(1) by simp
      from on_mask(4) [OF this] obtain v where v: "t_on_channel (disableWriting update) ?s2 = Some (?s2\<lparr>w_poll := v\<rparr>)"
        "at_phase B (?s2\<lparr>w_poll := v\<rparr>) (Active fd (m AND NOT kWriteEvent))" "frame (?s2\<lparr>w_poll := v\<rparr>) = frame ?s2"
        by (auto simp: returns_iff)
      define s4 where "s4 = ?s2\<lparr>w_poll := v, w_pending := w_pending s @ q\<rparr>"
      have eq: "tcp_handleWrite update wr s = Some (if t_state s = kDisconnecting then shutdownInLoop s4 else s4)"
        using True rd wr emptied b(1) z v(1) by (simp add: tcp_handleWrite_def queueInLoop_def s4_def q_def)
      have "(m AND NOT kWriteEvent) AND kWriteEvent = 0" by (simp add: and.assoc)
      moreover have "at_phase B (s\<lparr>w_poll := v\<rparr>) (Active fd (m AND NOT kWriteEvent))"
        using v(2) at_phase_cong [of "s\<lparr>w_poll := v\<rparr>" "?s2\<lparr>w_poll := v\<rparr>"] by simp
      moreover have fr: "frame (s\<lparr>w_poll := v\<rparr>) = frame s" using v(3) by (simp add: frame_def t_chan_def)
      moreover have "take k ?d = ?d" using emptied b(3) by (metis append_Nil2 append_take_drop_id)
      moreover have "q = [] \<or> q = [FWriteComplete]" by (simp add: q_def)
      ultimately have ok: "tcp_conn_ok fd B fs' s4" if "tcp_conn_ok fd B fs' s" "t_state s = kDisconnecting \<longrightarrow> FShutdown \<in> set fs'" for fs'
        using t_drained_ok [OF that(1) o b(2), where k = k and w = v and q = q and n = "w_nwrites s + 1" and m = "m AND NOT kWriteEvent"] emptied that(2) by (simp add: s4_def)
      have st: "t_state s4 = t_state s" by (simp add: s4_def)
      have k4: "t_keeps s s4" using fr by (simp add: t_keeps_def s4_def frame_def t_chan_def)
      show ?thesis
      proof (cases "t_state s = kDisconnecting")
        case True
        then have "s\<lparr>t_state := kDisconnecting\<rparr> = s" by (cases s) simp
        then have "tcp_conn_ok fd B (FShutdown # fs) s" using push_shutdown [OF c o] by simp
        from pop_shutdown [OF ok [OF this]] k4 True show ?thesis by (auto simp: eq intro: keeps_trans)
      next
        case False
        then show ?thesis using ok [OF c] k4 eq by simp
      qed
    qed
  qed
qed

section \<open>Functors and events\<close>

lemma run_functor_ok:
  assumes u: "user_ok user" and c: "tcp_conn_ok fd B (f # fs) s"
  shows "returns (t_run_functor update remove wr user f s) (tcp_conn_ok fd B fs)"
proof (cases f)
  case (FSend data)
  then have "returns (sendInLoop update wr data s) (\<lambda>s'. tcp_conn_ok fd B fs s' \<and> t_keeps s s' \<and> w_requested s' = w_requested s)"
    using sendInLoop_ok [OF pop_ok(1,2) [OF c], of data wr] pop_ok(3) [OF c] by simp
  then show ?thesis using FSend by (auto elim: returns_mono)
next
  case FShutdown
  then show ?thesis using pop_shutdown(1) c by simp
next
  case FForceClose
  show ?thesis
  proof (cases "is_open s")
    case True
    have "returns (handleClose update wr user s) (\<lambda>s'. tcp_conn_ok fd B (FForceClose # fs) s' \<and> frame s' = frame s \<and>
        t_channel s' = t_channel s \<and> t_state s' = kDisconnected)"
      using handleClose_ok [OF u _ True] c FForceClose by simp
    then have "returns (handleClose update wr user s) (tcp_conn_ok fd B fs)"
      by (rule returns_mono) (use pop_ok(1) [of fd B FForceClose fs] in \<open>simp add: is_open_def\<close>)
    then show ?thesis using True FForceClose by (simp add: forceCloseInLoop_def is_open_def)
  next
    case False
    then show ?thesis using pop_ok(1) [OF c] FForceClose by (simp add: forceCloseInLoop_def is_open_def)
  qed
next
  case FEstablished
  then show ?thesis using connectEstablished_ok [OF u] c by simp
next
  case FDestroyed
  then show ?thesis using connectDestroyed_ok c by simp
next
  case FWriteComplete
  then show ?thesis using returns_mono [OF callback_ok [OF u pop_ok(1,2) [OF c], of wr CbWriteComplete]] by simp
next
  case (FHighWater n)
  then show ?thesis using returns_mono [OF callback_ok [OF u pop_ok(1,2) [OF c], of wr "CbHighWaterMark n"]] by simp
qed (use c in \<open>auto simp: tcp_conn_ok_def queue_rel_def\<close>)

lemma run_functors_ok:
  "user_ok user \<Longrightarrow> tcp_conn_ok fd B fs s \<Longrightarrow> returns (run_functors update remove wr user fs s) (tcp_conn_ok fd B [])"
proof (induction fs arbitrary: s)
  case (Cons f fs)
  from run_functor_ok [OF Cons.prems, of wr] show ?case
    by simp (rule returns_mono, assumption, rule Cons.IH [OF Cons.prems(1)])
qed simp

lemma pending_ok:
  assumes u: "user_ok user" and c: "tcp_conn_ok fd B [] s"
  shows "returns (tcp_step update remove wr user EvPending s) (tcp_conn_ok fd B [])"
proof -
  have "tcp_conn_ok fd B (w_pending s) (s\<lparr>w_pending := []\<rparr>)" using c by (simp add: tcp_conn_ok_def shut_rel_def)
  then show ?thesis using run_functors_ok [OF u] by simp
qed

text \<open>Calls of other threads only change the state and the queue.\<close>

lemma other_ok:
  assumes c: "tcp_conn_ok fd B [] s" and x: "event_ok (EvOther x) s"
  shows "returns (do_call update wr False x s) (tcp_conn_ok fd B [])"
proof (cases x)
  case (USend data)
  let ?s = "s\<lparr>w_requested := w_requested s + length data, w_pending := w_pending s @ [FSend data]\<rparr>"
  have "tcp_conn_ok fd B [] ?s" if "t_state s = kConnected"
  proof -
    have o: "is_open s" "is_open ?s" using that by (simp_all add: is_open_def)
    obtain m where "at_phase B s (Active fd m)" "m AND kWriteEvent \<noteq> 0 \<longleftrightarrow> contents (t_output s) \<noteq> []" using open_phase [OF c o(1)] by metis
    then have "phase_rel fd B (w_pending ?s) ?s" using that by (auto simp: phase_rel_def)
    moreover have "queue_rel (w_pending ?s) ?s" using c that unfolding queue_open [OF o(2)] by (simp add: tcp_conn_ok_def queue_open [OF o(1)])
    ultimately show ?thesis using c x USend by (simp add: tcp_conn_ok_def shut_rel_def)
  qed
  then show ?thesis using c USend by (simp add: tcp_send_def runInLoop_def queueInLoop_def)
next
  case UShutdown
  then show ?thesis using c request_ok [OF c, of "[FShutdown]" 0]
    by (auto simp: tcp_shutdown_def runInLoop_def queueInLoop_def is_open_def)
next
  case UForceClose
  then show ?thesis using c request_ok [OF c, of "[FForceClose]" 0] by (auto simp: forceClose_def queueInLoop_def is_open_def)
next
  case UForceCloseWithDelay
  then show ?thesis using c request_ok [OF c, of "[]" "w_timers s + 1"] by (auto simp: forceCloseWithDelay_def is_open_def)
qed (use x in simp_all)

lemma timer_ok:
  assumes c: "tcp_conn_ok fd B [] s"
  shows "tcp_conn_ok fd B [] (forceClose (s\<lparr>w_timers := w_timers s - 1\<rparr>))"
proof (cases "is_open s")
  case True
  let ?s = "s\<lparr>w_timers := w_timers s - 1, t_state := kDisconnecting, w_pending := w_pending s @ [FForceClose]\<rparr>"
  have o: "is_open ?s" by (simp add: is_open_def)
  obtain m where "at_phase B s (Active fd m)" "m AND kWriteEvent \<noteq> 0 \<longleftrightarrow> contents (t_output s) \<noteq> []" using open_phase [OF c True] by metis
  then have "phase_rel fd B (w_pending ?s) ?s" by (auto simp: phase_rel_def)
  moreover have "queue_rel (w_pending ?s) ?s" using c unfolding queue_open [OF o] by (simp add: tcp_conn_ok_def queue_open [OF True])
  moreover have "t_state s \<noteq> kDisconnected" using True by (auto simp: is_open_def)
  ultimately have "tcp_conn_ok fd B [] ?s" using c by (simp add: tcp_conn_ok_def shut_rel_def)
  then show ?thesis using True by (simp add: forceClose_def queueInLoop_def is_open_def)
next
  case False
  then show ?thesis using c by (auto simp: forceClose_def is_open_def tcp_conn_ok_def queue_rel_def shut_rel_def)
qed

lemma destroy_ok:
  assumes c: "tcp_conn_ok fd B [] s" and d: "w_closed s" "w_destroys s = 0"
  shows "tcp_conn_ok fd B [] (queueInLoop FDestroyed (s\<lparr>w_destroys := w_destroys s + 1\<rparr>))"
proof -
  have st: "t_state s = kDisconnected" "count_list (w_pending s) FDestroyed = 0" using c d by (auto simp: tcp_conn_ok_def queue_rel_def)
  let ?s = "queueInLoop FDestroyed (s\<lparr>w_destroys := w_destroys s + 1\<rparr>)"
  have "at_phase B s (Active fd 0)" using c st d by (simp add: tcp_conn_ok_def phase_rel_def)
  then have "phase_rel fd B (w_pending ?s) ?s" using st d by (simp add: phase_rel_def queueInLoop_def)
  then show ?thesis using c st d by (simp add: tcp_conn_ok_def queue_rel_def shut_rel_def queueInLoop_def)
qed

text \<open>The dispatch of an event.\<close>

lemma modify_ok:
  assumes c: "tcp_conn_ok fd B fs s" and f: "\<And>c. mc_fd (f c) = mc_fd c \<and> mc_index (f c) = mc_index c \<and> mc_events (f c) = mc_events c \<and>
      mc_addedToLoop (f c) = mc_addedToLoop c" "\<And>c. wired (f c) = wired c"
    and B: "insert (t_channel s) B = insert (t_channel s) B'"
    and h: "t_channel s \<notin> B' \<Longrightarrow> \<forall>c. mc_eventHandling (f c) \<longrightarrow> t_channel s \<notin> B \<and> mc_eventHandling c"
  shows "tcp_conn_ok fd B' fs (t_modify f s)" "t_chan (t_modify f s) = f (t_chan s)"
proof -
  let ?s = "t_modify f s"
  have st: "t_state ?s = t_state s" "t_input ?s = t_input s" "t_output ?s = t_output s" "w_wire ?s = w_wire s" "w_accepted ?s = w_accepted s"
    "w_pending ?s = w_pending s" "w_requested ?s = w_requested s" "w_destroys ?s = w_destroys s"
    "shut_rel ?s = shut_rel s" "queue_rel Q ?s = queue_rel Q s" for Q
    by (simp_all add: t_modify_def shut_rel_def)
  have ph: "at_phase B s ph \<Longrightarrow> at_phase B' ?s ph" "at_phase B s ph \<Longrightarrow> t_chan ?s = f (t_chan s)" for ph
    using modify_phase [OF _ f(1) B h] by blast+
  have p: "phase_rel fd B (fs @ w_pending s) s" using c by (simp add: tcp_conn_ok_def)
  then show ch: "t_chan ?s = f (t_chan s)" using ph(2) by (auto simp: phase_rel_def split: StateE.splits)
  have "phase_rel fd B' (fs @ w_pending s) ?s"
    using p ph(1) unfolding phase_rel_def st by (auto split: StateE.splits)
  then show "tcp_conn_ok fd B' fs ?s" using c unfolding tcp_conn_ok_def st ch f(2) by blast
qed

lemma reported_hangup:
  assumes "mask_ok m" "reported m re" "re AND EPOLLHUP \<noteq> 0" "re AND EPOLLIN = 0"
  shows "re AND (EPOLLIN OR EPOLLPRI OR POLLRDHUP) = 0"
proof -
  have e: "(m OR EPOLLERR OR EPOLLHUP OR POLLNVAL) AND POLLRDHUP = m AND POLLRDHUP"
    by (simp add: bit.conj_disj_distrib2 epoll_flags POLLNVAL_def POLLRDHUP_def)
  have "m AND POLLRDHUP = (m AND (kReadEvent OR kWriteEvent)) AND POLLRDHUP" using assms(1) by (simp add: mask_ok_def)
  also have "\<dots> = 0" by (simp add: and.assoc kReadEvent_def kWriteEvent_def epoll_flags POLLRDHUP_def)
  finally have d: "(m OR EPOLLERR OR EPOLLHUP OR POLLNVAL) AND POLLRDHUP = 0" using e by simp
  have "re AND POLLRDHUP = re AND NOT (m OR EPOLLERR OR EPOLLHUP OR POLLNVAL) AND POLLRDHUP OR
      re AND (m OR EPOLLERR OR EPOLLHUP OR POLLNVAL) AND POLLRDHUP"
    by (auto simp: bit_eq_iff bit_simps)
  then have "re AND POLLRDHUP = 0" using assms(2) d by (simp add: reported_def flip: and.assoc)
  then show ?thesis using assms(2-4) by (simp add: bit.conj_disj_distrib reported_def)
qed

lemma dispatch_ok:
  assumes u: "user_ok user" and c: "tcp_conn_ok fd {} [] s" and e: "reported (mc_events (t_chan s)) re" and r: "read_fits r (t_input s)"
  shows "returns (tcp_step update remove wr user (EvIO re r) s) (tcp_conn_ok fd {} [])"
proof -
  let ?a = "t_channel s"
  have o: "is_open s" using closed_events [OF c] e by (auto simp: reported_def)
  obtain m where m: "at_phase {} s (Active fd m)" using open_phase [OF c o] by metis
  have mm: "mask_ok m" "mc_events (t_chan s) = m" using phase_chan(2) [OF m refl] by auto
  define s0 where "s0 = t_modify (set_revents re) s"
  have s0: "tcp_conn_ok fd {} [] s0" "t_chan s0 = set_revents re (t_chan s)"
    unfolding s0_def by (rule modify_ok [where B' = "{}", OF c]; simp add: set_revents_def wired_def)+
  define s1 where "s1 = t_modify (\<lambda>c. c\<lparr>mc_eventHandling := True\<rparr>) s0"
  have s1: "tcp_conn_ok fd {?a} [] s1" "t_chan s1 = (t_chan s0)\<lparr>mc_eventHandling := True\<rparr>"
    unfolding s1_def by (rule modify_ok [where B' = "{t_channel s}", OF s0(1)]; simp add: wired_def s0_def t_modify_def)+
  have t1: "t_channel s1 = ?a" "is_open s1" "t_input s1 = t_input s" using o by (simp_all add: s1_def s0_def t_modify_def is_open_def)
  have w1: "wired (t_chan s1)" "mc_revents (t_chan s1) = re" using c o s0(2) s1(2) by (auto simp: tcp_conn_ok_def wired_def is_open_def set_revents_def)
  define P where "P x \<longleftrightarrow> tcp_conn_ok fd {?a} [] x \<and> frame x = frame s1 \<and> t_channel x = ?a" for x
  have P1: "P s1" using s1(1) t1 by (simp add: P_def)
  have cb: "mc_revents (t_chan x) = re" "mc_readCallback (t_chan x) = Some ReadH" "mc_writeCallback (t_chan x) = Some WriteH"
      "mc_closeCallback (t_chan x) = Some CloseH" "mc_errorCallback (t_chan x) = Some ErrorH" if "P x" for x
    using frame_chan [of x s1] that w1 by (auto simp: P_def wired_def)
  have cl: "returns (handleClose update wr user s1) P"
    by (rule returns_mono [OF handleClose_ok [OF u s1(1) t1(2), of wr]]) (use t1 in \<open>simp add: P_def\<close>)
  have rd: "returns (tcp_handleRead update wr user r s1) P"
    by (rule returns_mono [OF tcp_handleRead_ok [OF u s1(1) t1(2), of r wr]]) (use t1 r in \<open>simp_all add: P_def\<close>)
  have wt: "returns (tcp_handleWrite update wr x) P" if "P x" for x
    by (rule returns_mono [OF tcp_handleWrite_ok [of fd "{?a}" "[]" x wr]]) (use that in \<open>auto simp: P_def t_keeps_def\<close>)
  have fin: "tcp_conn_ok fd {} [] (t_modify (\<lambda>c. c\<lparr>mc_eventHandling := False\<rparr>) x)" if "P x" for x
    by (rule modify_ok [of fd "{?a}"]; use that in \<open>simp add: P_def wired_def\<close>)
  define f where "f = tcp_handler_run update wr user r"
  have st4: "returns ((if mc_revents (t_chan x) AND EPOLLOUT \<noteq> 0 then call_opt f (mc_writeCallback (t_chan x)) x else Some x) \<bind>
      (\<lambda>y. Some (t_modify (\<lambda>c. c\<lparr>mc_eventHandling := False\<rparr>) y))) (tcp_conn_ok fd {} [])" if "P x" for x
    using returns_mono [OF wt [OF that] fin] fin [OF that] cb [OF that] by (simp add: f_def call_opt_def)
  have st2: "returns (if mc_revents (t_chan x) AND (EPOLLERR OR POLLNVAL) \<noteq> 0 then call_opt f (mc_errorCallback (t_chan x)) x else Some x) ((=) x)"
    if "P x" for x using cb [OF that] by (simp add: f_def call_opt_def)
  have st3: "returns (if mc_revents (t_chan x) AND (EPOLLIN OR EPOLLPRI OR POLLRDHUP) \<noteq> 0 then call_opt f (mc_readCallback (t_chan x)) x else Some x) P"
    if "P x" "x = s1 \<or> re AND (EPOLLIN OR EPOLLPRI OR POLLRDHUP) = 0" for x
    using cb [OF that(1)] that rd by (auto simp: f_def call_opt_def)
  have st1: "returns (if mc_revents (t_chan s1) AND EPOLLHUP \<noteq> 0 \<and> mc_revents (t_chan s1) AND EPOLLIN = 0
      then call_opt f (mc_closeCallback (t_chan s1)) s1 else Some s1) (\<lambda>x. P x \<and> (x = s1 \<or> re AND (EPOLLIN OR EPOLLPRI OR POLLRDHUP) = 0))"
    using cb [OF P1] P1 returns_mono [OF cl] reported_hangup [OF mm(1), of re] e mm(2) by (simp add: f_def call_opt_def)
  have "returns (handleEventWithGuard f t_chan t_modify s0) (tcp_conn_ok fd {} [])"
    unfolding handleEventWithGuard_def Let_def s1_def [symmetric] returns_bind
  proof (rule returns_mono [OF st1])
    fix x assume x: "P x \<and> (x = s1 \<or> re AND (EPOLLIN OR EPOLLPRI OR POLLRDHUP) = 0)"
    show "returns (if mc_revents (t_chan x) AND (EPOLLERR OR POLLNVAL) \<noteq> 0 then call_opt f (mc_errorCallback (t_chan x)) x else Some x)
      (\<lambda>x. returns (if mc_revents (t_chan x) AND (EPOLLIN OR EPOLLPRI OR POLLRDHUP) \<noteq> 0 then call_opt f (mc_readCallback (t_chan x)) x else Some x)
        (\<lambda>x. returns (if mc_revents (t_chan x) AND EPOLLOUT \<noteq> 0 then call_opt f (mc_writeCallback (t_chan x)) x else Some x)
          (\<lambda>x. returns (Some (t_modify (\<lambda>c. c\<lparr>mc_eventHandling := False\<rparr>) x)) (tcp_conn_ok fd {} []))))"
    proof (rule returns_mono [OF st2 [OF conjunct1 [OF x]]])
      fix y assume "x = y"
      then have y: "P y" "y = s1 \<or> re AND (EPOLLIN OR EPOLLPRI OR POLLRDHUP) = 0" using x by auto
      show "returns (if mc_revents (t_chan y) AND (EPOLLIN OR EPOLLPRI OR POLLRDHUP) \<noteq> 0 then call_opt f (mc_readCallback (t_chan y)) y else Some y)
        (\<lambda>x. returns (if mc_revents (t_chan x) AND EPOLLOUT \<noteq> 0 then call_opt f (mc_writeCallback (t_chan x)) x else Some x)
          (\<lambda>x. returns (Some (t_modify (\<lambda>c. c\<lparr>mc_eventHandling := False\<rparr>) x)) (tcp_conn_ok fd {} [])))"
        by (rule returns_mono [OF st3 [OF y]]) (rule st4 [unfolded returns_bind])
    qed
  qed
  then show ?thesis by (simp add: MChannel_handleEvent_def s0_def f_def)
qed

lemma tcp_step_ok:
  assumes u: "user_ok user" and c: "tcp_conn_ok fd {} [] s" and e: "event_ok ev s"
  shows "returns (tcp_step update remove wr user ev s) (tcp_conn_ok fd {} [])"
proof (cases ev)
  case (EvIO re r)
  then show ?thesis using dispatch_ok [OF u c] e by simp
next
  case (EvOther x)
  then show ?thesis using other_ok [OF c] e by (simp del: event_ok.simps)
qed (use pending_ok [OF u c] timer_ok [OF c] destroy_ok [OF c] e in simp_all)

lemma tcp_run_ok:
  "user_ok user \<Longrightarrow> tcp_conn_ok fd {} [] s \<Longrightarrow> possible update remove wr user evs s \<Longrightarrow>
   returns (tcp_run update remove wr user evs s) (tcp_conn_ok fd {} [])"
proof (induction evs arbitrary: s)
  case (Cons ev evs)
  then obtain s1 where s1: "tcp_step update remove wr user ev s = Some s1" "tcp_conn_ok fd {} [] s1"
    using tcp_step_ok [of user fd s ev wr] by (auto simp: returns_iff)
  then show ?case using Cons.IH [OF Cons.prems(1)] Cons.prems(3) by simp
qed simp

lemma conn_ok_correct:
  assumes c: "tcp_conn_ok fd {} [] s"
  shows "conn_correct watch fd s"
proof -
  have "watch (snd (w_poll s)) fd AND kWriteEvent \<noteq> 0 \<longleftrightarrow> contents (t_output s) \<noteq> []" if o: "is_open s"
  proof -
    obtain m where m: "at_phase {} s (Active fd m)" "m AND kWriteEvent \<noteq> 0 \<longleftrightarrow> contents (t_output s) \<noteq> []" using open_phase [OF c o] by metis
    then show ?thesis using phase_chan(2) [OF m(1) refl] by simp
  qed
  moreover have "watch (snd (w_poll s)) fd = 0" if "t_state s = kDisconnected" "w_destroys s = 0"
  proof -
    have "at_phase {} s (Active fd 0)" using c that by (simp add: tcp_conn_ok_def phase_rel_def)
    then show ?thesis using phase_chan(2) by blast
  qed
  ultimately show ?thesis using c unfolding conn_correct_def tcp_conn_ok_def queue_rel_def by simp
qed

lemma new_ok:
  assumes "0 \<le> fd"
  shows "tcp_conn_ok fd {} [] (TcpConnection_new a fd wc hw (\<lambda>_. None, new))"
proof -
  let ?sp = "spec_new\<lparr>sp_chan := (sp_chan spec_new)(a \<mapsto> Fresh fd)\<rparr>"
  let ?f = "\<lambda>c. setErrorCallback ErrorH (setCloseCallback CloseH (setWriteCallback WriteH (setReadCallback ReadH c)))"
  let ?s = "TcpConnection_new a fd wc hw (\<lambda>_. None, new)"
  have "spec_step (Create a fd) spec_new = Some ?sp" using assms by (simp add: spec_new_def)
  from sim_create [OF sim_new this] have "sim {} ([a \<mapsto> MChannel_new fd], new) ?sp" by simp
  then have "sim {} (at_channel a ?f [a \<mapsto> MChannel_new fd], new) ?sp"
    by (rule sim_change) (simp_all add: setErrorCallback_def setCloseCallback_def setWriteCallback_def setReadCallback_def)
  moreover have "w_poll ?s = (at_channel a ?f [a \<mapsto> MChannel_new fd], new)" by (simp add: TcpConnection_new_def at_channel_def fun_eq_iff)
  ultimately have "at_phase {} ?s (Fresh fd)" by (auto simp: at_phase_def TcpConnection_new_def spec_new_def)
  then have "phase_rel fd {} [FEstablished] ?s" by (simp add: phase_rel_def) (simp add: TcpConnection_new_def)
  moreover have "wired (t_chan ?s)"
    by (simp add: TcpConnection_new_def t_chan_def wired_def setErrorCallback_def setCloseCallback_def setWriteCallback_def setReadCallback_def)
  ultimately show ?thesis by (simp add: tcp_conn_ok_def) (simp add: TcpConnection_new_def queue_rel_def shut_rel_def)
qed

lemma connection_correct:
  assumes "user_ok user" "0 \<le> fd" "possible update remove wr user evs (TcpConnection_new a fd wc hw (\<lambda>_. None, new))"
  shows "returns (tcp_run update remove wr user evs (TcpConnection_new a fd wc hw (\<lambda>_. None, new))) (conn_correct watch fd)"
  using tcp_run_ok [OF assms(1) new_ok [OF assms(2)] assms(3)] by (rule returns_mono) (rule conn_ok_correct)

end

interpretation ept: tcp_poller ep_updateChannel ep_removeChannel ep_inv ep_channels ep_watch "\<lambda>_ _. True" EPollPoller_new
  by unfold_locales

interpretation ppt: tcp_poller pp_updateChannel pp_removeChannel pp_inv pp_channels pp_watch pp_removable PollPoller_new
  by unfold_locales

section \<open>Connections\<close>

text \<open>
  C10. Connections of muduo: whatever the application's callbacks do on the connection, whatever other threads call and in whatever order the
  kernel reports events and takes or refuses bytes, no assertion of the connection, its channel, the poller or its buffers fails. The bytes the
  kernel has taken and those still buffered are always the accepted bytes in order; the kernel is asked for writability exactly
  while an open connection has unsent bytes, and for nothing once it is closed; a connection that is being shut down has
  already half-closed its socket, or still has bytes to send, a queued request or a timer that will do it; and the half-close
  happened after the last byte was sent, unless the connection had been closed before. The application may use \<open>startRead\<close> and \<open>stopRead\<close> only
  from the loop's thread and on open connections.
\<close>

theorem muduo_tcp_connection:
  assumes "user_ok user" "0 \<le> fd" "possible ep_updateChannel ep_removeChannel wr user evs (TcpConnection_new a fd wc hw (\<lambda>_. None, EPollPoller_new))"
  shows "returns (tcp_run ep_updateChannel ep_removeChannel wr user evs (TcpConnection_new a fd wc hw (\<lambda>_. None, EPollPoller_new)))
    (conn_correct ep_watch fd)"
  using assms by (rule ept.connection_correct)

definition demo_user :: "'p tcp_user" where
  "demo_user e s = (if e = CbConnection \<and> t_state s = kConnected \<and> w_requested s = 0 then [USend ''hello'', UShutdown] else [])"

definition demo_events :: "tcp_event list" where
  "demo_events = [EvPending, EvIO EPOLLOUT (Fail EAGAIN), EvIO EPOLLOUT (Fail EAGAIN), EvIO EPOLLHUP (Fail EAGAIN), EvDestroy, EvPending]"

lemma demo_user_ok: "user_ok demo_user"
  by (auto simp: user_ok_def demo_user_def script_bytes_def)

definition demo_conn :: "EPollPoller tcp" where
  "demo_conn = TcpConnection_new 0 5 True False (\<lambda>_. None, EPollPoller_new)"

lemma demo_possible: "possible ep_updateChannel ep_removeChannel (\<lambda>_. Ok 2) demo_user demo_events demo_conn"
  by code_simp

lemma demo_result:
  "map_option (\<lambda>s. (t_state s, w_wire s, w_shutdown s)) (tcp_run ep_updateChannel ep_removeChannel (\<lambda>_. Ok 2) demo_user demo_events demo_conn) =
   Some (kDisconnected, ''hello'', Some (kDisconnecting, []))"
  by code_simp

theorem muduo_tcp_connection_witness:
  "\<exists>s. tcp_run ep_updateChannel ep_removeChannel (\<lambda>_. Ok 2) demo_user demo_events demo_conn = Some s \<and> conn_correct ep_watch 5 s \<and>
     w_wire s = ''hello'' \<and> w_shutdown s = Some (kDisconnecting, [])"
  using muduo_tcp_connection [OF demo_user_ok, of 5 "\<lambda>_. Ok 2" demo_events 0 True False] demo_possible demo_result
  by (auto simp: demo_conn_def returns_iff)

text \<open>The same with \<open>PollPoller\<close>.\<close>

lemma muduo_tcp_connection_poll:
  assumes "user_ok user" "0 \<le> fd" "possible pp_updateChannel pp_removeChannel wr user evs (TcpConnection_new a fd wc hw (\<lambda>_. None, PollPoller_new))"
  shows "returns (tcp_run pp_updateChannel pp_removeChannel wr user evs (TcpConnection_new a fd wc hw (\<lambda>_. None, PollPoller_new)))
    (conn_correct pp_watch fd)"
  using assms by (rule ppt.connection_correct)

text \<open>Uses outside these rules abort. A \<open>startRead\<close> of another thread that runs after the connection was closed enables its channel again, and
  \<open>connectDestroyed\<close> then fails the assertion of \<open>Channel::remove\<close>; so does \<open>connectDestroyed\<close> by the destructor of the server while a connection
  is being shut down.\<close>

lemma late_startRead:
  "tcp_run ep_updateChannel ep_removeChannel (\<lambda>_. Ok 2) (\<lambda>_ _. [])
     [EvPending, EvIO EPOLLHUP (Fail EAGAIN), EvOther UStartRead, EvDestroy, EvPending] demo_conn = None"
  by code_simp

lemma destroyed_while_disconnecting:
  "tcp_run ep_updateChannel ep_removeChannel (\<lambda>_. Ok 2) demo_user [EvPending, EvDestroy, EvPending] demo_conn = None"
  by code_simp

text \<open>A message that another thread sent before the loop's thread shuts the connection down, here when a first message was
  sent, may still be queued at the half-close; the kernel refuses it, and it is lost.\<close>

definition shutdown_when_sent :: "'p tcp_user" where
  "shutdown_when_sent e s = (if e = CbWriteComplete then [UShutdown] else [])"

lemma queued_send_after_shutdown:
  "map_option (\<lambda>s. (w_requested s, w_wire s, contents (t_output s), w_shutdown s))
     (tcp_run ep_updateChannel ep_removeChannel (\<lambda>n. if n = 0 then Ok 1 else Fail EPIPE) shutdown_when_sent
        [EvPending, EvOther (USend ''a''), EvPending, EvOther (USend ''b''), EvPending] demo_conn) =
   Some (2, ''a'', [], Some (kDisconnecting, []))"
  by code_simp

end
