(* ===== verification/MuduoEventLoop.thy ===== *)
theory MuduoEventLoop
  imports Prelude
begin

text \<open>
  The class \<open>EventLoop\<close> of the bundled muduo library, \<open>src/muduo_source_code/muduo/net/EventLoop.h\<close> and \<open>EventLoop.cc\<close>, and
  \<open>EventLoopThreadPool.cc\<close> and \<open>EventLoopThread.cc\<close>. The loop is a step relation over its own thread and any number of other threads: a call of
  \<open>queueInLoop\<close> or \<open>quit\<close> by another thread is two steps, the change under the mutex and the write to the event descriptor, so that the
  loop's thread can run in between. A functor and a handler of a channel may queue functors and quit the loop; which ones is
  free in every step. The active channels are addresses, address 0 being the channel of the event descriptor; polling is level triggered, so that
  channel is active exactly if the counter of the descriptor is positive. \<open>None\<close> is a failed assertion.

  The loop's thread may itself queue functors and quit while it is outside of \<open>loop\<close>, before its first call and between calls; \<open>ml_early\<close> is the
  history of the functors queued in this way and not yet exchanged.

  The theory shows that functors are run in the order in which they were queued, each once, and that no wake-up is lost but those the code does
  not give: a loop that waits in \<open>poll\<close> while no thread is inside \<open>queueInLoop\<close> or \<open>quit\<close> has at most the early functors to run, and its quit flag is
  cleared.
\<close>

section \<open>State and operations\<close>

datatype ml_phase = LIdle | LTest | LPoll | LHandle | LSwap | LRun | LDone

record 'f mloop =
  ml_pc :: ml_phase
  ml_looping :: bool
  ml_quit :: bool
  ml_eventHandling :: bool
  ml_calling :: bool
  ml_wakeupFd :: nat
  ml_active :: "nat list"
  ml_current :: "nat option"
  ml_pending :: "'f list"
  ml_functors :: "'f list"
  ml_inside :: nat
  ml_queued :: "'f list"
  ml_ran :: "'f list"
  ml_early :: "'f list"

definition mloop_new :: "'f mloop" where
  "mloop_new = \<lparr>ml_pc = LIdle, ml_looping = False, ml_quit = False, ml_eventHandling = False, ml_calling = False, ml_wakeupFd = 0,
     ml_active = [], ml_current = None, ml_pending = [], ml_functors = [], ml_inside = 0, ml_queued = [], ml_ran = [], ml_early = []\<rparr>"

definition ml_wakeup :: "'f mloop \<Rightarrow> 'f mloop" where
  "ml_wakeup s = s\<lparr>ml_wakeupFd := ml_wakeupFd s + 1\<rparr>"

definition ml_handleRead :: "'f mloop \<Rightarrow> 'f mloop" where
  "ml_handleRead s = s\<lparr>ml_wakeupFd := 0\<rparr>"

definition ml_push :: "'f \<Rightarrow> 'f mloop \<Rightarrow> 'f mloop" where
  "ml_push f s = s\<lparr>ml_pending := ml_pending s @ [f], ml_queued := ml_queued s @ [f]\<rparr>"

text \<open>\<open>queueInLoop\<close> and \<open>quit\<close> in the loop's thread.\<close>

definition ml_queueInLoop :: "'f \<Rightarrow> 'f mloop \<Rightarrow> 'f mloop" where
  "ml_queueInLoop f s = (let s1 = ml_push f s in if ml_calling s1 then ml_wakeup s1 else s1)"

fun ml_queueAll :: "'f list \<Rightarrow> 'f mloop \<Rightarrow> 'f mloop" where
  "ml_queueAll [] s = s"
| "ml_queueAll (f # fs) s = ml_queueAll fs (ml_queueInLoop f s)"

definition ml_quitIf :: "bool \<Rightarrow> 'f mloop \<Rightarrow> 'f mloop" where
  "ml_quitIf b s = (if b then s\<lparr>ml_quit := True\<rparr> else s)"

text \<open>The parts of \<open>loop\<close>.\<close>

definition ml_loop :: "'f mloop \<Rightarrow> 'f mloop option" where
  "ml_loop s = (if ml_looping s then None else Some (s\<lparr>ml_looping := True, ml_quit := False, ml_pc := LTest\<rparr>))"

definition ml_test :: "'f mloop \<Rightarrow> 'f mloop" where
  "ml_test s = (if \<not> ml_quit s then s\<lparr>ml_active := [], ml_pc := LPoll\<rparr> else s\<lparr>ml_looping := False, ml_pc := LDone\<rparr>)"

definition ml_polled :: "nat list \<Rightarrow> 'f mloop \<Rightarrow> 'f mloop" where
  "ml_polled active s = s\<lparr>ml_active := active, ml_eventHandling := True, ml_pc := LHandle\<rparr>"

definition ml_handled :: "'f mloop \<Rightarrow> 'f mloop" where
  "ml_handled s = s\<lparr>ml_current := None, ml_eventHandling := False, ml_pc := LSwap\<rparr>"

definition ml_doPendingFunctors :: "'f mloop \<Rightarrow> 'f mloop" where
  "ml_doPendingFunctors s = s\<lparr>ml_calling := True, ml_functors := ml_pending s, ml_pending := [], ml_early := [], ml_pc := LRun\<rparr>"

definition ml_ranAll :: "'f mloop \<Rightarrow> 'f mloop" where
  "ml_ranAll s = s\<lparr>ml_calling := False, ml_pc := LTest\<rparr>"

text \<open>\<open>removeChannel\<close>: during the handling of events a channel may only be removed by its own handler, or if it is not active.\<close>

definition ml_removeChannel :: "(nat \<Rightarrow> 'p \<Rightarrow> 'p option) \<Rightarrow> nat \<Rightarrow> 'f mloop \<Rightarrow> 'p \<Rightarrow> 'p option" where
  "ml_removeChannel rem ch s p =
     (if ml_eventHandling s \<and> \<not> (ml_current s = Some ch \<or> ch \<notin> set (ml_active s)) then None else rem ch p)"

section \<open>Steps\<close>

text \<open>The next active channel is the one after the current; the list of those still to handle is kept in \<open>todo\<close>.\<close>

inductive ml_step :: "'f mloop \<times> nat list \<Rightarrow> 'f mloop \<times> nat list \<Rightarrow> bool" where
  early_queue: "ml_pc s = LIdle \<or> ml_pc s = LDone \<Longrightarrow> ml_step (s, todo) ((ml_queueInLoop f s)\<lparr>ml_early := ml_early s @ [f]\<rparr>, todo)"
| early_quit: "ml_pc s = LIdle \<or> ml_pc s = LDone \<Longrightarrow> ml_step (s, todo) (ml_quitIf True s, todo)"
| start: "ml_pc s = LIdle \<or> ml_pc s = LDone \<Longrightarrow> ml_loop s = Some s' \<Longrightarrow> ml_step (s, todo) (s', todo)"
| test: "ml_pc s = LTest \<Longrightarrow> ml_step (s, todo) (ml_test s, todo)"
| poll: "ml_pc s = LPoll \<Longrightarrow> 0 \<in> set active \<longleftrightarrow> 0 < ml_wakeupFd s \<Longrightarrow> ml_step (s, todo) (ml_polled active s, active)"
| handle_wakeup: "ml_pc s = LHandle \<Longrightarrow> ml_step (s, 0 # todo) (ml_handleRead (s\<lparr>ml_current := Some 0\<rparr>), todo)"
| handle_other: "ml_pc s = LHandle \<Longrightarrow> ch \<noteq> 0 \<Longrightarrow>
    ml_step (s, ch # todo) (ml_quitIf q (ml_queueAll fs (s\<lparr>ml_current := Some ch\<rparr>)), todo)"
| handled: "ml_pc s = LHandle \<Longrightarrow> ml_step (s, []) (ml_handled s, [])"
| swap: "ml_pc s = LSwap \<Longrightarrow> ml_step (s, todo) (ml_doPendingFunctors s, todo)"
| run: "ml_pc s = LRun \<Longrightarrow> ml_functors s = f # fs \<Longrightarrow>
    ml_step (s, todo) (ml_quitIf q (ml_queueAll gs (s\<lparr>ml_functors := fs, ml_ran := ml_ran s @ [f]\<rparr>)), todo)"
| ran: "ml_pc s = LRun \<Longrightarrow> ml_functors s = [] \<Longrightarrow> ml_step (s, todo) (ml_ranAll s, todo)"
| other_push: "ml_step (s, todo) ((ml_push f s)\<lparr>ml_inside := ml_inside s + 1\<rparr>, todo)"
| other_quit: "ml_step (s, todo) (s\<lparr>ml_quit := True, ml_inside := ml_inside s + 1\<rparr>, todo)"
| other_wakeup: "0 < ml_inside s \<Longrightarrow> ml_step (s, todo) ((ml_wakeup s)\<lparr>ml_inside := ml_inside s - 1\<rparr>, todo)"

inductive ml_reach :: "'f mloop \<times> nat list \<Rightarrow> bool" where
  reach_new: "ml_reach (mloop_new, [])"
| reach_step: "ml_reach s \<Longrightarrow> ml_step s s' \<Longrightarrow> ml_reach s'"

section \<open>Invariant\<close>

definition asleep :: "'f mloop \<Rightarrow> bool" where
  "asleep s \<longleftrightarrow> ml_pc s = LPoll \<and> ml_wakeupFd s = 0"

definition called :: "'f mloop \<Rightarrow> bool" where
  "called s \<longleftrightarrow> 0 < ml_wakeupFd s \<or> 0 < ml_inside s"

definition ml_inv :: "'f mloop \<Rightarrow> bool" where
  "ml_inv s \<longleftrightarrow> ml_ran s @ ml_functors s @ ml_pending s = ml_queued s \<and>
     (ml_pending s \<noteq> ml_early s \<longrightarrow> ml_pc s = LHandle \<or> ml_pc s = LSwap \<or> called s) \<and>
     (ml_quit s \<and> ml_pc s = LPoll \<longrightarrow> called s) \<and>
     (ml_calling s \<longleftrightarrow> ml_pc s = LRun) \<and> (ml_functors s \<noteq> [] \<longrightarrow> ml_pc s = LRun) \<and>
     (ml_eventHandling s \<longleftrightarrow> ml_pc s = LHandle) \<and> (ml_looping s \<longleftrightarrow> ml_pc s \<noteq> LIdle \<and> ml_pc s \<noteq> LDone)"

lemma queueInLoop_inv:
  assumes "ml_inv s" and "ml_pc s = LHandle \<or> ml_pc s = LRun"
  shows "ml_inv (ml_queueInLoop f s)" "ml_pc (ml_queueInLoop f s) = ml_pc s"
  using assms by (auto simp: ml_inv_def ml_queueInLoop_def ml_push_def ml_wakeup_def called_def Let_def)

lemma queueAll_inv:
  "ml_inv s \<Longrightarrow> ml_pc s = LHandle \<or> ml_pc s = LRun \<Longrightarrow> ml_inv (ml_queueAll fs s) \<and> ml_pc (ml_queueAll fs s) = ml_pc s"
  by (induction fs arbitrary: s) (auto simp: queueInLoop_inv)

lemma quitIf_inv:
  "ml_inv s \<Longrightarrow> ml_pc s = LHandle \<or> ml_pc s = LRun \<Longrightarrow> ml_inv (ml_quitIf b s)"
  by (auto simp: ml_inv_def ml_quitIf_def called_def)

lemma ml_step_inv:
  assumes "ml_step (s, todo) (s', todo')" and i: "ml_inv s"
  shows "ml_inv s'"
  using assms(1)
proof (cases rule: ml_step.cases)
  case (handle_other ch q fs)
  let ?s = "s\<lparr>ml_current := Some ch\<rparr>"
  have "ml_inv ?s" using i by (simp add: ml_inv_def called_def)
  then have "ml_inv (ml_queueAll fs ?s)" "ml_pc (ml_queueAll fs ?s) = LHandle" using handle_other queueAll_inv [of ?s fs] by auto
  then show ?thesis using handle_other by (simp add: quitIf_inv)
next
  case (run f fs q gs)
  let ?s = "s\<lparr>ml_functors := fs, ml_ran := ml_ran s @ [f]\<rparr>"
  have "ml_inv ?s" using i run by (auto simp: ml_inv_def called_def)
  then have "ml_inv (ml_queueAll gs ?s)" "ml_pc (ml_queueAll gs ?s) = LRun" using run queueAll_inv [of ?s gs] by auto
  then show ?thesis using run by (simp add: quitIf_inv)
next
  case (early_queue f)
  have "\<not> ml_calling s" using i early_queue by (auto simp: ml_inv_def)
  then have "ml_queueInLoop f s = ml_push f s" by (simp add: ml_queueInLoop_def ml_push_def)
  then show ?thesis using i early_queue by (elim disjE; simp add: ml_inv_def called_def ml_push_def; metis append_assoc)
next
  case early_quit
  then show ?thesis using i by (elim disjE; simp add: ml_inv_def called_def ml_quitIf_def)
next
  case start
  then show ?thesis using i by (elim disjE; simp add: ml_inv_def called_def ml_loop_def; fastforce)
qed (use i in \<open>auto simp: ml_inv_def called_def ml_test_def ml_polled_def ml_handleRead_def ml_handled_def
    ml_doPendingFunctors_def ml_ranAll_def ml_push_def ml_wakeup_def split: if_splits\<close>)

lemma ml_reach_inv: "ml_reach x \<Longrightarrow> ml_inv (fst x)"
proof (induction rule: ml_reach.induct)
  case reach_new
  then show ?case by (simp add: ml_inv_def mloop_new_def)
next
  case (reach_step s s')
  then show ?case using ml_step_inv [of "fst s" "snd s" "fst s'" "snd s'"] by simp
qed

text \<open>A loop that is neither asleep nor finished goes on by a step of its own thread.\<close>

definition own_step :: "'f mloop \<times> nat list \<Rightarrow> 'f mloop \<times> nat list \<Rightarrow> bool" where
  "own_step x y \<longleftrightarrow> ml_step x y \<and> ml_inside (fst y) = ml_inside (fst x) \<and> ml_pc (fst y) \<noteq> LIdle"

lemma inside_simps [simp]:
  "ml_inside (ml_queueInLoop f s) = ml_inside s" "ml_pc (ml_queueInLoop f s) = ml_pc s"
  by (simp_all add: ml_queueInLoop_def ml_push_def ml_wakeup_def Let_def)

lemma never_stuck:
  assumes "ml_reach (s, todo)" and "ml_pc s \<noteq> LDone" and "\<not> asleep s"
  shows "\<exists>y. own_step (s, todo) y"
proof (cases "ml_pc s")
  case LIdle
  then have "\<not> ml_looping s" using ml_reach_inv [OF assms(1)] by (simp add: ml_inv_def)
  then show ?thesis using start [of s] LIdle by (fastforce simp: own_step_def ml_loop_def)
next
  case LTest
  then have "own_step (s, todo) (ml_test s, todo)" using test [OF LTest, of todo] by (auto simp: own_step_def ml_test_def)
  then show ?thesis by blast
next
  case LPoll
  then show ?thesis using poll [OF LPoll, of "[0]" todo] assms(3) by (fastforce simp: own_step_def ml_polled_def asleep_def)
next
  case LHandle
  show ?thesis
  proof (cases todo)
    case Nil
    then show ?thesis using handled [OF LHandle] by (fastforce simp: own_step_def ml_handled_def)
  next
    case (Cons ch rest)
    then show ?thesis
      using handle_wakeup [OF LHandle, of rest] handle_other [OF LHandle, of ch rest False "[]"] LHandle
      by (cases "ch = 0") (fastforce simp: own_step_def ml_handleRead_def ml_quitIf_def)+
  qed
next
  case LSwap
  then show ?thesis using swap [OF LSwap, of todo] by (fastforce simp: own_step_def ml_doPendingFunctors_def)
next
  case LRun
  show ?thesis
  proof (cases "ml_functors s")
    case Nil
    then show ?thesis using ran [OF LRun] by (fastforce simp: own_step_def ml_ranAll_def)
  next
    case (Cons f fs)
    then show ?thesis using run [OF LRun Cons, of todo False "[]"] LRun by (fastforce simp: own_step_def ml_quitIf_def)
  qed
qed (use assms(2) in simp)

text \<open>
  C24. Wake-ups of muduo's loop: in every interleaving of the loop's thread, which may also queue functors, quit and call \<open>loop\<close> again while it is outside of
  \<open>loop\<close>, with any number of threads that queue functors or quit the loop, the functors
  are run in the order in which they were queued and each of them once; a loop that sleeps in \<open>poll\<close> while no thread is between queueing and
  waking it has its quit flag cleared and no functor to run, except those that its own thread queued while it was outside of \<open>loop\<close> (for them
  the code wakes nobody; \<open>ml_early\<close> has exactly these); and a loop that neither sleeps nor has ended can always go on by itself. (A \<open>quit\<close> before \<open>loop\<close> is
  forgotten, because \<open>loop\<close> clears the flag.)
\<close>

theorem muduo_loop_wakeups:
  assumes "ml_reach (s, todo)"
  shows "ml_ran s @ ml_functors s @ ml_pending s = ml_queued s \<and>
    (asleep s \<and> ml_inside s = 0 \<longrightarrow> ml_pending s = ml_early s \<and> ml_functors s = [] \<and> \<not> ml_quit s) \<and>
    (ml_pc s \<noteq> LDone \<and> \<not> asleep s \<longrightarrow> (\<exists>y. own_step (s, todo) y))"
  using ml_reach_inv [OF assms] never_stuck [OF assms] by (auto simp: ml_inv_def asleep_def called_def)

lemma demo_reach:
  "ml_reach (mloop_new\<lparr>ml_looping := True, ml_pc := LPoll, ml_pending := [7 :: nat], ml_queued := [7], ml_wakeupFd := 1\<rparr>, [])"
proof -
  let ?s1 = "mloop_new\<lparr>ml_looping := True, ml_pc := LTest\<rparr> :: nat mloop"
  let ?s2 = "?s1\<lparr>ml_pc := LPoll\<rparr>"
  let ?s3 = "?s2\<lparr>ml_pending := [7], ml_queued := [7], ml_inside := 1\<rparr>"
  have "ml_reach (?s1, [])" using reach_step [OF reach_new start [of mloop_new ?s1]] by (simp add: mloop_new_def ml_loop_def)
  from reach_step [OF this test [of ?s1]] have "ml_reach (?s2, [])" by (simp add: mloop_new_def ml_test_def)
  from reach_step [OF this other_push [of ?s2 "[]" 7]] have "ml_reach (?s3, [])" by (simp add: mloop_new_def ml_push_def)
  from reach_step [OF this other_wakeup [of ?s3]] show ?thesis by (simp add: mloop_new_def ml_wakeup_def)
qed

theorem muduo_loop_wakeups_witness:
  "\<exists>y. own_step (mloop_new\<lparr>ml_looping := True, ml_pc := LPoll, ml_pending := [7 :: nat], ml_queued := [7], ml_wakeupFd := 1\<rparr>, []) y"
  using muduo_loop_wakeups [OF demo_reach] by (simp add: asleep_def)

section \<open>Before the loop\<close>

text \<open>A functor that the loop's own thread queues before it calls \<open>loop\<close> is not announced: the loop goes to sleep with the functor in its queue. And
  a \<open>quit\<close> before \<open>loop\<close> is forgotten.\<close>

lemma queued_before_loop:
  "map_option ml_test (ml_loop (ml_queueInLoop f mloop_new)) = Some s \<Longrightarrow> asleep s \<and> ml_pending s = [f] \<and> ml_inside s = 0"
  by (auto simp: ml_queueInLoop_def ml_push_def mloop_new_def ml_loop_def ml_test_def asleep_def)

lemma quit_before_loop: "map_option ml_quit (ml_loop (mloop_new\<lparr>ml_quit := True\<rparr>)) = Some False"
  by (simp add: ml_loop_def mloop_new_def)

section \<open>The pool of loops\<close>

record 'l MLoopPool =
  mp_baseLoop :: 'l
  mp_started :: bool
  mp_numThreads :: int
  mp_next :: nat
  mp_loops :: "'l list"

definition MLoopPool_new :: "'l \<Rightarrow> 'l MLoopPool" where
  "MLoopPool_new b = \<lparr>mp_baseLoop = b, mp_started = False, mp_numThreads = 0, mp_next = 0, mp_loops = []\<rparr>"

definition setThreadNum :: "int \<Rightarrow> 'l MLoopPool \<Rightarrow> 'l MLoopPool" where
  "setThreadNum n p = p\<lparr>mp_numThreads := n\<rparr>"

text \<open>\<open>start\<close>: \<open>startLoop\<close> of the i-th thread returns its loop; the result has the loop the callback is called with, if there are no threads.\<close>

definition mp_start :: "(nat \<Rightarrow> 'l) \<Rightarrow> 'l MLoopPool \<Rightarrow> ('l MLoopPool \<times> 'l list) option" where
  "mp_start startLoop p =
     (if mp_started p then None
      else let loops = map startLoop [0..<nat (mp_numThreads p)]
           in Some (p\<lparr>mp_started := True, mp_loops := mp_loops p @ loops\<rparr>, if mp_numThreads p = 0 then [mp_baseLoop p] else []))"

definition getNextLoop :: "'l MLoopPool \<Rightarrow> ('l \<times> 'l MLoopPool) option" where
  "getNextLoop p =
     (if \<not> mp_started p then None
      else if mp_loops p \<noteq> [] then
        if mp_next p < length (mp_loops p) then
          let n = mp_next p + 1
          in Some (mp_loops p ! mp_next p, p\<lparr>mp_next := (if length (mp_loops p) \<le> n then 0 else n)\<rparr>)
        else None
      else Some (mp_baseLoop p, p))"

definition getLoopForHash :: "nat \<Rightarrow> 'l MLoopPool \<Rightarrow> 'l" where
  "getLoopForHash hashCode p = (if mp_loops p \<noteq> [] then mp_loops p ! (hashCode mod length (mp_loops p)) else mp_baseLoop p)"

definition getAllLoops :: "'l MLoopPool \<Rightarrow> 'l list option" where
  "getAllLoops p = (if \<not> mp_started p then None else if mp_loops p = [] then Some [mp_baseLoop p] else Some (mp_loops p))"

definition pool_inv :: "'l MLoopPool \<Rightarrow> bool" where
  "pool_inv p \<longleftrightarrow> mp_started p \<and> (mp_loops p \<noteq> [] \<longrightarrow> mp_next p < length (mp_loops p))"

lemma start_pool_inv: "\<not> mp_started p \<Longrightarrow> mp_loops p = [] \<Longrightarrow> mp_next p = 0 \<Longrightarrow> returns (mp_start f p) (\<lambda>(p', _). pool_inv p')"
  by (simp add: mp_start_def pool_inv_def Let_def)

text \<open>The loops are handed out in turn, and every answer is one of all loops.\<close>

lemma getNextLoop_turn:
  assumes "pool_inv p"
  shows "returns (getNextLoop p) (\<lambda>(l, p'). pool_inv p' \<and> mp_loops p' = mp_loops p \<and>
    (mp_loops p \<noteq> [] \<longrightarrow> l = mp_loops p ! mp_next p \<and> mp_next p' = (mp_next p + 1) mod length (mp_loops p)) \<and>
    returns (getAllLoops p) (\<lambda>ls. l \<in> set ls \<and> getLoopForHash h p \<in> set ls))"
proof -
  have "Suc (mp_next p) mod length (mp_loops p) = 0" if "length (mp_loops p) \<le> Suc (mp_next p)" "mp_next p < length (mp_loops p)"
  proof -
    have "Suc (mp_next p) = length (mp_loops p)" using that by simp
    then show ?thesis by simp
  qed
  then show ?thesis using assms by (auto simp: getNextLoop_def pool_inv_def getAllLoops_def getLoopForHash_def Let_def)
qed

section \<open>Loop threads\<close>

text \<open>
  \<open>EventLoopThread\<close>: the thread makes its loop, runs the initial callback, publishes the loop under the mutex and notifies; \<open>startLoop\<close> starts the thread
  and waits for the loop. Critical sections are single steps; \<open>wait\<close> may wake up spuriously. When the loop has ended, the thread takes it
  back.
\<close>

datatype et_thread = TNotStarted | TStarted | TLooping | TEnded

datatype et_caller = SNotCalled | SCheck | SAsleep | SReturned bool

record loop_thread =
  et_thread :: et_thread
  et_caller :: et_caller
  et_loop :: bool

definition EventLoopThread_new :: loop_thread where
  "EventLoopThread_new = \<lparr>et_thread = TNotStarted, et_caller = SNotCalled, et_loop = False\<rparr>"

text \<open>\<open>startLoop\<close> up to its critical section; it asserts that the thread was not started.\<close>

definition et_startLoop :: "loop_thread \<Rightarrow> loop_thread option" where
  "et_startLoop s = (if et_thread s = TNotStarted then Some (s\<lparr>et_thread := TStarted, et_caller := SCheck\<rparr>) else None)"

definition et_check :: "loop_thread \<Rightarrow> loop_thread" where
  "et_check s = (if \<not> et_loop s then s\<lparr>et_caller := SAsleep\<rparr> else s\<lparr>et_caller := SReturned (et_loop s)\<rparr>)"

definition et_publish :: "loop_thread \<Rightarrow> loop_thread" where
  "et_publish s = s\<lparr>et_thread := TLooping, et_loop := True, et_caller := (if et_caller s = SAsleep then SCheck else et_caller s)\<rparr>"

definition et_end :: "loop_thread \<Rightarrow> loop_thread" where
  "et_end s = s\<lparr>et_thread := TEnded, et_loop := False\<rparr>"

inductive et_step :: "loop_thread \<Rightarrow> loop_thread \<Rightarrow> bool" where
  et_call: "et_caller s = SNotCalled \<Longrightarrow> et_startLoop s = Some s' \<Longrightarrow> et_step s s'"
| et_lock: "et_caller s = SCheck \<Longrightarrow> et_step s (et_check s)"
| et_spurious: "et_caller s = SAsleep \<Longrightarrow> et_step s (s\<lparr>et_caller := SCheck\<rparr>)"
| et_ready: "et_thread s = TStarted \<Longrightarrow> et_step s (et_publish s)"
| et_quit: "et_thread s = TLooping \<Longrightarrow> et_step s (et_end s)"

definition et_inv :: "loop_thread \<Rightarrow> bool" where
  "et_inv s \<longleftrightarrow> (et_loop s \<longleftrightarrow> et_thread s = TLooping) \<and> (et_caller s = SNotCalled \<longleftrightarrow> et_thread s = TNotStarted) \<and>
     (et_caller s = SAsleep \<longrightarrow> et_thread s \<noteq> TLooping) \<and> (\<forall>b. et_caller s = SReturned b \<longrightarrow> b \<and> et_thread s \<noteq> TStarted)"

lemma et_step_inv: "et_step s s' \<Longrightarrow> et_inv s \<Longrightarrow> et_inv s'"
  by (induction rule: et_step.induct)
    (auto simp: et_inv_def et_startLoop_def et_check_def et_publish_def et_end_def split: if_splits)

text \<open>\<open>startLoop\<close> returns only a loop that was published, it never sleeps while the loop runs, and unless the loop ends first it can always return.\<close>

lemma startLoop_returns_loop:
  assumes "et_step\<^sup>*\<^sup>* EventLoopThread_new s"
  shows "et_inv s" and "et_caller s \<noteq> SNotCalled \<and> et_thread s \<noteq> TEnded \<longrightarrow> (\<exists>s'. et_step\<^sup>*\<^sup>* s s' \<and> et_caller s' = SReturned True)"
proof -
  show i: "et_inv s" using assms
  proof (induction rule: rtranclp_induct)
    case base
    then show ?case by (simp add: et_inv_def EventLoopThread_new_def)
  qed (rule et_step_inv)
  have loop: "\<exists>s'. et_step\<^sup>*\<^sup>* x s' \<and> et_caller s' = SReturned True" if x: "et_inv x" "et_thread x = TLooping" for x
  proof (cases "et_caller x")
    case SCheck
    have "et_caller (et_check x) = SReturned True" using x by (simp add: et_check_def et_inv_def)
    then show ?thesis using et_lock [OF SCheck] by blast
  next
    case (SReturned b)
    then show ?thesis using x by (auto simp: et_inv_def)
  qed (use x in \<open>auto simp: et_inv_def\<close>)
  show "et_caller s \<noteq> SNotCalled \<and> et_thread s \<noteq> TEnded \<longrightarrow> (\<exists>s'. et_step\<^sup>*\<^sup>* s s' \<and> et_caller s' = SReturned True)"
  proof (cases "et_thread s")
    case TStarted
    have 1: "et_step s (et_publish s)" by (rule et_ready [OF TStarted])
    have "et_thread (et_publish s) = TLooping" by (simp add: et_publish_def)
    then obtain s' where "et_step\<^sup>*\<^sup>* (et_publish s) s'" "et_caller s' = SReturned True" using loop et_step_inv [OF 1 i] by blast
    then show ?thesis using 1 by (meson converse_rtranclp_into_rtranclp)
  next
    case TLooping
    then show ?thesis using loop [OF i] by blast
  qed (use i in \<open>auto simp: et_inv_def\<close>)
qed

text \<open>A loop that ends before \<open>startLoop\<close> has looked again (its initial callback can queue a functor that quits it) leaves the caller waiting for ever.\<close>

lemma ended_before_seen:
  "et_step\<^sup>*\<^sup>* EventLoopThread_new \<lparr>et_thread = TEnded, et_caller = SAsleep, et_loop = False\<rparr>"
  "et_step \<lparr>et_thread = TEnded, et_caller = c, et_loop = False\<rparr> s \<Longrightarrow> c = SAsleep \<or> c = SCheck \<Longrightarrow>
   \<exists>c'. s = \<lparr>et_thread = TEnded, et_caller = c', et_loop = False\<rparr> \<and> (c' = SAsleep \<or> c' = SCheck)"
proof -
  let ?n = EventLoopThread_new
  let ?s1 = "?n\<lparr>et_thread := TStarted, et_caller := SCheck\<rparr>"
  have "et_step ?n ?s1" by (rule et_call) (simp_all add: EventLoopThread_new_def et_startLoop_def)
  moreover have "et_step ?s1 (et_publish ?s1)" by (rule et_ready) simp
  moreover have "et_step (et_publish ?s1) (et_end (et_publish ?s1))" by (rule et_quit) (simp add: et_publish_def)
  moreover have "et_step (et_end (et_publish ?s1)) (et_check (et_end (et_publish ?s1)))" by (rule et_lock) (simp add: et_end_def et_publish_def)
  ultimately have "et_step\<^sup>*\<^sup>* ?n (et_check (et_end (et_publish ?s1)))" by (meson rtranclp.rtrancl_into_rtrancl rtranclp.rtrancl_refl)
  then show "et_step\<^sup>*\<^sup>* ?n \<lparr>et_thread = TEnded, et_caller = SAsleep, et_loop = False\<rparr>"
    by (simp add: et_check_def et_end_def et_publish_def EventLoopThread_new_def)
  show "\<exists>c'. s = \<lparr>et_thread = TEnded, et_caller = c', et_loop = False\<rparr> \<and> (c' = SAsleep \<or> c' = SCheck)"
    if "et_step \<lparr>et_thread = TEnded, et_caller = c, et_loop = False\<rparr> s" "c = SAsleep \<or> c = SCheck"
    using that by (cases rule: et_step.cases) (auto simp: et_check_def)
qed

end
