(* ===== verification/MuduoLogStream.thy ===== *)
theory MuduoLogStream
  imports HttpMessage "HOL-Library.Signed_Division"
begin

text \<open>
  Formatting of log messages in the bundled muduo library: the template \<open>FixedBuffer\<close>, the class \<open>LogStream\<close> and the conversions of
  integers, \<open>src/muduo_source_code/muduo/base/LogStream.h\<close> and \<open>LogStream.cc\<close>. A buffer is its array
  of bytes and the offset of \<open>cur_\<close>; \<open>None\<close> is a write outside the array. Integer operands are machine words of
  their width; a floating point operand is the text that \<open>snprintf\<close> makes of it.

  The theory shows that the conversions produce the usual decimal and hexadecimal texts for every
  value, the smallest included, and that a stream never writes outside its buffer and contains exactly the texts of its
  operands that fitted, in order.
\<close>

section \<open>FixedBuffer\<close>

record FixedBuffer =
  fb_data :: bytes
  fb_cur :: nat

definition kSmallBuffer :: nat where "kSmallBuffer = 4000"
definition kLargeBuffer :: nat where "kLargeBuffer = 4000 * 1000"

definition FixedBuffer_new :: "nat \<Rightarrow> FixedBuffer" where
  "FixedBuffer_new n = \<lparr>fb_data = replicate n (CHR 0x00), fb_cur = 0\<rparr>"

definition fb_length :: "FixedBuffer \<Rightarrow> nat" where "fb_length b = fb_cur b"
definition fb_avail :: "FixedBuffer \<Rightarrow> int" where "fb_avail b = int (length (fb_data b)) - int (fb_cur b)"
definition fb_add :: "nat \<Rightarrow> FixedBuffer \<Rightarrow> FixedBuffer" where "fb_add len b = b\<lparr>fb_cur := fb_cur b + len\<rparr>"
definition fb_reset :: "FixedBuffer \<Rightarrow> FixedBuffer" where "fb_reset b = b\<lparr>fb_cur := 0\<rparr>"
definition fb_bzero :: "FixedBuffer \<Rightarrow> FixedBuffer" where "fb_bzero b = b\<lparr>fb_data := replicate (length (fb_data b)) (CHR 0x00)\<rparr>"
definition fb_toString :: "FixedBuffer \<Rightarrow> bytes" where "fb_toString b = take (fb_length b) (fb_data b)"

definition fb_append :: "bytes \<Rightarrow> FixedBuffer \<Rightarrow> FixedBuffer option" where
  "fb_append buf b =
     (if fb_avail b > int (length buf) then do {
        m \<leftarrow> mem_write (fb_cur b) buf (fb_data b);
        Some (b\<lparr>fb_data := m, fb_cur := fb_cur b + length buf\<rparr>)
      }
      else Some b)"

section \<open>Conversion of integers\<close>

definition digits :: bytes where "digits = ''9876543210123456789''"

definition zero_digit :: "int \<Rightarrow> char" where "zero_digit lsd = digits ! nat (9 + lsd)"

text \<open>The loop writes the digits from the last one; \<open>%\<close> and \<open>/\<close> truncate towards zero.\<close>

lemma sdiv_10_abs: "\<bar>i sdiv 10\<bar> = \<bar>i\<bar> div (10 :: int)"
  by (cases "i = 0") (simp_all add: signed_divide_int_def abs_mult sgn_if)

function convert_loop :: "int \<Rightarrow> bytes" where
  "convert_loop i =
     (let lsd = i smod 10; i1 = i sdiv 10
      in zero_digit lsd # (if i1 \<noteq> 0 then convert_loop i1 else []))"
  by auto
termination
proof (relation "measure (\<lambda>i. nat \<bar>i\<bar>)")
  fix i lsd i1 :: int
  assume "lsd = i smod 10" "i1 = i sdiv 10" "i1 \<noteq> 0"
  then show "(i1, i) \<in> measure (\<lambda>i. nat \<bar>i\<bar>)" using sdiv_10_abs [of i] by auto
qed simp

declare convert_loop.simps [simp del]

definition convert :: "int \<Rightarrow> bytes" where
  "convert v = rev (convert_loop v @ (if v < 0 then ''-'' else []))"

definition digitsHex :: bytes where "digitsHex = ''0123456789ABCDEF''"

fun convertHex_loop :: "nat \<Rightarrow> bytes" where
  "convertHex_loop i = digitsHex ! (i mod 16) # (if i div 16 \<noteq> 0 then convertHex_loop (i div 16) else [])"

declare convertHex_loop.simps [simp del]

definition convertHex :: "u64 \<Rightarrow> bytes" where
  "convertHex v = rev (convertHex_loop (unat v))"

section \<open>LogStream\<close>

definition kMaxNumericSize :: nat where "kMaxNumericSize = 48"

text \<open>The conversions also write the terminating NUL.\<close>

definition formatInteger :: "int \<Rightarrow> FixedBuffer \<Rightarrow> FixedBuffer option" where
  "formatInteger v b =
     (if fb_avail b \<ge> int kMaxNumericSize then do {
        m \<leftarrow> mem_write (fb_cur b) (convert v @ [CHR 0x00]) (fb_data b);
        Some (fb_add (length (convert v)) (b\<lparr>fb_data := m\<rparr>))
      }
      else Some b)"

definition put_short :: "16 word \<Rightarrow> FixedBuffer \<Rightarrow> FixedBuffer option" where
  "put_short v b = formatInteger (sint (scast v :: 32 word)) b"

definition put_unsigned_short :: "16 word \<Rightarrow> FixedBuffer \<Rightarrow> FixedBuffer option" where
  "put_unsigned_short v b = formatInteger (uint (ucast v :: 32 word)) b"

definition put_int :: "32 word \<Rightarrow> FixedBuffer \<Rightarrow> FixedBuffer option" where
  "put_int v b = formatInteger (sint v) b"

definition put_unsigned_int :: "32 word \<Rightarrow> FixedBuffer \<Rightarrow> FixedBuffer option" where
  "put_unsigned_int v b = formatInteger (uint v) b"

definition put_long :: "64 word \<Rightarrow> FixedBuffer \<Rightarrow> FixedBuffer option" where
  "put_long v b = formatInteger (sint v) b"

definition put_unsigned_long :: "64 word \<Rightarrow> FixedBuffer \<Rightarrow> FixedBuffer option" where
  "put_unsigned_long v b = formatInteger (uint v) b"

definition put_pointer :: "u64 \<Rightarrow> FixedBuffer \<Rightarrow> FixedBuffer option" where
  "put_pointer v b =
     (if fb_avail b \<ge> int kMaxNumericSize then do {
        m \<leftarrow> mem_write (fb_cur b) (''0x'' @ convertHex v @ [CHR 0x00]) (fb_data b);
        Some (fb_add (length (convertHex v) + 2) (b\<lparr>fb_data := m\<rparr>))
      }
      else Some b)"

text \<open>A floating point operand is represented by the text \<open>txt\<close> of its \<open>%.12g\<close> format: \<open>snprintf\<close>
  writes at most 47 bytes of it and the NUL, and returns its whole length.\<close>

definition put_double :: "bytes \<Rightarrow> FixedBuffer \<Rightarrow> FixedBuffer option" where
  "put_double txt b =
     (if fb_avail b \<ge> int kMaxNumericSize then do {
        m \<leftarrow> mem_write (fb_cur b) (take (kMaxNumericSize - 1) txt @ [CHR 0x00]) (fb_data b);
        Some (fb_add (length txt) (b\<lparr>fb_data := m\<rparr>))
      }
      else Some b)"

definition put_bool :: "bool \<Rightarrow> FixedBuffer \<Rightarrow> FixedBuffer option" where
  "put_bool v b = fb_append (if v then ''1'' else ''0'') b"

definition put_char :: "char \<Rightarrow> FixedBuffer \<Rightarrow> FixedBuffer option" where
  "put_char v b = fb_append [v] b"

definition put_cstr :: "bytes option \<Rightarrow> FixedBuffer \<Rightarrow> FixedBuffer option" where
  "put_cstr str b = (case str of Some s \<Rightarrow> fb_append s b | None \<Rightarrow> fb_append ''(null)'' b)"

definition put_string :: "bytes \<Rightarrow> FixedBuffer \<Rightarrow> FixedBuffer option" where
  "put_string v b = fb_append v b"

definition put_buffer :: "FixedBuffer \<Rightarrow> FixedBuffer \<Rightarrow> FixedBuffer option" where
  "put_buffer v b = put_string (fb_toString v) b"

text \<open>A \<open>Fmt\<close> holds the text of its format, which its constructor requires to be shorter than its
  array.\<close>

definition Fmt_new :: "bytes \<Rightarrow> bytes option" where
  "Fmt_new txt = (if length txt < 32 then Some txt else None)"

definition put_fmt :: "bytes \<Rightarrow> FixedBuffer \<Rightarrow> FixedBuffer option" where
  "put_fmt txt b = do { f \<leftarrow> Fmt_new txt; fb_append f b }"

text \<open>The operands of \<open><<\<close>, one constructor per overload; \<open>long long\<close> has the width of \<open>long\<close> and
  \<open>float\<close> is converted to \<open>double\<close>.\<close>

datatype operand =
  OBool bool | OShort "16 word" | OUShort "16 word" | OInt "32 word" | OUInt "32 word"
| OLong "64 word" | OULong "64 word" | OPointer u64 | ODouble bytes | OChar char | OCstr "bytes option"
| OString bytes | OBuffer FixedBuffer | OFmt bytes

fun stream_put :: "operand \<Rightarrow> FixedBuffer \<Rightarrow> FixedBuffer option" where
  "stream_put (OBool v) b = put_bool v b"
| "stream_put (OShort v) b = put_short v b"
| "stream_put (OUShort v) b = put_unsigned_short v b"
| "stream_put (OInt v) b = put_int v b"
| "stream_put (OUInt v) b = put_unsigned_int v b"
| "stream_put (OLong v) b = put_long v b"
| "stream_put (OULong v) b = put_unsigned_long v b"
| "stream_put (OPointer v) b = put_pointer v b"
| "stream_put (ODouble v) b = put_double v b"
| "stream_put (OChar v) b = put_char v b"
| "stream_put (OCstr v) b = put_cstr v b"
| "stream_put (OString v) b = put_string v b"
| "stream_put (OBuffer v) b = put_buffer v b"
| "stream_put (OFmt v) b = put_fmt v b"

fun stream_puts :: "operand list \<Rightarrow> FixedBuffer \<Rightarrow> FixedBuffer option" where
  "stream_puts [] b = Some b"
| "stream_puts (x # xs) b = do { b1 \<leftarrow> stream_put x b; stream_puts xs b1 }"

section \<open>The conversions are right\<close>

lemma digits_table: "\<forall>k \<in> set [0..<19]. digits ! k = char_of (48 + nat \<bar>int k - 9\<bar>)"
  by code_simp

lemma zero_digit: "\<bar>lsd\<bar> < 10 \<Longrightarrow> zero_digit lsd = char_of (48 + nat \<bar>lsd\<bar>)"
  using bspec [OF digits_table, of "nat (9 + lsd)"] by (simp add: zero_digit_def)

lemma smod_10_abs: "\<bar>i smod 10\<bar> = \<bar>i\<bar> mod (10 :: int)"
  by (cases "i = 0") (simp_all add: signed_modulo_int_def abs_mult sgn_if)

lemma convert_loop_rev: "rev (convert_loop i) = to_string_nat (nat \<bar>i\<bar>)"
proof (induction i rule: convert_loop.induct)
  case (1 i)
  have d: "zero_digit (i smod 10) = char_of (48 + nat \<bar>i\<bar> mod 10)"
    using zero_digit [of "i smod 10"] by (simp add: smod_10_abs nat_mod_distrib)
  have z: "i sdiv 10 = 0 \<longleftrightarrow> nat \<bar>i\<bar> < 10" using sdiv_10_abs [of i] by (auto simp: zdiv_eq_0_iff)
  have q: "nat \<bar>i sdiv 10\<bar> = nat \<bar>i\<bar> div 10" by (simp add: sdiv_10_abs nat_div_distrib)
  show ?case
    using 1 d z q unfolding convert_loop.simps [of i] to_string_nat.simps [of "nat \<bar>i\<bar>"] by (auto simp: Let_def)
qed

lemma convert_eq: "convert v = to_string v"
  using convert_loop_rev [of v] by (simp add: convert_def to_string_def)

text \<open>Lengths: a number of at most 64 bits has at most 20 digits, 16 in base 16.\<close>

lemma length_to_string_nat: "n < 10 ^ k \<Longrightarrow> 0 < k \<Longrightarrow> length (to_string_nat n) \<le> k"
proof (induction k arbitrary: n)
  case (Suc k)
  show ?case
  proof (cases "n < 10")
    case False
    then have "k > 0" using Suc.prems by (cases k) auto
    moreover have "n div 10 < 10 ^ k" using Suc.prems by (simp add: less_mult_imp_div_less mult.commute)
    ultimately show ?thesis using Suc.IH False by (simp add: to_string_nat.simps [of n])
  qed (simp add: to_string_nat.simps [of n])
qed simp

lemma length_convert:
  assumes "- (2 ^ 63) \<le> v" "v < 2 ^ 64"
  shows "length (convert v) \<le> 21"
proof -
  have "nat v < 10 ^ 20" "nat (- v) < 10 ^ 20" using assms by auto
  then have "length (to_string_nat (nat v)) \<le> 20" "length (to_string_nat (nat (- v))) \<le> 20"
    using length_to_string_nat [of _ 20] by simp_all
  then show ?thesis by (simp add: convert_eq to_string_def)
qed

lemma length_convertHex_loop: "n < 16 ^ k \<Longrightarrow> 0 < k \<Longrightarrow> length (convertHex_loop n) \<le> k"
proof (induction k arbitrary: n)
  case (Suc k)
  show ?case
  proof (cases "n < 16")
    case False
    then have "k > 0" using Suc.prems by (cases k) auto
    moreover have "n div 16 < 16 ^ k" using Suc.prems by (simp add: less_mult_imp_div_less mult.commute)
    ultimately show ?thesis using Suc.IH False by (simp add: convertHex_loop.simps [of n])
  qed (simp add: convertHex_loop.simps [of n])
qed simp

lemma length_convertHex: "length (convertHex v) \<le> 16"
  using length_convertHex_loop [of "unat v" 16] unsigned_less [of v] by (simp add: convertHex_def)

text \<open>The value of a hexadecimal text, most significant digit first.\<close>

definition hex_digit_value :: "char \<Rightarrow> nat" where
  "hex_digit_value c = (if is_digit c then code c - 48 else code c - 55)"

definition hex_value :: "bytes \<Rightarrow> nat" where
  "hex_value s = foldl (\<lambda>n c. 16 * n + hex_digit_value c) 0 s"

lemma hex_table: "\<forall>k \<in> set [0..<16]. hex_digit_value (digitsHex ! k) = k"
  by code_simp

lemma convertHex_loop_value: "hex_value (rev (convertHex_loop n)) = n"
proof (induction n rule: convertHex_loop.induct)
  case (1 i)
  have "hex_digit_value (digitsHex ! (i mod 16)) = i mod 16" using hex_table by simp
  then show ?case using 1 by (subst convertHex_loop.simps) (auto simp: hex_value_def div_eq_0_iff)
qed

lemma convertHex_value: "hex_value (convertHex v) = unat v"
  by (simp add: convertHex_def convertHex_loop_value)

section \<open>The contents of a stream\<close>

text \<open>The text of an operand, and whether it is written with \<open>used\<close> bytes of \<open>n\<close> taken: a number
  needs \<open>kMaxNumericSize\<close> free bytes whatever its length, a string one byte more than its length.\<close>

fun operand_text :: "operand \<Rightarrow> bytes" where
  "operand_text (OBool v) = (if v then ''1'' else ''0'')"
| "operand_text (OShort v) = to_string (sint v)"
| "operand_text (OUShort v) = to_string (uint v)"
| "operand_text (OInt v) = to_string (sint v)"
| "operand_text (OUInt v) = to_string (uint v)"
| "operand_text (OLong v) = to_string (sint v)"
| "operand_text (OULong v) = to_string (uint v)"
| "operand_text (OPointer v) = ''0x'' @ convertHex v"
| "operand_text (ODouble v) = v"
| "operand_text (OChar v) = [v]"
| "operand_text (OCstr v) = (case v of Some s \<Rightarrow> s | None \<Rightarrow> ''(null)'')"
| "operand_text (OString v) = v"
| "operand_text (OBuffer v) = fb_toString v"
| "operand_text (OFmt v) = v"

fun is_numeric :: "operand \<Rightarrow> bool" where
  "is_numeric (OShort v) = True"
| "is_numeric (OUShort v) = True"
| "is_numeric (OInt v) = True"
| "is_numeric (OUInt v) = True"
| "is_numeric (OLong v) = True"
| "is_numeric (OULong v) = True"
| "is_numeric (OPointer v) = True"
| "is_numeric (ODouble v) = True"
| "is_numeric _ = False"

fun operand_ok :: "operand \<Rightarrow> bool" where
  "operand_ok (ODouble v) = (length v < 48)"
| "operand_ok (OFmt v) = (length v < 32)"
| "operand_ok _ = True"

definition needed :: "operand \<Rightarrow> nat" where
  "needed x = (if is_numeric x then 48 else length (operand_text x) + 1)"

fun stream_text :: "nat \<Rightarrow> operand list \<Rightarrow> bytes \<Rightarrow> bytes" where
  "stream_text n [] acc = acc"
| "stream_text n (x # xs) acc = stream_text n xs (if length acc + needed x \<le> n then acc @ operand_text x else acc)"

definition fb_inv :: "nat \<Rightarrow> FixedBuffer \<Rightarrow> bool" where
  "fb_inv n b \<longleftrightarrow> length (fb_data b) = n \<and> fb_cur b \<le> n"

definition puts_text :: "nat \<Rightarrow> nat \<Rightarrow> bytes \<Rightarrow> FixedBuffer \<Rightarrow> FixedBuffer \<Rightarrow> bool" where
  "puts_text n k s b b' \<longleftrightarrow> fb_inv n b' \<and> fb_toString b' = fb_toString b @ (if fb_cur b + k \<le> n then s else [])"

lemma fb_append_puts: "fb_inv n b \<Longrightarrow> returns (fb_append s b) (puts_text n (length s + 1) s b)"
  by (auto simp: fb_append_def fb_avail_def fb_inv_def puts_text_def fb_toString_def fb_length_def take_Cons' min_def)

lemma numeric_puts:
  assumes "fb_inv n b" "length s \<le> 47"
  shows "returns (if fb_avail b \<ge> int kMaxNumericSize then do {
        m \<leftarrow> mem_write (fb_cur b) (s @ [CHR 0x00]) (fb_data b);
        Some (fb_add (length s) (b\<lparr>fb_data := m\<rparr>))
      } else Some b) (puts_text n 48 s b)"
  using assms
  by (auto simp: kMaxNumericSize_def fb_avail_def fb_inv_def puts_text_def fb_toString_def fb_length_def fb_add_def min_def)

lemma formatInteger_puts:
  "fb_inv n b \<Longrightarrow> - (2 ^ 63) \<le> v \<Longrightarrow> v < 2 ^ 64 \<Longrightarrow> returns (formatInteger v b) (puts_text n 48 (to_string v) b)"
  using numeric_puts [of n b "convert v"] length_convert [of v] by (simp add: formatInteger_def convert_eq)

lemma widened:
  "sint (scast (v :: 16 word) :: 32 word) = sint v" "uint (ucast (v :: 16 word) :: 32 word) = uint v"
  using sint_greater_eq [of v] sint_less [of v] uint_lt2p [of v]
  by (simp_all add: signed_scast_eq signed_take_bit_int_eq_self unsigned_ucast_eq take_bit_int_eq_self)

lemma integer_puts:
  assumes "fb_inv n b"
  shows "returns (formatInteger (sint (v :: 64 word)) b) (puts_text n 48 (to_string (sint v)) b)"
    and "returns (formatInteger (uint (v :: 64 word)) b) (puts_text n 48 (to_string (uint v)) b)"
    and "returns (formatInteger (sint (w :: 32 word)) b) (puts_text n 48 (to_string (sint w)) b)"
    and "returns (formatInteger (uint (w :: 32 word)) b) (puts_text n 48 (to_string (uint w)) b)"
    and "returns (formatInteger (sint (u :: 16 word)) b) (puts_text n 48 (to_string (sint u)) b)"
    and "returns (formatInteger (uint (u :: 16 word)) b) (puts_text n 48 (to_string (uint u)) b)"
  using sint_greater_eq [of v] sint_less [of v] uint_lt2p [of v] sint_greater_eq [of w] sint_less [of w] uint_lt2p [of w]
    sint_greater_eq [of u] sint_less [of u] uint_lt2p [of u]
  by (auto intro!: formatInteger_puts [OF assms] order_trans [OF _ uint_nonnegative])

lemmas integer_puts_defs = put_short_def put_unsigned_short_def put_int_def put_unsigned_int_def
  put_long_def put_unsigned_long_def

lemma stream_put_puts:
  assumes "fb_inv n b" "operand_ok x"
  shows "returns (stream_put x b) (puts_text n (needed x) (operand_text x) b)"
proof (cases x)
  case (OPointer v)
  then show ?thesis
    using numeric_puts [OF assms(1), of "''0x'' @ convertHex v"] length_convertHex [of v]
    by (simp add: put_pointer_def needed_def split: if_splits)
next
  case (ODouble v)
  then show ?thesis
    using numeric_puts [OF assms(1), of v] assms(2) by (simp add: put_double_def needed_def kMaxNumericSize_def split: if_splits)
qed (use assms fb_append_puts [OF assms(1)]
      fb_append_puts [OF assms(1), of "[_]"] fb_append_puts [OF assms(1), of "''(null)''"] in \<open>auto simp: needed_def integer_puts_defs widened integer_puts
      put_bool_def put_char_def put_cstr_def put_string_def put_buffer_def put_fmt_def Fmt_new_def split: option.splits\<close>)

lemma stream_puts_text:
  "fb_inv n b \<Longrightarrow> list_all operand_ok xs \<Longrightarrow>
   returns (stream_puts xs b) (\<lambda>b'. fb_inv n b' \<and> fb_toString b' = stream_text n xs (fb_toString b))"
proof (induction xs arbitrary: b)
  case (Cons x xs)
  have l: "length (fb_toString b) = fb_cur b" using Cons.prems(1) by (simp add: fb_inv_def fb_toString_def fb_length_def)
  have "returns (stream_put x b) (puts_text n (needed x) (operand_text x) b)"
    using stream_put_puts Cons.prems by simp
  then show ?case unfolding stream_puts.simps returns_bind
  proof (rule returns_mono)
    fix y assume y: "puts_text n (needed x) (operand_text x) b y"
    then show "returns (stream_puts xs y) (\<lambda>b'. fb_inv n b' \<and> fb_toString b' = stream_text n (x # xs) (fb_toString b))"
      using Cons.IH [of y] Cons.prems(2) l by (simp add: puts_text_def split: if_splits)
  qed
qed simp

lemma stream_text_fits:
  "length acc + length (concat (map operand_text xs)) + 48 \<le> n \<Longrightarrow> stream_text n xs acc = acc @ concat (map operand_text xs)"
proof (induction xs arbitrary: acc)
  case (Cons x xs)
  then have "length acc + needed x \<le> n" by (auto simp: needed_def)
  with Cons show ?case by simp
qed simp

text \<open>
  C39. Logging streams: whatever the operands and their order, no operator writes outside the array of the stream, and the
  contents are exactly the texts of the operands that fitted, in order, a number being left out when fewer than 48 bytes are free and a string
  when its length is not below the free space. Operands with at least 48 bytes to spare are all there. The text of
  an integer is its decimal form at every width and sign, the most negative value included, and the text of a pointer reads back, in
  base 16, as its value.
\<close>

theorem logstream_output:
  assumes "list_all operand_ok xs"
  shows "returns (stream_puts xs (FixedBuffer_new n))
     (\<lambda>b. fb_inv n b \<and> fb_toString b = stream_text n xs [] \<and>
       (length (concat (map operand_text xs)) + 48 \<le> n \<longrightarrow> fb_toString b = concat (map operand_text xs))) \<and>
    convert i = to_string i \<and> hex_value (convertHex p) = unat p"
proof -
  have "fb_inv n (FixedBuffer_new n)" "fb_toString (FixedBuffer_new n) = []"
    by (simp_all add: fb_inv_def FixedBuffer_new_def fb_toString_def fb_length_def)
  then have "returns (stream_puts xs (FixedBuffer_new n)) (\<lambda>b'. fb_inv n b' \<and> fb_toString b' = stream_text n xs [])"
    using stream_puts_text [of n "FixedBuffer_new n" xs] assms by simp
  then have "returns (stream_puts xs (FixedBuffer_new n))
     (\<lambda>b. fb_inv n b \<and> fb_toString b = stream_text n xs [] \<and>
       (length (concat (map operand_text xs)) + 48 \<le> n \<longrightarrow> fb_toString b = concat (map operand_text xs)))"
    by (rule returns_mono) (use stream_text_fits [of "[]" xs n] in auto)
  then show ?thesis by (simp add: convert_eq convertHex_value)
qed

theorem logstream_output_witness:
  "returns (stream_puts [OString ''fd='', OInt (-1), OChar (CHR '' ''), OPointer 255] (FixedBuffer_new 64))
     (\<lambda>b. fb_toString b = ''fd=-1 0xFF'') \<and>
   returns (stream_puts [OString ''fd='', OInt (-1)] (FixedBuffer_new 48)) (\<lambda>b. fb_toString b = ''fd='')"
proof
  have t: "to_string (- 1) = ''-1''" by (simp add: to_string_def to_string_nat.simps char_of_eq)
  have h: "convertHex 255 = ''FF''" by (simp add: convertHex_def convertHex_loop.simps digitsHex_def)
  show "returns (stream_puts [OString ''fd='', OInt (-1), OChar (CHR '' ''), OPointer 255] (FixedBuffer_new 64))
     (\<lambda>b. fb_toString b = ''fd=-1 0xFF'')"
    by (rule returns_mono [OF conjunct1 [OF logstream_output]]) (simp_all add: t h needed_def)
  show "returns (stream_puts [OString ''fd='', OInt (-1)] (FixedBuffer_new 48)) (\<lambda>b. fb_toString b = ''fd='')"
    by (rule returns_mono [OF conjunct1 [OF logstream_output]]) (simp_all add: needed_def)
qed

end
