(* ===== verification/MuduoTcpServer.thy ===== *)
theory MuduoTcpServer
  imports MuduoEventLoop MuduoLogStream Socket "HOL-Library.Multiset"
begin

text \<open>
  The classes \<open>TcpServer\<close> and \<open>Acceptor\<close> of the bundled muduo library: \<open>TcpServer.h\<close>, \<open>TcpServer.cc\<close> and \<open>Acceptor.cc\<close> under
  \<open>src/muduo_source_code/muduo/net\<close>. Connections are objects in the order of their creation; of each the server uses the name and the
  loop. The functors that the server passes to loops wait in one queue per loop; what the server calls on a connection is kept as a
  history. The connections themselves are the subject of \<open>MuduoTcpConnection\<close>, whose theorem relies on what is shown here:
  \<open>connectEstablished\<close> is called once, and \<open>connectDestroyed\<close> once after the close callback. \<open>None\<close> is a failed assertion or an overflow.

  For the acceptor the answers of the system calls are arguments, so what is shown of it holds for every kernel and whatever other threads do
  with descriptors.
\<close>

section \<open>TcpServer\<close>

datatype server_fn = SEstablished nat | SRemove nat | SDestroyed nat

datatype server_call = CEstablished | CClosed | CDestroyed

record 'l sconn =
  sc_name :: bytes
  sc_loop :: 'l
  sc_fd :: int
  sc_peer :: bytes

record 'l mserver =
  sv_ipPort :: bytes
  sv_name :: bytes
  sv_pool :: "'l MLoopPool"
  sv_started :: bool
  sv_listening :: bool
  sv_nextConnId :: int
  sv_connections :: "bytes \<rightharpoonup> nat"
  sv_heap :: "'l sconn list"
  sv_queues :: "'l \<Rightarrow> server_fn list"
  sv_calls :: "(nat \<times> server_call) list"

definition MTcpServer_new :: "'l \<Rightarrow> bytes \<Rightarrow> bytes \<Rightarrow> 'l mserver" where
  "MTcpServer_new base ipPort nm =
     \<lparr>sv_ipPort = ipPort, sv_name = nm, sv_pool = MLoopPool_new base, sv_started = False, sv_listening = False, sv_nextConnId = 1,
      sv_connections = (\<lambda>_. None), sv_heap = [], sv_queues = (\<lambda>_. []), sv_calls = []\<rparr>"

definition sv_setThreadNum :: "int \<Rightarrow> 'l mserver \<Rightarrow> 'l mserver option" where
  "sv_setThreadNum n s = (if 0 \<le> n then Some (s\<lparr>sv_pool := setThreadNum n (sv_pool s)\<rparr>) else None)"

text \<open>\<open>start\<close> in the thread of the base loop.\<close>

definition sv_start :: "(nat \<Rightarrow> 'l) \<Rightarrow> 'l mserver \<Rightarrow> 'l mserver option" where
  "sv_start startLoop s =
     (if sv_started s then Some s
      else do {
        (pool, _) \<leftarrow> mp_start startLoop (sv_pool s);
        if sv_listening s then None
        else Some (s\<lparr>sv_started := True, sv_pool := pool, sv_listening := True\<rparr>)
      })"

definition sv_base :: "'l mserver \<Rightarrow> 'l" where
  "sv_base s = mp_baseLoop (sv_pool s)"

definition sv_queueInLoop :: "'l \<Rightarrow> server_fn \<Rightarrow> 'l mserver \<Rightarrow> 'l mserver" where
  "sv_queueInLoop l f s = s\<lparr>sv_queues := (sv_queues s)(l := sv_queues s l @ [f])\<rparr>"

definition sv_call :: "nat \<Rightarrow> server_call \<Rightarrow> 'l mserver \<Rightarrow> 'l mserver" where
  "sv_call a c s = s\<lparr>sv_calls := sv_calls s @ [(a, c)]\<rparr>"

definition removeConnectionInLoop :: "nat \<Rightarrow> 'l mserver \<Rightarrow> 'l mserver option" where
  "removeConnectionInLoop a s =
     (let conn = sv_heap s ! a
      in if sv_connections s (sc_name conn) = None then None
         else Some (sv_queueInLoop (sc_loop conn) (SDestroyed a) (s\<lparr>sv_connections := (sv_connections s)(sc_name conn := None)\<rparr>)))"

fun sv_functor :: "server_fn \<Rightarrow> 'l mserver \<Rightarrow> 'l mserver option" where
  "sv_functor (SEstablished a) s = Some (sv_call a CEstablished s)"
| "sv_functor (SDestroyed a) s = Some (sv_call a CDestroyed s)"
| "sv_functor (SRemove a) s = removeConnectionInLoop a s"

text \<open>\<open>runInLoop\<close> of a loop \<open>l\<close>, called in the thread of the loop \<open>cur\<close>.\<close>

definition sv_runInLoop :: "'l \<Rightarrow> 'l \<Rightarrow> server_fn \<Rightarrow> 'l mserver \<Rightarrow> 'l mserver option" where
  "sv_runInLoop cur l f s = (if cur = l then sv_functor f s else Some (sv_queueInLoop l f s))"

text \<open>The name of a connection; \<open>snprintf\<close> writes at most 63 characters.\<close>

definition conn_name :: "bytes \<Rightarrow> bytes \<Rightarrow> int \<Rightarrow> bytes" where
  "conn_name nm ipPort i = nm @ take 63 (''-'' @ ipPort @ ''#'' @ to_string i)"

definition newConnection :: "int \<Rightarrow> bytes \<Rightarrow> 'l mserver \<Rightarrow> 'l mserver option" where
  "newConnection sockfd peerAddr s = do {
     (ioLoop, pool) \<leftarrow> getNextLoop (sv_pool s);
     let connName = conn_name (sv_name s) (sv_ipPort s) (sv_nextConnId s);
     if sv_nextConnId s = 2 ^ 31 - 1 then None
     else
       let a = length (sv_heap s);
           s1 = s\<lparr>sv_pool := pool, sv_nextConnId := sv_nextConnId s + 1,
                  sv_heap := sv_heap s @ [\<lparr>sc_name = connName, sc_loop = ioLoop, sc_fd = sockfd, sc_peer = peerAddr\<rparr>],
                  sv_connections := (sv_connections s)(connName \<mapsto> a)\<rparr>
       in sv_runInLoop (sv_base s1) ioLoop (SEstablished a) s1
   }"

text \<open>\<open>removeConnection\<close> is the close callback of a connection, called in the thread of its loop.\<close>

definition sv_removeConnection :: "nat \<Rightarrow> 'l mserver \<Rightarrow> 'l mserver option" where
  "sv_removeConnection a s = sv_runInLoop (sc_loop (sv_heap s ! a)) (sv_base s) (SRemove a) (sv_call a CClosed s)"

text \<open>The destructor; \<open>names\<close> are the keys of the table in their order.\<close>

fun sv_destroyAll :: "bytes list \<Rightarrow> 'l mserver \<Rightarrow> 'l mserver option" where
  "sv_destroyAll [] s = Some s"
| "sv_destroyAll (n # ns) s = do {
     a \<leftarrow> sv_connections s n;
     s1 \<leftarrow> sv_runInLoop (sv_base s) (sc_loop (sv_heap s ! a)) (SDestroyed a) s;
     sv_destroyAll ns s1
   }"

text \<open>What can happen: a connection is accepted, a connection closes in its loop, a loop runs its next functor.\<close>

datatype 'l sv_event = SvAccept int bytes | SvClose nat | SvRun 'l

fun sv_step :: "'l sv_event \<Rightarrow> 'l mserver \<Rightarrow> 'l mserver option" where
  "sv_step (SvAccept fd peer) s = newConnection fd peer s"
| "sv_step (SvClose a) s = sv_removeConnection a s"
| "sv_step (SvRun l) s = (case sv_queues s l of [] \<Rightarrow> Some s | f # fs \<Rightarrow> sv_functor f (s\<lparr>sv_queues := (sv_queues s)(l := fs)\<rparr>))"

fun sv_run :: "'l sv_event list \<Rightarrow> 'l mserver \<Rightarrow> 'l mserver option" where
  "sv_run [] s = Some s"
| "sv_run (e # es) s = do { s1 \<leftarrow> sv_step e s; sv_run es s1 }"

text \<open>A connection closes once, and only after it was established; identifiers do not run out.\<close>

fun sv_allowed :: "'l sv_event \<Rightarrow> 'l mserver \<Rightarrow> bool" where
  "sv_allowed (SvAccept fd peer) s \<longleftrightarrow> int (length (sv_heap s)) < 2 ^ 31 - 2"
| "sv_allowed (SvClose a) s \<longleftrightarrow> a < length (sv_heap s) \<and> (a, CEstablished) \<in> set (sv_calls s) \<and> (a, CClosed) \<notin> set (sv_calls s)"
| "sv_allowed (SvRun l) s \<longleftrightarrow> True"

fun sv_possible :: "'l sv_event list \<Rightarrow> 'l mserver \<Rightarrow> bool" where
  "sv_possible [] s \<longleftrightarrow> True"
| "sv_possible (e # es) s \<longleftrightarrow> sv_allowed e s \<and> (case sv_step e s of None \<Rightarrow> True | Some s' \<Rightarrow> sv_possible es s')"

section \<open>The life of a connection\<close>

text \<open>Each stage fixes the calls made so far, whether the connection is in the table, and the one functor that is queued for it, with its
  loop.\<close>

datatype life = Accepted | Opened | Closing | Removed | Destroyed

fun life_calls :: "life \<Rightarrow> server_call list" where
  "life_calls Accepted = []"
| "life_calls Opened = [CEstablished]"
| "life_calls Closing = [CEstablished, CClosed]"
| "life_calls Removed = [CEstablished, CClosed]"
| "life_calls Destroyed = [CEstablished, CClosed, CDestroyed]"

fun life_listed :: "life \<Rightarrow> bool" where
  "life_listed Removed = False"
| "life_listed Destroyed = False"
| "life_listed _ = True"

fun life_queue :: "'l \<Rightarrow> 'l \<Rightarrow> nat \<Rightarrow> life \<Rightarrow> 'l \<Rightarrow> server_fn list" where
  "life_queue base io a Accepted l = (if l = io then [SEstablished a] else [])"
| "life_queue base io a Closing l = (if l = base then [SRemove a] else [])"
| "life_queue base io a Removed l = (if l = io then [SDestroyed a] else [])"
| "life_queue base io a _ l = []"

fun fn_conn :: "server_fn \<Rightarrow> nat" where
  "fn_conn (SEstablished a) = a"
| "fn_conn (SRemove a) = a"
| "fn_conn (SDestroyed a) = a"

definition calls_of :: "nat \<Rightarrow> 'l mserver \<Rightarrow> server_call list" where
  "calls_of a s = map snd (filter (\<lambda>c. fst c = a) (sv_calls s))"

definition queued_of :: "nat \<Rightarrow> 'l mserver \<Rightarrow> 'l \<Rightarrow> server_fn list" where
  "queued_of a s l = filter (\<lambda>f. fn_conn f = a) (sv_queues s l)"

definition at_life :: "'l mserver \<Rightarrow> nat \<Rightarrow> life \<Rightarrow> bool" where
  "at_life s a ph \<longleftrightarrow> calls_of a s = life_calls ph \<and>
     sv_connections s (sc_name (sv_heap s ! a)) = (if life_listed ph then Some a else None) \<and>
     queued_of a s = life_queue (sv_base s) (sc_loop (sv_heap s ! a)) a ph"

definition turn_loop :: "'l MLoopPool \<Rightarrow> nat \<Rightarrow> 'l" where
  "turn_loop p k = (if mp_loops p = [] then mp_baseLoop p else mp_loops p ! (k mod length (mp_loops p)))"

definition sv_inv :: "'l mserver \<Rightarrow> bool" where
  "sv_inv s \<longleftrightarrow> pool_inv (sv_pool s) \<and> (mp_loops (sv_pool s) \<noteq> [] \<longrightarrow> mp_next (sv_pool s) = length (sv_heap s) mod length (mp_loops (sv_pool s))) \<and>
     length (sv_ipPort s) \<le> 51 \<and> sv_nextConnId s = int (length (sv_heap s)) + 1 \<and> length (sv_heap s) \<le> 2 ^ 31 - 2 \<and>
     (\<forall>a < length (sv_heap s). sc_name (sv_heap s ! a) = conn_name (sv_name s) (sv_ipPort s) (int a + 1) \<and>
        sc_loop (sv_heap s ! a) = turn_loop (sv_pool s) a \<and> (\<exists>ph. at_life s a ph)) \<and>
     (\<forall>a \<ge> length (sv_heap s). calls_of a s = [] \<and> queued_of a s = (\<lambda>_. [])) \<and>
     (\<forall>n a. sv_connections s n = Some a \<longrightarrow> a < length (sv_heap s) \<and> sc_name (sv_heap s ! a) = n)"

section \<open>Names\<close>

lemma to_string_pos: "0 < i \<Longrightarrow> to_string i = to_string_nat (nat i)"
  by (simp add: to_string_def)

lemma conn_name_inj:
  assumes "length ipPort \<le> 51" "0 < i" "i < 2 ^ 31" "0 < j" "j < 2 ^ 31" "conn_name nm ipPort i = conn_name nm ipPort j"
  shows "i = j"
proof -
  have "length (to_string_nat (nat k)) \<le> 10" if "0 < k" "k < 2 ^ 31" for k :: int
    using length_to_string_nat [of "nat k" 10] that by (simp add: nat_less_iff)
  then have "take 63 (''-'' @ ipPort @ ''#'' @ to_string k) = ''-'' @ ipPort @ ''#'' @ to_string k" if "0 < k" "k < 2 ^ 31" for k
    using that assms(1) by (intro take_all) (fastforce simp: to_string_pos)
  then have "to_string_nat (nat i) = to_string_nat (nat j)" using assms by (simp add: conn_name_def to_string_pos)
  then have "nat i = nat j" by (metis dec_value_to_string_nat)
  then show ?thesis using assms by simp
qed

section \<open>The invariant is kept\<close>

lemma calls_of_simps [simp]:
  "calls_of b (sv_call a c s) = calls_of b s @ (if a = b then [c] else [])"
  "calls_of b (sv_queueInLoop l f s) = calls_of b s" "calls_of b (s\<lparr>sv_queues := q\<rparr>) = calls_of b s"
  "calls_of b (s\<lparr>sv_connections := m\<rparr>) = calls_of b s"
  by (simp_all add: calls_of_def sv_call_def sv_queueInLoop_def)

lemma queued_of_simps [simp]:
  "queued_of b (sv_queueInLoop l f s) = (if fn_conn f = b then (queued_of b s)(l := queued_of b s l @ [f]) else queued_of b s)"
  "queued_of b (sv_call a c s) = queued_of b s" "queued_of b (s\<lparr>sv_connections := m\<rparr>) = queued_of b s"
  by (auto simp: queued_of_def sv_call_def sv_queueInLoop_def fun_eq_iff)

lemma server_fields [simp]:
  "sv_heap (sv_call a c s) = sv_heap s" "sv_pool (sv_call a c s) = sv_pool s" "sv_name (sv_call a c s) = sv_name s"
  "sv_ipPort (sv_call a c s) = sv_ipPort s" "sv_nextConnId (sv_call a c s) = sv_nextConnId s" "sv_connections (sv_call a c s) = sv_connections s"
  "sv_heap (sv_queueInLoop l f s) = sv_heap s" "sv_pool (sv_queueInLoop l f s) = sv_pool s" "sv_name (sv_queueInLoop l f s) = sv_name s"
  "sv_ipPort (sv_queueInLoop l f s) = sv_ipPort s" "sv_nextConnId (sv_queueInLoop l f s) = sv_nextConnId s"
  "sv_connections (sv_queueInLoop l f s) = sv_connections s"
  by (simp_all add: sv_call_def sv_queueInLoop_def)

lemma popped:
  assumes "sv_queues s l = f # fs"
  shows "queued_of b s l = (if fn_conn f = b then [f] else []) @ queued_of b (s\<lparr>sv_queues := (sv_queues s)(l := fs)\<rparr>) l"
    and "k \<noteq> l \<Longrightarrow> queued_of b (s\<lparr>sv_queues := (sv_queues s)(l := fs)\<rparr>) k = queued_of b s k"
  using assms by (simp_all add: queued_of_def)

lemma sv_invD:
  assumes "sv_inv s" "a < length (sv_heap s)"
  shows "sc_name (sv_heap s ! a) = conn_name (sv_name s) (sv_ipPort s) (int a + 1)" "sc_loop (sv_heap s ! a) = turn_loop (sv_pool s) a"
    "\<exists>ph. at_life s a ph"
  using assms unfolding sv_inv_def by blast+

lemma names_distinct:
  assumes "sv_inv s" "a \<le> length (sv_heap s)" "b \<le> length (sv_heap s)" "a \<noteq> b"
  shows "conn_name (sv_name s) (sv_ipPort s) (int a + 1) \<noteq> conn_name (sv_name s) (sv_ipPort s) (int b + 1)"
  using assms conn_name_inj [of "sv_ipPort s" "int a + 1" "int b + 1" "sv_name s"] by (auto simp: sv_inv_def)

text \<open>A step that moves one connection to its next stage.\<close>

lemma advance:
  assumes i: "sv_inv s" and a: "a < length (sv_heap s)"
    and same: "sv_heap s' = sv_heap s" "sv_pool s' = sv_pool s" "sv_name s' = sv_name s" "sv_ipPort s' = sv_ipPort s" "sv_nextConnId s' = sv_nextConnId s"
    and others: "\<And>b. b \<noteq> a \<Longrightarrow> calls_of b s' = calls_of b s \<and> queued_of b s' = queued_of b s"
    and m: "sv_connections s' = sv_connections s \<or> sv_connections s' = (sv_connections s)(sc_name (sv_heap s ! a) := None)"
    and l: "at_life s' a ph"
  shows "sv_inv s'"
proof -
  have "\<exists>ph. at_life s' b ph" if b: "b < length (sv_heap s)" for b
  proof (cases "b = a")
    case False
    obtain q where q: "at_life s b q" using sv_invD(3) [OF i b] by blast
    have "sc_name (sv_heap s ! b) \<noteq> sc_name (sv_heap s ! a)" using names_distinct [OF i, of b a] sv_invD(1) [OF i] a b False by simp
    then have "at_life s' b q" using q others [OF False] m same by (auto simp: at_life_def sv_base_def)
    then show ?thesis by blast
  qed (use l in blast)
  moreover have "calls_of b s' = []" "queued_of b s' = (\<lambda>_. [])" if "length (sv_heap s) \<le> b" for b
    using others [of b] that a i by (auto simp: sv_inv_def)
  moreover have "b < length (sv_heap s) \<and> sc_name (sv_heap s ! b) = n" if "sv_connections s' n = Some b" for n b
    using i m that by (auto simp: sv_inv_def split: if_splits)
  ultimately show ?thesis using i same by (simp add: sv_inv_def)
qed

lemma removed_life:
  assumes io: "calls_of a s = [CEstablished, CClosed]" "queued_of a s = (\<lambda>_. [])"
    "sv_connections s (sc_name (sv_heap s ! a)) = Some a"
  shows "returns (removeConnectionInLoop a s) (\<lambda>s'. at_life s' a Removed \<and> (\<forall>b. b \<noteq> a \<longrightarrow> calls_of b s' = calls_of b s \<and> queued_of b s' = queued_of b s) \<and>
    sv_connections s' = (sv_connections s)(sc_name (sv_heap s ! a) := None) \<and>
    sv_heap s' = sv_heap s \<and> sv_pool s' = sv_pool s \<and> sv_name s' = sv_name s \<and> sv_ipPort s' = sv_ipPort s \<and> sv_nextConnId s' = sv_nextConnId s)"
  using io by (auto simp: removeConnectionInLoop_def Let_def at_life_def sv_base_def fun_eq_iff)

lemma run_step_ok:
  assumes i: "sv_inv s"
  shows "returns (sv_step (SvRun l) s) sv_inv"
proof (cases "sv_queues s l")
  case (Cons f fs)
  let ?a = "fn_conn f" and ?s = "s\<lparr>sv_queues := (sv_queues s)(l := fs)\<rparr>"
  have ne: "queued_of ?a s l \<noteq> []" using popped(1) [OF Cons] by simp
  then have a: "?a < length (sv_heap s)" using i unfolding sv_inv_def by (metis linorder_not_le)
  obtain ph where ph: "at_life s ?a ph" using sv_invD(3) [OF i a] by blast
  let ?io = "sc_loop (sv_heap s ! ?a)"
  have q: "life_queue (sv_base s) ?io ?a ph l = f # queued_of ?a ?s l" using ph popped(1) [where b = ?a, OF Cons] by (simp add: at_life_def)
  have o: "queued_of b ?s = queued_of b s" if "b \<noteq> ?a" for b
    using popped [where b = b, OF Cons] that by (auto simp: fun_eq_iff) (metis)
  have e: "queued_of ?a ?s = (\<lambda>_. [])"
  proof
    fix k show "queued_of ?a ?s k = []"
      using q ph popped(2) [where b = ?a and k = k, OF Cons] by (cases ph; cases "k = l") (auto simp: at_life_def split: if_splits)
  qed
  note adv = advance [OF i a]
  show ?thesis
  proof (cases f)
    case (SEstablished x)
    then have p: "ph = Accepted" using q by (cases ph) (auto split: if_splits)
    have "sv_inv (sv_call x CEstablished ?s)"
      by (rule adv [where ph = Opened]) (use ph p e o SEstablished in \<open>simp_all add: at_life_def sv_base_def fun_eq_iff\<close>)
    then show ?thesis using Cons SEstablished by simp
  next
    case (SDestroyed x)
    then have p: "ph = Removed" using q by (cases ph) (auto split: if_splits)
    have "sv_inv (sv_call x CDestroyed ?s)"
      by (rule adv [where ph = Destroyed]) (use ph p e o SDestroyed in \<open>simp_all add: at_life_def sv_base_def fun_eq_iff\<close>)
    then show ?thesis using Cons SDestroyed by simp
  next
    case (SRemove x)
    then have p: "ph = Closing" using q by (cases ph) (auto split: if_splits)
    have r: "returns (removeConnectionInLoop x ?s) (\<lambda>s'. at_life s' x Removed \<and> (\<forall>b. b \<noteq> x \<longrightarrow> calls_of b s' = calls_of b ?s \<and> queued_of b s' = queued_of b ?s) \<and>
      sv_connections s' = (sv_connections ?s)(sc_name (sv_heap ?s ! x) := None) \<and>
      sv_heap s' = sv_heap ?s \<and> sv_pool s' = sv_pool ?s \<and> sv_name s' = sv_name ?s \<and> sv_ipPort s' = sv_ipPort ?s \<and> sv_nextConnId s' = sv_nextConnId ?s)"
      by (rule removed_life) (use ph p e SRemove in \<open>simp_all add: at_life_def\<close>)
    have "returns (removeConnectionInLoop x ?s) sv_inv"
      by (rule returns_mono [OF r], rule adv [where ph = Removed]) (use o SRemove in simp_all)
    then show ?thesis using Cons SRemove by simp
  qed
qed (use i in simp)

lemma close_step_ok:
  assumes i: "sv_inv s" and al: "sv_allowed (SvClose a) s"
  shows "returns (sv_step (SvClose a) s) sv_inv"
proof -
  have a: "a < length (sv_heap s)" and c: "CEstablished \<in> set (calls_of a s)" "CClosed \<notin> set (calls_of a s)"
    using al by (force simp: calls_of_def)+
  obtain ph where ph: "at_life s a ph" using sv_invD(3) [OF i a] by blast
  then have p: "ph = Opened" using c by (cases ph) (simp_all add: at_life_def)
  note adv = advance [OF i a]
  let ?s = "sv_call a CClosed s"
  show ?thesis
  proof (cases "sc_loop (sv_heap s ! a) = sv_base s")
    case True
    have r: "returns (removeConnectionInLoop a ?s) (\<lambda>s'. at_life s' a Removed \<and> (\<forall>b. b \<noteq> a \<longrightarrow> calls_of b s' = calls_of b ?s \<and> queued_of b s' = queued_of b ?s) \<and>
      sv_connections s' = (sv_connections ?s)(sc_name (sv_heap ?s ! a) := None) \<and>
      sv_heap s' = sv_heap ?s \<and> sv_pool s' = sv_pool ?s \<and> sv_name s' = sv_name ?s \<and> sv_ipPort s' = sv_ipPort ?s \<and> sv_nextConnId s' = sv_nextConnId ?s)"
      by (rule removed_life) (use ph p in \<open>simp_all add: at_life_def fun_eq_iff\<close>)
    have "returns (removeConnectionInLoop a ?s) sv_inv"
      by (rule returns_mono [OF r], rule adv [where ph = Removed]) simp_all
    then show ?thesis using True by (simp add: sv_removeConnection_def sv_runInLoop_def)
  next
    case False
    have "sv_inv (sv_queueInLoop (sv_base s) (SRemove a) ?s)"
      by (rule adv [where ph = Closing]) (use ph p in \<open>simp_all add: at_life_def sv_base_def fun_eq_iff\<close>)
    then show ?thesis using False by (simp add: sv_removeConnection_def sv_runInLoop_def)
  qed
qed

text \<open>Acceptance adds a connection.\<close>

lemma accepted:
  assumes i: "sv_inv s" and len: "length (sv_heap s) < 2 ^ 31 - 2"
    and p: "pool_inv pool" "mp_loops pool = mp_loops (sv_pool s)" "mp_baseLoop pool = mp_baseLoop (sv_pool s)"
      "mp_loops pool \<noteq> [] \<longrightarrow> mp_next pool = (length (sv_heap s) + 1) mod length (mp_loops pool)"
    and c: "sc_name conn = conn_name (sv_name s) (sv_ipPort s) (sv_nextConnId s)" "sc_loop conn = turn_loop (sv_pool s) (length (sv_heap s))"
    and same: "sv_heap s' = sv_heap s @ [conn]" "sv_pool s' = pool" "sv_name s' = sv_name s" "sv_ipPort s' = sv_ipPort s"
      "sv_nextConnId s' = sv_nextConnId s + 1" "sv_connections s' = (sv_connections s)(sc_name conn \<mapsto> length (sv_heap s))"
    and others: "\<And>b. b \<noteq> length (sv_heap s) \<Longrightarrow> calls_of b s' = calls_of b s \<and> queued_of b s' = queued_of b s"
    and l: "at_life s' (length (sv_heap s)) ph"
  shows "sv_inv s'"
proof -
  let ?a = "length (sv_heap s)"
  have nm: "sc_name conn = conn_name (sv_name s) (sv_ipPort s) (int ?a + 1)" using c(1) i by (simp add: sv_inv_def)
  have t: "turn_loop pool b = turn_loop (sv_pool s) b" for b using p by (simp add: turn_loop_def)
  have at: "\<exists>q. at_life s' b q" if b: "b < ?a" for b
  proof -
    obtain q where q: "at_life s b q" using sv_invD(3) [OF i b] by blast
    have "sc_name (sv_heap s ! b) \<noteq> sc_name conn" using names_distinct [OF i, of b ?a] sv_invD(1) [OF i b] nm b by simp
    then have "at_life s' b q" using q others [of b] b same p(3) by (simp add: at_life_def sv_base_def nth_append)
    then show ?thesis by blast
  qed
  have new: "sc_name (sv_heap s' ! b) = conn_name (sv_name s') (sv_ipPort s') (int b + 1) \<and>
      sc_loop (sv_heap s' ! b) = turn_loop (sv_pool s') b \<and> (\<exists>ph. at_life s' b ph)" if "b < length (sv_heap s')" for b
    using that sv_invD(1,2) [OF i, of b] at [of b] l nm c(2) by (cases "b < ?a") (auto simp: same t nth_append less_Suc_eq)
  have "calls_of b s' = [] \<and> queued_of b s' = (\<lambda>_. [])" if "length (sv_heap s') \<le> b" for b
    using others [of b] that i by (simp add: sv_inv_def same)
  moreover have "b < length (sv_heap s') \<and> sc_name (sv_heap s' ! b) = n" if "sv_connections s' n = Some b" for n b
  proof (cases "n = sc_name conn")
    case False
    then have "sv_connections s n = Some b" using that by (simp add: same)
    then have "b < ?a \<and> sc_name (sv_heap s ! b) = n" using i unfolding sv_inv_def by blast
    then show ?thesis by (simp add: same nth_append)
  qed (use that in \<open>auto simp: same\<close>)
  ultimately show ?thesis using i len p new by (simp add: sv_inv_def same)
qed

lemma accept_step_ok:
  assumes i: "sv_inv s" and al: "sv_allowed (SvAccept fd peer) s"
  shows "returns (sv_step (SvAccept fd peer) s) sv_inv"
proof -
  let ?p = "sv_pool s" and ?a = "length (sv_heap s)"
  have pi: "pool_inv ?p" and nx: "mp_loops ?p \<noteq> [] \<longrightarrow> mp_next ?p = ?a mod length (mp_loops ?p)" and id: "sv_nextConnId s = int ?a + 1"
    and len: "?a < 2 ^ 31 - 2" using i al by (simp_all add: sv_inv_def)
  obtain io pool where g: "getNextLoop ?p = Some (io, pool)" "pool_inv pool" "mp_loops pool = mp_loops ?p"
      "mp_loops ?p \<noteq> [] \<longrightarrow> io = mp_loops ?p ! mp_next ?p \<and> mp_next pool = (mp_next ?p + 1) mod length (mp_loops ?p)"
    using getNextLoop_turn [OF pi, of 0] by (auto simp: returns_iff)
  have b: "mp_baseLoop pool = mp_baseLoop ?p" "mp_loops ?p = [] \<longrightarrow> io = mp_baseLoop ?p"
    using g(1) by (auto simp: getNextLoop_def Let_def split: if_splits)
  have io: "io = turn_loop ?p ?a" using g(4) b(2) nx by (auto simp: turn_loop_def)
  have nx': "mp_loops pool \<noteq> [] \<longrightarrow> mp_next pool = (?a + 1) mod length (mp_loops pool)" using g(3,4) nx by (simp add: mod_Suc_eq)
  define conn where "conn = \<lparr>sc_name = conn_name (sv_name s) (sv_ipPort s) (sv_nextConnId s), sc_loop = io, sc_fd = fd, sc_peer = peer\<rparr>"
  define s1 where "s1 = s\<lparr>sv_pool := pool, sv_nextConnId := sv_nextConnId s + 1, sv_heap := sv_heap s @ [conn],
    sv_connections := (sv_connections s)(sc_name conn \<mapsto> ?a)\<rparr>"
  have q1: "calls_of c s1 = calls_of c s" "queued_of c s1 = queued_of c s" for c by (simp_all add: s1_def calls_of_def queued_of_def fun_eq_iff)
  have z: "calls_of ?a s = []" "queued_of ?a s = (\<lambda>_. [])" using i by (simp_all add: sv_inv_def)
  note acc = accepted [OF i len g(2,3) b(1) nx', of conn]
  have 1: "sv_inv (sv_call ?a CEstablished s1)"
    by (rule acc [where ph = Opened]) (use io q1 z in \<open>simp_all add: s1_def conn_def at_life_def fun_eq_iff\<close>)
  have 2: "sv_inv (sv_queueInLoop io (SEstablished ?a) s1)"
    by (rule acc [where ph = Accepted]) (use io q1 z in \<open>simp_all add: s1_def conn_def at_life_def fun_eq_iff\<close>)
  have "sv_nextConnId s \<noteq> 2 ^ 31 - 1" using id len by simp
  then have "newConnection fd peer s = sv_runInLoop (sv_base s1) io (SEstablished ?a) s1"
    using g(1) by (simp add: newConnection_def s1_def conn_def Let_def)
  then show ?thesis using 1 2 by (simp add: sv_runInLoop_def)
qed

lemma sv_step_ok:
  assumes "sv_inv s" "sv_allowed e s"
  shows "returns (sv_step e s) sv_inv"
proof (cases e)
  case (SvAccept fd peer)
  show ?thesis unfolding SvAccept by (rule accept_step_ok [OF assms [unfolded SvAccept]])
next
  case (SvClose a)
  show ?thesis unfolding SvClose by (rule close_step_ok [OF assms [unfolded SvClose]])
next
  case (SvRun l)
  show ?thesis unfolding SvRun by (rule run_step_ok [OF assms(1)])
qed

lemma sv_run_ok: "sv_inv s \<Longrightarrow> sv_possible es s \<Longrightarrow> returns (sv_run es s) sv_inv"
proof (induction es arbitrary: s)
  case (Cons e es)
  then have "returns (sv_step e s) sv_inv" using sv_step_ok [of s e] by simp
  then show ?case using Cons by (auto simp: returns_iff)
qed simp

lemma new_server_inv:
  assumes "length ipPort \<le> 51" "sv_setThreadNum n (MTcpServer_new base ipPort nm) \<bind> sv_start startLoop = Some s"
  shows "sv_inv s"
proof -
  obtain pool where p: "s = (MTcpServer_new base ipPort nm)\<lparr>sv_started := True, sv_pool := pool, sv_listening := True\<rparr>"
    "pool_inv pool" "mp_next pool = 0"
    using assms(2) by (auto simp: sv_setThreadNum_def sv_start_def MTcpServer_new_def mp_start_def MLoopPool_new_def setThreadNum_def pool_inv_def
        Let_def split: if_splits)
  show ?thesis using assms(1) p(2,3) unfolding p(1) sv_inv_def by (simp add: MTcpServer_new_def calls_of_def queued_of_def fun_eq_iff)
qed

section \<open>Servers\<close>

definition sv_correct :: "'l mserver \<Rightarrow> bool" where
  "sv_correct s \<longleftrightarrow>
     distinct (map sc_name (sv_heap s)) \<and>
     (\<forall>a < length (sv_heap s). sc_loop (sv_heap s ! a) = turn_loop (sv_pool s) a \<and> (\<exists>ph. at_life s a ph)) \<and>
     ((\<forall>l. sv_queues s l = []) \<longrightarrow>
        (\<forall>a < length (sv_heap s).
           calls_of a s = [CEstablished] \<and> sv_connections s (sc_name (sv_heap s ! a)) = Some a \<or>
           calls_of a s = [CEstablished, CClosed, CDestroyed] \<and> sv_connections s (sc_name (sv_heap s ! a)) = None))"

lemma sv_inv_correct:
  assumes i: "sv_inv s"
  shows "sv_correct s"
proof -
  have "distinct (map sc_name (sv_heap s))"
    unfolding distinct_conv_nth using sv_invD(1) [OF i] names_distinct [OF i] by simp
  moreover have "calls_of a s = [CEstablished] \<and> sv_connections s (sc_name (sv_heap s ! a)) = Some a \<or>
      calls_of a s = [CEstablished, CClosed, CDestroyed] \<and> sv_connections s (sc_name (sv_heap s ! a)) = None"
    if q: "\<forall>l. sv_queues s l = []" and a: "a < length (sv_heap s)" for a
  proof -
    obtain ph where ph: "at_life s a ph" using sv_invD(3) [OF i a] by blast
    moreover have "queued_of a s = (\<lambda>_. [])" using q by (simp add: queued_of_def fun_eq_iff)
    then have e: "life_queue (sv_base s) (sc_loop (sv_heap s ! a)) a ph = (\<lambda>_. [])" using ph by (simp add: at_life_def)
    have "ph = Opened \<or> ph = Destroyed"
      using fun_cong [OF e, of "sc_loop (sv_heap s ! a)"] fun_cong [OF e, of "sv_base s"] by (cases ph) auto
    ultimately show ?thesis by (auto simp: at_life_def)
  qed
  ultimately show ?thesis using sv_invD(2,3) [OF i] by (simp add: sv_correct_def)
qed

text \<open>
  C25. The server's table of connections: in every interleaving of acceptances, closes and the functors of all loops, no assertion of the
  server fails; names of connections are distinct, and connections go to the loops of the pool in turn; each connection is
  established once in its loop, then closed, then removed from the table and only then destroyed, each once; and when the queues of the loops are empty, the
  table has exactly the open connections and every closed one was destroyed.
\<close>

theorem muduo_server_table:
  assumes "length ipPort \<le> 51" "sv_setThreadNum n (MTcpServer_new base ipPort nm) \<bind> sv_start startLoop = Some s" "sv_possible es s"
  shows "returns (sv_run es s) sv_correct"
  by (rule returns_mono [OF sv_run_ok [OF new_server_inv [OF assms(1,2)] assms(3)]]) (rule sv_inv_correct)

definition demo_mserver :: "nat mserver" where
  "demo_mserver = the (sv_setThreadNum 2 (MTcpServer_new 0 ''0.0.0.0:80'' ''web'') \<bind> sv_start Suc)"

definition demo_mserver_events :: "nat sv_event list" where
  "demo_mserver_events = [SvAccept 5 ''p'', SvAccept 6 ''q'', SvRun 2, SvClose 1, SvRun 1, SvRun 0, SvRun 2]"

lemma demo_mserver_started: "sv_setThreadNum 2 (MTcpServer_new 0 ''0.0.0.0:80'' ''web'') \<bind> sv_start Suc = Some demo_mserver"
  by (simp add: demo_mserver_def sv_setThreadNum_def sv_start_def MTcpServer_new_def mp_start_def MLoopPool_new_def setThreadNum_def Let_def)

lemma demo_mserver_run:
  "sv_possible demo_mserver_events demo_mserver"
  "map_option (\<lambda>s. (map sc_name (sv_heap s), sv_calls s, sv_connections s ''web-0.0.0.0:80#1'', sv_connections s ''web-0.0.0.0:80#2''))
     (sv_run demo_mserver_events demo_mserver) =
   Some ([''web-0.0.0.0:80#1'', ''web-0.0.0.0:80#2''], [(1, CEstablished), (1, CClosed), (0, CEstablished), (1, CDestroyed)], Some 0, None)"
  by code_simp+

theorem muduo_server_table_witness:
  "\<exists>s. sv_run demo_mserver_events demo_mserver = Some s \<and> sv_correct s \<and>
     sv_calls s = [(1, CEstablished), (1, CClosed), (0, CEstablished), (1, CDestroyed)]"
  using muduo_server_table [OF _ demo_mserver_started demo_mserver_run(1)] demo_mserver_run(2) by (auto simp: returns_iff)

text \<open>The destructor: every connection that is still in the table is destroyed or has its \<open>connectDestroyed\<close> queued, so that each connection ends
  once. (A removal that waits in the base loop would use the server after its destruction.)\<close>

definition ends :: "nat \<Rightarrow> 'l mserver \<Rightarrow> nat" where
  "ends a s = count_list (calls_of a s) CDestroyed + count_list (sv_queues s (sc_loop (sv_heap s ! a))) (SDestroyed a)"

lemma count_fn_conn: "count_list (filter (\<lambda>f. fn_conn f = fn_conn g) fs) g = count_list fs g"
  by (induction fs) auto

lemma runDestroyed:
  "returns (sv_runInLoop cur (sc_loop (sv_heap s ! a)) (SDestroyed a) s) (\<lambda>s'. sv_heap s' = sv_heap s \<and> sv_connections s' = sv_connections s \<and>
     (\<forall>b. ends b s' = ends b s + (if a = b then 1 else 0)))"
  by (auto simp: sv_runInLoop_def ends_def sv_queueInLoop_def sv_call_def calls_of_def)

lemma destroyAll_ends:
  "\<forall>n \<in> set ns. sv_connections s n \<noteq> None \<Longrightarrow>
   returns (sv_destroyAll ns s) (\<lambda>s'. \<forall>b. ends b s' = ends b s + length (filter (\<lambda>n. sv_connections s n = Some b) ns))"
proof (induction ns arbitrary: s)
  case (Cons n ns)
  then obtain a where a: "sv_connections s n = Some a" by auto
  obtain s1 where s1: "sv_runInLoop (sv_base s) (sc_loop (sv_heap s ! a)) (SDestroyed a) s = Some s1" "sv_connections s1 = sv_connections s"
      "\<And>b. ends b s1 = ends b s + (if a = b then 1 else 0)"
    using runDestroyed [of "sv_base s" s a] by (auto simp: returns_iff)
  have "returns (sv_destroyAll ns s1) (\<lambda>s'. \<forall>b. ends b s' = ends b s1 + length (filter (\<lambda>n. sv_connections s1 n = Some b) ns))"
    by (rule Cons.IH) (use Cons.prems s1(2) in simp)
  then show ?case using a s1 by (auto elim: returns_mono)
qed simp

lemma server_dtor:
  assumes i: "sv_inv s" and ns: "distinct ns" "set ns = dom (sv_connections s)"
    and a: "a < length (sv_heap s)"
  shows "returns (sv_destroyAll ns s) (\<lambda>s'. ends a s' = 1)"
proof -
  let ?n = "sc_name (sv_heap s ! a)" and ?io = "sc_loop (sv_heap s ! a)"
  obtain ph where ph: "at_life s a ph" using sv_invD(3) [OF i a] by blast
  have "sv_connections s n = Some b \<Longrightarrow> sc_name (sv_heap s ! b) = n" for n b using i unfolding sv_inv_def by blast
  then have "sv_connections s n = Some a \<longleftrightarrow> n = ?n \<and> life_listed ph" for n
    using ph unfolding at_life_def by (metis option.distinct(1))
  then have "filter (\<lambda>n. sv_connections s n = Some a) ns = filter (\<lambda>n. n = ?n \<and> life_listed ph) ns" by simp
  also have "\<dots> = (if life_listed ph then [?n] else [])"
  proof (cases "life_listed ph")
    case True
    then have "?n \<in> set ns" using ph ns(2) by (auto simp: at_life_def)
    then have "filter (\<lambda>n. n = ?n) ns = [?n]" using ns(1) by (induction ns) (auto simp: filter_empty_conv)
    then show ?thesis using True by simp
  qed simp
  finally have f: "length (filter (\<lambda>n. sv_connections s n = Some a) ns) = (if life_listed ph then 1 else 0)" by simp
  have "count_list (sv_queues s ?io) (SDestroyed a) = count_list (queued_of a s ?io) (SDestroyed a)"
    using count_fn_conn [of "SDestroyed a"] by (simp add: queued_of_def)
  moreover have "queued_of a s ?io = life_queue (sv_base s) ?io a ph ?io" using ph by (simp add: at_life_def)
  ultimately have "ends a s = (if life_listed ph then 0 else 1)"
    using ph by (cases ph) (auto simp: ends_def at_life_def)
  moreover have "returns (sv_destroyAll ns s) (\<lambda>s'. \<forall>b. ends b s' = ends b s + length (filter (\<lambda>n. sv_connections s n = Some b) ns))"
    by (rule destroyAll_ends) (use ns(2) in auto)
  ultimately show ?thesis using f by (auto elim: returns_mono)
qed

section \<open>Acceptor\<close>

text \<open>\<open>sockets::accept\<close> on the answer of the system call: the errors that are expected are returned, all others end the process (\<open>None\<close>). The
  numbers are those of Linux: \<open>EPERM\<close> 1, \<open>EMFILE\<close> 24, \<open>EPROTO\<close> 71 and \<open>ECONNABORTED\<close> 103.\<close>

definition EMFILE :: errno where "EMFILE = EOTHER 24"

fun accept_expected :: "errno \<Rightarrow> bool" where
  "accept_expected EAGAIN = True"
| "accept_expected EINTR = True"
| "accept_expected (EOTHER n) = (n \<in> {103, 71, 1, 24})"
| "accept_expected EINPROGRESS = False"

definition sockets_accept :: "(int \<times> bytes) sys \<Rightarrow> (int \<times> bytes) sys option" where
  "sockets_accept r = (case r of Ok _ \<Rightarrow> Some r | Fail e \<Rightarrow> if accept_expected e then Some r else None)"

text \<open>The acceptor, with the history of the connections it handed to its callback and of the descriptors it passed to \<open>close\<close>. The answers of the
  system are arguments: of the first \<open>accept\<close>, and at the limit of descriptors of the second \<open>accept\<close> and of \<open>open\<close>. \<open>close (-1)\<close> does
  nothing. Logging is taken to leave \<open>errno\<close> as it is.\<close>

record macceptor =
  ma_idleFd :: int
  ma_callback :: bool
  ma_given :: "(int \<times> bytes) list"
  ma_closed :: "int list"

definition fd_or_error :: "int sys \<Rightarrow> int" where
  "fd_or_error r = (case r of Ok fd \<Rightarrow> fd | Fail _ \<Rightarrow> - 1)"

definition MAcceptor_new :: "int sys \<Rightarrow> bool \<Rightarrow> macceptor option" where
  "MAcceptor_new null cb =
     (let s = \<lparr>ma_idleFd = fd_or_error null, ma_callback = cb, ma_given = [], ma_closed = []\<rparr> in if 0 \<le> ma_idleFd s then Some s else None)"

definition ma_close :: "int \<Rightarrow> macceptor \<Rightarrow> macceptor" where
  "ma_close fd s = (if 0 \<le> fd then s\<lparr>ma_closed := ma_closed s @ [fd]\<rparr> else s)"

definition ma_handleRead :: "(int \<times> bytes) sys \<Rightarrow> int sys \<Rightarrow> int sys \<Rightarrow> macceptor \<Rightarrow> macceptor option" where
  "ma_handleRead conn again null s = do {
     r \<leftarrow> sockets_accept conn;
     case r of
       Ok (connfd, peer) \<Rightarrow>
         if ma_callback s then Some (s\<lparr>ma_given := ma_given s @ [(connfd, peer)]\<rparr>) else Some (ma_close connfd s)
     | Fail e \<Rightarrow>
         if e = EMFILE then
           let s1 = ma_close (ma_idleFd s) s;
               s2 = s1\<lparr>ma_idleFd := fd_or_error again\<rparr>;
               s3 = ma_close (ma_idleFd s2) s2
           in Some (s3\<lparr>ma_idleFd := fd_or_error null\<rparr>)
         else Some s
   }"

text \<open>A call of \<open>handleRead\<close> by its answers, and a run of such calls.\<close>

type_synonym accept_answers = "(int \<times> bytes) sys \<times> int sys \<times> int sys"

fun ma_run :: "accept_answers list \<Rightarrow> macceptor \<Rightarrow> macceptor option" where
  "ma_run [] s = Some s"
| "ma_run ((c, a, n) # rs) s = Option.bind (ma_handleRead c a n s) (ma_run rs)"

text \<open>The descriptors that the system gave in a call, the connection that was to be handed over, and the reserve after a run.\<close>

definition fds_of :: "int sys \<Rightarrow> int list" where
  "fds_of r = (case r of Ok fd \<Rightarrow> [fd] | Fail _ \<Rightarrow> [])"

fun obtained :: "accept_answers \<Rightarrow> int list" where
  "obtained (Ok (fd, peer), a, n) = [fd]"
| "obtained (Fail e, a, n) = (if e = EMFILE then fds_of a @ fds_of n else [])"

fun accepted_conn :: "accept_answers \<Rightarrow> (int \<times> bytes) list" where
  "accepted_conn (Ok conn, a, n) = [conn]"
| "accepted_conn (Fail e, a, n) = []"

fun at_limit :: "accept_answers \<Rightarrow> bool" where
  "at_limit (Ok conn, a, n) = False"
| "at_limit (Fail e, a, n) = (e = EMFILE)"

fun unexpected :: "accept_answers \<Rightarrow> bool" where
  "unexpected (Ok conn, a, n) = False"
| "unexpected (Fail e, a, n) = (\<not> accept_expected e)"

definition reserve_after :: "int sys \<Rightarrow> accept_answers list \<Rightarrow> int" where
  "reserve_after null rs = fd_or_error (last (null # map (snd \<circ> snd) (filter at_limit rs)))"

text \<open>The descriptors of an acceptor: closed, handed over, or the reserve.\<close>

definition live :: "int \<Rightarrow> int multiset" where
  "live fd = (if 0 \<le> fd then {#fd#} else {#})"

definition ma_holds :: "macceptor \<Rightarrow> int multiset" where
  "ma_holds s = mset (ma_closed s) + mset (map fst (ma_given s)) + live (ma_idleFd s)"

lemma close_live:
  "mset (ma_closed (ma_close fd s)) = mset (ma_closed s) + live fd" "ma_given (ma_close fd s) = ma_given s"
  "ma_idleFd (ma_close fd s) = ma_idleFd s" "ma_callback (ma_close fd s) = ma_callback s"
  by (simp_all add: ma_close_def live_def)

lemma fds_live: "\<forall>fd \<in> set (fds_of r). 0 \<le> fd \<Longrightarrow> mset (fds_of r) = live (fd_or_error r)"
  by (cases r) (simp_all add: fds_of_def fd_or_error_def live_def)

lemma handleRead_effect:
  assumes "\<forall>fd \<in> set (obtained (c, a, n)). 0 \<le> fd"
  shows "ma_handleRead c a n s = None \<longleftrightarrow> unexpected (c, a, n)"
    and "ma_handleRead c a n s = Some s' \<Longrightarrow> ma_callback s' = ma_callback s \<and> ma_holds s' = ma_holds s + mset (obtained (c, a, n)) \<and>
      ma_given s' = ma_given s @ (if ma_callback s then accepted_conn (c, a, n) else []) \<and>
      ma_idleFd s' = (if at_limit (c, a, n) then fd_or_error n else ma_idleFd s)"
proof -
  show "ma_handleRead c a n s = None \<longleftrightarrow> unexpected (c, a, n)"
    by (cases c) (auto simp: ma_handleRead_def sockets_accept_def Let_def split: prod.splits)
  show "ma_callback s' = ma_callback s \<and> ma_holds s' = ma_holds s + mset (obtained (c, a, n)) \<and>
      ma_given s' = ma_given s @ (if ma_callback s then accepted_conn (c, a, n) else []) \<and>
      ma_idleFd s' = (if at_limit (c, a, n) then fd_or_error n else ma_idleFd s)" if r: "ma_handleRead c a n s = Some s'"
  proof (cases c)
    case (Ok x)
    obtain fd peer where x: "x = (fd, peer)" by (cases x)
    have "s' = (if ma_callback s then s\<lparr>ma_given := ma_given s @ [(fd, peer)]\<rparr> else ma_close fd s)"
      using r Ok x by (simp add: ma_handleRead_def sockets_accept_def split: if_splits)
    then show ?thesis using assms Ok x by (simp add: ma_holds_def close_live live_def)
  next
    case (Fail e)
    show ?thesis
    proof (cases "e = EMFILE")
      case True
      have "s' = (ma_close (fd_or_error a) ((ma_close (ma_idleFd s) s)\<lparr>ma_idleFd := fd_or_error a\<rparr>))\<lparr>ma_idleFd := fd_or_error n\<rparr>"
        using r Fail True by (simp add: ma_handleRead_def sockets_accept_def EMFILE_def Let_def)
      then show ?thesis using assms Fail True fds_live [of a] fds_live [of n] by (simp add: ma_holds_def close_live)
    next
      case False
      then have "s' = s" using r Fail by (simp add: ma_handleRead_def sockets_accept_def split: if_splits)
      then show ?thesis using Fail False by simp
    qed
  qed
qed

lemma run_effect:
  assumes "\<forall>fd \<in> set (concat (map obtained rs)). 0 \<le> fd"
  shows "(ma_run rs s = None \<longleftrightarrow> (\<exists>r \<in> set rs. unexpected r)) \<and>
    (\<forall>s'. ma_run rs s = Some s' \<longrightarrow> ma_holds s' = ma_holds s + mset (concat (map obtained rs)) \<and>
      ma_given s' = ma_given s @ (if ma_callback s then concat (map accepted_conn rs) else []) \<and>
      ma_idleFd s' = (case filter at_limit rs of [] \<Rightarrow> ma_idleFd s | r # rest \<Rightarrow> fd_or_error (snd (snd (last (r # rest))))))"
  using assms
proof (induction rs arbitrary: s)
  case (Cons r rs)
  obtain c a n where r: "r = (c, a, n)" by (cases r)
  have o: "\<forall>fd \<in> set (obtained (c, a, n)). 0 \<le> fd" using Cons.prems by (simp add: r)
  show ?case
  proof (cases "ma_handleRead c a n s")
    case None
    then show ?thesis using handleRead_effect(1) [OF o] by (simp add: r)
  next
    case (Some s1)
    have u: "\<not> unexpected r" using handleRead_effect(1) [OF o, of s] Some by (simp add: r)
    note step = handleRead_effect(2) [OF o Some, folded r]
    have run: "ma_run (r # rs) s = ma_run rs s1" using Some by (simp add: r)
    have "\<forall>fd \<in> set (concat (map obtained rs)). 0 \<le> fd" using Cons.prems by simp
    note ih = Cons.IH [OF this, of s1]
    have "ma_run rs s1 = None \<longleftrightarrow> (\<exists>r \<in> set rs. unexpected r)" using ih by blast
    moreover have "ma_holds s' = ma_holds s + mset (concat (map obtained (r # rs)))"
      "ma_given s' = ma_given s @ (if ma_callback s then concat (map accepted_conn (r # rs)) else [])"
      "ma_idleFd s' = (case filter at_limit (r # rs) of [] \<Rightarrow> ma_idleFd s | r # rest \<Rightarrow> fd_or_error (snd (snd (last (r # rest)))))"
      if "ma_run rs s1 = Some s'" for s'
    proof -
      have i: "ma_holds s' = ma_holds s1 + mset (concat (map obtained rs))"
        "ma_given s' = ma_given s1 @ (if ma_callback s1 then concat (map accepted_conn rs) else [])"
        "ma_idleFd s' = (case filter at_limit rs of [] \<Rightarrow> ma_idleFd s1 | r # rest \<Rightarrow> fd_or_error (snd (snd (last (r # rest)))))"
        using ih that by blast+
      show "ma_holds s' = ma_holds s + mset (concat (map obtained (r # rs)))" unfolding i(1) using step by simp
      show "ma_given s' = ma_given s @ (if ma_callback s then concat (map accepted_conn (r # rs)) else [])" unfolding i(2) using step by simp
      show "ma_idleFd s' = (case filter at_limit (r # rs) of [] \<Rightarrow> ma_idleFd s | r # rest \<Rightarrow> fd_or_error (snd (snd (last (r # rest)))))"
        unfolding i(3) using conjunct2 [OF conjunct2 [OF conjunct2 [OF step]]]
        by (cases "filter at_limit rs"; cases "at_limit (c, a, n)") (simp_all add: r del: at_limit.simps)
    qed
    ultimately show ?thesis unfolding run using u by (metis list.set_intros(2) set_ConsD)
  qed
qed simp

text \<open>
  C28. Descriptors of an acceptor: whatever the system answers to every \<open>accept\<close> and \<open>open\<close>, in every run of \<open>handleRead\<close> calls of an acceptor that has a
  reserve descriptor at its construction, the process is ended exactly if \<open>accept\<close> fails with an error that is not expected. Otherwise each
  descriptor that the system gave is, exactly once, handed to the callback, closed or the current reserve, so that none is leaked and none
  closed twice, also if other threads take descriptors in between; the callback is given exactly the connections that the first
  \<open>accept\<close> of a call returned, in their order; and the reserve is what the last \<open>open\<close> returned, so it is in place whenever that \<open>open\<close>
  succeeded.
\<close>

theorem muduo_acceptor_descriptors:
  assumes "MAcceptor_new null cb = Some s0" and "\<forall>fd \<in> set (fds_of null @ concat (map obtained rs)). 0 \<le> fd"
  shows "(ma_run rs s0 = None \<longleftrightarrow> (\<exists>r \<in> set rs. unexpected r)) \<and>
    (\<forall>s. ma_run rs s0 = Some s \<longrightarrow>
      mset (fds_of null @ concat (map obtained rs)) =
        mset (ma_closed s) + mset (map fst (ma_given s)) + (if 0 \<le> ma_idleFd s then {#ma_idleFd s#} else {#}) \<and>
      ma_given s = (if cb then concat (map accepted_conn rs) else []) \<and> ma_idleFd s = reserve_after null rs)"
proof -
  obtain fd where n: "null = Ok fd" "s0 = \<lparr>ma_idleFd = fd, ma_callback = cb, ma_given = [], ma_closed = []\<rparr>" "0 \<le> fd"
    using assms(1) by (auto simp: MAcceptor_new_def fd_or_error_def Let_def split: if_splits sys.splits)
  have h: "ma_holds s0 = mset (fds_of null)" using n(3) by (simp add: n(1,2) ma_holds_def fds_of_def live_def)
  have i: "ma_idleFd s0 = fd_or_error null" by (simp add: n fd_or_error_def)
  have o: "\<forall>fd \<in> set (concat (map obtained rs)). 0 \<le> fd" using assms(2) by simp
  have r: "reserve_after null rs = (case filter at_limit rs of [] \<Rightarrow> ma_idleFd s0 | r # rest \<Rightarrow> fd_or_error (snd (snd (last (r # rest)))))"
    using i by (cases "filter at_limit rs") (simp_all add: reserve_after_def last_map)
  have e: "ma_given s0 = []" "ma_callback s0 = cb" using n(2) by simp_all
  note run = run_effect [OF o, of s0, unfolded h e append_Nil, folded r mset_append]
  show ?thesis
  proof (intro conjI allI impI)
    show "ma_run rs s0 = None \<longleftrightarrow> (\<exists>r \<in> set rs. unexpected r)" by (rule conjunct1 [OF run])
    fix s assume s: "ma_run rs s0 = Some s"
    note run' = conjunct2 [OF run, rule_format, OF s]
    show "mset (fds_of null @ concat (map obtained rs)) =
        mset (ma_closed s) + mset (map fst (ma_given s)) + (if 0 \<le> ma_idleFd s then {#ma_idleFd s#} else {#})"
      by (rule trans [OF conjunct1 [OF run', symmetric]]) (simp only: ma_holds_def live_def)
    show "ma_given s = (if cb then concat (map accepted_conn rs) else [])" "ma_idleFd s = reserve_after null rs" using run' by blast+
  qed
qed

text \<open>A connection is accepted; the second finds no free descriptor and is refused on that of the reserve; the third \<open>accept\<close> was interrupted.\<close>

definition accept_demo :: "accept_answers list" where
  "accept_demo = [(Ok (6, ''p''), Fail EAGAIN, Fail EAGAIN), (Fail EMFILE, Ok 5, Ok 5), (Fail EINTR, Fail EAGAIN, Fail EAGAIN)]"

theorem muduo_acceptor_descriptors_witness:
  "\<exists>s. ma_run accept_demo \<lparr>ma_idleFd = 5, ma_callback = True, ma_given = [], ma_closed = []\<rparr> = Some s \<and>
     {#5, 6, 5, 5#} = mset (ma_closed s) + mset (map fst (ma_given s)) + {#ma_idleFd s#} \<and> ma_given s = [(6, ''p'')] \<and> ma_idleFd s = 5"
  using muduo_acceptor_descriptors [of "Ok 5" True "\<lparr>ma_idleFd = 5, ma_callback = True, ma_given = [], ma_closed = []\<rparr>" accept_demo]
  by (auto simp: accept_demo_def MAcceptor_new_def fd_or_error_def fds_of_def reserve_after_def EMFILE_def)

text \<open>The reserve is not always there: when another thread takes the descriptor that was freed, the second \<open>accept\<close> and \<open>open\<close> fail. From then on, as
  long as the process stays at its limit, a call neither accepts nor closes anything, so the waiting connections stay and the
  level-triggered loop spins.\<close>

lemma reserve_lost:
  assumes "\<forall>r \<in> set rs. \<exists>e e'. r = (Fail EMFILE, Fail e, Fail e')" and "rs \<noteq> []" and "ma_run rs s = Some s'"
  shows "ma_idleFd s' = - 1 \<and> ma_given s' = ma_given s \<and> ma_closed s' = ma_closed s @ (if 0 \<le> ma_idleFd s then [ma_idleFd s] else [])"
  using assms
proof (induction rs arbitrary: s)
  case (Cons r rs)
  obtain e e' where r: "r = (Fail EMFILE, Fail e, Fail e')" using Cons.prems(1) by auto
  have "ma_handleRead (Fail EMFILE) (Fail e) (Fail e') s =
      Some (s\<lparr>ma_idleFd := - 1, ma_closed := ma_closed s @ (if 0 \<le> ma_idleFd s then [ma_idleFd s] else [])\<rparr>)"
    by (simp add: ma_handleRead_def sockets_accept_def EMFILE_def ma_close_def fd_or_error_def Let_def)
  then show ?case using Cons.IH Cons.prems by (cases "rs = []") (auto simp: r)
qed simp

end
