(* ===== verification/MuduoConnector.thy ===== *)
theory MuduoConnector
  imports MuduoPoller Socket "HOL-Library.Multiset"
begin

unbundle bit_operations_syntax

text \<open>
  The class \<open>Connector\<close> of the bundled muduo library, \<open>src/muduo_source_code/muduo/net/Connector.h\<close> and \<open>Connector.cc\<close>: it connects to a
  server without blocking, waits on a channel for the outcome, and tries again after a growing delay. The state has the fields of the
  object, the channels with a poller (the arguments \<open>upd\<close>, \<open>rem\<close> and \<open>tab\<close>), the functors queued in the loop, the timers armed for
  \<open>startInLoop\<close>, and histories that no operation reads: the sockets that were closed and handed over, the delays since the last
  \<open>restart\<close>, and whether an attempt was given up. The n-th call of \<open>socket\<close> and \<open>connect\<close> is answered by the environment; a new channel is
  at an address that was not used before. \<open>None\<close> is a failed assertion here or in a channel.

  The theory shows that no assertion fails, no socket is leaked or closed twice, the delays double up to their limit, and that an attempt goes
  on until it succeeds, is stopped or meets a final error. The uses that break this are shown at the end.
\<close>

section \<open>State\<close>

datatype States = CnDisconnected | CnConnecting | CnConnected

datatype cn_handler = CnWrite | CnError

datatype cn_functor = CnStartF | CnStopF | CnResetF

definition kMaxRetryDelayMs :: int where "kMaxRetryDelayMs = 30 * 1000"
definition kInitRetryDelayMs :: int where "kInitRetryDelayMs = 500"

record 'p connector =
  cn_connectFlag :: bool
  cn_state :: States
  cn_channel :: "nat option"
  cn_retryDelayMs :: int
  cn_poll :: "cn_handler chans \<times> 'p"
  cn_next :: nat
  cn_pending :: "cn_functor list"
  cn_timers :: "int list"
  cn_attempts :: nat
  cn_closed :: "int list"
  cn_given :: "int list"
  cn_delays :: "int list"

record cn_env =
  ce_socket :: "nat \<Rightarrow> int"
  ce_connect :: "nat \<Rightarrow> unit sys"

definition Connector_new :: "'p \<Rightarrow> 'p connector" where
  "Connector_new p = \<lparr>cn_connectFlag = False, cn_state = CnDisconnected, cn_channel = None, cn_retryDelayMs = kInitRetryDelayMs,
     cn_poll = (\<lambda>_. None, p), cn_next = 0, cn_pending = [], cn_timers = [], cn_attempts = 0, cn_closed = [], cn_given = [], cn_delays = []\<rparr>"

definition Connector_dtor :: "'p connector \<Rightarrow> unit option" where
  "Connector_dtor s = (if cn_channel s = None then Some () else None)"

section \<open>Operations\<close>

definition cn_chan :: "'p connector \<Rightarrow> cn_handler MChannel" where
  "cn_chan s = (case cn_channel s of
      None \<Rightarrow> MChannel_new (- 1)
    | Some a \<Rightarrow> (case fst (cn_poll s) a of None \<Rightarrow> MChannel_new (- 1) | Some c \<Rightarrow> c))"

definition cn_modify :: "(cn_handler MChannel \<Rightarrow> cn_handler MChannel) \<Rightarrow> 'p connector \<Rightarrow> 'p connector" where
  "cn_modify f s = (case cn_channel s of
      None \<Rightarrow> s
    | Some a \<Rightarrow> s\<lparr>cn_poll := (at_channel a f (fst (cn_poll s)), snd (cn_poll s))\<rparr>)"

definition cn_queueInLoop :: "cn_functor \<Rightarrow> 'p connector \<Rightarrow> 'p connector" where
  "cn_queueInLoop f s = s\<lparr>cn_pending := cn_pending s @ [f]\<rparr>"

definition cn_close :: "int \<Rightarrow> 'p connector \<Rightarrow> 'p connector" where
  "cn_close fd s = s\<lparr>cn_closed := cn_closed s @ [fd]\<rparr>"

definition cn_retry :: "int \<Rightarrow> 'p connector \<Rightarrow> 'p connector" where
  "cn_retry fd s =
     (let s1 = (cn_close fd s)\<lparr>cn_state := CnDisconnected\<rparr>
      in if cn_connectFlag s1
         then s1\<lparr>cn_timers := cn_timers s1 @ [cn_retryDelayMs s1], cn_delays := cn_delays s1 @ [cn_retryDelayMs s1],
                 cn_retryDelayMs := min (cn_retryDelayMs s1 * 2) kMaxRetryDelayMs\<rparr>
         else s1)"

definition removeAndResetChannel ::
    "(cn_handler, 'p) poller_call \<Rightarrow> (cn_handler, 'p) poller_call \<Rightarrow> 'p connector \<Rightarrow> (int \<times> 'p connector) option" where
  "removeAndResetChannel upd rem s = do {
     a \<leftarrow> cn_channel s;
     w1 \<leftarrow> disableAll upd a (cn_poll s);
     w2 \<leftarrow> MChannel_remove rem a w1;
     c \<leftarrow> fst w2 a;
     Some (mc_fd c, cn_queueInLoop CnResetF (s\<lparr>cn_poll := w2\<rparr>))
   }"

definition resetChannel ::
    "(cn_handler, 'p) poller_call \<Rightarrow> (cn_handler, 'p) poller_call \<Rightarrow> ('p \<Rightarrow> int \<rightharpoonup> nat) \<Rightarrow> 'p connector \<Rightarrow> 'p connector option" where
  "resetChannel upd rem tab s =
     (case cn_channel s of
        None \<Rightarrow> Some s
      | Some a \<Rightarrow> do {
          w \<leftarrow> chan_step upd rem tab (Destroy a) (cn_poll s);
          Some (s\<lparr>cn_channel := None, cn_poll := w\<rparr>)
        })"

definition connecting :: "(cn_handler, 'p) poller_call \<Rightarrow> int \<Rightarrow> 'p connector \<Rightarrow> 'p connector option" where
  "connecting upd fd s =
     (let s1 = s\<lparr>cn_state := CnConnecting\<rparr>; a = cn_next s1
      in if cn_channel s1 = None then do {
           let w = ((fst (cn_poll s1))(a \<mapsto> setErrorCallback CnError (setWriteCallback CnWrite (MChannel_new fd))), snd (cn_poll s1));
           w1 \<leftarrow> enableWriting upd a w;
           Some (s1\<lparr>cn_channel := Some a, cn_next := a + 1, cn_poll := w1\<rparr>)
         }
         else None)"

text \<open>The classes of errors of \<open>connect\<close>. Those of the third case and all others are treated alike.\<close>

fun connect_goes_on :: "errno \<Rightarrow> bool" where
  "connect_goes_on EINPROGRESS = True"
| "connect_goes_on EINTR = True"
| "connect_goes_on (EOTHER n) = (n = 106)"
| "connect_goes_on EAGAIN = False"

fun connect_again :: "errno \<Rightarrow> bool" where
  "connect_again EAGAIN = True"
| "connect_again (EOTHER n) = (n \<in> {98, 99, 111, 101})"
| "connect_again _ = False"

definition cn_connect :: "(cn_handler, 'p) poller_call \<Rightarrow> cn_env \<Rightarrow> 'p connector \<Rightarrow> 'p connector option" where
  "cn_connect upd env s =
     (let fd = ce_socket env (cn_attempts s); s1 = s\<lparr>cn_attempts := cn_attempts s + 1\<rparr>
      in case ce_connect env (cn_attempts s) of
           Ok _ \<Rightarrow> connecting upd fd s1
         | Fail e \<Rightarrow>
             if connect_goes_on e then connecting upd fd s1
             else if connect_again e then Some (cn_retry fd s1)
             else Some (cn_close fd s1))"

definition cn_startInLoop :: "(cn_handler, 'p) poller_call \<Rightarrow> cn_env \<Rightarrow> 'p connector \<Rightarrow> 'p connector option" where
  "cn_startInLoop upd env s =
     (if cn_state s = CnDisconnected then if cn_connectFlag s then cn_connect upd env s else Some s else None)"

definition cn_start :: "(cn_handler, 'p) poller_call \<Rightarrow> cn_env \<Rightarrow> bool \<Rightarrow> 'p connector \<Rightarrow> 'p connector option" where
  "cn_start upd env inLoop s =
     (let s1 = s\<lparr>cn_connectFlag := True\<rparr> in if inLoop then cn_startInLoop upd env s1 else Some (cn_queueInLoop CnStartF s1))"

definition cn_stop :: "'p connector \<Rightarrow> 'p connector" where
  "cn_stop s = cn_queueInLoop CnStopF (s\<lparr>cn_connectFlag := False\<rparr>)"

definition cn_stopInLoop :: "(cn_handler, 'p) poller_call \<Rightarrow> (cn_handler, 'p) poller_call \<Rightarrow> 'p connector \<Rightarrow> 'p connector option" where
  "cn_stopInLoop upd rem s =
     (if cn_state s = CnConnecting then do {
        (fd, s1) \<leftarrow> removeAndResetChannel upd rem (s\<lparr>cn_state := CnDisconnected\<rparr>);
        Some (cn_retry fd s1)
      }
      else Some s)"

definition cn_restart :: "(cn_handler, 'p) poller_call \<Rightarrow> cn_env \<Rightarrow> 'p connector \<Rightarrow> 'p connector option" where
  "cn_restart upd env s =
     cn_startInLoop upd env (s\<lparr>cn_state := CnDisconnected, cn_retryDelayMs := kInitRetryDelayMs, cn_delays := [], cn_connectFlag := True\<rparr>)"

text \<open>\<open>err\<close> is the error of the socket, \<open>self\<close> whether it is connected to itself, and \<open>halts\<close> whether the callback for the new
  connection calls \<open>stop\<close>.\<close>

definition cn_handleWrite ::
    "(cn_handler, 'p) poller_call \<Rightarrow> (cn_handler, 'p) poller_call \<Rightarrow> nat \<Rightarrow> bool \<Rightarrow> bool \<Rightarrow> 'p connector \<Rightarrow> 'p connector option" where
  "cn_handleWrite upd rem err self halts s =
     (if cn_state s = CnConnecting then do {
        (fd, s1) \<leftarrow> removeAndResetChannel upd rem s;
        if err \<noteq> 0 then Some (cn_retry fd s1)
        else if self then Some (cn_retry fd s1)
        else let s2 = s1\<lparr>cn_state := CnConnected\<rparr>
             in if cn_connectFlag s2 then let s3 = s2\<lparr>cn_given := cn_given s2 @ [fd]\<rparr> in Some (if halts then cn_stop s3 else s3)
                else Some (cn_close fd s2)
      }
      else if cn_state s = CnDisconnected then Some s else None)"

definition cn_handleError :: "(cn_handler, 'p) poller_call \<Rightarrow> (cn_handler, 'p) poller_call \<Rightarrow> 'p connector \<Rightarrow> 'p connector option" where
  "cn_handleError upd rem s =
     (if cn_state s = CnConnecting then do {
        (fd, s1) \<leftarrow> removeAndResetChannel upd rem s;
        Some (cn_retry fd s1)
      }
      else Some s)"

section \<open>Runs\<close>

fun cn_handler_run ::
    "(cn_handler, 'p) poller_call \<Rightarrow> (cn_handler, 'p) poller_call \<Rightarrow> nat \<Rightarrow> bool \<Rightarrow> bool \<Rightarrow> cn_handler \<Rightarrow> 'p connector \<Rightarrow> 'p connector option" where
  "cn_handler_run upd rem err self halts CnWrite s = cn_handleWrite upd rem err self halts s"
| "cn_handler_run upd rem err self halts CnError s = cn_handleError upd rem s"

fun cn_run_functor ::
    "(cn_handler, 'p) poller_call \<Rightarrow> (cn_handler, 'p) poller_call \<Rightarrow> ('p \<Rightarrow> int \<rightharpoonup> nat) \<Rightarrow> cn_env \<Rightarrow> cn_functor \<Rightarrow> 'p connector \<Rightarrow> 'p connector option" where
  "cn_run_functor upd rem tab env CnStartF s = cn_startInLoop upd env s"
| "cn_run_functor upd rem tab env CnStopF s = cn_stopInLoop upd rem s"
| "cn_run_functor upd rem tab env CnResetF s = resetChannel upd rem tab s"

text \<open>What can happen: calls of the user, an event of the channel, the timer, and a round of the loop's functors.\<close>

datatype cn_event = CnStart bool | CnStop | CnRestart | CnIO u32 nat bool bool | CnTimer | CnPending

fun cn_step ::
    "(cn_handler, 'p) poller_call \<Rightarrow> (cn_handler, 'p) poller_call \<Rightarrow> ('p \<Rightarrow> int \<rightharpoonup> nat) \<Rightarrow> cn_env \<Rightarrow> cn_event \<Rightarrow> 'p connector \<Rightarrow> 'p connector option" where
  "cn_step upd rem tab env (CnStart inLoop) s = cn_start upd env inLoop s"
| "cn_step upd rem tab env CnStop s = Some (cn_stop s)"
| "cn_step upd rem tab env CnRestart s = cn_restart upd env s"
| "cn_step upd rem tab env (CnIO revents err self halts) s =
     MChannel_handleEvent (cn_handler_run upd rem err self halts) cn_chan cn_modify (\<lambda>_. True) (cn_modify (set_revents revents) s)"
| "cn_step upd rem tab env CnTimer s = cn_startInLoop upd env (s\<lparr>cn_timers := tl (cn_timers s)\<rparr>)"
| "cn_step upd rem tab env CnPending s = run_ops (cn_run_functor upd rem tab env) (cn_pending s) (s\<lparr>cn_pending := []\<rparr>)"

text \<open>How the class is to be used: \<open>start\<close> not while an attempt or a retry is under way, \<open>restart\<close> after a connection was made. An event comes
  only from a registered channel. A timer waits for half a second at least, and in that time the loop has run the functors that were queued
  when it was armed.\<close>

fun cn_allowed :: "cn_event \<Rightarrow> 'p connector \<Rightarrow> bool" where
  "cn_allowed (CnStart inLoop) s \<longleftrightarrow>
     cn_state s = CnDisconnected \<and> cn_channel s = None \<and> cn_timers s = [] \<and> CnStartF \<notin> set (cn_pending s)"
| "cn_allowed CnRestart s \<longleftrightarrow> cn_state s = CnConnected \<and> CnResetF \<notin> set (cn_pending s)"
| "cn_allowed (CnIO revents err self halts) s \<longleftrightarrow> cn_channel s \<noteq> None \<and> mc_addedToLoop (cn_chan s)"
| "cn_allowed CnTimer s \<longleftrightarrow> cn_timers s \<noteq> [] \<and> CnResetF \<notin> set (cn_pending s)"
| "cn_allowed _ s \<longleftrightarrow> True"

fun cn_possible ::
    "(cn_handler, 'p) poller_call \<Rightarrow> (cn_handler, 'p) poller_call \<Rightarrow> ('p \<Rightarrow> int \<rightharpoonup> nat) \<Rightarrow> cn_env \<Rightarrow> cn_event list \<Rightarrow> 'p connector \<Rightarrow> bool" where
  "cn_possible upd rem tab env [] s \<longleftrightarrow> True"
| "cn_possible upd rem tab env (e # es) s \<longleftrightarrow>
     cn_allowed e s \<and> (case cn_step upd rem tab env e s of None \<Rightarrow> True | Some s' \<Rightarrow> cn_possible upd rem tab env es s')"

text \<open>The n-th delay, and what a connector guarantees.\<close>

definition backoff :: "nat \<Rightarrow> int" where
  "backoff n = min (500 * 2 ^ n) 30000"

text \<open>The last attempt met an error of \<open>connect\<close> after which the code neither waits nor tries again.\<close>

definition connect_final :: "unit sys \<Rightarrow> bool" where
  "connect_final r = (case r of Ok _ \<Rightarrow> False | Fail e \<Rightarrow> \<not> connect_goes_on e \<and> \<not> connect_again e)"

definition cn_gave_up :: "cn_env \<Rightarrow> 'p connector \<Rightarrow> bool" where
  "cn_gave_up env s \<longleftrightarrow> 0 < cn_attempts s \<and> connect_final (ce_connect env (cn_attempts s - 1))"

definition cn_correct :: "('p \<Rightarrow> int \<Rightarrow> u32) \<Rightarrow> cn_env \<Rightarrow> 'p connector \<Rightarrow> bool" where
  "cn_correct watch env s \<longleftrightarrow>
     (if cn_state s = CnConnecting
      then \<exists>fd. mset (map (ce_socket env) [0..<cn_attempts s]) = mset (cn_closed s) + mset (cn_given s) + {#fd#} \<and>
           watch (snd (cn_poll s)) = (\<lambda>_. 0)(fd := kWriteEvent)
      else mset (map (ce_socket env) [0..<cn_attempts s]) = mset (cn_closed s) + mset (cn_given s) \<and>
           watch (snd (cn_poll s)) = (\<lambda>_. 0)) \<and>
     cn_delays s = map backoff [0..<length (cn_delays s)] \<and>
     length (cn_timers s) \<le> 1 \<and>
     (cn_connectFlag s \<and> cn_state s = CnDisconnected \<longrightarrow> cn_timers s \<noteq> [] \<or> CnStartF \<in> set (cn_pending s) \<or> cn_gave_up env s) \<and>
     (\<not> cn_connectFlag s \<and> cn_state s = CnConnecting \<longrightarrow> CnStopF \<in> set (cn_pending s)) \<and>
     (cn_state s \<noteq> CnConnecting \<and> CnResetF \<notin> set (cn_pending s) \<longrightarrow> Connector_dtor s = Some ())"

section \<open>The channel of a connector\<close>

text \<open>A connector has no channel, one that waits for the connection, or one that was removed and will be reset.\<close>

datatype cn_mode = NoChannel | Waiting nat int | Leaving nat

definition cn_wired :: "cn_handler MChannel \<Rightarrow> bool" where
  "cn_wired c \<longleftrightarrow> mc_readCallback c = None \<and> mc_closeCallback c = None \<and> mc_writeCallback c = Some CnWrite \<and>
     mc_errorCallback c = Some CnError \<and> \<not> mc_tied c"

fun cn_sp :: "cn_mode \<Rightarrow> chan_spec \<Rightarrow> bool" where
  "cn_sp NoChannel sp \<longleftrightarrow> sp_owner sp = Map.empty"
| "cn_sp (Waiting a fd) sp \<longleftrightarrow> sp_chan sp a = Some (Active fd kWriteEvent) \<and> sp_owner sp = [fd \<mapsto> a]"
| "cn_sp (Leaving a) sp \<longleftrightarrow> sp_chan sp a = Some Gone \<and> sp_owner sp = Map.empty"

fun cn_address :: "cn_mode \<Rightarrow> nat option" where
  "cn_address NoChannel = None"
| "cn_address (Waiting a fd) = Some a"
| "cn_address (Leaving a) = Some a"

lemma frame_wired:
  assumes "map_option chan_frame x = map_option chan_frame (Some c)"
  obtains d where "x = Some d" "cn_wired d = cn_wired c" "mc_revents d = mc_revents c" "mc_fd d = mc_fd c"
proof -
  obtain d where d: "x = Some d" "chan_frame d = chan_frame c" using assms by auto
  then have "cn_wired d = cn_wired c" "mc_revents d = mc_revents c" "mc_fd d = mc_fd c"
    by (cases c; cases d; simp add: chan_frame_def cn_wired_def)+
  then show ?thesis using that d by blast
qed

section \<open>The invariant\<close>

definition cn_delays_ok :: "'p connector \<Rightarrow> bool" where
  "cn_delays_ok s \<longleftrightarrow> cn_delays s = map backoff [0..<length (cn_delays s)] \<and> cn_retryDelayMs s = backoff (length (cn_delays s))"

definition cn_sockets :: "cn_env \<Rightarrow> 'p connector \<Rightarrow> int multiset \<Rightarrow> bool" where
  "cn_sockets env s M \<longleftrightarrow> mset (map (ce_socket env) [0..<cn_attempts s]) = mset (cn_closed s) + mset (cn_given s) + M"

text \<open>\<open>q\<close> are the functors that are still to be run, in this round and the next. In \<open>cn_hold\<close> a socket was made or taken from its channel and is
  neither closed nor handed over yet.\<close>

definition cn_data :: "cn_env \<Rightarrow> cn_functor list \<Rightarrow> cn_mode \<Rightarrow> 'p connector \<Rightarrow> bool" where
  "cn_data env q md s \<longleftrightarrow>
     (cn_state s = CnConnecting \<longleftrightarrow> (\<exists>a fd. md = Waiting a fd)) \<and>
     count_list q CnResetF = (case md of Leaving a \<Rightarrow> 1 | _ \<Rightarrow> 0) \<and>
     (CnStartF \<in> set q \<longrightarrow> md = NoChannel) \<and>
     length (cn_timers s) + count_list q CnStartF \<le> (if cn_state s = CnDisconnected then 1 else 0) \<and>
     cn_delays_ok s \<and>
     (cn_connectFlag s \<and> cn_state s = CnDisconnected \<longrightarrow> cn_timers s \<noteq> [] \<or> CnStartF \<in> set q \<or> cn_gave_up env s) \<and>
     (\<not> cn_connectFlag s \<and> cn_state s = CnConnecting \<longrightarrow> CnStopF \<in> set q) \<and>
     cn_sockets env s (case md of Waiting a fd \<Rightarrow> {#fd#} | _ \<Rightarrow> {#})"

definition cn_hold :: "cn_env \<Rightarrow> cn_functor list \<Rightarrow> cn_mode \<Rightarrow> int multiset \<Rightarrow> 'p connector \<Rightarrow> bool" where
  "cn_hold env q md M s \<longleftrightarrow>
     (\<forall>a fd. md \<noteq> Waiting a fd) \<and> count_list q CnResetF = (case md of Leaving a \<Rightarrow> 1 | _ \<Rightarrow> 0) \<and> CnStartF \<notin> set q \<and>
     cn_timers s = [] \<and> cn_delays_ok s \<and> cn_sockets env s M"

lemma backoff_next: "min (backoff n * 2) kMaxRetryDelayMs = backoff (Suc n)"
  by (auto simp: backoff_def kMaxRetryDelayMs_def)

lemma count_list_0: "count_list q x = 0 \<longleftrightarrow> x \<notin> set q"
  by (rule count_list_0_iff)

lemma cn_chan_cong: "cn_poll s' = cn_poll s \<Longrightarrow> cn_channel s' = cn_channel s \<Longrightarrow> cn_chan s' = cn_chan s"
  unfolding cn_chan_def by (simp only:)

lemma retry_simps [simp]:
  "cn_pending (cn_retry fd s) = cn_pending s" "cn_poll (cn_retry fd s) = cn_poll s" "cn_next (cn_retry fd s) = cn_next s"
  "cn_channel (cn_retry fd s) = cn_channel s" "cn_state (cn_retry fd s) = CnDisconnected"
  by (simp_all add: cn_retry_def cn_close_def Let_def)

lemma close_simps [simp]:
  "cn_pending (cn_close fd s) = cn_pending s" "cn_poll (cn_close fd s) = cn_poll s" "cn_next (cn_close fd s) = cn_next s"
  "cn_channel (cn_close fd s) = cn_channel s" "cn_state (cn_close fd s) = cn_state s"
  by (simp_all add: cn_close_def)

lemma retry_data: "cn_hold env q md {#fd#} s \<Longrightarrow> cn_data env q md (cn_retry fd s)"
  using backoff_next [of "length (cn_delays s)"]
  by (auto simp: cn_hold_def cn_data_def cn_retry_def cn_close_def Let_def cn_delays_ok_def cn_sockets_def cn_gave_up_def split: cn_mode.splits)

lemma close_data:
  "cn_hold env q md {#fd#} s \<Longrightarrow> cn_state s \<noteq> CnConnecting \<Longrightarrow> cn_state s = CnDisconnected \<and> cn_connectFlag s \<longrightarrow> cn_gave_up env s \<Longrightarrow>
   cn_data env q md (cn_close fd s)"
  by (auto simp: cn_hold_def cn_data_def cn_close_def cn_delays_ok_def cn_sockets_def cn_gave_up_def split: cn_mode.splits)

lemma give_data:
  "cn_hold env q md {#fd#} s \<Longrightarrow> cn_state s = CnConnected \<Longrightarrow> cn_data env q md (s\<lparr>cn_given := cn_given s @ [fd]\<rparr>)"
  by (auto simp: cn_hold_def cn_data_def cn_delays_ok_def cn_sockets_def cn_gave_up_def split: cn_mode.splits)

lemma waiting_data:
  "cn_hold env q NoChannel {#fd#} s \<Longrightarrow> cn_connectFlag s \<Longrightarrow> cn_state s' = CnConnecting \<Longrightarrow> cn_connectFlag s' = cn_connectFlag s \<Longrightarrow>
   cn_timers s' = cn_timers s \<Longrightarrow> cn_delays s' = cn_delays s \<Longrightarrow> cn_retryDelayMs s' = cn_retryDelayMs s \<Longrightarrow> cn_attempts s' = cn_attempts s \<Longrightarrow>
   cn_closed s' = cn_closed s \<Longrightarrow> cn_given s' = cn_given s \<Longrightarrow> cn_data env q (Waiting a fd) s'"
  by (auto simp: cn_hold_def cn_data_def cn_delays_ok_def cn_sockets_def cn_gave_up_def)

lemma attempt_hold:
  "cn_hold env q md {#} s \<Longrightarrow> cn_hold env q md {#ce_socket env (cn_attempts s)#} (s\<lparr>cn_attempts := cn_attempts s + 1\<rparr>)"
  by (auto simp: cn_hold_def cn_delays_ok_def cn_sockets_def cn_gave_up_def)

lemma removed_hold:
  "cn_data env q (Waiting a fd) s \<Longrightarrow> cn_hold env (q @ [CnResetF]) (Leaving a) {#fd#} (s\<lparr>cn_state := st, cn_poll := w, cn_pending := pe\<rparr>)"
  by (auto simp: cn_hold_def cn_data_def cn_delays_ok_def cn_sockets_def cn_gave_up_def count_list_append split: if_splits)

lemma modify_data [simp]: "cn_pending (cn_modify f s) = cn_pending s" "cn_data env q md (cn_modify f s) = cn_data env q md s"
  by (cases "cn_channel s"; simp add: cn_modify_def cn_data_def cn_delays_ok_def cn_sockets_def cn_gave_up_def)+

lemma stop_data: "cn_data env q md s \<Longrightarrow> cn_data env (q @ [CnStopF]) md (cn_stop s)"
  by (auto simp: cn_data_def cn_stop_def cn_queueInLoop_def cn_delays_ok_def cn_sockets_def cn_gave_up_def count_list_append)

locale cn_poller = channel_poller update remove inv table watch removable new
  for update :: "nat \<Rightarrow> cn_handler chans \<times> 'p \<Rightarrow> (cn_handler chans \<times> 'p) option"
    and remove inv table watch removable and new :: 'p
begin

definition cn_sim :: "nat set \<Rightarrow> cn_mode \<Rightarrow> 'p connector \<Rightarrow> bool" where
  "cn_sim B md s \<longleftrightarrow> cn_channel s = cn_address md \<and>
     (\<exists>sp. sim B (cn_poll s) sp \<and> (\<forall>b \<ge> cn_next s. sp_chan sp b = None) \<and> cn_sp md sp) \<and>
     (\<forall>a. cn_address md = Some a \<longrightarrow> (\<exists>c. fst (cn_poll s) a = Some c \<and> cn_wired c))"

lemma cn_simE:
  assumes "cn_sim B md s"
  obtains sp where "sim B (fst (cn_poll s), snd (cn_poll s)) sp" "\<And>b. cn_next s \<le> b \<Longrightarrow> sp_chan sp b = None" "cn_sp md sp"
    "cn_channel s = cn_address md"
  using assms unfolding cn_sim_def by auto

lemma cn_sim_cong:
  "cn_poll s' = cn_poll s \<Longrightarrow> cn_next s' = cn_next s \<Longrightarrow> cn_channel s' = cn_channel s \<Longrightarrow> cn_sim B md s' = cn_sim B md s"
  by (simp add: cn_sim_def)

lemma cn_sim_watch:
  assumes "cn_sim B md s"
  shows "watch (snd (cn_poll s)) = (case md of Waiting a fd \<Rightarrow> (\<lambda>_. 0)(fd := kWriteEvent) | _ \<Rightarrow> (\<lambda>_. 0))"
proof -
  obtain sp where sp: "sim B (fst (cn_poll s), snd (cn_poll s)) sp" "cn_sp md sp" using cn_simE [OF assms] by blast
  have "watch (snd (cn_poll s)) = spec_watch sp" using sim_watch [OF sp(1)] by blast
  then show ?thesis using sp(2) by (cases md) (auto simp: spec_watch_def fun_eq_iff)
qed

lemma remove_channel_ok:
  assumes "cn_sim B (Waiting a fd) s"
  shows "returns (removeAndResetChannel update remove s) (\<lambda>(x, s'). x = fd \<and> cn_sim B (Leaving a) s' \<and>
    mc_revents (cn_chan s') = mc_revents (cn_chan s) \<and>
    s' = s\<lparr>cn_poll := cn_poll s', cn_pending := cn_pending s @ [CnResetF]\<rparr>)"
proof -
  obtain sp where sp: "sim B (fst (cn_poll s), snd (cn_poll s)) sp" "\<And>b. cn_next s \<le> b \<Longrightarrow> sp_chan sp b = None"
    and ac: "sp_chan sp a = Some (Active fd kWriteEvent)" "sp_owner sp = [fd \<mapsto> a]" and ch: "cn_channel s = Some a"
    using cn_simE [OF assms] by auto
  obtain c where c: "fst (cn_poll s) a = Some c" "cn_wired c" using assms by (auto simp: cn_sim_def)
  have fd: "mc_fd c = fd" using simD(4) [OF sp(1) c(1) ac(1)] by (simp add: phase_ok_def)
  define sp1 where "sp1 = sp\<lparr>sp_chan := (sp_chan sp)(a \<mapsto> Active fd 0)\<rparr>"
  define sp2 where "sp2 = sp1\<lparr>sp_chan := (sp_chan sp1)(a \<mapsto> Gone), sp_owner := (sp_owner sp1)(fd := None)\<rparr>"
  have m: "spec_mask (\<lambda>m. kNoneEvent) a sp = Some sp1" using ac by (simp add: spec_mask_def sp1_def kNoneEvent_def)
  have r: "spec_step (RemoveChan a) sp1 = Some sp2" by (simp add: sp1_def sp2_def)
  have "returns (disableAll update a (cn_poll s)) (\<lambda>w. sim B w sp1 \<and> map_option chan_frame (fst w a) = map_option chan_frame (Some c))"
    using sim_mask_frame [where b = a, OF sp(1) m] mask_ok_ops(5) by (simp add: disableAll_def c)
  then obtain w1 where
    w1: "disableAll update a (cn_poll s) = Some w1" "sim B (fst w1, snd w1) sp1" "map_option chan_frame (fst w1 a) = map_option chan_frame (Some c)"
    by (auto simp: returns_iff)
  from sim_remove_frame [OF w1(2) r, where b = a] obtain w2 where
    w2: "MChannel_remove remove a w1 = Some w2" "sim B w2 sp2" "map_option chan_frame (fst w2 a) = map_option chan_frame (Some c)"
    using w1(3) by (auto simp: returns_iff)
  obtain d where d: "fst w2 a = Some d" "cn_wired d" "mc_revents d = mc_revents c" "mc_fd d = fd"
    using frame_wired [OF w2(3)] c(2) fd by metis
  have "cn_sp (Leaving a) sp2" using ac by (simp add: sp1_def sp2_def)
  moreover have "sp_chan sp2 b = None" if "cn_next s \<le> b" for b using sp(2) [OF that] ac by (auto simp: sp1_def sp2_def)
  ultimately have "cn_sim B (Leaving a) (cn_queueInLoop CnResetF (s\<lparr>cn_poll := w2\<rparr>))"
    using w2(2) d ch by (auto simp: cn_sim_def cn_queueInLoop_def)
  then show ?thesis using w1(1) w2(1) d ch c by (simp add: removeAndResetChannel_def cn_queueInLoop_def cn_chan_def)
qed

lemma connecting_ok:
  assumes "cn_sim B NoChannel s" and fd: "0 \<le> fd" and B: "cn_next s \<notin> B"
  shows "returns (connecting update fd s) (\<lambda>s'. cn_sim B (Waiting (cn_next s) fd) s' \<and>
    s' = s\<lparr>cn_state := CnConnecting, cn_channel := Some (cn_next s), cn_next := cn_next s + 1, cn_poll := cn_poll s'\<rparr>)"
proof -
  let ?a = "cn_next s"
  obtain sp where sp: "sim B (fst (cn_poll s), snd (cn_poll s)) sp" "\<And>b. ?a \<le> b \<Longrightarrow> sp_chan sp b = None"
    and ac: "sp_owner sp = Map.empty" and ch: "cn_channel s = None"
    using cn_simE [OF assms(1)] by auto
  define sp1 where "sp1 = sp\<lparr>sp_chan := (sp_chan sp)(?a \<mapsto> Fresh fd)\<rparr>"
  define sp2 where "sp2 = sp1\<lparr>sp_chan := (sp_chan sp1)(?a \<mapsto> Active fd kWriteEvent), sp_owner := [fd \<mapsto> ?a]\<rparr>"
  let ?f = "\<lambda>c. setErrorCallback CnError (setWriteCallback CnWrite c)"
  let ?chs = "(fst (cn_poll s))(?a \<mapsto> ?f (MChannel_new fd))"
  have n: "fst (cn_poll s) ?a = None" using simD(3) [OF sp(1)] sp(2) by simp
  have "spec_step (Create ?a fd) sp = Some sp1" using sp(2) fd by (simp add: sp1_def)
  from sim_create [OF sp(1) this] have 1: "sim B ((fst (cn_poll s))(?a \<mapsto> MChannel_new fd), snd (cn_poll s)) sp1" using n by simp
  have "sim B (at_channel ?a ?f ((fst (cn_poll s))(?a \<mapsto> MChannel_new fd)), snd (cn_poll s)) sp1"
    by (rule sim_change [OF 1]) (use B in \<open>simp_all add: setErrorCallback_def setWriteCallback_def\<close>)
  then have 2: "sim B (?chs, snd (cn_poll s)) sp1" by (simp add: at_channel_def)
  have m: "spec_mask (\<lambda>m. m OR kWriteEvent) ?a sp1 = Some sp2"
    using ac by (simp add: spec_mask_def sp1_def sp2_def kWriteEvent_def EPOLLOUT_def)
  have "returns (enableWriting update ?a (?chs, snd (cn_poll s)))
    (\<lambda>w. sim B w sp2 \<and> map_option chan_frame (fst w ?a) = map_option chan_frame (Some (?f (MChannel_new fd))))"
    using sim_mask_frame [where b = ?a, OF 2 m] mask_ok_ops(3) by (simp add: enableWriting_def)
  then obtain w1 where
    w1: "enableWriting update ?a (?chs, snd (cn_poll s)) = Some w1" "sim B w1 sp2"
      "map_option chan_frame (fst w1 ?a) = map_option chan_frame (Some (?f (MChannel_new fd)))"
    by (auto simp: returns_iff)
  obtain d where d: "fst w1 ?a = Some d" "cn_wired d" using frame_wired [OF w1(3)]
    by (auto simp: cn_wired_def setErrorCallback_def setWriteCallback_def MChannel_new_def)
  have "sp_chan sp2 b = None" if "?a + 1 \<le> b" for b using sp(2) [of b] that by (simp add: sp1_def sp2_def)
  then have "cn_sim B (Waiting ?a fd) (s\<lparr>cn_state := CnConnecting, cn_channel := Some ?a, cn_next := ?a + 1, cn_poll := w1\<rparr>)"
    using w1(2) d by (auto simp: cn_sim_def sp2_def)
  then show ?thesis using w1(1) ch by (simp add: connecting_def Let_def)
qed

lemma reset_ok:
  assumes "cn_sim B (Leaving a) s" and B: "a \<notin> B"
  shows "returns (resetChannel update remove table s) (\<lambda>s'. cn_sim B NoChannel s' \<and> s' = s\<lparr>cn_channel := None, cn_poll := cn_poll s'\<rparr>)"
proof -
  obtain sp where sp: "sim B (fst (cn_poll s), snd (cn_poll s)) sp" "\<And>b. cn_next s \<le> b \<Longrightarrow> sp_chan sp b = None"
    and ac: "sp_chan sp a = Some Gone" "sp_owner sp = Map.empty" and ch: "cn_channel s = Some a"
    using cn_simE [OF assms(1)] by auto
  define sp1 where "sp1 = sp\<lparr>sp_chan := (sp_chan sp)(a := None)\<rparr>"
  have "spec_step (Destroy a) sp = Some sp1" using ac by (simp add: sp1_def)
  from sim_destroy [OF sp(1) this B] obtain w where w: "chan_step update remove table (Destroy a) (cn_poll s) = Some w" "sim B w sp1"
    by (auto simp: returns_iff)
  have "cn_sim B NoChannel (s\<lparr>cn_channel := None, cn_poll := w\<rparr>)"
    using w(2) sp(2) ac by (auto simp: cn_sim_def sp1_def)
  then show ?thesis using w(1) ch by (simp add: resetChannel_def del: chan_step.simps)
qed

lemma cn_modify_ok:
  assumes s: "cn_sim B md s" and a: "cn_address md = Some a" and f: "\<And>c. mc_fd (f c) = mc_fd c \<and> mc_index (f c) = mc_index c \<and> mc_events (f c) = mc_events c \<and>
      mc_addedToLoop (f c) = mc_addedToLoop c \<and> cn_wired (f c) = cn_wired c"
    and B: "insert a B = insert a B'" and h: "a \<notin> B' \<Longrightarrow> \<forall>c. mc_eventHandling (f c) \<longrightarrow> a \<notin> B \<and> mc_eventHandling c"
  shows "cn_sim B' md (cn_modify f s)"
proof -
  obtain sp where sp: "sim B (fst (cn_poll s), snd (cn_poll s)) sp" "\<And>b. cn_next s \<le> b \<Longrightarrow> sp_chan sp b = None" "cn_sp md sp"
    and ch: "cn_channel s = Some a" using cn_simE [OF s] a by auto
  obtain c where c: "fst (cn_poll s) a = Some c" "cn_wired c" using s a by (auto simp: cn_sim_def)
  have "sim B' (at_channel a f (fst (cn_poll s)), snd (cn_poll s)) sp"
    by (rule sim_change [OF sp(1) _ B]) (use f h in blast)+
  then show ?thesis using sp(2,3) ch a c f [of c] by (auto simp: cn_sim_def cn_modify_def)
qed

lemma cn_modify_chan: "cn_sim B md s \<Longrightarrow> cn_address md = Some a \<Longrightarrow> cn_chan (cn_modify f s) = f (cn_chan s)"
  by (auto simp: cn_sim_def cn_chan_def cn_modify_def)

text \<open>What the operations keep; sockets are non-negative.\<close>

definition cn_ok :: "cn_env \<Rightarrow> nat set \<Rightarrow> cn_functor list \<Rightarrow> 'p connector \<Rightarrow> bool" where
  "cn_ok env B fs s \<longleftrightarrow> (\<exists>md. cn_sim B md s \<and> cn_data env (fs @ cn_pending s) md s)"

lemma cn_okI: "cn_sim B md s \<Longrightarrow> cn_data env (fs @ cn_pending s) md s \<Longrightarrow> cn_ok env B fs s"
  by (auto simp: cn_ok_def)

lemma retry_ok:
  assumes "cn_sim B md s" and "cn_hold env (fs @ cn_pending s) md {#fd#} s"
  shows "cn_sim B md (cn_retry fd s)" "cn_data env (fs @ cn_pending (cn_retry fd s)) md (cn_retry fd s)"
    "cn_chan (cn_retry fd s) = cn_chan s"
  using assms retry_data [OF assms(2)] by (simp_all add: cn_sim_def cn_chan_cong [OF retry_simps(2,4)])

lemma startInLoop_ok:
  assumes env: "\<And>n. 0 \<le> ce_socket env n" and s: "cn_sim {} NoChannel s" and h: "cn_hold env (fs @ cn_pending s) NoChannel {#} s"
    and st: "cn_state s = CnDisconnected"
  shows "returns (cn_startInLoop update env s) (cn_ok env {} fs)"
proof (cases "cn_connectFlag s")
  case True
  let ?s = "s\<lparr>cn_attempts := cn_attempts s + 1\<rparr>" and ?fd = "ce_socket env (cn_attempts s)"
  have sim1: "cn_sim {} NoChannel ?s" using s by (simp add: cn_sim_def)
  have h1: "cn_hold env (fs @ cn_pending ?s) NoChannel {#?fd#} ?s" using attempt_hold [OF h] by simp
  have c: "returns (connecting update ?fd ?s) (cn_ok env {} fs)"
    using connecting_ok [OF sim1 env]
  proof (rule returns_mono)
    fix s' assume a: "cn_sim {} (Waiting (cn_next ?s) ?fd) s' \<and>
      s' = ?s\<lparr>cn_state := CnConnecting, cn_channel := Some (cn_next ?s), cn_next := cn_next ?s + 1, cn_poll := cn_poll s'\<rparr>"
    define w where "w = cn_poll s'"
    have s': "s' = ?s\<lparr>cn_state := CnConnecting, cn_channel := Some (cn_next ?s), cn_next := cn_next ?s + 1, cn_poll := w\<rparr>"
      using a unfolding w_def by blast
    have "cn_data env (fs @ cn_pending s') (Waiting (cn_next ?s) ?fd) s'"
      by (rule waiting_data [where s = ?s]) (use h1 True in \<open>simp_all add: s'\<close>)
    then show "cn_ok env {} fs s'" using cn_okI a by blast
  qed simp
  have r: "cn_ok env {} fs (cn_retry ?fd ?s)"
    by (rule cn_okI [OF retry_ok(1,2)]) (use sim1 h1 in simp_all)
  have g: "cn_ok env {} fs (cn_close ?fd ?s)" if "connect_final (ce_connect env (cn_attempts s))"
    by (rule cn_okI [where md = NoChannel])
      (use sim1 close_data [OF h1] st that in \<open>simp_all add: cn_sim_def cn_gave_up_def\<close>)
  show ?thesis using True st c r g by (simp add: cn_startInLoop_def cn_connect_def connect_final_def Let_def split: sys.splits)
next
  case False
  then have "cn_data env (fs @ cn_pending s) NoChannel s" using h st by (auto simp: cn_hold_def cn_data_def count_list_0)
  then show ?thesis using False st cn_okI [OF s] by (simp add: cn_startInLoop_def)
qed

lemma removed_ok:
  assumes s: "cn_sim B (Waiting a fd) s" and d: "cn_data env (fs @ cn_pending s) (Waiting a fd) s"
  shows "returns (removeAndResetChannel update remove (s\<lparr>cn_state := st\<rparr>)) (\<lambda>(x, s'). x = fd \<and> cn_sim B (Leaving a) s' \<and>
    cn_hold env (fs @ cn_pending s') (Leaving a) {#fd#} s' \<and> cn_state s' = st \<and> cn_connectFlag s' = cn_connectFlag s \<and>
    mc_revents (cn_chan s') = mc_revents (cn_chan s))"
proof -
  have "cn_sim B (Waiting a fd) (s\<lparr>cn_state := st\<rparr>)" using s by (simp add: cn_sim_def)
  then show ?thesis
  proof (rule returns_mono [OF remove_channel_ok], clarify, goal_cases)
    case (1 x s')
    define w where "w = cn_poll s'"
    have s': "s' = s\<lparr>cn_state := st, cn_poll := w, cn_pending := cn_pending s @ [CnResetF]\<rparr>" using 1(4) unfolding w_def by simp
    have "cn_hold env (fs @ cn_pending s') (Leaving a) {#fd#} s'" using removed_hold [OF d] unfolding s' by simp
    moreover have "cn_chan (s\<lparr>cn_state := st\<rparr>) = cn_chan s" by (rule cn_chan_cong) simp_all
    moreover have "cn_state s' = st" "cn_connectFlag s' = cn_connectFlag s" unfolding s' by simp_all
    ultimately show ?case using 1(2,3) by simp
  qed
qed

lemma stopInLoop_ok:
  assumes s: "cn_sim {} md s" and d: "cn_data env (CnStopF # fs @ cn_pending s) md s"
  shows "returns (cn_stopInLoop update remove s) (cn_ok env {} fs)"
proof (cases "cn_state s = CnConnecting")
  case True
  then obtain a fd where md: "md = Waiting a fd" using d by (auto simp: cn_data_def)
  have h: "cn_hold env (fs @ cn_pending s') md' M s'" if "cn_hold env (CnStopF # fs @ cn_pending s') md' M s'" for md' M and s' :: "'p connector"
    using that by (simp add: cn_hold_def)
  have d': "cn_data env ((CnStopF # fs) @ cn_pending s) (Waiting a fd) s" using d md by simp
  show ?thesis unfolding cn_stopInLoop_def using True
    returns_mono [OF removed_ok [OF s [unfolded md] d', where st = CnDisconnected]]
    by (simp add: split_def) (metis (no_types, lifting) append_Cons cn_okI h retry_ok(1,2) returns_mono)
next
  case False
  then have "cn_data env (fs @ cn_pending s) md s" using d by (auto simp: cn_data_def)
  then show ?thesis using False cn_okI [OF s] by (simp add: cn_stopInLoop_def)
qed

lemma cn_functor_ok:
  assumes env: "\<And>n. 0 \<le> ce_socket env n" and ok: "cn_ok env {} (f # fs) s"
  shows "returns (cn_run_functor update remove table env f s) (cn_ok env {} fs)"
proof -
  obtain md where s: "cn_sim {} md s" and d: "cn_data env (f # fs @ cn_pending s) md s" using ok by (auto simp: cn_ok_def)
  show ?thesis
  proof (cases f)
    case CnStartF
    then have md: "md = NoChannel" and st: "cn_state s = CnDisconnected" using d by (auto simp: cn_data_def split: if_splits)
    have "cn_hold env (fs @ cn_pending s) NoChannel {#} s" using d CnStartF md by (auto simp: cn_data_def cn_hold_def count_list_0 split: if_splits)
    then show ?thesis using startInLoop_ok [OF env, of s fs] s md st CnStartF by simp
  next
    case CnStopF
    then show ?thesis using stopInLoop_ok [OF s] d by simp
  next
    case CnResetF
    then obtain a where md: "md = Leaving a" using d by (auto simp: cn_data_def split: cn_mode.splits)
    have "returns (resetChannel update remove table s) (cn_ok env {} fs)" using reset_ok [OF s [unfolded md], simplified]
    proof (rule returns_mono)
      fix s' assume a: "cn_sim {} NoChannel s' \<and> s' = s\<lparr>cn_channel := None, cn_poll := cn_poll s'\<rparr>"
      define w where "w = cn_poll s'"
      have s': "s' = s\<lparr>cn_channel := None, cn_poll := w\<rparr>" using a unfolding w_def by blast
      have "cn_data env (fs @ cn_pending s') NoChannel s'" using d md CnResetF
        by (auto simp: s' cn_data_def cn_delays_ok_def cn_sockets_def cn_gave_up_def)
      then show "cn_ok env {} fs s'" using cn_okI a by blast
    qed
    then show ?thesis using CnResetF by simp
  qed
qed

lemma cn_functors_ok:
  assumes env: "\<And>n. 0 \<le> ce_socket env n"
  shows "cn_ok env {} fs s \<Longrightarrow> returns (run_ops (cn_run_functor update remove table env) fs s) (cn_ok env {} [])"
  by (induction fs arbitrary: s) (auto intro: returns_mono [OF cn_functor_ok [OF env]])

text \<open>An event of the channel: first the error handler, then the write handler.\<close>

definition io_ok :: "cn_env \<Rightarrow> nat \<Rightarrow> u32 \<Rightarrow> 'p connector \<Rightarrow> bool" where
  "io_ok env a re x \<longleftrightarrow> (\<exists>md. cn_sim {a} md x \<and> cn_data env (cn_pending x) md x \<and> cn_address md = Some a \<and> mc_revents (cn_chan x) = re)"

lemma cn_sim_wired: "cn_sim B md x \<Longrightarrow> cn_address md = Some a \<Longrightarrow> cn_wired (cn_chan x)"
  by (auto simp: cn_sim_def cn_chan_def)

lemma io_removed:
  assumes "cn_sim {a} (Waiting a fd) x" "cn_data env (cn_pending x) (Waiting a fd) x" "mc_revents (cn_chan x) = re"
    and f: "\<And>s'. \<lbrakk>cn_sim {a} (Leaving a) s'; cn_hold env (cn_pending s') (Leaving a) {#fd#} s'; mc_revents (cn_chan s') = re;
        cn_state s' = CnConnecting\<rbrakk> \<Longrightarrow> P (fd, s')"
  shows "returns (removeAndResetChannel update remove x) P"
proof -
  have "cn_state x = CnConnecting" using assms(2) by (auto simp: cn_data_def)
  then have x: "x\<lparr>cn_state := CnConnecting\<rparr> = x" by simp
  show ?thesis
    by (rule returns_mono [OF removed_ok [where st = CnConnecting and fs = "[]" and s = x, unfolded x]])
      (use assms in auto)
qed

lemma io_retry:
  assumes "cn_sim {a} (Leaving a) s" "cn_hold env (cn_pending s) (Leaving a) {#fd#} s" "mc_revents (cn_chan s) = re"
  shows "io_ok env a re (cn_retry fd s)"
  unfolding io_ok_def using retry_ok [OF assms(1), of env "[]" fd] assms(2,3) by (intro exI [of _ "Leaving a"]) simp

lemma handleError_ok:
  assumes "cn_sim {a} (Waiting a fd) x" "cn_data env (cn_pending x) (Waiting a fd) x" "mc_revents (cn_chan x) = re"
  shows "returns (cn_handleError update remove x) (\<lambda>y. io_ok env a re y \<and> cn_state y = CnDisconnected)"
proof -
  have "cn_state x = CnConnecting" using assms(2) by (auto simp: cn_data_def)
  moreover have "returns (removeAndResetChannel update remove x) (\<lambda>(fd, s'). io_ok env a re (cn_retry fd s'))"
    by (rule io_removed [OF assms]) (use io_retry in auto)
  ultimately show ?thesis by (simp add: cn_handleError_def split_def)
qed

lemma handleWrite_ok:
  assumes "io_ok env a re x" "cn_state x \<noteq> CnConnected"
  shows "returns (cn_handleWrite update remove err self halts x) (io_ok env a re)"
proof (cases "cn_state x")
  case CnConnecting
  obtain md where md: "cn_sim {a} md x" "cn_data env (cn_pending x) md x" "cn_address md = Some a" "mc_revents (cn_chan x) = re"
    using assms(1) by (auto simp: io_ok_def)
  then obtain fd where m: "md = Waiting a fd" using CnConnecting by (auto simp: cn_data_def)
  let ?rest = "\<lambda>fd s1. if err \<noteq> 0 \<or> self then cn_retry fd s1
     else if cn_connectFlag s1 then let s3 = s1\<lparr>cn_state := CnConnected, cn_given := cn_given s1 @ [fd]\<rparr> in if halts then cn_stop s3 else s3
     else cn_close fd (s1\<lparr>cn_state := CnConnected\<rparr>)"
  have "io_ok env a re (?rest fd s1)"
    if s1: "cn_sim {a} (Leaving a) s1" "cn_hold env (cn_pending s1) (Leaving a) {#fd#} s1" "mc_revents (cn_chan s1) = re" for s1
  proof -
    let ?s = "s1\<lparr>cn_state := CnConnected\<rparr>"
    have h: "cn_hold env (cn_pending s1) (Leaving a) {#fd#} ?s" using s1(2) by (simp add: cn_hold_def cn_delays_ok_def cn_sockets_def cn_gave_up_def)
    have io: "io_ok env a re y" if "cn_poll y = cn_poll s1" "cn_channel y = cn_channel s1" "cn_next y = cn_next s1"
      "cn_data env (cn_pending y) (Leaving a) y" for y
      using that s1(1,3) cn_sim_cong [of y s1 "{a}" "Leaving a"] cn_chan_cong [of y s1] by (auto simp: io_ok_def intro!: exI [of _ "Leaving a"])
    have g: "cn_data env (cn_pending s1) (Leaving a) (?s\<lparr>cn_given := cn_given ?s @ [fd]\<rparr>)" by (rule give_data [OF h]) simp
    have c: "cn_data env (cn_pending s1) (Leaving a) (cn_close fd ?s)" by (rule close_data [OF h]) simp_all
    have "io_ok env a re (cn_close fd ?s)" by (rule io) (use c in simp_all)
    moreover have "io_ok env a re (?s\<lparr>cn_given := cn_given ?s @ [fd]\<rparr>)" by (rule io) (use g in simp_all)
    moreover have "io_ok env a re (cn_stop (?s\<lparr>cn_given := cn_given ?s @ [fd]\<rparr>))"
      by (rule io) (use stop_data [OF g] in \<open>simp_all add: cn_stop_def cn_queueInLoop_def\<close>)
    ultimately show ?thesis using io_retry [OF s1] by (simp add: Let_def)
  qed
  then have "returns (removeAndResetChannel update remove x) (\<lambda>(fd, s'). io_ok env a re (?rest fd s'))"
    by (intro io_removed [OF md(1,2,4) [unfolded m]]) auto
  then show ?thesis using CnConnecting
    by (auto simp: cn_handleWrite_def split_def Let_def elim!: returns_mono)
qed (use assms in \<open>simp_all add: cn_handleWrite_def\<close>)

lemma io_wired: "io_ok env a re x \<Longrightarrow> cn_wired (cn_chan x) \<and> mc_revents (cn_chan x) = re"
  using cn_sim_wired by (auto simp: io_ok_def)

lemma io_step_ok:
  assumes ok: "cn_ok env {} [] s" and al: "cn_allowed (CnIO re err self halts) s"
  shows "returns (cn_step update remove table env (CnIO re err self halts) s) (cn_ok env {} [])"
proof -
  obtain md where s: "cn_sim {} md s" and d: "cn_data env (cn_pending s) md s" using ok by (auto simp: cn_ok_def)
  obtain sp where sp: "sim {} (fst (cn_poll s), snd (cn_poll s)) sp" "cn_sp md sp" "cn_channel s = cn_address md"
    using cn_simE [OF s] by blast
  obtain a c where a: "cn_address md = Some a" "fst (cn_poll s) a = Some c" "mc_addedToLoop c"
    using al s sp(3) by (cases "cn_address md") (auto simp: cn_sim_def cn_chan_def)
  obtain fd where md: "md = Waiting a fd"
    using a sp simD(4) [OF sp(1), of a c] by (cases md) (auto simp: phase_ok_def)
  let ?set = "set_revents re" and ?on = "\<lambda>c. c\<lparr>mc_eventHandling := True\<rparr> :: cn_handler MChannel"
  define s0 where "s0 = cn_modify ?set s"
  define s1 where "s1 = cn_modify ?on s0"
  have s0: "cn_sim {} md s0" unfolding s0_def
    by (rule cn_modify_ok [OF s a(1)]; simp add: set_revents_def cn_wired_def)
  have s1: "cn_sim {a} md s1" unfolding s1_def
    by (rule cn_modify_ok [OF s0 a(1)]; simp add: cn_wired_def)
  have re: "mc_revents (cn_chan s1) = re" unfolding s1_def cn_modify_chan [OF s0 a(1)] unfolding s0_def cn_modify_chan [OF s a(1)] by (simp add: set_revents_def)
  have "cn_pending s1 = cn_pending s" and d1: "cn_data env (cn_pending s1) md s1" using d
    by (simp_all add: s1_def s0_def)
  then have io: "io_ok env a re s1" using s1 re a by (auto simp: io_ok_def)
  let ?run = "cn_handler_run update remove err self halts"
  have fin: "cn_ok env {} [] (cn_modify (\<lambda>c. c\<lparr>mc_eventHandling := False\<rparr>) y)" if y: "io_ok env a re y" for y
  proof -
    obtain m where m: "cn_sim {a} m y" "cn_data env (cn_pending y) m y" "cn_address m = Some a" using y by (auto simp: io_ok_def)
    have "cn_sim {} m (cn_modify (\<lambda>c. c\<lparr>mc_eventHandling := False\<rparr>) y)"
      by (rule cn_modify_ok [OF m(1,3)]; simp add: cn_wired_def)
    moreover have "cn_data env ([] @ cn_pending (cn_modify (\<lambda>c. c\<lparr>mc_eventHandling := False\<rparr>) y)) m (cn_modify (\<lambda>c. c\<lparr>mc_eventHandling := False\<rparr>) y)"
      using m(2) by simp
    ultimately show ?thesis by (rule cn_okI)
  qed
  have "cn_state s1 = CnConnecting" using d1 md by (simp add: cn_data_def)
  then have e: "returns (if mc_revents (cn_chan s1) AND (EPOLLERR OR POLLNVAL) \<noteq> 0 then call_opt ?run (mc_errorCallback (cn_chan s1)) s1 else Some s1)
      (\<lambda>y. io_ok env a re y \<and> cn_state y \<noteq> CnConnected)"
    using io io_wired [OF io] returns_mono [OF handleError_ok [OF s1 [unfolded md] d1 [unfolded md] re]]
    by (simp add: call_opt_def cn_wired_def)
  have w: "returns (if mc_revents (cn_chan y) AND EPOLLOUT \<noteq> 0 then call_opt ?run (mc_writeCallback (cn_chan y)) y else Some y) (io_ok env a re)"
    if "io_ok env a re y \<and> cn_state y \<noteq> CnConnected" for y
    using that io_wired [of env a re y] handleWrite_ok [of env a re y] by (simp add: call_opt_def cn_wired_def)
  have "returns (handleEventWithGuard ?run cn_chan cn_modify s0) (cn_ok env {} [])"
    unfolding handleEventWithGuard_def Let_def s1_def [symmetric] returns_bind
  proof -
    show "returns (if mc_revents (cn_chan s1) AND EPOLLHUP \<noteq> 0 \<and> mc_revents (cn_chan s1) AND EPOLLIN = 0
        then call_opt ?run (mc_closeCallback (cn_chan s1)) s1 else Some s1)
      (\<lambda>x. returns (if mc_revents (cn_chan x) AND (EPOLLERR OR POLLNVAL) \<noteq> 0 then call_opt ?run (mc_errorCallback (cn_chan x)) x else Some x)
        (\<lambda>x. returns (if mc_revents (cn_chan x) AND (EPOLLIN OR EPOLLPRI OR POLLRDHUP) \<noteq> 0 then call_opt ?run (mc_readCallback (cn_chan x)) x else Some x)
          (\<lambda>x. returns (if mc_revents (cn_chan x) AND EPOLLOUT \<noteq> 0 then call_opt ?run (mc_writeCallback (cn_chan x)) x else Some x)
            (\<lambda>x. returns (Some (cn_modify (\<lambda>c. c\<lparr>mc_eventHandling := False\<rparr>) x)) (cn_ok env {} [])))))"
      (is "returns ?close ?next")
    proof -
      have 1: "?close = Some s1" using io_wired [OF io] by (simp add: call_opt_def cn_wired_def)
      have 2: "(if mc_revents (cn_chan y) AND (EPOLLIN OR EPOLLPRI OR POLLRDHUP) \<noteq> 0 then call_opt ?run (mc_readCallback (cn_chan y)) y else Some y) = Some y"
        if "io_ok env a re y" for y using io_wired [OF that] by (simp add: call_opt_def cn_wired_def)
      show ?thesis unfolding 1 returns_simps
        by (rule returns_mono [OF e], unfold 2 [OF conjunct1] returns_simps, rule returns_mono [OF w], blast, rule fin)
    qed
  qed
  then show ?thesis by (simp add: MChannel_handleEvent_def s0_def)
qed

lemma cn_step_ok:
  assumes env: "\<And>n. 0 \<le> ce_socket env n" and ok: "cn_ok env {} [] s" and al: "cn_allowed e s"
  shows "returns (cn_step update remove table env e s) (cn_ok env {} [])"
proof -
  obtain md where s: "cn_sim {} md s" and d: "cn_data env (cn_pending s) md s" using ok by (auto simp: cn_ok_def)
  have ch: "cn_channel s = cn_address md" using s by (simp add: cn_sim_def)
  show ?thesis
  proof (cases e)
    case (CnStart inLoop)
    let ?s = "s\<lparr>cn_connectFlag := True\<rparr>"
    have a: "md = NoChannel" "cn_state s = CnDisconnected" "cn_timers s = []" "CnStartF \<notin> set (cn_pending s)"
      using al CnStart ch by (cases md; simp)+
    have s': "cn_sim {} NoChannel ?s" using s a(1) by (simp add: cn_sim_def)
    have h: "cn_hold env ([] @ cn_pending ?s) NoChannel {#} ?s" using d a by (simp add: cn_data_def cn_hold_def cn_delays_ok_def cn_sockets_def cn_gave_up_def)
    have q: "cn_ok env {} [] (cn_queueInLoop CnStartF ?s)"
      by (rule cn_okI [where md = NoChannel])
        (use s' d a in \<open>auto simp: cn_sim_def cn_queueInLoop_def cn_data_def cn_delays_ok_def cn_sockets_def cn_gave_up_def count_list_append count_list_0\<close>)
    show ?thesis using CnStart startInLoop_ok [OF env s' h] q a by (simp add: cn_start_def Let_def)
  next
    case CnStop
    have "cn_ok env {} [] (cn_stop s)"
      by (rule cn_okI [where md = md]) (use s stop_data [OF d] in \<open>simp_all add: cn_sim_def cn_stop_def cn_queueInLoop_def\<close>)
    then show ?thesis using CnStop by simp
  next
    case CnRestart
    let ?s = "s\<lparr>cn_state := CnDisconnected, cn_retryDelayMs := kInitRetryDelayMs, cn_delays := [], cn_connectFlag := True\<rparr>"
    have a: "cn_state s = CnConnected" "CnResetF \<notin> set (cn_pending s)" using al CnRestart by auto
    then have md: "md = NoChannel" using d by (cases md) (auto simp: cn_data_def count_list_0)
    have "cn_hold env ([] @ cn_pending ?s) NoChannel {#} ?s" using d a md
      by (auto simp: cn_data_def cn_hold_def cn_delays_ok_def cn_sockets_def cn_gave_up_def count_list_0 kInitRetryDelayMs_def backoff_def)
    moreover have "cn_sim {} NoChannel ?s" using s md by (simp add: cn_sim_def)
    ultimately show ?thesis using CnRestart startInLoop_ok [OF env] by (simp add: cn_restart_def)
  next
    case CnTimer
    let ?s = "s\<lparr>cn_timers := tl (cn_timers s)\<rparr>"
    have a: "cn_timers s \<noteq> []" "CnResetF \<notin> set (cn_pending s)" using al CnTimer by auto
    then have st: "cn_state s = CnDisconnected" "CnStartF \<notin> set (cn_pending s)" "tl (cn_timers s) = []"
      using d by (cases "cn_timers s"; auto simp: cn_data_def count_list_0 split: if_splits)+
    have md: "md = NoChannel" using d a st by (cases md) (auto simp: cn_data_def count_list_0)
    have "cn_hold env ([] @ cn_pending ?s) NoChannel {#} ?s" using d a md st
      by (simp add: cn_data_def cn_hold_def cn_delays_ok_def cn_sockets_def cn_gave_up_def)
    moreover have "cn_sim {} NoChannel ?s" using s md by (simp add: cn_sim_def)
    ultimately show ?thesis using CnTimer startInLoop_ok [OF env] st by simp
  next
    case CnPending
    have "cn_ok env {} (cn_pending s) (s\<lparr>cn_pending := []\<rparr>)"
      by (rule cn_okI [where md = md]) (use s d in \<open>simp_all add: cn_sim_def cn_data_def cn_delays_ok_def cn_sockets_def cn_gave_up_def\<close>)
    then show ?thesis using CnPending cn_functors_ok [OF env] by simp
  next
    case (CnIO re err self halts)
    then show ?thesis using io_step_ok [OF ok] al by blast
  qed
qed

lemma cn_run_ok:
  assumes env: "\<And>n. 0 \<le> ce_socket env n"
  shows "cn_ok env {} [] s \<Longrightarrow> cn_possible update remove table env es s \<Longrightarrow>
    returns (run_ops (cn_step update remove table env) es s) (cn_ok env {} [])"
proof (induction es arbitrary: s)
  case (Cons e es)
  then have "returns (cn_step update remove table env e s) (cn_ok env {} [])" using cn_step_ok [OF env] by simp
  then show ?case using Cons by (auto simp: returns_iff)
qed simp

lemma cn_ok_correct:
  assumes "cn_ok env {} [] s"
  shows "cn_correct watch env s"
proof -
  obtain md where s: "cn_sim {} md s" and d: "cn_data env (cn_pending s) md s" using assms by (auto simp: cn_ok_def)
  have ch: "cn_channel s = cn_address md" using s by (simp add: cn_sim_def)
  have "CnResetF \<in> set (cn_pending s)" if "md = Leaving a" for a using d that count_list_0 [of "cn_pending s" CnResetF] by (auto simp: cn_data_def)
  then show ?thesis using cn_sim_watch [OF s] d ch
    by (cases md) (auto simp: cn_correct_def cn_data_def cn_sockets_def cn_gave_up_def cn_delays_ok_def Connector_dtor_def count_list_0 split: if_splits)
qed

lemma cn_new_ok: "cn_ok env {} [] (Connector_new new)"
  by (rule cn_okI [where md = NoChannel])
    (use sim_new in \<open>auto simp: cn_sim_def Connector_new_def cn_data_def cn_delays_ok_def cn_sockets_def cn_gave_up_def spec_new_def kInitRetryDelayMs_def backoff_def\<close>)

lemma connector_correct:
  assumes "\<And>n. 0 \<le> ce_socket env n" and "cn_possible update remove table env es (Connector_new new)"
  shows "returns (run_ops (cn_step update remove table env) es (Connector_new new)) (cn_correct watch env)"
  by (rule returns_mono [OF cn_run_ok [OF assms(1) cn_new_ok assms(2)]]) (rule cn_ok_correct)

end

interpretation epn: cn_poller ep_updateChannel ep_removeChannel ep_inv ep_channels ep_watch "\<lambda>_ _. True" EPollPoller_new
  by unfold_locales

interpretation ppn: cn_poller pp_updateChannel pp_removeChannel pp_inv pp_channels pp_watch pp_removable PollPoller_new
  by unfold_locales

section \<open>Connectors\<close>

text \<open>
  C26. Connecting with retries: whatever \<open>connect\<close> answers and the kernel reports, in every order of events, timers, calls of \<open>stop\<close>
  and calls of \<open>start\<close> while the connector is at rest, no assertion of the connector or its channel fails. Every socket is either closed, handed over or the one that is being watched for writability, and
  exactly one of these once; the n-th delay since the last restart is 500 ms doubled n times, at most 30 s; a connector that is meant
  to connect is connecting, waits for its timer or its start, or its last attempt met a final error; a stopped one is still connecting only until its queued
  stop has run; and one that is at rest can be destroyed.
\<close>

theorem muduo_connector:
  assumes "\<And>n. 0 \<le> ce_socket env n" and "cn_possible ep_updateChannel ep_removeChannel ep_channels env es (Connector_new EPollPoller_new)"
  shows "returns (run_ops (cn_step ep_updateChannel ep_removeChannel ep_channels env) es (Connector_new EPollPoller_new)) (cn_correct ep_watch env)"
  using assms by (rule epn.connector_correct)

definition refused_once :: cn_env where
  "refused_once = \<lparr>ce_socket = (\<lambda>n. int n + 5), ce_connect = (\<lambda>n. if n = 0 then Fail (EOTHER 111) else Fail EINPROGRESS)\<rparr>"

text \<open>The first attempt is refused, the second fails later, the third succeeds.\<close>

definition third_time :: "cn_event list" where
  "third_time = [CnStart True, CnTimer, CnIO (EPOLLERR OR EPOLLOUT) 111 False False, CnPending, CnTimer, CnIO EPOLLOUT 0 False False, CnPending]"

lemma third_time_possible:
  "cn_possible ep_updateChannel ep_removeChannel ep_channels refused_once third_time (Connector_new EPollPoller_new)"
  by code_simp

lemma third_time_result:
  "map_option (\<lambda>s. (cn_state s, cn_given s, cn_closed s, cn_delays s))
     (run_ops (cn_step ep_updateChannel ep_removeChannel ep_channels refused_once) third_time (Connector_new EPollPoller_new)) =
   Some (CnConnected, [7], [5, 6], [500, 1000])"
  by code_simp

theorem muduo_connector_witness:
  "\<exists>s. run_ops (cn_step ep_updateChannel ep_removeChannel ep_channels refused_once) third_time (Connector_new EPollPoller_new) = Some s \<and>
     cn_correct ep_watch refused_once s \<and> cn_given s = [7] \<and> cn_closed s = [5, 6] \<and> cn_delays s = [500, 1000]"
  using muduo_connector [OF _ third_time_possible] third_time_result by (auto simp: returns_iff refused_once_def)

text \<open>The same with \<open>PollPoller\<close>.\<close>

lemma muduo_connector_poll:
  assumes "\<And>n. 0 \<le> ce_socket env n" and "cn_possible pp_updateChannel pp_removeChannel pp_channels env es (Connector_new PollPoller_new)"
  shows "returns (run_ops (cn_step pp_updateChannel pp_removeChannel pp_channels env) es (Connector_new PollPoller_new)) (cn_correct pp_watch env)"
  using assms by (rule ppn.connector_correct)

text \<open>\<open>stop\<close> does not cancel the timer of a retry: a \<open>start\<close> after it begins a second attempt, and the timer then fails the assertion of
  \<open>startInLoop\<close>. And a \<open>stop\<close> followed by a \<open>start\<close> from another thread, both during an attempt, fails the assertion of \<open>connecting\<close>, because the
  old channel is reset only in the next round of the loop.\<close>

lemma start_with_old_timer:
  "run_ops (cn_step ep_updateChannel ep_removeChannel ep_channels refused_once) [CnStart True, CnStop, CnPending, CnStart True, CnTimer]
     (Connector_new EPollPoller_new) = None"
  by code_simp

lemma stop_start_same_round:
  "run_ops (cn_step ep_updateChannel ep_removeChannel ep_channels refused_once) [CnStart True, CnTimer, CnStop, CnStart False, CnPending]
     (Connector_new EPollPoller_new) = None"
  by code_simp

end
