(* ===== verification/MuduoTcpClient.thy ===== *)
theory MuduoTcpClient
  imports MuduoConnector MuduoLogStream
begin

unbundle bit_operations_syntax

text \<open>
  The class \<open>TcpClient\<close> of the bundled muduo library, \<open>src/muduo_source_code/muduo/net/TcpClient.h\<close> and \<open>TcpClient.cc\<close>, on its connector
  (\<open>MuduoConnector\<close>). A connection is its number; what the client calls on connections is kept as a history, and its \<open>connectDestroyed\<close> functors
  wait in a queue. The callback for a new connection is the last statement of \<open>Connector::handleWrite\<close>, so the client's
  part runs after the connector's. A connection closes in a functor queued after it was made or in a later event, so after the
  connector has reset its channel. \<open>None\<close> is a failed assertion.

  The theory shows that a client has at most one connection, that connections are established, closed and destroyed once each and in this
  order, and that a client that shall retry is always connected or about to connect.
\<close>

section \<open>State and operations\<close>

datatype client_call = ClEstablished | ClShutdown | ClClosed | ClDestroyed

record 'p client =
  cl_connector :: "'p connector"
  cl_name :: bytes
  cl_retry :: bool
  cl_connectFlag :: bool
  cl_nextConnId :: int
  cl_connection :: "nat option"
  cl_conns :: "(bytes \<times> int) list"
  cl_queue :: "nat list"
  cl_calls :: "(nat \<times> client_call) list"

definition TcpClient_new :: "bytes \<Rightarrow> 'p \<Rightarrow> 'p client" where
  "TcpClient_new nm p = \<lparr>cl_connector = Connector_new p, cl_name = nm, cl_retry = False, cl_connectFlag = True, cl_nextConnId = 1,
     cl_connection = None, cl_conns = [], cl_queue = [], cl_calls = []\<rparr>"

definition enableRetry :: "'p client \<Rightarrow> 'p client" where
  "enableRetry s = s\<lparr>cl_retry := True\<rparr>"

definition cl_call :: "nat \<Rightarrow> client_call \<Rightarrow> 'p client \<Rightarrow> 'p client" where
  "cl_call k c s = s\<lparr>cl_calls := cl_calls s @ [(k, c)]\<rparr>"

definition on_connector :: "('p connector \<Rightarrow> 'p connector option) \<Rightarrow> 'p client \<Rightarrow> 'p client option" where
  "on_connector f s = map_option (\<lambda>c. s\<lparr>cl_connector := c\<rparr>) (f (cl_connector s))"

definition cl_connect :: "(cn_handler, 'p) poller_call \<Rightarrow> cn_env \<Rightarrow> bool \<Rightarrow> 'p client \<Rightarrow> 'p client option" where
  "cl_connect upd env inLoop s = on_connector (cn_start upd env inLoop) (s\<lparr>cl_connectFlag := True\<rparr>)"

definition cl_disconnect :: "'p client \<Rightarrow> 'p client" where
  "cl_disconnect s =
     (let s1 = s\<lparr>cl_connectFlag := False\<rparr> in case cl_connection s1 of None \<Rightarrow> s1 | Some k \<Rightarrow> cl_call k ClShutdown s1)"

definition cl_stop :: "'p client \<Rightarrow> 'p client" where
  "cl_stop s = s\<lparr>cl_connectFlag := False, cl_connector := cn_stop (cl_connector s)\<rparr>"

text \<open>\<open>peer\<close> is the text of the peer's address; \<open>snprintf\<close> writes at most 31 characters. The increment of \<open>nextConnId_\<close>, an
  \<open>int\<close>, overflows at its largest value.\<close>

definition cl_newConnection :: "bytes \<Rightarrow> int \<Rightarrow> 'p client \<Rightarrow> 'p client option" where
  "cl_newConnection peer sockfd s =
     (let connName = cl_name s @ take 31 ('':'' @ peer @ ''#'' @ to_string (cl_nextConnId s));
          k = length (cl_conns s)
      in if cl_nextConnId s < 2 ^ 31 - 1
         then Some (cl_call k ClEstablished
           (s\<lparr>cl_nextConnId := cl_nextConnId s + 1, cl_conns := cl_conns s @ [(connName, sockfd)], cl_connection := Some k\<rparr>))
         else None)"

definition cl_removeConnection :: "(cn_handler, 'p) poller_call \<Rightarrow> cn_env \<Rightarrow> nat \<Rightarrow> 'p client \<Rightarrow> 'p client option" where
  "cl_removeConnection upd env k s =
     (if cl_connection s = Some k then
        let s1 = s\<lparr>cl_connection := None, cl_queue := cl_queue s @ [k]\<rparr>
        in if cl_retry s1 \<and> cl_connectFlag s1 then on_connector (cn_restart upd env) s1 else Some s1
      else None)"

section \<open>Runs\<close>

text \<open>\<open>ClClose\<close> is the close callback of the current connection. In \<open>ClPending\<close> the loop runs the functors of the connector and the queued
  \<open>connectDestroyed\<close> calls, which are independent of each other.\<close>

datatype cl_event = ClConnect bool | ClDisconnect | ClStop | ClEnableRetry | ClIO u32 nat bool bool bytes | ClTimer | ClPending | ClClose

fun cl_step ::
    "(cn_handler, 'p) poller_call \<Rightarrow> (cn_handler, 'p) poller_call \<Rightarrow> ('p \<Rightarrow> int \<rightharpoonup> nat) \<Rightarrow> cn_env \<Rightarrow> cl_event \<Rightarrow> 'p client \<Rightarrow> 'p client option" where
  "cl_step upd rem tab env (ClConnect inLoop) s = cl_connect upd env inLoop s"
| "cl_step upd rem tab env ClDisconnect s = Some (cl_disconnect s)"
| "cl_step upd rem tab env ClStop s = Some (cl_stop s)"
| "cl_step upd rem tab env ClEnableRetry s = Some (enableRetry s)"
| "cl_step upd rem tab env (ClIO revents err self halts peer) s = do {
     s1 \<leftarrow> on_connector (cn_step upd rem tab env (CnIO revents err self halts)) s;
     if length (cn_given (cl_connector s)) < length (cn_given (cl_connector s1))
     then do {
       s2 \<leftarrow> cl_newConnection peer (last (cn_given (cl_connector s1))) s1;
       Some (if halts then s2\<lparr>cl_connectFlag := False\<rparr> else s2)
     }
     else Some s1
   }"
| "cl_step upd rem tab env ClTimer s = on_connector (cn_step upd rem tab env CnTimer) s"
| "cl_step upd rem tab env ClPending s =
     on_connector (cn_step upd rem tab env CnPending)
       (s\<lparr>cl_queue := [], cl_calls := cl_calls s @ map (\<lambda>k. (k, ClDestroyed)) (cl_queue s)\<rparr>)"
| "cl_step upd rem tab env ClClose s =
     (case cl_connection s of None \<Rightarrow> None | Some k \<Rightarrow> cl_removeConnection upd env k (cl_call k ClClosed s))"

text \<open>The events that are looked at: \<open>connect\<close> is called only while the connector is at rest, that is, is disconnected without a channel, a
  timer or a queued start (\<open>second_connect_aborts\<close> is a call at another time), and the client makes fewer than \<open>2\<^sup>3\<^sup>1 - 2\<close> connections, so that
  their count does not overflow.\<close>

fun cl_allowed :: "cl_event \<Rightarrow> 'p client \<Rightarrow> bool" where
  "cl_allowed (ClConnect inLoop) s = cn_allowed (CnStart inLoop) (cl_connector s)"
| "cl_allowed (ClIO revents err self halts peer) s =
     (cn_allowed (CnIO revents err self halts) (cl_connector s) \<and> int (length (cl_conns s)) < 2 ^ 31 - 2)"
| "cl_allowed ClTimer s = cn_allowed CnTimer (cl_connector s)"
| "cl_allowed ClClose s = (cl_connection s \<noteq> None \<and> CnResetF \<notin> set (cn_pending (cl_connector s)))"
| "cl_allowed _ s = True"

fun cl_possible ::
    "(cn_handler, 'p) poller_call \<Rightarrow> (cn_handler, 'p) poller_call \<Rightarrow> ('p \<Rightarrow> int \<rightharpoonup> nat) \<Rightarrow> cn_env \<Rightarrow> cl_event list \<Rightarrow> 'p client \<Rightarrow> bool" where
  "cl_possible upd rem tab env [] s \<longleftrightarrow> True"
| "cl_possible upd rem tab env (e # es) s \<longleftrightarrow>
     cl_allowed e s \<and> (case cl_step upd rem tab env e s of None \<Rightarrow> True | Some s' \<Rightarrow> cl_possible upd rem tab env es s')"

section \<open>What a client guarantees\<close>

definition cl_calls_of :: "nat \<Rightarrow> 'p client \<Rightarrow> client_call list" where
  "cl_calls_of k s = filter (\<lambda>c. c \<noteq> ClShutdown) (map snd (filter (\<lambda>c. fst c = k) (cl_calls s)))"

definition cl_conn_ok :: "'p client \<Rightarrow> nat \<Rightarrow> bool" where
  "cl_conn_ok s k \<longleftrightarrow>
     (if cl_connection s = Some k then cl_calls_of k s = [ClEstablished] \<and> k \<notin> set (cl_queue s)
      else if k \<in> set (cl_queue s) then cl_calls_of k s = [ClEstablished, ClClosed]
      else cl_calls_of k s = [ClEstablished, ClClosed, ClDestroyed])"

definition cl_data :: "'p client \<Rightarrow> bool" where
  "cl_data s \<longleftrightarrow> map snd (cl_conns s) = cn_given (cl_connector s) \<and> cl_nextConnId s = int (length (cl_conns s)) + 1 \<and>
     (\<forall>k < length (cl_conns s). cl_conn_ok s k) \<and>
     (\<forall>k \<ge> length (cl_conns s). cl_calls_of k s = []) \<and> distinct (cl_queue s) \<and>
     (\<forall>k \<in> set (cl_queue s). k < length (cl_conns s)) \<and>
     (\<forall>k. cl_connection s = Some k \<longrightarrow> k < length (cl_conns s) \<and> cn_state (cl_connector s) = CnConnected)"

section \<open>What the steps of a connector change\<close>

lemma bind_SomeE: "Option.bind x f = Some y \<Longrightarrow> (\<And>z. x = Some z \<Longrightarrow> f z = Some y \<Longrightarrow> P) \<Longrightarrow> P"
  by (cases x) auto

text \<open>A relation that all handlers and changes of a channel keep is kept by the dispatch.\<close>

lemma handleEvent_rel:
  assumes r: "\<And>x. R x x" "\<And>x y z. R x y \<Longrightarrow> R y z \<Longrightarrow> R x z" and m: "\<And>f x. R x (modify f x)" and h: "\<And>g x y. run g x = Some y \<Longrightarrow> R x y"
    and e: "MChannel_handleEvent run chan modify alive s = Some s'"
  shows "R s s'"
proof -
  have c: "R x y" if "(if b then call_opt run cb x else Some x) = Some y" for b cb x y
    using that r(1) h by (auto simp: call_opt_def split: if_splits option.splits)
  have "R x y" if g: "handleEventWithGuard run chan modify x = Some y" for x y
    using g unfolding handleEventWithGuard_def Let_def
  proof (elim bind_SomeE)
    fix s1 s2 s3 s4
    assume 1: "Some (modify (\<lambda>c. c\<lparr>mc_eventHandling := False\<rparr>) s4) = Some y"
      and 2: "(if mc_revents (chan s3) AND EPOLLOUT \<noteq> 0 then call_opt run (mc_writeCallback (chan s3)) s3 else Some s3) = Some s4"
      and 3: "(if mc_revents (chan s2) AND (EPOLLIN OR EPOLLPRI OR POLLRDHUP) \<noteq> 0 then call_opt run (mc_readCallback (chan s2)) s2 else Some s2) = Some s3"
      and 4: "(if mc_revents (chan s1) AND (EPOLLERR OR POLLNVAL) \<noteq> 0 then call_opt run (mc_errorCallback (chan s1)) s1 else Some s1) = Some s2"
      and 5: "(if mc_revents (chan (modify (\<lambda>c. c\<lparr>mc_eventHandling := True\<rparr>) x)) AND EPOLLHUP \<noteq> 0 \<and>
          mc_revents (chan (modify (\<lambda>c. c\<lparr>mc_eventHandling := True\<rparr>) x)) AND EPOLLIN = 0
        then call_opt run (mc_closeCallback (chan (modify (\<lambda>c. c\<lparr>mc_eventHandling := True\<rparr>) x))) (modify (\<lambda>c. c\<lparr>mc_eventHandling := True\<rparr>) x)
        else Some (modify (\<lambda>c. c\<lparr>mc_eventHandling := True\<rparr>) x)) = Some s1"
    have "R x s1" by (rule r(2) [OF m c [OF 5]])
    then have "R x s4" using r(2) c [OF 4] c [OF 3] c [OF 2] by blast
    then show "R x y" using 1 r(2) m by auto
  qed
  then show ?thesis using e r(1) by (auto simp: MChannel_handleEvent_def split: if_splits)
qed

definition same_made :: "'p connector \<Rightarrow> 'p connector \<Rightarrow> bool" where
  "same_made s s' \<longleftrightarrow> (cn_state s' = CnConnected \<longleftrightarrow> cn_state s = CnConnected) \<and> cn_given s' = cn_given s \<and> cn_connectFlag s' = cn_connectFlag s"

definition made :: "bool \<Rightarrow> 'p connector \<Rightarrow> 'p connector \<Rightarrow> bool" where
  "made halts s s' \<longleftrightarrow> same_made s s' \<or>
     cn_state s \<noteq> CnConnected \<and> cn_state s' = CnConnected \<and>
     (if cn_connectFlag s then (\<exists>fd. cn_given s' = cn_given s @ [fd]) \<and> cn_connectFlag s' = (\<not> halts)
      else cn_given s' = cn_given s \<and> cn_connectFlag s' = cn_connectFlag s)"

lemma made_trans: "made h x y \<Longrightarrow> made h y z \<Longrightarrow> made h x z"
  by (auto simp: made_def same_made_def split: if_splits)

lemma retry_made:
  "cn_given (cn_retry fd s) = cn_given s" "cn_connectFlag (cn_retry fd s) = cn_connectFlag s"
  by (simp_all add: cn_retry_def cn_close_def Let_def)

lemma removed_made:
  "removeAndResetChannel upd rem s = Some (fd, s') \<Longrightarrow>
   cn_state s' = cn_state s \<and> cn_given s' = cn_given s \<and> cn_connectFlag s' = cn_connectFlag s"
  by (auto simp: removeAndResetChannel_def cn_queueInLoop_def elim!: bind_SomeE)

lemma connecting_made:
  "connecting upd fd s = Some s' \<Longrightarrow> cn_state s' = CnConnecting \<and> cn_given s' = cn_given s \<and> cn_connectFlag s' = cn_connectFlag s"
  by (auto simp: connecting_def Let_def split: if_splits elim!: bind_SomeE)

lemma startInLoop_made:
  "cn_startInLoop upd env s = Some s' \<Longrightarrow> same_made s s' \<and> cn_state s \<noteq> CnConnected"
  using connecting_made [of upd _ _ s']
  by (auto simp: cn_startInLoop_def cn_connect_def Let_def same_made_def retry_made cn_close_def split: if_splits sys.splits)

lemma stopInLoop_made: "cn_stopInLoop upd rem s = Some s' \<Longrightarrow> same_made s s'"
  using removed_made [of upd rem "s\<lparr>cn_state := CnDisconnected\<rparr>"]
  by (auto simp: cn_stopInLoop_def same_made_def retry_made split: if_splits elim!: bind_SomeE)

lemma functor_made:
  assumes "cn_run_functor upd rem tab env f s = Some s'"
  shows "same_made s s'"
proof (cases f)
  case CnStartF
  then show ?thesis using assms startInLoop_made by auto
next
  case CnStopF
  then show ?thesis using assms stopInLoop_made by auto
next
  case CnResetF
  then show ?thesis using assms by (auto simp: resetChannel_def same_made_def split: option.splits elim!: bind_SomeE)
qed

lemma functors_made: "run_ops (cn_run_functor upd rem tab env) fs s = Some s' \<Longrightarrow> same_made s s'"
proof (induction fs arbitrary: s)
  case (Cons f fs)
  then obtain s1 where "cn_run_functor upd rem tab env f s = Some s1" "run_ops (cn_run_functor upd rem tab env) fs s1 = Some s'"
    by (auto elim: bind_SomeE)
  then have "same_made s s1" "same_made s1 s'" using functor_made Cons.IH by blast+
  then show ?case by (simp add: same_made_def)
qed (simp add: same_made_def)

lemma handler_made:
  assumes "cn_handler_run upd rem err self halts h s = Some s'"
  shows "made halts s s'"
proof (cases h)
  case CnWrite
  then show ?thesis using assms removed_made [of upd rem s]
    by (auto simp: cn_handleWrite_def made_def same_made_def retry_made cn_close_def cn_stop_def cn_queueInLoop_def Let_def
        split: if_splits elim!: bind_SomeE)
next
  case CnError
  then show ?thesis using assms removed_made [of upd rem s]
    by (auto simp: cn_handleError_def made_def same_made_def retry_made split: if_splits elim!: bind_SomeE)
qed

lemma io_made:
  assumes "cn_step upd rem tab env (CnIO re err self halts) s = Some s'"
  shows "made halts s s'"
proof -
  have m: "made halts x (cn_modify f x)" for f x by (simp add: made_def same_made_def cn_modify_def split: option.splits)
  have "made halts (cn_modify (set_revents re) s) s'"
    by (rule handleEvent_rel [where R = "made halts", OF _ made_trans m handler_made])
      (use assms in \<open>simp_all add: made_def same_made_def\<close>)
  then show ?thesis using made_trans m by blast
qed

section \<open>The invariant is kept\<close>

lemma cl_calls_of_simps [simp]:
  "cl_calls_of k (s\<lparr>cl_connector := cn\<rparr>) = cl_calls_of k s" "cl_calls_of k (s\<lparr>cl_connectFlag := b\<rparr>) = cl_calls_of k s"
  "cl_calls_of k (s\<lparr>cl_retry := b\<rparr>) = cl_calls_of k s"
  "cl_calls_of k (s\<lparr>cl_connection := x\<rparr>) = cl_calls_of k s" "cl_calls_of k (s\<lparr>cl_queue := q\<rparr>) = cl_calls_of k s"
  "cl_calls_of k (s\<lparr>cl_conns := cs\<rparr>) = cl_calls_of k s" "cl_calls_of k (s\<lparr>cl_nextConnId := i\<rparr>) = cl_calls_of k s"
  "cl_calls_of k (cl_call j c s) = cl_calls_of k s @ (if j = k \<and> c \<noteq> ClShutdown then [c] else [])"
  by (simp_all add: cl_calls_of_def cl_call_def)

lemma cl_call_fields [simp]:
  "cl_connector (cl_call k c s) = cl_connector s" "cl_connection (cl_call k c s) = cl_connection s" "cl_conns (cl_call k c s) = cl_conns s"
  "cl_queue (cl_call k c s) = cl_queue s" "cl_retry (cl_call k c s) = cl_retry s" "cl_connectFlag (cl_call k c s) = cl_connectFlag s"
  "cl_nextConnId (cl_call k c s) = cl_nextConnId s"
  by (simp_all add: cl_call_def)

lemma cl_conn_ok_cong:
  "cl_connection s' = cl_connection s \<Longrightarrow> cl_queue s' = cl_queue s \<Longrightarrow> cl_calls_of k s' = cl_calls_of k s \<Longrightarrow> cl_conn_ok s' k = cl_conn_ok s k"
  by (simp add: cl_conn_ok_def)

lemma same_data:
  assumes "cl_data s" "cl_connection s' = cl_connection s" "cl_queue s' = cl_queue s" "cl_conns s' = cl_conns s" "cl_nextConnId s' = cl_nextConnId s"
    "\<And>k. cl_calls_of k s' = cl_calls_of k s"
    "same_made (cl_connector s) (cl_connector s')"
  shows "cl_data s'"
  using assms cl_conn_ok_cong [of s' s] by (simp add: cl_data_def same_made_def)

lemma new_data:
  assumes d: "cl_data s" and n: "cl_connection s = None" and c: "cn_given c = cn_given (cl_connector s) @ [fd]" "cn_state c = CnConnected"
    and e: "cl_newConnection peer fd (s\<lparr>cl_connector := c\<rparr>) = Some s'"
  shows "cl_data s'"
proof -
  let ?n = "length (cl_conns s)"
  have q: "cl_calls_of ?n s = []" "?n \<notin> set (cl_queue s)" using d by (auto simp: cl_data_def)
  obtain x where s': "s' = cl_call ?n ClEstablished (s\<lparr>cl_connector := c, cl_nextConnId := cl_nextConnId s + 1,
      cl_conns := cl_conns s @ [(x, fd)], cl_connection := Some ?n\<rparr>)"
    using e by (auto simp: cl_newConnection_def Let_def split: if_splits)
  have "cl_conn_ok s' k" if "k < Suc ?n" for k
    using that d n q by (cases "k = ?n") (auto simp: s' cl_conn_ok_def cl_data_def less_Suc_eq)
  then show ?thesis using d c by (auto simp: s' cl_data_def)
qed

lemma closed_data:
  assumes d: "cl_data s" and k: "cl_connection s = Some k"
  shows "cl_data ((cl_call k ClClosed s)\<lparr>cl_connection := None, cl_queue := cl_queue s @ [k]\<rparr>)" (is "cl_data ?s")
proof -
  have kk: "k < length (cl_conns s)" "cl_conn_ok s k" using d k by (auto simp: cl_data_def)
  then have "cl_conn_ok ?s j" if "j < length (cl_conns s)" for j
    using that d k by (cases "j = k") (auto simp: cl_conn_ok_def cl_data_def)
  then show ?thesis using d k kk by (auto simp: cl_data_def cl_conn_ok_def)
qed

lemma destroyed_calls:
  "distinct q \<Longrightarrow> cl_calls_of k (s\<lparr>cl_queue := [], cl_calls := cl_calls s @ map (\<lambda>k. (k, ClDestroyed)) q\<rparr>) =
   cl_calls_of k s @ (if k \<in> set q then [ClDestroyed] else [])"
proof (induction q)
  case Nil
  then show ?case by (simp add: cl_calls_of_def)
next
  case (Cons j q)
  have "filter (\<lambda>c. fst c = k) (map (\<lambda>k. (k, ClDestroyed)) q) = (if k \<in> set q then [(k, ClDestroyed)] else [])" if "distinct q" for q
    using that by (induction q) auto
  then show ?case using Cons by (auto simp: cl_calls_of_def)
qed

lemma pending_data:
  assumes d: "cl_data s"
  shows "cl_data (s\<lparr>cl_queue := [], cl_calls := cl_calls s @ map (\<lambda>k. (k, ClDestroyed)) (cl_queue s)\<rparr>)" (is "cl_data ?s")
proof -
  have q: "distinct (cl_queue s)" "\<forall>k \<in> set (cl_queue s). k < length (cl_conns s)" using d by (auto simp: cl_data_def)
  have "cl_conn_ok ?s k" if "k < length (cl_conns s)" for k
  proof -
    have "cl_conn_ok s k" using d that by (simp add: cl_data_def)
    then show ?thesis using destroyed_calls [OF q(1), of k s] by (auto simp: cl_conn_ok_def)
  qed
  moreover have "cl_calls_of k ?s = []" if "length (cl_conns s) \<le> k" for k
    using destroyed_calls [OF q(1), of k s] d q(2) that by (auto simp: cl_data_def)
  ultimately show ?thesis using d by (simp add: cl_data_def)
qed

text \<open>A client that retries and was not told to stop.\<close>

definition cl_eager :: "'p client \<Rightarrow> bool" where
  "cl_eager s \<longleftrightarrow> cl_retry s \<and> cl_connectFlag s \<and> cn_connectFlag (cl_connector s) \<and>
     (cn_state (cl_connector s) = CnConnected \<longrightarrow> cl_connection s \<noteq> None)"

fun goes_on :: "cl_event \<Rightarrow> bool" where
  "goes_on ClDisconnect = False"
| "goes_on ClStop = False"
| "goes_on (ClIO re err self halts peer) = (\<not> halts)"
| "goes_on _ = True"

definition cl_trying :: "cn_env \<Rightarrow> 'p client \<Rightarrow> bool" where
  "cl_trying env s \<longleftrightarrow> cl_connection s \<noteq> None \<or> cn_state (cl_connector s) = CnConnecting \<or> cn_timers (cl_connector s) \<noteq> [] \<or>
     CnStartF \<in> set (cn_pending (cl_connector s)) \<or> cn_gave_up env (cl_connector s)"

lemma eager_trying: "cl_eager s \<Longrightarrow> cn_correct watch env (cl_connector s) \<Longrightarrow> cl_trying env s"
  by (cases "cn_state (cl_connector s)") (auto simp: cl_eager_def cn_correct_def cl_trying_def)

lemma begun:
  "cn_start upd env inLoop c = Some c' \<Longrightarrow> cn_state c = CnDisconnected \<Longrightarrow> cn_given c' = cn_given c \<and> cn_state c' \<noteq> CnConnected \<and> cn_connectFlag c'"
  "cn_restart upd env c = Some c' \<Longrightarrow> cn_given c' = cn_given c \<and> cn_state c' \<noteq> CnConnected \<and> cn_connectFlag c'"
  by (auto simp: cn_start_def cn_restart_def cn_queueInLoop_def Let_def same_made_def split: if_splits dest!: startInLoop_made)

lemma no_conn_data:
  assumes "cl_data s" "cl_connection s = None" "cn_given c = cn_given (cl_connector s)"
  shows "cl_data (s\<lparr>cl_connector := c\<rparr>)"
  using assms by (simp add: cl_data_def cl_conn_ok_def)

context cn_poller
begin

definition cl_ok :: "cn_env \<Rightarrow> 'p client \<Rightarrow> bool" where
  "cl_ok env s \<longleftrightarrow> cn_ok env {} [] (cl_connector s) \<and> cl_data s"

text \<open>A step of the connector that makes no connection.\<close>

lemma same_step:
  assumes env: "\<And>n. 0 \<le> ce_socket env n" and ok: "cn_ok env {} [] (cl_connector s)" "cl_data s" and al: "cn_allowed e (cl_connector s)"
    and m: "\<And>c'. cn_step update remove table env e (cl_connector s) = Some c' \<Longrightarrow> same_made (cl_connector s) c'"
  shows "returns (on_connector (cn_step update remove table env e) s) (\<lambda>s'. cl_ok env s' \<and> (cl_eager s \<longrightarrow> cl_eager s'))"
proof -
  obtain c' where c: "cn_step update remove table env e (cl_connector s) = Some c'" "cn_ok env {} [] c'"
    using cn_step_ok [OF env ok(1) al] by (auto simp: returns_iff)
  have sm: "same_made (cl_connector s) c'" by (rule m [OF c(1)])
  have "cl_data (s\<lparr>cl_connector := c'\<rparr>)" by (rule same_data [OF ok(2)]) (use sm in simp_all)
  moreover have "cl_eager s \<longrightarrow> cl_eager (s\<lparr>cl_connector := c'\<rparr>)" using sm by (simp add: cl_eager_def same_made_def)
  ultimately show ?thesis using c by (simp add: on_connector_def cl_ok_def)
qed

lemma cl_step_ok:
  assumes env: "\<And>n. 0 \<le> ce_socket env n" and ok: "cl_ok env s" and al: "cl_allowed e s"
  shows "returns (cl_step update remove table env e s) (\<lambda>s'. cl_ok env s' \<and> (cl_eager s \<and> goes_on e \<longrightarrow> cl_eager s'))"
proof -
  let ?c = "cl_connector s"
  have cn: "cn_ok env {} [] ?c" and d: "cl_data s" using ok by (simp_all add: cl_ok_def)
  have st: "cl_connection s = None" if "cn_state ?c \<noteq> CnConnected" using d that by (auto simp: cl_data_def)
  show ?thesis
  proof (cases e)
    case (ClConnect b)
    then have a: "cn_allowed (CnStart b) ?c" "cn_state ?c = CnDisconnected" using al by simp_all
    obtain c' where c: "cn_start update env b ?c = Some c'" "cn_ok env {} [] c'"
      using cn_step_ok [OF env cn a(1)] by (auto simp: returns_iff)
    note m = begun(1) [OF c(1) a(2)]
    have "cl_data (s\<lparr>cl_connectFlag := True\<rparr>)" by (rule same_data [OF d]) (simp_all add: same_made_def)
    then have "cl_data ((s\<lparr>cl_connectFlag := True\<rparr>)\<lparr>cl_connector := c'\<rparr>)" by (rule no_conn_data) (use st a m in simp_all)
    then show ?thesis using ClConnect c m by (auto simp: cl_connect_def on_connector_def cl_ok_def cl_eager_def)
  next
    case ClDisconnect
    have "cl_data (cl_disconnect s)" by (rule same_data [OF d]) (simp_all add: cl_disconnect_def Let_def same_made_def split: option.splits)
    then show ?thesis using ClDisconnect cn by (simp add: cl_ok_def cl_disconnect_def Let_def split: option.splits)
  next
    case ClStop
    have "cl_data (cl_stop s)" using d cl_conn_ok_cong [of "cl_stop s" s]
      by (simp add: cl_data_def cl_stop_def cn_stop_def cn_queueInLoop_def)
    moreover have "cn_ok env {} [] (cn_stop ?c)" using cn_step_ok [OF env cn, of CnStop] by simp
    ultimately show ?thesis using ClStop by (simp add: cl_ok_def cl_stop_def)
  next
    case ClEnableRetry
    have "cl_data (enableRetry s)" by (rule same_data [OF d]) (simp_all add: enableRetry_def same_made_def)
    then show ?thesis using ClEnableRetry cn by (simp add: cl_ok_def enableRetry_def cl_eager_def)
  next
    case ClTimer
    have "returns (on_connector (cn_step update remove table env CnTimer) s) (\<lambda>s'. cl_ok env s' \<and> (cl_eager s \<longrightarrow> cl_eager s'))"
      by (rule same_step [OF env cn d]) (use al ClTimer startInLoop_made in \<open>fastforce simp: same_made_def\<close>)+
    then show ?thesis using ClTimer by (auto elim: returns_mono)
  next
    case ClPending
    let ?s = "s\<lparr>cl_queue := [], cl_calls := cl_calls s @ map (\<lambda>k. (k, ClDestroyed)) (cl_queue s)\<rparr>"
    have m: "same_made ?c c'" if "cn_step update remove table env CnPending ?c = Some c'" for c'
      using functors_made [of update remove table env "cn_pending ?c" "?c\<lparr>cn_pending := []\<rparr>" c'] that by (simp add: same_made_def)
    have "returns (on_connector (cn_step update remove table env CnPending) ?s) (\<lambda>s'. cl_ok env s' \<and> (cl_eager ?s \<longrightarrow> cl_eager s'))"
      by (rule same_step [OF env _ pending_data [OF d]]) (use cn m in simp_all)
    then show ?thesis using ClPending by (simp add: cl_eager_def)
  next
    case ClClose
    then obtain k where k: "cl_connection s = Some k" and r: "CnResetF \<notin> set (cn_pending ?c)" using al by auto
    have cs: "cn_state ?c = CnConnected" using d k by (simp add: cl_data_def)
    let ?s = "(cl_call k ClClosed s)\<lparr>cl_connection := None, cl_queue := cl_queue s @ [k]\<rparr>"
    have d1: "cl_data ?s" by (rule closed_data [OF d k])
    obtain c' where c: "cn_restart update env ?c = Some c'" "cn_ok env {} [] c'"
      using cn_step_ok [OF env cn, of CnRestart] cs r by (auto simp: returns_iff)
    have "cl_data (?s\<lparr>cl_connector := c'\<rparr>)" by (rule no_conn_data [OF d1]) (use begun(2) [OF c(1)] in simp_all)
    then show ?thesis using ClClose k c d1 cn begun(2) [OF c(1)]
      by (auto simp: cl_removeConnection_def on_connector_def cl_ok_def cl_eager_def Let_def)
  next
    case (ClIO re err self halts peer)
    obtain c' where c: "cn_step update remove table env (CnIO re err self halts) ?c = Some c'" "cn_ok env {} [] c'"
      using cn_step_ok [OF env cn, of "CnIO re err self halts"] al ClIO by (auto simp: returns_iff)
    have m: "made halts ?c c'" by (rule io_made [OF c(1)])
    show ?thesis
    proof (cases "length (cn_given ?c) < length (cn_given c')")
      case True
      then obtain fd where n: "cn_state ?c \<noteq> CnConnected" "cn_state c' = CnConnected" "cn_given c' = cn_given ?c @ [fd]" "cn_connectFlag c' = (\<not> halts)"
        using m by (auto simp: made_def same_made_def split: if_splits)
      have "cl_nextConnId s < 2 ^ 31 - 1" using al d ClIO by (simp add: cl_data_def)
      then obtain s' where s': "cl_newConnection peer fd (s\<lparr>cl_connector := c'\<rparr>) = Some s'" by (auto simp: cl_newConnection_def Let_def)
      have 1: "cl_data s'" by (rule new_data [OF d st [OF n(1)] n(3,2) s'])
      have 2: "cl_data (s'\<lparr>cl_connectFlag := False\<rparr>)" by (rule same_data [OF 1]) (simp_all add: same_made_def)
      have e: "cl_connector s' = c'" "cl_retry s' = cl_retry s" "cl_connectFlag s' = cl_connectFlag s" "cl_connection s' \<noteq> None"
        using s' by (auto simp: cl_newConnection_def Let_def split: if_splits)
      show ?thesis using ClIO True c n 1 2 e s' by (simp add: on_connector_def cl_ok_def cl_eager_def Let_def del: cn_step.simps)
    next
      case False
      then have g: "cn_given c' = cn_given ?c" using m by (auto simp: made_def same_made_def split: if_splits)
      have "cl_data (s\<lparr>cl_connector := c'\<rparr>)"
      proof (cases "same_made ?c c'")
        case True
        then show ?thesis by (intro same_data [OF d]) simp_all
      next
        case False
        then have "cn_state ?c \<noteq> CnConnected" using m by (auto simp: made_def)
        then show ?thesis using no_conn_data [OF d st g] by simp
      qed
      moreover have "cl_eager s \<longrightarrow> cl_eager (s\<lparr>cl_connector := c'\<rparr>)" using m g by (auto simp: cl_eager_def made_def same_made_def)
      ultimately show ?thesis using ClIO False c by (simp add: on_connector_def cl_ok_def del: cn_step.simps)
    qed
  qed
qed

lemma cl_run_ok:
  assumes env: "\<And>n. 0 \<le> ce_socket env n"
  shows "cl_ok env s \<Longrightarrow> cl_possible update remove table env es s \<Longrightarrow>
    returns (run_ops (cl_step update remove table env) es s) (\<lambda>s'. cl_ok env s' \<and> (cl_eager s \<and> (\<forall>e \<in> set es. goes_on e) \<longrightarrow> cl_eager s'))"
proof (induction es arbitrary: s)
  case (Cons e es)
  then obtain s1 where s1: "cl_step update remove table env e s = Some s1" "cl_ok env s1" "cl_eager s \<and> goes_on e \<longrightarrow> cl_eager s1"
    using cl_step_ok [OF env, of s e] by (auto simp: returns_iff)
  then have "returns (run_ops (cl_step update remove table env) es s1)
      (\<lambda>s'. cl_ok env s' \<and> (cl_eager s1 \<and> (\<forall>e \<in> set es. goes_on e) \<longrightarrow> cl_eager s'))"
    using Cons by simp
  then have "returns (run_ops (cl_step update remove table env) es s1)
      (\<lambda>s'. cl_ok env s' \<and> (cl_eager s \<and> (\<forall>e \<in> set (e # es). goes_on e) \<longrightarrow> cl_eager s'))"
    by (rule returns_mono) (use s1(3) in auto)
  then show ?case using s1(1) by simp
qed simp

lemma client_correct:
  assumes env: "\<And>n. 0 \<le> ce_socket env n"
    and p: "cl_possible update remove table env (ClEnableRetry # ClConnect b # es) (TcpClient_new nm new)"
  shows "returns (run_ops (cl_step update remove table env) (ClEnableRetry # ClConnect b # es) (TcpClient_new nm new))
    (\<lambda>s. cl_data s \<and> cn_correct watch env (cl_connector s) \<and> ((\<forall>e \<in> set es. goes_on e) \<longrightarrow> cl_trying env s))"
proof -
  have n: "cl_ok env (TcpClient_new nm new)"
    using cn_new_ok by (simp add: cl_ok_def TcpClient_new_def cl_data_def cl_calls_of_def Connector_new_def)
  define s1 where "s1 = enableRetry (TcpClient_new nm new)"
  have s1: "cl_ok env s1" using cl_step_ok [OF env n, of ClEnableRetry] by (simp add: s1_def)
  have al: "cl_allowed (ClConnect b) s1" using p by (simp add: s1_def)
  obtain s2 where s2: "cl_step update remove table env (ClConnect b) s1 = Some s2" "cl_ok env s2"
    using cl_step_ok [OF env s1 al] by (auto simp: returns_iff)
  obtain c' where c': "cn_start update env b (cl_connector s1) = Some c'" "s2 = s1\<lparr>cl_connectFlag := True, cl_connector := c'\<rparr>"
    using s2(1) by (auto simp: cl_connect_def on_connector_def)
  have e: "cl_eager s2" using begun(1) [OF c'(1)] by (simp add: c'(2) cl_eager_def s1_def enableRetry_def TcpClient_new_def Connector_new_def)
  have "cl_possible update remove table env es s2" using p s2(1) by (simp add: s1_def)
  from cl_run_ok [OF env s2(2) this]
  have "returns (run_ops (cl_step update remove table env) es s2)
      (\<lambda>s. cl_data s \<and> cn_correct watch env (cl_connector s) \<and> ((\<forall>e \<in> set es. goes_on e) \<longrightarrow> cl_trying env s))"
    by (rule returns_mono) (use e in \<open>auto simp: cl_ok_def cn_ok_correct intro: eager_trying [OF _ cn_ok_correct]\<close>)
  then show ?thesis using s2(1) by (simp add: s1_def)
qed

end

section \<open>Clients\<close>

text \<open>
  C27. A client that retries: in every run that starts with \<open>enableRetry\<close> and \<open>connect\<close>, for every order of events of the kernel, timers, closes of
  the connection, queued functors and calls of \<open>stop\<close>, \<open>disconnect\<close> and \<open>enableRetry\<close>, with further calls of \<open>connect\<close> only while the connector is at rest and with fewer
  than \<open>2\<^sup>3\<^sup>1 - 2\<close> connections, no assertion of the client or its connector fails and the count of connections does not overflow; at most one
  connection is current, and every connection is established, closed and destroyed once each, in this order and the last after its
  close; and as long as the client is not told to stop or disconnect it has a connection, is connecting or is about to, unless its last
  attempt ended with an error of \<open>connect\<close> after which the code does not try again.
\<close>

theorem muduo_client:
  assumes "\<And>n. 0 \<le> ce_socket env n"
    and "cl_possible ep_updateChannel ep_removeChannel ep_channels env (ClEnableRetry # ClConnect b # es) (TcpClient_new nm EPollPoller_new)"
  shows "returns (run_ops (cl_step ep_updateChannel ep_removeChannel ep_channels env) (ClEnableRetry # ClConnect b # es) (TcpClient_new nm EPollPoller_new))
    (\<lambda>s. cl_data s \<and> cn_correct ep_watch env (cl_connector s) \<and> ((\<forall>e \<in> set es. goes_on e) \<longrightarrow> cl_trying env s))"
  using assms by (rule epn.client_correct)

text \<open>The first attempt is refused, the second succeeds; the connection closes and the client connects again.\<close>

definition reconnects :: "cl_event list" where
  "reconnects = [ClTimer, ClIO EPOLLOUT 0 False False ''1.2.3.4:80'', ClPending, ClClose, ClPending, ClIO EPOLLOUT 0 False False ''1.2.3.4:80'']"

lemma reconnects_possible:
  "cl_possible ep_updateChannel ep_removeChannel ep_channels refused_once (ClEnableRetry # ClConnect True # reconnects) (TcpClient_new ''c'' EPollPoller_new)"
  by code_simp

lemma reconnects_result:
  "map_option (\<lambda>s. (cl_connection s, cl_conns s, cl_calls s))
     (run_ops (cl_step ep_updateChannel ep_removeChannel ep_channels refused_once) (ClEnableRetry # ClConnect True # reconnects)
       (TcpClient_new ''c'' EPollPoller_new)) =
   Some (Some 1, [(''c:1.2.3.4:80#1'', 6), (''c:1.2.3.4:80#2'', 7)], [(0, ClEstablished), (0, ClClosed), (0, ClDestroyed), (1, ClEstablished)])"
  by code_simp

theorem muduo_client_witness:
  "\<exists>s. run_ops (cl_step ep_updateChannel ep_removeChannel ep_channels refused_once) (ClEnableRetry # ClConnect True # reconnects)
       (TcpClient_new ''c'' EPollPoller_new) = Some s \<and> cl_data s \<and> cl_trying refused_once s \<and>
     cl_calls s = [(0, ClEstablished), (0, ClClosed), (0, ClDestroyed), (1, ClEstablished)]"
  using muduo_client [OF _ reconnects_possible] reconnects_result by (auto simp: returns_iff refused_once_def reconnects_def)

text \<open>Without retry, the state of the connector stays \<open>kConnected\<close> after the connection was closed, so a second \<open>connect\<close> fails the assertion
  of \<open>startInLoop\<close>.\<close>

lemma second_connect_aborts:
  "run_ops (cl_step ep_updateChannel ep_removeChannel ep_channels refused_once)
     [ClConnect True, ClTimer, ClIO EPOLLOUT 0 False False ''1.2.3.4:80'', ClPending, ClClose, ClPending, ClConnect True]
     (TcpClient_new ''c'' EPollPoller_new) = None"
  by code_simp

end
