(* ===== verification/MuduoDate.thy ===== *)
theory MuduoDate
  imports HttpMessage "HOL-Library.Signed_Division"
begin

text \<open>
  The class \<open>Date\<close> of the bundled muduo library, \<open>src/muduo_source_code/muduo/base/Date.h\<close> and \<open>Date.cc\<close>: a day of
  the Gregorian calendar as a Julian day number. The arithmetic is that of C on \<open>int\<close>: division
  truncates towards zero (\<open>sdiv\<close>, \<open>smod\<close>), and an intermediate value outside 32 bits is undefined
  behaviour, the outcome \<open>None\<close>. Each computation lists the values it passes through.

  The specification is the calendar itself: the lengths of the months, the rule of leap years and the successor
  of a day. The theory shows that consecutive days have consecutive numbers and that the two
  conversions are inverse to each other.
\<close>

section \<open>Definitions\<close>

definition fits_int :: "int \<Rightarrow> bool" where
  "fits_int x \<longleftrightarrow> - (2 ^ 31) \<le> x \<and> x < 2 ^ 31"

definition checked :: "int list \<Rightarrow> 'a \<Rightarrow> 'a option" where
  "checked vs r = (if list_all fits_int vs then Some r else None)"

definition getJulianDayNumber :: "int \<Rightarrow> int \<Rightarrow> int \<Rightarrow> int option" where
  "getJulianDayNumber year month day =
     (let a = (14 - month) sdiv 12;
          y = year + 4800 - a;
          m = month + 12 * a - 3;
          t1 = day + (153 * m + 2) sdiv 5;
          t2 = t1 + y * 365;
          t3 = t2 + y sdiv 4;
          t4 = t3 - y sdiv 100;
          t5 = t4 + y sdiv 400;
          r = t5 - 32045
      in checked [14 - month, year + 4800, y, 12 * a, month + 12 * a, m, 153 * m, 153 * m + 2, t1, y * 365, t2, t3, t4, t5, r] r)"

record YearMonthDay =
  year :: int
  month :: int
  day :: int

definition getYearMonthDay :: "int \<Rightarrow> YearMonthDay option" where
  "getYearMonthDay julianDayNumber =
     (let a = julianDayNumber + 32044;
          b = (4 * a + 3) sdiv 146097;
          c = a - (b * 146097) sdiv 4;
          d = (4 * c + 3) sdiv 1461;
          e = c - (1461 * d) sdiv 4;
          m = (5 * e + 2) sdiv 153
      in checked [a, 4 * a, 4 * a + 3, b * 146097, c, 4 * c, 4 * c + 3, 1461 * d, e, 5 * e, 5 * e + 2, 153 * m, 153 * m + 2,
                  e - (153 * m + 2) sdiv 5, e - (153 * m + 2) sdiv 5 + 1, m + 3, 12 * (m sdiv 10), m + 3 - 12 * (m sdiv 10),
                  b * 100, b * 100 + d, b * 100 + d - 4800, b * 100 + d - 4800 + m sdiv 10]
           \<lparr>year = b * 100 + d - 4800 + m sdiv 10,
            month = m + 3 - 12 * (m sdiv 10),
            day = e - (153 * m + 2) sdiv 5 + 1\<rparr>)"

text \<open>A date is its day number; 0 is the invalid date.\<close>

definition Date_invalid :: int where "Date_invalid = 0"
definition Date_ymd :: "int \<Rightarrow> int \<Rightarrow> int \<Rightarrow> int option" where "Date_ymd y m d = getJulianDayNumber y m d"
definition Date_tm :: "int \<Rightarrow> int \<Rightarrow> int \<Rightarrow> int option" where
  "Date_tm tm_year tm_mon tm_mday = do { checked [tm_year + 1900, tm_mon + 1] (); getJulianDayNumber (tm_year + 1900) (tm_mon + 1) tm_mday }"
definition Date_valid :: "int \<Rightarrow> bool" where "Date_valid j = (j > 0)"
definition Date_year :: "int \<Rightarrow> int option" where "Date_year j = map_option year (getYearMonthDay j)"
definition Date_month :: "int \<Rightarrow> int option" where "Date_month j = map_option month (getYearMonthDay j)"
definition Date_day :: "int \<Rightarrow> int option" where "Date_day j = map_option day (getYearMonthDay j)"
definition kDaysPerWeek :: int where "kDaysPerWeek = 7"
definition weekDay :: "int \<Rightarrow> int option" where "weekDay j = checked [j + 1] ((j + 1) smod kDaysPerWeek)"
definition Date_less :: "int \<Rightarrow> int \<Rightarrow> bool" where "Date_less x y = (x < y)"
definition Date_eq :: "int \<Rightarrow> int \<Rightarrow> bool" where "Date_eq x y = (x = y)"

text \<open>\<open>%4d\<close> pads with spaces and \<open>%02d\<close> with zeros (after the sign) to a width; \<open>snprintf\<close> keeps at most 31 characters.\<close>

definition pad_left :: "nat \<Rightarrow> char \<Rightarrow> bytes \<Rightarrow> bytes" where
  "pad_left w c s = replicate (w - length s) c @ s"

definition zero_pad :: "nat \<Rightarrow> int \<Rightarrow> bytes" where
  "zero_pad w i = (if i < 0 then CHR ''-'' # pad_left (w - 1) (CHR ''0'') (to_string (- i)) else pad_left w (CHR ''0'') (to_string i))"

definition toIsoString :: "int \<Rightarrow> bytes option" where
  "toIsoString j = do {
     ymd \<leftarrow> getYearMonthDay j;
     Some (take 31 (pad_left 4 (CHR '' '') (to_string (year ymd)) @ ''-'' @ zero_pad 2 (month ymd) @ ''-'' @ zero_pad 2 (day ymd)))
   }"

section \<open>The calendar\<close>

definition leap :: "int \<Rightarrow> bool" where
  "leap y \<longleftrightarrow> 4 dvd y \<and> (\<not> 100 dvd y \<or> 400 dvd y)"

definition month_length :: "int \<Rightarrow> int \<Rightarrow> int" where
  "month_length y m = (if m = 2 then (if leap y then 29 else 28) else if m \<in> {4, 6, 9, 11} then 30 else 31)"

definition proper :: "YearMonthDay \<Rightarrow> bool" where
  "proper t \<longleftrightarrow> 1 \<le> month t \<and> month t \<le> 12 \<and> 1 \<le> day t \<and> day t \<le> month_length (year t) (month t)"

definition next_day :: "YearMonthDay \<Rightarrow> YearMonthDay" where
  "next_day t =
     (if day t < month_length (year t) (month t) then t\<lparr>day := day t + 1\<rparr>
      else if month t < 12 then t\<lparr>month := month t + 1, day := 1\<rparr>
      else \<lparr>year = year t + 1, month = 1, day = 1\<rparr>)"

section \<open>The day number in terms of March years\<close>

text \<open>With the year starting in March, \<open>Y\<close> is the year and \<open>M\<close> the month; \<open>doy\<close> is the number of the day in it.\<close>

definition march_year :: "int \<Rightarrow> int \<Rightarrow> int" where "march_year y m = y + 4800 - (if m \<le> 2 then 1 else 0)"
definition march_month :: "int \<Rightarrow> int" where "march_month m = (if m \<le> 2 then m + 9 else m - 3)"
definition doy :: "int \<Rightarrow> int \<Rightarrow> int" where "doy M d = d - 1 + (153 * M + 2) div 5"
definition days_before :: "int \<Rightarrow> int" where "days_before Y = Y * 365 + Y div 4 - Y div 100 + Y div 400"

lemma sdiv_pos: "0 \<le> a \<Longrightarrow> 0 < b \<Longrightarrow> (a :: int) sdiv b = a div b"
  by (cases "a = 0") (simp_all add: signed_divide_int_def)

lemma march_a: "1 \<le> m \<Longrightarrow> m \<le> 12 \<Longrightarrow> (14 - m) sdiv 12 = (if m \<le> 2 then 1 else 0 :: int)"
  by (subst sdiv_pos) (auto intro: div_pos_pos_trivial simp: div_add_self2 [of 12, symmetric])

lemma march_month_range: "1 \<le> m \<Longrightarrow> m \<le> 12 \<Longrightarrow> 0 \<le> march_month m \<and> march_month m \<le> 11"
  by (auto simp: march_month_def)

lemma div_range: "0 \<le> (x :: int) \<Longrightarrow> 0 < k \<Longrightarrow> 0 \<le> x div k \<and> x div k \<le> x"
  using zdiv_mono2 [of x 1 k] by (simp add: pos_imp_zdiv_nonneg_iff)

lemma getJulianDayNumber_eq:
  assumes m: "1 \<le> m" "m \<le> 12" and d: "1 \<le> d" "d \<le> 31" and y: "0 \<le> march_year y m" "march_year y m \<le> 1500000"
  shows "getJulianDayNumber y m d = Some (doy (march_month m) d + days_before (march_year y m) - 32044)"
proof -
  let ?Y = "march_year y m" and ?M = "march_month m" and ?a = "(if m \<le> 2 then 1 else 0) :: int"
  have Y: "y + 4800 - ?a = ?Y" and M: "m + 12 * ?a - 3 = ?M" by (auto simp: march_year_def march_month_def)
  have Mr: "0 \<le> ?M" "?M \<le> 11" using march_month_range [OF m] by auto
  have s: "(153 * ?M + 2) sdiv 5 = (153 * ?M + 2) div 5" "?Y sdiv 4 = ?Y div 4" "?Y sdiv 100 = ?Y div 100" "?Y sdiv 400 = ?Y div 400"
    using Mr y by (simp_all add: sdiv_pos)
  have r: "0 \<le> (153 * ?M + 2) div 5" "(153 * ?M + 2) div 5 \<le> 153 * ?M + 2" "0 \<le> ?Y div 4" "?Y div 4 \<le> ?Y"
    "0 \<le> ?Y div 100" "?Y div 100 \<le> ?Y" "0 \<le> ?Y div 400" "?Y div 400 \<le> ?Y"
    using div_range [of "153 * ?M + 2" 5] div_range [of ?Y 4] div_range [of ?Y 100] div_range [of ?Y 400] Mr y by auto
  have a: "0 \<le> ?a" "?a \<le> 1" by auto
  define k q4 q100 q400 where q: "k = (153 * ?M + 2) div 5" "q4 = ?Y div 4" "q100 = ?Y div 100" "q400 = ?Y div 400"
  show ?thesis
    unfolding getJulianDayNumber_def Let_def march_a [OF m] Y M s checked_def doy_def days_before_def q [symmetric]
    using Mr y r [folded q] d m a Y M by (simp add: fits_int_def)
qed

text \<open>The day in a year starting in March gives back its month.\<close>

definition march_length :: "int \<Rightarrow> int" where
  "march_length M = (if M = 11 then 29 else if M \<in> {1, 3, 6, 8} then 30 else 31)"

lemma cases_12:
  assumes "0 \<le> M" "M \<le> (11 :: int)"
  shows "M = 0 \<or> M = 1 \<or> M = 2 \<or> M = 3 \<or> M = 4 \<or> M = 5 \<or> M = 6 \<or> M = 7 \<or> M = 8 \<or> M = 9 \<or> M = 10 \<or> M = 11"
  using assms by presburger

lemma doy_month:
  assumes "0 \<le> M" "M \<le> 11" "1 \<le> d" "d \<le> march_length M"
  shows "(5 * doy M d + 2) div 153 = M" and "0 \<le> doy M d" and "doy M d \<le> 365" and "doy M d = 365 \<Longrightarrow> M = 11 \<and> d = 29"
  using cases_12 [OF assms(1,2)] assms(3,4) unfolding doy_def march_length_def
  by (elim disjE; simp; presburger)+

text \<open>The number of a day gives back its year and its day in the year.\<close>

lemma split_day:
  fixes Y e :: int
  assumes Y: "0 \<le> Y" and e: "0 \<le> e" "e \<le> 365" and l: "e = 365 \<Longrightarrow> leap (Y + 1)"
  defines "A \<equiv> e + days_before Y" and "C \<equiv> Y div 100" and "r \<equiv> Y mod 100"
  defines "c \<equiv> e + 365 * r + r div 4"
  shows "0 \<le> A" and "A \<le> 366 * Y + 365" and "(4 * A + 3) div 146097 = C" and "A - (C * 146097) div 4 = c"
    and "(4 * c + 3) div 1461 = r" and "c - (1461 * r) div 4 = e"
proof -
  define q s u v where "q = C div 4" and "s = C mod 4" and "u = r div 4" and "v = r mod 4"
  have YC: "Y = 100 * C + r" and Cq: "C = 4 * q + s" and ru: "r = 4 * u + v" by (simp_all add: C_def r_def q_def s_def u_def v_def)
  have b: "0 \<le> r" "r < 100" "0 \<le> s" "s < 4" "0 \<le> v" "v < 4" "0 \<le> C" "0 \<le> q" "0 \<le> u"
    using Y by (simp_all add: r_def s_def v_def C_def q_def u_def pos_imp_zdiv_nonneg_iff)
  have "Y div 4 = 25 * C + u" using YC by (simp add: u_def)
  moreover have "Y div 400 = q" unfolding q_def C_def by (simp add: zdiv_zmult2_eq)
  moreover have "Y div 100 = C" by (simp add: C_def)
  ultimately have A: "A = 36524 * C + q + c"
    using YC unfolding A_def days_before_def c_def u_def [symmetric] by linarith
  have C4: "(C * 146097) div 4 = 36524 * C + q" 
    using Cq b by (intro int_div_pos_eq [of _ _ _ s]) simp_all
  have r4: "(1461 * r) div 4 = 365 * r + u" using ru b by (intro int_div_pos_eq [of _ _ _ v]) simp_all
  show "A - (C * 146097) div 4 = c" using A C4 by simp
  show "c - (1461 * r) div 4 = e" using r4 by (simp add: c_def u_def)
  show "0 \<le> A" using A b e by (simp add: c_def u_def)
  show "A \<le> 366 * Y + 365" using A b e Cq ru YC by (simp add: c_def u_def [symmetric])
  have v3: "v = 3" if "e = 365"
  proof -
    have "4 dvd 4 * (25 * C + u) + (v + 1)" using l [OF that] YC ru by (simp add: leap_def algebra_simps)
    then have "4 dvd v + 1" by (simp only: dvd_add_right_iff dvd_triv_left)
    then show ?thesis using b by presburger
  qed
  have "s = 3" if "e = 365" "r = 99"
  proof -
    have Y1: "Y + 1 = 100 * (C + 1)" using YC that by simp
    have "400 dvd 100 * (C + 1)" using l [OF that(1)] unfolding leap_def Y1 by (metis dvd_triv_left)
    then have "100 * 4 dvd 100 * (C + 1)" by simp
    then have "4 dvd C + 1" by (simp only: dvd_mult_cancel_left) simp
    then have "4 dvd 4 * q + (s + 1)" using Cq by (simp add: add.assoc)
    then have "4 dvd s + 1" by (simp only: dvd_add_right_iff dvd_triv_left)
    then show ?thesis using b by presburger
  qed
  moreover have "u \<le> 24" using b ru by linarith
  moreover have cu: "c = e + 365 * r + u" by (simp add: c_def u_def)
  ultimately have s3: "4 * c + 3 - s < 146097" using e b by (cases "e = 365"; cases "r = 99"; linarith)
  have "4 * A + 3 = 146097 * C + (4 * c + 3 - s)" using A Cq by simp
  moreover have "0 \<le> 4 * c + 3 - s" using b e by (simp add: c_def u_def)
  ultimately show "(4 * A + 3) div 146097 = C" using s3 by (intro int_div_pos_eq)
  have "4 * c + 3 = 1461 * r + (4 * e + 3 - v)" using ru cu by linarith
  moreover have "0 \<le> 4 * e + 3 - v" "4 * e + 3 - v < 1461" using v3 b e by (cases "e = 365"; simp)+
  ultimately show "(4 * c + 3) div 1461 = r" by (intro int_div_pos_eq)
qed

lemma sdiv_eq: "a div b = q \<Longrightarrow> 0 \<le> a \<Longrightarrow> 0 < b \<Longrightarrow> (a :: int) sdiv b = q"
  by (simp add: sdiv_pos)

lemma getYearMonthDay_eq:
  assumes M: "0 \<le> M" "M \<le> 11" and d: "1 \<le> d" "d \<le> march_length M" and l: "M = 11 \<Longrightarrow> d = 29 \<Longrightarrow> leap (Y + 1)"
    and Y: "0 \<le> Y" "Y \<le> 1400000"
  shows "getYearMonthDay (doy M d + days_before Y - 32044) =
    Some \<lparr>year = Y - 4800 + (if M \<le> 9 then 0 else 1), month = (if M \<le> 9 then M + 3 else M - 9), day = d\<rparr>"
proof -
  define e where "e = doy M d"
  note dm = doy_month [OF M d, folded e_def]
  have lp: "leap (Y + 1)" if "e = 365" using dm(4) [OF that] l by simp
  define A C r c k g h where defs: "A = e + days_before Y" "C = Y div 100" "r = Y mod 100" "c = e + 365 * r + r div 4" "k = (153 * M + 2) div 5"
    "g = (C * 146097) div 4" "h = (1461 * r) div 4"
  have sp: "0 \<le> A" "A \<le> 366 * Y + 365" "(4 * A + 3) div 146097 = C" "A - g = c" "(4 * c + 3) div 1461 = r" "c - h = e"
    unfolding defs by (rule split_day [OF Y(1) dm(2,3) lp], assumption)+
  have r: "0 \<le> r" "r < 100" "0 \<le> r div 4" "0 \<le> C" and YC: "C * 100 + r = Y" using Y by (simp_all add: defs(2,3) pos_imp_zdiv_nonneg_iff)
  have c: "0 \<le> c" unfolding defs(4) using r dm(2) by (intro add_nonneg_nonneg) simp_all
  have rc: "4 * c + 3 \<le> 1461 * r + 1460" using div_mult_mod_eq [of "4 * c + 3" 1461] pos_mod_bound [of 1461 "4 * c + 3"] unfolding sp(5) by linarith
  have Cr: "C * 146097 \<le> 4 * A + 3"
    using div_mult_mod_eq [of "4 * A + 3" 146097] pos_mod_sign [of 146097 "4 * A + 3"] unfolding sp(3) by linarith
  have kd: "e - k + 1 = d" by (simp add: e_def doy_def defs(5))
  have s: "(4 * A + 3) sdiv 146097 = C" "(C * 146097) sdiv 4 = g" "(4 * c + 3) sdiv 1461 = r"
    "(1461 * r) sdiv 4 = h" "(5 * e + 2) sdiv 153 = M" "(153 * M + 2) sdiv 5 = k"
    using sp(1) c r dm(2) M by (auto intro!: sdiv_eq simp: sp(3,5) dm(1) defs(5-7))
  have m10: "M sdiv 10 = (if M \<le> 9 then 0 else 1)"
    using M by (auto intro!: sdiv_eq intro: int_div_pos_eq [of _ _ _ M] int_div_pos_eq [of _ _ _ "M - 10"])
  have a: "doy M d + days_before Y - 32044 + 32044 = A" by (simp add: defs(1) e_def)
  have dr: "d \<le> 31" using d by (auto simp: march_length_def split: if_splits)
  show ?thesis
    unfolding getYearMonthDay_def Let_def a s sp(4,6) m10 YC kd checked_def
    using M Y sp(1,2) Cr r c rc dm(2,3) d(1) dr kd by (simp add: fits_int_def)
qed

section \<open>Dates are calendar days\<close>

lemma leap_shift: "leap (y + 4800) = leap y"
proof -
  have "4 dvd y + 4 * 1200 \<longleftrightarrow> 4 dvd y" "100 dvd y + 100 * 48 \<longleftrightarrow> 100 dvd y" "400 dvd y + 400 * 12 \<longleftrightarrow> 400 dvd y"
    by (simp_all only: dvd_add_left_iff dvd_triv_left)
  then show ?thesis by (simp add: leap_def)
qed

lemma proper_march:
  assumes "proper t"
  shows "day t \<le> march_length (march_month (month t))" and "1 \<le> month t" "month t \<le> 12" "1 \<le> day t" "day t \<le> 31"
    and "march_month (month t) = 11 \<Longrightarrow> day t = 29 \<Longrightarrow> leap (march_year (year t) (month t) + 1)"
  using assms leap_shift [of "year t"]
  by (auto simp: add.commute proper_def month_length_def march_length_def march_month_def march_year_def split: if_splits)

lemma date_number:
  assumes "proper t" and "- 4799 \<le> year t" and "year t \<le> 1000000"
  shows "getJulianDayNumber (year t) (month t) (day t) =
    Some (doy (march_month (month t)) (day t) + days_before (march_year (year t) (month t)) - 32044)"
  using proper_march [OF assms(1)] assms(2,3) by (intro getJulianDayNumber_eq) (auto simp: march_year_def)

lemma number_date:
  assumes "proper t" and "- 4799 \<le> year t" and "year t \<le> 1000000"
  shows "getYearMonthDay (doy (march_month (month t)) (day t) + days_before (march_year (year t) (month t)) - 32044) = Some t"
proof -
  note p = proper_march [OF assms(1)]
  have "0 \<le> march_year (year t) (month t)" "march_year (year t) (month t) \<le> 1400000" using assms(2,3) by (auto simp: march_year_def)
  from getYearMonthDay_eq [OF _ _ p(4,1,6) this] march_month_range [OF p(2,3)] show ?thesis
    using p(2,3) by (auto simp: march_year_def march_month_def split: if_splits)
qed

text \<open>A March year has 365 days, and 366 if its February is that of a leap year.\<close>

lemma div_step: "0 < (k :: int) \<Longrightarrow> (x + 1) div k = x div k + (if k dvd x + 1 then 1 else 0)"
proof -
  assume k: "0 < k"
  have m: "0 \<le> x mod k" "x mod k < k" using k by simp_all
  have x: "x + 1 = k * (x div k) + (x mod k + 1)" by simp
  show ?thesis
  proof (cases "x mod k + 1 = k")
    case True
    then have "x + 1 = k * (x div k + 1)" using x by (simp add: algebra_simps)
    then show ?thesis using k by simp
  next
    case False
    then have "(x + 1) div k = x div k" using x m by (intro int_div_pos_eq [of _ _ _ "x mod k + 1"]) auto
    moreover have "(x + 1) mod k = x mod k + 1" using x m False by (intro int_mod_pos_eq [of _ _ "x div k"]) auto
    then have "\<not> k dvd x + 1" using m by (simp add: dvd_eq_mod_eq_0)
    ultimately show ?thesis by simp
  qed
qed

lemma dvd_chain: "(400 :: int) dvd x \<Longrightarrow> 100 dvd x" "(100 :: int) dvd x \<Longrightarrow> 4 dvd x"
  by (erule dvd_trans [rotated], simp)+

lemma days_before_step: "days_before (Y + 1) = days_before Y + (if leap (Y + 1) then 366 else 365)"
proof -
  obtain p q w where "Y div 4 = p" "Y div 100 = q" "Y div 400 = w" by blast
  then have "days_before (Y + 1) = days_before Y + 365 + (if 4 dvd Y + 1 then 1 else 0) - (if 100 dvd Y + 1 then 1 else 0)
      + (if 400 dvd Y + 1 then 1 else 0)"
    using div_step [of 4 Y] div_step [of 100 Y] div_step [of 400 Y] by (simp only: days_before_def) simp
  then show ?thesis using dvd_chain [of "Y + 1"] unfolding leap_def by presburger
qed

lemma days_before_4800 [simp]:
  "days_before (year t + 4800) = days_before (year t + 4799) + (if leap (year t) then 366 else 365)"
  "days_before (4800 + year t) = days_before (4799 + year t) + (if leap (year t) then 366 else 365)"
  using days_before_step [of "year t + 4799"] leap_shift [of "year t"] by (simp_all add: add.commute)

lemma date_number_next:
  assumes "proper t"
  shows "doy (march_month (month (next_day t))) (day (next_day t)) + days_before (march_year (year (next_day t)) (month (next_day t))) =
    doy (march_month (month t)) (day t) + days_before (march_year (year t) (month t)) + 1"
proof -
  have m: "1 \<le> month t" "month t \<le> 12" and d: "day t \<le> month_length (year t) (month t)" using assms by (auto simp: proper_def)
  consider "day t < month_length (year t) (month t)" | "day t = month_length (year t) (month t)" using d by linarith
  then show ?thesis
  proof cases
    case 1
    then show ?thesis by (simp add: next_day_def doy_def)
  next
    case 2
    have "month t - 1 = 0 \<or> month t - 1 = 1 \<or> month t - 1 = 2 \<or> month t - 1 = 3 \<or> month t - 1 = 4 \<or> month t - 1 = 5 \<or>
       month t - 1 = 6 \<or> month t - 1 = 7 \<or> month t - 1 = 8 \<or> month t - 1 = 9 \<or> month t - 1 = 10 \<or> month t - 1 = 11"
      using m by (intro cases_12) auto
    then show ?thesis
      using 2 by (elim disjE) (simp_all add: next_day_def doy_def month_length_def march_month_def march_year_def add.commute)
  qed
qed

lemma proper_next: "proper t \<Longrightarrow> proper (next_day t)"
  by (auto simp: proper_def next_day_def month_length_def split: if_splits)

lemma year_next: "year t \<le> year (next_day t)" "year (next_day t) \<le> year t + 1"
  by (auto simp: next_day_def)

text \<open>The fixed point and the days of the week: 1 January 1970 was a Thursday.\<close>

lemma epoch_day: "getJulianDayNumber 1970 1 1 = Some 2440588" "weekDay 2440588 = Some 4"
  by (simp_all add: getJulianDayNumber_def weekDay_def checked_def fits_int_def signed_divide_int_def signed_modulo_int_def kDaysPerWeek_def)

lemma smod_pos: "0 \<le> a \<Longrightarrow> 0 < b \<Longrightarrow> (a :: int) smod b = a mod b"
  by (cases "a = 0") (simp_all add: signed_modulo_int_def)

lemma weekDay_next:
  "0 \<le> j \<Longrightarrow> j + 2 < 2 ^ 31 \<Longrightarrow> \<exists>w. weekDay j = Some w \<and> 0 \<le> w \<and> w < 7 \<and> weekDay (j + 1) = Some ((w + 1) mod 7)"
  by (simp add: weekDay_def checked_def fits_int_def kDaysPerWeek_def smod_pos) presburger

text \<open>
  C30. Dates are days of the Gregorian calendar. For every proper date from the year -4799 to the year 999999 no
  computation overflows, the date has a day number, the number gives back year, month and
  day, and the next number belongs to the next day of the calendar, across the ends of months, leap years and centuries.
\<close>

theorem date_calendar:
  assumes "proper t" and "- 4799 \<le> year t" and "year t < 1000000"
  shows "\<exists>j. Date_ymd (year t) (month t) (day t) = Some j \<and> getYearMonthDay j = Some t \<and>
    Date_ymd (year (next_day t)) (month (next_day t)) (day (next_day t)) = Some (j + 1) \<and> getYearMonthDay (j + 1) = Some (next_day t)"
proof -
  have n: "proper (next_day t)" "- 4799 \<le> year (next_day t)" "year (next_day t) \<le> 1000000"
    using assms proper_next year_next [of t] by auto
  let ?n = "\<lambda>t. doy (march_month (month t)) (day t) + days_before (march_year (year t) (month t)) - 32044"
  have "?n (next_day t) = ?n t + 1" using date_number_next [OF assms(1)] by simp
  then show ?thesis
    using date_number [of t] number_date [of t] date_number [OF n] number_date [OF n] assms
    by (intro exI [of _ "?n t"]) (simp add: Date_ymd_def)
qed

theorem date_calendar_witness:
  "\<exists>j. Date_ymd 2024 2 29 = Some j \<and> getYearMonthDay j = Some \<lparr>year = 2024, month = 2, day = 29\<rparr> \<and>
     getYearMonthDay (j + 1) = Some \<lparr>year = 2024, month = 3, day = 1\<rparr>"
proof -
  have l: "leap 2024" by (simp add: leap_def)
  then show ?thesis
    using date_calendar [of "\<lparr>year = 2024, month = 2, day = 29\<rparr>"]
    by (auto simp: proper_def month_length_def next_day_def)
qed

text \<open>The printed form.\<close>

lemma toIsoString_example: "toIsoString 2440588 = Some ''1970-01-01''"
  by code_simp

end
