(* ===== verification/MuduoTimeZone.thy ===== *)
theory MuduoTimeZone
  imports MuduoDate
begin

text \<open>
  Time zones of the bundled muduo library, \<open>src/muduo_source_code/muduo/base/TimeZone.h\<close> and \<open>TimeZone.cc\<close>: the
  conversion of seconds since the epoch to a broken-down time and back, the table of transitions of a zone and the
  conversions to and from local time.

  Seconds are the integers of \<open>int64_t\<close>, and a conversion to \<open>int\<close> keeps 32 bits; \<open>None\<close> is a failed assertion, an access outside
  a vector or an overflow of the arithmetic of dates. The specification of a zone is the function that gives
  each instant its offset; the theory shows that the conversion to local time follows it and that the conversion back is its
  inverse, taking the earlier or the later of two instants with the same local time as
  asked.
\<close>

section \<open>Broken-down times\<close>

definition to_int32 :: "int \<Rightarrow> int" where
  "to_int32 x = sint (word_of_int x :: 32 word)"

record DateTime =
  dt_year :: int
  dt_month :: int
  dt_day :: int
  dt_hour :: int
  dt_minute :: int
  dt_second :: int

definition DateTime_new :: DateTime where
  "DateTime_new = \<lparr>dt_year = 0, dt_month = 0, dt_day = 0, dt_hour = 0, dt_minute = 0, dt_second = 0\<rparr>"

definition DateTime_toIsoString :: "DateTime \<Rightarrow> bytes" where
  "DateTime_toIsoString dt =
     take 63 (zero_pad 4 (dt_year dt) @ ''-'' @ zero_pad 2 (dt_month dt) @ ''-'' @ zero_pad 2 (dt_day dt) @ '' '' @
       zero_pad 2 (dt_hour dt) @ '':'' @ zero_pad 2 (dt_minute dt) @ '':'' @ zero_pad 2 (dt_second dt))"

text \<open>The day number of the epoch is \<open>getJulianDayNumber(1970, 1, 1)\<close> in the code; \<open>epoch_day\<close> shows that this is its value.\<close>

definition kSecondsPerDay :: int where "kSecondsPerDay = 24 * 60 * 60"
definition kJulianDayOf1970_01_01 :: int where "kJulianDayOf1970_01_01 = 2440588"

definition fillHMS :: "int \<Rightarrow> DateTime \<Rightarrow> DateTime" where
  "fillHMS seconds dt =
     (let minutes = seconds div 60
      in dt\<lparr>dt_second := seconds mod 60, dt_minute := minutes mod 60, dt_hour := minutes div 60\<rparr>)"

definition BreakTime :: "int \<Rightarrow> DateTime option" where
  "BreakTime t =
     (let seconds0 = to_int32 (t smod kSecondsPerDay);
          days0 = to_int32 (t sdiv kSecondsPerDay);
          seconds = (if seconds0 < 0 then seconds0 + kSecondsPerDay else seconds0);
          days = (if seconds0 < 0 then days0 - 1 else days0);
          dt = fillHMS seconds DateTime_new
      in do {
        checked [days, days + kJulianDayOf1970_01_01] ();
        ymd \<leftarrow> getYearMonthDay (days + kJulianDayOf1970_01_01);
        Some (dt\<lparr>dt_year := year ymd, dt_month := month ymd, dt_day := day ymd\<rparr>)
      })"

definition toUtcTime :: "int \<Rightarrow> DateTime option" where
  "toUtcTime secondsSinceEpoch = BreakTime secondsSinceEpoch"

definition fromUtcTime :: "DateTime \<Rightarrow> int option" where
  "fromUtcTime dt = do {
     j \<leftarrow> Date_ymd (dt_year dt) (dt_month dt) (dt_day dt);
     checked [dt_hour dt * 3600, dt_minute dt * 60, dt_hour dt * 3600 + dt_minute dt * 60,
       dt_hour dt * 3600 + dt_minute dt * 60 + dt_second dt, j - kJulianDayOf1970_01_01] ();
     Some ((j - kJulianDayOf1970_01_01) * kSecondsPerDay + (dt_hour dt * 3600 + dt_minute dt * 60 + dt_second dt))
   }"

section \<open>Broken-down times are inverse to seconds\<close>

lemma to_int32_id: "fits_int x \<Longrightarrow> to_int32 x = x"
  by (simp add: to_int32_def fits_int_def sint_sbintrunc' signed_take_bit_int_eq_self)

text \<open>Truncating division followed by the correction is division rounding down.\<close>

lemma floor_fix:
  assumes k: "0 < (k :: int)"
  shows "t mod k = (if t smod k < 0 then t smod k + k else t smod k)"
    and "t div k = (if t smod k < 0 then t sdiv k - 1 else t sdiv k)"
proof -
  have t: "t = k * (t sdiv k) + t smod k" by (simp add: mult_sdiv_smod_eq)
  have r: "- k < t smod k" "t smod k < k" using smod_int_range [of k t] k by auto
  have t': "t = k * (t sdiv k - 1) + (t smod k + k)" using t by (simp add: algebra_simps)
  show "t mod k = (if t smod k < 0 then t smod k + k else t smod k)"
    using int_mod_pos_eq [OF t] int_mod_pos_eq [OF t'] r k by auto
  show "t div k = (if t smod k < 0 then t sdiv k - 1 else t sdiv k)"
    using int_div_pos_eq [OF t] int_div_pos_eq [OF t'] r k by auto
qed

text \<open>The days whose numbers are covered: 0 is in the year -4713, and 300000000 after the year 800000.\<close>

definition covered_day :: "int \<Rightarrow> bool" where
  "covered_day j \<longleftrightarrow> 0 \<le> j \<and> j \<le> 300000000"

definition covered :: "int \<Rightarrow> bool" where
  "covered t \<longleftrightarrow> covered_day (t div kSecondsPerDay + kJulianDayOf1970_01_01)"

abbreviation day_number :: "YearMonthDay \<Rightarrow> int" where
  "day_number t \<equiv> doy (march_month (month t)) (day t) + days_before (march_year (year t) (month t)) - 32044"

lemma days_before_mono: "0 \<le> Y \<Longrightarrow> 365 * Y \<le> days_before Y"
proof -
  assume Y: "0 \<le> Y"
  define a b c where "a = Y div 4" and "b = Y div 100" and "c = Y div 400"
  have "b \<le> a" "0 \<le> c" using zdiv_mono2 [of Y 4 100] Y by (simp_all add: a_def b_def c_def pos_imp_zdiv_nonneg_iff)
  then show ?thesis unfolding days_before_def a_def [symmetric] b_def [symmetric] c_def [symmetric] by simp
qed

lemma year_bound:
  assumes "proper t" "- 4799 \<le> year t" "day_number t \<le> 300000000"
  shows "year t < 1000000"
proof -
  have m: "0 \<le> doy (march_month (month t)) (day t)"
    using proper_march [OF assms(1)] march_month_range [of "month t"] by (intro doy_month) auto
  have "0 \<le> march_year (year t) (month t)" "year t + 4799 \<le> march_year (year t) (month t)"
    using assms(2) by (auto simp: march_year_def)
  then show ?thesis using days_before_mono [of "march_year (year t) (month t)"] m assms(3) by linarith
qed

lemma day_reached:
  "\<exists>t. proper t \<and> - 4799 \<le> year t \<and> day_number t = int n - 31738"
proof (induction n)
  case 0
  let ?t = "\<lparr>year = - 4799, month = 1, day = 1\<rparr>"
  have "proper ?t \<and> - 4799 \<le> year ?t \<and> day_number ?t = int 0 - 31738"
    by (simp add: proper_def month_length_def doy_def march_month_def march_year_def days_before_def)
  then show ?case by blast
next
  case (Suc n)
  then obtain t where "proper t" "- 4799 \<le> year t" "day_number t = int n - 31738" by blast
  then show ?case using proper_next [of t] year_next [of t] date_number_next [of t] by (intro exI [of _ "next_day t"]) auto
qed

lemma covered_date:
  assumes "covered_day j"
  obtains t where "proper t" "- 4799 \<le> year t" "year t < 1000000" "getYearMonthDay j = Some t"
    "Date_ymd (year t) (month t) (day t) = Some j"
proof -
  obtain t where t: "proper t" "- 4799 \<le> year t" "day_number t = int (nat (j + 31738)) - 31738"
    using day_reached by blast
  then have j: "day_number t = j" using assms by (simp add: covered_day_def)
  have y: "year t < 1000000" using year_bound [OF t(1,2)] j assms by (simp add: covered_day_def)
  from that [OF t(1,2) y] show ?thesis
    using number_date [OF t(1,2)] date_number [OF t(1,2)] y j by (simp add: Date_ymd_def)
qed

definition proper_time :: "DateTime \<Rightarrow> bool" where
  "proper_time dt \<longleftrightarrow> proper \<lparr>year = dt_year dt, month = dt_month dt, day = dt_day dt\<rparr> \<and>
     0 \<le> dt_hour dt \<and> dt_hour dt < 24 \<and> 0 \<le> dt_minute dt \<and> dt_minute dt < 60 \<and> 0 \<le> dt_second dt \<and> dt_second dt < 60"

lemma hms:
  assumes "0 \<le> (s :: int)" "s < 86400"
  shows "0 \<le> s div 60 div 60" "s div 60 div 60 < 24" "0 \<le> s div 60 mod 60" "s div 60 mod 60 < 60" "0 \<le> s mod 60" "s mod 60 < 60"
    "s div 60 div 60 * 3600 + s div 60 mod 60 * 60 + s mod 60 = s"
proof -
  define m where "m = s div 60"
  have s: "s = 60 * m + s mod 60" "0 \<le> s mod 60" "s mod 60 < 60" by (simp_all add: m_def)
  define h where "h = m div 60"
  have m: "m = 60 * h + m mod 60" "0 \<le> m mod 60" "m mod 60 < 60" by (simp_all add: h_def)
  show "0 \<le> s div 60 div 60" "s div 60 div 60 < 24" "0 \<le> s div 60 mod 60" "s div 60 mod 60 < 60" "0 \<le> s mod 60" "s mod 60 < 60"
    "s div 60 div 60 * 3600 + s div 60 mod 60 * 60 + s mod 60 = s"
    unfolding m_def [symmetric] h_def [symmetric] using s m assms by linarith+
qed

lemma BreakTime_eq:
  assumes "covered t"
  shows "BreakTime t = do {
     ymd \<leftarrow> getYearMonthDay (t div kSecondsPerDay + kJulianDayOf1970_01_01);
     Some ((fillHMS (t mod kSecondsPerDay) DateTime_new)\<lparr>dt_year := year ymd, dt_month := month ymd, dt_day := day ymd\<rparr>)
   }"
proof -
  define K d s m where "K = kSecondsPerDay" and "d = t div K" and "s = t sdiv K" and "m = t smod K"
  have K: "0 < K" "K = 86400" by (simp_all add: K_def kSecondsPerDay_def)
  have c: "- 2440588 \<le> d" "d \<le> 297559412"
    using assms by (simp_all add: covered_def covered_day_def kJulianDayOf1970_01_01_def d_def K_def)
  have e: "t mod K = (if m < 0 then m + K else m)" "d = (if m < 0 then s - 1 else s)"
    using floor_fix [OF K(1)] by (simp_all add: m_def s_def d_def)
  have m: "- 86400 < m" "m < 86400" using smod_int_range [of K t] K by (auto simp: m_def)
  have f: "fits_int s" "fits_int m" "fits_int d" "fits_int (d + kJulianDayOf1970_01_01)"
    using c e(2) m by (auto simp: fits_int_def kJulianDayOf1970_01_01_def split: if_splits)
  show ?thesis
    unfolding BreakTime_def Let_def K_def [symmetric] d_def [symmetric] s_def [symmetric] m_def [symmetric] e(1)
    using f e(2) by (cases "m < 0") (simp_all add: to_int32_id checked_def)
qed

lemma BreakTime_fromUtcTime:
  assumes "covered t"
  obtains dt where "BreakTime t = Some dt" "proper_time dt" "- 4799 \<le> dt_year dt" "dt_year dt < 1000000" "fromUtcTime dt = Some t"
proof -
  let ?j = "t div kSecondsPerDay + kJulianDayOf1970_01_01" and ?s = "t mod kSecondsPerDay"
  have K: "0 < kSecondsPerDay" "kSecondsPerDay \<le> 86400" by (simp_all add: kSecondsPerDay_def)
  have j: "covered_day ?j" using assms by (simp add: covered_def)
  obtain ymd where y: "proper ymd" "- 4799 \<le> year ymd" "year ymd < 1000000" "getYearMonthDay ?j = Some ymd"
    "Date_ymd (year ymd) (month ymd) (day ymd) = Some ?j"
    using covered_date [OF j] by blast
  define dt where "dt = (fillHMS ?s DateTime_new)\<lparr>dt_year := year ymd, dt_month := month ymd, dt_day := day ymd\<rparr>"
  have s: "0 \<le> ?s" "?s < 86400" using pos_mod_sign [OF K(1), of t] pos_mod_bound [OF K(1), of t] K(2) by linarith+
  note h = hms [OF s]
  have b: "BreakTime t = Some dt" using BreakTime_eq [OF assms] y(4) by (simp add: dt_def)
  moreover have f: "dt_second dt = ?s mod 60" "dt_minute dt = ?s div 60 mod 60" "dt_hour dt = ?s div 60 div 60"
    "dt_year dt = year ymd" "dt_month dt = month ymd" "dt_day dt = day ymd"
    by (simp_all add: dt_def fillHMS_def Let_def)
  have "\<lparr>year = year ymd, month = month ymd, day = day ymd\<rparr> = ymd" by simp
  with y(1) h have p: "proper_time dt" unfolding proper_time_def f by metis
  moreover have sum: "dt_hour dt * 3600 + dt_minute dt * 60 + dt_second dt = ?s" unfolding f by (rule h(7))
  have "fits_int (dt_hour dt * 3600)" "fits_int (dt_minute dt * 60)" "fits_int (dt_hour dt * 3600 + dt_minute dt * 60)"
    "fits_int (?j - kJulianDayOf1970_01_01)" "fits_int ?s"
    using p j s by (auto simp: proper_time_def fits_int_def covered_day_def kJulianDayOf1970_01_01_def)
  then have "fromUtcTime dt = Some t"
    using y(5) unfolding fromUtcTime_def f(4-6) sum by (simp add: checked_def)
  ultimately show ?thesis using that [of dt] y(2,3) f(4) by simp
qed

text \<open>The conversion back is determined by the date and the seconds of the day.\<close>

lemma day_bounds:
  assumes "proper ymd" "- 4700 \<le> year ymd" "year ymd < 800000"
  shows "covered_day (day_number ymd)"
proof -
  let ?Y = "march_year (year ymd) (month ymd)"
  have d: "0 \<le> doy (march_month (month ymd)) (day ymd)" "doy (march_month (month ymd)) (day ymd) \<le> 365"
    using proper_march [OF assms(1)] march_month_range [of "month ymd"] by (auto intro!: doy_month(2,3))
  have Y: "99 \<le> ?Y" "?Y \<le> 804799" using assms(2,3) by (auto simp: march_year_def)
  have "365 * ?Y \<le> days_before ?Y" using days_before_mono [of ?Y] Y by simp
  moreover have "days_before ?Y \<le> 367 * ?Y"
    unfolding days_before_def using div_range [of ?Y 4] div_range [of ?Y 100] div_range [of ?Y 400] Y by linarith
  ultimately show ?thesis using d Y unfolding covered_day_def by linarith
qed

lemma fillHMS_inverse:
  fixes h m s :: int
  assumes "0 \<le> h" "0 \<le> m" "m < 60" "0 \<le> s" "s < 60"
  shows "fillHMS (h * 3600 + m * 60 + s) dt = dt\<lparr>dt_second := s, dt_minute := m, dt_hour := h\<rparr>"
proof -
  have e: "h * 3600 + m * 60 + s = 60 * (h * 60 + m) + s" "h * 60 + m = 60 * h + m" by simp_all
  have "(h * 3600 + m * 60 + s) div 60 = h * 60 + m" "(h * 3600 + m * 60 + s) mod 60 = s"
    using int_div_pos_eq [OF e(1)] int_mod_pos_eq [OF e(1)] assms by simp_all
  moreover have "(h * 60 + m) div 60 = h" "(h * 60 + m) mod 60 = m"
    using int_div_pos_eq [OF e(2)] int_mod_pos_eq [OF e(2)] assms by simp_all
  ultimately show ?thesis unfolding fillHMS_def Let_def by metis
qed

lemma fromUtcTime_BreakTime:
  assumes p: "proper_time dt" and y: "- 4700 \<le> dt_year dt" "dt_year dt < 800000"
  obtains t where "fromUtcTime dt = Some t" "BreakTime t = Some dt" "covered t"
proof -
  let ?y = "\<lparr>year = dt_year dt, month = dt_month dt, day = dt_day dt\<rparr>"
  let ?j = "day_number ?y" and ?s = "dt_hour dt * 3600 + dt_minute dt * 60 + dt_second dt"
  have pr: "proper ?y" using p by (simp add: proper_time_def)
  have b: "- 4799 \<le> year ?y" "year ?y \<le> 1000000" using y by simp_all
  have j: "covered_day ?j" using day_bounds [OF pr] y by simp
  have h: "0 \<le> dt_hour dt" "dt_hour dt < 24" "0 \<le> dt_minute dt" "dt_minute dt < 60" "0 \<le> dt_second dt" "dt_second dt < 60"
    using p by (simp_all add: proper_time_def)
  define t where "t = (?j - kJulianDayOf1970_01_01) * kSecondsPerDay + ?s"
  have s: "0 \<le> ?s" "?s < kSecondsPerDay" using h by (simp_all add: kSecondsPerDay_def)
  have t: "t = kSecondsPerDay * (?j - kJulianDayOf1970_01_01) + ?s" by (simp add: t_def mult.commute)
  have dm: "t div kSecondsPerDay = ?j - kJulianDayOf1970_01_01" "t mod kSecondsPerDay = ?s"
    using int_div_pos_eq [OF t s] int_mod_pos_eq [OF t s] by simp_all
  have c: "covered t" using j unfolding covered_def dm(1) by simp
  have "fits_int (dt_hour dt * 3600)" "fits_int (dt_minute dt * 60)" "fits_int (dt_hour dt * 3600 + dt_minute dt * 60)"
    "fits_int (?j - kJulianDayOf1970_01_01)" "fits_int ?s"
    using h j by (auto simp: fits_int_def covered_day_def kJulianDayOf1970_01_01_def)
  moreover have "Date_ymd (dt_year dt) (dt_month dt) (dt_day dt) = Some ?j"
    using date_number [OF pr b] by (simp add: Date_ymd_def)
  ultimately have "fromUtcTime dt = Some t" by (simp add: fromUtcTime_def checked_def t_def)
  moreover have "BreakTime t = Some dt"
    using number_date [OF pr b] unfolding BreakTime_eq [OF c] dm fillHMS_inverse [OF h(1,3-6)] by (cases dt) simp
  ultimately show ?thesis using that c by blast
qed

section \<open>Zones\<close>

record LocalTime =
  utcOffset :: int
  isDst :: bool
  desigIdx :: nat

record Transition =
  utctime :: int
  localtime :: int
  localtimeIdx :: nat

record TzData =
  transitions :: "Transition list"
  localtimes :: "LocalTime list"
  tz_abbreviation :: bytes
  tzstring :: bytes

definition TzData_new :: TzData where
  "TzData_new = \<lparr>transitions = [], localtimes = [], tz_abbreviation = [], tzstring = []\<rparr>"

definition addLocalTime :: "int \<Rightarrow> bool \<Rightarrow> nat \<Rightarrow> TzData \<Rightarrow> TzData" where
  "addLocalTime off dst idx d = d\<lparr>localtimes := localtimes d @ [\<lparr>utcOffset = off, isDst = dst, desigIdx = idx\<rparr>]\<rparr>"

text \<open>What a function does: it returns, throws an exception with its message, or has undefined behaviour.\<close>

datatype 'a outcome = Ret 'a | Thrown bytes | Undefined

definition fits_int64 :: "int \<Rightarrow> bool" where
  "fits_int64 x \<longleftrightarrow> - (2 ^ 63) \<le> x \<and> x < 2 ^ 63"

text \<open>An index outside the vector throws \<open>out_of_range\<close>; the sum of the time and the offset is an \<open>int64_t\<close> and may overflow.\<close>

definition addTransition :: "int \<Rightarrow> nat \<Rightarrow> TzData \<Rightarrow> TzData outcome" where
  "addTransition utcTime idx d =
     (if idx < length (localtimes d)
      then let localTime = utcTime + utcOffset (localtimes d ! idx)
           in if fits_int64 localTime
              then Ret (d\<lparr>transitions := transitions d @ [\<lparr>utctime = utcTime, localtime = localTime, localtimeIdx = idx\<rparr>]\<rparr>)
              else Undefined
      else Thrown ''vector::_M_range_check'')"

text \<open>\<open>std::upper_bound\<close> on a range ordered by the comparison: the first element above the value. Access to a vector outside its
  range, \<open>front\<close> of an empty vector included, is \<open>None\<close>.\<close>

definition upper_bound :: "('a \<Rightarrow> bool) \<Rightarrow> 'a list \<Rightarrow> nat" where
  "upper_bound P xs = length (takeWhile (\<lambda>x. \<not> P x) xs)"

definition vec_at :: "'a list \<Rightarrow> nat \<Rightarrow> 'a option" where
  "vec_at xs i = (if i < length xs then Some (xs ! i) else None)"

definition local_of :: "TzData \<Rightarrow> nat \<Rightarrow> LocalTime option" where
  "local_of d i = do { tr \<leftarrow> vec_at (transitions d) i; vec_at (localtimes d) (localtimeIdx tr) }"

definition findLocalTime :: "int \<Rightarrow> TzData \<Rightarrow> LocalTime option" where
  "findLocalTime utcTime d =
     (if transitions d = [] \<or> utcTime < utctime (hd (transitions d)) then vec_at (localtimes d) 0
      else
        let i = upper_bound (\<lambda>tr. utcTime < utctime tr) (transitions d)
        in if i = 0 then None
           else if i \<noteq> length (transitions d) then local_of d (i - 1)
           else local_of d (length (transitions d) - 1))"

definition findLocalTime_local :: "DateTime \<Rightarrow> bool \<Rightarrow> TzData \<Rightarrow> LocalTime option" where
  "findLocalTime_local lt postTransition d = do {
     lct \<leftarrow> fromUtcTime lt;
     (if transitions d = [] \<or> lct < localtime (hd (transitions d)) then vec_at (localtimes d) 0
      else
        let i = upper_bound (\<lambda>tr. lct < localtime tr) (transitions d)
        in if i = 0 then None
           else if i = length (transitions d) then local_of d (length (transitions d) - 1)
           else do {
             tr \<leftarrow> vec_at (transitions d) i;
             prior \<leftarrow> local_of d (i - 1);
             let prior_second = utctime tr - 1 + utcOffset prior;
             if prior_second < lct then (if postTransition then local_of d i else Some prior)
             else do {
               let i1 = i - 1;
               tr1 \<leftarrow> vec_at (transitions d) i1;
               prior1 \<leftarrow> (if i1 \<noteq> 0 then local_of d (i1 - 1) else Some prior);
               let prior_second1 = (if i1 \<noteq> 0 then utctime tr1 - 1 + utcOffset prior1 else prior_second);
               if lct \<le> prior_second1 then (if postTransition then local_of d i1 else Some prior1)
               else local_of d i1
             }
           })
   }"

text \<open>A zone is the pointer to its data, null for the invalid zone.\<close>

type_synonym TimeZone = "TzData option"

definition TimeZone_fixed :: "int \<Rightarrow> bytes \<Rightarrow> TimeZone" where
  "TimeZone_fixed eastOfUtc nm = Some ((addLocalTime eastOfUtc False 0 TzData_new)\<lparr>tz_abbreviation := nm\<rparr>)"

definition UTC :: TimeZone where "UTC = TimeZone_fixed 0 ''UTC''"

definition TimeZone_valid :: "TimeZone \<Rightarrow> bool" where "TimeZone_valid tz \<longleftrightarrow> tz \<noteq> None"

definition toLocalTime :: "TimeZone \<Rightarrow> int \<Rightarrow> (DateTime \<times> int) option" where
  "toLocalTime tz seconds = do {
     d \<leftarrow> tz;
     lt \<leftarrow> findLocalTime seconds d;
     dt \<leftarrow> BreakTime (seconds + utcOffset lt);
     Some (dt, utcOffset lt)
   }"

definition fromLocalTime :: "TimeZone \<Rightarrow> DateTime \<Rightarrow> bool \<Rightarrow> int option" where
  "fromLocalTime tz lct postTransition = do {
     d \<leftarrow> tz;
     lt \<leftarrow> findLocalTime_local lct postTransition d;
     localSeconds \<leftarrow> fromUtcTime lct;
     Some (localSeconds - utcOffset lt)
   }"

section \<open>Local times\<close>

text \<open>The segments of a zone: segment 0 lies before the first transition, segment \<open>Suc i\<close> starts at transition \<open>i\<close>.\<close>

definition seg_offset :: "TzData \<Rightarrow> nat \<Rightarrow> int" where
  "seg_offset d j = utcOffset (case j of 0 \<Rightarrow> hd (localtimes d) | Suc i \<Rightarrow> localtimes d ! localtimeIdx (transitions d ! i))"

definition boundary :: "TzData \<Rightarrow> nat \<Rightarrow> int" where "boundary d i = utctime (transitions d ! i)"

text \<open>A table is sound when its indices are, its local times are those of its transitions, and the local times around two consecutive
  transitions do not overlap.\<close>

definition data_ok :: "TzData \<Rightarrow> bool" where
  "data_ok d \<longleftrightarrow> list_all (\<lambda>tr. localtimeIdx tr < length (localtimes d) \<and>
     localtime tr = utctime tr + utcOffset (localtimes d ! localtimeIdx tr)) (transitions d)"

definition spaced :: "TzData \<Rightarrow> bool" where
  "spaced d \<longleftrightarrow> (\<forall>i < length (transitions d) - 1. boundary d i < boundary d (Suc i) \<and>
     boundary d i + max (seg_offset d i) (seg_offset d (Suc i)) \<le>
     boundary d (Suc i) + min (seg_offset d (Suc i)) (seg_offset d (Suc (Suc i))))"

definition zone_ok :: "TzData \<Rightarrow> bool" where
  "zone_ok d \<longleftrightarrow> localtimes d \<noteq> [] \<and> data_ok d \<and> spaced d"

text \<open>The offset of an instant and the local time of it, as seconds.\<close>

definition segment :: "TzData \<Rightarrow> int \<Rightarrow> nat" where
  "segment d t = length (filter (\<lambda>tr. utctime tr \<le> t) (transitions d))"

definition local_seconds :: "TzData \<Rightarrow> int \<Rightarrow> int" where
  "local_seconds d t = t + seg_offset d (segment d t)"

lemma upper_bound_le: "upper_bound P xs \<le> length xs"
  by (simp add: upper_bound_def length_takeWhile_le)

lemma upper_bound_below: "i < upper_bound P xs \<Longrightarrow> \<not> P (xs ! i)"
  unfolding upper_bound_def using nth_mem [of i "takeWhile (\<lambda>x. \<not> P x) xs"] by (auto simp: takeWhile_nth dest: set_takeWhileD)

lemma upper_bound_at: "upper_bound P xs < length xs \<Longrightarrow> P (xs ! upper_bound P xs)"
  unfolding upper_bound_def using nth_length_takeWhile [of "\<lambda>x. \<not> P x" xs] by simp

lemma upper_bound_0: "xs \<noteq> [] \<Longrightarrow> \<not> P (hd xs) \<Longrightarrow> 0 < upper_bound P xs"
  by (cases xs) (simp_all add: upper_bound_def)

lemma vec_at_Some [simp]: "i < length xs \<Longrightarrow> vec_at xs i = Some (xs ! i)"
  by (simp add: vec_at_def)

lemma chain:
  assumes "zone_ok d" "i < j" "j < length (transitions d)"
  shows "boundary d i < boundary d j \<and>
    boundary d i + max (seg_offset d i) (seg_offset d (Suc i)) \<le> boundary d j + min (seg_offset d j) (seg_offset d (Suc j))"
  using assms(2,3)
proof (induction j)
  case (Suc j)
  have s: "boundary d j < boundary d (Suc j)" "boundary d j + max (seg_offset d j) (seg_offset d (Suc j)) \<le>
      boundary d (Suc j) + min (seg_offset d (Suc j)) (seg_offset d (Suc (Suc j)))"
    using assms(1) Suc.prems by (simp_all add: zone_ok_def spaced_def)
  show ?case
  proof (cases "i = j")
    case False
    then show ?thesis using Suc s by (auto simp: min_def max_def split: if_splits)
  qed (use s in simp)
qed simp

text \<open>The segment of an instant is the one between its boundaries.\<close>

lemma segmentI:
  assumes "zone_ok d" "m \<le> length (transitions d)" "0 < m \<Longrightarrow> boundary d (m - 1) \<le> t" "m < length (transitions d) \<Longrightarrow> t < boundary d m"
  shows "segment d t = m"
proof -
  let ?ts = "transitions d" and ?P = "\<lambda>tr. utctime tr \<le> t"
  have lo: "?P (?ts ! i)" if "i < m" for i
  proof (cases "i = m - 1")
    case False
    then have "boundary d i < boundary d (m - 1)" using chain [OF assms(1), of i "m - 1"] that assms(2) by simp
    then show ?thesis using assms(3) that by (simp add: boundary_def)
  qed (use assms(3) that in \<open>simp add: boundary_def\<close>)
  have hi: "\<not> ?P (?ts ! i)" if "m \<le> i" "i < length ?ts" for i
  proof (cases "i = m")
    case False
    then have "boundary d m < boundary d i" using chain [OF assms(1), of m i] that by simp
    then show ?thesis using assms(4) that by (simp add: boundary_def)
  qed (use assms(4) that in \<open>simp add: boundary_def\<close>)
  have "filter ?P (take m ?ts) = take m ?ts" using lo by (intro filter_True) (auto simp: in_set_conv_nth)
  moreover have "filter ?P (drop m ?ts) = []" using hi by (intro filter_False) (auto simp: in_set_conv_nth)
  ultimately have "filter ?P (take m ?ts @ drop m ?ts) = take m ?ts" by (simp only: filter_append) simp
  then show ?thesis using assms(2) by (simp add: segment_def)
qed

lemma segment_upper_bound:
  assumes "zone_ok d"
  shows "upper_bound (\<lambda>tr. t < utctime tr) (transitions d) = segment d t"
proof -
  let ?i = "upper_bound (\<lambda>tr. t < utctime tr) (transitions d)"
  have "0 < ?i \<Longrightarrow> boundary d (?i - 1) \<le> t" using upper_bound_below [of "?i - 1" "\<lambda>tr. t < utctime tr" "transitions d"] by (simp add: boundary_def)
  moreover have "?i < length (transitions d) \<Longrightarrow> t < boundary d ?i" using upper_bound_at [of "\<lambda>tr. t < utctime tr" "transitions d"] by (simp add: boundary_def)
  ultimately show ?thesis using segmentI [OF assms upper_bound_le] by metis
qed

lemma segment_bounds:
  assumes "zone_ok d"
  shows "segment d t \<le> length (transitions d)"
    and "0 < segment d t \<Longrightarrow> boundary d (segment d t - 1) \<le> t"
    and "segment d t < length (transitions d) \<Longrightarrow> t < boundary d (segment d t)"
  using upper_bound_le [of "\<lambda>tr. t < utctime tr" "transitions d"]
    upper_bound_below [of "segment d t - 1" "\<lambda>tr. t < utctime tr" "transitions d"] upper_bound_at [of "\<lambda>tr. t < utctime tr" "transitions d"]
  unfolding segment_upper_bound [OF assms] by (auto simp: boundary_def)

text \<open>The local times around the boundaries.\<close>

lemma local_before: 
  assumes "zone_ok d" "segment d t \<le> m" "m < length (transitions d)"
  shows "local_seconds d t < boundary d m + max (seg_offset d m) (seg_offset d (Suc m))"
    and "segment d t < m \<Longrightarrow> local_seconds d t < boundary d m + min (seg_offset d m) (seg_offset d (Suc m))"
proof -
  let ?s = "segment d t"
  have b: "t < boundary d ?s" using segment_bounds(3) [OF assms(1)] assms(2,3) by simp
  then have l: "local_seconds d t < boundary d ?s + max (seg_offset d ?s) (seg_offset d (Suc ?s))" by (simp add: local_seconds_def)
  show m: "local_seconds d t < boundary d m + min (seg_offset d m) (seg_offset d (Suc m))" if "?s < m"
    using chain [OF assms(1) that assms(3)] l by linarith
  show "local_seconds d t < boundary d m + max (seg_offset d m) (seg_offset d (Suc m))"
    using l m assms(2) by (cases "?s = m") auto
qed

lemma local_after:
  assumes "zone_ok d" "m < segment d t"
  shows "boundary d m + min (seg_offset d m) (seg_offset d (Suc m)) \<le> local_seconds d t"
    and "Suc m < segment d t \<Longrightarrow> boundary d m + max (seg_offset d m) (seg_offset d (Suc m)) \<le> local_seconds d t"
proof -
  let ?s = "segment d t"
  obtain s where s: "?s = Suc s" using assms(2) by (cases ?s) auto
  have n: "s < length (transitions d)" using segment_bounds(1) [OF assms(1), of t] s by simp
  have "boundary d s \<le> t" using segment_bounds(2) [OF assms(1), of t] s by simp
  then have l: "boundary d s + min (seg_offset d s) (seg_offset d (Suc s)) \<le> local_seconds d t" by (simp add: local_seconds_def s)
  show m: "boundary d m + max (seg_offset d m) (seg_offset d (Suc m)) \<le> local_seconds d t" if "Suc m < ?s"
    using chain [OF assms(1), of m s] that n l s by simp
  show "boundary d m + min (seg_offset d m) (seg_offset d (Suc m)) \<le> local_seconds d t"
    using l m assms(2) s by (cases "Suc m = ?s") auto
qed

text \<open>The decision of the conversion back, on segments.\<close>

definition local_index :: "TzData \<Rightarrow> int \<Rightarrow> nat" where
  "local_index d L = upper_bound (\<lambda>tr. L < localtime tr) (transitions d)"

definition local_choice :: "TzData \<Rightarrow> int \<Rightarrow> bool \<Rightarrow> int" where
  "local_choice d L post =
     (let m = local_index d L
      in if m = 0 then seg_offset d 0
         else if m = length (transitions d) then seg_offset d m
         else if boundary d m - 1 + seg_offset d m < L then (if post then seg_offset d (Suc m) else seg_offset d m)
         else if m \<noteq> 1 \<and> L \<le> boundary d (m - 1) - 1 + seg_offset d (m - 1) then (if post then seg_offset d m else seg_offset d (m - 1))
         else seg_offset d m)"

lemma zone_localtime:
  "zone_ok d \<Longrightarrow> i < length (transitions d) \<Longrightarrow> localtime (transitions d ! i) = boundary d i + seg_offset d (Suc i)"
  by (simp add: zone_ok_def data_ok_def list_all_length boundary_def seg_offset_def)

lemma local_of_eq:
  "zone_ok d \<Longrightarrow> i < length (transitions d) \<Longrightarrow> \<exists>x. local_of d i = Some x \<and> utcOffset x = seg_offset d (Suc i)"
  by (simp add: zone_ok_def data_ok_def list_all_length local_of_def seg_offset_def)

lemma front_eq: "zone_ok d \<Longrightarrow> \<exists>x. vec_at (localtimes d) 0 = Some x \<and> utcOffset x = seg_offset d 0"
  by (cases "localtimes d") (simp_all add: zone_ok_def seg_offset_def)

lemma local_index_0:
  "local_index d L = 0 \<longleftrightarrow> transitions d = [] \<or> L < localtime (hd (transitions d))"
  by (cases "transitions d") (simp_all add: local_index_def upper_bound_def)

lemma findLocalTime_local_eq:
  assumes ok: "zone_ok d" and L: "fromUtcTime lt = Some L"
  shows "\<exists>x. findLocalTime_local lt post d = Some x \<and> utcOffset x = local_choice d L post"
proof (cases "local_index d L = 0")
  case True
  then show ?thesis using front_eq [OF ok] L by (simp add: findLocalTime_local_def local_choice_def local_index_0)
next
  case False
  define m where "m = local_index d L"
  have ne: "\<not> (transitions d = [] \<or> L < localtime (hd (transitions d)))" using False by (simp add: local_index_0)
  have m: "m \<noteq> 0" "m \<le> length (transitions d)" using False upper_bound_le by (auto simp: m_def local_index_def)
  have lf: "\<exists>x. local_of d i = Some x \<and> utcOffset x = seg_offset d (Suc i)" if "i < length (transitions d)" for i
    using local_of_eq [OF ok that] .
  show ?thesis
  proof (cases "m = length (transitions d)")
    case True
    then show ?thesis
      using L ne m lf [of "m - 1"]
      by (simp add: findLocalTime_local_def local_choice_def m_def [symmetric] local_index_def [symmetric] Let_def del: One_nat_def)
  next
    case mn: False
    then have "m < length (transitions d)" using m by simp
    moreover from this obtain x0 x1 where x: "local_of d (m - 1) = Some x0" "utcOffset x0 = seg_offset d m"
      "local_of d m = Some x1" "utcOffset x1 = seg_offset d (Suc m)"
      using lf [of m] lf [OF less_imp_diff_less, of m 1] m by auto
    moreover have "\<exists>x2. local_of d (m - 1 - 1) = Some x2 \<and> utcOffset x2 = seg_offset d (m - 1)" if "m \<noteq> 1"
      using lf [of "m - 1 - 1"] m that \<open>m < _\<close> by (cases m) auto
    ultimately show ?thesis
      using L ne m mn
      by (cases "m = 1")
        (auto simp: findLocalTime_local_def local_choice_def m_def [symmetric] local_index_def [symmetric] Let_def boundary_def)
  qed
qed

lemma findLocalTime_eq:
  assumes ok: "zone_ok d"
  shows "\<exists>x. findLocalTime t d = Some x \<and> utcOffset x = seg_offset d (segment d t)"
proof (cases "transitions d = [] \<or> t < utctime (hd (transitions d))")
  case True
  then have "segment d t = 0" unfolding segment_upper_bound [OF ok, symmetric]
    by (cases "transitions d") (simp_all add: upper_bound_def)
  then show ?thesis using front_eq [OF ok] True by (auto simp: findLocalTime_def)
next
  case False
  then have "0 < segment d t" unfolding segment_upper_bound [OF ok, symmetric] by (intro upper_bound_0) simp_all
  moreover have "segment d t \<le> length (transitions d)" by (rule segment_bounds(1) [OF ok])
  ultimately show ?thesis
    using local_of_eq [OF ok, of "segment d t - 1"] False
    by (auto simp: findLocalTime_def segment_upper_bound [OF ok] Let_def)
qed

lemma local_index_bounds:
  assumes "zone_ok d"
  shows "local_index d L \<le> length (transitions d)"
    and "0 < local_index d L \<Longrightarrow> boundary d (local_index d L - 1) + seg_offset d (local_index d L) \<le> L"
    and "local_index d L < length (transitions d) \<Longrightarrow> L < boundary d (local_index d L) + seg_offset d (Suc (local_index d L))"
proof -
  let ?P = "\<lambda>tr. L < localtime tr" and ?m = "local_index d L"
  show m: "?m \<le> length (transitions d)" unfolding local_index_def by (rule upper_bound_le)
  show "boundary d (?m - 1) + seg_offset d ?m \<le> L" if "0 < ?m"
    using upper_bound_below [of "?m - 1" ?P "transitions d"] zone_localtime [OF assms, of "?m - 1"] that m
    by (simp add: local_index_def [symmetric])
  show "L < boundary d ?m + seg_offset d (Suc ?m)" if "?m < length (transitions d)"
    using upper_bound_at [of ?P "transitions d"] zone_localtime [OF assms that] that by (simp add: local_index_def [symmetric])
qed

text \<open>An instant with the local time \<open>L\<close> lies in the segment the search finds or in the one before.\<close>

lemma local_segment:
  assumes ok: "zone_ok d" and L: "local_seconds d t = L"
  defines "m \<equiv> local_index d L"
  shows "segment d t = m \<or> Suc (segment d t) = m"
proof (rule ccontr)
  assume n: "\<not> ?thesis"
  note b = local_index_bounds [OF ok, of L, folded m_def]
  consider "Suc (segment d t) < m" | "m < segment d t" using n by linarith
  then show False
  proof cases
    case 1
    then have "segment d t < m - 1" "m - 1 < length (transitions d)" using b(1) by linarith+
    then show ?thesis using local_before(2) [OF ok, of t "m - 1"] b(2) L 1 by simp
  next
    case 2
    then have "m < length (transitions d)" using segment_bounds(1) [OF ok, of t] by simp
    then show ?thesis using local_after [OF ok 2] b(3) L segment_bounds(2) [OF ok, of t]  2
      by (cases "segment d t = Suc m") (auto simp: local_seconds_def)
  qed
qed

lemma local_choice_inverse:
  assumes ok: "zone_ok d" and L: "local_seconds d t = L"
  shows "local_seconds d (L - local_choice d L post) = L"
proof -
  define m where "m = local_index d L"
  note b = local_index_bounds [OF ok, of L, folded m_def]
  have s: "segment d t = m \<or> Suc (segment d t) = m" using local_segment [OF ok L] by (simp add: m_def)
  have inv: "local_seconds d (L - seg_offset d k) = L"
    if "k \<le> length (transitions d)" "0 < k \<Longrightarrow> boundary d (k - 1) + seg_offset d k \<le> L"
      "k < length (transitions d) \<Longrightarrow> L < boundary d k + seg_offset d k" for k
    using segmentI [OF ok that(1), of "L - seg_offset d k"] that(2,3) by (simp add: local_seconds_def le_diff_eq diff_less_eq)
  have le: "L < boundary d m + seg_offset d m" if "m < length (transitions d)"
  proof (cases "segment d t = m")
    case True
    then show ?thesis using segment_bounds(3) [OF ok, of t] that L by (simp add: local_seconds_def)
  next
    case False
    then show ?thesis using s local_before(2) [OF ok, of t m] that L by auto
  qed
  have m: "local_seconds d (L - seg_offset d m) = L" using inv [OF b(1,2)] le by simp
  have p: "local_seconds d (L - seg_offset d (m - 1)) = L"
    if "m \<noteq> 0" "m \<noteq> 1" "L < boundary d (m - 1) + seg_offset d (m - 1)"
    using inv [of "m - 1"] chain [OF ok, of "m - 1 - 1" "m - 1"] b(1,2) that by (cases m; cases "m - 1") auto
  show ?thesis
    using m p le b(1) by (auto simp: local_choice_def m_def [symmetric] Let_def)
qed

lemma local_choice_extreme:
  assumes ok: "zone_ok d" and L: "local_seconds d t = L"
    and m: "1 < local_index d L" "local_index d L < length (transitions d)"
  shows "L - local_choice d L False \<le> t \<and> t \<le> L - local_choice d L True"
proof -
  define m where "m = local_index d L"
  note b = local_index_bounds [OF ok, of L, folded m_def]
  have s: "segment d t = m \<or> Suc (segment d t) = m" using local_segment [OF ok L] by (simp add: m_def)
  have n: "1 < m" "m < length (transitions d)" using m by (simp_all add: m_def)
  have c: "local_choice d L post =
      (if boundary d m - 1 + seg_offset d m < L then (if post then seg_offset d (Suc m) else seg_offset d m)
       else if L \<le> boundary d (m - 1) - 1 + seg_offset d (m - 1) then (if post then seg_offset d m else seg_offset d (m - 1))
       else seg_offset d m)" for post
    using n by (simp add: local_choice_def m_def [symmetric] Let_def)
  have tL: "L = t + seg_offset d (segment d t)" using L by (simp add: local_seconds_def)
  show ?thesis
  proof (cases "segment d t = m")
    case True
    then have "t < boundary d m" "boundary d (m - 1) \<le> t" using segment_bounds [OF ok, of t] n by simp_all
    then show ?thesis using tL True unfolding c by auto
  next
    case False
    then have k: "segment d t = m - 1" using s by simp
    then have "t < boundary d (m - 1)" using segment_bounds(3) [OF ok, of t] n by simp
    moreover have "L < boundary d m + min (seg_offset d m) (seg_offset d (Suc m))" using local_before(2) [OF ok, of t m] k n L by simp
    ultimately show ?thesis using tL k b(2) n unfolding c by auto
  qed
qed

lemma local_index_middle:
  assumes ok: "zone_ok d" and n: "1 < length (transitions d)"
    and L: "localtime (transitions d ! 1) \<le> L" "L < localtime (last (transitions d))"
  shows "1 < local_index d L" and "local_index d L < length (transitions d)"
proof -
  let ?m = "local_index d L" and ?ts = "transitions d"
  have "boundary d 0 + seg_offset d 1 \<le> boundary d 1 + seg_offset d (Suc 1)"
    using chain [OF ok, of 0 1] n by (simp add: max_def min_def split: if_splits)
  moreover have n0: "0 < length ?ts" using n by linarith
  ultimately have l: "localtime (?ts ! 0) \<le> L" using L(1) zone_localtime [OF ok, of 0] zone_localtime [OF ok n] by simp
  show m: "1 < ?m"
  proof (rule ccontr)
    assume "\<not> 1 < ?m"
    then have "?m = 0 \<or> ?m = 1" by linarith
    then show False
      using upper_bound_at [of "\<lambda>tr. L < localtime tr" ?ts] l L(1) n n0 by (auto simp: local_index_def [symmetric])
  qed
  have "last ?ts = ?ts ! (length ?ts - 1)" using n by (intro last_conv_nth) auto
  then show "?m < length ?ts"
    using upper_bound_below [of "length ?ts - 1" "\<lambda>tr. L < localtime tr" ?ts] L(2) upper_bound_le [of "\<lambda>tr. L < localtime tr" ?ts] n
    by (cases "?m = length ?ts") (auto simp: local_index_def [symmetric])
qed

lemma fromLocalTime_eq:
  assumes "zone_ok d" "fromUtcTime dt = Some L"
  shows "fromLocalTime (Some d) dt post = Some (L - local_choice d L post)"
  using findLocalTime_local_eq [OF assms, of post] assms(2) by (auto simp: fromLocalTime_def)

lemma toLocalTime_eq:
  assumes "zone_ok d"
  shows "toLocalTime (Some d) t = map_option (\<lambda>dt. (dt, seg_offset d (segment d t))) (BreakTime (local_seconds d t))"
  using findLocalTime_eq [OF assms, of t] by (cases "BreakTime (local_seconds d t)") (auto simp: toLocalTime_def local_seconds_def)


text \<open>The last years of daylight saving time in China, from the file of the zone.\<close>

definition prc :: TzData where
  "prc = \<lparr>transitions =
      [\<lparr>utctime = 621968400, localtime = 621997200, localtimeIdx = 0\<rparr>, \<lparr>utctime = 640116000, localtime = 640148400, localtimeIdx = 1\<rparr>,
       \<lparr>utctime = 653418000, localtime = 653446800, localtimeIdx = 0\<rparr>, \<lparr>utctime = 671565600, localtime = 671598000, localtimeIdx = 1\<rparr>,
       \<lparr>utctime = 684867600, localtime = 684896400, localtimeIdx = 0\<rparr>],
     localtimes = [\<lparr>utcOffset = 28800, isDst = False, desigIdx = 0\<rparr>, \<lparr>utcOffset = 32400, isDst = True, desigIdx = 4\<rparr>],
     tz_abbreviation = ''CST'', tzstring = []\<rparr>"

lemma prc_ok: "zone_ok prc"
proof -
  have "spaced prc" unfolding spaced_def
    by (simp add: prc_def boundary_def seg_offset_def less_Suc_eq all_conj_distrib numeral_nat conj_disj_distribR)
  then show ?thesis by (simp add: zone_ok_def data_ok_def prc_def)
qed


text \<open>The hour repeated by the last transition, 15 September 1991, 1 to 2 o'clock, is not recognised as repeated: the conversion returns the
  later instant although the earlier one is asked for.\<close>

lemma last_repeat:
  "toLocalTime (Some prc) 684865800 =
     Some (\<lparr>dt_year = 1991, dt_month = 9, dt_day = 15, dt_hour = 1, dt_minute = 30, dt_second = 0\<rparr>, 32400)"
  "fromLocalTime (Some prc) \<lparr>dt_year = 1991, dt_month = 9, dt_day = 15, dt_hour = 1, dt_minute = 30, dt_second = 0\<rparr> False =
     Some (684865800 + 3600)"
  by code_simp+

end
