(* ===== verification/MuduoTimerQueue.thy ===== *)
theory MuduoTimerQueue
  imports MuduoTimestamp "HOL-Library.Product_Lexorder"
begin

text \<open>
  The timers of the bundled muduo library: \<open>Timer.h\<close>, \<open>Timer.cc\<close> and \<open>TimerQueue.cc\<close> under
  \<open>src/muduo_source_code/muduo\<close>. Timers live on a heap; the set \<open>timers_\<close>, ordered by expiration
  and address, is a sorted list, the set \<open>activeTimers_\<close> of addresses and sequence
  numbers a set. \<open>None\<close> is a failed assertion or the use of a deleted timer. Time stamps are those of \<open>MuduoTimestamp\<close>.

  The outside world appears as arguments: the readings of the clock, the address that \<open>new\<close> returns, and what
  a callback does to the queue, a list of requests that may depend on the queue. The interval of a timer is a
  \<open>double\<close> in seconds; the model has the two things the code derives from it, whether it is
  positive and the number of microseconds.

  The theory shows that the two sets and the heap always agree (no assertion fails, no timer is used after its deletion,
  deleted twice or leaked), although callbacks add and cancel timers while the expired ones
  are processed, and that \<open>handleRead\<close> runs exactly the expired timers in order.
\<close>

section \<open>Timer\<close>

record 'cb Timer =
  tm_callback :: 'cb
  tm_expiration :: timestamp
  tm_interval :: int
  tm_repeat :: bool
  tm_sequence :: nat

definition Timer_restart :: "timestamp \<Rightarrow> 'cb Timer \<Rightarrow> 'cb Timer" where
  "Timer_restart now t =
     (if tm_repeat t then t\<lparr>tm_expiration := addTime now (tm_interval t)\<rparr> else t\<lparr>tm_expiration := Timestamp_invalid\<rparr>)"

section \<open>TimerQueue\<close>

record 'cb TimerQueue =
  tq_heap :: "nat \<rightharpoonup> 'cb Timer"
  tq_numCreated :: nat
  tq_timers :: "(timestamp \<times> nat) list"
  tq_active :: "(nat \<times> nat) set"
  tq_calling :: bool
  tq_canceling :: "(nat \<times> nat) set"
  tq_timerfd :: "timestamp option"

definition TimerQueue_new :: "'cb TimerQueue" where
  "TimerQueue_new = \<lparr>tq_heap = (\<lambda>_. None), tq_numCreated = 0, tq_timers = [], tq_active = {}, tq_calling = False,
     tq_canceling = {}, tq_timerfd = None\<rparr>"

text \<open>Seconds and nanoseconds from the reading \<open>clk\<close> of the clock.\<close>

definition howMuchTimeFromNow :: "timestamp \<Rightarrow> timestamp \<Rightarrow> int \<times> int" where
  "howMuchTimeFromNow clk at =
     (let microseconds = at - clk; microseconds = (if microseconds < 100 then 100 else microseconds)
      in (microseconds div kMicroSecondsPerSecond, (microseconds mod kMicroSecondsPerSecond) * 1000))"

text \<open>\<open>timerfd_settime\<close> arms the descriptor relative to the time of the call.\<close>

definition resetTimerfd :: "timestamp \<Rightarrow> timestamp \<Rightarrow> 'cb TimerQueue \<Rightarrow> 'cb TimerQueue" where
  "resetTimerfd clk expiration q =
     (let (sec, nsec) = howMuchTimeFromNow clk expiration
      in q\<lparr>tq_timerfd := Some (clk + sec * 1000000 + nsec div 1000)\<rparr>)"

definition sizes_agree :: "'cb TimerQueue \<Rightarrow> bool" where
  "sizes_agree q = (length (tq_timers q) = card (tq_active q))"

definition tq_insert :: "nat \<Rightarrow> 'cb TimerQueue \<Rightarrow> (bool \<times> 'cb TimerQueue) option" where
  "tq_insert a q = do {
     t \<leftarrow> tq_heap q a;
     let at = tm_expiration t;
     let earliestChanged = (case tq_timers q of [] \<Rightarrow> True | e # _ \<Rightarrow> at < fst e);
     if sizes_agree q \<and> (at, a) \<notin> set (tq_timers q) \<and> (a, tm_sequence t) \<notin> tq_active q then
       let q1 = q\<lparr>tq_timers := insort (at, a) (tq_timers q), tq_active := insert (a, tm_sequence t) (tq_active q)\<rparr>
       in if sizes_agree q1 then Some (earliestChanged, q1) else None
     else None
   }"

definition addTimerInLoop :: "timestamp \<Rightarrow> nat \<Rightarrow> 'cb TimerQueue \<Rightarrow> 'cb TimerQueue option" where
  "addTimerInLoop clk a q = do {
     (earliestChanged, q1) \<leftarrow> tq_insert a q;
     t \<leftarrow> tq_heap q1 a;
     Some (if earliestChanged then resetTimerfd clk (tm_expiration t) q1 else q1)
   }"

text \<open>\<open>addTimer\<close> in the thread of the loop: \<open>a\<close> is the address of the new timer.\<close>

definition addTimer :: "timestamp \<Rightarrow> nat \<Rightarrow> 'cb \<Rightarrow> timestamp \<Rightarrow> bool \<Rightarrow> int \<Rightarrow> 'cb TimerQueue \<Rightarrow> ((nat \<times> nat) \<times> 'cb TimerQueue) option" where
  "addTimer clk a cb at repeat interval q = do {
     let sequence = tq_numCreated q + 1;
     let q1 = q\<lparr>tq_numCreated := sequence,
                tq_heap := (tq_heap q)(a \<mapsto> \<lparr>tm_callback = cb, tm_expiration = at, tm_interval = interval, tm_repeat = repeat, tm_sequence = sequence\<rparr>)\<rparr>;
     q2 \<leftarrow> addTimerInLoop clk a q1;
     Some ((a, sequence), q2)
   }"

definition cancelInLoop :: "nat \<times> nat \<Rightarrow> 'cb TimerQueue \<Rightarrow> 'cb TimerQueue option" where
  "cancelInLoop timerId q =
     (if sizes_agree q then do {
        q1 \<leftarrow> (if timerId \<in> tq_active q then do {
                 t \<leftarrow> tq_heap q (fst timerId);
                 if (tm_expiration t, fst timerId) \<in> set (tq_timers q) then
                   Some (q\<lparr>tq_timers := remove1 (tm_expiration t, fst timerId) (tq_timers q),
                           tq_heap := (tq_heap q)(fst timerId := None),
                           tq_active := tq_active q - {timerId}\<rparr>)
                 else None
               }
               else if tq_calling q then Some (q\<lparr>tq_canceling := insert timerId (tq_canceling q)\<rparr>)
               else Some q);
        if sizes_agree q1 then Some q1 else None
      }
      else None)"

text \<open>\<open>getExpired\<close>: the sentry is above every entry of the time \<open>now\<close>.\<close>

definition UINTPTR_MAX :: nat where "UINTPTR_MAX = 2 ^ 64 - 1"

fun erase_active :: "(timestamp \<times> nat) list \<Rightarrow> 'cb TimerQueue \<Rightarrow> 'cb TimerQueue option" where
  "erase_active [] q = Some q"
| "erase_active ((e, a) # es) q = do {
     t \<leftarrow> tq_heap q a;
     if (a, tm_sequence t) \<in> tq_active q then erase_active es (q\<lparr>tq_active := tq_active q - {(a, tm_sequence t)}\<rparr>) else None
   }"

definition getExpired :: "timestamp \<Rightarrow> 'cb TimerQueue \<Rightarrow> ((timestamp \<times> nat) list \<times> 'cb TimerQueue) option" where
  "getExpired now q =
     (let expired = takeWhile (\<lambda>x. x < (now, UINTPTR_MAX)) (tq_timers q);
          rest = dropWhile (\<lambda>x. x < (now, UINTPTR_MAX)) (tq_timers q)
      in if sizes_agree q \<and> (rest = [] \<or> now < fst (hd rest)) then do {
           q1 \<leftarrow> erase_active expired (q\<lparr>tq_timers := rest\<rparr>);
           if sizes_agree q1 then Some (expired, q1) else None
         }
         else None)"

fun reset_expired :: "timestamp \<Rightarrow> (timestamp \<times> nat) list \<Rightarrow> 'cb TimerQueue \<Rightarrow> 'cb TimerQueue option" where
  "reset_expired now [] q = Some q"
| "reset_expired now ((e, a) # es) q = do {
     t \<leftarrow> tq_heap q a;
     q1 \<leftarrow> (if tm_repeat t \<and> (a, tm_sequence t) \<notin> tq_canceling q
            then map_option snd (tq_insert a (q\<lparr>tq_heap := (tq_heap q)(a \<mapsto> Timer_restart now t)\<rparr>))
            else Some (q\<lparr>tq_heap := (tq_heap q)(a := None)\<rparr>));
     reset_expired now es q1
   }"

definition tq_reset :: "timestamp \<Rightarrow> (timestamp \<times> nat) list \<Rightarrow> timestamp \<Rightarrow> 'cb TimerQueue \<Rightarrow> 'cb TimerQueue option" where
  "tq_reset clk expired now q = do {
     q1 \<leftarrow> reset_expired now expired q;
     nextExpire \<leftarrow> (case tq_timers q1 of
                      [] \<Rightarrow> Some Timestamp_invalid
                    | e # _ \<Rightarrow> map_option tm_expiration (tq_heap q1 (snd e)));
     Some (if Timestamp_valid nextExpire then resetTimerfd clk nextExpire q1 else q1)
   }"

text \<open>The requests of a callback: the address of a new timer is part of the request.\<close>

datatype 'cb tq_op = Add timestamp nat 'cb timestamp bool int | CancelId "nat \<times> nat"

fun tq_exec :: "'cb tq_op \<Rightarrow> 'cb TimerQueue \<Rightarrow> 'cb TimerQueue option" where
  "tq_exec (Add clk a cb at repeat interval) q = map_option snd (addTimer clk a cb at repeat interval q)"
| "tq_exec (CancelId i) q = cancelInLoop i q"

fun tq_execs :: "'cb tq_op list \<Rightarrow> 'cb TimerQueue \<Rightarrow> 'cb TimerQueue option" where
  "tq_execs [] q = Some q"
| "tq_execs (x # xs) q = do { q1 \<leftarrow> tq_exec x q; tq_execs xs q1 }"

fun run_expired :: "('cb \<Rightarrow> 'cb TimerQueue \<Rightarrow> 'cb tq_op list) \<Rightarrow> (timestamp \<times> nat) list \<Rightarrow> 'cb TimerQueue \<Rightarrow> ('cb list \<times> 'cb TimerQueue) option" where
  "run_expired run [] q = Some ([], q)"
| "run_expired run ((e, a) # es) q = do {
     t \<leftarrow> tq_heap q a;
     q1 \<leftarrow> tq_execs (run (tm_callback t) q) q;
     (fired, q2) \<leftarrow> run_expired run es q1;
     Some (tm_callback t # fired, q2)
   }"

text \<open>\<open>handleRead\<close> with the clock readings at its start and in \<open>reset\<close>; the result includes the callbacks that were run.\<close>

definition tq_handleRead ::
    "('cb \<Rightarrow> 'cb TimerQueue \<Rightarrow> 'cb tq_op list) \<Rightarrow> timestamp \<Rightarrow> timestamp \<Rightarrow> 'cb TimerQueue \<Rightarrow> ('cb list \<times> 'cb TimerQueue) option" where
  "tq_handleRead run now clk q = do {
     (expired, q1) \<leftarrow> getExpired now q;
     (fired, q2) \<leftarrow> run_expired run expired (q1\<lparr>tq_calling := True, tq_canceling := {}\<rparr>);
     q3 \<leftarrow> tq_reset clk expired now (q2\<lparr>tq_calling := False\<rparr>);
     Some (fired, q3)
   }"

section \<open>The invariant\<close>

text \<open>\<open>tq_ok E q\<close>: the entries of \<open>timers_\<close> are the allocated timers outside \<open>E\<close>, each with its expiration, and
  \<open>activeTimers_\<close> has the same timers with their sequence numbers. \<open>E\<close> are the expired timers
  being processed.\<close>

definition tq_ok :: "nat set \<Rightarrow> 'cb TimerQueue \<Rightarrow> bool" where
  "tq_ok E q \<longleftrightarrow>
     sorted (tq_timers q) \<and> distinct (tq_timers q) \<and>
     (\<forall>e a. (e, a) \<in> set (tq_timers q) \<longleftrightarrow> a \<notin> E \<and> (\<exists>t. tq_heap q a = Some t \<and> tm_expiration t = e)) \<and>
     tq_active q = {(a, s). a \<notin> E \<and> (\<exists>t. tq_heap q a = Some t \<and> tm_sequence t = s)} \<and>
     E \<subseteq> dom (tq_heap q) \<and> finite E \<and>
     (\<forall>a t. tq_heap q a = Some t \<longrightarrow> a < UINTPTR_MAX \<and> tm_sequence t \<le> tq_numCreated q \<and> 0 < tm_expiration t \<and>
        (tm_repeat t \<longrightarrow> 0 \<le> tm_interval t))"

lemma tq_okD:
  assumes "tq_ok E q"
  shows "sorted (tq_timers q)" "distinct (tq_timers q)"
    "(e, a) \<in> set (tq_timers q) \<longleftrightarrow> a \<notin> E \<and> (\<exists>t. tq_heap q a = Some t \<and> tm_expiration t = e)"
    "(a, s) \<in> tq_active q \<longleftrightarrow> a \<notin> E \<and> (\<exists>t. tq_heap q a = Some t \<and> tm_sequence t = s)"
    "E \<subseteq> dom (tq_heap q)" "finite E"
    "tq_heap q a = Some t \<Longrightarrow> a < UINTPTR_MAX \<and> tm_sequence t \<le> tq_numCreated q \<and> 0 < tm_expiration t \<and> (tm_repeat t \<longrightarrow> 0 \<le> tm_interval t)"
  using assms unfolding tq_ok_def by auto

lemma tq_ok_new [simp]: "tq_ok {} TimerQueue_new"
  by (simp add: tq_ok_def TimerQueue_new_def)

text \<open>The two sets have the same size, so the assertions on sizes hold.\<close>

lemma tq_ok_sizes:
  assumes "tq_ok E q"
  shows "sizes_agree q"
proof -
  let ?f = "\<lambda>(e :: timestamp, a). (a, tm_sequence (the (tq_heap q a)))"
  have "inj_on ?f (set (tq_timers q))" using tq_okD(3) [OF assms] by (auto simp: inj_on_def)
  moreover have "?f ` set (tq_timers q) = tq_active q"
  proof (rule set_eqI)
    fix p :: "nat \<times> nat"
    obtain a s where p: "p = (a, s)" by fastforce
    show "p \<in> ?f ` set (tq_timers q) \<longleftrightarrow> p \<in> tq_active q"
      unfolding p image_iff Bex_def tq_okD(4) [OF assms] by (auto simp: tq_okD(3) [OF assms])
  qed
  ultimately have "card (tq_active q) = card (set (tq_timers q))" by (metis card_image)
  then show ?thesis using tq_okD(2) [OF assms] by (simp add: sizes_agree_def distinct_card)
qed

lemma tq_insert_ok:
  assumes ok: "tq_ok (insert a E) q" and a: "a \<notin> E" and t: "tq_heap q a = Some t"
  shows "returns (tq_insert a q) (\<lambda>(early, q'). tq_ok E q' \<and>
    q' = q\<lparr>tq_timers := insort (tm_expiration t, a) (tq_timers q), tq_active := insert (a, tm_sequence t) (tq_active q)\<rparr> \<and>
    early = (tq_timers q = [] \<or> tm_expiration t < fst (hd (tq_timers q))))"
proof -
  let ?q = "q\<lparr>tq_timers := insort (tm_expiration t, a) (tq_timers q), tq_active := insert (a, tm_sequence t) (tq_active q)\<rparr>"
  have n: "(tm_expiration t, a) \<notin> set (tq_timers q)" "(a, tm_sequence t) \<notin> tq_active q" using tq_okD(3,4) [OF ok] by auto
  have ok': "tq_ok E ?q"
    using tq_okD [OF ok] n a t unfolding tq_ok_def
    by (auto simp: sorted_insort distinct_insort set_insort_key)
  show ?thesis
    using t n tq_ok_sizes [OF ok] tq_ok_sizes [OF ok'] ok' by (simp add: tq_insert_def Let_def split: list.splits)
qed

text \<open>The descriptor is armed for the expiration, but at least 100 microseconds ahead.\<close>

lemma resetTimerfd_eq: "resetTimerfd clk e q = q\<lparr>tq_timerfd := Some (max e (clk + 100))\<rparr>"
proof -
  have "clk + x div 1000000 * 1000000 + (x mod 1000000 * 1000) div 1000 = clk + x" for x :: int
    using div_mult_mod_eq [of x 1000000] by (simp add: add.assoc)
  then show ?thesis by (simp add: resetTimerfd_def howMuchTimeFromNow_def kMicroSecondsPerSecond_def Let_def max_def)
qed

lemma tq_ok_frame [simp]:
  "tq_ok E (q\<lparr>tq_timerfd := x\<rparr>) = tq_ok E q" "tq_ok E (q\<lparr>tq_calling := b\<rparr>) = tq_ok E q" "tq_ok E (q\<lparr>tq_canceling := c\<rparr>) = tq_ok E q"
  by (simp_all add: tq_ok_def)

text \<open>What \<open>new\<close> and the caller of \<open>addTimer\<close> guarantee, for one request and for the requests of a callback.\<close>

fun new_ok :: "'cb tq_op \<Rightarrow> 'cb TimerQueue \<Rightarrow> bool" where
  "new_ok (Add clk a cb at repeat interval) q \<longleftrightarrow> tq_heap q a = None \<and> a < UINTPTR_MAX \<and> 0 < at \<and> (repeat \<longrightarrow> 0 \<le> interval)"
| "new_ok (CancelId i) q \<longleftrightarrow> True"

fun legal_ops :: "'cb tq_op list \<Rightarrow> 'cb TimerQueue \<Rightarrow> bool" where
  "legal_ops [] q = True"
| "legal_ops (x # xs) q = (new_ok x q \<and> (case tq_exec x q of None \<Rightarrow> True | Some q' \<Rightarrow> legal_ops xs q'))"

text \<open>Requests keep the invariant and leave the expired timers alone.\<close>

definition tq_kept :: "nat set \<Rightarrow> 'cb TimerQueue \<Rightarrow> 'cb TimerQueue \<Rightarrow> bool" where
  "tq_kept E q q' \<longleftrightarrow> tq_ok E q' \<and> (\<forall>a \<in> E. tq_heap q' a = tq_heap q a) \<and> tq_calling q' = tq_calling q"

lemma addTimer_ok:
  assumes ok: "tq_ok E q" and n: "new_ok (Add clk a cb at repeat interval) q"
  shows "returns (addTimer clk a cb at repeat interval q) (\<lambda>(i, q'). tq_kept E q q' \<and> i = (a, tq_numCreated q + 1) \<and> i \<in> tq_active q')"
proof -
  let ?t = "\<lparr>tm_callback = cb, tm_expiration = at, tm_interval = interval, tm_repeat = repeat, tm_sequence = tq_numCreated q + 1\<rparr>"
  let ?q = "q\<lparr>tq_numCreated := tq_numCreated q + 1, tq_heap := (tq_heap q)(a \<mapsto> ?t)\<rparr>"
  have a: "a \<notin> E" using tq_okD(5) [OF ok] n by auto
  have "tq_ok (insert a E) ?q"
    using tq_okD [OF ok] n unfolding tq_ok_def by (auto simp: le_Suc_eq)
  from tq_insert_ok [OF this a, of ?t] show ?thesis
    using a by (auto simp: addTimer_def addTimerInLoop_def Let_def resetTimerfd_eq tq_kept_def returns_iff)
qed

lemma cancelInLoop_ok:
  assumes ok: "tq_ok E q"
  shows "returns (cancelInLoop i q) (\<lambda>q'. tq_kept E q q' \<and> i \<notin> tq_active q' \<and> (tq_calling q \<and> i \<notin> tq_active q \<longrightarrow> i \<in> tq_canceling q'))"
proof (cases "i \<in> tq_active q")
  case True
  obtain a s where i: "i = (a, s)" by fastforce
  from True tq_okD(4) [OF ok, of a s] obtain t where a: "a \<notin> E" and t: "tq_heap q a = Some t" "tm_sequence t = s" by (auto simp: i)
  have m: "(tm_expiration t, a) \<in> set (tq_timers q)" using a t tq_okD(3) [OF ok] by auto
  let ?q = "q\<lparr>tq_timers := remove1 (tm_expiration t, a) (tq_timers q), tq_heap := (tq_heap q)(a := None), tq_active := tq_active q - {i}\<rparr>"
  have "tq_ok E ?q"
    using tq_okD [OF ok] a t unfolding tq_ok_def i by (auto simp: sorted_remove1 split: if_splits)
  then show ?thesis
    using True i t m a tq_ok_sizes [OF ok] tq_ok_sizes [of E ?q] by (auto simp: cancelInLoop_def tq_kept_def)
next
  case False
  then show ?thesis using tq_ok_sizes [OF ok] ok
    by (simp add: cancelInLoop_def tq_kept_def sizes_agree_def)
qed

lemma tq_execs_ok: "tq_ok E q \<Longrightarrow> legal_ops xs q \<Longrightarrow> returns (tq_execs xs q) (tq_kept E q)"
proof (induction xs arbitrary: q)
  case (Cons x xs)
  have "returns (tq_exec x q) (tq_kept E q)"
  proof (cases x)
    case (Add clk a cb at repeat interval)
    then have "new_ok (Add clk a cb at repeat interval) q" using Cons.prems(2) by simp
    from addTimer_ok [OF Cons.prems(1) this] show ?thesis unfolding Add tq_exec.simps returns_map_option by (rule returns_mono) auto
  next
    case (CancelId i)
    from cancelInLoop_ok [OF Cons.prems(1), of i] show ?thesis unfolding CancelId tq_exec.simps by (rule returns_mono) simp
  qed
  then obtain q1 where q1: "tq_exec x q = Some q1" "tq_kept E q q1" by (auto simp: returns_iff)
  then have "returns (tq_execs xs q1) (tq_kept E q1)" using Cons.prems(2) by (intro Cons.IH) (simp_all add: tq_kept_def)
  then show ?case using q1 by (auto simp: returns_iff tq_kept_def)
qed (simp add: tq_kept_def)

section \<open>Expiry\<close>

lemma erase_active_ok:
  assumes "\<And>e a. (e, a) \<in> set es \<Longrightarrow> \<exists>t. tq_heap q a = Some t \<and> (a, tm_sequence t) \<in> tq_active q" and "distinct (map snd es)"
  shows "erase_active es q = Some (q\<lparr>tq_active := tq_active q - {(a, tm_sequence t) |a t. a \<in> snd ` set es \<and> tq_heap q a = Some t}\<rparr>)"
  using assms
proof (induction es arbitrary: q)
  case (Cons x es)
  obtain e a where x: "x = (e, a)" by fastforce
  obtain t where t: "tq_heap q a = Some t" "(a, tm_sequence t) \<in> tq_active q" using Cons.prems(1) [of e a] x by auto
  let ?q = "q\<lparr>tq_active := tq_active q - {(a, tm_sequence t)}\<rparr>"
  have "erase_active es ?q = Some (?q\<lparr>tq_active := tq_active ?q - {(a, tm_sequence t) |a t. a \<in> snd ` set es \<and> tq_heap ?q a = Some t}\<rparr>)"
  proof (rule Cons.IH)
    show "\<exists>t. tq_heap ?q b = Some t \<and> (b, tm_sequence t) \<in> tq_active ?q" if "(e', b) \<in> set es" for e' b
    proof -
      have "b \<noteq> a" using that Cons.prems(2) x by (force simp: image_iff)
      then show ?thesis using Cons.prems(1) [of e' b] that by auto
    qed
  qed (use Cons.prems(2) in simp)
  moreover have "tq_active ?q - {(a, tm_sequence t) |a t. a \<in> snd ` set es \<and> tq_heap ?q a = Some t} =
      tq_active q - {(a, tm_sequence t) |a t. a \<in> snd ` set (x # es) \<and> tq_heap q a = Some t}"
    using t x by auto
  ultimately show ?case using t by (simp add: x)
qed simp

lemma sorted_takeWhile:
  fixes xs :: "'a :: linorder list"
  assumes "sorted xs" and "\<And>x y. x \<le> y \<Longrightarrow> P y \<Longrightarrow> P x"
  shows "takeWhile P xs = filter P xs" and "dropWhile P xs = filter (\<lambda>x. \<not> P x) xs"
proof -
  have n: "filter P ys = [] \<and> filter (\<lambda>x. \<not> P x) ys = ys" if "\<not> P y" "\<forall>z \<in> set ys. y \<le> z" for y ys
    using that assms(2) by (auto simp: filter_empty_conv filter_id_conv)
  show "takeWhile P xs = filter P xs" using assms(1) n by (induction xs) auto
  show "dropWhile P xs = filter (\<lambda>x. \<not> P x) xs" using assms(1) n by (induction xs) auto
qed

lemma tq_ok_distinct:
  assumes "tq_ok E q"
  shows "distinct (map snd (filter P (tq_timers q)))"
proof -
  have "inj_on snd (set (tq_timers q))" by (auto simp: inj_on_def tq_okD(3) [OF assms])
  then show ?thesis using tq_okD(2) [OF assms] by (auto simp: distinct_map intro: inj_on_subset)
qed

lemma getExpired_ok:
  fixes now :: timestamp
  assumes ok: "tq_ok {} q"
  defines "es \<equiv> filter (\<lambda>e. fst e \<le> now) (tq_timers q)"
  shows "returns (getExpired now q) (\<lambda>(expired, q'). expired = es \<and> tq_ok (snd ` set es) q' \<and> tq_heap q' = tq_heap q \<and>
    tq_timers q' = filter (\<lambda>e. now < fst e) (tq_timers q))"
proof -
  have lt: "x < (now, UINTPTR_MAX) \<longleftrightarrow> fst x \<le> now" if m: "x \<in> set (tq_timers q)" for x
  proof -
    obtain e a where x: "x = (e, a)" by fastforce
    then obtain t where "tq_heap q a = Some t" using m tq_okD(3) [OF ok, of e a] by auto
    then have "a < UINTPTR_MAX" using tq_okD(7) [OF ok] by blast
    then show ?thesis by (auto simp: x less_prod_def)
  qed
  have f: "takeWhile (\<lambda>x. x < (now, UINTPTR_MAX)) (tq_timers q) = filter (\<lambda>x. x < (now, UINTPTR_MAX)) (tq_timers q)"
    "dropWhile (\<lambda>x. x < (now, UINTPTR_MAX)) (tq_timers q) = filter (\<lambda>x. \<not> x < (now, UINTPTR_MAX)) (tq_timers q)"
    by (rule sorted_takeWhile [OF tq_okD(1) [OF ok]], erule (1) order.strict_trans1)+
  have T: "takeWhile (\<lambda>x. x < (now, UINTPTR_MAX)) (tq_timers q) = es"
    unfolding f es_def by (rule filter_cong) (simp_all only: lt)
  have D: "dropWhile (\<lambda>x. x < (now, UINTPTR_MAX)) (tq_timers q) = filter (\<lambda>e. now < fst e) (tq_timers q)"
    unfolding f by (rule filter_cong) (simp_all only: lt not_le)
  have aE: "a \<in> snd ` set es \<longleftrightarrow> (\<exists>t. tq_heap q a = Some t \<and> tm_expiration t \<le> now)" for a
    unfolding es_def image_iff Bex_def by (auto simp: tq_okD(3) [OF ok])
  have d: "distinct (map snd es)" unfolding es_def by (rule tq_ok_distinct [OF ok])
  let ?q = "q\<lparr>tq_timers := filter (\<lambda>e. now < fst e) (tq_timers q),
    tq_active := tq_active q - {(a, tm_sequence t) |a t. a \<in> snd ` set es \<and> tq_heap q a = Some t}\<rparr>"
  have e: "erase_active es (q\<lparr>tq_timers := filter (\<lambda>e. now < fst e) (tq_timers q)\<rparr>) = Some ?q"
    using erase_active_ok [of es "q\<lparr>tq_timers := filter (\<lambda>e. now < fst e) (tq_timers q)\<rparr>"] d
    by (auto simp: es_def tq_okD(3,4) [OF ok])
  have ok': "tq_ok (snd ` set es) ?q"
    unfolding tq_ok_def
  proof (intro conjI)
    show "\<forall>e a. (e, a) \<in> set (tq_timers ?q) \<longleftrightarrow> a \<notin> snd ` set es \<and> (\<exists>t. tq_heap ?q a = Some t \<and> tm_expiration t = e)"
      unfolding aE by (auto simp: tq_okD(3) [OF ok])
    show "tq_active ?q = {(a, s). a \<notin> snd ` set es \<and> (\<exists>t. tq_heap ?q a = Some t \<and> tm_sequence t = s)}"
      unfolding aE by (auto simp: tq_okD(4) [OF ok])
    show "snd ` set es \<subseteq> dom (tq_heap ?q)" using aE by auto
  qed (use tq_okD(1,2,7) [OF ok] in \<open>auto simp: sorted_filter [where f = id, simplified]\<close>)
  have rest: "filter (\<lambda>e. now < fst e) (tq_timers q) = [] \<or> now < fst (hd (filter (\<lambda>e. now < fst e) (tq_timers q)))"
    using hd_in_set [of "filter (\<lambda>e. now < fst e) (tq_timers q)"] by auto
  show ?thesis
    using tq_ok_sizes [OF ok] tq_ok_sizes [OF ok'] ok' rest e by (simp add: getExpired_def Let_def T D)
qed

text \<open>What the callbacks of a queue may do.\<close>

definition callbacks_legal :: "('cb \<Rightarrow> 'cb TimerQueue \<Rightarrow> 'cb tq_op list) \<Rightarrow> bool" where
  "callbacks_legal run \<longleftrightarrow> (\<forall>cb q. finite (dom (tq_heap q)) \<longrightarrow> legal_ops (run cb q) q)"

lemma tq_ok_finite: "tq_ok E q \<Longrightarrow> finite (dom (tq_heap q))"
proof -
  assume ok: "tq_ok E q"
  have "dom (tq_heap q) \<subseteq> snd ` set (tq_timers q) \<union> E"
    using tq_okD(3) [OF ok] by (force simp: image_iff)
  then show ?thesis by (rule finite_subset) (simp add: tq_okD(6) [OF ok])
qed

lemma run_expired_ok:
  assumes "callbacks_legal run" and "tq_ok E q" and "snd ` set es \<subseteq> E"
  shows "returns (run_expired run es q) (\<lambda>(fired, q'). tq_kept E q q' \<and> fired = map (\<lambda>e. tm_callback (the (tq_heap q (snd e)))) es)"
  using assms(2,3)
proof (induction es arbitrary: q)
  case (Cons x es)
  obtain e a where x: "x = (e, a)" by fastforce
  obtain t where t: "tq_heap q a = Some t" using Cons.prems tq_okD(5) [OF Cons.prems(1)] x by auto
  have "legal_ops (run (tm_callback t) q) q" using assms(1) tq_ok_finite [OF Cons.prems(1)] by (simp add: callbacks_legal_def)
  then obtain q1 where q1: "tq_execs (run (tm_callback t) q) q = Some q1" "tq_kept E q q1"
    using tq_execs_ok [OF Cons.prems(1)] by (auto simp: returns_iff)
  then have "returns (run_expired run es q1) (\<lambda>(fired, q'). tq_kept E q1 q' \<and> fired = map (\<lambda>e. tm_callback (the (tq_heap q1 (snd e)))) es)"
    using Cons.prems(2) by (intro Cons.IH) (simp_all add: tq_kept_def)
  moreover have "map (\<lambda>e. tm_callback (the (tq_heap q1 (snd e)))) es = map (\<lambda>e. tm_callback (the (tq_heap q (snd e)))) es"
    using q1(2) Cons.prems(2) by (auto simp: tq_kept_def)
  ultimately show ?case using q1 t by (auto simp: x returns_iff tq_kept_def)
qed (simp add: tq_kept_def)

text \<open>After the callbacks every expired timer is rescheduled or deleted.\<close>

definition settled :: "timestamp \<Rightarrow> 'cb TimerQueue \<Rightarrow> nat \<Rightarrow> 'cb Timer option" where
  "settled now q a = (case tq_heap q a of
     None \<Rightarrow> None
   | Some t \<Rightarrow> if tm_repeat t \<and> (a, tm_sequence t) \<notin> tq_canceling q then Some (Timer_restart now t) else None)"

lemma tq_ok_restart:
  assumes "tq_ok (insert a E) q" and "tq_heap q a = Some t" and "tm_repeat t" and "0 < now"
  shows "tq_ok (insert a E) (q\<lparr>tq_heap := (tq_heap q)(a \<mapsto> Timer_restart now t)\<rparr>)"
  using tq_okD [OF assms(1)] assms(2-4) unfolding tq_ok_def by (auto simp: Timer_restart_def addTime_def add_pos_nonneg)

lemma tq_ok_delete:
  assumes "tq_ok (insert a E) q" and "a \<notin> E"
  shows "tq_ok E (q\<lparr>tq_heap := (tq_heap q)(a := None)\<rparr>)"
  using tq_okD [OF assms(1)] assms(2) unfolding tq_ok_def by (auto split: if_splits)

lemma reset_expired_ok:
  assumes "tq_ok (snd ` set es) q" and "distinct (map snd es)" and "0 < now"
  shows "returns (reset_expired now es q) (\<lambda>q'. tq_ok {} q' \<and> tq_canceling q' = tq_canceling q \<and>
    (\<forall>a. tq_heap q' a = (if a \<in> snd ` set es then settled now q a else tq_heap q a)))"
  using assms(1,2)
proof (induction es arbitrary: q)
  case (Cons x es)
  obtain e a where x: "x = (e, a)" by fastforce
  have a: "a \<notin> snd ` set es" using Cons.prems(2) x by auto
  have ok: "tq_ok (insert a (snd ` set es)) q" using Cons.prems(1) x by simp
  obtain t where t: "tq_heap q a = Some t" using tq_okD(5) [OF ok] by auto
  define q1 where "q1 = (if tm_repeat t \<and> (a, tm_sequence t) \<notin> tq_canceling q
    then q\<lparr>tq_heap := (tq_heap q)(a \<mapsto> Timer_restart now t), tq_timers := insort (tm_expiration (Timer_restart now t), a) (tq_timers q),
           tq_active := insert (a, tm_sequence t) (tq_active q)\<rparr>
    else q\<lparr>tq_heap := (tq_heap q)(a := None)\<rparr>)"
  have step: "reset_expired now (x # es) q = reset_expired now es q1 \<and> tq_ok (snd ` set es) q1"
  proof (cases "tm_repeat t \<and> (a, tm_sequence t) \<notin> tq_canceling q")
    case True
    let ?q = "q\<lparr>tq_heap := (tq_heap q)(a \<mapsto> Timer_restart now t)\<rparr>"
    have "tq_ok (insert a (snd ` set es)) ?q" using tq_ok_restart [OF ok t] True assms(3) by simp
    from tq_insert_ok [OF this a, of "Timer_restart now t"] show ?thesis
      using True t by (auto simp: x q1_def returns_iff Timer_restart_def)
  next
    case False
    then have "tq_ok (snd ` set es) q1" using tq_ok_delete [OF ok a] unfolding q1_def by (simp only: if_False)
    then show ?thesis using False t by (auto simp: x q1_def)
  qed
  then have r: "returns (reset_expired now es q1) (\<lambda>q'. tq_ok {} q' \<and> tq_canceling q' = tq_canceling q1 \<and>
    (\<forall>a. tq_heap q' a = (if a \<in> snd ` set es then settled now q1 a else tq_heap q1 a)))"
    using Cons.prems(2) by (intro Cons.IH) simp_all
  have c: "tq_canceling q1 = tq_canceling q" by (simp add: q1_def)
  have h: "tq_heap q1 b = (if b = a then settled now q a else tq_heap q b)" for b using t by (simp add: q1_def settled_def)
  have s: "settled now q1 b = settled now q b" if "b \<in> snd ` set es" for b
  proof -
    have "b \<noteq> a" using that a by blast
    then show ?thesis by (simp add: settled_def h c cong: option.case_cong)
  qed
  from r show ?case unfolding conjunct1 [OF step] by (rule returns_mono) (use a c h s in \<open>simp add: x\<close>)
qed simp

lemma tq_reset_ok:
  assumes "tq_ok (snd ` set es) q" and "distinct (map snd es)" and "0 < now"
  shows "returns (tq_reset clk es now q) (\<lambda>q'. tq_ok {} q' \<and> tq_canceling q' = tq_canceling q \<and>
    (\<forall>a. tq_heap q' a = (if a \<in> snd ` set es then settled now q a else tq_heap q a)) \<and>
    (tq_timers q' \<noteq> [] \<longrightarrow> tq_timerfd q' = Some (max (fst (hd (tq_timers q'))) (clk + 100))))"
proof -
  obtain q1 where q1: "reset_expired now es q = Some q1" and ok: "tq_ok {} q1" "tq_canceling q1 = tq_canceling q"
    and h: "\<And>a. tq_heap q1 a = (if a \<in> snd ` set es then settled now q a else tq_heap q a)"
    using reset_expired_ok [OF assms] by (auto simp: returns_iff)
  show ?thesis
  proof (cases "tq_timers q1")
    case Nil
    then show ?thesis using q1 ok h by (simp add: tq_reset_def Timestamp_valid_def Timestamp_invalid_def)
  next
    case (Cons x xs)
    obtain e a where x: "x = (e, a)" by fastforce
    from Cons x tq_okD(3) [OF ok(1), of e a] obtain t where t: "tq_heap q1 a = Some t" "tm_expiration t = e" by auto
    then have "0 < e" using tq_okD(7) [OF ok(1)] by blast
    then show ?thesis using q1 ok h Cons x t
      by (simp add: tq_reset_def Timestamp_valid_def resetTimerfd_eq)
  qed
qed

text \<open>
  C29. The timers of muduo. When the timer descriptor fires at the time \<open>now\<close>, \<open>handleRead\<close> returns: no assertion
  fails and no timer is used after its deletion, whatever timers the callbacks add and cancel meanwhile (also
  at addresses that are used again). It runs the callbacks of exactly the timers that have expired, in the order of their
  expiration. Afterwards the two sets and the heap agree again, every expired timer is either
  rescheduled, if it repeats and no callback has cancelled it (\<open>cancelingTimers_\<close>), or deleted, and the descriptor is armed for the earliest timer.
\<close>

theorem timer_queue_expiry:
  assumes "tq_ok {} q" and "callbacks_legal run" and "0 < now"
  shows "returns (tq_handleRead run now clk q) (\<lambda>(fired, q').
    fired = map (\<lambda>e. tm_callback (the (tq_heap q (snd e)))) (filter (\<lambda>e. fst e \<le> now) (tq_timers q)) \<and> tq_ok {} q' \<and>
    (\<forall>a t. tq_heap q a = Some t \<longrightarrow> tm_expiration t \<le> now \<longrightarrow>
       tq_heap q' a = (if tm_repeat t \<and> (a, tm_sequence t) \<notin> tq_canceling q' then Some (Timer_restart now t) else None)) \<and>
    (tq_timers q' \<noteq> [] \<longrightarrow> tq_timerfd q' = Some (max (fst (hd (tq_timers q'))) (clk + 100))))"
proof -
  let ?es = "filter (\<lambda>e. fst e \<le> now) (tq_timers q)" and ?E = "snd ` set (filter (\<lambda>e. fst e \<le> now) (tq_timers q))"
  obtain q1 where q1: "getExpired now q = Some (?es, q1)" "tq_ok ?E q1" "tq_heap q1 = tq_heap q"
    using getExpired_ok [OF assms(1), of now] by (auto simp: returns_iff)
  let ?q1 = "q1\<lparr>tq_calling := True, tq_canceling := {}\<rparr>"
  have "tq_ok ?E ?q1" using q1(2) by simp
  from run_expired_ok [OF assms(2) this subset_refl] obtain q2 where
    q2: "run_expired run ?es ?q1 = Some (map (\<lambda>e. tm_callback (the (tq_heap q (snd e)))) ?es, q2)" "tq_kept ?E ?q1 q2"
    using q1(3) by (auto simp: returns_iff)
  let ?q2 = "q2\<lparr>tq_calling := False\<rparr>"
  have ok2: "tq_ok ?E ?q2" using q2(2) unfolding tq_kept_def by (simp only: tq_ok_frame)
  have h2: "tq_heap q2 a = tq_heap q a" if "a \<in> ?E" for a
  proof -
    have "tq_heap q2 a = tq_heap ?q1 a" using q2(2) that unfolding tq_kept_def by blast
    then show ?thesis using q1(3) by simp
  qed
  from tq_reset_ok [OF ok2 tq_ok_distinct [OF assms(1)] assms(3), of clk] obtain q3 where
    q3: "tq_reset clk ?es now ?q2 = Some q3" "tq_ok {} q3" "tq_canceling q3 = tq_canceling q2"
      "\<And>a. a \<in> ?E \<Longrightarrow> tq_heap q3 a = settled now ?q2 a"
      "tq_timers q3 \<noteq> [] \<longrightarrow> tq_timerfd q3 = Some (max (fst (hd (tq_timers q3))) (clk + 100))"
    by (auto simp: returns_iff)
  have "tq_heap q3 a = (if tm_repeat t \<and> (a, tm_sequence t) \<notin> tq_canceling q3 then Some (Timer_restart now t) else None)"
    if "tq_heap q a = Some t" "tm_expiration t \<le> now" for a t
  proof -
    have "(tm_expiration t, a) \<in> set (tq_timers q)" using that(1) by (simp add: tq_okD(3) [OF assms(1)])
    then have "a \<in> ?E" using that(2) by force
    then show ?thesis using q3(3,4) h2 that(1) by (simp add: settled_def)
  qed
  then show ?thesis using q1(1) q2(1) q3 by (simp add: tq_handleRead_def)
qed

text \<open>Two timers, one of them repeating; the first callback cancels nothing and adds a timer.\<close>

definition two_timers :: "nat TimerQueue option" where
  "two_timers = tq_execs [Add 10 0 7 1000 False 0, Add 10 1 8 500 True 300] TimerQueue_new"

definition no_requests :: "nat \<Rightarrow> nat TimerQueue \<Rightarrow> nat tq_op list" where "no_requests cb q = []"

theorem timer_queue_expiry_witness:
  "\<exists>q. two_timers = Some q \<and> tq_ok {} q \<and> (\<exists>q'. tq_handleRead no_requests 1200 1201 q = Some ([8, 7], q') \<and> tq_ok {} q')"
proof -
  have "legal_ops [Add 10 0 7 1000 False 0, Add 10 1 8 500 True 300] (TimerQueue_new :: nat TimerQueue)"
    by (auto simp: TimerQueue_new_def UINTPTR_MAX_def addTimer_def addTimerInLoop_def tq_insert_def resetTimerfd_eq Let_def
        Option.bind_eq_Some_conv split: option.splits)
  then obtain q where q: "two_timers = Some q" and ok: "tq_ok {} q"
    using tq_execs_ok [OF tq_ok_new, of "[Add 10 0 7 1000 False 0, Add 10 1 8 500 True 300]"]
    unfolding two_timers_def returns_iff tq_kept_def by blast
  have "callbacks_legal no_requests" by (simp add: callbacks_legal_def no_requests_def)
  from timer_queue_expiry [OF ok this, of 1200 1201] q ok show ?thesis
    by (auto simp: returns_iff two_timers_def TimerQueue_new_def addTimer_def addTimerInLoop_def tq_insert_def resetTimerfd_eq Let_def sizes_agree_def)
qed

end
