(* ===== verification/MuduoZoneFile.thy ===== *)
theory MuduoZoneFile
  imports MuduoTimeZone MuduoBuffer
begin

text \<open>
  The reader of time zone files of the bundled muduo library: the class \<open>File\<close> and the functions \<open>readDataBlock\<close>, \<open>readTimeZoneFile\<close> and
  \<open>loadZoneFile\<close> of \<open>src/muduo_source_code/muduo/base/TimeZone.cc\<close>. An open file is its bytes and the position in them. An operation
  returns, throws an exception with its message, or has undefined behaviour (an array of negative length, an overflow of
  \<open>int\<close> or \<open>int64_t\<close>).

  The specification is the format of RFC 8536, written as an encoder; the theory shows that the reader
  inverts it and that a table it returns, whatever the file, has valid indices and consistent local times.
\<close>

section \<open>Files\<close>

record File =
  fp_bytes :: bytes
  fp_pos :: nat

type_synonym 'a reader = "File \<Rightarrow> ('a \<times> File) outcome"

definition rret :: "'a \<Rightarrow> 'a reader" where "rret x f = Ret (x, f)"
definition rthrow :: "bytes \<Rightarrow> 'a reader" where "rthrow msg f = Thrown msg"

definition rbind :: "'a reader \<Rightarrow> ('a \<Rightarrow> 'b reader) \<Rightarrow> 'b reader" where
  "rbind r k f = (case r f of Ret (x, f1) \<Rightarrow> k x f1 | Thrown msg \<Rightarrow> Thrown msg | Undefined \<Rightarrow> Undefined)"

text \<open>\<open>fread\<close> of \<open>n\<close> bytes gives at most what is left, \<open>fseek\<close> fails before the start of the file.\<close>

definition fread :: "nat \<Rightarrow> File \<Rightarrow> bytes \<times> File" where
  "fread n f = (let xs = take n (drop (fp_pos f) (fp_bytes f)) in (xs, f\<lparr>fp_pos := fp_pos f + length xs\<rparr>))"

definition readExactly :: "nat \<Rightarrow> bytes \<Rightarrow> bytes reader" where
  "readExactly n msg f = (let (xs, f1) = fread n f in if length xs \<noteq> n then Thrown msg else Ret (xs, f1))"

definition readBytes :: "int \<Rightarrow> bytes reader" where
  "readBytes n f = (if n < 0 then Undefined else readExactly (nat n) ''no enough data'' f)"

definition readToEnd :: "bytes reader" where
  "readToEnd f = (let (xs, f1) = fread (length (fp_bytes f)) f in Ret (xs, f1))"

definition File_readInt64 :: "int reader" where
  "File_readInt64 = rbind (readExactly 8 ''bad int64_t data'') (\<lambda>x. rret (sint (word_of_nat (be_value x) :: 64 word)))"

definition File_readInt32 :: "int reader" where
  "File_readInt32 = rbind (readExactly 4 ''bad int32_t data'') (\<lambda>x. rret (sint (word_of_nat (be_value x) :: 32 word)))"

definition readUInt8 :: "nat reader" where
  "readUInt8 = rbind (readExactly 1 ''bad uint8_t data'') (\<lambda>x. rret (be_value x))"

definition File_skip :: "int \<Rightarrow> unit reader" where
  "File_skip n f = Ret ((), if int (fp_pos f) + n \<ge> 0 then f\<lparr>fp_pos := nat (int (fp_pos f) + n)\<rparr> else f)"

section \<open>The data block\<close>

text \<open>\<open>reserve\<close> of a negative count throws \<open>length_error\<close>, an access by \<open>at\<close> outside the vector \<open>out_of_range\<close>; both are logic errors.\<close>

definition vector_reserve :: "int \<Rightarrow> unit reader" where
  "vector_reserve n = (if n < 0 then rthrow ''vector::reserve'' else rret ())"

fun read_n :: "nat \<Rightarrow> 'a reader \<Rightarrow> 'a list reader" where
  "read_n 0 r = rret []"
| "read_n (Suc n) r = rbind r (\<lambda>x. rbind (read_n n r) (\<lambda>xs. rret (x # xs)))"

fun read_types :: "nat \<Rightarrow> TzData \<Rightarrow> TzData reader" where
  "read_types 0 d = rret d"
| "read_types (Suc n) d =
     rbind File_readInt32 (\<lambda>gmtoff. rbind readUInt8 (\<lambda>isdst. rbind readUInt8 (\<lambda>abbrind.
       read_types n (addLocalTime gmtoff (isdst \<noteq> 0) abbrind d))))"

fun add_transitions :: "(int \<times> nat) list \<Rightarrow> TzData \<Rightarrow> TzData reader" where
  "add_transitions [] d = rret d"
| "add_transitions ((utc, idx) # rest) d =
     (\<lambda>f. case addTransition utc idx d of
        Ret d1 \<Rightarrow> add_transitions rest d1 f
      | Thrown msg \<Rightarrow> Thrown msg
      | Undefined \<Rightarrow> Undefined)"

definition readDataBlock :: "TzData \<Rightarrow> bool \<Rightarrow> (bool \<times> TzData) reader" where
  "readDataBlock data v1 =
     (let time_size = (if v1 then 4 else 8) in
      rbind File_readInt32 (\<lambda>isutccnt.
      rbind File_readInt32 (\<lambda>isstdcnt.
      rbind File_readInt32 (\<lambda>leapcnt.
      rbind File_readInt32 (\<lambda>timecnt.
      rbind File_readInt32 (\<lambda>typecnt.
      rbind File_readInt32 (\<lambda>charcnt.
      if leapcnt \<noteq> 0 then rret (False, data)
      else if isutccnt \<noteq> 0 \<and> isutccnt \<noteq> typecnt then rret (False, data)
      else if isstdcnt \<noteq> 0 \<and> isstdcnt \<noteq> typecnt then rret (False, data)
      else
      rbind (vector_reserve timecnt) (\<lambda>_.
      rbind (read_n (nat timecnt) (if v1 then File_readInt32 else File_readInt64)) (\<lambda>utcs.
      rbind (read_n (nat timecnt) readUInt8) (\<lambda>localidxs.
      rbind (vector_reserve typecnt) (\<lambda>_.
      rbind (read_types (nat typecnt) data) (\<lambda>d1.
      rbind (add_transitions (zip utcs localidxs) d1) (\<lambda>d2.
      rbind (readBytes charcnt) (\<lambda>abbr.
      rbind (File_skip (leapcnt * (time_size + 4))) (\<lambda>_.
      rbind (File_skip isstdcnt) (\<lambda>_.
      rbind (File_skip isutccnt) (\<lambda>_.
      let d3 = d2\<lparr>tz_abbreviation := abbr\<rparr> in
      if \<not> v1 then rbind readToEnd (\<lambda>s. rret (True, d3\<lparr>tzstring := s\<rparr>))
      else rret (True, d3))))))))))))))))))"

section \<open>The file\<close>

definition read_head :: "File \<Rightarrow> (unit \<times> File) outcome" where
  "read_head = rbind (readBytes 4) (\<lambda>head. if head \<noteq> ''TZif'' then rthrow ''bad head'' else rret ())"

text \<open>The amount to skip is computed in \<open>size_t\<close>, but the products \<open>6 * typecnt\<close> and \<open>8 * leapcnt\<close> in \<open>int\<close>.\<close>

definition skip_v1 :: "int \<Rightarrow> int \<Rightarrow> int \<Rightarrow> int \<Rightarrow> int \<Rightarrow> int \<Rightarrow> unit reader" where
  "skip_v1 isgmtcnt isstdcnt leapcnt timecnt typecnt charcnt f =
     (if fits_int (6 * typecnt) \<and> fits_int (8 * leapcnt)
      then File_skip (4 * timecnt + timecnt + 6 * typecnt + charcnt + 8 * leapcnt + isstdcnt + isgmtcnt) f
      else Undefined)"

definition read_zone :: "TzData \<Rightarrow> (bool \<times> TzData) reader" where
  "read_zone data =
     rbind read_head (\<lambda>_.
     rbind (readBytes 1) (\<lambda>version.
     rbind (readBytes 15) (\<lambda>_.
     rbind File_readInt32 (\<lambda>isgmtcnt.
     rbind File_readInt32 (\<lambda>isstdcnt.
     rbind File_readInt32 (\<lambda>leapcnt.
     rbind File_readInt32 (\<lambda>timecnt.
     rbind File_readInt32 (\<lambda>typecnt.
     rbind File_readInt32 (\<lambda>charcnt.
     if version = ''2'' then
       rbind (skip_v1 isgmtcnt isstdcnt leapcnt timecnt typecnt charcnt) (\<lambda>_.
       rbind read_head (\<lambda>_.
       rbind (File_skip 16) (\<lambda>_.
       readDataBlock data False)))
     else
       rbind (File_skip (- 4 * 6)) (\<lambda>_.
       readDataBlock data True))))))))))"

text \<open>The data of a read that failed are dropped by the only caller.\<close>

definition readTimeZoneFile :: "bytes option \<Rightarrow> TzData \<Rightarrow> (bool \<times> TzData) outcome" where
  "readTimeZoneFile zonefile data =
     (case zonefile of
        None \<Rightarrow> Ret (False, data)
      | Some bs \<Rightarrow>
          (case read_zone data \<lparr>fp_bytes = bs, fp_pos = 0\<rparr> of
             Ret (r, f) \<Rightarrow> Ret r
           | Thrown e \<Rightarrow> Ret (False, data)
           | Undefined \<Rightarrow> Undefined))"

definition loadZoneFile :: "bytes option \<Rightarrow> TimeZone outcome" where
  "loadZoneFile zonefile =
     (case readTimeZoneFile zonefile TzData_new of
        Ret (ok, data) \<Rightarrow> Ret (if ok then Some data else None)
      | Thrown e \<Rightarrow> Thrown e
      | Undefined \<Rightarrow> Undefined)"

section \<open>Tables that are read have valid indices\<close>

lemma rbind_Ret: "rbind r k f = Ret y \<longleftrightarrow> (\<exists>x f1. r f = Ret (x, f1) \<and> k x f1 = Ret y)"
  by (simp add: rbind_def split: outcome.splits prod.splits)

lemma read_types_ok: "read_types n d f = Ret (d1, f1) \<Longrightarrow> transitions d = [] \<Longrightarrow> transitions d1 = []"
  by (induction n d arbitrary: f rule: read_types.induct) (auto simp: rbind_Ret rret_def addLocalTime_def)

text \<open>The local times of a table are representable.\<close>

definition table_ok :: "TzData \<Rightarrow> bool" where
  "table_ok d \<longleftrightarrow> data_ok d \<and> (\<forall>tr \<in> set (transitions d). fits_int64 (localtime tr))"

lemma addTransition_ok: "addTransition t i d = Ret d1 \<Longrightarrow> table_ok d \<Longrightarrow> table_ok d1"
  by (auto simp: addTransition_def table_ok_def data_ok_def Let_def split: if_splits)

lemma add_transitions_ok: "add_transitions ts d f = Ret (d1, f1) \<Longrightarrow> table_ok d \<Longrightarrow> table_ok d1"
  by (induction ts d arbitrary: f rule: add_transitions.induct)
    (auto simp: rret_def split: outcome.splits dest: addTransition_ok)

lemma table_ok_fields [simp]: "table_ok (d\<lparr>tz_abbreviation := a\<rparr>) = table_ok d" "table_ok (d\<lparr>tzstring := s\<rparr>) = table_ok d"
  by (simp_all add: table_ok_def data_ok_def)

lemma table_ok_no_transitions: "transitions d = [] \<Longrightarrow> table_ok d"
  by (simp add: table_ok_def data_ok_def)

lemma readDataBlock_ok:
  "readDataBlock d v1 f = Ret ((True, d1), f1) \<Longrightarrow> transitions d = [] \<Longrightarrow> table_ok d1"
  unfolding readDataBlock_def Let_def
  by (auto simp: rbind_Ret rret_def split: if_splits dest!: add_transitions_ok dest: table_ok_no_transitions read_types_ok)

lemma loadZoneFile_ok: "loadZoneFile bs = Ret (Some d) \<Longrightarrow> table_ok d"
  by (auto simp: loadZoneFile_def readTimeZoneFile_def read_zone_def rbind_Ret TzData_new_def
      split: option.splits outcome.splits prod.splits if_splits dest!: readDataBlock_ok)

section \<open>The format and its reader\<close>

text \<open>\<open>parses r bs x\<close>: before the bytes \<open>bs\<close>, the reader takes exactly them and returns \<open>x\<close>.\<close>

definition parses :: "'a reader \<Rightarrow> bytes \<Rightarrow> 'a \<Rightarrow> bool" where
  "parses r bs x \<longleftrightarrow> (\<forall>f rest. drop (fp_pos f) (fp_bytes f) = bs @ rest \<longrightarrow>
     r f = Ret (x, f\<lparr>fp_pos := fp_pos f + length bs\<rparr>))"

lemma drop_next: "drop p xs = bs @ rest \<Longrightarrow> drop (p + length bs) xs = rest"
  by (metis append_eq_conv_conj drop_drop add.commute)

lemma parses_rbind:
  assumes "parses r bs x" "parses (k x) cs y"
  shows "parses (rbind r k) (bs @ cs) y"
  unfolding parses_def
proof (intro allI impI)
  fix f :: File and rest
  assume d: "drop (fp_pos f) (fp_bytes f) = (bs @ cs) @ rest"
  then have "drop (fp_pos f + length bs) (fp_bytes f) = cs @ rest" by (simp add: drop_next)
  then show "rbind r k f = Ret (y, f\<lparr>fp_pos := fp_pos f + length (bs @ cs)\<rparr>)"
    using assms d by (simp add: parses_def rbind_def add.assoc)
qed

lemma parses_rret: "parses (rret x) [] x"
  by (simp add: parses_def rret_def)

lemma parses_readExactly: "length bs = n \<Longrightarrow> parses (readExactly n msg) bs bs"
  by (simp add: parses_def readExactly_def fread_def Let_def)

lemma parses_readBytes: "int (length bs) = n \<Longrightarrow> parses (readBytes n) bs bs"
  using parses_readExactly [of bs "nat n"] by (auto simp: parses_def readBytes_def)

lemma parses_skip: "int (length bs) = n \<Longrightarrow> parses (File_skip n) bs ()"
  by (auto simp: parses_def File_skip_def nat_add_distrib)

lemma parses_then_rret: "parses r bs x \<Longrightarrow> parses (rbind r (\<lambda>x. rret (g x))) bs (g x)"
  using parses_rbind [of r bs x _ "[]"] parses_rret by fastforce

lemma parses_Int32: "parses File_readInt32 (be_bytes 4 (unat (w :: 32 word))) (sint w)"
proof -
  have "unat w < 2 ^ LENGTH(32)" by (rule unsigned_less)
  then show ?thesis
    using parses_then_rret [OF parses_readExactly [of "be_bytes 4 (unat w)" 4], of _ "\<lambda>x. sint (word_of_nat (be_value x) :: 32 word)"]
    by (simp add: File_readInt32_def be_value_bytes)
qed

lemma parses_Int64: "parses File_readInt64 (be_bytes 8 (unat (w :: 64 word))) (sint w)"
proof -
  have "unat w < 2 ^ LENGTH(64)" by (rule unsigned_less)
  then show ?thesis
    using parses_then_rret [OF parses_readExactly [of "be_bytes 8 (unat w)" 8], of _ "\<lambda>x. sint (word_of_nat (be_value x) :: 64 word)"]
    by (simp add: File_readInt64_def be_value_bytes)
qed

lemma parses_UInt8: "parses readUInt8 (be_bytes 1 (unat (w :: 8 word))) (unat w)"
proof -
  have "unat w < 2 ^ LENGTH(8)" by (rule unsigned_less)
  then show ?thesis
    using parses_then_rret [OF parses_readExactly [of "be_bytes 1 (unat w)" 1], of _ be_value]
    by (simp add: readUInt8_def be_value_def of_char_of)
qed

lemma parses_read_n:
  assumes "\<And>x. parses r (enc x) (val x)"
  shows "parses (read_n (length xs) r) (concat (map enc xs)) (map val xs)"
proof (induction xs)
  case (Cons x xs)
  show ?case
    using parses_rbind [of r "enc x" "val x" "\<lambda>y. rbind (read_n (length xs) r) (\<lambda>ys. rret (y # ys))", OF assms]
      parses_then_rret [OF Cons.IH, of "\<lambda>xs. val x # xs"] by simp
qed (simp add: parses_rret)

text \<open>The format: the counts of a block, its transition times, their types, the types, the abbreviations, the indicators and, in
  the second block, the footer.\<close>

record zone_spec =
  zs_trans :: "(64 word \<times> 8 word) list"
  zs_types :: "(32 word \<times> 8 word \<times> 8 word) list"
  zs_abbr :: bytes
  zs_isstd :: bytes
  zs_isut :: bytes
  zs_footer :: bytes

definition enc32 :: "32 word \<Rightarrow> bytes" where "enc32 w = be_bytes 4 (unat w)"
definition enc64 :: "64 word \<Rightarrow> bytes" where "enc64 w = be_bytes 8 (unat w)"
definition enc8 :: "8 word \<Rightarrow> bytes" where "enc8 w = be_bytes 1 (unat w)"

definition enc_counts :: "nat \<Rightarrow> nat \<Rightarrow> nat \<Rightarrow> nat \<Rightarrow> nat \<Rightarrow> nat \<Rightarrow> bytes" where
  "enc_counts isut isstd leap_cnt timecnt typecnt charcnt =
     concat (map (\<lambda>n. enc32 (word_of_nat n)) [isut, isstd, leap_cnt, timecnt, typecnt, charcnt])"

definition enc_type :: "32 word \<times> 8 word \<times> 8 word \<Rightarrow> bytes" where
  "enc_type ty = enc32 (fst ty) @ enc8 (fst (snd ty)) @ enc8 (snd (snd ty))"

definition enc_block :: "zone_spec \<Rightarrow> bytes" where
  "enc_block z =
     enc_counts (length (zs_isut z)) (length (zs_isstd z)) 0 (length (zs_trans z)) (length (zs_types z)) (length (zs_abbr z)) @
     concat (map enc64 (map fst (zs_trans z))) @ concat (map enc8 (map snd (zs_trans z))) @ concat (map enc_type (zs_types z)) @
     zs_abbr z @ zs_isstd z @ zs_isut z @ zs_footer z"

definition zone_spec_ok :: "zone_spec \<Rightarrow> bool" where
  "zone_spec_ok z \<longleftrightarrow>
     length (zs_trans z) < 2 ^ 31 \<and> length (zs_types z) < 2 ^ 31 \<and> length (zs_abbr z) < 2 ^ 31 \<and>
     length (zs_isstd z) \<in> {0, length (zs_types z)} \<and> length (zs_isut z) \<in> {0, length (zs_types z)} \<and>
     (\<forall>tr \<in> set (zs_trans z). unat (snd tr) < length (zs_types z) \<and>
        fits_int64 (sint (fst tr) + sint (fst (zs_types z ! unat (snd tr)))))"

text \<open>The table a file describes.\<close>

definition zone_types :: "zone_spec \<Rightarrow> LocalTime list" where
  "zone_types z = map (\<lambda>ty. \<lparr>utcOffset = sint (fst ty), isDst = fst (snd ty) \<noteq> 0, desigIdx = unat (snd (snd ty))\<rparr>) (zs_types z)"

definition zone_data :: "zone_spec \<Rightarrow> TzData" where
  "zone_data z =
     \<lparr>transitions = map (\<lambda>tr. \<lparr>utctime = sint (fst tr),
        localtime = sint (fst tr) + utcOffset (zone_types z ! unat (snd tr)), localtimeIdx = unat (snd tr)\<rparr>) (zs_trans z),
      localtimes = zone_types z, tz_abbreviation = zs_abbr z, tzstring = zs_footer z\<rparr>"

lemma parses_type:
  "parses (read_types n (addLocalTime (sint (fst ty)) (fst (snd ty) \<noteq> 0) (unat (snd (snd ty))) d)) bs d1 \<Longrightarrow>
   parses (read_types (Suc n) d) (enc_type ty @ bs) d1"
  unfolding read_types.simps enc_type_def append_assoc enc32_def enc8_def
  by (intro parses_rbind [OF parses_Int32] parses_rbind [OF parses_UInt8]) (simp add: unat_eq_0)

lemma parses_types:
  "parses (read_types (length tys) d) (concat (map enc_type tys))
    (d\<lparr>localtimes := localtimes d @
       map (\<lambda>ty. \<lparr>utcOffset = sint (fst ty), isDst = fst (snd ty) \<noteq> 0, desigIdx = unat (snd (snd ty))\<rparr>) tys\<rparr>)"
proof (induction tys arbitrary: d)
  case (Cons ty tys)
  show ?case using parses_type [where ty = ty and d = d, OF Cons.IH] by (simp add: addLocalTime_def)
qed (simp add: parses_rret)

lemma parses_add_transitions:
  "\<forall>tr \<in> set ts. snd tr < length (localtimes d) \<and> fits_int64 (fst tr + utcOffset (localtimes d ! snd tr)) \<Longrightarrow>
   parses (add_transitions ts d) [] (d\<lparr>transitions := transitions d @
     map (\<lambda>tr. \<lparr>utctime = fst tr, localtime = fst tr + utcOffset (localtimes d ! snd tr), localtimeIdx = snd tr\<rparr>) ts\<rparr>)"
proof (induction ts arbitrary: d)
  case (Cons tr ts)
  then show ?case
    using Cons.IH [of "d\<lparr>transitions := transitions d @
      [\<lparr>utctime = fst tr, localtime = fst tr + utcOffset (localtimes d ! snd tr), localtimeIdx = snd tr\<rparr>]\<rparr>"]
    by (cases tr) (simp add: addTransition_def parses_def)
qed (simp add: parses_rret)

lemma parses_count: "n < 2 ^ 31 \<Longrightarrow> parses File_readInt32 (enc32 (word_of_nat n)) (int n)"
  using parses_Int32 [of "word_of_nat n"]
  by (simp add: enc32_def signed_of_nat signed_take_bit_int_eq_self flip: of_nat_power)

lemma parses_readToEnd: "drop (fp_pos f) (fp_bytes f) = bs \<Longrightarrow> readToEnd f = Ret (bs, f\<lparr>fp_pos := fp_pos f + length bs\<rparr>)"
  by (auto simp: readToEnd_def fread_def Let_def)

text \<open>\<open>parses_all r bs x\<close>: the same for the rest of the file.\<close>

definition parses_all :: "'a reader \<Rightarrow> bytes \<Rightarrow> 'a \<Rightarrow> bool" where
  "parses_all r bs x \<longleftrightarrow> (\<forall>f. drop (fp_pos f) (fp_bytes f) = bs \<longrightarrow> (\<exists>f1. r f = Ret (x, f1)))"

lemma parses_all_rbind:
  assumes "parses r bs x" "parses_all (k x) cs y"
  shows "parses_all (rbind r k) (bs @ cs) y"
  unfolding parses_all_def
proof (intro allI impI)
  fix f :: File
  assume d: "drop (fp_pos f) (fp_bytes f) = bs @ cs"
  then have "drop (fp_pos f + length bs) (fp_bytes f) = cs" by (rule drop_next)
  then show "\<exists>f1. rbind r k f = Ret (y, f1)" using assms d by (simp add: parses_def parses_all_def rbind_def)
qed

lemma parses_all_rbind0: "parses r [] x \<Longrightarrow> parses_all (k x) cs y \<Longrightarrow> parses_all (rbind r k) cs y"
  using parses_all_rbind [of r "[]" x k cs y] by simp

lemma parses_all_end: "parses_all (rbind readToEnd (\<lambda>s. rret (g s))) bs (g bs)"
  by (simp add: parses_all_def rbind_def rret_def parses_readToEnd [OF refl])

lemma parses_reserve: "0 \<le> n \<Longrightarrow> parses (vector_reserve n) [] ()"
  by (simp add: vector_reserve_def parses_rret)

lemma map_fst_snd_val: "zip (map f (map fst xs)) (map g (map snd xs)) = map (\<lambda>x. (f (fst x), g (snd x))) xs"
  by (induction xs) auto

lemma parses_block:
  assumes "zone_spec_ok z"
  shows "parses_all (readDataBlock TzData_new False) (enc_block z) (True, zone_data z)"
proof -
  have n: "length (zs_isut z) < 2 ^ 31" "length (zs_isstd z) < 2 ^ 31" "(0 :: nat) < 2 ^ 31"
    "length (zs_trans z) < 2 ^ 31" "length (zs_types z) < 2 ^ 31" "length (zs_abbr z) < 2 ^ 31"
    and c: "length (zs_isut z) \<in> {0, length (zs_types z)}" "length (zs_isstd z) \<in> {0, length (zs_types z)}"
    using assms by (auto simp: zone_spec_ok_def)
  let ?d1 = "TzData_new\<lparr>localtimes := localtimes TzData_new @
     map (\<lambda>ty. \<lparr>utcOffset = sint (fst ty), isDst = fst (snd ty) \<noteq> 0, desigIdx = unat (snd (snd ty))\<rparr>) (zs_types z)\<rparr>"
  let ?ts = "zip (map sint (map fst (zs_trans z))) (map unat (map snd (zs_trans z)))"
  have d1: "?d1 = TzData_new\<lparr>localtimes := zone_types z\<rparr>" by (simp add: zone_types_def TzData_new_def)
  have ts: "\<forall>tr \<in> set ?ts. snd tr < length (localtimes ?d1) \<and> fits_int64 (fst tr + utcOffset (localtimes ?d1 ! snd tr))"
    using assms unfolding map_fst_snd_val by (auto simp: zone_spec_ok_def TzData_new_def)
  have times: "parses (read_n (nat (int (length (zs_trans z)))) (if False then File_readInt32 else File_readInt64))
      (concat (map enc64 (map fst (zs_trans z)))) (map sint (map fst (zs_trans z)))"
    using parses_read_n [of File_readInt64 enc64 sint "map fst (zs_trans z)"] parses_Int64 by (simp add: enc64_def)
  have idxs: "parses (read_n (nat (int (length (zs_trans z)))) readUInt8)
      (concat (map enc8 (map snd (zs_trans z)))) (map unat (map snd (zs_trans z)))"
    using parses_read_n [of readUInt8 enc8 unat "map snd (zs_trans z)"] parses_UInt8 by (simp add: enc8_def)
  have types: "parses (read_types (nat (int (length (zs_types z)))) TzData_new) (concat (map enc_type (zs_types z))) ?d1"
    using parses_types by simp
  have res: "zone_data z = (?d1\<lparr>transitions := transitions ?d1 @ map (\<lambda>tr. \<lparr>utctime = fst tr,
       localtime = fst tr + utcOffset (localtimes ?d1 ! snd tr), localtimeIdx = snd tr\<rparr>) ?ts\<rparr>)
     \<lparr>tz_abbreviation := zs_abbr z, tzstring := zs_footer z\<rparr>"
    unfolding map_fst_snd_val by (simp add: zone_data_def zone_types_def TzData_new_def)
  have cond: "(int 0 \<noteq> 0) = False"
    "(int (length (zs_isut z)) \<noteq> 0 \<and> int (length (zs_isut z)) \<noteq> int (length (zs_types z))) = False"
    "(int (length (zs_isstd z)) \<noteq> 0 \<and> int (length (zs_isstd z)) \<noteq> int (length (zs_types z))) = False"
    using c by auto
  note counts = parses_all_rbind [OF parses_count [OF n(1)]] parses_all_rbind [OF parses_count [OF n(2)]]
    parses_all_rbind [OF parses_count [OF n(3)]] parses_all_rbind [OF parses_count [OF n(4)]]
    parses_all_rbind [OF parses_count [OF n(5)]] parses_all_rbind [OF parses_count [OF n(6)]]
  have skips: "parses (File_skip (int 0 * k)) [] ()" for k by (rule parses_skip) simp
  show ?thesis
    unfolding readDataBlock_def enc_block_def enc_counts_def Let_def list.map concat.simps append_assoc append_Nil res
    apply (rule counts)+
    apply (simp only: cond if_False simp_thms)
    apply (rule parses_all_rbind0 [OF parses_reserve], simp)
    apply (rule parses_all_rbind [OF times [simplified if_False]])
    apply (rule parses_all_rbind [OF idxs])
    apply (rule parses_all_rbind0 [OF parses_reserve], simp)
    apply (rule parses_all_rbind [OF types])
    apply (rule parses_all_rbind0 [OF parses_add_transitions [OF ts]])
    apply (rule parses_all_rbind [OF parses_readBytes [OF refl]])
    apply (rule parses_all_rbind0 [OF skips])
    apply (rule parses_all_rbind [OF parses_skip [OF refl]])
    apply (rule parses_all_rbind [OF parses_skip [OF refl]])
    apply (simp only: not_False_eq_True if_True)
    apply (rule parses_all_end)
    done
qed

text \<open>A version 2 file: a first block, whose counts tell its length and whose contents are skipped, and the second block.\<close>

record v1_block =
  b1_isut :: nat
  b1_isstd :: nat
  b1_leap :: nat
  b1_time :: nat
  b1_type :: nat
  b1_char :: nat
  b1_bytes :: bytes

definition v1_block_ok :: "v1_block \<Rightarrow> bool" where
  "v1_block_ok b \<longleftrightarrow> b1_isut b < 2 ^ 31 \<and> b1_isstd b < 2 ^ 31 \<and> 8 * b1_leap b < 2 ^ 31 \<and> b1_time b < 2 ^ 31 \<and>
     6 * b1_type b < 2 ^ 31 \<and> b1_char b < 2 ^ 31 \<and>
     length (b1_bytes b) = 4 * b1_time b + b1_time b + 6 * b1_type b + b1_char b + 8 * b1_leap b + b1_isstd b + b1_isut b"

definition zone_header :: bytes where "zone_header = ''TZif'' @ ''2'' @ replicate 15 (CHR 0x00)"

definition zone_file :: "v1_block \<Rightarrow> zone_spec \<Rightarrow> bytes" where
  "zone_file b z = zone_header @
     enc_counts (b1_isut b) (b1_isstd b) (b1_leap b) (b1_time b) (b1_type b) (b1_char b) @ b1_bytes b @ zone_header @ enc_block z"

lemma parses_head: "parses read_head ''TZif'' ()"
  unfolding read_head_def
  using parses_rbind [OF parses_readBytes, of "''TZif''" 4 "\<lambda>head. if head \<noteq> ''TZif'' then rthrow ''bad head'' else rret ()" "[]" "()"]
  by (simp add: parses_rret)

lemma parses_skip_v1:
  assumes "v1_block_ok b"
  shows "parses (skip_v1 (int (b1_isut b)) (int (b1_isstd b)) (int (b1_leap b)) (int (b1_time b)) (int (b1_type b)) (int (b1_char b))) (b1_bytes b) ()"
proof -
  have f: "fits_int (6 * int (b1_type b))" "fits_int (8 * int (b1_leap b))" using assms by (simp_all add: v1_block_ok_def fits_int_def)
  have l: "int (length (b1_bytes b)) = 4 * int (b1_time b) + int (b1_time b) + 6 * int (b1_type b) + int (b1_char b) +
      8 * int (b1_leap b) + int (b1_isstd b) + int (b1_isut b)"
    using assms by (simp add: v1_block_ok_def)
  show ?thesis using parses_skip [OF l] f by (simp add: parses_def skip_v1_def)
qed

lemma parses_zone:
  assumes b: "v1_block_ok b" and z: "zone_spec_ok z"
  shows "parses_all (read_zone TzData_new) (zone_file b z) (True, zone_data z)"
proof -
  have n: "b1_isut b < 2 ^ 31" "b1_isstd b < 2 ^ 31" "b1_leap b < 2 ^ 31" "b1_time b < 2 ^ 31" "b1_type b < 2 ^ 31" "b1_char b < 2 ^ 31"
    using b by (simp_all add: v1_block_ok_def)
  note counts = parses_all_rbind [OF parses_count [OF n(1)]] parses_all_rbind [OF parses_count [OF n(2)]]
    parses_all_rbind [OF parses_count [OF n(3)]] parses_all_rbind [OF parses_count [OF n(4)]]
    parses_all_rbind [OF parses_count [OF n(5)]] parses_all_rbind [OF parses_count [OF n(6)]]
  have ver: "parses (readBytes 1) ''2'' ''2''" and res: "parses (readBytes 15) (replicate 15 (CHR 0x00)) (replicate 15 (CHR 0x00))"
    by (rule parses_readBytes; simp)+
  have sk: "parses (File_skip 16) (''2'' @ replicate 15 (CHR 0x00)) ()" by (rule parses_skip) simp
  have h: "zone_header @ enc_block z = ''TZif'' @ (''2'' @ replicate 15 (CHR 0x00)) @ enc_block z"
    unfolding zone_header_def append_assoc ..
  show ?thesis
    unfolding read_zone_def zone_file_def h zone_header_def enc_counts_def list.map concat.simps append_assoc append_Nil
    apply (rule parses_all_rbind [OF parses_head])
    apply (rule parses_all_rbind [OF ver])
    apply (rule parses_all_rbind [OF res])
    apply (rule counts)+
    apply (simp only: if_True simp_thms)
    apply (rule parses_all_rbind [OF parses_skip_v1 [OF b]])
    apply (rule parses_all_rbind [OF parses_head])
    apply (rule parses_all_rbind [OF sk, simplified append_assoc])
    apply (rule parses_block [OF z])
    done
qed

text \<open>
  C37. Time zone files: reading a file in the format of RFC 8536, version 2, without leap seconds and with local times of its transitions that fit
  \<open>int64_t\<close>, gives exactly the transitions and local time types it describes, with the local time of every transition, whatever its first
  block contains. Whatever the bytes of a file, if a table is read from it (and the reader has not met undefined behaviour), the
  table has valid indices, and the local time of each transition is its time plus the offset of its type, without overflow.
\<close>

theorem zone_file_roundtrip:
  "(v1_block_ok b \<and> zone_spec_ok z \<longrightarrow> loadZoneFile (Some (zone_file b z)) = Ret (Some (zone_data z))) \<and>
   (loadZoneFile bs = Ret (Some d) \<longrightarrow> data_ok d \<and> (\<forall>tr \<in> set (transitions d). fits_int64 (localtime tr)))"
proof (intro conjI impI)
  assume "v1_block_ok b \<and> zone_spec_ok z"
  then obtain f1 where "read_zone TzData_new \<lparr>fp_bytes = zone_file b z, fp_pos = 0\<rparr> = Ret ((True, zone_data z), f1)"
    using parses_zone [of b z] unfolding parses_all_def by (metis File.select_convs drop0)
  then show "loadZoneFile (Some (zone_file b z)) = Ret (Some (zone_data z))"
    by (simp add: loadZoneFile_def readTimeZoneFile_def)
next
  assume "loadZoneFile bs = Ret (Some d)"
  then have "table_ok d" by (rule loadZoneFile_ok)
  then show "data_ok d" "\<forall>tr \<in> set (transitions d). fits_int64 (localtime tr)" by (simp_all add: table_ok_def)
qed

definition empty_v1 :: v1_block where
  "empty_v1 = \<lparr>b1_isut = 0, b1_isstd = 0, b1_leap = 0, b1_time = 0, b1_type = 0, b1_char = 0, b1_bytes = []\<rparr>"

theorem zone_file_roundtrip_witness:
  "loadZoneFile (Some (zone_file empty_v1 \<lparr>zs_trans = [(640116000, 1)], zs_types = [(28800, 0, 0), (32400, 1, 4)],
       zs_abbr = ''CST'', zs_isstd = [], zs_isut = [], zs_footer = ''CST-8''\<rparr>)) =
     Ret (Some \<lparr>transitions = [\<lparr>utctime = 640116000, localtime = 640148400, localtimeIdx = 1\<rparr>],
       localtimes = [\<lparr>utcOffset = 28800, isDst = False, desigIdx = 0\<rparr>, \<lparr>utcOffset = 32400, isDst = True, desigIdx = 4\<rparr>],
       tz_abbreviation = ''CST'', tzstring = ''CST-8''\<rparr>)"
  using zone_file_roundtrip [of empty_v1 "\<lparr>zs_trans = [(640116000, 1)], zs_types = [(28800, 0, 0), (32400, 1, 4)],
       zs_abbr = ''CST'', zs_isstd = [], zs_isut = [], zs_footer = ''CST-8''\<rparr>" "Some []" TzData_new]
  by (simp add: v1_block_ok_def empty_v1_def zone_spec_ok_def zone_data_def zone_types_def fits_int64_def)

text \<open>A transition at the last representable second with a positive offset overflows.\<close>

lemma late_transition_overflows:
  "localtimes d = [\<lparr>utcOffset = 3600, isDst = dst, desigIdx = k\<rparr>] \<Longrightarrow> add_transitions ((2 ^ 63 - 1, 0) # ts) d f = Undefined"
  by (simp add: addTransition_def fits_int64_def)

text \<open>A file without local time types is accepted, and every conversion with its table then reads the first element of an
  empty vector.\<close>

lemma empty_zone:
  "loadZoneFile (Some (zone_file empty_v1 \<lparr>zs_trans = [], zs_types = [], zs_abbr = [], zs_isstd = [], zs_isut = [], zs_footer = []\<rparr>)) =
     Ret (Some TzData_new)"
  "toLocalTime (Some TzData_new) t = None"
  by code_simp (simp add: toLocalTime_def findLocalTime_def TzData_new_def vec_at_def)

end
