(* ===== verification/MuduoLogging.thy ===== *)
theory MuduoLogging
  imports MuduoLogStream MuduoTimestamp
begin

text \<open>
  Log statements of the bundled muduo library: the class \<open>Logger\<close> of \<open>src/muduo_source_code/muduo/base/Logging.h\<close> and
  \<open>Logging.cc\<close>. A statement is the life of one \<open>Logger\<close>: its constructor formats the time, the thread and the level, the operands of the statement
  follow, and the destructor adds the source position and hands the line to the output. The
  state that outlives a statement is that of its thread, the text of the last second, and the zone of the logger.

  \<open>None\<close> is a failed assertion. The text of an error number and the identity of the thread are parameters. The theory shows that no assertion fails for the
  years 0 to 9999 and that the line is the concatenation of its parts as far as they fit.
\<close>

section \<open>Levels and source files\<close>

datatype LogLevel = TRACE | DEBUG | INFO | WARN | ERROR | FATAL

fun LogLevelName :: "LogLevel \<Rightarrow> bytes" where
  "LogLevelName TRACE = ''TRACE ''"
| "LogLevelName DEBUG = ''DEBUG ''"
| "LogLevelName INFO = ''INFO  ''"
| "LogLevelName WARN = ''WARN  ''"
| "LogLevelName ERROR = ''ERROR ''"
| "LogLevelName FATAL = ''FATAL ''"

definition initLogLevel :: "(bytes \<Rightarrow> bytes option) \<Rightarrow> LogLevel" where
  "initLogLevel env =
     (if env ''MUDUO_LOG_TRACE'' \<noteq> None then TRACE else if env ''MUDUO_LOG_DEBUG'' \<noteq> None then DEBUG else INFO)"

text \<open>The part after the last slash.\<close>

definition SourceFile :: "bytes \<Rightarrow> bytes" where
  "SourceFile filename = rev (takeWhile (\<lambda>c. c \<noteq> CHR ''/'') (rev filename))"

section \<open>The time of a line\<close>

record log_thread =
  t_time :: bytes
  t_lastSecond :: int

definition log_thread_new :: log_thread where "log_thread_new = \<lparr>t_time = [], t_lastSecond = 0\<rparr>"

text \<open>The helper class \<open>T\<close> asserts that the length it is given is that of the string.\<close>

definition put_T :: "bytes \<Rightarrow> nat \<Rightarrow> FixedBuffer \<Rightarrow> FixedBuffer option" where
  "put_T str len b = (if length str = len then fb_append str b else None)"

definition zone_time :: "TimeZone \<Rightarrow> int \<Rightarrow> DateTime option" where
  "zone_time tz seconds = (if TimeZone_valid tz then map_option fst (toLocalTime tz seconds) else toUtcTime seconds)"

definition cache_second :: "TimeZone \<Rightarrow> int \<Rightarrow> log_thread \<Rightarrow> log_thread option" where
  "cache_second tz seconds th =
     (if seconds \<noteq> t_lastSecond th then do {
        dt \<leftarrow> zone_time tz seconds;
        let txt = second_text dt;
        if length txt = 17 then Some (th\<lparr>t_lastSecond := seconds, t_time := take 63 txt\<rparr>) else None
      }
      else Some th)"

definition formatTime :: "TimeZone \<Rightarrow> int \<Rightarrow> log_thread \<Rightarrow> FixedBuffer \<Rightarrow> (log_thread \<times> FixedBuffer) option" where
  "formatTime tz time b_th b =
     (let seconds = time sdiv kMicroSecondsPerSecond;
          microseconds = to_int32 (time smod kMicroSecondsPerSecond)
      in do {
        th \<leftarrow> cache_second tz seconds b_th;
        (if TimeZone_valid tz then do {
           us \<leftarrow> Fmt_new (''.'' @ zero_pad 6 microseconds @ '' '');
           b1 \<leftarrow> (if length us = 8 then put_T (t_time th) 17 b else None);
           b2 \<leftarrow> put_T us 8 b1;
           Some (th, b2)
         }
         else do {
           us \<leftarrow> Fmt_new (''.'' @ zero_pad 6 microseconds @ ''Z '');
           b1 \<leftarrow> (if length us = 9 then put_T (t_time th) 17 b else None);
           b2 \<leftarrow> put_T us 9 b1;
           Some (th, b2)
         })
      })"

section \<open>A log statement\<close>

text \<open>The text of a thread, and the constructor; \<open>strerror\<close> gives the text of an error number.\<close>

definition cacheTid :: "int \<Rightarrow> bytes" where
  "cacheTid tid = pad_left 5 (CHR '' '') (to_string tid) @ '' ''"

definition Impl_new :: "TimeZone \<Rightarrow> int \<Rightarrow> (32 word \<Rightarrow> bytes) \<Rightarrow> int \<Rightarrow> LogLevel \<Rightarrow> 32 word \<Rightarrow> log_thread \<Rightarrow> (log_thread \<times> FixedBuffer) option" where
  "Impl_new tz tid strerror time level savedErrno th0 = do {
     (th, b1) \<leftarrow> formatTime tz time th0 (FixedBuffer_new kSmallBuffer);
     b2 \<leftarrow> put_T (cacheTid tid) (length (cacheTid tid)) b1;
     b3 \<leftarrow> put_T (LogLevelName level) 6 b2;
     b4 \<leftarrow> (if savedErrno \<noteq> 0
           then stream_puts [OCstr (Some (strerror savedErrno)), OCstr (Some '' (errno=''), OInt savedErrno, OCstr (Some '') '')] b3
           else Some b3);
     Some (th, b4)
   }"

definition Impl_finish :: "bytes \<Rightarrow> 32 word \<Rightarrow> FixedBuffer \<Rightarrow> FixedBuffer option" where
  "Impl_finish base line b = stream_puts [OCstr (Some '' - ''), OString base, OChar (CHR '':''), OInt line, OChar (CHR 0x0A)] b"

text \<open>A statement: its level, its function name if the macro passes it, the error number if it is a system error, and its operands.\<close>

record statement =
  st_level :: LogLevel
  st_func :: "bytes option"
  st_errno :: "32 word"
  st_file :: bytes
  st_line :: "32 word"
  st_operands :: "operand list"

text \<open>The result is the line, whether the process aborts after it, and the thread.\<close>

definition Logger_run :: "TimeZone \<Rightarrow> int \<Rightarrow> (32 word \<Rightarrow> bytes) \<Rightarrow> int \<Rightarrow> statement \<Rightarrow> log_thread \<Rightarrow> (bytes \<times> bool \<times> log_thread) option" where
  "Logger_run tz tid strerror time st th0 = do {
     (th, b1) \<leftarrow> Impl_new tz tid strerror time (st_level st) (st_errno st) th0;
     b2 \<leftarrow> (case st_func st of None \<Rightarrow> Some b1 | Some func \<Rightarrow> stream_puts [OCstr (Some func), OChar (CHR '' '')] b1);
     b3 \<leftarrow> stream_puts (st_operands st) b2;
     b4 \<leftarrow> Impl_finish (SourceFile (st_file st)) (st_line st) b3;
     Some (fb_toString b4, st_level st = FATAL, th)
   }"

text \<open>The macros: the statement is evaluated when its level is enabled; warnings and errors always are.\<close>

definition log_enabled :: "LogLevel \<Rightarrow> LogLevel \<Rightarrow> bool" where
  "log_enabled g_logLevel level =
     (case level of TRACE \<Rightarrow> g_logLevel = TRACE
      | DEBUG \<Rightarrow> g_logLevel = TRACE \<or> g_logLevel = DEBUG
      | INFO \<Rightarrow> g_logLevel = TRACE \<or> g_logLevel = DEBUG \<or> g_logLevel = INFO
      | _ \<Rightarrow> True)"

text \<open>The zone of the logger is set for all threads; what a thread keeps of the last second stays as it is.\<close>

definition setTimeZone :: "TimeZone \<Rightarrow> TimeZone \<times> log_thread \<Rightarrow> TimeZone \<times> log_thread" where
  "setTimeZone tz s = (tz, snd s)"

text \<open>What happens to a thread: it executes a statement at a time, or the zone is set, by this or another thread. A fatal statement ends the
  process.\<close>

datatype log_event = Log int statement | SetZone TimeZone

fun Logger_runs :: "int \<Rightarrow> (32 word \<Rightarrow> bytes) \<Rightarrow> log_event list \<Rightarrow> TimeZone \<times> log_thread \<Rightarrow> (bytes list \<times> (TimeZone \<times> log_thread)) option" where
  "Logger_runs tid strerror [] s = Some ([], s)"
| "Logger_runs tid strerror (SetZone tz # rest) s = Logger_runs tid strerror rest (setTimeZone tz s)"
| "Logger_runs tid strerror (Log time st # rest) s = do {
     (line, aborts, th1) \<leftarrow> Logger_run (fst s) tid strerror time st (snd s);
     (if aborts then Some ([line], (fst s, th1))
      else do { (lines, s2) \<leftarrow> Logger_runs tid strerror rest (fst s, th1); Some (line # lines, s2) })
   }"

section \<open>Lines\<close>

text \<open>The specification of a line: its parts in order.\<close>

definition line_operands :: "TimeZone \<Rightarrow> int \<Rightarrow> (32 word \<Rightarrow> bytes) \<Rightarrow> int \<Rightarrow> statement \<Rightarrow> DateTime \<Rightarrow> operand list" where
  "line_operands tz tid strerror time st dt =
     [OString (second_text dt), OString (''.'' @ zero_pad 6 (time mod 1000000) @ (if tz = None then ''Z '' else '' '')),
      OString (cacheTid tid), OString (LogLevelName (st_level st))] @
     (if st_errno st \<noteq> 0
      then [OString (strerror (st_errno st)), OString '' (errno='', OInt (st_errno st), OString '') ''] else []) @
     (case st_func st of None \<Rightarrow> [] | Some func \<Rightarrow> [OString func, OString '' '']) @
     st_operands st @
     [OString '' - '', OString (SourceFile (st_file st)), OString '':'', OInt (st_line st), OString [CHR 0x0A]]"

definition log_time_ok :: "TimeZone \<Rightarrow> int \<Rightarrow> bool" where
  "log_time_ok tz s \<longleftrightarrow> 0 < s \<and>
     (case tz of None \<Rightarrow> s < 200000000000 | Some d \<Rightarrow> zone_ok d \<and> 0 \<le> local_seconds d s \<and> local_seconds d s < 200000000000)"

text \<open>The second a thread has kept, with the zone in which it was formatted, and the zone in which the next statement shows its second.\<close>

fun cached :: "(int \<times> TimeZone) option \<Rightarrow> log_thread \<Rightarrow> bool" where
  "cached None th \<longleftrightarrow> t_lastSecond th = 0"
| "cached (Some (s, z)) th \<longleftrightarrow> t_lastSecond th = s \<and> length (t_time th) = 17 \<and> map_option second_text (zone_time z s) = Some (t_time th)"

definition shown_zone :: "TimeZone \<Rightarrow> (int \<times> TimeZone) option \<Rightarrow> int \<Rightarrow> TimeZone" where
  "shown_zone tz c s = (case c of None \<Rightarrow> tz | Some (s', z) \<Rightarrow> if s = s' then z else tz)"

lemma year_of_day:
  assumes "proper y" "- 4799 \<le> year y" "year y < 1000000" "Date_ymd (year y) (month y) (day y) = Some j" "2440587 \<le> j" "j \<le> 4755403"
  shows "0 \<le> year y" and "year y < 10000"
proof -
  let ?Y = "march_year (year y) (month y)"
  have j: "day_number y = j" using date_number [OF assms(1,2)] assms(3,4) by (simp add: Date_ymd_def)
  have d: "0 \<le> doy (march_month (month y)) (day y)" "doy (march_month (month y)) (day y) \<le> 365"
    using proper_march [OF assms(1)] march_month_range [of "month y"] by (auto intro!: doy_month(2,3))
  have Y: "0 \<le> ?Y" "?Y \<le> year y + 4800" "year y + 4799 \<le> ?Y" using assms(2) by (auto simp: march_year_def)
  have lo: "365 * ?Y \<le> days_before ?Y" using days_before_mono [OF Y(1)] .
  have hi: "days_before ?Y \<le> 367 * ?Y"
    unfolding days_before_def using div_range [of ?Y 4] div_range [of ?Y 100] div_range [of ?Y 400] Y by linarith
  show "0 \<le> year y" using d hi j assms(5) Y by linarith
  show "year y < 10000" using d lo j assms(6) Y by linarith
qed

lemma BreakTime_four_digits:
  assumes "0 \<le> t" "t < 200000000000"
  obtains dt where "BreakTime t = Some dt" "proper_time dt" "0 \<le> dt_year dt" "dt_year dt < 10000"
proof -
  define K d r where "K = kSecondsPerDay" and "d = t div K" and "r = t mod K"
  have K: "K = 86400" by (simp add: K_def kSecondsPerDay_def)
  have "t = 86400 * d + r" "0 \<le> r" "r < 86400" unfolding d_def r_def K by simp_all
  then have d: "0 \<le> d" "d < 2314815" using assms by linarith+
  then have c: "covered t" by (simp add: covered_def covered_day_def kJulianDayOf1970_01_01_def d_def [symmetric] K_def [symmetric])
  obtain dt where dt: "BreakTime t = Some dt" "proper_time dt" "- 4799 \<le> dt_year dt" "dt_year dt < 1000000" "fromUtcTime dt = Some t"
    using BreakTime_fromUtcTime [OF c] by blast
  let ?y = "\<lparr>year = dt_year dt, month = dt_month dt, day = dt_day dt\<rparr>" and ?s = "dt_hour dt * 3600 + dt_minute dt * 60 + dt_second dt"
  obtain j where j: "Date_ymd (dt_year dt) (dt_month dt) (dt_day dt) = Some j" "t = (j - kJulianDayOf1970_01_01) * kSecondsPerDay + ?s"
    using dt(5) by (auto simp: fromUtcTime_def checked_def bind_eq_Some_conv split: if_splits)
  have s: "0 \<le> ?s" "?s < 86400" using dt(2) by (auto simp: proper_time_def)
  have "t = 86400 * j - 210866803200 + ?s" using j(2) by (simp add: kJulianDayOf1970_01_01_def kSecondsPerDay_def algebra_simps)
  then have "2440587 \<le> j" "j \<le> 4755403" using s assms by linarith+
  then have "0 \<le> year ?y" "year ?y < 10000"
    using year_of_day [of ?y j] dt(2-4) j(1) by (simp_all add: proper_time_def)
  then show ?thesis using that [OF dt(1,2)] by simp
qed

lemma zone_time_ok:
  assumes "log_time_ok tz s"
  obtains dt where "zone_time tz s = Some dt" "proper_time dt" "0 \<le> dt_year dt" "dt_year dt < 10000"
proof (cases tz)
  case None
  then show ?thesis
    using assms BreakTime_four_digits [of s] that by (auto simp: log_time_ok_def zone_time_def TimeZone_valid_def toUtcTime_def)
next
  case (Some d)
  then have "zone_ok d" "0 \<le> local_seconds d s" "local_seconds d s < 200000000000" using assms by (auto simp: log_time_ok_def)
  then show ?thesis
    using BreakTime_four_digits [of "local_seconds d s"] that Some toLocalTime_eq [of d s] by (auto simp: zone_time_def TimeZone_valid_def)
qed

text \<open>The lengths the assertions ask for.\<close>

lemma length_zero_pad: "0 \<le> i \<Longrightarrow> i < 10 ^ k \<Longrightarrow> 0 < k \<Longrightarrow> length (zero_pad k i) = k"
  using length_to_string_nat [of "nat i" k] by (auto simp: zero_pad_def pad_left_def to_string_def nat_less_iff)

lemma length_second_text:
  assumes "proper_time dt" "0 \<le> dt_year dt" "dt_year dt < 10000"
  shows "length (second_text dt) = 17"
proof -
  have "length (to_string_nat (nat (dt_year dt))) \<le> 4" using length_to_string_nat [of "nat (dt_year dt)" 4] assms by auto
  then have "length (pad_left 4 (CHR '' '') (to_string (dt_year dt))) = 4" using assms by (simp add: pad_left_def to_string_def)
  moreover have "month_length y m \<le> 31" for y m by (simp add: month_length_def)
  then have "dt_day dt \<le> 31" using assms(1) unfolding proper_time_def proper_def by (auto intro: order.trans)
  ultimately show ?thesis using assms(1) by (simp add: second_text_def length_zero_pad proper_time_def proper_def)
qed

lemma cache_second_ok:
  assumes "log_time_ok tz s" "cached c th"
  obtains th1 dt where "cache_second tz s th = Some th1" "zone_time (shown_zone tz c s) s = Some dt" "t_time th1 = second_text dt"
    "cached (Some (s, shown_zone tz c s)) th1" "length (second_text dt) = 17"
proof -
  have s: "0 < s" using assms(1) by (simp add: log_time_ok_def)
  show ?thesis
  proof (cases "s = t_lastSecond th")
    case True
    then obtain z where "c = Some (s, z)" using assms(2) s by (cases c) auto
    then show ?thesis using that [of th] assms(2) True by (auto simp: cache_second_def shown_zone_def)
  next
    case False
    then have z: "shown_zone tz c s = tz" using assms(2) by (cases c) (auto simp: shown_zone_def)
    obtain dt where dt: "zone_time tz s = Some dt" "proper_time dt" "0 \<le> dt_year dt" "dt_year dt < 10000"
      using zone_time_ok [OF assms(1)] by blast
    have "length (second_text dt) = 17" using length_second_text [OF dt(2-4)] .
    then show ?thesis using that [of "th\<lparr>t_lastSecond := s, t_time := second_text dt\<rparr>" dt] dt(1) False z by (simp add: cache_second_def)
  qed
qed

lemma put_T_eq: "length s = n \<Longrightarrow> put_T s n b = stream_put (OString s) b"
  by (simp add: put_T_def put_string_def)

lemma put_bind: "stream_put x b \<bind> stream_puts xs = stream_puts (x # xs) b"
  by simp

lemma stream_puts_append: "stream_puts (xs @ ys) b = stream_puts xs b \<bind> stream_puts ys"
proof (induction xs arbitrary: b)
  case (Cons x xs)
  then show ?case by (cases "stream_put x b") simp_all
qed simp

lemma micros:
  assumes "0 < time div (1000000 :: int)"
  shows "time sdiv kMicroSecondsPerSecond = time div 1000000" "to_int32 (time smod kMicroSecondsPerSecond) = time mod 1000000"
    "0 \<le> time mod 1000000" "time mod 1000000 < 1000000"
proof -
  have t: "0 \<le> time" using assms by (metis div_neg_pos_less0 linorder_not_less order_less_imp_le zero_less_numeral less_asym')
  show m: "0 \<le> time mod 1000000" "time mod 1000000 < 1000000" by simp_all
  show "time sdiv kMicroSecondsPerSecond = time div 1000000" using t by (simp add: kMicroSecondsPerSecond_def sdiv_pos)
  have "fits_int x" if "0 \<le> x" "x < 1000000" for x using that by (simp add: fits_int_def)
  from this [OF m] have "fits_int (time mod 1000000)" .
  then show "to_int32 (time smod kMicroSecondsPerSecond) = time mod 1000000"
    using t by (simp only: kMicroSecondsPerSecond_def) (simp add: smod_pos to_int32_id)
qed

lemma formatTime_eq:
  assumes "log_time_ok tz (time div 1000000)" "cached c th"
  obtains th1 dt where "zone_time (shown_zone tz c (time div 1000000)) (time div 1000000) = Some dt" "cached (Some (time div 1000000, shown_zone tz c (time div 1000000))) th1"
    "\<And>b. formatTime tz time th b = map_option (Pair th1)
       (stream_puts [OString (second_text dt), OString (''.'' @ zero_pad 6 (time mod 1000000) @ (if tz = None then ''Z '' else '' ''))] b)"
proof -
  obtain th1 dt where c: "cache_second tz (time div 1000000) th = Some th1" "zone_time (shown_zone tz c (time div 1000000)) (time div 1000000) = Some dt"
    "t_time th1 = second_text dt" "cached (Some (time div 1000000, shown_zone tz c (time div 1000000))) th1" "length (second_text dt) = 17"
    using cache_second_ok [OF assms] by blast
  have "0 < time div 1000000" using assms(1) by (simp add: log_time_ok_def)
  note m = micros [OF this]
  define u where "u = time mod 1000000"
  have l: "length (zero_pad 6 u) = 6" using m(3,4) by (intro length_zero_pad) (simp_all add: u_def)
  have "formatTime tz time th b = map_option (Pair th1)
     (stream_puts [OString (second_text dt), OString (''.'' @ zero_pad 6 u @ (if tz = None then ''Z '' else '' ''))] b)" for b
    unfolding formatTime_def Let_def m(1,2) c(1) u_def [symmetric]
    using l c(3,5)
    by (cases tz; cases "put_string (second_text dt) b")
      (simp_all add: TimeZone_valid_def Fmt_new_def put_T_def put_string_def map_option_bind map_conv_bind_option comp_def)
  then show ?thesis using that [OF c(2,4)] by (simp add: u_def)
qed

lemma string_operands:
  "stream_put (OCstr (Some s)) b = stream_put (OString s) b" "stream_put (OChar c) b = stream_put (OString [c]) b"
  by (simp_all add: put_cstr_def put_string_def put_char_def)

lemma length_LogLevelName: "length (LogLevelName l) = 6"
  by (cases l) simp_all

lemma Impl_new_eq:
  assumes "log_time_ok tz (time div 1000000)" "cached c th"
  obtains th1 dt where "zone_time (shown_zone tz c (time div 1000000)) (time div 1000000) = Some dt" "cached (Some (time div 1000000, shown_zone tz c (time div 1000000))) th1"
    "Impl_new tz tid strerror time level en th = map_option (Pair th1)
       (stream_puts ([OString (second_text dt), OString (''.'' @ zero_pad 6 (time mod 1000000) @ (if tz = None then ''Z '' else '' '')),
          OString (cacheTid tid), OString (LogLevelName level)] @
          (if en \<noteq> 0 then [OString (strerror en), OString '' (errno='', OInt en, OString '') ''] else [])) (FixedBuffer_new kSmallBuffer))"
proof -
  obtain th1 dt where f: "zone_time (shown_zone tz c (time div 1000000)) (time div 1000000) = Some dt" "cached (Some (time div 1000000, shown_zone tz c (time div 1000000))) th1"
    "\<And>b. formatTime tz time th b = map_option (Pair th1)
       (stream_puts [OString (second_text dt), OString (''.'' @ zero_pad 6 (time mod 1000000) @ (if tz = None then ''Z '' else '' ''))] b)"
    using formatTime_eq [OF assms] by blast
  define u where "u = ''.'' @ zero_pad 6 (time mod 1000000) @ (if tz = None then ''Z '' else '' '')"
  have "Impl_new tz tid strerror time level en th = map_option (Pair th1)
       (stream_puts ([OString (second_text dt), OString u, OString (cacheTid tid), OString (LogLevelName level)] @
          (if en \<noteq> 0 then [OString (strerror en), OString '' (errno='', OInt en, OString '') ''] else [])) (FixedBuffer_new kSmallBuffer))"
    unfolding Impl_new_def f(3) u_def [symmetric] put_T_eq [OF refl] put_T_eq [OF length_LogLevelName]
    by (simp add: map_conv_bind_option string_operands del: stream_put.simps)
  then show ?thesis using that [OF f(1,2)] by (simp add: u_def)
qed

lemma Logger_run_eq:
  assumes "log_time_ok tz (time div 1000000)" "cached c th"
  obtains th1 dt where "zone_time (shown_zone tz c (time div 1000000)) (time div 1000000) = Some dt" "cached (Some (time div 1000000, shown_zone tz c (time div 1000000))) th1"
    "Logger_run tz tid strerror time st th = map_option (\<lambda>b. (fb_toString b, st_level st = FATAL, th1))
       (stream_puts (line_operands tz tid strerror time st dt) (FixedBuffer_new kSmallBuffer))"
proof -
  obtain th1 dt where i: "zone_time (shown_zone tz c (time div 1000000)) (time div 1000000) = Some dt" "cached (Some (time div 1000000, shown_zone tz c (time div 1000000))) th1"
    "Impl_new tz tid strerror time (st_level st) (st_errno st) th = map_option (Pair th1)
       (stream_puts ([OString (second_text dt), OString (''.'' @ zero_pad 6 (time mod 1000000) @ (if tz = None then ''Z '' else '' '')),
          OString (cacheTid tid), OString (LogLevelName (st_level st))] @
          (if st_errno st \<noteq> 0 then [OString (strerror (st_errno st)), OString '' (errno='', OInt (st_errno st), OString '') ''] else []))
        (FixedBuffer_new kSmallBuffer))"
    using Impl_new_eq [OF assms] by blast
  have "Logger_run tz tid strerror time st th = map_option (\<lambda>b. (fb_toString b, st_level st = FATAL, th1))
       (stream_puts (line_operands tz tid strerror time st dt) (FixedBuffer_new kSmallBuffer))"
    unfolding Logger_run_def i(3) line_operands_def Impl_finish_def
    by (cases "st_func st") (simp_all add: map_conv_bind_option string_operands stream_puts_append del: stream_put.simps)
  then show ?thesis using that [OF i(1,2)] by blast
qed

text \<open>The line of a statement whose second is shown in the zone \<open>z\<close>, and its full text when everything fits.\<close>

definition line_parts :: "TimeZone \<Rightarrow> TimeZone \<Rightarrow> int \<Rightarrow> (32 word \<Rightarrow> bytes) \<Rightarrow> int \<times> statement \<Rightarrow> operand list" where
  "line_parts z tz tid strerror e =
     line_operands tz tid strerror (fst e) (snd e) (the (zone_time z (fst e div 1000000)))"

definition line_text :: "TimeZone \<Rightarrow> TimeZone \<Rightarrow> int \<Rightarrow> (32 word \<Rightarrow> bytes) \<Rightarrow> int \<times> statement \<Rightarrow> bytes" where
  "line_text z tz tid strerror e = stream_text kSmallBuffer (line_parts z tz tid strerror e) []"

definition full_line :: "TimeZone \<Rightarrow> TimeZone \<Rightarrow> int \<Rightarrow> (32 word \<Rightarrow> bytes) \<Rightarrow> int \<times> statement \<Rightarrow> bytes" where
  "full_line z tz tid strerror e = concat (map operand_text (line_parts z tz tid strerror e))"

definition statement_ok :: "TimeZone \<Rightarrow> int \<times> statement \<Rightarrow> bool" where
  "statement_ok tz e \<longleftrightarrow> log_time_ok tz (fst e div 1000000) \<and> list_all operand_ok (st_operands (snd e))"

text \<open>The lines of a run: every line has the current zone's form, and its second in the zone that was set when the thread first logged in this
  second; and the lines with every second in the current zone.\<close>

fun shown_lines :: "int \<Rightarrow> (32 word \<Rightarrow> bytes) \<Rightarrow> TimeZone \<Rightarrow> (int \<times> TimeZone) option \<Rightarrow> log_event list \<Rightarrow> bytes list" where
  "shown_lines tid strerror tz c [] = []"
| "shown_lines tid strerror tz c (SetZone tz' # es) = shown_lines tid strerror tz' c es"
| "shown_lines tid strerror tz c (Log time st # es) =
     (let z = shown_zone tz c (time div 1000000)
      in line_text z tz tid strerror (time, st) #
         (if st_level st = FATAL then [] else shown_lines tid strerror tz (Some (time div 1000000, z)) es))"

fun current_lines :: "int \<Rightarrow> (32 word \<Rightarrow> bytes) \<Rightarrow> TimeZone \<Rightarrow> log_event list \<Rightarrow> bytes list" where
  "current_lines tid strerror tz [] = []"
| "current_lines tid strerror tz (SetZone tz' # es) = current_lines tid strerror tz' es"
| "current_lines tid strerror tz (Log time st # es) =
     line_text tz tz tid strerror (time, st) # (if st_level st = FATAL then [] else current_lines tid strerror tz es)"

text \<open>The zone is not set between two statements of the same second: \<open>prev\<close> is the second of the last statement, \<open>changed\<close> whether the zone was
  set since.\<close>

fun zone_set_apart :: "int option \<Rightarrow> bool \<Rightarrow> log_event list \<Rightarrow> bool" where
  "zone_set_apart prev changed [] \<longleftrightarrow> True"
| "zone_set_apart prev changed (SetZone tz # es) \<longleftrightarrow> zone_set_apart prev True es"
| "zone_set_apart prev changed (Log time st # es) \<longleftrightarrow>
     (changed \<longrightarrow> prev \<noteq> Some (time div 1000000)) \<and> zone_set_apart (Some (time div 1000000)) False es"

text \<open>Every statement of the run can be shown in every zone that is set.\<close>

fun events_ok :: "TimeZone \<Rightarrow> log_event list \<Rightarrow> bool" where
  "events_ok tz [] \<longleftrightarrow> True"
| "events_ok tz (SetZone tz' # es) \<longleftrightarrow> events_ok tz' es"
| "events_ok tz (Log time st # es) \<longleftrightarrow> statement_ok tz (time, st) \<and> events_ok tz es"

lemma shown_current:
  assumes "zone_set_apart prev changed es" and "prev = map_option fst c" and "\<not> changed \<longrightarrow> (\<forall>s z. c = Some (s, z) \<longrightarrow> z = tz)"
  shows "shown_lines tid strerror tz c es = current_lines tid strerror tz es"
  using assms
proof (induction es arbitrary: tz c prev changed)
  case (Cons e es)
  show ?case
  proof (cases e)
    case (SetZone tz')
    then show ?thesis using Cons.IH [of prev True c tz'] Cons.prems by simp
  next
    case (Log time st)
    define s where "s = time div 1000000"
    have z: "shown_zone tz c s = tz" using Cons.prems unfolding Log zone_set_apart.simps s_def [symmetric]
      by (cases c; cases changed) (auto simp: shown_zone_def)
    have "zone_set_apart (Some s) False es" using Cons.prems(1) by (simp add: Log s_def)
    then have "shown_lines tid strerror tz (Some (s, tz)) es = current_lines tid strerror tz es" by (rule Cons.IH) simp_all
    then show ?thesis unfolding Log shown_lines.simps current_lines.simps s_def [symmetric] z Let_def by simp
  qed
qed simp

lemma Logger_run_ok:
  assumes "statement_ok tz (time, st)" "cached c th"
  obtains th1 where "cached (Some (time div 1000000, shown_zone tz c (time div 1000000))) th1"
    "Logger_run tz tid strerror time st th =
       Some (line_text (shown_zone tz c (time div 1000000)) tz tid strerror (time, st), st_level st = FATAL, th1)"
proof -
  let ?z = "shown_zone tz c (time div 1000000)"
  have o: "log_time_ok tz (time div 1000000)" "list_all operand_ok (st_operands st)" using assms(1) by (simp_all add: statement_ok_def)
  obtain th1 dt where r: "zone_time ?z (time div 1000000) = Some dt" "cached (Some (time div 1000000, ?z)) th1"
    "Logger_run tz tid strerror time st th = map_option (\<lambda>b. (fb_toString b, st_level st = FATAL, th1))
       (stream_puts (line_operands tz tid strerror time st dt) (FixedBuffer_new kSmallBuffer))"
    using Logger_run_eq [OF o(1) assms(2)] by blast
  have "list_all operand_ok (line_operands tz tid strerror time st dt)"
    using o(2) by (simp add: line_operands_def split: option.splits)
  moreover have "fb_inv kSmallBuffer (FixedBuffer_new kSmallBuffer)" "fb_toString (FixedBuffer_new kSmallBuffer) = []"
    by (simp_all add: fb_inv_def FixedBuffer_new_def fb_toString_def fb_length_def)
  ultimately have "returns (stream_puts (line_operands tz tid strerror time st dt) (FixedBuffer_new kSmallBuffer))
      (\<lambda>b. fb_toString b = line_text ?z tz tid strerror (time, st))"
    using stream_puts_text [of kSmallBuffer "FixedBuffer_new kSmallBuffer" "line_operands tz tid strerror time st dt"] r(1)
    by (auto simp: line_text_def line_parts_def elim!: returns_mono)
  then show ?thesis using that r(2,3) by (auto simp: returns_iff)
qed

lemma Logger_runs_ok:
  "events_ok tz es \<Longrightarrow> cached c th \<Longrightarrow>
   returns (Logger_runs tid strerror es (tz, th)) (\<lambda>(lines, s). lines = shown_lines tid strerror tz c es)"
proof (induction es arbitrary: tz c th)
  case (Cons e es)
  show ?case
  proof (cases e)
    case (SetZone tz')
    then show ?thesis using Cons.IH [of tz' c th] Cons.prems by (simp add: setTimeZone_def)
  next
    case (Log time st)
    let ?c = "Some (time div 1000000, shown_zone tz c (time div 1000000))"
    obtain th1 where r: "cached ?c th1" "Logger_run tz tid strerror time st th =
        Some (line_text (shown_zone tz c (time div 1000000)) tz tid strerror (time, st), st_level st = FATAL, th1)"
      using Logger_run_ok [of tz time st c th tid strerror] Cons.prems Log by auto
    have "returns (Logger_runs tid strerror es (tz, th1)) (\<lambda>(lines, s). lines = shown_lines tid strerror tz ?c es)"
      by (rule Cons.IH) (use Cons.prems r(1) Log in simp_all)
    then show ?thesis using r(2) by (cases "st_level st = FATAL") (auto simp: Log Let_def returns_iff split: prod.splits)
  qed
qed simp

text \<open>
  C38. Log lines: the statements of a thread, at times whose second is after the epoch and before the year 8300 in the zone that is set (none, or a table
  of well-spaced transitions with valid indices), pass every assertion of the logger, with the zone being set anew at any point
  between statements. The line of each consists of its time, thread, level, error, function, operands and source position in this order, each
  part being left out exactly when it does not fit any more; a line with 48 bytes to spare is complete. The second is that of the statement in the
  zone that was set when the thread logged its first line of the current run of lines in this second: this is the zone of the statement itself unless the
  zone was set between two statements of the same second, when the code shows the second in the old zone. After a fatal statement nothing is executed.
\<close>

theorem log_lines:
  assumes "events_ok tz es"
  shows "returns (Logger_runs tid strerror es (tz, log_thread_new)) (\<lambda>(lines, s). lines = shown_lines tid strerror tz None es) \<and>
    (zone_set_apart None False es \<longrightarrow> shown_lines tid strerror tz None es = current_lines tid strerror tz es) \<and>
    (length (full_line z tz tid strerror e) + 48 \<le> kSmallBuffer \<longrightarrow> line_text z tz tid strerror e = full_line z tz tid strerror e)"
proof (intro conjI)
  show "returns (Logger_runs tid strerror es (tz, log_thread_new)) (\<lambda>(lines, s). lines = shown_lines tid strerror tz None es)"
    by (rule Logger_runs_ok [OF assms]) (simp add: log_thread_new_def)
  show "zone_set_apart None False es \<longrightarrow> shown_lines tid strerror tz None es = current_lines tid strerror tz es"
    by (intro impI shown_current) simp_all
  show "length (full_line z tz tid strerror e) + 48 \<le> kSmallBuffer \<longrightarrow> line_text z tz tid strerror e = full_line z tz tid strerror e"
    using stream_text_fits [of "[]" "line_parts z tz tid strerror e" kSmallBuffer] by (simp add: line_text_def full_line_def)
qed

definition example_statement :: statement where
  "example_statement = \<lparr>st_level = INFO, st_func = None, st_errno = 0, st_file = ''base/a.cc'', st_line = 7, st_operands = [OString ''hello'']\<rparr>"

theorem log_lines_witness:
  "returns (Logger_runs 42 (\<lambda>_. []) [Log 1700000000000001 example_statement] (None, log_thread_new))
     (\<lambda>(lines, s). lines = [''20231114 22:13:20.000001Z    42 INFO  hello - a.cc:7'' @ [CHR 0x0A]])"
proof -
  let ?e = "(1700000000000001, example_statement)" and ?es = "[Log 1700000000000001 example_statement]"
  have ok: "events_ok None ?es" by (simp add: statement_ok_def log_time_ok_def example_statement_def)
  have f: "full_line None None 42 (\<lambda>_. []) ?e = ''20231114 22:13:20.000001Z    42 INFO  hello - a.cc:7'' @ [CHR 0x0A]"
    by code_simp
  note l = log_lines [OF ok, where tid = 42 and strerror = "\<lambda>_. []" and e = ?e and z = None]
  have t: "line_text None None 42 (\<lambda>_. []) ?e = ''20231114 22:13:20.000001Z    42 INFO  hello - a.cc:7'' @ [CHR 0x0A]"
    using conjunct2 [OF conjunct2 [OF l]] unfolding f by (simp add: kSmallBuffer_def)
  have "shown_lines 42 (\<lambda>_. []) None None ?es = [''20231114 22:13:20.000001Z    42 INFO  hello - a.cc:7'' @ [CHR 0x0A]]"
    unfolding shown_lines.simps shown_zone_def Let_def by (simp only: t option.case if_cancel)
  then show ?thesis using conjunct1 [OF l] by simp
qed

text \<open>The zone is set to one an hour ahead within a second: the next line of the second still has the old hour, without the mark of UTC.\<close>

definition hour_ahead :: TimeZone where
  "hour_ahead = Some \<lparr>transitions = [], localtimes = [\<lparr>utcOffset = 3600, isDst = False, desigIdx = 0\<rparr>], tz_abbreviation = ''X'', tzstring = []\<rparr>"

lemma stale_zone:
  "returns (Logger_runs 42 (\<lambda>_. []) [Log 1700000000000001 example_statement, SetZone hour_ahead, Log 1700000000000002 example_statement]
       (None, log_thread_new))
     (\<lambda>(lines, s). lines ! 1 = ''20231114 22:13:20.000002    42 INFO  hello - a.cc:7'' @ [CHR 0x0A])"
  "full_line hour_ahead hour_ahead 42 (\<lambda>_. []) (1700000000000002, example_statement) =
     ''20231114 23:13:20.000002    42 INFO  hello - a.cc:7'' @ [CHR 0x0A]"
proof -
  let ?e = "(1700000000000002, example_statement)"
  let ?es = "[Log 1700000000000001 example_statement, SetZone hour_ahead, Log 1700000000000002 example_statement]"
  have ok: "events_ok None ?es"
    by (simp add: statement_ok_def log_time_ok_def example_statement_def hour_ahead_def zone_ok_def data_ok_def spaced_def local_seconds_def
        seg_offset_def segment_def upper_bound_def)
  have f: "full_line None hour_ahead 42 (\<lambda>_. []) ?e = ''20231114 22:13:20.000002    42 INFO  hello - a.cc:7'' @ [CHR 0x0A]"
    by code_simp
  then have "line_text None hour_ahead 42 (\<lambda>_. []) ?e = ''20231114 22:13:20.000002    42 INFO  hello - a.cc:7'' @ [CHR 0x0A]"
    using stream_text_fits [of "[]" "line_parts None hour_ahead 42 (\<lambda>_. []) ?e" kSmallBuffer]
    unfolding line_text_def full_line_def by (simp add: kSmallBuffer_def)
  then have "shown_lines 42 (\<lambda>_. []) None None ?es ! 1 = ''20231114 22:13:20.000002    42 INFO  hello - a.cc:7'' @ [CHR 0x0A]"
    by (simp add: shown_zone_def example_statement_def)
  then show "returns (Logger_runs 42 (\<lambda>_. []) ?es (None, log_thread_new))
      (\<lambda>(lines, s). lines ! 1 = ''20231114 22:13:20.000002    42 INFO  hello - a.cc:7'' @ [CHR 0x0A])"
    by (intro returns_mono [OF Logger_runs_ok [OF ok, of None]]) (auto simp: log_thread_new_def)
  show "full_line hour_ahead hour_ahead 42 (\<lambda>_. []) ?e = ''20231114 23:13:20.000002    42 INFO  hello - a.cc:7'' @ [CHR 0x0A]"
    by code_simp
qed

text \<open>A line that fills its buffer has no end: its source position and its newline are left out, and the next line of the
  log follows on the same line.\<close>

lemma stream_text_full: "length acc + 1 = n \<Longrightarrow> stream_text n xs acc = acc"
proof (induction xs)
  case (Cons x xs)
  have "operand_text x = []" if "length acc + needed x \<le> n" using that Cons.prems by (auto simp: needed_def split: if_splits)
  with Cons show ?case by simp
qed simp

lemma long_line_unterminated:
  assumes "zone_time None (time div 1000000) = Some dt" "length (second_text dt) = 17" "length (zero_pad 6 (time mod 1000000)) = 6" "length (cacheTid tid) = 6"
    "st_errno st = 0" "st_func st = None" "st_operands st = [OString msg]" "length msg = 3961"
  shows "line_text None None tid strerror (time, st) =
    second_text dt @ ''.'' @ zero_pad 6 (time mod 1000000) @ ''Z '' @ cacheTid tid @ LogLevelName (st_level st) @ msg"
proof -
  define z where "z = zero_pad 6 (time mod 1000000)"
  have "length z = 6" using assms(3) by (simp add: z_def)
  then show ?thesis
    using assms stream_text_full [of "second_text dt @ ''.'' @ z @ ''Z '' @ cacheTid tid @ LogLevelName (st_level st) @ msg" 4000]
    unfolding line_text_def line_parts_def line_operands_def kSmallBuffer_def fst_conv snd_conv z_def [symmetric]
    by (simp add: needed_def length_LogLevelName)
qed

end
