(* ===== verification/MuduoLogFile.thy ===== *)
theory MuduoLogFile
  imports MuduoTimeZone
begin

text \<open>
  Log files of the bundled muduo library: the class \<open>AppendFile\<close> of \<open>src/muduo_source_code/muduo/base/FileUtil.cc\<close> and the class \<open>LogFile\<close> of
  \<open>LogFile.h\<close> and \<open>LogFile.cc\<close>, which starts a new file when the current one is large or a day has passed.

  The system is a record of parameters: the readings of the clock, the names of host and process, whether a file can be opened, and the
  results of \<open>fwrite_unlocked\<close>. The broken-down time of \<open>gmtime_r\<close> is that of \<open>toUtcTime\<close>. An open file keeps the bytes the stream has
  accepted and how many of them have been flushed; \<open>None\<close> is a failed assertion or a loop that does not end.

  The theory shows that every line is appended once and in order, across all changes of files, and that
  a new file is only started in a later second than the one before; the interface of a sink of log lines is the locale \<open>log_sink\<close>.
\<close>

section \<open>AppendFile\<close>

record log_env =
  le_clock :: "nat \<Rightarrow> int"
  le_hostname :: bytes
  le_pid :: int
  le_fopen :: "bytes \<Rightarrow> bool"
  le_fwrite :: "nat \<Rightarrow> nat \<Rightarrow> nat \<times> bool"

record AppendFile =
  af_name :: bytes
  af_data :: bytes
  af_flushed :: nat
  af_writtenBytes :: int
  af_calls :: nat

definition AppendFile_new :: "log_env \<Rightarrow> bytes \<Rightarrow> AppendFile option" where
  "AppendFile_new env filename =
     (if le_fopen env filename
      then Some \<lparr>af_name = filename, af_data = [], af_flushed = 0, af_writtenBytes = 0, af_calls = 0\<rparr> else None)"

definition AppendFile_flush :: "AppendFile \<Rightarrow> AppendFile" where
  "AppendFile_flush f = f\<lparr>af_flushed := length (af_data f)\<rparr>"

text \<open>One \<open>fwrite_unlocked\<close>: \<open>n\<close> bytes are accepted, and the flag is the error indicator of the stream.\<close>

definition AppendFile_write :: "log_env \<Rightarrow> bytes \<Rightarrow> AppendFile \<Rightarrow> nat \<times> bool \<times> AppendFile" where
  "AppendFile_write env xs f =
     (let (n, err) = le_fwrite env (af_calls f) (length xs)
      in (n, err, f\<lparr>af_data := af_data f @ take n xs, af_calls := af_calls f + 1\<rparr>))"

partial_function (option) append_loop :: "log_env \<Rightarrow> bytes \<Rightarrow> nat \<Rightarrow> AppendFile \<Rightarrow> (nat \<times> AppendFile) option" where
  "append_loop env logline written f =
     (if written = length logline then Some (written, f)
      else
        let remain = length logline - written;
            (n, err, f1) = AppendFile_write env (drop written logline) f
        in if n \<noteq> remain \<and> err then Some (written, f1)
           else append_loop env logline (written + n) f1)"

definition AppendFile_append :: "log_env \<Rightarrow> bytes \<Rightarrow> AppendFile \<Rightarrow> AppendFile option" where
  "AppendFile_append env logline f = do {
     (written, f1) \<leftarrow> append_loop env logline 0 f;
     Some (f1\<lparr>af_writtenBytes := af_writtenBytes f1 + int written\<rparr>)
   }"

section \<open>LogFile\<close>

record LogFile =
  lf_env :: log_env
  lf_basename :: bytes
  lf_rollSize :: int
  lf_flushInterval :: int
  lf_checkEveryN :: int
  lf_count :: int
  lf_startOfPeriod :: int
  lf_lastRoll :: int
  lf_lastFlush :: int
  lf_file :: "AppendFile option"
  lf_closed :: "AppendFile list"
  lf_ticks :: nat

definition kRollPerSeconds :: int where "kRollPerSeconds = 60 * 60 * 24"

definition period_of :: "int \<Rightarrow> int" where "period_of now = now sdiv kRollPerSeconds * kRollPerSeconds"

text \<open>\<open>time(NULL)\<close>.\<close>

definition read_clock :: "LogFile \<Rightarrow> int \<times> LogFile" where
  "read_clock lf = (le_clock (lf_env lf) (lf_ticks lf), lf\<lparr>lf_ticks := lf_ticks lf + 1\<rparr>)"

definition getLogFileName :: "log_env \<Rightarrow> bytes \<Rightarrow> int \<Rightarrow> bytes option" where
  "getLogFileName env basename now = do {
     tm \<leftarrow> toUtcTime now;
     Some (basename @ ''.'' @ to_string (dt_year tm) @ zero_pad 2 (dt_month tm) @ zero_pad 2 (dt_day tm) @ ''-'' @
       zero_pad 2 (dt_hour tm) @ zero_pad 2 (dt_minute tm) @ zero_pad 2 (dt_second tm) @ ''.'' @
       le_hostname env @ ''.'' @ to_string (le_pid env) @ ''.log'')
   }"

text \<open>Replacing the file opens the new one and closes the old one, which flushes it.\<close>

definition replace_file :: "AppendFile \<Rightarrow> LogFile \<Rightarrow> LogFile" where
  "replace_file f lf = lf\<lparr>lf_file := Some f,
     lf_closed := lf_closed lf @ (case lf_file lf of None \<Rightarrow> [] | Some old \<Rightarrow> [AppendFile_flush old])\<rparr>"

definition rollFile :: "LogFile \<Rightarrow> (bool \<times> LogFile) option" where
  "rollFile lf0 =
     (let (now, lf) = read_clock lf0
      in do {
        filename \<leftarrow> getLogFileName (lf_env lf) (lf_basename lf) now;
        let start = period_of now;
        if now > lf_lastRoll lf then do {
          f \<leftarrow> AppendFile_new (lf_env lf) filename;
          Some (True, replace_file f (lf\<lparr>lf_lastRoll := now, lf_lastFlush := now, lf_startOfPeriod := start\<rparr>))
        }
        else Some (False, lf)
      })"

definition LogFile_new :: "log_env \<Rightarrow> bytes \<Rightarrow> int \<Rightarrow> int \<Rightarrow> int \<Rightarrow> LogFile option" where
  "LogFile_new env basename rollSize flushInterval checkEveryN =
     (if CHR ''/'' \<in> set basename then None
      else map_option snd (rollFile \<lparr>lf_env = env, lf_basename = basename, lf_rollSize = rollSize, lf_flushInterval = flushInterval,
        lf_checkEveryN = checkEveryN, lf_count = 0, lf_startOfPeriod = 0, lf_lastRoll = 0, lf_lastFlush = 0, lf_file = None,
        lf_closed = [], lf_ticks = 0\<rparr>))"

definition LogFile_flush :: "LogFile \<Rightarrow> LogFile option" where
  "LogFile_flush lf = do { f \<leftarrow> lf_file lf; Some (lf\<lparr>lf_file := Some (AppendFile_flush f)\<rparr>) }"

text \<open>The mutex of a thread-safe log file makes each append one step, as it is here.\<close>

definition append_unlocked :: "bytes \<Rightarrow> LogFile \<Rightarrow> LogFile option" where
  "append_unlocked logline lf0 = do {
     f0 \<leftarrow> lf_file lf0;
     f \<leftarrow> AppendFile_append (lf_env lf0) logline f0;
     let lf = lf0\<lparr>lf_file := Some f\<rparr>;
     if af_writtenBytes f > lf_rollSize lf then map_option snd (rollFile lf)
     else
       let lf1 = lf\<lparr>lf_count := lf_count lf + 1\<rparr>
       in if lf_count lf1 \<ge> lf_checkEveryN lf1 then
            let (now, lf2) = read_clock (lf1\<lparr>lf_count := 0\<rparr>)
            in if period_of now \<noteq> lf_startOfPeriod lf2 then map_option snd (rollFile lf2)
               else if now - lf_lastFlush lf2 > lf_flushInterval lf2 then LogFile_flush (lf2\<lparr>lf_lastFlush := now\<rparr>)
               else Some lf2
          else Some lf1
   }"

definition LogFile_append :: "bytes \<Rightarrow> LogFile \<Rightarrow> LogFile option" where
  "LogFile_append logline lf = append_unlocked logline lf"

section \<open>Sinks\<close>

text \<open>What the logging thread relies on.\<close>

locale log_sink =
  fixes sink_append :: "bytes \<Rightarrow> 'f \<Rightarrow> 'f option"
    and sink_flush :: "'f \<Rightarrow> 'f option"
    and sink_contents :: "'f \<Rightarrow> bytes"
    and sink_inv :: "'f \<Rightarrow> bool"
  assumes append_ok: "sink_inv f \<Longrightarrow> returns (sink_append xs f) (\<lambda>f'. sink_inv f' \<and> sink_contents f' = sink_contents f @ xs)"
    and flush_ok: "sink_inv f \<Longrightarrow> returns (sink_flush f) (\<lambda>f'. sink_inv f' \<and> sink_contents f' = sink_contents f)"

section \<open>Log files are sinks\<close>

text \<open>A system without errors: the clock is in the range of dates, files can be opened, and a write makes progress.\<close>

definition env_ok :: "log_env \<Rightarrow> bool" where
  "env_ok env \<longleftrightarrow> (\<forall>k. 0 < le_clock env k \<and> covered (le_clock env k)) \<and> (\<forall>name. le_fopen env name) \<and>
     (\<forall>k r. 0 < r \<longrightarrow> 0 < fst (le_fwrite env k r) \<and> fst (le_fwrite env k r) \<le> r \<and>
        (fst (le_fwrite env k r) < r \<longrightarrow> \<not> snd (le_fwrite env k r)))"

definition file_contents :: "LogFile \<Rightarrow> bytes" where
  "file_contents lf = concat (map af_data (lf_closed lf)) @ (case lf_file lf of None \<Rightarrow> [] | Some f \<Rightarrow> af_data f)"

definition lf_inv :: "LogFile \<Rightarrow> bool" where
  "lf_inv lf \<longleftrightarrow> env_ok (lf_env lf) \<and> lf_file lf \<noteq> None"

lemma append_loop_ok:
  assumes env: "env_ok env"
  shows "written \<le> length line \<Longrightarrow>
    returns (append_loop env line written f) (\<lambda>(w, f'). w = length line \<and> af_data f' = af_data f @ drop written line)"
proof (induction "length line - written" arbitrary: written f rule: less_induct)
  case less
  show ?case
  proof (cases "written = length line")
    case True
    then show ?thesis by (simp add: append_loop.simps)
  next
    case False
    define n e where "n = fst (le_fwrite env (af_calls f) (length line - written))" and "e = snd (le_fwrite env (af_calls f) (length line - written))"
    have "0 < length line - written" using False less.prems by simp
    then have n: "0 < n" "n \<le> length line - written" "n < length line - written \<longrightarrow> \<not> e"
      using env unfolding env_ok_def n_def e_def by blast+
    define f1 where "f1 = f\<lparr>af_data := af_data f @ take n (drop written line), af_calls := af_calls f + 1\<rparr>"
    have w: "AppendFile_write env (drop written line) f = (n, e, f1)"
      by (simp add: AppendFile_write_def n_def e_def f1_def split: prod.splits)
    have "\<not> (n \<noteq> length line - written \<and> e)" using n(2,3) by linarith
    then have "append_loop env line written f = append_loop env line (written + n) f1"
      using False by (subst append_loop.simps) (auto simp: w Let_def)
    moreover have "returns (append_loop env line (written + n) f1)
        (\<lambda>(w, f'). w = length line \<and> af_data f' = af_data f1 @ drop (written + n) line)"
      using less.hyps [of "written + n" f1] less.prems n(1,2) False by linarith
    moreover have "take n (drop written line) @ drop (written + n) line = drop written line"
      by (metis append_take_drop_id drop_drop add.commute)
    ultimately show ?thesis by (auto simp: f1_def returns_iff)
  qed
qed

lemma rollFile_ok:
  assumes "env_ok (lf_env lf)"
  shows "returns (rollFile lf) (\<lambda>(r, lf'). file_contents lf' = file_contents lf \<and> lf_env lf' = lf_env lf \<and>
     (r \<longleftrightarrow> lf_lastRoll lf < le_clock (lf_env lf) (lf_ticks lf)) \<and> (r \<longrightarrow> lf_file lf' \<noteq> None \<and> lf_lastRoll lf < lf_lastRoll lf') \<and>
     (\<not> r \<longrightarrow> lf_file lf' = lf_file lf \<and> lf_lastRoll lf' = lf_lastRoll lf))"
proof -
  let ?now = "le_clock (lf_env lf) (lf_ticks lf)"
  have "covered ?now" using assms by (simp add: env_ok_def)
  then obtain dt where dt: "BreakTime ?now = Some dt" using BreakTime_fromUtcTime by blast
  then obtain nm where "getLogFileName (lf_env lf) (lf_basename lf) ?now = Some nm" by (simp add: getLogFileName_def toUtcTime_def)
  moreover have "le_fopen (lf_env lf) nm" for nm using assms by (simp add: env_ok_def)
  ultimately show ?thesis
    by (simp add: rollFile_def read_clock_def AppendFile_new_def replace_file_def file_contents_def AppendFile_flush_def split: option.splits)
qed

lemma roll_keeps:
  assumes "lf_inv lf"
  shows "returns (map_option snd (rollFile lf)) (\<lambda>lf'. lf_inv lf' \<and> file_contents lf' = file_contents lf)"
proof -
  have "env_ok (lf_env lf)" using assms by (simp add: lf_inv_def)
  then show ?thesis using rollFile_ok [of lf] assms by (auto simp: returns_iff lf_inv_def split: prod.splits)
qed

lemma flush_keeps: "lf_inv lf \<Longrightarrow> returns (LogFile_flush lf) (\<lambda>lf'. lf_inv lf' \<and> file_contents lf' = file_contents lf)"
  by (auto simp: LogFile_flush_def lf_inv_def file_contents_def AppendFile_flush_def)

lemma AppendFile_append_ok:
  "env_ok env \<Longrightarrow> returns (AppendFile_append env xs f) (\<lambda>f'. af_data f' = af_data f @ xs)"
  using append_loop_ok [of env 0 xs f] by (auto simp: AppendFile_append_def returns_iff)

lemma LogFile_append_ok:
  assumes "lf_inv lf"
  shows "returns (LogFile_append xs lf) (\<lambda>lf'. lf_inv lf' \<and> file_contents lf' = file_contents lf @ xs)"
proof -
  obtain f0 where f0: "lf_file lf = Some f0" using assms by (auto simp: lf_inv_def)
  have e: "env_ok (lf_env lf)" using assms by (simp add: lf_inv_def)
  obtain f where f: "AppendFile_append (lf_env lf) xs f0 = Some f" "af_data f = af_data f0 @ xs"
    using AppendFile_append_ok [OF e, of xs f0] by (auto simp: returns_iff)
  have i: "lf_inv (lf\<lparr>lf_file := Some f\<rparr>)" "lf_inv (lf\<lparr>lf_file := Some f, lf_count := c\<rparr>)"
    "lf_inv (lf\<lparr>lf_file := Some f, lf_count := c, lf_ticks := k\<rparr>)" "lf_inv (lf\<lparr>lf_file := Some f, lf_count := c, lf_ticks := k, lf_lastFlush := n\<rparr>)" for c k n
    using e by (simp_all add: lf_inv_def)
  have c: "file_contents (lf\<lparr>lf_file := Some f\<rparr>) = file_contents lf @ xs" "file_contents (lf\<lparr>lf_file := Some f, lf_count := c\<rparr>) = file_contents lf @ xs"
    "file_contents (lf\<lparr>lf_file := Some f, lf_count := c, lf_ticks := k\<rparr>) = file_contents lf @ xs"
    "file_contents (lf\<lparr>lf_file := Some f, lf_count := c, lf_ticks := k, lf_lastFlush := n\<rparr>) = file_contents lf @ xs" for c k n
    using f(2) f0 by (simp_all add: file_contents_def)
  show ?thesis
    using roll_keeps [OF i(1)] roll_keeps [OF i(3)] flush_keeps [OF i(4)] i c
    by (simp add: LogFile_append_def append_unlocked_def f0 f(1) read_clock_def Let_def)
qed

interpretation lf: log_sink LogFile_append LogFile_flush file_contents lf_inv
  by unfold_locales (rule LogFile_append_ok flush_keeps, assumption)+

lemma LogFile_new_ok:
  assumes "env_ok env" "CHR ''/'' \<notin> set basename"
  shows "returns (LogFile_new env basename rs fi cn) (\<lambda>lf. lf_inv lf \<and> file_contents lf = [])"
proof -
  let ?lf = "\<lparr>lf_env = env, lf_basename = basename, lf_rollSize = rs, lf_flushInterval = fi,
        lf_checkEveryN = cn, lf_count = 0, lf_startOfPeriod = 0, lf_lastRoll = 0, lf_lastFlush = 0, lf_file = None,
        lf_closed = [], lf_ticks = 0\<rparr>"
  have "0 < le_clock env 0" using assms(1) by (simp add: env_ok_def)
  then show ?thesis using rollFile_ok [of ?lf] assms by (auto simp: LogFile_new_def lf_inv_def file_contents_def elim!: returns_mono)
qed

end
