(* ===== verification/MuduoAsyncLogging.thy ===== *)
theory MuduoAsyncLogging
  imports MuduoLogStream MuduoLogFile
begin

text \<open>
  Asynchronous logging in the bundled muduo library: the class \<open>AsyncLogging\<close> of \<open>src/muduo_source_code/muduo/base/AsyncLogging.h\<close> and
  \<open>AsyncLogging.cc\<close>. Any thread appends lines to the current buffer; the logging thread takes the full buffers away and writes them
  to a log file.

  The state holds the shared members, the locals of the logging thread and its position. A history is a list of events: a thread appends
  a line, the logging thread does its next step, or the logger is stopped. The steps are the critical sections of the mutex, the waiting on the
  condition, which may end at any time, and the work on thread-local data between them. \<open>None\<close> is a failed assertion or a null pointer. The capacity
  of a buffer is a parameter, \<open>kLargeBuffer\<close> in the program; the log file is used through the interface \<open>log_sink\<close>.

  The theory shows that no assertion fails in any history, that lines are neither lost, duplicated nor reordered as long as the
  logger is not flooded, and that every line reaches the file within five steps of the thread.
\<close>

section \<open>State and operations\<close>

datatype al_pc = AStart | ALoop | ALock | AWaiting | AWrite | ADone

record 'f AsyncLogging =
  al_running :: bool
  al_currentBuffer :: "FixedBuffer option"
  al_nextBuffer :: "FixedBuffer option"
  al_buffers :: "FixedBuffer list"
  al_pc :: al_pc
  al_newBuffer1 :: "FixedBuffer option"
  al_newBuffer2 :: "FixedBuffer option"
  al_buffersToWrite :: "FixedBuffer list"
  al_output :: "'f option"

definition AsyncLogging_new :: "nat \<Rightarrow> 'f AsyncLogging" where
  "AsyncLogging_new n = \<lparr>al_running = False, al_currentBuffer = Some (fb_bzero (FixedBuffer_new n)),
     al_nextBuffer = Some (fb_bzero (FixedBuffer_new n)), al_buffers = [], al_pc = AStart, al_newBuffer1 = None, al_newBuffer2 = None,
     al_buffersToWrite = [], al_output = None\<rparr>"

text \<open>\<open>start\<close> returns after the thread has asserted that the flag is set and has counted down the latch.\<close>

definition al_start :: "'f AsyncLogging \<Rightarrow> 'f AsyncLogging" where
  "al_start s = s\<lparr>al_running := True\<rparr>"

definition al_stop :: "'f AsyncLogging \<Rightarrow> 'f AsyncLogging" where
  "al_stop s = s\<lparr>al_running := False\<rparr>"

definition al_append :: "nat \<Rightarrow> bytes \<Rightarrow> 'f AsyncLogging \<Rightarrow> 'f AsyncLogging option" where
  "al_append n logline s = do {
     cur \<leftarrow> al_currentBuffer s;
     (if fb_avail cur > int (length logline) then do {
        cur1 \<leftarrow> fb_append logline cur;
        Some (s\<lparr>al_currentBuffer := Some cur1\<rparr>)
      }
      else do {
        let s1 = s\<lparr>al_buffers := al_buffers s @ [cur]\<rparr>;
        let fresh = (case al_nextBuffer s1 of Some b \<Rightarrow> b | None \<Rightarrow> FixedBuffer_new n);
        cur1 \<leftarrow> fb_append logline fresh;
        Some (s1\<lparr>al_currentBuffer := Some cur1, al_nextBuffer := None\<rparr>)
      })
   }"

text \<open>The end of the critical section of the thread: the buffers are exchanged.\<close>

definition al_swap :: "'f AsyncLogging \<Rightarrow> 'f AsyncLogging option" where
  "al_swap s = do {
     cur \<leftarrow> al_currentBuffer s;
     let s1 = s\<lparr>al_currentBuffer := al_newBuffer1 s, al_newBuffer1 := None,
                al_buffersToWrite := al_buffers s @ [cur], al_buffers := al_buffersToWrite s\<rparr>;
     let s2 = (if al_nextBuffer s1 = None then s1\<lparr>al_nextBuffer := al_newBuffer2 s1, al_newBuffer2 := None\<rparr> else s1);
     Some (s2\<lparr>al_pc := AWrite\<rparr>)
   }"

text \<open>The test of the loop and the assertions at its start; then the critical section.\<close>

definition empty_buffer :: "FixedBuffer option \<Rightarrow> bool" where
  "empty_buffer b = (case b of None \<Rightarrow> False | Some x \<Rightarrow> fb_length x = 0)"

definition al_loop :: "('f \<Rightarrow> 'f option) \<Rightarrow> 'f AsyncLogging \<Rightarrow> 'f AsyncLogging option" where
  "al_loop flush s =
     (if al_running s then
        (if empty_buffer (al_newBuffer1 s) \<and> empty_buffer (al_newBuffer2 s) \<and> al_buffersToWrite s = []
         then Some (s\<lparr>al_pc := ALock\<rparr>) else None)
      else do { out \<leftarrow> al_output s; out1 \<leftarrow> flush out; Some (s\<lparr>al_output := Some out1, al_pc := ADone\<rparr>) })"

definition al_lock :: "'f AsyncLogging \<Rightarrow> 'f AsyncLogging option" where
  "al_lock s = (if al_buffers s = [] then Some (s\<lparr>al_pc := AWaiting\<rparr>) else al_swap s)"

text \<open>The message about dropped buffers; \<open>now\<close> is the text of the time.\<close>

definition drop_message :: "bytes \<Rightarrow> nat \<Rightarrow> bytes" where
  "drop_message now k = take 255 (''Dropped log messages at '' @ now @ '', '' @ to_string (int k - 2) @ '' larger buffers'' @ [CHR 0x0A])"

fun write_buffers :: "(bytes \<Rightarrow> 'f \<Rightarrow> 'f option) \<Rightarrow> FixedBuffer list \<Rightarrow> 'f \<Rightarrow> 'f option" where
  "write_buffers app [] out = Some out"
| "write_buffers app (b # bs) out = do { out1 \<leftarrow> app (fb_toString b) out; write_buffers app bs out1 }"

text \<open>A spare buffer that was given away is replaced by the last one written.\<close>

definition refill :: "FixedBuffer option \<Rightarrow> FixedBuffer list \<Rightarrow> (FixedBuffer option \<times> FixedBuffer list) option" where
  "refill spare bs =
     (if spare = None then (if bs = [] then None else Some (Some (fb_reset (last bs)), butlast bs)) else Some (spare, bs))"

definition al_write :: "(bytes \<Rightarrow> 'f \<Rightarrow> 'f option) \<Rightarrow> ('f \<Rightarrow> 'f option) \<Rightarrow> bytes \<Rightarrow> 'f AsyncLogging \<Rightarrow> 'f AsyncLogging option" where
  "al_write app flush now s =
     (if al_buffersToWrite s = [] then None
      else do {
        out0 \<leftarrow> al_output s;
        let k = length (al_buffersToWrite s);
        out1 \<leftarrow> (if k > 25 then app (drop_message now k) out0 else Some out0);
        let bs = (if k > 25 then take 2 (al_buffersToWrite s) else al_buffersToWrite s);
        out2 \<leftarrow> write_buffers app bs out1;
        let bs1 = (if length bs > 2 then take 2 bs else bs);
        (nb1, bs2) \<leftarrow> refill (al_newBuffer1 s) bs1;
        (nb2, bs3) \<leftarrow> refill (al_newBuffer2 s) bs2;
        out3 \<leftarrow> flush out2;
        Some (s\<lparr>al_newBuffer1 := nb1, al_newBuffer2 := nb2, al_buffersToWrite := [], al_output := Some out3, al_pc := ALoop\<rparr>)
      })"

definition al_begin :: "nat \<Rightarrow> 'f option \<Rightarrow> 'f AsyncLogging \<Rightarrow> 'f AsyncLogging option" where
  "al_begin n opened s = do {
     out \<leftarrow> opened;
     Some (s\<lparr>al_output := Some out, al_newBuffer1 := Some (fb_bzero (FixedBuffer_new n)), al_newBuffer2 := Some (fb_bzero (FixedBuffer_new n)),
       al_buffersToWrite := [], al_pc := ALoop\<rparr>)
   }"

section \<open>Histories\<close>

text \<open>The file that the thread opens, and the texts of the clock, are parameters of a history. A thread at its end does nothing.\<close>

datatype al_event = ELog bytes | EThread bytes | EStop

definition al_thread :: "nat \<Rightarrow> 'f option \<Rightarrow> (bytes \<Rightarrow> 'f \<Rightarrow> 'f option) \<Rightarrow> ('f \<Rightarrow> 'f option) \<Rightarrow> bytes \<Rightarrow> 'f AsyncLogging \<Rightarrow> 'f AsyncLogging option" where
  "al_thread n opened app flush now s =
     (case al_pc s of
        AStart \<Rightarrow> al_begin n opened s
      | ALoop \<Rightarrow> al_loop flush s
      | ALock \<Rightarrow> al_lock s
      | AWaiting \<Rightarrow> al_swap s
      | AWrite \<Rightarrow> al_write app flush now s
      | ADone \<Rightarrow> Some s)"

fun al_step :: "nat \<Rightarrow> 'f option \<Rightarrow> (bytes \<Rightarrow> 'f \<Rightarrow> 'f option) \<Rightarrow> ('f \<Rightarrow> 'f option) \<Rightarrow> al_event \<Rightarrow> 'f AsyncLogging \<Rightarrow> 'f AsyncLogging option" where
  "al_step n opened app flush (ELog line) s = al_append n line s"
| "al_step n opened app flush (EThread now) s = al_thread n opened app flush now s"
| "al_step n opened app flush EStop s = Some (al_stop s)"

fun al_run :: "nat \<Rightarrow> 'f option \<Rightarrow> (bytes \<Rightarrow> 'f \<Rightarrow> 'f option) \<Rightarrow> ('f \<Rightarrow> 'f option) \<Rightarrow> al_event list \<Rightarrow> 'f AsyncLogging \<Rightarrow> 'f AsyncLogging option" where
  "al_run n opened app flush [] s = Some s"
| "al_run n opened app flush (e # es) s = do { s1 \<leftarrow> al_step n opened app flush e s; al_run n opened app flush es s1 }"

section \<open>Invariant\<close>

text \<open>The bytes that are logged but not yet in the file, in order.\<close>

abbreviation texts :: "FixedBuffer list \<Rightarrow> bytes" where
  "texts bs \<equiv> concat (map fb_toString bs)"

definition cur_text :: "'f AsyncLogging \<Rightarrow> bytes" where
  "cur_text s = (case al_currentBuffer s of None \<Rightarrow> [] | Some b \<Rightarrow> fb_toString b)"

definition pending :: "'f AsyncLogging \<Rightarrow> bytes" where
  "pending s = texts (al_buffersToWrite s) @ texts (al_buffers s) @ cur_text s"

definition spare_ok :: "nat \<Rightarrow> FixedBuffer option \<Rightarrow> bool" where
  "spare_ok n b \<longleftrightarrow> (case b of None \<Rightarrow> False | Some x \<Rightarrow> fb_inv n x \<and> fb_cur x = 0)"

definition al_inv :: "nat \<Rightarrow> ('f \<Rightarrow> bool) \<Rightarrow> 'f AsyncLogging \<Rightarrow> bool" where
  "al_inv n sinv s \<longleftrightarrow>
     (\<exists>cur. al_currentBuffer s = Some cur \<and> fb_inv n cur) \<and>
     (al_nextBuffer s = None \<and> al_buffers s \<noteq> [] \<or> spare_ok n (al_nextBuffer s)) \<and>
     list_all (fb_inv n) (al_buffers s) \<and> list_all (fb_inv n) (al_buffersToWrite s) \<and>
     (if al_pc s = AStart then al_output s = None \<and> al_buffersToWrite s = []
      else (\<exists>out. al_output s = Some out \<and> sinv out) \<and>
        (if al_pc s = AWrite
         then al_buffersToWrite s \<noteq> [] \<and> al_newBuffer1 s = None \<and>
           (spare_ok n (al_newBuffer2 s) \<or> al_newBuffer2 s = None \<and> 2 \<le> length (al_buffersToWrite s))
         else spare_ok n (al_newBuffer1 s) \<and> spare_ok n (al_newBuffer2 s) \<and> al_buffersToWrite s = []))"

text \<open>A history floods the logger when the thread finds more than 25 buffers.\<close>

definition no_flood :: "'f AsyncLogging \<Rightarrow> bool" where
  "no_flood s \<longleftrightarrow> length (al_buffersToWrite s) \<le> 25"

text \<open>What has been logged: the contents of the file and what is pending. A step of the thread changes nothing of it, and brings the pending
  bytes closer to the file.\<close>

definition written :: "('f \<Rightarrow> bytes) \<Rightarrow> 'f AsyncLogging \<Rightarrow> bytes" where
  "written contents s = (case al_output s of None \<Rightarrow> [] | Some out \<Rightarrow> contents out)"

definition logged :: "('f \<Rightarrow> bytes) \<Rightarrow> 'f AsyncLogging \<Rightarrow> bytes" where
  "logged contents s = written contents s @ pending s"

definition rank :: "'f AsyncLogging \<Rightarrow> nat" where
  "rank s = (case al_pc s of AStart \<Rightarrow> 5 | ALoop \<Rightarrow> 4 | ALock \<Rightarrow> 3 | AWaiting \<Rightarrow> 2
     | AWrite \<Rightarrow> if texts (al_buffers s) @ cur_text s = [] then 1 else 5 | ADone \<Rightarrow> 1)"

text \<open>The lines of a history, and histories that never flood the logger.\<close>

fun event_lines :: "al_event list \<Rightarrow> bytes list" where
  "event_lines [] = []"
| "event_lines (ELog line # es) = line # event_lines es"
| "event_lines (EThread now # es) = event_lines es"
| "event_lines (EStop # es) = event_lines es"

fun flood_free :: "nat \<Rightarrow> 'f option \<Rightarrow> (bytes \<Rightarrow> 'f \<Rightarrow> 'f option) \<Rightarrow> ('f \<Rightarrow> 'f option) \<Rightarrow> al_event list \<Rightarrow> 'f AsyncLogging \<Rightarrow> bool" where
  "flood_free n opened app flush [] s \<longleftrightarrow> True"
| "flood_free n opened app flush (e # es) s \<longleftrightarrow> no_flood s \<and>
     (case al_step n opened app flush e s of None \<Rightarrow> True | Some s1 \<Rightarrow> flood_free n opened app flush es s1)"

lemma al_run_append: "al_run n opened app flush (es @ fs) s = al_run n opened app flush es s \<bind> al_run n opened app flush fs"
proof (induction es arbitrary: s)
  case (Cons e es)
  then show ?case by (cases "al_step n opened app flush e s") simp_all
qed simp

lemma event_lines_append: "event_lines (es @ map EThread nows) = event_lines es"
proof (induction es rule: event_lines.induct)
  case 1
  then show ?case by (induction nows) simp_all
qed simp_all

lemma fb_append_text:
  assumes "fb_inv n b"
  shows "returns (fb_append xs b) (\<lambda>b'. fb_inv n b' \<and> fb_toString b' = fb_toString b @ (if fb_avail b > int (length xs) then xs else []))"
  using fb_append_puts [OF assms, of xs] assms
  by (auto simp: puts_text_def fb_avail_def fb_inv_def elim!: returns_mono)

lemma new_buffer [simp]:
  "fb_inv n (FixedBuffer_new n)" "fb_cur (FixedBuffer_new n) = 0" "fb_inv n (fb_bzero b) = fb_inv n b" "fb_cur (fb_bzero b) = fb_cur b"
  "fb_inv n b \<Longrightarrow> fb_inv n (fb_reset b)" "fb_cur (fb_reset b) = 0"
  by (auto simp: fb_inv_def FixedBuffer_new_def fb_bzero_def fb_reset_def)

lemma spare_simps [simp]: "spare_ok n None = False" "spare_ok n (Some x) = (fb_inv n x \<and> fb_cur x = 0)"
  by (simp_all add: spare_ok_def)

lemma spare_text: "spare_ok n (Some x) \<Longrightarrow> fb_toString x = []"
  by (simp add: fb_toString_def fb_length_def)

lemma al_append_ok:
  assumes "al_inv n sinv s"
  shows "returns (al_append n line s) (\<lambda>s'. al_inv n sinv s' \<and> al_pc s' = al_pc s \<and> al_running s' = al_running s \<and>
     al_output s' = al_output s \<and> al_buffersToWrite s' = al_buffersToWrite s \<and>
     (length line < n \<longrightarrow> pending s' = pending s @ line))"
proof -
  obtain cur where cur: "al_currentBuffer s = Some cur" "fb_inv n cur" using assms by (auto simp: al_inv_def)
  show ?thesis
  proof (cases "fb_avail cur > int (length line)")
    case True
    then show ?thesis
      using fb_append_text [OF cur(2), of line] cur(1) assms
      by (auto simp: al_append_def al_inv_def pending_def cur_text_def elim!: returns_mono)
  next
    case False
    define fresh where "fresh = (case al_nextBuffer s of Some b \<Rightarrow> b | None \<Rightarrow> FixedBuffer_new n)"
    have f: "spare_ok n (Some fresh)" using assms by (auto simp: fresh_def al_inv_def split: option.splits)
    then have fi: "fb_inv n fresh" and av: "fb_avail fresh = int n" by (auto simp: fb_avail_def fb_inv_def)
    obtain b where b: "fb_append line fresh = Some b" "fb_inv n b" "length line < n \<Longrightarrow> fb_toString b = line"
      using fb_append_text [OF fi, of line] av spare_text [OF f] by (auto simp: returns_iff)
    show ?thesis
      using False cur b assms by (auto simp: al_append_def fresh_def [symmetric] al_inv_def pending_def cur_text_def)
  qed
qed

lemma spare_empty: "spare_ok n b \<Longrightarrow> empty_buffer b" "spare_ok n b \<Longrightarrow> b \<noteq> None"
  by (auto simp: spare_ok_def empty_buffer_def fb_length_def split: option.splits)

lemma al_swap_ok:
  assumes "al_inv n sinv s" "al_pc s \<in> {ALock, AWaiting}"
  shows "returns (al_swap s) (\<lambda>s'. al_inv n sinv s' \<and> al_pc s' = AWrite \<and> al_running s' = al_running s \<and> al_output s' = al_output s \<and>
     pending s' = pending s \<and> texts (al_buffers s') @ cur_text s' = [])"
proof -
  obtain cur nb1 where c: "al_currentBuffer s = Some cur" "fb_inv n cur" "al_newBuffer1 s = Some nb1" "spare_ok n (Some nb1)"
    "spare_ok n (al_newBuffer2 s)" "al_buffersToWrite s = []"
    using assms by (cases "al_newBuffer1 s") (auto simp: al_inv_def)
  then show ?thesis
    using assms spare_text [OF c(4)]
    by (cases "al_nextBuffer s") (auto simp: al_swap_def al_inv_def pending_def cur_text_def Suc_le_eq Let_def)
qed

lemma refill_ok:
  assumes "spare_ok n b \<or> b = None \<and> bs \<noteq> []" "list_all (fb_inv n) bs"
  obtains b' where "refill b bs = Some (b', if b = None then butlast bs else bs)" "spare_ok n b'"
  using assms that by (cases b; cases bs rule: rev_cases) (auto simp: refill_def)

context log_sink
begin

lemma write_buffers_ok:
  "sink_inv out \<Longrightarrow> returns (write_buffers sink_append bs out) (\<lambda>out'. sink_inv out' \<and> sink_contents out' = sink_contents out @ texts bs)"
proof (induction bs arbitrary: out)
  case (Cons b bs)
  show ?case
    using append_ok [OF Cons.prems, of "fb_toString b"] Cons.IH by (fastforce simp: returns_iff)
qed simp

lemma al_write_ok:
  assumes "al_inv n sink_inv s" "al_pc s = AWrite"
  shows "returns (al_write sink_append sink_flush now s) (\<lambda>s'. al_inv n sink_inv s' \<and> al_pc s' = ALoop \<and> al_running s' = al_running s \<and>
     al_buffers s' = al_buffers s \<and> al_currentBuffer s' = al_currentBuffer s \<and>
     (no_flood s \<longrightarrow> sink_contents (the (al_output s')) = sink_contents (the (al_output s)) @ texts (al_buffersToWrite s)))"
proof -
  obtain out0 where o: "al_output s = Some out0" "sink_inv out0" using assms by (auto simp: al_inv_def)
  let ?bs0 = "al_buffersToWrite s"
  define bs where "bs = (if length ?bs0 > 25 then take 2 ?bs0 else ?bs0)"
  define bs1 where "bs1 = (if length bs > 2 then take 2 bs else bs)"
  have w: "?bs0 \<noteq> []" "al_newBuffer1 s = None" "spare_ok n (al_newBuffer2 s) \<or> al_newBuffer2 s = None \<and> 2 \<le> length ?bs0" "list_all (fb_inv n) ?bs0"
    using assms by (auto simp: al_inv_def)
  have b1: "bs1 \<noteq> []" "2 \<le> length ?bs0 \<Longrightarrow> butlast bs1 \<noteq> []" "list_all (fb_inv n) bs1" "list_all (fb_inv n) (butlast bs1)"
    using w(1,4) by (auto simp: bs1_def bs_def list_all_iff butlast_conv_take dest: in_set_takeD)
  obtain nb1 where nb1: "refill (al_newBuffer1 s) bs1 = Some (nb1, butlast bs1)" "spare_ok n nb1"
    using refill_ok [of n "al_newBuffer1 s" bs1] w(2) b1 by auto
  obtain nb2 bs3 where nb2: "refill (al_newBuffer2 s) (butlast bs1) = Some (nb2, bs3)" "spare_ok n nb2"
    using refill_ok [of n "al_newBuffer2 s" "butlast bs1"] w(3) b1 by metis
  obtain out1 where o1: "(if length ?bs0 > 25 then sink_append (drop_message now (length ?bs0)) out0 else Some out0) = Some out1" "sink_inv out1"
    "\<not> length ?bs0 > 25 \<Longrightarrow> out1 = out0"
    using append_ok [OF o(2), of "drop_message now (length ?bs0)"] o(2) by (cases "length ?bs0 > 25") (auto simp: returns_iff)
  obtain out2 where o2: "write_buffers sink_append bs out1 = Some out2" "sink_inv out2" "sink_contents out2 = sink_contents out1 @ texts bs"
    using write_buffers_ok [OF o1(2), of bs] by (auto simp: returns_iff)
  obtain out3 where o3: "sink_flush out2 = Some out3" "sink_inv out3" "sink_contents out3 = sink_contents out2"
    using flush_ok [OF o2(2)] by (auto simp: returns_iff)
  have "al_write sink_append sink_flush now s =
      Some (s\<lparr>al_newBuffer1 := nb1, al_newBuffer2 := nb2, al_buffersToWrite := [], al_output := Some out3, al_pc := ALoop\<rparr>)"
    using w(1) o(1) o1(1) o2(1) o3(1) nb1(1) nb2(1) unfolding al_write_def Let_def bs_def [symmetric] bs1_def [symmetric] by simp
  moreover have "no_flood s \<Longrightarrow> sink_contents out3 = sink_contents out0 @ texts ?bs0"
    using o1(3) o2(3) o3(3) by (simp add: no_flood_def bs_def)
  ultimately show ?thesis using assms o o3(2) nb1(2) nb2(2) by (auto simp: al_inv_def)
qed

lemma al_thread_ok:
  assumes i: "al_inv n sink_inv s" and o: "opened = Some out0" "sink_inv out0" "sink_contents out0 = []"
  shows "returns (al_thread n opened sink_append sink_flush now s) (\<lambda>s'. al_inv n sink_inv s' \<and> al_running s' = al_running s \<and>
     (no_flood s \<longrightarrow> logged sink_contents s' = logged sink_contents s) \<and>
     (al_running s \<and> al_pc s \<noteq> ADone \<longrightarrow> al_pc s' \<noteq> ADone \<and>
       (if pending s = [] then pending s' = [] else pending s' = [] \<or> rank s' < rank s)))"
proof (cases "al_pc s")
  case AStart
  then show ?thesis using i o by (auto simp: al_thread_def al_begin_def al_inv_def logged_def written_def pending_def cur_text_def rank_def)
next
  case ALoop
  obtain out where out: "al_output s = Some out" "sink_inv out" using i ALoop by (auto simp: al_inv_def)
  have sp: "spare_ok n (al_newBuffer1 s)" "spare_ok n (al_newBuffer2 s)" "al_buffersToWrite s = []" using i ALoop by (auto simp: al_inv_def)
  obtain out1 where f: "sink_flush out = Some out1" "sink_inv out1" "sink_contents out1 = sink_contents out"
    using flush_ok [OF out(2)] by (auto simp: returns_iff)
  show ?thesis
    using ALoop i out f sp spare_empty [OF sp(1)] spare_empty [OF sp(2)]
    by (cases "al_running s") (auto simp: al_thread_def al_loop_def al_inv_def logged_def written_def pending_def cur_text_def rank_def)
next
  case ALock
  show ?thesis
  proof (cases "al_buffers s = []")
    case True
    then show ?thesis using ALock i by (auto simp: al_thread_def al_lock_def al_inv_def logged_def written_def pending_def cur_text_def rank_def)
  next
    case False
    then show ?thesis
      using ALock al_swap_ok [OF i] by (auto simp: al_thread_def al_lock_def logged_def written_def rank_def elim!: returns_mono)
  qed
next
  case AWaiting
  then show ?thesis using al_swap_ok [OF i] by (auto simp: al_thread_def logged_def written_def rank_def elim!: returns_mono)
next
  case AWrite
  obtain s' where s': "al_write sink_append sink_flush now s = Some s'" "al_inv n sink_inv s'" "al_pc s' = ALoop" "al_running s' = al_running s"
    "al_buffers s' = al_buffers s" "al_currentBuffer s' = al_currentBuffer s"
    "no_flood s \<longrightarrow> sink_contents (the (al_output s')) = sink_contents (the (al_output s)) @ texts (al_buffersToWrite s)"
    using al_write_ok [OF i AWrite, of now] by (auto simp: returns_iff)
  have p: "al_buffersToWrite s' = []" "al_output s' \<noteq> None" "al_output s \<noteq> None" using s'(2,3) i AWrite by (auto simp: al_inv_def)
  have c: "cur_text s' = cur_text s" by (simp add: cur_text_def s'(6))
  have "no_flood s \<longrightarrow> logged sink_contents s' = logged sink_contents s" using s'(5,7) p c by (auto simp: logged_def written_def pending_def)
  moreover have "pending s' = [] \<or> rank s' < rank s" using AWrite s'(3,5) p(1) c by (auto simp: rank_def pending_def)
  moreover have "pending s = [] \<Longrightarrow> pending s' = []" using s'(5) p(1) c by (simp add: pending_def)
  ultimately show ?thesis using AWrite s'(1-4) by (auto simp: al_thread_def)
next
  case ADone
  then show ?thesis using i by (simp add: al_thread_def)
qed

lemma al_step_ok:
  assumes i: "al_inv n sink_inv s" and o: "opened = Some out0" "sink_inv out0" "sink_contents out0 = []"
  shows "returns (al_step n opened sink_append sink_flush e s) (\<lambda>s'. al_inv n sink_inv s' \<and>
     (no_flood s \<and> list_all (\<lambda>l. length l < n) (event_lines [e]) \<longrightarrow>
       logged sink_contents s' = logged sink_contents s @ concat (event_lines [e])))"
proof (cases e)
  case (ELog line)
  then show ?thesis using al_append_ok [OF i, of line] by (auto simp: logged_def written_def elim!: returns_mono)
next
  case (EThread now)
  then show ?thesis using al_thread_ok [OF i o, of now] by (auto elim!: returns_mono)
next
  case EStop
  then show ?thesis using i by (auto simp: al_stop_def al_inv_def logged_def written_def pending_def cur_text_def)
qed

lemma al_run_ok:
  assumes o: "opened = Some out0" "sink_inv out0" "sink_contents out0 = []"
  shows "al_inv n sink_inv s \<Longrightarrow> returns (al_run n opened sink_append sink_flush es s) (\<lambda>s'. al_inv n sink_inv s' \<and>
     (flood_free n opened sink_append sink_flush es s \<and> list_all (\<lambda>l. length l < n) (event_lines es) \<longrightarrow>
       logged sink_contents s' = logged sink_contents s @ concat (event_lines es)))"
proof (induction es arbitrary: s)
  case (Cons e es)
  obtain s1 where s1: "al_step n opened sink_append sink_flush e s = Some s1" "al_inv n sink_inv s1"
    "no_flood s \<and> list_all (\<lambda>l. length l < n) (event_lines [e]) \<longrightarrow>
       logged sink_contents s1 = logged sink_contents s @ concat (event_lines [e])"
    using al_step_ok [OF Cons.prems o, of e] by (auto simp: returns_iff)
  show ?case
    using Cons.IH [OF s1(2)] s1 by (cases e) (auto elim!: returns_mono)
qed simp

lemma al_threads_deliver:
  assumes o: "opened = Some out0" "sink_inv out0" "sink_contents out0 = []"
  shows "al_inv n sink_inv s \<Longrightarrow> al_running s \<Longrightarrow> al_pc s \<noteq> ADone \<Longrightarrow>
    returns (al_run n opened sink_append sink_flush (map EThread nows) s) (\<lambda>s'. 
      pending s = [] \<or> rank s \<le> length nows \<longrightarrow> pending s' = [])"
proof (induction nows arbitrary: s)
  case Nil
  have "0 < rank s" by (simp add: rank_def split: al_pc.splits)
  then show ?case by simp
next
  case (Cons now nows)
  obtain s1 where s1: "al_thread n opened sink_append sink_flush now s = Some s1" "al_inv n sink_inv s1" "al_running s1" "al_pc s1 \<noteq> ADone"
    "if pending s = [] then pending s1 = [] else pending s1 = [] \<or> rank s1 < rank s"
    using al_thread_ok [OF Cons.prems(1) o, of now] Cons.prems(2,3) by (auto simp: returns_iff)
  then show ?case
    using Cons.IH [OF s1(2-4)] by (auto elim!: returns_mono split: if_splits)
qed

lemma al_run_alive:
  assumes o: "opened = Some out0" "sink_inv out0" "sink_contents out0 = []"
  shows "al_inv n sink_inv s \<Longrightarrow> al_running s \<Longrightarrow> al_pc s \<noteq> ADone \<Longrightarrow> EStop \<notin> set es \<Longrightarrow>
    returns (al_run n opened sink_append sink_flush es s) (\<lambda>s'. al_inv n sink_inv s' \<and> al_running s' \<and> al_pc s' \<noteq> ADone)"
proof (induction es arbitrary: s)
  case (Cons e es)
  have "returns (al_step n opened sink_append sink_flush e s) (\<lambda>s'. al_inv n sink_inv s' \<and> al_running s' \<and> al_pc s' \<noteq> ADone)"
  proof (cases e)
    case (ELog line)
    then show ?thesis using al_append_ok [OF Cons.prems(1), of line] Cons.prems by (auto elim!: returns_mono)
  next
    case (EThread now)
    then show ?thesis using al_thread_ok [OF Cons.prems(1) o, of now] Cons.prems by (auto elim!: returns_mono)
  qed (use Cons.prems in simp)
  then show ?case using Cons.IH Cons.prems(4) by (auto elim!: returns_mono)
qed simp

lemma al_delivers:
  assumes o: "opened = Some out0" "sink_inv out0" "sink_contents out0 = []"
    and s: "al_inv n sink_inv s" "al_running s" "al_pc s \<noteq> ADone" "logged sink_contents s = []" and es: "EStop \<notin> set es" "5 \<le> length nows"
    and f: "flood_free n opened sink_append sink_flush (es @ map EThread nows) s" "list_all (\<lambda>l. length l < n) (event_lines es)"
  shows "returns (al_run n opened sink_append sink_flush (es @ map EThread nows) s) (\<lambda>s'. written sink_contents s' = concat (event_lines es))"
proof -
  obtain s1 where s1: "al_run n opened sink_append sink_flush es s = Some s1" "al_inv n sink_inv s1" "al_running s1" "al_pc s1 \<noteq> ADone"
    using al_run_alive [OF o s(1-3) es(1)] by (auto simp: returns_iff)
  have "rank s1 \<le> length nows" using es(2) by (auto simp: rank_def split: al_pc.splits)
  then obtain s2 where s2: "al_run n opened sink_append sink_flush (map EThread nows) s1 = Some s2" "pending s2 = []"
    using al_threads_deliver [OF o s1(2-4), of nows] by (auto simp: returns_iff)
  have "al_run n opened sink_append sink_flush (es @ map EThread nows) s = Some s2"
    using s1(1) s2(1) by (simp add: al_run_append)
  moreover have "logged sink_contents s2 = concat (event_lines es)"
    using al_run_ok [OF o s(1), of "es @ map EThread nows"] calculation f s(4) by (simp add: event_lines_append)
  ultimately show ?thesis using s2(2) by (simp add: logged_def)
qed

end

section \<open>Asynchronous logging to files\<close>

lemma new_inv: "al_inv n sinv (al_start (AsyncLogging_new n))"
  and new_logged: "logged contents (al_start (AsyncLogging_new n)) = []"
  and new_alive: "al_running (al_start (AsyncLogging_new n))" "al_pc (al_start (AsyncLogging_new n)) \<noteq> ADone"
  by (simp_all add: al_start_def AsyncLogging_new_def al_inv_def logged_def written_def pending_def cur_text_def fb_toString_def fb_length_def)

text \<open>
  C33. Asynchronous logging: when no call on the log files reports an error and the clock shows a time after the epoch within the range of dates
  (\<open>env_ok\<close>), then in every interleaving of logging threads, the logging thread and a stop, no assertion of the logger fails and no null pointer is used. Unless more than 25 buffers
  are ever waiting, the contents of the log files, across all changes of files, followed by the pending buffers are exactly the lines that were logged, in order; and five
  steps of the logging thread after the last line all lines are in the files, if the logger was not stopped.
\<close>

theorem async_logging:
  assumes "env_ok env" and "CHR ''/'' \<notin> set basename"
  shows "\<exists>out0. LogFile_new env basename rollSize 3 1024 = Some out0 \<and>
    returns (al_run kLargeBuffer (Some out0) LogFile_append LogFile_flush es (al_start (AsyncLogging_new kLargeBuffer)))
      (\<lambda>s. flood_free kLargeBuffer (Some out0) LogFile_append LogFile_flush es (al_start (AsyncLogging_new kLargeBuffer)) \<and>
           list_all (\<lambda>l. length l < kLargeBuffer) (event_lines es) \<longrightarrow>
           written file_contents s @ pending s = concat (event_lines es)) \<and>
    (EStop \<notin> set es \<and> 5 \<le> length nows \<and> list_all (\<lambda>l. length l < kLargeBuffer) (event_lines es) \<and>
       flood_free kLargeBuffer (Some out0) LogFile_append LogFile_flush (es @ map EThread nows) (al_start (AsyncLogging_new kLargeBuffer)) \<longrightarrow>
     returns (al_run kLargeBuffer (Some out0) LogFile_append LogFile_flush (es @ map EThread nows) (al_start (AsyncLogging_new kLargeBuffer)))
       (\<lambda>s. written file_contents s = concat (event_lines es)))"
proof -
  obtain out0 where o: "LogFile_new env basename rollSize 3 1024 = Some out0" "lf_inv out0" "file_contents out0 = []"
    using LogFile_new_ok [OF assms, of rollSize 3 1024] by (auto simp: returns_iff)
  have "returns (al_run kLargeBuffer (Some out0) LogFile_append LogFile_flush es (al_start (AsyncLogging_new kLargeBuffer)))
      (\<lambda>s. flood_free kLargeBuffer (Some out0) LogFile_append LogFile_flush es (al_start (AsyncLogging_new kLargeBuffer)) \<and>
           list_all (\<lambda>l. length l < kLargeBuffer) (event_lines es) \<longrightarrow>
           written file_contents s @ pending s = concat (event_lines es))"
    by (rule returns_mono [OF lf.al_run_ok [OF refl o(2,3) new_inv]]) (simp add: new_logged, simp add: logged_def)
  then show ?thesis
    using o(1) lf.al_delivers [where n = kLargeBuffer and es = es and nows = nows, OF refl o(2,3) new_inv new_alive new_logged]
    by (intro exI [of _ out0]) simp
qed

text \<open>Every line fills at most one buffer, so that 24 lines cannot flood the logger.\<close>

definition few_buffers :: "nat \<Rightarrow> 'f AsyncLogging \<Rightarrow> bool" where
  "few_buffers k s \<longleftrightarrow> length (al_buffers s) \<le> k \<and> length (al_buffersToWrite s) \<le> Suc k"

lemma few_buffers_thread:
  "al_thread n opened app flush now s = Some s1 \<Longrightarrow> few_buffers k s \<Longrightarrow> al_buffersToWrite s = [] \<or> al_pc s \<notin> {ALock, AWaiting} \<Longrightarrow> few_buffers k s1"
  by (auto simp: al_thread_def al_begin_def al_loop_def al_lock_def al_swap_def al_write_def few_buffers_def Let_def bind_eq_Some_conv
      split: al_pc.splits if_splits)

lemma few_buffers_append: "al_append n line s = Some s1 \<Longrightarrow> few_buffers k s \<Longrightarrow> few_buffers (Suc k) s1"
  by (auto simp: al_append_def few_buffers_def Let_def bind_eq_Some_conv split: if_splits)

context log_sink
begin

lemma few_lines_flood_free:
  assumes o: "opened = Some out0" "sink_inv out0" "sink_contents out0 = []"
  shows "al_inv n sink_inv s \<Longrightarrow> few_buffers k s \<Longrightarrow> k + length (event_lines es) \<le> 24 \<Longrightarrow>
    flood_free n opened sink_append sink_flush es s"
proof (induction es arbitrary: s k)
  case (Cons e es)
  have nf: "no_flood s" using Cons.prems(2,3) by (auto simp: few_buffers_def no_flood_def)
  obtain s1 where s1: "al_step n opened sink_append sink_flush e s = Some s1" "al_inv n sink_inv s1"
    using al_step_ok [OF Cons.prems(1) o, of e] by (auto simp: returns_iff)
  have w: "al_buffersToWrite s = [] \<or> al_pc s \<notin> {ALock, AWaiting}" using Cons.prems(1) by (auto simp: al_inv_def)
  show ?case
  proof (cases e)
    case (ELog line)
    then show ?thesis using few_buffers_append [of n line s s1 k] Cons.IH [OF s1(2), of "Suc k"] s1(1) Cons.prems nf by simp
  next
    case (EThread now)
    then show ?thesis
      using few_buffers_thread [of n opened sink_append sink_flush now s s1 k] w Cons.IH [OF s1(2), of k] s1(1) Cons.prems nf by simp
  next
    case EStop
    then show ?thesis using Cons.IH [OF s1(2), of k] s1(1) Cons.prems nf by (auto simp: al_stop_def few_buffers_def)
  qed
qed simp

end

definition example_env :: log_env where
  "example_env = \<lparr>le_clock = (\<lambda>_. 1000), le_hostname = ''host'', le_pid = 1, le_fopen = (\<lambda>_. True), le_fwrite = (\<lambda>_ r. (r, False))\<rparr>"

lemma example_env_ok: "env_ok example_env"
  by (simp add: env_ok_def example_env_def covered_def covered_day_def kSecondsPerDay_def kJulianDayOf1970_01_01_def)

theorem async_logging_witness:
  "\<exists>out0. LogFile_new example_env ''log'' 1000 3 1024 = Some out0 \<and>
    returns (al_run kLargeBuffer (Some out0) LogFile_append LogFile_flush ([ELog ''one'', EThread [], ELog ''two''] @ map EThread (replicate 5 []))
       (al_start (AsyncLogging_new kLargeBuffer)))
      (\<lambda>s. written file_contents s = ''onetwo'')"
proof -
  let ?es = "[ELog ''one'', EThread [], ELog ''two'']" and ?n = "replicate 5 ([] :: bytes)"
  have b: "CHR ''/'' \<notin> set ''log''" by simp
  obtain out0 where o: "LogFile_new example_env ''log'' 1000 3 1024 = Some out0"
    and d: "EStop \<notin> set ?es \<and> 5 \<le> length ?n \<and> list_all (\<lambda>l. length l < kLargeBuffer) (event_lines ?es) \<and>
       flood_free kLargeBuffer (Some out0) LogFile_append LogFile_flush (?es @ map EThread ?n) (al_start (AsyncLogging_new kLargeBuffer)) \<longrightarrow>
     returns (al_run kLargeBuffer (Some out0) LogFile_append LogFile_flush (?es @ map EThread ?n) (al_start (AsyncLogging_new kLargeBuffer)))
       (\<lambda>s. written file_contents s = concat (event_lines ?es))"
    using async_logging [OF example_env_ok b, of 1000 ?es ?n] by (elim exE conjE) (rule that, assumption+)
  have i: "lf_inv out0" "file_contents out0 = []" using LogFile_new_ok [OF example_env_ok b, of 1000 3 1024] o by simp_all
  have "few_buffers 0 (al_start (AsyncLogging_new kLargeBuffer))" by (simp add: few_buffers_def al_start_def AsyncLogging_new_def)
  then have "flood_free kLargeBuffer (Some out0) LogFile_append LogFile_flush (?es @ map EThread ?n) (al_start (AsyncLogging_new kLargeBuffer))"
    by (rule lf.few_lines_flood_free [OF refl i new_inv]) (simp only: event_lines_append, simp)
  moreover have "event_lines ?es = [''one'', ''two'']" "list_all (\<lambda>l. length l < kLargeBuffer) [''one'', ''two'']" by (simp_all add: kLargeBuffer_def)
  ultimately have "returns (al_run kLargeBuffer (Some out0) LogFile_append LogFile_flush (?es @ map EThread ?n) (al_start (AsyncLogging_new kLargeBuffer)))
       (\<lambda>s. written file_contents s = concat [''one'', ''two''])"
    using d by (metis insert_iff length_replicate list.set(1,2) order_refl al_event.distinct(4,6) empty_iff)
  then show ?thesis using o unfolding concat.simps append.simps append_Nil2 by blast
qed

text \<open>A line logged while the thread is writing, followed by a stop, never reaches the file: the thread leaves its loop without another
  exchange of the buffers.\<close>

lemma stop_loses_lines:
  "returns (al_run 16 (Some []) (\<lambda>xs f. Some (f @ xs)) Some
      [ELog ''one'', EThread [], EThread [], EThread [], EThread [], ELog ''two'', EStop, EThread [], EThread []]
      (al_start (AsyncLogging_new 16)))
    (\<lambda>s. al_pc s = ADone \<and> written id s = ''one'' \<and> pending s = ''two'')"
  by code_simp

end
