(* ===== verification/MuduoThreadPool.thy ===== *)
theory MuduoThreadPool
  imports Prelude
begin

text \<open>
  Blocking synchronisation in the bundled muduo library: the templates \<open>BlockingQueue\<close> and \<open>BoundedBlockingQueue\<close>, the class
  \<open>CountDownLatch\<close> and the class \<open>ThreadPool\<close>, under \<open>src/muduo_source_code/muduo/base\<close>.

  All of them are monitors: an operation holds the mutex from its start, or from its return from a condition, to its end or to its next wait. The step relations below have one
  step per such section, for any number of threads, numbered by natural numbers. A thread in a wait is waiting; \<open>notify\<close> makes one waiting
  thread, if there is any, ready to compete for the mutex, \<open>notifyAll\<close> all of them, and a wait may also end without a
  notification. The label of a step is what the thread has done.

  The theory shows that no wake-up is lost: whenever an operation could go on, a thread that can do it is ready or none is waiting for
  it; and that items are handed over in order, within the capacity.
\<close>

section \<open>Waiting and ready threads\<close>

text \<open>\<open>enough_ready W R n\<close>: with \<open>n\<close> chances to go on, either nobody waits or \<open>n\<close> threads are ready.\<close>

definition enough_ready :: "nat set \<Rightarrow> nat set \<Rightarrow> nat \<Rightarrow> bool" where
  "enough_ready W R n \<longleftrightarrow> finite W \<and> finite R \<and> W \<inter> R = {} \<and> (W \<noteq> {} \<longrightarrow> n \<le> card R)"

text \<open>\<open>notify\<close> on the waiting and ready sets.\<close>

definition notified :: "nat set \<Rightarrow> nat set \<Rightarrow> nat set \<Rightarrow> nat set \<Rightarrow> bool" where
  "notified W R W' R' \<longleftrightarrow> (if W = {} then W' = W \<and> R' = R else (\<exists>w \<in> W. W' = W - {w} \<and> R' = insert w R))"

lemma enough_notified: "enough_ready W R n \<Longrightarrow> notified W R W' R' \<Longrightarrow> enough_ready W' R' (Suc n)"
  by (auto simp: enough_ready_def notified_def card_insert_if split: if_splits)

lemma enough_less: "enough_ready W R n \<Longrightarrow> m \<le> n \<Longrightarrow> enough_ready W R m"
  by (auto simp: enough_ready_def)

lemma enough_ready_used: "enough_ready W R (Suc n) \<Longrightarrow> t \<in> R \<Longrightarrow> enough_ready W (R - {t}) n"
  by (auto simp: enough_ready_def)

lemma enough_block: "enough_ready W R n \<Longrightarrow> enough_ready (insert t W) (R - {t}) 0"
  by (auto simp: enough_ready_def)

lemma enough_spurious: "enough_ready W R n \<Longrightarrow> enough_ready (W - {t}) (insert t R) n"
  by (auto simp: enough_ready_def card_insert_if)

lemma enough_all: "enough_ready W R n \<Longrightarrow> enough_ready {} (R \<union> W) m"
  by (auto simp: enough_ready_def)

section \<open>Blocking queues\<close>

text \<open>\<open>bq_capacity = None\<close> is the unbounded queue. A thread between its operations is in neither set; a blocked \<open>put\<close> keeps its
  item.\<close>

record 'a bqueue =
  bq_items :: "'a list"
  bq_capacity :: "nat option"
  bq_takeWait :: "nat set"
  bq_takeReady :: "nat set"
  bq_putWait :: "nat set"
  bq_putReady :: "nat set"
  bq_arg :: "nat \<Rightarrow> 'a option"

definition bq_new :: "nat option \<Rightarrow> 'a bqueue" where
  "bq_new cap = \<lparr>bq_items = [], bq_capacity = cap, bq_takeWait = {}, bq_takeReady = {}, bq_putWait = {}, bq_putReady = {}, bq_arg = (\<lambda>_. None)\<rparr>"

definition bq_full :: "'a bqueue \<Rightarrow> bool" where
  "bq_full q = (case bq_capacity q of None \<Rightarrow> False | Some c \<Rightarrow> c \<le> length (bq_items q))"

definition bq_free :: "'a bqueue \<Rightarrow> nat \<Rightarrow> bool" where
  "bq_free q t \<longleftrightarrow> t \<notin> bq_takeWait q \<union> bq_takeReady q \<union> bq_putWait q \<union> bq_putReady q"

datatype 'a bq_label = DidPut 'a | DidTake 'a | Blocked | Woken | Drained "'a list"

text \<open>The two ways into the section of \<open>put\<close>: the call, and the return from the wait with the item of the call.\<close>

definition put_section :: "'a bqueue \<Rightarrow> nat \<Rightarrow> 'a \<Rightarrow> bool" where
  "put_section q t x \<longleftrightarrow> bq_free q t \<or> t \<in> bq_putReady q \<and> bq_arg q t = Some x"

definition take_section :: "'a bqueue \<Rightarrow> nat \<Rightarrow> bool" where
  "take_section q t \<longleftrightarrow> bq_free q t \<or> t \<in> bq_takeReady q"

inductive bq_step :: "'a bqueue \<Rightarrow> 'a bq_label \<Rightarrow> 'a bqueue \<Rightarrow> bool" where
  put: "put_section q t x \<Longrightarrow> \<not> bq_full q \<Longrightarrow> notified (bq_takeWait q) (bq_takeReady q) W R \<Longrightarrow>
    bq_step q (DidPut x) (q\<lparr>bq_items := bq_items q @ [x], bq_putReady := bq_putReady q - {t}, bq_takeWait := W, bq_takeReady := R\<rparr>)"
| put_wait: "put_section q t x \<Longrightarrow> bq_full q \<Longrightarrow>
    bq_step q Blocked (q\<lparr>bq_putWait := insert t (bq_putWait q), bq_putReady := bq_putReady q - {t}, bq_arg := (bq_arg q)(t := Some x)\<rparr>)"
| take: "take_section q t \<Longrightarrow> bq_items q = x # xs \<Longrightarrow> notified (bq_putWait q) (bq_putReady q) W R \<Longrightarrow>
    bq_step q (DidTake x) (q\<lparr>bq_items := xs, bq_takeReady := bq_takeReady q - {t}, bq_putWait := W, bq_putReady := R\<rparr>)"
| take_wait: "take_section q t \<Longrightarrow> bq_items q = [] \<Longrightarrow>
    bq_step q Blocked (q\<lparr>bq_takeWait := insert t (bq_takeWait q), bq_takeReady := bq_takeReady q - {t}\<rparr>)"
| drain: "bq_capacity q = None \<Longrightarrow> bq_step q (Drained (bq_items q)) (q\<lparr>bq_items := []\<rparr>)"
| wake_take: "t \<in> bq_takeWait q \<Longrightarrow> bq_step q Woken (q\<lparr>bq_takeWait := bq_takeWait q - {t}, bq_takeReady := insert t (bq_takeReady q)\<rparr>)"
| wake_put: "t \<in> bq_putWait q \<Longrightarrow> bq_step q Woken (q\<lparr>bq_putWait := bq_putWait q - {t}, bq_putReady := insert t (bq_putReady q)\<rparr>)"

inductive bq_run :: "'a bqueue \<Rightarrow> 'a bq_label list \<Rightarrow> 'a bqueue \<Rightarrow> bool" where
  bq_run_nil: "bq_run q [] q"
| bq_run_snoc: "bq_run q ls q1 \<Longrightarrow> bq_step q1 l q2 \<Longrightarrow> bq_run q (ls @ [l]) q2"

inductive_cases bq_stepE: "bq_step q l q'"

fun put_of :: "'a bq_label \<Rightarrow> 'a list" where
  "put_of (DidPut x) = [x]"
| "put_of _ = []"

fun taken_of :: "'a bq_label \<Rightarrow> 'a list" where
  "taken_of (DidTake x) = [x]"
| "taken_of (Drained xs) = xs"
| "taken_of _ = []"

definition bq_room :: "'a bqueue \<Rightarrow> nat" where
  "bq_room q = (case bq_capacity q of None \<Rightarrow> 0 | Some c \<Rightarrow> c - length (bq_items q))"

definition bq_inv :: "'a bqueue \<Rightarrow> bool" where
  "bq_inv q \<longleftrightarrow> enough_ready (bq_takeWait q) (bq_takeReady q) (length (bq_items q)) \<and>
     enough_ready (bq_putWait q) (bq_putReady q) (bq_room q) \<and>
     (bq_takeWait q \<union> bq_takeReady q) \<inter> (bq_putWait q \<union> bq_putReady q) = {} \<and>
     (\<forall>t \<in> bq_putWait q \<union> bq_putReady q. bq_arg q t \<noteq> None) \<and>
     (bq_capacity q = None \<longrightarrow> bq_putWait q = {} \<and> bq_putReady q = {}) \<and>
     (case bq_capacity q of None \<Rightarrow> True | Some c \<Rightarrow> length (bq_items q) \<le> c)"

text \<open>A section that succeeds uses one chance: its thread was ready, or it was not waiting at all.\<close>

lemma enough_section: "enough_ready W R (Suc n) \<Longrightarrow> t \<notin> W \<Longrightarrow> enough_ready W (R - {t}) n"
  by (cases "t \<in> R") (auto dest: enough_ready_used enough_less [of _ _ "Suc n" n])

lemma notified_union: "notified W R W' R' \<Longrightarrow> W' \<union> R' = W \<union> R"
  by (auto simp: notified_def split: if_splits)

lemma notified_empty: "notified W R W' R' \<Longrightarrow> W = {} \<Longrightarrow> W' = {} \<and> R' = R"
  by (simp add: notified_def)

lemma bq_step_inv:
  assumes "bq_step q l q'" "bq_inv q"
  shows "bq_inv q' \<and> bq_capacity q' = bq_capacity q"
  using assms(1)
proof cases
  case (put t x W R)
  have t: "t \<notin> bq_putWait q" "t \<notin> bq_takeWait q \<union> bq_takeReady q"
    using put(3) assms(2) by (auto simp: put_section_def bq_free_def bq_inv_def enough_ready_def)
  have e: "enough_ready W R (Suc (length (bq_items q)))" using enough_notified [OF _ put(5)] assms(2) by (simp add: bq_inv_def)
  have p: "enough_ready (bq_putWait q) (bq_putReady q - {t}) (bq_room q - 1)"
  proof (cases "bq_room q")
    case 0
    then have "bq_capacity q = None" using put(4) by (auto simp: bq_room_def bq_full_def split: option.splits)
    then show ?thesis using assms(2) by (simp add: bq_inv_def enough_ready_def)
  next
    case (Suc n)
    then show ?thesis using enough_section [OF _ t(1)] assms(2) by (simp add: bq_inv_def)
  qed
  show ?thesis
    using e p put(2,4) notified_union [OF put(5)] assms(2)
    by (auto simp: bq_inv_def bq_room_def bq_full_def split: option.splits)
next
  case (put_wait t x)
  have t: "t \<notin> bq_takeWait q \<union> bq_takeReady q"
    using put_wait(3) assms(2) by (auto simp: put_section_def bq_free_def bq_inv_def)
  have c: "bq_capacity q \<noteq> None" and r: "bq_room q = 0" using put_wait(4) by (auto simp: bq_full_def bq_room_def split: option.splits)
  have "enough_ready (insert t (bq_putWait q)) (bq_putReady q - {t}) 0" using assms(2) enough_block by (auto simp: bq_inv_def)
  then show ?thesis using put_wait(2) t c r assms(2) by (auto simp: bq_inv_def bq_room_def split: option.splits)
next
  case (take t x xs W R)
  have t: "t \<notin> bq_takeWait q" using take(3) assms(2) by (auto simp: take_section_def bq_free_def bq_inv_def enough_ready_def)
  have e: "enough_ready (bq_takeWait q) (bq_takeReady q - {t}) (length xs)"
    using enough_section [OF _ t, of "bq_takeReady q" "length xs"] take(4) assms(2) by (simp add: bq_inv_def)
  have p: "enough_ready W R (Suc (bq_room q))" using enough_notified [OF _ take(5)] assms(2) by (simp add: bq_inv_def)
  have u: "W \<union> R = bq_putWait q \<union> bq_putReady q" using notified_union [OF take(5)] .
  have n: "bq_capacity q = None \<Longrightarrow> W = {} \<and> R = {}" using assms(2) notified_empty [OF take(5)] by (auto simp: bq_inv_def)
  have room: "bq_room (q\<lparr>bq_items := xs, bq_takeReady := bq_takeReady q - {t}, bq_putWait := W, bq_putReady := R\<rparr>) \<le> Suc (bq_room q)"
    using take(4) by (auto simp: bq_room_def split: option.splits)
  show ?thesis
    unfolding take(2) using enough_less [OF p room] e u n take(4) assms(2) by (auto simp: bq_inv_def split: option.splits)
next
  case (take_wait t)
  have t: "t \<notin> bq_putWait q \<union> bq_putReady q" using take_wait(3) assms(2) by (auto simp: take_section_def bq_free_def bq_inv_def)
  have "enough_ready (insert t (bq_takeWait q)) (bq_takeReady q - {t}) 0" using assms(2) enough_block by (auto simp: bq_inv_def)
  then show ?thesis using take_wait(2,4) t assms(2) by (auto simp: bq_inv_def bq_room_def split: option.splits)
next
  case drain
  then show ?thesis using assms(2) by (auto simp: bq_inv_def bq_room_def intro: enough_less)
next
  case (wake_take t)
  then show ?thesis using assms(2) enough_spurious [of "bq_takeWait q" "bq_takeReady q" _ t] by (auto simp: bq_inv_def bq_room_def split: option.splits)
next
  case (wake_put t)
  then show ?thesis using assms(2) enough_spurious [of "bq_putWait q" "bq_putReady q" _ t] by (auto simp: bq_inv_def bq_room_def split: option.splits)
qed

lemma bq_new_inv: "bq_inv (bq_new cap)"
  by (simp add: bq_inv_def bq_new_def enough_ready_def split: option.splits)

lemma bq_run_inv: "bq_run q ls q' \<Longrightarrow> bq_inv q \<Longrightarrow> bq_inv q' \<and> bq_capacity q' = bq_capacity q"
  by (induction rule: bq_run.induct) (auto dest: bq_step_inv)

lemma bq_step_fifo: "bq_step q l q' \<Longrightarrow> bq_items q @ put_of l = taken_of l @ bq_items q'"
  by (erule bq_stepE) simp_all

lemma bq_run_fifo: "bq_run q ls q' \<Longrightarrow> bq_items q @ concat (map put_of ls) = concat (map taken_of ls) @ bq_items q'"
proof (induction rule: bq_run.induct)
  case (bq_run_snoc q ls q1 l q2)
  then show ?case using bq_step_fifo [of q1 l q2] by (metis append.assoc append.right_neutral concat.simps concat_append list.map(1,2) map_append)
qed simp

text \<open>
  C35. Blocking queues: in every history of any number of threads, with spurious wake-ups at any time, the items taken and the items in
  the queue are exactly the items put, in order, the queue never exceeds its capacity, and no wake-up is lost: while threads wait for an item there are as many
  threads ready to take as items, and while threads wait for room as many ready to put as free places.
\<close>

theorem blocking_queue:
  assumes "bq_run (bq_new cap) ls q"
  shows "concat (map put_of ls) = concat (map taken_of ls) @ bq_items q \<and>
    (\<forall>c. cap = Some c \<longrightarrow> length (bq_items q) \<le> c) \<and>
    (bq_takeWait q \<noteq> {} \<longrightarrow> length (bq_items q) \<le> card (bq_takeReady q)) \<and>
    (\<forall>c. cap = Some c \<and> bq_putWait q \<noteq> {} \<longrightarrow> c - length (bq_items q) \<le> card (bq_putReady q)) \<and>
    (cap = None \<longrightarrow> bq_putWait q = {})"
proof -
  have "bq_inv q" "bq_capacity q = cap" using bq_run_inv [OF assms bq_new_inv] by (simp_all add: bq_new_def)
  then show ?thesis using bq_run_fifo [OF assms] by (auto simp: bq_inv_def enough_ready_def bq_room_def bq_new_def)
qed

text \<open>A taker that waits and is woken by a putter.\<close>

lemma bq_example:
  "bq_run (bq_new (Some 1)) [Blocked, DidPut (7 :: nat), DidTake 7]
     \<lparr>bq_items = [], bq_capacity = Some 1, bq_takeWait = {}, bq_takeReady = {}, bq_putWait = {}, bq_putReady = {}, bq_arg = (\<lambda>_. None)\<rparr>"
proof -
  let ?s = "\<lambda>i w r. \<lparr>bq_items = i, bq_capacity = Some 1, bq_takeWait = w, bq_takeReady = r, bq_putWait = {}, bq_putReady = {}, bq_arg = (\<lambda>_. None)\<rparr>"
  have 1: "bq_step (?s [] {} {}) Blocked (?s [] {0} {})"
    using bq_step.take_wait [of "?s [] {} {}" 0] by (simp add: take_section_def bq_free_def)
  have 2: "bq_step (?s [] {0} {}) (DidPut 7) (?s [7] {} {0})"
    using bq_step.put [of "?s [] {0} {}" 1 7 "{}" "{0}"] by (simp add: put_section_def bq_free_def bq_full_def notified_def)
  have 3: "bq_step (?s [7] {} {0}) (DidTake 7) (?s [] {} {})"
    using bq_step.take [of "?s [7] {} {0}" 0 7 "[]" "{}" "{}"] by (simp add: take_section_def notified_def)
  show ?thesis
    using bq_run_snoc [OF bq_run_snoc [OF bq_run_snoc [OF bq_run_nil 1] 2] 3] by (simp add: bq_new_def)
qed

theorem blocking_queue_witness:
  "concat (map put_of [Blocked, DidPut (7 :: nat), DidTake 7]) = concat (map taken_of [Blocked, DidPut 7, DidTake 7])"
  using conjunct1 [OF blocking_queue [OF bq_example]] by simp


section \<open>CountDownLatch\<close>

record latch =
  la_count :: int
  la_waiting :: "nat set"
  la_ready :: "nat set"

definition CountDownLatch_new :: "int \<Rightarrow> latch" where
  "CountDownLatch_new count = \<lparr>la_count = count, la_waiting = {}, la_ready = {}\<rparr>"

datatype latch_label = Counted | Returned nat | Waits

inductive latch_step :: "latch \<Rightarrow> latch_label \<Rightarrow> latch \<Rightarrow> bool" where
  latch_wait: "t \<notin> la_waiting s \<Longrightarrow> la_count s > 0 \<Longrightarrow>
    latch_step s Waits (s\<lparr>la_waiting := insert t (la_waiting s), la_ready := la_ready s - {t}\<rparr>)"
| latch_return: "t \<notin> la_waiting s \<Longrightarrow> \<not> la_count s > 0 \<Longrightarrow> latch_step s (Returned t) (s\<lparr>la_ready := la_ready s - {t}\<rparr>)"
| latch_countDown: "latch_step s Counted
    (if la_count s - 1 = 0 then s\<lparr>la_count := la_count s - 1, la_waiting := {}, la_ready := la_ready s \<union> la_waiting s\<rparr>
     else s\<lparr>la_count := la_count s - 1\<rparr>)"
| latch_wake: "t \<in> la_waiting s \<Longrightarrow> latch_step s Waits (s\<lparr>la_waiting := la_waiting s - {t}, la_ready := insert t (la_ready s)\<rparr>)"

inductive latch_run :: "latch \<Rightarrow> latch_label list \<Rightarrow> latch \<Rightarrow> bool" where
  latch_nil: "latch_run s [] s"
| latch_snoc: "latch_run s ls s1 \<Longrightarrow> latch_step s1 l s2 \<Longrightarrow> latch_run s (ls @ [l]) s2"

text \<open>Nobody waits once the count is down, and a wait returns only after as many \<open>countDown\<close>s as the latch was created with.\<close>

lemma latch_inv:
  "latch_run s0 ls s \<Longrightarrow> s0 = CountDownLatch_new n \<Longrightarrow>
   (la_waiting s \<noteq> {} \<longrightarrow> la_count s > 0) \<and> la_count s = n - int (count_list ls Counted)"
proof (induction rule: latch_run.induct)
  case (latch_nil s)
  then show ?case by (simp add: CountDownLatch_new_def)
next
  case (latch_snoc s ls s1 l s2)
  from latch_snoc(2) show ?case using latch_snoc(3) [OF latch_snoc(4)] by cases (auto split: if_splits)
qed

lemma latch_returns:
  assumes "latch_run (CountDownLatch_new n) ls s" "latch_step s (Returned t) s'"
  shows "n \<le> int (count_list ls Counted)"
  using assms(2) latch_inv [OF assms(1) refl] by cases simp

section \<open>ThreadPool\<close>

text \<open>A worker tests the flag, enters \<open>take\<close>, waits or is ready there, and runs its task; \<open>tp_arg\<close> is the task of a blocked \<open>run\<close>.\<close>

datatype 'a wpc = WLoop | WEnter | WTake | WTask 'a | WExit

record 'a pool =
  tp_queue :: "'a list"
  tp_maxQueueSize :: nat
  tp_running :: bool
  tp_threads :: "nat set"
  tp_wpc :: "nat \<Rightarrow> 'a wpc"
  tp_takeWait :: "nat set"
  tp_takeReady :: "nat set"
  tp_runWait :: "nat set"
  tp_runReady :: "nat set"
  tp_arg :: "nat \<Rightarrow> 'a option"

definition tp_start :: "nat \<Rightarrow> nat \<Rightarrow> 'a pool" where
  "tp_start maxSize numThreads = \<lparr>tp_queue = [], tp_maxQueueSize = maxSize, tp_running = True, tp_threads = {0..<numThreads},
     tp_wpc = (\<lambda>_. WLoop), tp_takeWait = {}, tp_takeReady = {}, tp_runWait = {}, tp_runReady = {}, tp_arg = (\<lambda>_. None)\<rparr>"

definition isFull :: "'a pool \<Rightarrow> bool" where
  "isFull p \<longleftrightarrow> 0 < tp_maxQueueSize p \<and> tp_maxQueueSize p \<le> length (tp_queue p)"

text \<open>A thread may call \<open>run\<close> when it is not blocked in the pool and, if it is a worker, from its task.\<close>

definition tp_free :: "'a pool \<Rightarrow> nat \<Rightarrow> bool" where
  "tp_free p t \<longleftrightarrow> t \<notin> tp_takeWait p \<union> tp_takeReady p \<union> tp_runWait p \<union> tp_runReady p \<and>
     (t \<in> tp_threads p \<longrightarrow> (\<exists>x. tp_wpc p t = WTask x))"

definition run_section :: "'a pool \<Rightarrow> nat \<Rightarrow> 'a \<Rightarrow> bool" where
  "run_section p t x \<longleftrightarrow> tp_threads p \<noteq> {} \<and> (tp_free p t \<or> t \<in> tp_runReady p \<and> tp_arg p t = Some x)"

definition work_section :: "'a pool \<Rightarrow> nat \<Rightarrow> bool" where
  "work_section p t \<longleftrightarrow> t \<in> tp_threads p \<and> (tp_wpc p t = WEnter \<or> t \<in> tp_takeReady p)"

datatype 'a tp_label = Accepted 'a | Refused 'a | Started 'a | Stopped | Internal

inductive tp_step :: "'a pool \<Rightarrow> 'a tp_label \<Rightarrow> 'a pool \<Rightarrow> bool" where
  tp_direct: "tp_threads p = {} \<Longrightarrow> tp_step p (Started x) p"
| tp_run: "run_section p t x \<Longrightarrow> tp_running p \<Longrightarrow> \<not> isFull p \<Longrightarrow> notified (tp_takeWait p) (tp_takeReady p) W R \<Longrightarrow>
    tp_step p (Accepted x) (p\<lparr>tp_queue := tp_queue p @ [x], tp_runReady := tp_runReady p - {t}, tp_takeWait := W, tp_takeReady := R\<rparr>)"
| tp_run_wait: "run_section p t x \<Longrightarrow> tp_running p \<Longrightarrow> isFull p \<Longrightarrow>
    tp_step p Internal (p\<lparr>tp_runWait := insert t (tp_runWait p), tp_runReady := tp_runReady p - {t}, tp_arg := (tp_arg p)(t := Some x)\<rparr>)"
| tp_run_refused: "run_section p t x \<Longrightarrow> \<not> tp_running p \<Longrightarrow>
    tp_step p (Refused x) (p\<lparr>tp_runReady := tp_runReady p - {t}\<rparr>)"
| tp_loop: "t \<in> tp_threads p \<Longrightarrow> tp_wpc p t = WLoop \<Longrightarrow>
    tp_step p Internal (p\<lparr>tp_wpc := (tp_wpc p)(t := if tp_running p then WEnter else WExit)\<rparr>)"
| tp_take_wait: "work_section p t \<Longrightarrow> tp_queue p = [] \<Longrightarrow> tp_running p \<Longrightarrow>
    tp_step p Internal (p\<lparr>tp_wpc := (tp_wpc p)(t := WTake), tp_takeWait := insert t (tp_takeWait p), tp_takeReady := tp_takeReady p - {t}\<rparr>)"
| tp_take_none: "work_section p t \<Longrightarrow> tp_queue p = [] \<Longrightarrow> \<not> tp_running p \<Longrightarrow>
    tp_step p Internal (p\<lparr>tp_wpc := (tp_wpc p)(t := WLoop), tp_takeReady := tp_takeReady p - {t}\<rparr>)"
| tp_take: "work_section p t \<Longrightarrow> tp_queue p = x # xs \<Longrightarrow>
    (if 0 < tp_maxQueueSize p then notified (tp_runWait p) (tp_runReady p) W R else W = tp_runWait p \<and> R = tp_runReady p) \<Longrightarrow>
    tp_step p (Started x) (p\<lparr>tp_queue := xs, tp_wpc := (tp_wpc p)(t := WTask x), tp_takeReady := tp_takeReady p - {t}, tp_runWait := W, tp_runReady := R\<rparr>)"
| tp_done: "t \<in> tp_threads p \<Longrightarrow> tp_wpc p t = WTask x \<Longrightarrow> t \<notin> tp_runWait p \<union> tp_runReady p \<Longrightarrow>
    tp_step p Internal (p\<lparr>tp_wpc := (tp_wpc p)(t := WLoop)\<rparr>)"
| tp_stop: "tp_step p Stopped (p\<lparr>tp_running := False, tp_takeWait := {}, tp_takeReady := tp_takeReady p \<union> tp_takeWait p,
      tp_runWait := {}, tp_runReady := tp_runReady p \<union> tp_runWait p\<rparr>)"
| tp_wake_take: "t \<in> tp_takeWait p \<Longrightarrow>
    tp_step p Internal (p\<lparr>tp_takeWait := tp_takeWait p - {t}, tp_takeReady := insert t (tp_takeReady p)\<rparr>)"
| tp_wake_run: "t \<in> tp_runWait p \<Longrightarrow>
    tp_step p Internal (p\<lparr>tp_runWait := tp_runWait p - {t}, tp_runReady := insert t (tp_runReady p)\<rparr>)"

inductive tp_history :: "'a pool \<Rightarrow> 'a tp_label list \<Rightarrow> 'a pool \<Rightarrow> bool" where
  tp_nil: "tp_history p [] p"
| tp_snoc: "tp_history p ls p1 \<Longrightarrow> tp_step p1 l p2 \<Longrightarrow> tp_history p (ls @ [l]) p2"

fun accepted_of :: "'a tp_label \<Rightarrow> 'a list" where
  "accepted_of (Accepted x) = [x]"
| "accepted_of _ = []"

fun started_of :: "'a tp_label \<Rightarrow> 'a list" where
  "started_of (Started x) = [x]"
| "started_of _ = []"

definition tp_room :: "'a pool \<Rightarrow> nat" where
  "tp_room p = (if 0 < tp_maxQueueSize p then tp_maxQueueSize p - length (tp_queue p) else 0)"

definition tp_inv :: "'a pool \<Rightarrow> bool" where
  "tp_inv p \<longleftrightarrow> enough_ready (tp_takeWait p) (tp_takeReady p) (length (tp_queue p)) \<and>
     enough_ready (tp_runWait p) (tp_runReady p) (tp_room p) \<and>
     (\<forall>t \<in> tp_threads p \<inter> (tp_runWait p \<union> tp_runReady p). \<exists>x. tp_wpc p t = WTask x) \<and>
     (\<forall>t \<in> tp_runWait p \<union> tp_runReady p. tp_arg p t \<noteq> None) \<and>
     (\<forall>t. t \<in> tp_takeWait p \<union> tp_takeReady p \<longleftrightarrow> t \<in> tp_threads p \<and> tp_wpc p t = WTake) \<and>
     (0 < tp_maxQueueSize p \<longrightarrow> length (tp_queue p) \<le> tp_maxQueueSize p) \<and>
     (\<not> tp_running p \<longrightarrow> tp_takeWait p = {} \<and> tp_runWait p = {}) \<and>
     (tp_maxQueueSize p = 0 \<longrightarrow> tp_runWait p = {})"

lemma tp_inv_runs: "tp_inv p \<Longrightarrow> t \<in> tp_threads p \<Longrightarrow> t \<in> tp_runWait p \<union> tp_runReady p \<Longrightarrow> \<exists>x. tp_wpc p t = WTask x"
  unfolding tp_inv_def by blast

lemma tp_inv_takes: "tp_inv p \<Longrightarrow> t \<in> tp_takeWait p \<union> tp_takeReady p \<longleftrightarrow> t \<in> tp_threads p \<and> tp_wpc p t = WTake"
  unfolding tp_inv_def by blast

lemma tp_inv_disjoint: "tp_inv p \<Longrightarrow> t \<in> tp_takeReady p \<Longrightarrow> t \<notin> tp_takeWait p" "tp_inv p \<Longrightarrow> t \<in> tp_runReady p \<Longrightarrow> t \<notin> tp_runWait p"
  unfolding tp_inv_def enough_ready_def by blast+

lemma work_not_run:
  assumes "tp_inv p" "work_section p t"
  shows "t \<notin> tp_runWait p \<union> tp_runReady p \<and> t \<in> tp_threads p \<and> t \<notin> tp_takeWait p"
proof -
  have th: "t \<in> tp_threads p" and pc: "tp_wpc p t = WEnter \<or> t \<in> tp_takeReady p \<and> tp_wpc p t = WTake"
    using assms(2) tp_inv_takes [OF assms(1), of t] by (auto simp: work_section_def)
  from pc have "t \<notin> tp_takeWait p" using tp_inv_disjoint(1) [OF assms(1)] tp_inv_takes [OF assms(1), of t] by auto
  moreover have "t \<notin> tp_runWait p \<union> tp_runReady p" using tp_inv_runs [OF assms(1) th] pc by auto
  ultimately show ?thesis using th by blast
qed

lemma run_not_take:
  assumes "tp_inv p" "run_section p t x"
  shows "t \<notin> tp_takeWait p \<union> tp_takeReady p \<and> t \<notin> tp_runWait p"
  using assms(2) tp_inv_disjoint(2) [OF assms(1), of t] tp_inv_takes [OF assms(1), of t] tp_inv_runs [OF assms(1), of t]
  by (auto simp: run_section_def tp_free_def)

lemma tp_step_inv:
  assumes "tp_step p l p'" "tp_inv p"
  shows "tp_inv p' \<and> tp_maxQueueSize p' = tp_maxQueueSize p \<and> tp_threads p' = tp_threads p"
  using assms(1)
proof cases
  case (tp_run t x W R)
  have e: "enough_ready W R (Suc (length (tp_queue p)))" using enough_notified [OF _ tp_run(6)] assms(2) by (simp add: tp_inv_def)
  have t: "t \<notin> tp_runWait p" using run_not_take [OF assms(2) tp_run(3)] by simp
  have r: "enough_ready (tp_runWait p) (tp_runReady p - {t}) (tp_room p - 1)"
  proof (cases "tp_room p")
    case 0
    then have "tp_maxQueueSize p = 0" using tp_run(5) by (auto simp: tp_room_def isFull_def split: if_splits)
    then show ?thesis using assms(2) by (auto simp: tp_inv_def enough_ready_def)
  next
    case (Suc n)
    then show ?thesis using enough_section [OF _ t] assms(2) by (simp add: tp_inv_def)
  qed
  show ?thesis
    using e r tp_run(2,4,5) notified_union [OF tp_run(6)] assms(2)
    by (auto simp: tp_inv_def tp_room_def isFull_def)
next
  case (tp_run_wait t x)
  have t: "t \<in> tp_threads p \<Longrightarrow> \<exists>x. tp_wpc p t = WTask x"
    using tp_run_wait(3) assms(2) by (auto simp: run_section_def tp_free_def tp_inv_def)
  have "enough_ready (insert t (tp_runWait p)) (tp_runReady p - {t}) 0" using assms(2) enough_block by (auto simp: tp_inv_def)
  moreover have "tp_room p = 0" using tp_run_wait(5) by (auto simp: tp_room_def isFull_def)
  ultimately show ?thesis using tp_run_wait(2,4,5) t assms(2) by (auto simp: tp_inv_def tp_room_def isFull_def)
next
  case (tp_run_refused t x)
  then show ?thesis using assms(2) by (auto simp: tp_inv_def tp_room_def enough_ready_def)
next
  case (tp_loop t)
  have "t \<notin> tp_runWait p \<union> tp_runReady p" using tp_inv_runs [OF assms(2) tp_loop(3)] tp_loop(4) by auto
  then show ?thesis using tp_loop assms(2) by (auto simp: tp_inv_def tp_room_def)
next
  case (tp_take_wait t)
  note w = work_not_run [OF assms(2) tp_take_wait(3)]
  have "enough_ready (insert t (tp_takeWait p)) (tp_takeReady p - {t}) 0" using assms(2) enough_block by (auto simp: tp_inv_def)
  then show ?thesis using tp_take_wait(2,4,5) w assms(2) by (auto simp: tp_inv_def tp_room_def)
next
  case (tp_take_none t)
  note w = work_not_run [OF assms(2) tp_take_none(3)]
  show ?thesis using tp_take_none w assms(2) by (auto simp: tp_inv_def tp_room_def enough_ready_def)
next
  case (tp_take t x xs W R)
  note w = work_not_run [OF assms(2) tp_take(3)]
  have e: "enough_ready (tp_takeWait p) (tp_takeReady p - {t}) (length xs)"
    using enough_section [of "tp_takeWait p" "tp_takeReady p" "length xs" t] w tp_take(4) assms(2) by (simp add: tp_inv_def)
  have u: "W \<union> R = tp_runWait p \<union> tp_runReady p" "tp_runWait p = {} \<Longrightarrow> W = {}"
    using tp_take(5) notified_union [of "tp_runWait p" "tp_runReady p" W R] notified_empty [of "tp_runWait p" "tp_runReady p" W R] by (auto split: if_splits)
  have "enough_ready W R (if 0 < tp_maxQueueSize p then Suc (tp_room p) else 0)"
    using tp_take(5) enough_notified [of "tp_runWait p" "tp_runReady p" "tp_room p" W R] assms(2) by (auto simp: tp_inv_def tp_room_def split: if_splits)
  then have r: "enough_ready W R (tp_room p')"
    by (rule enough_less) (use tp_take(2,4) in \<open>auto simp: tp_room_def\<close>)
  show ?thesis
    using e r u tp_take(2,4) w assms(2) by (auto simp: tp_inv_def)
next
  case (tp_done t x)
  then show ?thesis using assms(2) by (auto simp: tp_inv_def tp_room_def)
next
  case tp_stop
  then show ?thesis
    using assms(2) enough_all [of "tp_takeWait p" "tp_takeReady p"] enough_all [of "tp_runWait p" "tp_runReady p"]
    by (auto simp: tp_inv_def tp_room_def)
next
  case (tp_wake_take t)
  then show ?thesis using assms(2) enough_spurious [of "tp_takeWait p" "tp_takeReady p" _ t] by (auto simp: tp_inv_def tp_room_def)
next
  case (tp_wake_run t)
  then show ?thesis using assms(2) enough_spurious [of "tp_runWait p" "tp_runReady p" _ t] by (auto simp: tp_inv_def tp_room_def)
qed (use assms(2) in \<open>auto simp: tp_inv_def tp_room_def\<close>)

lemma tp_history_inv:
  "tp_history p ls p' \<Longrightarrow> tp_inv p \<Longrightarrow> tp_inv p' \<and> tp_maxQueueSize p' = tp_maxQueueSize p \<and> tp_threads p' = tp_threads p"
  by (induction rule: tp_history.induct) (auto dest: tp_step_inv)

lemma tp_step_fifo: "tp_step p l p' \<Longrightarrow> tp_threads p \<noteq> {} \<Longrightarrow> tp_queue p @ accepted_of l = started_of l @ tp_queue p' \<and> tp_threads p' = tp_threads p"
  by (erule tp_step.cases) auto

lemma tp_history_fifo:
  "tp_history p ls p' \<Longrightarrow> tp_threads p \<noteq> {} \<Longrightarrow>
   tp_queue p @ concat (map accepted_of ls) = concat (map started_of ls) @ tp_queue p' \<and> tp_threads p' = tp_threads p"
proof (induction rule: tp_history.induct)
  case (tp_snoc p ls p1 l p2)
  then have i: "tp_queue p @ concat (map accepted_of ls) = concat (map started_of ls) @ tp_queue p1" "tp_threads p1 = tp_threads p" by simp_all
  have s: "tp_queue p1 @ accepted_of l = started_of l @ tp_queue p2" "tp_threads p2 = tp_threads p1"
    using tp_step_fifo [OF tp_snoc(2)] i(2) tp_snoc(4) by simp_all
  have "tp_queue p @ concat (map accepted_of (ls @ [l])) = (tp_queue p @ concat (map accepted_of ls)) @ accepted_of l" by simp
  also have "\<dots> = concat (map started_of (ls @ [l])) @ tp_queue p2" unfolding i(1) using s(1) by simp
  finally show ?case using s(2) i(2) by simp
qed simp

text \<open>After a stop every worker can leave its loop: its task, if it has one, ends, and at most one more task is taken.\<close>

definition can_exit :: "nat \<Rightarrow> 'a pool \<Rightarrow> bool" where
  "can_exit t p \<longleftrightarrow> (\<exists>ls p'. tp_history p ls p' \<and> tp_wpc p' t = WExit)"

lemma tp_history_Cons: "tp_history p1 ls p2 \<Longrightarrow> tp_step p l p1 \<Longrightarrow> tp_history p (l # ls) p2"
  by (induction rule: tp_history.induct) (metis append_Nil tp_nil tp_snoc, metis append_Cons tp_snoc)

lemma can_exit_step: "tp_step p l p1 \<Longrightarrow> can_exit t p1 \<Longrightarrow> can_exit t p"
  unfolding can_exit_def by (blast intro: tp_history_Cons)

lemma exited: "tp_wpc p t = WExit \<Longrightarrow> can_exit t p"
  unfolding can_exit_def using tp_nil [of p] by blast

lemma exit_loop: "t \<in> tp_threads p \<Longrightarrow> \<not> tp_running p \<Longrightarrow> tp_wpc p t = WLoop \<Longrightarrow> can_exit t p"
  by (rule can_exit_step [OF tp_step.tp_loop]) (auto intro: exited)

lemma exit_task:
  assumes "tp_inv p" "t \<in> tp_threads p" "\<not> tp_running p" "tp_wpc p t = WTask x"
  shows "can_exit t p"
proof -
  have fin: "can_exit t q" if "t \<in> tp_threads q" "\<not> tp_running q" "tp_wpc q t = WTask x" "t \<notin> tp_runWait q \<union> tp_runReady q" for q
    by (rule can_exit_step [OF tp_step.tp_done [OF that(1,3,4)]], rule exit_loop) (use that in auto)
  show ?thesis
  proof (cases "t \<in> tp_runWait p \<union> tp_runReady p")
    case True
    have w: "tp_runWait p = {}" and a: "tp_arg p t \<noteq> None" using assms(1,3) True unfolding tp_inv_def by blast+
    then obtain y where r: "t \<in> tp_runReady p" "tp_arg p t = Some y" using True by auto
    then have "run_section p t y" using assms(2) by (auto simp: run_section_def)
    from tp_step.tp_run_refused [OF this assms(3)] show ?thesis
      by (rule can_exit_step, intro fin) (use assms r w in auto)
  qed (use fin assms in blast)
qed

lemma exit_section:
  assumes i: "tp_inv p" and t: "t \<in> tp_threads p" and r: "\<not> tp_running p" and w: "work_section p t"
  shows "can_exit t p"
proof (cases "tp_queue p")
  case Nil
  from tp_step.tp_take_none [OF w Nil r] show ?thesis by (rule can_exit_step, intro exit_loop) (use t r in simp_all)
next
  case (Cons x xs)
  have "tp_runWait p = {}" using i r by (simp add: tp_inv_def)
  then have n: "if 0 < tp_maxQueueSize p then notified (tp_runWait p) (tp_runReady p) {} (tp_runReady p) else {} = tp_runWait p \<and> tp_runReady p = tp_runReady p"
    by (simp add: notified_def)
  note s = tp_step.tp_take [OF w Cons n]
  show ?thesis
    by (rule can_exit_step [OF s], rule exit_task [OF conjunct1 [OF tp_step_inv [OF s i]], where x = x]) (use t r in simp_all)
qed

lemma workers_exit:
  assumes i: "tp_inv p" and t: "t \<in> tp_threads p" and r: "\<not> tp_running p"
  shows "can_exit t p"
proof (cases "tp_wpc p t")
  case WLoop
  then show ?thesis by (rule exit_loop [OF t r])
next
  case (WTask x)
  then show ?thesis by (rule exit_task [OF i t r])
next
  case WExit
  then show ?thesis by (rule exited)
next
  case WEnter
  then show ?thesis using exit_section [OF i t r] t by (simp add: work_section_def)
next
  case WTake
  then have "t \<in> tp_takeWait p \<union> tp_takeReady p" using tp_inv_takes [OF i, of t] t by simp
  moreover have "tp_takeWait p = {}" using i r by (simp add: tp_inv_def)
  ultimately show ?thesis using exit_section [OF i t r] t by (simp add: work_section_def)
qed

lemma tp_start_inv: "tp_inv (tp_start maxSize n)"
  by (auto simp: tp_inv_def tp_start_def enough_ready_def)

text \<open>
  C34. Thread pools: in every history of a pool, with any number of workers and callers, tasks are started in the order in which they were accepted, none twice, the queue
  stays within its maximum, and no wake-up is lost: while workers wait there are as many workers ready as tasks in the queue, and while callers wait as many ready as free
  places. After \<open>stop\<close> nobody waits, and every worker can leave its loop.
\<close>

theorem thread_pool:
  assumes "tp_history (tp_start maxSize n) ls p"
  shows "(0 < n \<longrightarrow> concat (map accepted_of ls) = concat (map started_of ls) @ tp_queue p) \<and>
    (0 < maxSize \<longrightarrow> length (tp_queue p) \<le> maxSize) \<and>
    (tp_takeWait p \<noteq> {} \<longrightarrow> length (tp_queue p) \<le> card (tp_takeReady p)) \<and>
    (tp_runWait p \<noteq> {} \<longrightarrow> 0 < maxSize \<and> maxSize - length (tp_queue p) \<le> card (tp_runReady p)) \<and>
    (\<not> tp_running p \<longrightarrow> tp_takeWait p = {} \<and> tp_runWait p = {} \<and> (\<forall>t < n. can_exit t p))"
proof -
  have i: "tp_inv p" "tp_maxQueueSize p = maxSize" "tp_threads p = {0..<n}"
    using tp_history_inv [OF assms tp_start_inv] by (simp_all add: tp_start_def)
  have "concat (map accepted_of ls) = concat (map started_of ls) @ tp_queue p" if "0 < n"
    using tp_history_fifo [OF assms] that by (simp add: tp_start_def)
  moreover have "can_exit t p" if "\<not> tp_running p" "t < n" for t using workers_exit [OF i(1)] i(3) that by simp
  ultimately show ?thesis using i(1,2) unfolding tp_inv_def enough_ready_def tp_room_def by auto
qed

text \<open>A worker waits, a caller hands over a task, the worker starts it, and the pool is stopped.\<close>

lemma tp_example: "\<exists>p. tp_history (tp_start 1 1) [Internal, Internal, Accepted (7 :: nat), Started 7, Stopped] p \<and> \<not> tp_running p \<and> tp_queue p = []"
proof -
  let ?s = "\<lambda>q run pc w r. \<lparr>tp_queue = q, tp_maxQueueSize = 1, tp_running = run, tp_threads = {0}, tp_wpc = (\<lambda>_. WLoop)(0 := pc),
     tp_takeWait = w, tp_takeReady = r, tp_runWait = {}, tp_runReady = {}, tp_arg = (\<lambda>_. None)\<rparr> :: nat pool"
  have 1: "tp_step (?s [] True WLoop {} {}) Internal (?s [] True WEnter {} {})"
    using tp_step.tp_loop [of 0 "?s [] True WLoop {} {}"] by simp
  have 2: "tp_step (?s [] True WEnter {} {}) Internal (?s [] True WTake {0} {})"
    using tp_step.tp_take_wait [of "?s [] True WEnter {} {}" 0] by (simp add: work_section_def)
  have 3: "tp_step (?s [] True WTake {0} {}) (Accepted 7) (?s [7] True WTake {} {0})"
    using tp_step.tp_run [of "?s [] True WTake {0} {}" 5 7 "{}" "{0}"] by (simp add: run_section_def tp_free_def isFull_def notified_def)
  have 4: "tp_step (?s [7] True WTake {} {0}) (Started 7) (?s [] True (WTask 7) {} {})"
    using tp_step.tp_take [of "?s [7] True WTake {} {0}" 0 7 "[]" "{}" "{}"] by (simp add: work_section_def notified_def)
  have 5: "tp_step (?s [] True (WTask 7) {} {}) Stopped (?s [] False (WTask 7) {} {})"
    using tp_step.tp_stop [of "?s [] True (WTask 7) {} {}"] by simp
  have "tp_start 1 1 = ?s [] True WLoop {} {}" by (auto simp: tp_start_def)
  then show ?thesis
    using tp_snoc [OF tp_snoc [OF tp_snoc [OF tp_snoc [OF tp_snoc [OF tp_nil 1] 2] 3] 4] 5]
    by (intro exI [of _ "?s [] False (WTask 7) {} {}"]) simp
qed

theorem thread_pool_witness: "\<exists>p :: nat pool. \<not> tp_running p \<and> tp_takeWait p = {} \<and> can_exit 0 p"
proof -
  obtain p where p: "tp_history (tp_start 1 1) [Internal, Internal, Accepted (7 :: nat), Started 7, Stopped] p" "\<not> tp_running p"
    using tp_example by blast
  show ?thesis using thread_pool [OF p(1)] p(2) by (intro exI [of _ p]) simp
qed

end
