(* ===== verification/MuduoHttp.thy ===== *)
theory MuduoHttp
  imports MuduoBuffer HttpMessage "HOL-Library.List_Lexorder" "HOL-Library.Char_ord"
begin

text \<open>
  The HTTP server of the bundled muduo library, under \<open>src/muduo_source_code/muduo/net/http\<close>: \<open>HttpRequest.h\<close>, the parser \<open>HttpContext\<close>,
  \<open>HttpResponse\<close> and the callbacks of \<open>HttpServer\<close>.

  The parser works on the buffer of the connection (theory MuduoBuffer); \<open>None\<close> is a failed assertion or a loop that does not end. The user's callback is a parameter. A
  connection appears as the list of the calls the server makes on it.

  The theory relates the parser to a function on the bytes of the buffer, shows that a request is recognised however its bytes arrive and answered exactly once, and that a
  malformed request line is refused; after it, the parser is in a state in which the next message fails an assertion.
\<close>

section \<open>Requests\<close>

datatype MMethod = kInvalid | kGet | kPost | kHead | kPut | kDelete
datatype MVersion = kUnknown | kHttp10 | kHttp11

record MRequest =
  mr_method :: MMethod
  mr_version :: MVersion
  mr_path :: bytes
  mr_query :: bytes
  mr_receiveTime :: int
  mr_headers :: "(bytes \<times> bytes) list"

definition MRequest_new :: MRequest where
  "MRequest_new = \<lparr>mr_method = kInvalid, mr_version = kUnknown, mr_path = [], mr_query = [], mr_receiveTime = 0, mr_headers = []\<rparr>"

text \<open>\<open>std::map\<close> keeps its keys in order.\<close>

fun header_set :: "bytes \<Rightarrow> bytes \<Rightarrow> (bytes \<times> bytes) list \<Rightarrow> (bytes \<times> bytes) list" where
  "header_set k v [] = [(k, v)]"
| "header_set k v ((k1, v1) # hs) =
     (if k = k1 then (k, v) # hs else if k < k1 then (k, v) # (k1, v1) # hs else (k1, v1) # header_set k v hs)"

definition method_of :: "bytes \<Rightarrow> MMethod" where
  "method_of m =
     (if m = ''GET'' then kGet else if m = ''POST'' then kPost else if m = ''HEAD'' then kHead
      else if m = ''PUT'' then kPut else if m = ''DELETE'' then kDelete else kInvalid)"

definition setMethod :: "bytes \<Rightarrow> MRequest \<Rightarrow> (bool \<times> MRequest) option" where
  "setMethod m r =
     (if mr_method r = kInvalid then Some (method_of m \<noteq> kInvalid, r\<lparr>mr_method := method_of m\<rparr>) else None)"

fun methodString :: "MMethod \<Rightarrow> bytes" where
  "methodString kGet = ''GET''"
| "methodString kPost = ''POST''"
| "methodString kHead = ''HEAD''"
| "methodString kPut = ''PUT''"
| "methodString kDelete = ''DELETE''"
| "methodString kInvalid = ''UNKNOWN''"

definition is_space :: "char \<Rightarrow> bool" where
  "is_space c \<longleftrightarrow> c = CHR '' '' \<or> (9 \<le> code c \<and> code c \<le> 13)"

definition trim_right :: "bytes \<Rightarrow> bytes" where
  "trim_right v = rev (dropWhile is_space (rev v))"

text \<open>\<open>start\<close> to \<open>end\<close> is the line, \<open>colon\<close> the position of the first colon.\<close>

definition MRequest_addHeader :: "bytes \<Rightarrow> nat \<Rightarrow> MRequest \<Rightarrow> MRequest" where
  "MRequest_addHeader line colon r =
     (let field = take colon line;
          v = trim_right (dropWhile is_space (drop (colon + 1) line))
      in r\<lparr>mr_headers := header_set field v (mr_headers r)\<rparr>)"

definition MRequest_getHeader :: "bytes \<Rightarrow> MRequest \<Rightarrow> bytes" where
  "MRequest_getHeader field r = (case map_of (mr_headers r) field of None \<Rightarrow> [] | Some v \<Rightarrow> v)"

section \<open>The parser\<close>

datatype MState = kExpectRequestLine | kExpectHeaders | kExpectBody | kGotAll

record MContext =
  mc_state :: MState
  mc_request :: MRequest

definition MContext_new :: MContext where
  "MContext_new = \<lparr>mc_state = kExpectRequestLine, mc_request = MRequest_new\<rparr>"

definition gotAll :: "MContext \<Rightarrow> bool" where "gotAll c \<longleftrightarrow> mc_state c = kGotAll"

definition MContext_reset :: "MContext \<Rightarrow> MContext" where "MContext_reset c = MContext_new"

definition set_target :: "bytes \<Rightarrow> MRequest \<Rightarrow> MRequest" where
  "set_target target r =
     (case find_index (\<lambda>c. c = CHR ''?'') target of
        Some q \<Rightarrow> r\<lparr>mr_path := take q target, mr_query := drop q target\<rparr>
      | None \<Rightarrow> r\<lparr>mr_path := target\<rparr>)"

definition set_version :: "bytes \<Rightarrow> MRequest \<Rightarrow> bool \<times> MRequest" where
  "set_version v r =
     (if length v = 8 \<and> take 7 v = ''HTTP/1.'' then
        (if last v = CHR ''1'' then (True, r\<lparr>mr_version := kHttp11\<rparr>)
         else if last v = CHR ''0'' then (True, r\<lparr>mr_version := kHttp10\<rparr>)
         else (False, r))
      else (False, r))"

definition processRequestLine :: "bytes \<Rightarrow> MRequest \<Rightarrow> (bool \<times> MRequest) option" where
  "processRequestLine line r =
     (case find_index (\<lambda>c. c = CHR '' '') line of
        None \<Rightarrow> Some (False, r)
      | Some i \<Rightarrow> do {
          (ok, r1) \<leftarrow> setMethod (take i line) r;
          (if \<not> ok then Some (False, r1)
           else
             let rest = drop (i + 1) line
             in case find_index (\<lambda>c. c = CHR '' '') rest of
                  None \<Rightarrow> Some (False, r1)
                | Some j \<Rightarrow> Some (set_version (drop (j + 1) rest) (set_target (take j rest) r1)))
        })"

text \<open>The line up to the next CRLF, if there is one, and its end.\<close>

definition next_line :: "MBuffer \<Rightarrow> ((bytes \<times> nat) option) option" where
  "next_line b = do {
     crlf \<leftarrow> findCRLF b;
     (case crlf of
        None \<Rightarrow> Some None
      | Some p \<Rightarrow> do { line \<leftarrow> mem_read (peek b) (p - peek b) (mb_store b); Some (Some (line, p)) })
   }"

partial_function (option) parse_loop :: "int \<Rightarrow> bool \<Rightarrow> MContext \<Rightarrow> MBuffer \<Rightarrow> (bool \<times> MContext \<times> MBuffer) option" where
  "parse_loop receiveTime ok c b =
     (if mc_state c = kExpectRequestLine then do {
        l \<leftarrow> next_line b;
        (case l of
           None \<Rightarrow> Some (ok, c, b)
         | Some (line, crlf) \<Rightarrow> do {
             (ok1, r) \<leftarrow> processRequestLine line (mc_request c);
             (if ok1 then do {
                b1 \<leftarrow> retrieveUntil (crlf + 2) b;
                parse_loop receiveTime True (c\<lparr>mc_request := r\<lparr>mr_receiveTime := receiveTime\<rparr>, mc_state := kExpectHeaders\<rparr>) b1
              }
              else Some (False, c\<lparr>mc_request := r\<rparr>, b))
           })
      }
      else if mc_state c = kExpectHeaders then do {
        l \<leftarrow> next_line b;
        (case l of
           None \<Rightarrow> Some (ok, c, b)
         | Some (line, crlf) \<Rightarrow>
             (case find_index (\<lambda>x. x = CHR '':'') line of
                Some colon \<Rightarrow> do {
                  b1 \<leftarrow> retrieveUntil (crlf + 2) b;
                  parse_loop receiveTime ok (c\<lparr>mc_request := MRequest_addHeader line colon (mc_request c)\<rparr>) b1
                }
              | None \<Rightarrow> do { b1 \<leftarrow> retrieveUntil (crlf + 2) b; Some (ok, c\<lparr>mc_state := kGotAll\<rparr>, b1) }))
      }
      else parse_loop receiveTime ok c b)"

definition parseRequest :: "int \<Rightarrow> MContext \<Rightarrow> MBuffer \<Rightarrow> (bool \<times> MContext \<times> MBuffer) option" where
  "parseRequest receiveTime c b = parse_loop receiveTime True c b"

section \<open>Responses\<close>

record MResponse =
  ms_headers :: "(bytes \<times> bytes) list"
  ms_statusCode :: int
  ms_statusMessage :: bytes
  ms_closeConnection :: bool
  ms_body :: bytes

definition MResponse_new :: "bool \<Rightarrow> MResponse" where
  "MResponse_new close = \<lparr>ms_headers = [], ms_statusCode = 0, ms_statusMessage = [], ms_closeConnection = close, ms_body = []\<rparr>"

definition MResponse_addHeader :: "bytes \<Rightarrow> bytes \<Rightarrow> MResponse \<Rightarrow> MResponse" where
  "MResponse_addHeader k v r = r\<lparr>ms_headers := header_set k v (ms_headers r)\<rparr>"

definition setContentType :: "bytes \<Rightarrow> MResponse \<Rightarrow> MResponse" where
  "setContentType contentType r = MResponse_addHeader ''Content-Type'' contentType r"

text \<open>Every string is appended through a \<open>StringPiece\<close>. The two formats of \<open>snprintf\<close> are cut at 31 bytes.\<close>

fun append_all :: "bytes list \<Rightarrow> MBuffer \<Rightarrow> MBuffer option" where
  "append_all [] b = Some b"
| "append_all (x # xs) b = do { b1 \<leftarrow> append_piece (StringPiece_string x) b; append_all xs b1 }"

definition response_pieces :: "MResponse \<Rightarrow> bytes list" where
  "response_pieces r =
     [take 31 (''HTTP/1.1 '' @ to_string (ms_statusCode r) @ '' ''), ms_statusMessage r, kCRLF] @
     (if ms_closeConnection r then [''Connection: close'' @ kCRLF]
      else [take 31 (''Content-Length: '' @ to_string (int (length (ms_body r))) @ kCRLF), ''Connection: Keep-Alive'' @ kCRLF]) @
     concat (map (\<lambda>(k, v). [k, '': '', v, kCRLF]) (ms_headers r)) @
     [kCRLF, ms_body r]"

definition appendToBuffer :: "MResponse \<Rightarrow> MBuffer \<Rightarrow> MBuffer option" where
  "appendToBuffer r output = append_all (response_pieces r) output"

section \<open>The server\<close>

datatype conn_call = CSend bytes | CShutdown

definition defaultHttpCallback :: "MRequest \<Rightarrow> MResponse \<Rightarrow> MResponse" where
  "defaultHttpCallback req resp = resp\<lparr>ms_statusCode := 404, ms_statusMessage := ''Not Found'', ms_closeConnection := True\<rparr>"

definition close_requested :: "MRequest \<Rightarrow> bool" where
  "close_requested req \<longleftrightarrow>
     (let connection = MRequest_getHeader ''Connection'' req
      in connection = ''close'' \<or> mr_version req = kHttp10 \<and> connection \<noteq> ''Keep-Alive'')"

definition onRequest :: "(MRequest \<Rightarrow> MResponse \<Rightarrow> MResponse) \<Rightarrow> MRequest \<Rightarrow> conn_call list option" where
  "onRequest httpCallback req =
     (let response = httpCallback req (MResponse_new (close_requested req))
      in do {
        buf \<leftarrow> appendToBuffer response MBuffer_new;
        (out, buf1) \<leftarrow> retrieveAllAsString buf;
        Some (CSend out # (if ms_closeConnection response then [CShutdown] else []))
      })"

text \<open>\<open>onConnection\<close> gives a new connection its context.\<close>

definition MHttp_onConnection :: "bool \<Rightarrow> MContext option \<Rightarrow> MContext option" where
  "MHttp_onConnection connected ctx = (if connected then Some MContext_new else ctx)"

definition MHttp_onMessage ::
  "(MRequest \<Rightarrow> MResponse \<Rightarrow> MResponse) \<Rightarrow> int \<Rightarrow> MContext \<Rightarrow> MBuffer \<Rightarrow> (conn_call list \<times> MContext \<times> MBuffer) option" where
  "MHttp_onMessage httpCallback receiveTime c b = do {
     (ok, c1, b1) \<leftarrow> parseRequest receiveTime c b;
     let calls = (if \<not> ok then [CSend (''HTTP/1.1 400 Bad Request'' @ kCRLF @ kCRLF), CShutdown] else []);
     (if gotAll c1 then do { calls1 \<leftarrow> onRequest httpCallback (mc_request c1); Some (calls @ calls1, MContext_reset c1, b1) }
      else Some (calls, c1, b1))
   }"

section \<open>The parser on bytes\<close>

lemma kCRLF_length [simp]: "length kCRLF = 2" by (simp add: kCRLF_def)

function parse_bytes :: "int \<Rightarrow> MContext \<Rightarrow> bytes \<Rightarrow> (bool \<times> MContext \<times> bytes) option" where
  "parse_bytes time c bs =
     (case find_sub kCRLF bs of
        None \<Rightarrow> (if mc_state c \<in> {kExpectRequestLine, kExpectHeaders} then Some (True, c, bs) else None)
      | Some i \<Rightarrow>
          (if mc_state c = kExpectRequestLine then
             (case processRequestLine (take i bs) (mc_request c) of
                None \<Rightarrow> None
              | Some (ok, r) \<Rightarrow>
                  if ok then parse_bytes time (c\<lparr>mc_request := r\<lparr>mr_receiveTime := time\<rparr>, mc_state := kExpectHeaders\<rparr>) (drop (i + 2) bs)
                  else Some (False, c\<lparr>mc_request := r\<rparr>, bs))
           else if mc_state c = kExpectHeaders then
             (case find_index (\<lambda>x. x = CHR '':'') (take i bs) of
                Some colon \<Rightarrow> parse_bytes time (c\<lparr>mc_request := MRequest_addHeader (take i bs) colon (mc_request c)\<rparr>) (drop (i + 2) bs)
              | None \<Rightarrow> Some (True, c\<lparr>mc_state := kGotAll\<rparr>, drop (i + 2) bs))
           else None))"
  by pat_completeness auto
termination
  by (relation "measure (\<lambda>(_, _, bs). length bs)") (auto dest: find_sub_SomeD simp: kCRLF_def)

declare parse_bytes.simps [simp del]

lemma next_line_eq:
  assumes "mb_inv b"
  shows "next_line b = Some (map_option (\<lambda>i. (take i (contents b), peek b + i)) (find_sub kCRLF (contents b)))"
proof -
  have l: "beginWrite b - peek b = length (contents b)" and w: "peek b \<le> beginWrite b"
    using assms by (simp_all add: length_contents peek_def beginWrite_def mb_inv_def)
  have "findCRLF b = Some (map_option (\<lambda>i. peek b + i) (find_sub kCRLF (contents b)))"
    using read_contents [OF assms order_refl] w l by (simp add: findCRLF_def findCRLF_from_def)
  then show ?thesis
    using read_contents [OF assms] by (auto simp: next_line_def dest: find_sub_SomeD split: option.splits)
qed

lemma retrieveUntil_ok:
  assumes "mb_inv b" "n \<le> length (contents b)"
  obtains b' where "retrieveUntil (peek b + n) b = Some b'" "mb_inv b'" "contents b' = drop n (contents b)"
proof -
  have l: "beginWrite b - peek b = length (contents b)" and w: "peek b \<le> beginWrite b" and s: "length (contents b) < 2 ^ 63"
    using assms(1) by (auto simp: length_contents peek_def beginWrite_def mb_inv_def)
  have "unat (word_of_nat n :: u64) = n" using assms(2) s by (intro unat_word_of_nat_small) simp
  moreover have "peek b + n \<le> beginWrite b" using assms(2) l w by linarith
  ultimately show ?thesis using retrieve_ok [OF assms(1), of "word_of_nat n"] that assms(2) by (auto simp: retrieveUntil_def returns_iff)
qed

text \<open>The parser refines its description on bytes.\<close>

lemma parse_loop_bytes:
  "mb_inv b \<Longrightarrow> mc_state c \<in> {kExpectRequestLine, kExpectHeaders} \<Longrightarrow>
   (case parse_bytes time c (contents b) of
      None \<Rightarrow> parse_loop time True c b = None
    | Some (ok, c', bs) \<Rightarrow> \<exists>b'. parse_loop time True c b = Some (ok, c', b') \<and> mb_inv b' \<and> contents b' = bs)"
proof (induction "length (contents b)" arbitrary: b c rule: less_induct)
  case less
  note nl = next_line_eq [OF less.prems(1)]
  show ?case
  proof (cases "find_sub kCRLF (contents b)")
    case None
    then show ?thesis using nl less.prems by (subst parse_bytes.simps, subst parse_loop.simps) auto
  next
    case (Some i)
    have i: "i + 2 \<le> length (contents b)" using find_sub_SomeD [OF Some] by simp
    obtain b1 where b1: "retrieveUntil (peek b + (i + 2)) b = Some b1" "mb_inv b1" "contents b1 = drop (i + 2) (contents b)"
      using retrieveUntil_ok [OF less.prems(1) i] by blast
    have sm: "length (contents b1) < length (contents b)" using b1(3) i by simp
    have un: "retrieveUntil (peek b + i + 2) b = Some b1" using b1(1) by (simp add: add.assoc)
    show ?thesis
    proof (cases "mc_state c = kExpectRequestLine")
      case True
      show ?thesis
      proof (cases "processRequestLine (take i (contents b)) (mc_request c)")
        case None
        then show ?thesis using nl Some True by (subst parse_bytes.simps, subst parse_loop.simps) simp
      next
        case (Some x)
        obtain ok r where x: "x = (ok, r)" by (cases x)
        let ?c = "c\<lparr>mc_request := r\<lparr>mr_receiveTime := time\<rparr>, mc_state := kExpectHeaders\<rparr>"
        have e: "parse_loop time True c b = (if ok then parse_loop time True ?c b1 else Some (False, c\<lparr>mc_request := r\<rparr>, b))"
          using nl \<open>find_sub kCRLF (contents b) = Some i\<close> True Some x un by (subst parse_loop.simps) simp
        have p: "parse_bytes time c (contents b) = (if ok then parse_bytes time ?c (contents b1) else Some (False, c\<lparr>mc_request := r\<rparr>, contents b))"
          using \<open>find_sub kCRLF (contents b) = Some i\<close> True Some x b1(3) by (subst parse_bytes.simps) simp
        show ?thesis using less.hyps [OF sm b1(2), of ?c] less.prems(1) unfolding e p by (cases ok) simp_all
      qed
    next
      case False
      then have h: "mc_state c = kExpectHeaders" using less.prems(2) by simp
      show ?thesis
      proof (cases "find_index (\<lambda>x. x = CHR '':'') (take i (contents b))")
        case None
        then show ?thesis using nl Some h un b1 by (subst parse_bytes.simps, subst parse_loop.simps) simp
      next
        case (Some colon)
        let ?c = "c\<lparr>mc_request := MRequest_addHeader (take i (contents b)) colon (mc_request c)\<rparr>"
        have e: "parse_loop time True c b = parse_loop time True ?c b1"
          using nl \<open>find_sub kCRLF (contents b) = Some i\<close> h Some un by (subst parse_loop.simps) simp
        have p: "parse_bytes time c (contents b) = parse_bytes time ?c (contents b1)"
          using \<open>find_sub kCRLF (contents b) = Some i\<close> h Some b1(3) by (subst parse_bytes.simps) simp
        show ?thesis using less.hyps [OF sm b1(2), of ?c] h unfolding e p by simp
      qed
    qed
  qed
qed

section \<open>Requests in pieces\<close>

lemma find_sub_append: "find_sub pat xs = Some i \<Longrightarrow> find_sub pat (xs @ ys) = Some i"
proof (induction xs arbitrary: i)
  case (Cons x xs)
  show ?case
  proof (cases "take (length pat) (x # xs) = pat")
    case True
    then have "length pat \<le> length (x # xs)" by (metis length_take min.cobounded1)
    then have "take (length pat) ((x # xs) @ ys) = pat" using True by (simp only: take_append) simp
    then show ?thesis using Cons.prems True by simp
  next
    case False
    then obtain j where j: "find_sub pat xs = Some j" "i = Suc j" using Cons.prems by auto
    then have "length pat \<le> length (x # xs)" using find_sub_SomeD [OF j(1)] by simp
    then have "take (length pat) ((x # xs) @ ys) \<noteq> pat" using False by (simp only: take_append) simp
    then show ?thesis using Cons.IH [OF j(1)] j(2) by simp
  qed
qed (cases ys; simp split: if_splits)

text \<open>Bytes that arrive later are parsed as if they had been there from the start.\<close>

lemma parse_bytes_append:
  "mc_state c \<in> {kExpectRequestLine, kExpectHeaders} \<Longrightarrow>
   parse_bytes time c (xs @ ys) =
     (case parse_bytes time c xs of
        None \<Rightarrow> None
      | Some (ok, c', r) \<Rightarrow> if ok \<and> mc_state c' \<noteq> kGotAll then parse_bytes time c' (r @ ys) else Some (ok, c', r @ ys))"
proof (induction "length xs" arbitrary: xs c rule: less_induct)
  case less
  show ?case
  proof (cases "find_sub kCRLF xs")
    case None
    then show ?thesis using less.prems by (subst (2) parse_bytes.simps) auto
  next
    case (Some i)
    note fa = find_sub_append [OF Some, of ys]
    have i: "i + 2 \<le> length xs" using find_sub_SomeD [OF Some] by simp
    then have t: "take i (xs @ ys) = take i xs" "drop (i + 2) (xs @ ys) = drop (i + 2) xs @ ys" and l: "length (drop (i + 2) xs) < length xs" by simp_all
    show ?thesis
    proof (cases "mc_state c = kExpectRequestLine")
      case True
      show ?thesis
      proof (cases "processRequestLine (take i xs) (mc_request c)")
        case None
        have a: "parse_bytes time c xs = None"
          by (subst parse_bytes.simps) (simp add: \<open>find_sub kCRLF xs = Some i\<close> True None)
        have b: "parse_bytes time c (xs @ ys) = None"
          by (subst parse_bytes.simps) (simp add: fa t True None del: take_append drop_append)
        show ?thesis unfolding a b by simp
      next
        case (Some x)
        obtain ok r where x: "x = (ok, r)" by (cases x)
        let ?c = "c\<lparr>mc_request := r\<lparr>mr_receiveTime := time\<rparr>, mc_state := kExpectHeaders\<rparr>"
        have a: "parse_bytes time c xs = (if ok then parse_bytes time ?c (drop (i + 2) xs) else Some (False, c\<lparr>mc_request := r\<rparr>, xs))"
          using \<open>find_sub kCRLF xs = Some i\<close> True Some x by (subst parse_bytes.simps) simp
        have b: "parse_bytes time c (xs @ ys) = (if ok then parse_bytes time ?c (drop (i + 2) xs @ ys) else Some (False, c\<lparr>mc_request := r\<rparr>, xs @ ys))"
          by (subst parse_bytes.simps) (simp add: fa t True Some x del: take_append drop_append add_2_eq_Suc')
        show ?thesis using less.hyps [OF l, of ?c] unfolding a b by (cases ok) simp_all
      qed
    next
      case False
      then have h: "mc_state c = kExpectHeaders" using less.prems by simp
      show ?thesis
      proof (cases "find_index (\<lambda>x. x = CHR '':'') (take i xs)")
        case None
        have a: "parse_bytes time c xs = Some (True, c\<lparr>mc_state := kGotAll\<rparr>, drop (i + 2) xs)"
          by (subst parse_bytes.simps) (simp add: \<open>find_sub kCRLF xs = Some i\<close> h None)
        have b: "parse_bytes time c (xs @ ys) = Some (True, c\<lparr>mc_state := kGotAll\<rparr>, drop (i + 2) xs @ ys)"
          by (subst parse_bytes.simps) (simp add: fa t h None del: take_append drop_append add_2_eq_Suc')
        show ?thesis unfolding a b by simp
      next
        case (Some colon)
        let ?c = "c\<lparr>mc_request := MRequest_addHeader (take i xs) colon (mc_request c)\<rparr>"
        have a: "parse_bytes time c xs = parse_bytes time ?c (drop (i + 2) xs)"
          using \<open>find_sub kCRLF xs = Some i\<close> h Some by (subst parse_bytes.simps) simp
        have b: "parse_bytes time c (xs @ ys) = parse_bytes time ?c (drop (i + 2) xs @ ys)"
          by (subst parse_bytes.simps) (simp add: fa t h Some del: take_append drop_append add_2_eq_Suc')
        show ?thesis using less.hyps [OF l, of ?c] h unfolding a b by simp
      qed
    qed
  qed
qed

lemma parse_bytes_state:
  "parse_bytes time c xs = Some (ok, c', r) \<Longrightarrow> (ok \<longrightarrow> mc_state c' \<in> {kExpectRequestLine, kExpectHeaders, kGotAll}) \<and> length r \<le> length xs"
proof (induction time c xs arbitrary: ok c' r rule: parse_bytes.induct)
  case (1 time c bs)
  show ?case
    using 1(3) 1(1,2) by (subst (asm) parse_bytes.simps) (fastforce split: option.splits if_splits prod.splits)
qed

section \<open>Well-formed requests\<close>

record mtext =
  mt_method :: MMethod
  mt_target :: bytes
  mt_http11 :: bool
  mt_headers :: "(bytes \<times> bytes) list"

definition m_header_line :: "bytes \<times> bytes \<Rightarrow> bytes" where
  "m_header_line h = fst h @ '': '' @ snd h"

definition m_request_line :: "mtext \<Rightarrow> bytes" where
  "m_request_line m = methodString (mt_method m) @ '' '' @ mt_target m @ '' '' @ (if mt_http11 m then ''HTTP/1.1'' else ''HTTP/1.0'')"

definition m_request_text :: "mtext \<Rightarrow> bytes" where
  "m_request_text m = m_request_line m @ kCRLF @ concat (map (\<lambda>h. m_header_line h @ kCRLF) (mt_headers m)) @ kCRLF"

definition trimmed :: "bytes \<Rightarrow> bool" where
  "trimmed v \<longleftrightarrow> v = [] \<or> \<not> is_space (hd v) \<and> \<not> is_space (last v)"

definition mtext_ok :: "mtext \<Rightarrow> bool" where
  "mtext_ok m \<longleftrightarrow> mt_method m \<noteq> kInvalid \<and> CHR '' '' \<notin> set (mt_target m) \<and> CHR 0x0D \<notin> set (mt_target m) \<and>
     list_all (\<lambda>(k, v). CHR '':'' \<notin> set k \<and> CHR 0x0D \<notin> set k \<and> CHR 0x0D \<notin> set v \<and> trimmed v) (mt_headers m)"

text \<open>The request a text stands for.\<close>

definition the_request :: "int \<Rightarrow> mtext \<Rightarrow> MRequest" where
  "the_request time m =
     (set_target (mt_target m) MRequest_new)
       \<lparr>mr_method := mt_method m, mr_version := (if mt_http11 m then kHttp11 else kHttp10), mr_receiveTime := time,
        mr_headers := fold (\<lambda>(k, v) hs. header_set k v hs) (mt_headers m) []\<rparr>"

lemma find_line: "CHR 0x0D \<notin> set l \<Longrightarrow> find_sub kCRLF (l @ kCRLF @ rest) = Some (length l)"
proof (induction l)
  case (Cons x l)
  then have "take 2 (x # l @ kCRLF @ rest) \<noteq> kCRLF" by (auto simp: kCRLF_def)
  with Cons show ?case by simp
qed (simp add: kCRLF_def)

lemma split_line: "take (length l) (l @ kCRLF @ rest) = l" "drop (length l + 2) (l @ kCRLF @ rest) = rest"
  by (simp_all add: kCRLF_def)

lemma parse_bytes_line:
  assumes "CHR 0x0D \<notin> set l" "mc_state c = kExpectRequestLine" "processRequestLine l (mc_request c) = Some (True, r)"
  shows "parse_bytes time c (l @ kCRLF @ rest) = parse_bytes time (c\<lparr>mc_request := r\<lparr>mr_receiveTime := time\<rparr>, mc_state := kExpectHeaders\<rparr>) rest"
  by (subst parse_bytes.simps) (simp only: find_line [OF assms(1)] option.case assms(2,3) prod.case if_True split_line simp_thms)

lemma find_char: "c \<notin> set xs \<Longrightarrow> find_index (\<lambda>x. x = c) (xs @ c # ys) = Some (length xs)"
  by (induction xs) auto

lemma find_no_char: "c \<notin> set xs \<Longrightarrow> find_index (\<lambda>x. x = c) xs = None"
  by (induction xs) auto

lemma method_string:
  assumes "m \<noteq> kInvalid"
  shows "method_of (methodString m) = m" "CHR '' '' \<notin> set (methodString m)" "CHR 0x0D \<notin> set (methodString m)"
  using assms by (cases m; simp add: method_of_def)+

lemma set_target_other: "set_target tgt (r\<lparr>mr_method := m\<rparr>) = (set_target tgt r)\<lparr>mr_method := m\<rparr>"
  by (simp add: set_target_def split: option.splits)

lemma processRequestLine_ok:
  assumes "mtext_ok m" "mr_method r = kInvalid"
  shows "processRequestLine (m_request_line m) r =
    Some (True, (set_target (mt_target m) r)\<lparr>mr_method := mt_method m, mr_version := (if mt_http11 m then kHttp11 else kHttp10)\<rparr>)"
proof -
  let ?v = "if mt_http11 m then ''HTTP/1.1'' else ''HTTP/1.0''"
  have m: "mt_method m \<noteq> kInvalid" "CHR '' '' \<notin> set (mt_target m)" using assms(1) by (simp_all add: mtext_ok_def)
  have 1: "find_index (\<lambda>c. c = CHR '' '') (m_request_line m) = Some (length (methodString (mt_method m)))"
    using find_char [OF method_string(2) [OF m(1)]] by (simp add: m_request_line_def)
  have 2: "find_index (\<lambda>c. c = CHR '' '') (mt_target m @ '' '' @ ?v) = Some (length (mt_target m))"
    using find_char [OF m(2)] by simp
  have d: "drop (length (methodString (mt_method m)) + 1) (m_request_line m) = mt_target m @ '' '' @ ?v"
    "take (length (methodString (mt_method m))) (m_request_line m) = methodString (mt_method m)"
    by (simp_all add: m_request_line_def)
  have sv: "set_version ?v q = (True, q\<lparr>mr_version := (if mt_http11 m then kHttp11 else kHttp10)\<rparr>)" for q
    by (simp add: set_version_def)
  show ?thesis
    unfolding processRequestLine_def 1 option.case d setMethod_def assms(2) method_string(1) [OF m(1)]
    using m(1) 2 sv by (simp add: set_target_other)
qed

lemma trim_trimmed: "trimmed v \<Longrightarrow> trim_right (dropWhile is_space (CHR '' '' # v)) = v"
proof (cases v rule: rev_cases)
  case (snoc ys y)
  assume "trimmed v"
  then have "dropWhile is_space v = v" "\<not> is_space y" using snoc by (auto simp: trimmed_def dropWhile_eq_self_iff)
  moreover have "is_space (CHR '' '')" by (simp add: is_space_def)
  ultimately show ?thesis using snoc by (simp add: trim_right_def)
qed (simp add: trim_right_def is_space_def)

lemma addHeader_line:
  assumes "CHR '':'' \<notin> set k" "trimmed v"
  shows "find_index (\<lambda>x. x = CHR '':'') (m_header_line (k, v)) = Some (length k)"
    and "MRequest_addHeader (m_header_line (k, v)) (length k) r = r\<lparr>mr_headers := header_set k v (mr_headers r)\<rparr>"
  using find_char [OF assms(1)] trim_trimmed [OF assms(2)] by (simp_all add: m_header_line_def MRequest_addHeader_def Let_def)

lemma parse_headers:
  "mc_state c = kExpectHeaders \<Longrightarrow>
   list_all (\<lambda>(k, v). CHR '':'' \<notin> set k \<and> CHR 0x0D \<notin> set k \<and> CHR 0x0D \<notin> set v \<and> trimmed v) hs \<Longrightarrow>
   parse_bytes time c (concat (map (\<lambda>h. m_header_line h @ kCRLF) hs) @ kCRLF @ rest) =
     Some (True, c\<lparr>mc_state := kGotAll, mc_request := (mc_request c)\<lparr>mr_headers := fold (\<lambda>(k, v) hs. header_set k v hs) hs (mr_headers (mc_request c))\<rparr>\<rparr>, rest)"
proof (induction hs arbitrary: c)
  case Nil
  have "find_sub kCRLF (kCRLF @ rest) = Some 0" using find_line [of "[]"] by simp
  then show ?case using Nil by (subst parse_bytes.simps) (simp add: kCRLF_def)
next
  case (Cons h hs)
  obtain k v where h: "h = (k, v)" by (cases h)
  let ?rest = "concat (map (\<lambda>h. m_header_line h @ kCRLF) hs) @ kCRLF @ rest"
  have k: "CHR '':'' \<notin> set k" "trimmed v" "CHR 0x0D \<notin> set (m_header_line (k, v))" using Cons.prems(2) h by (auto simp: m_header_line_def)
  let ?c = "c\<lparr>mc_request := (mc_request c)\<lparr>mr_headers := header_set k v (mr_headers (mc_request c))\<rparr>\<rparr>"
  have "parse_bytes time c (m_header_line (k, v) @ kCRLF @ ?rest) = parse_bytes time ?c ?rest"
    using find_line [OF k(3), of ?rest] Cons.prems(1) addHeader_line [OF k(1,2)]
    by (subst parse_bytes.simps) (simp add: kCRLF_def)
  then show ?case using Cons.IH [of ?c] Cons.prems h by simp
qed

lemma parse_request:
  assumes "mtext_ok m"
  shows "parse_bytes time MContext_new (m_request_text m @ rest) = Some (True, \<lparr>mc_state = kGotAll, mc_request = the_request time m\<rparr>, rest)"
proof -
  let ?hs = "concat (map (\<lambda>h. m_header_line h @ kCRLF) (mt_headers m)) @ kCRLF @ rest"
  have cr: "CHR 0x0D \<notin> set (m_request_line m)"
    using assms method_string(3) [of "mt_method m"] by (auto simp: mtext_ok_def m_request_line_def)
  have p: "processRequestLine (m_request_line m) MRequest_new =
    Some (True, (set_target (mt_target m) MRequest_new)\<lparr>mr_method := mt_method m, mr_version := (if mt_http11 m then kHttp11 else kHttp10)\<rparr>)"
    by (rule processRequestLine_ok [OF assms]) (simp add: MRequest_new_def)
  let ?r = "(set_target (mt_target m) MRequest_new)\<lparr>mr_method := mt_method m, mr_version := (if mt_http11 m then kHttp11 else kHttp10)\<rparr>"
  let ?c = "MContext_new\<lparr>mc_request := ?r\<lparr>mr_receiveTime := time\<rparr>, mc_state := kExpectHeaders\<rparr>"
  have "parse_bytes time MContext_new (m_request_line m @ kCRLF @ ?hs) = parse_bytes time ?c ?hs"
    by (rule parse_bytes_line [OF cr]) (use p in \<open>simp_all add: MContext_new_def\<close>)
  also have "\<dots> = Some (True, ?c\<lparr>mc_state := kGotAll, mc_request := (mc_request ?c)\<lparr>mr_headers :=
      fold (\<lambda>(k, v) hs. header_set k v hs) (mt_headers m) (mr_headers (mc_request ?c))\<rparr>\<rparr>, rest)"
    by (rule parse_headers) (use assms in \<open>simp_all add: mtext_ok_def\<close>)
  also have "mr_headers (mc_request ?c) = []" by (simp add: set_target_def MRequest_new_def split: option.splits)
  finally have "parse_bytes time MContext_new (m_request_line m @ kCRLF @ ?hs) =
      Some (True, \<lparr>mc_state = kGotAll, mc_request = the_request time m\<rparr>, rest)"
    by (simp add: the_request_def MContext_new_def)
  then show ?thesis by (simp add: m_request_text_def)
qed

section \<open>The service\<close>

text \<open>A connection delivers its input in pieces; each is appended to the buffer before \<open>onMessage\<close> is called.\<close>

fun m_feed :: "(MRequest \<Rightarrow> MResponse \<Rightarrow> MResponse) \<Rightarrow> int \<Rightarrow> bytes list \<Rightarrow> MContext \<Rightarrow> MBuffer \<Rightarrow> (conn_call list \<times> MContext \<times> MBuffer) option" where
  "m_feed cb time [] c b = Some ([], c, b)"
| "m_feed cb time (x # xs) c b = do {
     b1 \<leftarrow> append_string x b;
     (calls, c2, b2) \<leftarrow> MHttp_onMessage cb time c b1;
     (calls1, c3, b3) \<leftarrow> m_feed cb time xs c2 b2;
     Some (calls @ calls1, c3, b3)
   }"

lemma append_all_ok:
  "mb_inv b \<Longrightarrow> length (contents b) + 2 * length (concat xs) \<le> 2 ^ 62 \<Longrightarrow> \<forall>x \<in> set xs. length x < 2 ^ 31 \<Longrightarrow>
   returns (append_all xs b) (\<lambda>b'. mb_inv b' \<and> contents b' = contents b @ concat xs)"
proof (induction xs arbitrary: b)
  case (Cons x xs)
  obtain b1 where b1: "append_string x b = Some b1" "mb_inv b1" "contents b1 = contents b @ x"
    using append_string_ok [of b x] Cons.prems by (auto simp: returns_iff)
  then show ?case using Cons.IH [OF b1(2)] Cons.prems(2,3) by (simp add: append_piece_string)
qed simp

definition m_response_text :: "(MRequest \<Rightarrow> MResponse \<Rightarrow> MResponse) \<Rightarrow> MRequest \<Rightarrow> bytes" where
  "m_response_text cb req = concat (response_pieces (cb req (MResponse_new (close_requested req))))"

definition m_answer :: "(MRequest \<Rightarrow> MResponse \<Rightarrow> MResponse) \<Rightarrow> MRequest \<Rightarrow> conn_call list" where
  "m_answer cb req = CSend (m_response_text cb req) #
     (if ms_closeConnection (cb req (MResponse_new (close_requested req))) then [CShutdown] else [])"

text \<open>Responses whose strings have less than \<open>2\<^sup>3\<^sup>1\<close> bytes each and \<open>2\<^sup>6\<^sup>1\<close> bytes in all.\<close>

definition response_fits :: "(MRequest \<Rightarrow> MResponse \<Rightarrow> MResponse) \<Rightarrow> MRequest \<Rightarrow> bool" where
  "response_fits cb req \<longleftrightarrow> (\<forall>x \<in> set (response_pieces (cb req (MResponse_new (close_requested req)))). length x < 2 ^ 31) \<and>
     2 * length (m_response_text cb req) \<le> 2 ^ 62"

lemma onRequest_eq:
  assumes "response_fits cb req"
  shows "onRequest cb req = Some (m_answer cb req)"
proof -
  let ?p = "response_pieces (cb req (MResponse_new (close_requested req)))"
  obtain b where b: "append_all ?p MBuffer_new = Some b" "mb_inv b" "contents b = concat ?p"
    using append_all_ok [of MBuffer_new ?p] assms by (auto simp: response_fits_def m_response_text_def returns_iff)
  obtain xs b' where "retrieveAllAsString b = Some (xs, b')" "xs = concat ?p"
    using retrieveAsString_ok [OF b(2), of "readableBytes b"] b(2,3) by (auto simp: retrieveAllAsString_def unat_readableBytes returns_iff)
  then show ?thesis using b(1) by (simp add: onRequest_def appendToBuffer_def m_answer_def m_response_text_def)
qed

lemma onMessage_eq:
  assumes "mb_inv b" "mc_state c \<in> {kExpectRequestLine, kExpectHeaders}" "parse_bytes time c (contents b) = Some (ok, c1, r)"
    and "gotAll c1 \<Longrightarrow> response_fits cb (mc_request c1)"
  obtains b1 where "mb_inv b1" "contents b1 = r"
    "MHttp_onMessage cb time c b =
       Some ((if \<not> ok then [CSend (''HTTP/1.1 400 Bad Request'' @ kCRLF @ kCRLF), CShutdown] else []) @
             (if gotAll c1 then m_answer cb (mc_request c1) else []), if gotAll c1 then MContext_new else c1, b1)"
proof -
  obtain b1 where b1: "parse_loop time True c b = Some (ok, c1, b1)" "mb_inv b1" "contents b1 = r"
    using parse_loop_bytes [OF assms(1,2), of time] assms(3) by auto
  then show ?thesis
    using that [OF b1(2,3)] onRequest_eq [of cb "mc_request c1"] assms(4)
    by (simp add: MHttp_onMessage_def parseRequest_def MContext_reset_def)
qed

lemma deliver_ok:
  assumes "response_fits cb (mc_request cG)" "mc_state cG = kGotAll"
  shows "mb_inv b \<Longrightarrow> mc_state c \<in> {kExpectRequestLine, kExpectHeaders} \<Longrightarrow> xs \<noteq> [] \<Longrightarrow> last xs \<noteq> [] \<Longrightarrow>
    length (contents b) + 2 * length (concat xs) \<le> 2 ^ 62 \<Longrightarrow>
    parse_bytes time c (contents b @ concat xs) = Some (True, cG, []) \<Longrightarrow>
    returns (m_feed cb time xs c b) (\<lambda>(calls, c', b'). calls = m_answer cb (mc_request cG) \<and> c' = MContext_new \<and> mb_inv b' \<and> contents b' = [])"
proof (induction xs arbitrary: c b)
  case (Cons x xs)
  obtain b1 where b1: "append_string x b = Some b1" "mb_inv b1" "contents b1 = contents b @ x"
    using append_string_ok [of b x] Cons.prems(1,5) by (auto simp: returns_iff)
  show ?case
  proof (cases "xs = []")
    case True
    then have p: "parse_bytes time c (contents b1) = Some (True, cG, [])" using Cons.prems(6) b1(3) by simp
    obtain b2 where "mb_inv b2" "contents b2 = []" "MHttp_onMessage cb time c b1 = Some (m_answer cb (mc_request cG), MContext_new, b2)"
      using onMessage_eq [OF b1(2) Cons.prems(2) p, of cb] assms by (auto simp: gotAll_def)
    then show ?thesis using b1(1) True by simp
  next
    case False
    have ne: "concat xs \<noteq> []" using False Cons.prems(4) by (auto simp: last_in_set)
    have e: "parse_bytes time c (contents b1 @ concat xs) = Some (True, cG, [])" using Cons.prems(6) b1(3) by simp
    obtain c' r where p: "parse_bytes time c (contents b1) = Some (True, c', r)" "mc_state c' \<noteq> kGotAll"
      "parse_bytes time c' (r @ concat xs) = Some (True, cG, [])"
      using e ne unfolding parse_bytes_append [OF Cons.prems(2), of time "contents b1" "concat xs"]
      by (auto split: option.splits prod.splits if_splits)
    have st: "mc_state c' \<in> {kExpectRequestLine, kExpectHeaders}" "length r \<le> length (contents b1)"
      using parse_bytes_state [OF p(1)] p(2) by auto
    obtain b2 where b2: "mb_inv b2" "contents b2 = r" "MHttp_onMessage cb time c b1 = Some ([], c', b2)"
      using onMessage_eq [OF b1(2) Cons.prems(2) p(1), of cb] p(2) by (auto simp: gotAll_def)
    have sz: "length (contents b2) + 2 * length (concat xs) \<le> 2 ^ 62" using Cons.prems(5) b1(3) b2(2) st(2) by simp
    have ls: "last xs \<noteq> []" using Cons.prems(4) False by simp
    have "parse_bytes time c' (contents b2 @ concat xs) = Some (True, cG, [])" using p(3) b2(2) by simp
    from Cons.IH [OF b2(1) st(1) False ls sz this] show ?thesis using b1(1) b2(3) by (auto simp: returns_iff)
  qed
qed simp

text \<open>
  C32. HTTP requests of the bundled server: a well-formed request, with any method, target, version and headers, is recognised
  however its bytes arrive in pieces; its method, path, query, version and headers reach the callback exactly once, when its last byte has
  arrived, the response is sent, and the connection is shut down exactly if the response asks for it; the parser is then ready for the next request. The
  strings of the response (status message, header names and values, body) have less than \<open>2\<^sup>3\<^sup>1\<close> bytes each: they are appended with a length of
  type \<open>int\<close>.
\<close>

theorem muduo_http_service:
  assumes "mtext_ok m" and "concat pieces = m_request_text m" and "last pieces \<noteq> []"
    and "2 * length (m_request_text m) \<le> 2 ^ 62" and "response_fits cb (the_request time m)"
  shows "returns (m_feed cb time pieces MContext_new MBuffer_new)
    (\<lambda>(calls, c, b). calls = m_answer cb (the_request time m) \<and> c = MContext_new \<and> contents b = [])"
proof -
  let ?g = "\<lparr>mc_state = kGotAll, mc_request = the_request time m\<rparr>"
  have "parse_bytes time MContext_new (contents MBuffer_new @ concat pieces) = Some (True, ?g, [])"
    using parse_request [OF assms(1), of time "[]"] assms(2) by simp
  moreover have "pieces \<noteq> []" using assms(2) by (auto simp: m_request_text_def kCRLF_def)
  ultimately have "returns (m_feed cb time pieces MContext_new MBuffer_new)
      (\<lambda>(calls, c', b'). calls = m_answer cb (mc_request ?g) \<and> c' = MContext_new \<and> mb_inv b' \<and> contents b' = [])"
    using assms(2-5) by (intro deliver_ok) (simp_all add: MContext_new_def)
  then show ?thesis by (rule returns_mono) auto
qed

definition example_text :: mtext where
  "example_text = \<lparr>mt_method = kGet, mt_target = ''/a?b=1'', mt_http11 = True, mt_headers = [(''Host'', ''x'')]\<rparr>"

theorem muduo_http_service_witness:
  "returns (m_feed defaultHttpCallback 5 [take 7 (m_request_text example_text), drop 7 (m_request_text example_text)] MContext_new MBuffer_new)
     (\<lambda>(calls, c, b). calls = [CSend (''HTTP/1.1 404 Not Found'' @ kCRLF @ ''Connection: close'' @ kCRLF @ kCRLF), CShutdown])"
proof -
  have a: "mtext_ok example_text" by code_simp
  have l: "last [take 7 (m_request_text example_text), drop 7 (m_request_text example_text)] \<noteq> []" by code_simp
  have "length (m_request_text example_text) \<le> 100" by code_simp
  then have s: "2 * length (m_request_text example_text) \<le> 2 ^ 62" by simp
  have r: "m_response_text defaultHttpCallback (the_request 5 example_text) = ''HTTP/1.1 404 Not Found'' @ kCRLF @ ''Connection: close'' @ kCRLF @ kCRLF"
    by code_simp
  have c: "ms_closeConnection (defaultHttpCallback (the_request 5 example_text) (MResponse_new (close_requested (the_request 5 example_text))))"
    by (simp add: defaultHttpCallback_def)
  have q: "concat [take 7 (m_request_text example_text), drop 7 (m_request_text example_text)] = m_request_text example_text" by simp
  have "\<forall>x \<in> set (response_pieces (defaultHttpCallback (the_request 5 example_text) (MResponse_new (close_requested (the_request 5 example_text))))). length x < 100"
    by code_simp
  then have "response_fits defaultHttpCallback (the_request 5 example_text)" unfolding response_fits_def r by (fastforce simp: kCRLF_def)
  from muduo_http_service [OF a q l s this] show ?thesis
    by (rule returns_mono) (use r c in \<open>auto simp: m_answer_def\<close>)
qed

text \<open>One call of \<open>onMessage\<close> answers one request: what follows it in the buffer waits until more bytes arrive.\<close>

lemma pipelined_waits:
  assumes "mtext_ok m" "mb_inv b" "contents b = m_request_text m @ m_request_text m1" "response_fits cb (the_request time m)"
  obtains b1 where "MHttp_onMessage cb time MContext_new b = Some (m_answer cb (the_request time m), MContext_new, b1)" "contents b1 = m_request_text m1"
proof -
  have "parse_bytes time MContext_new (contents b) = Some (True, \<lparr>mc_state = kGotAll, mc_request = the_request time m\<rparr>, m_request_text m1)"
    using parse_request [OF assms(1)] assms(3) by simp
  from onMessage_eq [OF assms(2) _ this, of cb] show ?thesis
    using that assms(4) by (auto simp: gotAll_def MContext_new_def)
qed

text \<open>
  C40. Malformed request lines: a line that names a known method but has no proper version is answered with status 400 and a shutdown, and the input stays in the
  buffer. The parser keeps the method it has read: whatever the peer sends next, the assertion that the method is still unset fails.
\<close>

theorem muduo_http_bad_request:
  assumes "mb_inv b" and "contents b = line @ kCRLF @ rest" and "CHR 0x0D \<notin> set line"
    and "processRequestLine line MRequest_new = Some (False, r)" and "mr_method r \<noteq> kInvalid"
    and "length (contents b) + 2 * length nxt \<le> 2 ^ 62"
  shows "\<exists>c b1. MHttp_onMessage cb time MContext_new b = Some ([CSend (''HTTP/1.1 400 Bad Request'' @ kCRLF @ kCRLF), CShutdown], c, b1) \<and>
    contents b1 = contents b \<and>
    (\<exists>b2. append_string nxt b1 = Some b2 \<and> MHttp_onMessage cb time2 c b2 = None)"
proof -
  let ?c = "MContext_new\<lparr>mc_request := r\<rparr>"
  have st: "mc_state MContext_new \<in> {kExpectRequestLine, kExpectHeaders}" "mc_state ?c \<in> {kExpectRequestLine, kExpectHeaders}" "\<not> gotAll ?c"
    by (simp_all add: MContext_new_def gotAll_def)
  have "parse_bytes time MContext_new (contents b) = Some (False, ?c, contents b)"
    using assms(4) unfolding assms(2)
    by (subst parse_bytes.simps) (simp add: find_line [OF assms(3)] split_line [simplified] MContext_new_def)
  from onMessage_eq [OF assms(1) st(1) this, of cb] st(3) obtain b1 where b1: "mb_inv b1" "contents b1 = contents b"
    "MHttp_onMessage cb time MContext_new b = Some ([CSend (''HTTP/1.1 400 Bad Request'' @ kCRLF @ kCRLF), CShutdown], ?c, b1)"
    by auto
  obtain b2 where b2: "append_string nxt b1 = Some b2" "mb_inv b2" "contents b2 = line @ kCRLF @ rest @ nxt"
    using append_string_ok [OF b1(1), of nxt] b1(2) assms(2,6) by (auto simp: returns_iff)
  obtain i where "find_index (\<lambda>c. c = CHR '' '') line = Some i"
    using assms(4,5) by (auto simp: processRequestLine_def MRequest_new_def split: option.splits)
  then have "processRequestLine line r = None" using assms(5) by (simp add: processRequestLine_def setMethod_def)
  then have "parse_bytes time2 ?c (contents b2) = None"
    unfolding b2(3) by (subst parse_bytes.simps) (simp add: find_line [OF assms(3)] split_line [simplified] MContext_new_def)
  then have "MHttp_onMessage cb time2 ?c b2 = None"
    using parse_loop_bytes [OF b2(2) st(2), of time2] by (simp add: MHttp_onMessage_def parseRequest_def)
  then show ?thesis using b1 b2(1) by blast
qed

theorem muduo_http_bad_request_witness:
  "\<exists>b c b1 b2. contents b = ''GET / HTTP/2.0'' @ kCRLF \<and>
     MHttp_onMessage defaultHttpCallback 1 MContext_new b = Some ([CSend (''HTTP/1.1 400 Bad Request'' @ kCRLF @ kCRLF), CShutdown], c, b1) \<and>
     append_string ''x'' b1 = Some b2 \<and> MHttp_onMessage defaultHttpCallback 2 c b2 = None"
proof -
  let ?l = "''GET / HTTP/2.0''"
  obtain b where b: "mb_inv b" "contents b = ?l @ kCRLF @ []"
    using append_string_ok [of MBuffer_new "?l @ kCRLF"] by (auto simp: returns_iff kCRLF_def)
  have p: "processRequestLine ?l MRequest_new = Some (False, MRequest_new\<lparr>mr_method := kGet, mr_path := ''/''\<rparr>)" by code_simp
  have "\<exists>c b1. MHttp_onMessage defaultHttpCallback 1 MContext_new b = Some ([CSend (''HTTP/1.1 400 Bad Request'' @ kCRLF @ kCRLF), CShutdown], c, b1) \<and>
    contents b1 = contents b \<and> (\<exists>b2. append_string ''x'' b1 = Some b2 \<and> MHttp_onMessage defaultHttpCallback 2 c b2 = None)"
    by (rule muduo_http_bad_request [OF b _ p]) (use b(2) in \<open>simp_all add: kCRLF_def\<close>)
  then show ?thesis using b(2) by (metis append_Nil2)
qed

end
