(* ===== verification/Spec2Isabelle.thy ===== *)
theory Spec2Isabelle
  imports HttpRouting TcpServer Echo AnyHolder MuduoTcpConnection MuduoTcpServer MuduoTcpClient MuduoTimerQueue MuduoZoneFile
    MuduoLogging MuduoAsyncLogging MuduoThreadPool MuduoHttp
begin

text \<open>
  A verification library for a high-concurrency HTTP server in C++ and for parts of the network library muduo
  that is bundled with it.

  \<^bold>\<open>The program.\<close> \<open>src/http-v1/source/server.hpp\<close> is a reactor: every \<open>EventLoop\<close> runs in one thread, waits with its
  \<open>Poller\<close> for events of descriptors, calls the handlers of the \<open>Channel\<close>s that became ready and then runs the tasks
  that other threads have queued for it. A \<open>TcpServer\<close> accepts connections in its base loop (\<open>Acceptor\<close>) and hands each of
  them to a loop of its pool (\<open>LoopThreadPool\<close>); from then on the \<open>Connection\<close> is changed in the thread of that loop only. A
  connection has an input and an output \<open>Buffer\<close>, a state, a context of type \<open>Any\<close> and callbacks; idle connections are
  closed by the \<open>TimerWheel\<close> of the loop. \<open>src/http-v1/source/http/http.hpp\<close> builds an HTTP server on it: \<open>HttpContext\<close> parses
  requests incrementally from the input buffer, \<open>HttpServer\<close> routes them to handlers or static files and writes the
  responses. \<open>src/http-v1/source/http/HttpServer.cc\<close> and \<open>src/http-v1/source/echo/echo.hpp\<close> are two programs on top.
  \<open>src/muduo_source_code\<close> is the library muduo, the model of the server's design.

  \<^bold>\<open>Theories and sources.\<close>
  \<^item> \<open>Prelude\<close>: machine types, \<open>returns\<close> (an operation returns and its result has a property), memory of
    a vector, searches, characters; \<open>ByteQueue\<close>: the locale \<open>byte_queue\<close>, the contract of a byte buffer.
  \<^item> \<open>ByteBuffer\<close>: class \<open>Buffer\<close>, a vector and two 64-bit indices. It implements \<open>byte_queue\<close>.
  \<^item> \<open>HttpUtil\<close>: class \<open>Util\<close>; \<open>StdRegex\<close>: the part of \<open>std::regex\<close> the parser and the routes use;
    \<open>HttpMessage\<close>: \<open>HttpRequest\<close> and \<open>HttpResponse\<close>; \<open>HttpContext\<close>: the parser, one definition per method, and a specification
    of it on plain byte sequences that it refines; \<open>HttpGrammar\<close>: the texts of requests.
  \<^item> \<open>TimerWheel\<close>: \<open>TimerTask\<close> and \<open>TimerWheel\<close> with shared and weak pointers as an explicit heap, and the locale \<open>timer_client\<close>
    of what an expiring task may do.
  \<^item> \<open>AnyHolder\<close>: class \<open>Any\<close> with its holders on a heap.
  \<^item> \<open>Reactor\<close>: \<open>Channel\<close> and \<open>Poller\<close> with the kernel's interest list, and the locale \<open>event_monitor\<close>;
    \<open>EventLoop\<close>: the loop, its queue and its event descriptor, and a step relation for the interleaving with other threads;
    \<open>Socket\<close>: \<open>Socket\<close> and \<open>Acceptor\<close> as sequences of system calls; \<open>LoopPool\<close>: \<open>LoopThread\<close> (a step relation over mutex
    and condition variable) and \<open>LoopThreadPool\<close>.
  \<^item> \<open>Connection\<close>: class \<open>Connection\<close>, the whole of each handler; \<open>ConnectionSafety\<close>: its invariant, for every user of the
    class that fulfils the locale \<open>conn_client\<close>; \<open>ConnectionUse\<close>: what the calls of a user do.
  \<^item> \<open>HttpServer\<close>: the server's routes, files and responses; \<open>HttpService\<close> and \<open>HttpRouting\<close>: its properties;
    \<open>Echo\<close>: the echo server. Both are interpretations of \<open>conn_client\<close>. \<open>TcpServer\<close>: acceptance, hand-over,
    removal and delayed tasks, an interpretation of \<open>timer_client\<close>.
  \<^item> \<open>MuduoBuffer\<close> (\<open>net/Buffer.h\<close>, \<open>Buffer.cc\<close>), a second implementation of \<open>byte_queue\<close>; \<open>MuduoPoller\<close>
    (\<open>net/Channel.*\<close>, \<open>poller/EPollPoller.cc\<close>, \<open>poller/PollPoller.cc\<close>) with the locale \<open>channel_poller\<close>, which both pollers
    implement; \<open>MuduoTimerQueue\<close> (\<open>net/TimerQueue.cc\<close>, \<open>Timer.*\<close>); \<open>MuduoHttp\<close> (\<open>net/http\<close>): requests, the parser, responses
    and the callbacks of muduo's HTTP server.
  \<^item> \<open>MuduoEventLoop\<close> (\<open>net/EventLoop.*\<close>, \<open>EventLoopThread.cc\<close>, \<open>EventLoopThreadPool.cc\<close>): the loop and the threads that queue functors in it, as a
    step relation; \<open>MuduoTcpConnection\<close> (\<open>net/TcpConnection.*\<close>): the whole of each operation, in the locale \<open>tcp_poller\<close> over any poller that fulfils
    \<open>channel_poller\<close>; \<open>MuduoTcpServer\<close> (\<open>net/TcpServer.*\<close>, \<open>Acceptor.cc\<close>); \<open>MuduoConnector\<close> (\<open>net/Connector.*\<close>), in the locale \<open>cn_poller\<close>, and
    \<open>MuduoTcpClient\<close> (\<open>net/TcpClient.*\<close>) on top of it.
  \<^item> \<open>MuduoDate\<close> (\<open>base/Date.*\<close>), \<open>MuduoTimeZone\<close> and \<open>MuduoZoneFile\<close> (\<open>base/TimeZone.*\<close>, the conversions and the reader of
    zone files), \<open>MuduoTimestamp\<close> (\<open>base/Timestamp.*\<close>).
  \<^item> \<open>MuduoLogStream\<close> (\<open>base/LogStream.*\<close>), \<open>MuduoLogging\<close> (\<open>base/Logging.*\<close>), \<open>MuduoLogFile\<close> (\<open>base/LogFile.*\<close> and \<open>AppendFile\<close> of
    \<open>FileUtil.cc\<close>), which implements the locale \<open>log_sink\<close>, and \<open>MuduoAsyncLogging\<close> (\<open>base/AsyncLogging.*\<close>), which uses it.
  \<^item> \<open>MuduoThreadPool\<close>: the blocking queues, the latch and the thread pool of muduo as step relations.

  \<^bold>\<open>Conventions.\<close> An object is a record with the fields of its class; an operation is a function from the object (and the
  objects it changes) to the new ones. \<open>None\<close> is a failed assertion, an abort, an access outside an object or, where a
  definition says so, a loop that does not end; a theorem with \<open>returns\<close> therefore says that none of this happens. System calls,
  the file system, the iteration order of hash tables, callbacks of the application, clocks and addresses from \<open>new\<close> are arguments.

  \<^bold>\<open>What is shown.\<close> For the server: every request in the input is answered exactly once and in order and malformed input is
  refused, the responses can be read back, dispatch follows the routes, and a path without \<open>.\<close> components that is served does not leave the root (paths
  with such components can, \<open>path_check_sound\<close>); the bytes sent are always a prefix of the bytes accepted and the output buffer is the rest, so nothing is duplicated or reordered
  and nothing is lost until a release gives up the buffer, as it does when the peer half-closes (\<open>half_close_loses_answer\<close>); pending output is watched, and a
  connection that is shut down is released when its last byte is sent; parsing does not depend on how bytes arrive; timers
  fire on time, once, and not after they were cancelled; tasks queued by any thread are run in order; the
  poller watches what the channels ask for; the pool is fair and publishes its loops safely. For muduo: its buffer behaves as
  the server's, its pollers are interchangeable, its timer queue is safe under callbacks that change it, its dates
  are those of the calendar, local times follow the transitions of a zone and convert back, zone files are read back to the zone they
  describe; its log lines are made of their parts (with the second in the zone in which the thread cached it) and never overrun their buffers, and the asynchronous logger writes every line in
  order in every interleaving (up to the findings on dropped lines); its queues and thread pools keep the order of their items and lose no wake-up;
  its HTTP server recognises and answers well-formed requests however they arrive; its loops lose no wake-up, except for functors that their own thread queued outside of \<open>loop\<close>; its connections never abort, keep their output
  in order and half-close only after the last byte, for every behaviour of the application within the rules stated there; its server keeps exactly the open
  connections in its table and destroys every other once; its acceptor leaks no descriptor, whatever the system answers; its connectors and
  clients leak no socket, back off as specified and go on until they succeed, are stopped or meet a final error.

  \<^bold>\<open>Bounds and fuel.\<close> Sizes of buffers are 64-bit words, and the theorems on growing buffers ask for at most \<open>2^61\<close> or \<open>2^62\<close>
  bytes, above which the growth loop of \<open>EnsureWriteSpace\<close> does not end (shown in \<open>growth_loop_termination\<close>). \<open>OnMessage\<close> calls
  itself through the connection, so it has fuel; \<open>requests_answered\<close> shows that more rounds than \<open>workload\<close> of the input
  (twice the unread bytes plus one) always suffice. The echo server needs one round. All other definitions are total.
  Dates are shown for the years -4799 to 999999, the range in which 32-bit arithmetic does not overflow. The loops of muduo's HTTP
  parser and of \<open>AppendFile\<close> are partial functions, and the theorems show that they return. Strings of muduo's HTTP responses have less than \<open>2^31\<close>
  bytes, because \<open>StringPiece\<close> has an \<open>int\<close> length; connections of a server or client are counted with a checked \<open>int\<close>. Some counters are plain integers because they cannot reach
  their limits: the depth in \<open>IsValid\<close> (a path comes from a request line of at most 8192 bytes), and the \<open>int64_t\<close> microseconds of time stamps and the
  \<open>int64_t\<close> seconds of a local time search (292,000 years).

  \<^bold>\<open>Not modelled.\<close> Interrupted reads and writes of event descriptors, and failures of \<open>epoll_ctl\<close> other than \<open>EEXIST\<close> and \<open>ENOENT\<close>; the logging macros of the server; the creation of descriptors (\<open>eventfd\<close>, \<open>timerfd\<close>); the programs under \<open>Prerequisite\<close>,
  which are experiments with earlier versions of the same classes; \<open>testTool/wrk\<close>, a foreign load generator; of muduo: the destructors of its
  loop and client, floating point formatting, the readers of \<open>/proc\<close>, the RPC and inspection modules and its examples.
\<close>

end
